(* ===== verification/Prelude.thy ===== *)
theory Prelude
  imports
    Main
    "HOL-Library.Word"
    "HOL-Library.AList"
    "HOL-Library.Multiset"
    "HOL-Library.Char_ord"
    "HOL-Library.List_Lexorder"
    "HOL-Library.Product_Lexorder"
begin

text \<open>
  Shared vocabulary of the development: the TypeScript values and library calls that every
  component uses.

  \<^item> \<open>bytes\<close> is a \<open>Uint8Array\<close>; the list order of \<open>List_Lexorder\<close> on it is
    \<open>Buffer.compare\<close> (unsigned, a proper prefix is smaller).
  \<^item> A JavaScript number that the code only uses as an integer is an \<open>int\<close>.
  \<^item> A thrown exception is the \<open>Inl\<close> of a sum; \<open>sbind\<close> sequences two such computations.
  \<^item> \<open>Map\<close> keeps insertion order: it is an association list updated by \<open>AList.update\<close>;
    \<open>Set\<close> is a distinct list extended at its end by \<open>set_add\<close>.
  \<^item> \<open>Array.prototype.sort\<close> is stable: \<open>js_sort\<close>. What it needs of a comparator is the
    locale \<open>comparator\<close>.
  \<^item> What replicas need to converge is the locale \<open>convergent\<close>.
\<close>

named_theorems codec_simps \<open>round trips of encoders and decoders\<close>
named_theorems inv_intros \<open>operations preserve the invariant of their component\<close>
named_theorems view_simps \<open>an operation, seen through the abstraction of its component\<close>

type_synonym byte = "8 word"
type_synonym bytes = "8 word list"

subsection \<open>Exceptions\<close>

definition sbind :: "'e + 'a \<Rightarrow> ('a \<Rightarrow> 'e + 'b) \<Rightarrow> 'e + 'b" where
  "sbind x f = (case x of Inl e \<Rightarrow> Inl e | Inr a \<Rightarrow> f a)"

lemma sbind_simps [simp]:
  "sbind (Inl e) f = Inl e" "sbind (Inr a) f = f a"
  by (simp_all add: sbind_def)

lemma sbind_eq_Inr_iff: "sbind x f = Inr b \<longleftrightarrow> (\<exists>a. x = Inr a \<and> f a = Inr b)"
  by (cases x) auto

lemma sbind_cong [fundef_cong]:
  "x = x' \<Longrightarrow> (\<And>a. x' = Inr a \<Longrightarrow> f a = g a) \<Longrightarrow> sbind x f = sbind x' g"
  by (cases x') auto

fun smap :: "('a \<Rightarrow> 'e + 'b) \<Rightarrow> 'a list \<Rightarrow> 'e + 'b list" where
  "smap f [] = Inr []"
| "smap f (x # xs) = sbind (f x) (\<lambda>y. sbind (smap f xs) (\<lambda>ys. Inr (y # ys)))"

lemma smap_Inr: "(\<And>x. x \<in> set xs \<Longrightarrow> f x = Inr (g x)) \<Longrightarrow> smap f xs = Inr (map g xs)"
  by (induction xs) auto

lemma smap_Inl: "x \<in> set xs \<Longrightarrow> f x = Inl e \<Longrightarrow> \<exists>e'. smap f xs = Inl e'"
proof (induction xs)
  case Nil
  then show ?case by simp
next
  case (Cons y ys)
  show ?case
  proof (cases "f y")
    case (Inl e')
    then show ?thesis by simp
  next
    case (Inr b)
    with Cons have "x \<in> set ys" by auto
    with Cons obtain e' where "smap f ys = Inl e'" by blast
    with Inr show ?thesis by simp
  qed
qed

subsection \<open>JSON values\<close>

text \<open>
  What \<open>JSON.parse\<close> returns. The code asks of a number only its value when it is an
  integer, and otherwise that it is none: \<open>JFrac\<close>. The members of an object are in order,
  without duplicates, and are assigned with \<open>AList.update\<close>.
\<close>

datatype json =
    JNull
  | JBool bool
  | JInt int
  | JFrac
  | JStr string
  | JArr "json list"
  | JObj "(string \<times> json) list"

text \<open>The members of a value of type \<open>object\<close> that is not null; an array has none of those the code asks for.\<close>

definition members :: "json \<Rightarrow> (string \<times> json) list option" where
  "members body = (case body of JObj kvs \<Rightarrow> Some kvs | JArr _ \<Rightarrow> Some [] | _ \<Rightarrow> None)"

definition member :: "string \<Rightarrow> json \<Rightarrow> json option" where
  "member k j = (case j of JObj kvs \<Rightarrow> map_of kvs k | _ \<Rightarrow> None)"

text \<open>\<open>Number(x)\<close> when it is an integer; \<open>None\<close> stands for a missing member.\<close>

fun js_number :: "(string \<Rightarrow> int option) \<Rightarrow> json option \<Rightarrow> int option" where
  "js_number num None = None"
| "js_number num (Some JNull) = Some 0"
| "js_number num (Some (JBool b)) = Some (if b then 1 else 0)"
| "js_number num (Some (JInt i)) = Some i"
| "js_number num (Some JFrac) = None"
| "js_number num (Some (JStr s)) = num s"
| "js_number num (Some (JArr [])) = Some 0"
| "js_number num (Some (JArr [JNull])) = Some 0"
| "js_number num (Some (JArr [JBool b])) = None"
| "js_number num (Some (JArr [x])) = js_number num (Some x)"
| "js_number num (Some (JArr (x # y # xs))) = None"
| "js_number num (Some (JObj kvs)) = None"

subsection \<open>Insertion-ordered sets and maps\<close>

definition set_add :: "'a \<Rightarrow> 'a list \<Rightarrow> 'a list" where
  "set_add x xs = (if x \<in> set xs then xs else xs @ [x])"

lemma set_set_add [simp]: "set (set_add x xs) = insert x (set xs)"
  by (auto simp: set_add_def)

lemma distinct_set_add [simp]: "distinct xs \<Longrightarrow> distinct (set_add x xs)"
  by (simp add: set_add_def)

lemma set_fold_set_add [simp]: "set (fold set_add ys xs) = set ys \<union> set xs"
  by (induction ys arbitrary: xs) auto

lemma distinct_fold_set_add [simp]: "distinct xs \<Longrightarrow> distinct (fold set_add ys xs)"
  by (induction ys arbitrary: xs) auto

lemma map_of_eq_on_keys: "distinct (map fst xs) \<Longrightarrow> p \<in> set xs \<Longrightarrow> map_of xs (fst p) = Some (snd p)"
  by (cases p) simp

lemma update_new: "k \<notin> fst ` set m \<Longrightarrow> AList.update k v m = m @ [(k, v)]"
  by (induction m) auto

lemma set_update_subset: "set (AList.update k v m) \<subseteq> insert (k, v) (set m)"
  by (induction m) auto

lemma map_fst_update_old: "k \<in> fst ` set m \<Longrightarrow> map fst (AList.update k v m) = map fst m"
  by (induction m) auto

lemma distinct_keys_map_filter:
  assumes "distinct (map fst xs)" "\<And>p v. p \<in> set xs \<Longrightarrow> f p = Some v \<Longrightarrow> key v = fst p"
  shows "distinct (map key (List.map_filter f xs)) \<and> key ` set (List.map_filter f xs) \<subseteq> fst ` set xs"
  using assms
proof (induction xs)
  case Nil
  then show ?case by (simp add: map_filter_simps)
next
  case (Cons p xs)
  then have IH: "distinct (map key (List.map_filter f xs))" "key ` set (List.map_filter f xs) \<subseteq> fst ` set xs"
    by auto
  show ?case
  proof (cases "f p")
    case None
    with IH show ?thesis by (auto simp: map_filter_simps)
  next
    case (Some v)
    with Cons.prems(2) [of p v] have "key v = fst p" by simp
    with IH Some Cons.prems(1) show ?thesis by (auto simp: map_filter_simps)
  qed
qed

lemma set_map_filter: "y \<in> set (List.map_filter f xs) \<longleftrightarrow> (\<exists>x \<in> set xs. f x = Some y)"
  by (induction xs) (auto simp: map_filter_simps split: option.splits)

text \<open>What \<open>find\<close> finds is the first.\<close>

lemma find_first: "List.find P xs = Some x \<Longrightarrow> \<exists>us vs. xs = us @ x # vs \<and> P x \<and> (\<forall>u \<in> set us. \<not> P u)"
proof (induction xs)
  case Nil
  then show ?case by simp
next
  case (Cons a xs)
  show ?case
  proof (cases "P a")
    case True
    with Cons.prems have "a # xs = [] @ x # xs \<and> P x \<and> (\<forall>u \<in> set []. \<not> P u)" by simp
    then show ?thesis by blast
  next
    case False
    with Cons obtain us vs where "xs = us @ x # vs" "P x" "\<forall>u \<in> set us. \<not> P u" by auto
    with False show ?thesis by (intro exI [of _ "a # us"] exI [of _ vs]) simp
  qed
qed

lemma find_append: "List.find P (xs @ ys) = (case List.find P xs of None \<Rightarrow> List.find P ys | Some x \<Rightarrow> Some x)"
  by (induction xs) auto

lemma split_at_separator:
  "c \<notin> set xs \<Longrightarrow> c \<notin> set ys \<Longrightarrow> xs @ c # us = ys @ c # vs \<longleftrightarrow> xs = ys \<and> us = vs"
proof (induction xs arbitrary: ys)
  case Nil
  then show ?case by (cases ys) auto
next
  case (Cons x xs)
  then show ?case by (cases ys) auto
qed

subsection \<open>Stable sorting with a comparator\<close>

fun js_insort :: "('a \<Rightarrow> 'a \<Rightarrow> int) \<Rightarrow> 'a \<Rightarrow> 'a list \<Rightarrow> 'a list" where
  "js_insort cmp x [] = [x]"
| "js_insort cmp x (y # ys) = (if cmp x y \<le> 0 then x # y # ys else y # js_insort cmp x ys)"

fun js_sort :: "('a \<Rightarrow> 'a \<Rightarrow> int) \<Rightarrow> 'a list \<Rightarrow> 'a list" where
  "js_sort cmp [] = []"
| "js_sort cmp (x # xs) = js_insort cmp x (js_sort cmp xs)"

lemma mset_js_insort [simp]: "mset (js_insort cmp x xs) = add_mset x (mset xs)"
  by (induction xs) auto

lemma mset_js_sort [simp]: "mset (js_sort cmp xs) = mset xs"
  by (induction xs) auto

lemma set_js_insort [simp]: "set (js_insort cmp x xs) = insert x (set xs)"
  by (induction xs) auto

lemma set_js_sort [simp]: "set (js_sort cmp xs) = set xs"
  by (induction xs) auto

lemma length_js_sort [simp]: "length (js_sort cmp xs) = length xs"
  by (metis mset_js_sort size_mset)

lemma distinct_js_sort [simp]: "distinct (js_sort cmp xs) = distinct xs"
  by (metis mset_js_sort mset_eq_imp_distinct_iff)

lemma js_sort_Nil_iff [simp]: "js_sort cmp xs = [] \<longleftrightarrow> xs = []"
  by (metis length_0_conv length_js_sort)

lemma js_insort_cong:
  "(\<And>y. y \<in> set ys \<Longrightarrow> cmp x y = cmp' x y) \<Longrightarrow> js_insort cmp x ys = js_insort cmp' x ys"
  by (induction ys) auto

lemma js_sort_cong:
  "(\<And>x y. x \<in> set xs \<Longrightarrow> y \<in> set xs \<Longrightarrow> cmp x y = cmp' x y) \<Longrightarrow> js_sort cmp xs = js_sort cmp' xs"
  by (induction xs) (auto intro!: js_insort_cong)

text \<open>
  The contract of a comparator: on the values \<open>ok\<close> that the program sorts it is a total
  preorder, its sign flips with its arguments, and 0 relates it to itself.
\<close>

locale comparator =
  fixes cmp :: "'a \<Rightarrow> 'a \<Rightarrow> int" and ok :: "'a \<Rightarrow> bool"
  assumes flip: "ok x \<Longrightarrow> ok y \<Longrightarrow> sgn (cmp y x) = - sgn (cmp x y)"
    and trans: "ok x \<Longrightarrow> ok y \<Longrightarrow> ok z \<Longrightarrow> cmp x y \<le> 0 \<Longrightarrow> cmp y z \<le> 0 \<Longrightarrow> cmp x z \<le> 0"
begin

lemma refl: "ok x \<Longrightarrow> cmp x x = 0"
  using flip [of x x] by (auto simp: sgn_if split: if_splits)

lemma total: "ok x \<Longrightarrow> ok y \<Longrightarrow> cmp x y \<le> 0 \<or> cmp y x \<le> 0"
  using flip [of x y] by (auto simp: sgn_if split: if_splits)

lemma flip_le: "ok x \<Longrightarrow> ok y \<Longrightarrow> \<not> cmp x y \<le> 0 \<Longrightarrow> cmp y x \<le> 0"
  using total by blast

lemma eq_iff: "ok x \<Longrightarrow> ok y \<Longrightarrow> cmp x y = 0 \<longleftrightarrow> cmp x y \<le> 0 \<and> cmp y x \<le> 0"
  using flip [of x y] by (auto simp: sgn_if split: if_splits)

lemma pos_iff: "ok x \<Longrightarrow> ok y \<Longrightarrow> 0 < cmp x y \<longleftrightarrow> cmp y x < 0"
  using flip [of x y] by (auto simp: sgn_if split: if_splits)

lemma image: "comparator (\<lambda>a b. cmp (f a) (f b)) (\<lambda>a. ok (f a))"
proof
  show "cmp (f x) (f z) \<le> 0"
    if "ok (f x)" "ok (f y)" "ok (f z)" "cmp (f x) (f y) \<le> 0" "cmp (f y) (f z) \<le> 0" for x y z
    using that by (rule trans)
qed (rule flip)

lemma sorted_js_insort:
  assumes "ok x" "\<forall>y \<in> set ys. ok y" "sorted_wrt (\<lambda>a b. cmp a b \<le> 0) ys"
  shows "sorted_wrt (\<lambda>a b. cmp a b \<le> 0) (js_insort cmp x ys)"
  using assms
proof (induction ys)
  case Nil
  then show ?case by simp
next
  case (Cons y ys)
  show ?case
  proof (cases "cmp x y \<le> 0")
    case True
    with Cons.prems show ?thesis by (auto intro: trans [of x y])
  next
    case False
    with Cons show ?thesis by (auto intro: flip_le)
  qed
qed

lemma sorted_js_sort:
  "\<forall>x \<in> set xs. ok x \<Longrightarrow> sorted_wrt (\<lambda>a b. cmp a b \<le> 0) (js_sort cmp xs)"
  by (induction xs) (auto intro: sorted_js_insort)

lemma sorted_unique:
  assumes "set xs = set ys" "distinct xs" "distinct ys" "\<forall>x \<in> set xs. ok x"
    and "\<forall>x \<in> set xs. \<forall>y \<in> set xs. cmp x y = 0 \<longrightarrow> x = y"
    and "sorted_wrt (\<lambda>a b. cmp a b \<le> 0) xs" "sorted_wrt (\<lambda>a b. cmp a b \<le> 0) ys"
  shows "xs = ys"
  using assms
proof (induction xs arbitrary: ys)
  case Nil
  then show ?case by simp
next
  case (Cons x xs)
  obtain y zs where ys: "ys = y # zs"
    using Cons.prems(1) by (cases ys) auto
  have yin: "y \<in> set (x # xs)" and xin: "x \<in> set ys"
    using Cons.prems(1) ys by auto
  have "x = y"
  proof (rule ccontr)
    assume ne: "x \<noteq> y"
    with yin Cons.prems(6) have a: "cmp x y \<le> 0" by auto
    from ne xin ys Cons.prems(7) have b: "cmp y x \<le> 0" by auto
    from a b yin Cons.prems(4) have "cmp x y = 0" by (auto simp: eq_iff)
    with ne yin Cons.prems(5) show False by auto
  qed
  moreover have "xs = zs"
  proof (rule Cons.IH)
    show "set xs = set zs"
      using Cons.prems(1-3) ys \<open>x = y\<close> by auto
    show "\<forall>a \<in> set xs. \<forall>b \<in> set xs. cmp a b = 0 \<longrightarrow> a = b"
      using Cons.prems(5) by simp
  qed (use Cons.prems(2-4,6,7) ys in simp_all)
  ultimately show ?case using ys by simp
qed

text \<open>Sorting forgets the order in which distinct, comparable values arrived.\<close>

lemma js_sort_canonical:
  assumes "set xs = set ys" "distinct xs" "distinct ys" "\<forall>x \<in> set xs. ok x"
    and "\<forall>x \<in> set xs. \<forall>y \<in> set xs. cmp x y = 0 \<longrightarrow> x = y"
  shows "js_sort cmp xs = js_sort cmp ys"
  using assms by (intro sorted_unique) (auto intro!: sorted_js_sort)

lemma last_js_sort_max:
  assumes "\<forall>x \<in> set xs. ok x" "xs \<noteq> []" "y \<in> set xs"
  shows "cmp y (last (js_sort cmp xs)) \<le> 0"
proof -
  let ?s = "js_sort cmp xs"
  have ne: "?s \<noteq> []" using assms(2) by simp
  have "sorted_wrt (\<lambda>a b. cmp a b \<le> 0) (butlast ?s @ [last ?s])"
    using sorted_js_sort [OF assms(1)] ne by simp
  then have le: "\<forall>z \<in> set (butlast ?s). cmp z (last ?s) \<le> 0"
    by (simp add: sorted_wrt_append)
  have "set ?s = insert (last ?s) (set (butlast ?s))"
    using ne by (metis append_butlast_last_id list.set(1,2) set_append Un_insert_right sup_bot.right_neutral)
  with assms(3) have "y = last ?s \<or> y \<in> set (butlast ?s)" by auto
  moreover have "ok (last ?s)"
    using assms(1) ne by (metis last_in_set set_js_sort)
  ultimately show ?thesis using le by (auto simp: refl)
qed

end

text \<open>
  A comparator that moreover separates values: the strict total orders of the code.
\<close>

locale strict_comparator = comparator +
  assumes separates: "ok x \<Longrightarrow> ok y \<Longrightarrow> cmp x y = 0 \<Longrightarrow> x = y"
begin

lemma zero_iff: "ok x \<Longrightarrow> ok y \<Longrightarrow> cmp x y = 0 \<longleftrightarrow> x = y"
  using separates refl by blast

lemma less_trans:
  assumes "ok x" "ok y" "ok z" "cmp x y < 0" "cmp y z < 0"
  shows "cmp x z < 0"
proof -
  have "cmp x z \<le> 0" using assms by (intro trans [of x y z]) auto
  moreover have "cmp x z \<noteq> 0"
  proof
    assume "cmp x z = 0"
    with assms have "x = z" by (simp add: zero_iff)
    with assms flip [of x y] show False by (auto simp: sgn_if split: if_splits)
  qed
  ultimately show ?thesis by simp
qed

lemma less_le_trans:
  "ok x \<Longrightarrow> ok y \<Longrightarrow> ok z \<Longrightarrow> cmp x y < 0 \<Longrightarrow> cmp y z \<le> 0 \<Longrightarrow> cmp x z < 0"
  by (metis less_trans order_le_less zero_iff)

lemma js_sort_set_eq:
  "set xs = set ys \<Longrightarrow> distinct xs \<Longrightarrow> distinct ys \<Longrightarrow> \<forall>x \<in> set xs. ok x \<Longrightarrow>
   js_sort cmp xs = js_sort cmp ys"
  by (intro js_sort_canonical) (auto simp: zero_iff)

end

text \<open>Comparing by one key, then by another.\<close>

lemma comparator_lex:
  assumes "comparator c ok" "comparator d ok"
  shows "comparator (\<lambda>a b. if c a b \<noteq> 0 then c a b else d a b) ok"
proof
  fix x y assume "ok x" "ok y"
  then show "sgn (if c y x \<noteq> 0 then c y x else d y x) = - sgn (if c x y \<noteq> 0 then c x y else d x y)"
    using comparator.flip [OF assms(1), of x y] comparator.flip [OF assms(2), of x y]
    by (auto simp: sgn_if split: if_splits)
next
  fix x y z assume ok: "ok x" "ok y" "ok z"
    and xy: "(if c x y \<noteq> 0 then c x y else d x y) \<le> 0" and yz: "(if c y z \<noteq> 0 then c y z else d y z) \<le> 0"
  then have le: "c x y \<le> 0" "c y z \<le> 0" by (auto split: if_splits)
  then have xz: "c x z \<le> 0" using comparator.trans [OF assms(1)] ok by blast
  show "(if c x z \<noteq> 0 then c x z else d x z) \<le> 0"
  proof (cases "c x z = 0")
    case True
    then have "c z x = 0" using comparator.flip [OF assms(1), of x z] ok by (simp add: sgn_0_0)
    then have "c y x \<le> 0" "c z y \<le> 0"
      using comparator.trans [OF assms(1), of y z x] comparator.trans [OF assms(1), of z x y] ok le by simp_all
    then have "c x y = 0" "c y z = 0" using le comparator.eq_iff [OF assms(1)] ok by blast+
    then show ?thesis using True xy yz comparator.trans [OF assms(2), of x y z] ok by simp
  next
    case False
    with xz show ?thesis by simp
  qed
qed

lemma comparator_diff: "comparator (\<lambda>a b. f a - f b) (\<lambda>_. True)"
  by unfold_locales (auto simp: sgn_if)

text \<open>JavaScript's \<open><\<close> on strings, as the comparator the code writes out by hand.\<close>

definition cmp_lin :: "'a::linorder \<Rightarrow> 'a \<Rightarrow> int" where
  "cmp_lin a b = (if a < b then -1 else if a > b then 1 else 0)"

interpretation lin: strict_comparator cmp_lin "\<lambda>_. True"
  by unfold_locales (auto simp: cmp_lin_def split: if_splits)

lemma cmp_lin_le_iff [simp]: "cmp_lin a b \<le> 0 \<longleftrightarrow> a \<le> b"
  by (auto simp: cmp_lin_def)

lemma cmp_lin_self [simp]: "cmp_lin a a = 0"
  by (simp add: cmp_lin_def)

lemma js_sort_cmp_lin: "js_sort cmp_lin xs = sort xs"
proof (rule properties_for_sort [symmetric])
  show "mset (js_sort cmp_lin xs) = mset xs" by simp
  show "sorted (js_sort cmp_lin xs)"
    using lin.sorted_js_sort [of xs] by simp
qed

subsection \<open>Convergence of replicas\<close>

text \<open>
  A replica applies operations to its concrete state. Through the abstraction \<open>view\<close> each
  application is an abstract step; the steps of compatible operations commute and are
  idempotent. Then the view of a replica depends only on the set of operations it applied,
  not on their order or on how often each arrived.
\<close>

locale convergent =
  fixes apply_op :: "'op \<Rightarrow> 'st \<Rightarrow> 'st"
    and step :: "'op \<Rightarrow> 'v \<Rightarrow> 'v"
    and view :: "'st \<Rightarrow> 'v"
    and ok :: "'op \<Rightarrow> bool"
    and inv :: "'st \<Rightarrow> bool"
    and compat :: "'op \<Rightarrow> 'op \<Rightarrow> bool"
  assumes simulates: "inv s \<Longrightarrow> ok a \<Longrightarrow> view (apply_op a s) = step a (view s)"
    and preserves: "inv s \<Longrightarrow> ok a \<Longrightarrow> inv (apply_op a s)"
    and commutes: "ok a \<Longrightarrow> ok b \<Longrightarrow> compat a b \<Longrightarrow> step a (step b v) = step b (step a v)"
    and idempotent: "ok a \<Longrightarrow> step a (step a v) = step a v"
begin

lemma inv_fold: "inv s \<Longrightarrow> \<forall>a \<in> set ops. ok a \<Longrightarrow> inv (fold apply_op ops s)"
  by (induction ops arbitrary: s) (auto intro: preserves)

lemma view_fold:
  "inv s \<Longrightarrow> \<forall>a \<in> set ops. ok a \<Longrightarrow> view (fold apply_op ops s) = fold step ops (view s)"
  by (induction ops arbitrary: s) (simp_all add: simulates preserves)

lemma fold_step_set:
  assumes "\<forall>a \<in> set xs. ok a" "\<forall>a \<in> set xs. \<forall>b \<in> set xs. compat a b"
  shows "fold step xs v = Finite_Set.fold step v (set xs)"
proof -
  have "comp_fun_idem_on (set xs) step"
    using assms by unfold_locales (auto simp: fun_eq_iff idempotent intro: commutes)
  then show ?thesis by (simp add: comp_fun_idem_on.fold_set_fold)
qed

text \<open>Order, duplication and batching of delivery do not matter.\<close>

lemma converges:
  assumes "inv s" "inv t" "view s = view t" "set xs = set ys"
    and "\<forall>a \<in> set xs. ok a" "\<forall>a \<in> set xs. \<forall>b \<in> set xs. compat a b"
  shows "view (fold apply_op xs s) = view (fold apply_op ys t)"
proof -
  have "fold step xs (view s) = fold step ys (view t)"
    using assms fold_step_set [of xs] fold_step_set [of ys] by simp
  with assms show ?thesis by (simp add: view_fold)
qed

end

end
