(* ===== verification/Bytes.thy ===== *)
theory Bytes
  imports Prelude
begin

text \<open>
  Bytes, big-endian integers, hexadecimal strings and JavaScript's number rounding: the
  library calls (\<open>DataView.setUint32\<close>, \<open>Number.prototype.toString(16)\<close>, \<open>padStart\<close>,
  \<open>parseInt\<close>) and the small loops around them that several modules of \<open>src/daemon/src/crdt\<close>
  repeat. The lemmas show the round trips and that big-endian encoding turns the order of
  numbers into the byte order.
\<close>

subsection \<open>Big-endian integers\<close>

fun be_encode :: "nat \<Rightarrow> int \<Rightarrow> bytes" where
  "be_encode 0 v = []"
| "be_encode (Suc n) v = word_of_int (v div 256 ^ n) # be_encode n v"

fun be_decode_acc :: "int \<Rightarrow> bytes \<Rightarrow> int" where
  "be_decode_acc acc [] = acc"
| "be_decode_acc acc (b # bs) = be_decode_acc (acc * 256 + uint b) bs"

definition be_decode :: "bytes \<Rightarrow> int" where
  "be_decode bs = be_decode_acc 0 bs"

lemma length_be_encode [simp]: "length (be_encode n v) = n"
  by (induction n) auto

lemma uint_byte: "uint (word_of_int v :: byte) = v mod 256"
  by (simp add: uint_word_of_int)

lemma word8_eq_iff: "(word_of_int v :: byte) = word_of_int w \<longleftrightarrow> v mod 256 = w mod 256"
  by (simp add: word_uint_eq_iff uint_byte)

lemma be_encode_mod:
  assumes "n \<le> m"
  shows "be_encode n (v mod 256 ^ m) = be_encode n v"
  using assms
proof (induction n)
  case 0
  then show ?case by simp
next
  case (Suc n)
  then obtain k where m: "m = Suc n + k" using le_Suc_ex by blast
  have "(v mod 256 ^ m) div 256 ^ n mod 256 = v div 256 ^ n mod (256::int)"
  proof -
    have "(256::int) ^ m = 256 ^ n * 256 ^ Suc k"
      unfolding m by (simp add: power_add)
    moreover have "0 \<le> v mod 256 ^ n" "v mod 256 ^ n < (256::int) ^ n" by auto
    ultimately have "(v mod 256 ^ m) div 256 ^ n = v div 256 ^ n mod 256 ^ Suc k"
      by (simp only: zmod_zmult2_eq zero_le_power zero_le_numeral) simp
    then show ?thesis by (simp add: mod_mod_cancel)
  qed
  with Suc show ?case by (simp add: word8_eq_iff)
qed

lemma be_decode_acc_encode:
  "be_decode_acc acc (be_encode n v) = acc * 256 ^ n + v mod 256 ^ n"
proof (induction n arbitrary: acc)
  case 0
  then show ?case by simp
next
  case (Suc n)
  have "v mod (256 ^ n * 256) = 256 ^ n * (v div 256 ^ n mod 256) + v mod 256 ^ n"
    by (rule zmod_zmult2_eq) simp
  with Suc show ?case by (simp add: uint_byte algebra_simps)
qed

lemma be_decode_encode [codec_simps]: "0 \<le> v \<Longrightarrow> v < 256 ^ n \<Longrightarrow> be_decode (be_encode n v) = v"
  by (simp add: be_decode_def be_decode_acc_encode)

lemma be_decode_acc_shift: "be_decode_acc acc bs = acc * 256 ^ length bs + be_decode_acc 0 bs"
proof (induction bs arbitrary: acc)
  case Nil
  then show ?case by simp
next
  case (Cons b bs)
  show ?case
    using Cons [of "acc * 256 + uint b"] Cons [of "uint b"] by (simp add: algebra_simps)
qed

lemma be_decode_Cons: "be_decode (b # bs) = uint b * 256 ^ length bs + be_decode bs"
  using be_decode_acc_shift [of "uint b" bs] by (simp add: be_decode_def)

lemma be_decode_Nil [simp]: "be_decode [] = 0"
  by (simp add: be_decode_def)

lemma be_decode_range: "0 \<le> be_decode bs \<and> be_decode bs < 256 ^ length bs"
proof (induction bs)
  case Nil
  then show ?case by simp
next
  case (Cons b bs)
  have "uint b < 2 ^ LENGTH(8)" by (rule unsigned_less)
  then have "uint b \<le> 255" by simp
  then have "uint b * 256 ^ length bs \<le> 255 * 256 ^ length bs"
    by (rule mult_right_mono) simp
  moreover have "0 \<le> uint b * 256 ^ length bs" by simp
  ultimately show ?case
    unfolding be_decode_Cons length_Cons power_Suc using Cons by linarith
qed

lemma be_encode_decode [codec_simps]: "length bs = n \<Longrightarrow> be_encode n (be_decode bs) = bs"
proof (induction bs arbitrary: n)
  case Nil
  then show ?case by simp
next
  case (Cons b bs)
  let ?k = "length bs"
  have r: "0 \<le> be_decode bs" "be_decode bs < 256 ^ ?k"
    using be_decode_range by auto
  have n: "n = Suc ?k" using Cons.prems by simp
  have "be_decode (b # bs) div 256 ^ ?k = uint b"
    using r by (simp add: be_decode_Cons)
  moreover have "be_encode ?k (be_decode (b # bs)) = be_encode ?k (be_decode bs)"
  proof -
    have "be_decode (b # bs) mod 256 ^ ?k = be_decode bs"
      using r by (simp add: be_decode_Cons)
    then show ?thesis using be_encode_mod [of ?k ?k "be_decode (b # bs)"] by simp
  qed
  ultimately show ?case using Cons.IH [of ?k] by (simp add: n)
qed

text \<open>Equal-length byte strings compare as the numbers they spell.\<close>

lemma bytes_less_iff:
  "length xs = length ys \<Longrightarrow> xs < ys \<longleftrightarrow> be_decode xs < be_decode ys"
proof (induction xs ys rule: list_induct2)
  case Nil
  then show ?case by simp
next
  case (Cons x xs y ys)
  let ?k = "length ys"
  have rx: "0 \<le> be_decode xs" "be_decode xs < 256 ^ ?k"
    using be_decode_range [of xs] Cons.hyps by auto
  have ry: "0 \<le> be_decode ys" "be_decode ys < 256 ^ ?k"
    using be_decode_range [of ys] by auto
  consider (lt) "uint x < uint y" | (eq) "x = y" | (gt) "uint y < uint x"
    by (metis linorder_neqE_linordered_idom word_uint_eq_iff)
  then show ?case
  proof cases
    case lt
    then have "(uint x + 1) * 256 ^ ?k \<le> uint y * 256 ^ ?k"
      by (intro mult_right_mono) auto
    with lt rx ry Cons.hyps show ?thesis
      by (simp add: be_decode_Cons word_less_def algebra_simps)
  next
    case eq
    with Cons show ?thesis by (simp add: be_decode_Cons)
  next
    case gt
    then have "(uint y + 1) * 256 ^ ?k \<le> uint x * 256 ^ ?k"
      by (intro mult_right_mono) auto
    with gt rx ry Cons.hyps show ?thesis
      by (auto simp add: be_decode_Cons word_less_def algebra_simps)
  qed
qed

lemma Nil_less_iff: "[] < xs \<longleftrightarrow> xs \<noteq> []"
  for xs :: "'a::linorder list"
  by (cases xs) auto

lemma append_less_iff:
  "length xs = length ys \<Longrightarrow> xs @ us < ys @ vs \<longleftrightarrow> xs < ys \<or> xs = ys \<and> us < vs"
  for xs ys us vs :: "'a::linorder list"
  by (induction xs ys rule: list_induct2) auto

lemma be_encode_less_iff:
  "0 \<le> v \<Longrightarrow> v < 256 ^ n \<Longrightarrow> 0 \<le> w \<Longrightarrow> w < 256 ^ n \<Longrightarrow> be_encode n v < be_encode n w \<longleftrightarrow> v < w"
  by (simp add: bytes_less_iff be_decode_encode)

lemma be_encode_inject:
  "0 \<le> v \<Longrightarrow> v < 256 ^ n \<Longrightarrow> 0 \<le> w \<Longrightarrow> w < 256 ^ n \<Longrightarrow> be_encode n v = be_encode n w \<longleftrightarrow> v = w"
  by (metis be_decode_encode)

subsection \<open>Hexadecimal\<close>

text \<open>
  \<open>b.toString(16).padStart(2, "0")\<close> is two lowercase digits; \<open>parseInt(s, 16)\<close> on a two
  character slice skips one white space or sign, rejects the bare prefix \<open>0x\<close> and stops at
  the first character that is no digit. \<open>None\<close> is NaN, which a \<open>Uint8Array\<close> stores as 0.
\<close>

definition hex_digit :: "nat \<Rightarrow> char" where
  "hex_digit n = char_of (if n < 10 then n + 48 else n + 87)"

definition hex_val :: "char \<Rightarrow> nat option" where
  "hex_val c = (let n = of_char c :: nat in
     if 48 \<le> n \<and> n \<le> 57 then Some (n - 48)
     else if 97 \<le> n \<and> n \<le> 102 then Some (n - 87)
     else if 65 \<le> n \<and> n \<le> 70 then Some (n - 55)
     else None)"

definition hex_byte :: "byte \<Rightarrow> string" where
  "hex_byte b = [hex_digit (unat b div 16), hex_digit (unat b mod 16)]"

definition bytesToHex :: "bytes \<Rightarrow> string" where
  "bytesToHex bs = concat (map hex_byte bs)"

definition is_space :: "char \<Rightarrow> bool" where
  "is_space c \<longleftrightarrow> (of_char c :: nat) \<in> {9, 10, 11, 12, 13, 32, 160}"

definition parse_hex_pair :: "char \<Rightarrow> char \<Rightarrow> int option" where
  "parse_hex_pair c d =
     (case hex_val c of
        Some m \<Rightarrow>
          (if c = CHR ''0'' \<and> (d = CHR ''x'' \<or> d = CHR ''X'') then None
           else case hex_val d of Some n \<Rightarrow> Some (int (16 * m + n)) | None \<Rightarrow> Some (int m))
      | None \<Rightarrow>
          (if c = CHR ''-'' then map_option (\<lambda>n. - int n) (hex_val d)
           else if c = CHR ''+'' \<or> is_space c then map_option int (hex_val d)
           else None))"

definition pair_byte :: "char \<Rightarrow> char \<Rightarrow> byte" where
  "pair_byte c d = (case parse_hex_pair c d of Some v \<Rightarrow> word_of_int v | None \<Rightarrow> 0)"

text \<open>The decoding loop, over a string of even length.\<close>

fun hex_pairs :: "string \<Rightarrow> bytes" where
  "hex_pairs (c # d # s) = pair_byte c d # hex_pairs s"
| "hex_pairs _ = []"

lemma hex_val_digit [simp]: "n < 16 \<Longrightarrow> hex_val (hex_digit n) = Some n"
  by (simp add: hex_val_def hex_digit_def)

lemma hex_digit_not_x: "n < 16 \<Longrightarrow> hex_digit n \<noteq> CHR ''x'' \<and> hex_digit n \<noteq> CHR ''X''"
proof -
  assume "n < 16"
  then have "hex_val (hex_digit n) = Some n" by simp
  moreover have "hex_val CHR ''x'' = None" "hex_val CHR ''X'' = None"
    by (simp_all add: hex_val_def)
  ultimately show ?thesis by auto
qed

lemma unat_byte_less: "unat (b :: byte) < 256"
  using unsigned_less [of b, where ?'a = nat] by simp

lemma pair_byte_digits: "pair_byte (hex_digit (unat b div 16)) (hex_digit (unat b mod 16)) = b"
proof -
  have "unat b div 16 < 16" using unat_byte_less [of b] by simp
  then show ?thesis
    using hex_digit_not_x [of "unat b mod 16"]
    by (simp add: pair_byte_def parse_hex_pair_def flip: of_nat_mult of_nat_add)
qed

lemma bytesToHex_simps [simp]:
  "bytesToHex [] = []" "bytesToHex (b # bs) = hex_byte b @ bytesToHex bs"
  by (simp_all add: bytesToHex_def)

lemma bytesToHex_append [simp]: "bytesToHex (xs @ ys) = bytesToHex xs @ bytesToHex ys"
  by (simp add: bytesToHex_def)

lemma length_hex_byte [simp]: "length (hex_byte b) = 2"
  by (simp add: hex_byte_def)

lemma length_bytesToHex [simp]: "length (bytesToHex bs) = 2 * length bs"
  by (induction bs) auto

lemma hex_pairs_bytesToHex [codec_simps]: "hex_pairs (bytesToHex bs) = bs"
  by (induction bs) (simp_all add: hex_byte_def pair_byte_digits)

lemma bytesToHex_inject [simp]: "bytesToHex xs = bytesToHex ys \<longleftrightarrow> xs = ys"
  by (metis hex_pairs_bytesToHex)

lemma inj_bytesToHex: "inj bytesToHex"
  by (simp add: inj_on_def)

subsection \<open>Decimal numerals and text\<close>

text \<open>A number in a template literal; a string is the list of its UTF-8 bytes.\<close>

fun nat_dec :: "nat \<Rightarrow> string" where
  "nat_dec n = (if n < 10 then [char_of (n + 48)] else nat_dec (n div 10) @ [char_of (n mod 10 + 48)])"

declare nat_dec.simps [simp del]

definition int_dec :: "int \<Rightarrow> string" where
  "int_dec i = (if i < 0 then CHR ''-'' # nat_dec (nat (- i)) else nat_dec (nat i))"

definition dec_val :: "string \<Rightarrow> nat" where
  "dec_val s = foldl (\<lambda>a c. 10 * a + (of_char c - 48)) 0 s"

definition utf8_encode :: "string \<Rightarrow> bytes" where
  "utf8_encode s = map (\<lambda>c. word_of_nat (of_char c)) s"

definition utf8_decode :: "bytes \<Rightarrow> string" where
  "utf8_decode bs = map (\<lambda>b. char_of (unat b)) bs"

lemma dec_val_nat_dec: "dec_val (nat_dec n) = n"
proof (induction n rule: nat_dec.induct)
  case (1 n)
  show ?case
  proof (cases "n < 10")
    case True
    then show ?thesis by (subst nat_dec.simps) (simp add: dec_val_def)
  next
    case False
    with 1 show ?thesis by (subst nat_dec.simps) (simp add: dec_val_def)
  qed
qed

lemma nat_dec_inject [simp]: "nat_dec m = nat_dec n \<longleftrightarrow> m = n"
  by (metis dec_val_nat_dec)

lemma nat_dec_chars: "c \<in> set (nat_dec n) \<Longrightarrow> 48 \<le> (of_char c :: nat) \<and> (of_char c :: nat) \<le> 57"
proof (induction n rule: nat_dec.induct)
  case (1 n)
  show ?case
  proof (cases "n < 10")
    case True
    with "1.prems" show ?thesis by (subst (asm) nat_dec.simps) simp
  next
    case False
    with 1 show ?thesis by (subst (asm) (2) nat_dec.simps) auto
  qed
qed

lemma nat_dec_not_Nil: "nat_dec n \<noteq> []"
  by (subst nat_dec.simps) simp

lemma int_dec_chars: "c \<in> set (int_dec i) \<Longrightarrow> c = CHR ''-'' \<or> 48 \<le> (of_char c :: nat) \<and> (of_char c :: nat) \<le> 57"
  by (auto simp: int_dec_def dest: nat_dec_chars split: if_splits)

lemma minus_not_nat_dec: "CHR ''-'' # s \<noteq> nat_dec n"
proof
  assume "CHR ''-'' # s = nat_dec n"
  then have "CHR ''-'' \<in> set (nat_dec n)" by (metis list.set_intros(1))
  then show False using nat_dec_chars by fastforce
qed

lemma int_dec_inject [simp]: "int_dec i = int_dec j \<longleftrightarrow> i = j"
  using minus_not_nat_dec minus_not_nat_dec [symmetric] by (auto simp: int_dec_def)

lemma utf8_decode_encode [codec_simps]: "utf8_decode (utf8_encode s) = s"
  by (simp add: utf8_decode_def utf8_encode_def o_def unat_of_nat)

lemma utf8_encode_inject: "utf8_encode s = utf8_encode t \<longleftrightarrow> s = t"
  by (metis utf8_decode_encode)

subsection \<open>Rounding to a double\<close>

text \<open>
  Integer arithmetic of JavaScript is exact below \<open>2 ^ 53\<close>; above, a result is rounded to
  53 significant bits, ties to even. \<open>js_round\<close> does this for a nonnegative integer.
\<close>

fun bit_len :: "nat \<Rightarrow> nat" where
  "bit_len n = (if n = 0 then 0 else Suc (bit_len (n div 2)))"

declare bit_len.simps [simp del]

definition MAX_SAFE_INTEGER :: int where
  "MAX_SAFE_INTEGER = 9007199254740991"

definition js_round :: "int \<Rightarrow> int" where
  "js_round n =
     (if n \<le> MAX_SAFE_INTEGER then n
      else let e = bit_len (nat n) - 53; q = n div 2 ^ e; r = n mod 2 ^ e
           in if 2 * r > 2 ^ e \<or> (2 * r = 2 ^ e \<and> odd q) then (q + 1) * 2 ^ e else q * 2 ^ e)"

lemma js_round_exact: "n \<le> MAX_SAFE_INTEGER \<Longrightarrow> js_round n = n"
  by (simp add: js_round_def)

end
