(* ===== verification/Hlc.thy ===== *)
theory Hlc
  imports Bytes
begin

text \<open>
  The hybrid logical clock of \<open>src/daemon/src/crdt/hlc.ts\<close>: the timestamp \<open>Hlc\<close> and writer
  id, their byte encodings and comparisons, and the generator \<open>HlcGenerator\<close>, whose private
  fields are the record \<open>hlc_gen\<close>. The injected wall clock \<open>now()\<close> is an argument of each
  step. Shown here: the encoding round-trips and its byte order is the order of
  \<open>compareComposite\<close>; that order is total; the generator never repeats or goes back, also
  when its counter overflows or its wall clock jumps; \<open>observe\<close> cannot be used to push the
  clock beyond the skew window.
\<close>

subsection \<open>Timestamps and writer ids\<close>

definition HLC_BYTES :: nat where "HLC_BYTES = 12"
definition WRITER_BYTES :: nat where "WRITER_BYTES = 16"
definition COMPOSITE_BYTES :: nat where "COMPOSITE_BYTES = HLC_BYTES + WRITER_BYTES"
definition COUNTER_MAX :: int where "COUNTER_MAX = 65535"

record hlc =
  wallMs :: int
  counter :: int

type_synonym writer_id = bytes

datatype hlc_error =
    WallMsOutOfRange int
  | CounterOutOfRange int
  | HlcLength nat
  | ReservedNonZero int
  | WriterLength
  | WriterHex

text \<open>
  \<open>encodeHlc\<close>. The fields are integers of the type, so the \<open>Number.isInteger\<close> half of each
  guard is the type; \<open>wallMs >>> 0\<close> is the remainder modulo \<open>2 ^ 32\<close>.
\<close>

definition encodeHlc :: "hlc \<Rightarrow> hlc_error + bytes" where
  "encodeHlc h =
     (if wallMs h < 0 \<or> wallMs h > MAX_SAFE_INTEGER then Inl (WallMsOutOfRange (wallMs h))
      else if counter h < 0 \<or> counter h > COUNTER_MAX then Inl (CounterOutOfRange (counter h))
      else Inr (be_encode 4 (wallMs h div 2 ^ 32) @ be_encode 4 (wallMs h mod 2 ^ 32)
                @ be_encode 2 (counter h) @ [0, 0]))"

definition decodeHlc :: "bytes \<Rightarrow> hlc_error + hlc" where
  "decodeHlc bs =
     (if length bs \<noteq> HLC_BYTES then Inl (HlcLength (length bs))
      else let hi = be_decode (take 4 bs);
               lo = be_decode (take 4 (drop 4 bs));
               wall = js_round (hi * 2 ^ 32 + lo);
               cnt = be_decode (take 2 (drop 8 bs));
               reserved = be_decode (take 2 (drop 10 bs))
           in if reserved \<noteq> 0 then Inl (ReservedNonZero reserved)
              else Inr \<lparr>wallMs = wall, counter = cnt\<rparr>)"

definition compareHlc :: "hlc \<Rightarrow> hlc \<Rightarrow> int" where
  "compareHlc a b =
     (if wallMs a \<noteq> wallMs b then (if wallMs a < wallMs b then -1 else 1)
      else if counter a \<noteq> counter b then (if counter a < counter b then -1 else 1)
      else 0)"

text \<open>The loop of \<open>compareWriter\<close> over two byte strings of the same length.\<close>

fun compare_writer_loop :: "bytes \<Rightarrow> bytes \<Rightarrow> int" where
  "compare_writer_loop (a # as) (b # bs) =
     (if a \<noteq> b then (if a < b then -1 else 1) else compare_writer_loop as bs)"
| "compare_writer_loop _ _ = 0"

definition compareWriter :: "writer_id \<Rightarrow> writer_id \<Rightarrow> hlc_error + int" where
  "compareWriter a b =
     (if length a \<noteq> WRITER_BYTES \<or> length b \<noteq> WRITER_BYTES then Inl WriterLength
      else Inr (compare_writer_loop a b))"

definition compareComposite :: "hlc \<Rightarrow> writer_id \<Rightarrow> hlc \<Rightarrow> writer_id \<Rightarrow> hlc_error + int" where
  "compareComposite ah aw bh bw =
     (let h = compareHlc ah bh in if h \<noteq> 0 then Inr h else compareWriter aw bw)"

definition encodeComposite :: "hlc \<Rightarrow> writer_id \<Rightarrow> hlc_error + bytes" where
  "encodeComposite h w =
     (if length w \<noteq> WRITER_BYTES then Inl WriterLength
      else sbind (encodeHlc h) (\<lambda>e. Inr (e @ w)))"

subsection \<open>The generator\<close>

definition MAX_OBSERVED_SKEW_MS :: int where
  "MAX_OBSERVED_SKEW_MS = 24 * 60 * 60 * 1000"

record hlc_gen =
  gen_last :: hlc
  maxSkewMs :: int
  skewRejections :: nat
  warnedSkew :: bool

definition hlc_gen_new :: "hlc option \<Rightarrow> int option \<Rightarrow> hlc_gen" where
  "hlc_gen_new seed skew =
     \<lparr>gen_last = (case seed of Some h \<Rightarrow> h | None \<Rightarrow> \<lparr>wallMs = 0, counter = 0\<rparr>),
      maxSkewMs = (case skew of Some m \<Rightarrow> m | None \<Rightarrow> MAX_OBSERVED_SKEW_MS),
      skewRejections = 0, warnedSkew = False\<rparr>"

definition tick :: "int \<Rightarrow> hlc_gen \<Rightarrow> hlc \<times> hlc_gen" where
  "tick now g =
     (let l = gen_last g;
          h = (if now > wallMs l then \<lparr>wallMs = now, counter = 0\<rparr>
               else if counter l \<ge> COUNTER_MAX then \<lparr>wallMs = wallMs l + 1, counter = 0\<rparr>
               else \<lparr>wallMs = wallMs l, counter = counter l + 1\<rparr>)
      in (h, g\<lparr>gen_last := h\<rparr>))"

text \<open>
  \<open>observe\<close> returns the verdict, whether it wrote the one warning line, and the new fields.
\<close>

definition observe :: "int \<Rightarrow> hlc \<Rightarrow> hlc_gen \<Rightarrow> bool \<times> bool \<times> hlc_gen" where
  "observe now remote g =
     (let horizon = now + maxSkewMs g
      in if wallMs remote > horizon
         then (False, \<not> warnedSkew g,
               g\<lparr>skewRejections := Suc (skewRejections g), warnedSkew := True\<rparr>)
         else if compareHlc remote (gen_last g) = 1
              then (True, False, g\<lparr>gen_last := \<lparr>wallMs = wallMs remote, counter = counter remote\<rparr>\<rparr>)
              else (True, False, g))"

definition rejectedSkewCount :: "hlc_gen \<Rightarrow> nat" where
  "rejectedSkewCount g = skewRejections g"

definition peek :: "hlc_gen \<Rightarrow> hlc" where
  "peek g = gen_last g"

text \<open>A lifetime of the generator: its calls in order, and what it emitted.\<close>

datatype clock_call = Tick int | Observe int hlc

fun clock_run :: "hlc_gen \<Rightarrow> clock_call list \<Rightarrow> hlc list \<times> hlc_gen" where
  "clock_run g [] = ([], g)"
| "clock_run g (Tick now # cs) =
     (let (h, g') = tick now g; (hs, g'') = clock_run g' cs in (h # hs, g''))"
| "clock_run g (Observe now r # cs) = clock_run (snd (snd (observe now r g))) cs"

subsection \<open>Writer ids as hex\<close>

definition writerIdToHex :: "writer_id \<Rightarrow> hlc_error + string" where
  "writerIdToHex w = (if length w \<noteq> WRITER_BYTES then Inl WriterLength else Inr (bytesToHex w))"

definition writerIdFromHex :: "string \<Rightarrow> hlc_error + writer_id" where
  "writerIdFromHex s =
     (if length s \<noteq> WRITER_BYTES * 2 \<or> \<not> list_all (\<lambda>c. hex_val c \<noteq> None) s then Inl WriterHex
      else Inr (hex_pairs s))"

text \<open>
  \<open>loadOrCreateWriterId\<close>: the config file is missing, unparsable, or JSON. The result is the
  id and the file's content after the call. The random bytes of \<open>generateWriterId\<close> are an
  argument. A JSON array passes the test \<open>typeof parsed === "object"\<close>, but the \<open>writer_id\<close>
  stored on it is not an element and \<open>JSON.stringify\<close> drops it.
\<close>

datatype config_file = NoConfig | Unparsable | Parsed json

definition config_members :: "config_file \<Rightarrow> (string \<times> json) list" where
  "config_members f = (case f of Parsed (JObj kvs) \<Rightarrow> kvs | _ \<Rightarrow> [])"

definition config_store :: "config_file \<Rightarrow> string \<Rightarrow> config_file" where
  "config_store f hex =
     (case f of Parsed (JArr xs) \<Rightarrow> Parsed (JArr xs)
      | _ \<Rightarrow> Parsed (JObj (AList.update ''writer_id'' (JStr hex) (config_members f))))"

definition loadOrCreateWriterId ::
    "config_file \<Rightarrow> writer_id \<Rightarrow> hlc_error + (writer_id \<times> config_file)" where
  "loadOrCreateWriterId f fresh =
     (let create = sbind (writerIdToHex fresh) (\<lambda>hex. Inr (fresh, config_store f hex))
      in case map_of (config_members f) ''writer_id'' of
           Some (JStr s) \<Rightarrow>
             (if length s = WRITER_BYTES * 2
              then (case writerIdFromHex s of Inr w \<Rightarrow> Inr (w, f) | Inl _ \<Rightarrow> create)
              else create)
         | _ \<Rightarrow> create)"

subsection \<open>Encoding\<close>

definition hlc_ok :: "hlc \<Rightarrow> bool" where
  "hlc_ok h \<longleftrightarrow> 0 \<le> wallMs h \<and> wallMs h \<le> MAX_SAFE_INTEGER \<and> 0 \<le> counter h \<and> counter h \<le> COUNTER_MAX"

definition writer_ok :: "writer_id \<Rightarrow> bool" where
  "writer_ok w \<longleftrightarrow> length w = WRITER_BYTES"

lemmas size_defs = HLC_BYTES_def WRITER_BYTES_def COMPOSITE_BYTES_def COUNTER_MAX_def
  MAX_SAFE_INTEGER_def

lemma encodeHlc_Inr_iff: "(\<exists>b. encodeHlc h = Inr b) \<longleftrightarrow> hlc_ok h"
  by (auto simp: encodeHlc_def hlc_ok_def)

lemma encodeHlc_ok:
  "hlc_ok h \<Longrightarrow> encodeHlc h =
     Inr (be_encode 4 (wallMs h div 2 ^ 32) @ be_encode 4 (wallMs h mod 2 ^ 32)
          @ be_encode 2 (counter h) @ [0, 0])"
  by (auto simp: encodeHlc_def hlc_ok_def)

lemma encodeHlc_length: "encodeHlc h = Inr b \<Longrightarrow> length b = HLC_BYTES"
  by (auto simp: encodeHlc_def HLC_BYTES_def split: if_splits)

lemma wall_split: "be_encode 8 v = be_encode 4 (v div 2 ^ 32) @ be_encode 4 (v mod 2 ^ 32)"
proof -
  have "v div 256 ^ (n + 4) = v div 2 ^ 32 div 256 ^ n" for n :: nat
    by (simp add: zdiv_zmult2_eq [symmetric] power_add mult.commute)
  then have "be_encode (n + 4) v = be_encode n (v div 2 ^ 32) @ be_encode 4 v" for n
    by (induction n) (simp_all only: add_Suc be_encode.simps append_Cons append_Nil add_0)
  from this [of 4] show ?thesis using be_encode_mod [of 4 4 v] by simp
qed

lemma encodeHlc_be:
  "hlc_ok h \<Longrightarrow> encodeHlc h = Inr (be_encode 8 (wallMs h) @ be_encode 2 (counter h) @ [0, 0])"
  by (simp add: encodeHlc_ok wall_split)

lemma hlc_ok_ranges:
  assumes "hlc_ok h"
  shows "0 \<le> wallMs h" "wallMs h < 256 ^ 8" "0 \<le> counter h" "counter h < 256 ^ 2"
  using assms by (simp_all add: hlc_ok_def size_defs)

lemma decodeHlc_encodeHlc [codec_simps]:
  assumes "encodeHlc h = Inr b"
  shows "decodeHlc b = Inr h"
proof -
  have ok: "hlc_ok h" using assms encodeHlc_Inr_iff by blast
  then have w: "0 \<le> wallMs h" "wallMs h \<le> MAX_SAFE_INTEGER" and c: "0 \<le> counter h" "counter h < 256 ^ 2"
    by (auto simp: hlc_ok_def size_defs)
  have hi: "0 \<le> wallMs h div 2 ^ 32" "wallMs h div 2 ^ 32 < 256 ^ 4"
    using w by (simp_all add: MAX_SAFE_INTEGER_def)
  have "wallMs h div 2 ^ 32 * 2 ^ 32 + wallMs h mod 2 ^ 32 = wallMs h" by simp
  moreover have "be_decode [0, 0] = 0" by (simp add: be_decode_def)
  ultimately show ?thesis
    using assms ok hi c w
    by (auto simp: encodeHlc_ok decodeHlc_def HLC_BYTES_def Let_def be_decode_encode js_round_exact)
qed

lemma encodeComposite_Inr_iff: "(\<exists>b. encodeComposite h w = Inr b) \<longleftrightarrow> hlc_ok h \<and> writer_ok w"
  using encodeHlc_Inr_iff [of h] by (auto simp: encodeComposite_def writer_ok_def sbind_eq_Inr_iff)

lemma encodeComposite_ok:
  "hlc_ok h \<Longrightarrow> writer_ok w \<Longrightarrow>
   encodeComposite h w = Inr (be_encode 8 (wallMs h) @ be_encode 2 (counter h) @ [0, 0] @ w)"
  by (simp add: encodeComposite_def writer_ok_def encodeHlc_be)

lemma encodeComposite_InrD: "encodeComposite h w = Inr b \<Longrightarrow> hlc_ok h \<and> writer_ok w"
  using encodeComposite_Inr_iff by blast

lemma encodeComposite_length: "encodeComposite h w = Inr b \<Longrightarrow> length b = COMPOSITE_BYTES"
  using encodeComposite_InrD [of h w b]
  by (auto simp: encodeComposite_ok writer_ok_def size_defs)

subsection \<open>Order\<close>

lemma compare_writer_loop_eq:
  "length a = length b \<Longrightarrow> compare_writer_loop a b = cmp_lin a b"
  by (induction a b rule: list_induct2) (auto simp: cmp_lin_def)

lemma compareWriter_ok: "writer_ok a \<Longrightarrow> writer_ok b \<Longrightarrow> compareWriter a b = Inr (cmp_lin a b)"
  by (simp add: compareWriter_def writer_ok_def compare_writer_loop_eq)

interpretation hlc_order: strict_comparator compareHlc "\<lambda>_. True"
  by unfold_locales (auto simp: compareHlc_def split: if_splits)

lemma compareHlc_range: "compareHlc a b \<in> {-1, 0, 1}"
  by (simp add: compareHlc_def)

lemma compareHlc_1_iff: "compareHlc a b = 1 \<longleftrightarrow> compareHlc b a = -1"
  by (auto simp: compareHlc_def)

text \<open>The comparator that \<open>sort\<close> is given; a comparison that throws never happens below.\<close>

definition cmp_composite :: "hlc \<times> writer_id \<Rightarrow> hlc \<times> writer_id \<Rightarrow> int" where
  "cmp_composite a b =
     (case compareComposite (fst a) (snd a) (fst b) (snd b) of Inr c \<Rightarrow> c | Inl _ \<Rightarrow> 0)"

lemma compareComposite_ok:
  "writer_ok aw \<Longrightarrow> writer_ok bw \<Longrightarrow> compareComposite ah aw bh bw = Inr (cmp_composite (ah, aw) (bh, bw))"
  by (simp add: cmp_composite_def compareComposite_def compareWriter_ok Let_def)

lemma cmp_composite_ok:
  "writer_ok (snd a) \<Longrightarrow> writer_ok (snd b) \<Longrightarrow>
   cmp_composite a b = (if compareHlc (fst a) (fst b) \<noteq> 0 then compareHlc (fst a) (fst b)
                        else cmp_lin (snd a) (snd b))"
  by (simp add: cmp_composite_def compareComposite_def compareWriter_ok Let_def)

interpretation composite: strict_comparator cmp_composite "\<lambda>a. writer_ok (snd a)"
proof unfold_locales
  fix x y z :: "hlc \<times> writer_id"
  assume x: "writer_ok (snd x)" and y: "writer_ok (snd y)"
  show "sgn (cmp_composite y x) = - sgn (cmp_composite x y)"
    using x y hlc_order.flip [of "fst x" "fst y"] lin.flip [of "snd x" "snd y"]
    by (auto simp: cmp_composite_ok sgn_if split: if_splits)
  show "x = y" if "cmp_composite x y = 0"
    using that x y hlc_order.zero_iff [of "fst x" "fst y"] lin.zero_iff [of "snd x" "snd y"]
    by (auto simp: cmp_composite_ok prod_eq_iff split: if_splits)
  show "cmp_composite x z \<le> 0"
    if z: "writer_ok (snd z)" and "cmp_composite x y \<le> 0" "cmp_composite y z \<le> 0"
    using that x y hlc_order.trans [of "fst x" "fst y" "fst z"] hlc_order.zero_iff
      hlc_order.eq_iff [of "fst x" "fst y"]
    by (auto simp: cmp_composite_ok split: if_splits)
qed

text \<open>The order of the composite is the order of its bytes.\<close>

lemma encodeComposite_compare:
  assumes "encodeComposite ah aw = Inr x" "encodeComposite bh bw = Inr y"
  shows "compareComposite ah aw bh bw = Inr (cmp_lin x y)"
proof -
  have ok: "hlc_ok ah" "writer_ok aw" "hlc_ok bh" "writer_ok bw"
    using assms encodeComposite_InrD by auto
  have x: "x = be_encode 8 (wallMs ah) @ be_encode 2 (counter ah) @ [0, 0] @ aw"
    and y: "y = be_encode 8 (wallMs bh) @ be_encode 2 (counter bh) @ [0, 0] @ bw"
    using assms ok by (auto simp: encodeComposite_ok)
  note r = hlc_ok_ranges [OF ok(1)] hlc_ok_ranges [OF ok(3)]
  have eqs: "be_encode 8 (wallMs ah) = be_encode 8 (wallMs bh) \<longleftrightarrow> wallMs ah = wallMs bh"
    "be_encode 2 (counter ah) = be_encode 2 (counter bh) \<longleftrightarrow> counter ah = counter bh"
    using r by (simp_all only: be_encode_inject)
  have les: "be_encode 8 (wallMs ah) < be_encode 8 (wallMs bh) \<longleftrightarrow> wallMs ah < wallMs bh"
    "be_encode 8 (wallMs bh) < be_encode 8 (wallMs ah) \<longleftrightarrow> wallMs bh < wallMs ah"
    "be_encode 2 (counter ah) < be_encode 2 (counter bh) \<longleftrightarrow> counter ah < counter bh"
    "be_encode 2 (counter bh) < be_encode 2 (counter ah) \<longleftrightarrow> counter bh < counter ah"
    using r by (simp_all only: be_encode_less_iff)
  have lt: "x < y \<longleftrightarrow> wallMs ah < wallMs bh \<or>
      wallMs ah = wallMs bh \<and> (counter ah < counter bh \<or> counter ah = counter bh \<and> aw < bw)"
    unfolding x y by (simp add: append_less_iff eqs les)
  have gt: "y < x \<longleftrightarrow> wallMs bh < wallMs ah \<or>
      wallMs ah = wallMs bh \<and> (counter bh < counter ah \<or> counter ah = counter bh \<and> bw < aw)"
    unfolding x y by (simp add: append_less_iff eqs les eq_commute [of "be_encode _ (_ bh)"])
  show ?thesis
    using ok(2,4) unfolding cmp_lin_def lt gt
    by (auto simp: compareComposite_ok cmp_composite_ok compareHlc_def cmp_lin_def)
qed

lemma encodeComposite_inject:
  "encodeComposite h w = Inr b \<Longrightarrow> encodeComposite h' w' = Inr b \<Longrightarrow> h = h' \<and> w = w'"
  using encodeComposite_compare [of h w b h' w' b] encodeComposite_InrD
    composite.separates [of "(h, w)" "(h', w')"]
  by (auto simp: compareComposite_ok dest: encodeComposite_InrD)

subsection \<open>The generator\<close>

abbreviation hlc_less :: "hlc \<Rightarrow> hlc \<Rightarrow> bool" where
  "hlc_less a b \<equiv> compareHlc a b = -1"

lemma hlc_less_neg: "hlc_less a b \<longleftrightarrow> compareHlc a b < 0"
  using compareHlc_range [of a b] by auto

lemma hlc_less_trans: "hlc_less a b \<Longrightarrow> hlc_less b c \<Longrightarrow> hlc_less a c"
  by (simp add: hlc_less_neg hlc_order.less_trans)

lemma hlc_le_less_trans: "compareHlc a b \<le> 0 \<Longrightarrow> hlc_less b c \<Longrightarrow> hlc_less a c"
  using hlc_order.zero_iff [of a b] hlc_less_trans [of a b c] by (auto simp: hlc_less_neg order.order_iff_strict)

lemma tick_last [simp]: "gen_last (snd (tick now g)) = fst (tick now g)"
  by (simp add: tick_def Let_def)

lemma tick_frame [simp]:
  "maxSkewMs (snd (tick now g)) = maxSkewMs g"
  "skewRejections (snd (tick now g)) = skewRejections g"
  by (simp_all add: tick_def Let_def)

lemma tick_increases: "hlc_less (gen_last g) (fst (tick now g))"
  by (auto simp: tick_def compareHlc_def Let_def)

lemma tick_counter:
  "0 \<le> counter (gen_last g) \<Longrightarrow> 0 \<le> counter (fst (tick now g)) \<and> counter (fst (tick now g)) \<le> COUNTER_MAX"
  by (auto simp: tick_def Let_def size_defs)

lemma tick_wall: "wallMs (fst (tick now g)) \<le> max now (wallMs (gen_last g) + 1)"
  by (auto simp: tick_def Let_def)

lemma observe_frame [simp]: "maxSkewMs (snd (snd (observe now r g))) = maxSkewMs g"
  by (simp add: observe_def Let_def)

lemma observe_not_back: "compareHlc (gen_last g) (gen_last (snd (snd (observe now r g)))) \<le> 0"
  by (auto simp: observe_def compareHlc_def Let_def)

lemma observe_wall: "wallMs (gen_last (snd (snd (observe now r g)))) \<le> max (wallMs (gen_last g)) (now + maxSkewMs g)"
  by (auto simp: observe_def Let_def)

lemma observe_accepts_iff: "fst (observe now r g) \<longleftrightarrow> wallMs r \<le> now + maxSkewMs g"
  by (auto simp: observe_def Let_def)

lemma observe_dominates:
  assumes "fst (observe now r g)"
  shows "compareHlc r (gen_last (snd (snd (observe now r g)))) \<le> 0"
proof (cases "compareHlc r (gen_last g) = 1")
  case True
  with assms show ?thesis by (simp add: observe_def Let_def compareHlc_def split: if_splits)
next
  case False
  with compareHlc_range [of r "gen_last g"] have "compareHlc r (gen_last g) \<le> 0" by auto
  with assms False show ?thesis by (simp add: observe_def Let_def split: if_splits)
qed

lemma clock_run_inv:
  assumes "clock_run g cs = (hs, g')"
  shows "sorted_wrt hlc_less hs \<and> (\<forall>h \<in> set hs. hlc_less (gen_last g) h)"
  using assms
proof (induction g cs arbitrary: hs g' rule: clock_run.induct)
  case (1 g)
  then show ?case by simp
next
  case (2 g now cs)
  obtain hs' where hs: "hs = fst (tick now g) # hs'" and run: "clock_run (snd (tick now g)) cs = (hs', g')"
    using "2.prems" by (auto simp: split_beta Let_def prod_eq_iff)
  from "2.IH" [OF refl prod.collapse run]
  have "sorted_wrt hlc_less hs'" "\<forall>h \<in> set hs'. hlc_less (fst (tick now g)) h" by auto
  with hs show ?case using hlc_less_trans [OF tick_increases] by (auto simp: tick_increases)
next
  case (3 g now r cs)
  then have "sorted_wrt hlc_less hs"
    and "\<forall>h \<in> set hs. hlc_less (gen_last (snd (snd (observe now r g)))) h" by auto
  then show ?case using hlc_le_less_trans [OF observe_not_back] by blast
qed

fun readings :: "clock_call list \<Rightarrow> int list" where
  "readings [] = []"
| "readings (Tick now # cs) = now # readings cs"
| "readings (Observe now r # cs) = now # readings cs"

lemma clock_run_wall:
  assumes "clock_run g cs = (hs, g')" "\<forall>t \<in> set (readings cs). t \<le> T" "0 \<le> maxSkewMs g"
  shows "wallMs (gen_last g') \<le> max (wallMs (gen_last g)) (T + maxSkewMs g) + int (length hs)"
  using assms
proof (induction g cs arbitrary: hs g' rule: clock_run.induct)
  case (1 g)
  then show ?case by simp
next
  case (2 g now cs)
  obtain hs' where hs: "hs = fst (tick now g) # hs'" and run: "clock_run (snd (tick now g)) cs = (hs', g')"
    using "2.prems" by (auto simp: split_beta Let_def prod_eq_iff)
  have "wallMs (gen_last g') \<le>
      max (wallMs (fst (tick now g))) (T + maxSkewMs g) + int (length hs')"
    using "2.IH" [OF refl prod.collapse run] "2.prems" by simp
  with tick_wall [of now g] "2.prems"(2,3) hs show ?case by auto
next
  case (3 g now r cs)
  then have "wallMs (gen_last g') \<le>
      max (wallMs (gen_last (snd (snd (observe now r g))))) (T + maxSkewMs g) + int (length hs)"
    by simp
  with observe_wall [of now r g] "3.prems"(2) show ?case by auto
qed

lemma clock_run_append:
  "clock_run g (cs @ ds) =
     (let (hs, g') = clock_run g cs; (hs', g'') = clock_run g' ds in (hs @ hs', g''))"
proof (induction cs arbitrary: g)
  case Nil
  then show ?case by simp
next
  case (Cons c cs)
  then show ?case by (cases c) (simp_all add: Let_def split_beta)
qed

lemma writer_hex_roundtrip [codec_simps]:
  "writerIdToHex w = Inr s \<Longrightarrow> length s = WRITER_BYTES * 2 \<and> writerIdFromHex s = Inr w"
proof -
  assume h: "writerIdToHex w = Inr s"
  then have s: "s = bytesToHex w" "length w = WRITER_BYTES" by (auto simp: writerIdToHex_def split: if_splits)
  have "hex_val c \<noteq> None" if "c \<in> set (bytesToHex w)" for c
    using that unat_byte_less
    by (auto simp: bytesToHex_def hex_byte_def less_mult_imp_div_less)
  with s show ?thesis by (auto simp: writerIdFromHex_def list_all_iff hex_pairs_bytesToHex)
qed

subsection \<open>Properties\<close>

text \<open>The 28-byte composite key sorts as the versions it encodes: comparing two encoded
  keys byte by byte gives the verdict of \<open>compareComposite\<close> (wall time, then counter, then
  writer), and two keys are equal only for the same timestamp and writer.\<close>

theorem composite_key_order:
  assumes "encodeComposite ah aw = Inr x" "encodeComposite bh bw = Inr y"
  shows "compareComposite ah aw bh bw = Inr (cmp_lin x y)
    \<and> (x = y \<longleftrightarrow> ah = bh \<and> aw = bw) \<and> length x = COMPOSITE_BYTES"
  using assms encodeComposite_compare [OF assms] encodeComposite_inject encodeComposite_length by auto

theorem composite_key_order_witness:
  "\<exists>x y. encodeComposite \<lparr>wallMs = 1700000000000, counter = 65535\<rparr> (replicate 16 255) = Inr x
     \<and> encodeComposite \<lparr>wallMs = 1700000000001, counter = 0\<rparr> (replicate 16 0) = Inr y
     \<and> compareComposite \<lparr>wallMs = 1700000000000, counter = 65535\<rparr> (replicate 16 255)
         \<lparr>wallMs = 1700000000001, counter = 0\<rparr> (replicate 16 0) = Inr (cmp_lin x y)"
proof -
  have "hlc_ok \<lparr>wallMs = 1700000000000, counter = 65535\<rparr>" "hlc_ok \<lparr>wallMs = 1700000000001, counter = 0\<rparr>"
    and "writer_ok (replicate 16 255)" "writer_ok (replicate 16 0)"
    by (simp_all add: hlc_ok_def writer_ok_def size_defs)
  then obtain x y where
    "encodeComposite \<lparr>wallMs = 1700000000000, counter = 65535\<rparr> (replicate 16 255) = Inr x"
    "encodeComposite \<lparr>wallMs = 1700000000001, counter = 0\<rparr> (replicate 16 0) = Inr y"
    using encodeComposite_ok by metis
  with composite_key_order [OF this] show ?thesis by blast
qed

text \<open>Encoding a timestamp succeeds exactly when its wall time is a safe nonnegative
  integer and its counter fits 16 bits; the 12 bytes it gives decode to the same timestamp.\<close>

theorem hlc_codec_roundtrip:
  "(\<exists>b. encodeHlc h = Inr b \<and> length b = HLC_BYTES \<and> decodeHlc b = Inr h) = hlc_ok h
   \<and> ((\<exists>e. encodeHlc h = Inl e) = (\<not> hlc_ok h))"
  using encodeHlc_Inr_iff [of h] encodeHlc_length decodeHlc_encodeHlc
  by (metis Inl_Inr_False sum.exhaust)

text \<open>Over any lifetime of the generator, whatever the wall clock reads (also backwards)
  and whatever remote timestamps it observes, the timestamps it emits strictly increase and
  exceed the seed; and everything emitted after an accepted remote timestamp exceeds it.\<close>

theorem generator_monotone:
  assumes "clock_run g (cs @ Observe now r # ds) = (hs, g')" "clock_run g cs = (hs0, g0)"
  shows "sorted_wrt hlc_less hs \<and> (\<forall>h \<in> set hs. hlc_less (gen_last g) h)
    \<and> (fst (observe now r g0) \<longrightarrow> (\<forall>h \<in> set (drop (length hs0) hs). hlc_less r h))"
proof -
  obtain ks where ks: "clock_run (snd (snd (observe now r g0))) ds = (ks, g')" "hs = hs0 @ ks"
    using assms by (auto simp: clock_run_append Let_def split_beta prod_eq_iff)
  show ?thesis
    using clock_run_inv [OF assms(1)] clock_run_inv [OF ks(1)] ks(2)
      hlc_le_less_trans [OF observe_dominates] by auto
qed

theorem generator_monotone_witness:
  "sorted_wrt hlc_less [\<lparr>wallMs = 5, counter = 0\<rparr>, \<lparr>wallMs = 9, counter = 3\<rparr>, \<lparr>wallMs = 9, counter = 4\<rparr>]"
  using generator_monotone [of "hlc_gen_new None None" "[Tick 5]" 4 "\<lparr>wallMs = 9, counter = 2\<rparr>" "[Tick 3, Tick 9]"
      "[\<lparr>wallMs = 5, counter = 0\<rparr>, \<lparr>wallMs = 9, counter = 3\<rparr>, \<lparr>wallMs = 9, counter = 4\<rparr>]"
      "hlc_gen_new (Some \<lparr>wallMs = 9, counter = 4\<rparr>) None" "[\<lparr>wallMs = 5, counter = 0\<rparr>]"
      "hlc_gen_new (Some \<lparr>wallMs = 5, counter = 0\<rparr>) None"]
  by (simp add: hlc_gen_new_def tick_def observe_def compareHlc_def MAX_OBSERVED_SKEW_MS_def COUNTER_MAX_def)

text \<open>C26: No remote timestamp can ratchet the clock: a timestamp beyond the skew window is
  refused, counted and leaves the clock where it was, and after any run in which the wall
  clock never read more than \<open>T\<close> the clock is at most the skew window past \<open>T\<close> (or its seed)
  plus one millisecond per emitted timestamp.\<close>

theorem skew_bounded:
  assumes "clock_run g cs = (hs, g')" "\<forall>t \<in> set (readings cs). t \<le> T" "0 \<le> maxSkewMs g"
  shows "wallMs (gen_last g') \<le> max (wallMs (gen_last g)) (T + maxSkewMs g) + int (length hs)
    \<and> (wallMs r > now + maxSkewMs g \<longrightarrow>
        \<not> fst (observe now r g) \<and> peek (snd (snd (observe now r g))) = peek g
        \<and> rejectedSkewCount (snd (snd (observe now r g))) = Suc (rejectedSkewCount g))"
  using clock_run_wall [OF assms] by (simp add: observe_def peek_def rejectedSkewCount_def Let_def)

theorem skew_bounded_witness:
  "wallMs (gen_last (snd (clock_run (hlc_gen_new None (Some 10)) [Observe 5 \<lparr>wallMs = 99, counter = 0\<rparr>, Tick 6]))) \<le> 17"
  using skew_bounded [of "hlc_gen_new None (Some 10)" "[Observe 5 \<lparr>wallMs = 99, counter = 0\<rparr>, Tick 6]"
      "fst (clock_run (hlc_gen_new None (Some 10)) [Observe 5 \<lparr>wallMs = 99, counter = 0\<rparr>, Tick 6])"
      "snd (clock_run (hlc_gen_new None (Some 10)) [Observe 5 \<lparr>wallMs = 99, counter = 0\<rparr>, Tick 6])" 6
      5 "\<lparr>wallMs = 99, counter = 0\<rparr>"]
  by (simp add: hlc_gen_new_def tick_def observe_def Let_def)

text \<open>The identity of a daemon is stable: unless the config file is a JSON array, the
  call that loads or creates the writer id leaves a file from which every later call, with
  whatever fresh random bytes, returns the same id and leaves the file unchanged.\<close>

theorem writer_id_stable:
  assumes "loadOrCreateWriterId f fresh = Inr (w, f')" "\<forall>xs. f \<noteq> Parsed (JArr xs)"
  shows "loadOrCreateWriterId f' fresh' = Inr (w, f')"
proof -
  let ?m = "map_of (config_members f) ''writer_id''"
  consider (kept) s where "?m = Some (JStr s)" "length s = WRITER_BYTES * 2" "writerIdFromHex s = Inr w" "f' = f"
    | (made) hex where "writerIdToHex fresh = Inr hex" "w = fresh" "f' = config_store f hex"
    using assms(1)
    by (auto simp: loadOrCreateWriterId_def sbind_eq_Inr_iff Let_def
        split: option.splits json.splits if_splits sum.splits)
  then show ?thesis
  proof cases
    case kept
    then show ?thesis by (simp add: loadOrCreateWriterId_def)
  next
    case made
    then have "f' = Parsed (JObj (AList.update ''writer_id'' (JStr hex) (config_members f)))"
      using assms(2) by (auto simp: config_store_def split: config_file.splits json.splits)
    then have "map_of (config_members f') ''writer_id'' = Some (JStr hex)"
      by (simp add: config_members_def update_conv')
    with made(2) writer_hex_roundtrip [OF made(1)] show ?thesis
      by (simp add: loadOrCreateWriterId_def)
  qed
qed

theorem writer_id_stable_witness:
  "loadOrCreateWriterId (config_store NoConfig (bytesToHex (replicate 16 7))) (replicate 16 9)
     = Inr (replicate 16 7, config_store NoConfig (bytesToHex (replicate 16 7)))"
  by (rule writer_id_stable [of NoConfig "replicate 16 7"])
    (simp_all add: loadOrCreateWriterId_def writerIdToHex_def config_members_def WRITER_BYTES_def)

end
