(* ===== verification/Lww.thy ===== *)
theory Lww
  imports Hlc
begin

text \<open>
  The LWW register of \<open>src/daemon/src/crdt/lww.ts\<close>: a versioned value, where the version is
  the composite key with the content hash as the last tiebreak. Shown here: the version order
  is a strict total order, \<open>mergeLww\<close> is commutative, associative and idempotent, and a
  register that applies the same operations in any order ends in the same state. The hash
  function \<open>blake3\<close> is an argument.
\<close>

record 'v lww_op =
  lo_entityId :: string
  lo_value :: 'v
  lo_contentHash :: bytes
  lo_hlc :: hlc
  lo_writer :: writer_id

record 'v lww_state =
  ls_entityId :: string
  ls_value :: 'v
  ls_contentHash :: bytes
  ls_hlc :: hlc
  ls_writer :: writer_id

datatype lww_error = EntityMismatch string string | LwwHlc hlc_error

text \<open>\<open>bytesFor\<close> at the one instance the daemon uses, a string.\<close>

definition bytesFor :: "string \<Rightarrow> bytes" where
  "bytesFor v = utf8_encode v"

definition makeLwwOp :: "(bytes \<Rightarrow> bytes) \<Rightarrow> string \<Rightarrow> string \<Rightarrow> hlc \<Rightarrow> writer_id \<Rightarrow> string lww_op" where
  "makeLwwOp blake3 entity v h w =
     \<lparr>lo_entityId = entity, lo_value = v, lo_contentHash = blake3 (bytesFor v), lo_hlc = h, lo_writer = w\<rparr>"

fun same_prefix :: "bytes \<Rightarrow> bytes \<Rightarrow> bool" where
  "same_prefix (a # as) (b # bs) = (if a \<noteq> b then False else same_prefix as bs)"
| "same_prefix _ _ = True"

definition verifyLwwOp :: "(bytes \<Rightarrow> bytes) \<Rightarrow> string lww_op \<Rightarrow> bool" where
  "verifyLwwOp blake3 op =
     (let expected = blake3 (bytesFor (lo_value op))
      in if length expected \<noteq> length (lo_contentHash op) then False
         else same_prefix expected (lo_contentHash op))"

text \<open>
  \<open>byteCompare\<close>: the loop runs over the common prefix; the lengths decide afterwards.
\<close>

fun byteCompare_loop :: "bytes \<Rightarrow> bytes \<Rightarrow> int option" where
  "byteCompare_loop (a # as) (b # bs) =
     (if a \<noteq> b then Some (if a < b then -1 else 1) else byteCompare_loop as bs)"
| "byteCompare_loop _ _ = None"

definition byteCompare :: "bytes \<Rightarrow> bytes \<Rightarrow> int" where
  "byteCompare a b =
     (case byteCompare_loop a b of
        Some c \<Rightarrow> c
      | None \<Rightarrow> if length a \<noteq> length b then (if length a < length b then -1 else 1) else 0)"

definition compareVersion ::
    "hlc \<Rightarrow> writer_id \<Rightarrow> bytes \<Rightarrow> hlc \<Rightarrow> writer_id \<Rightarrow> bytes \<Rightarrow> hlc_error + int" where
  "compareVersion ah aw ac bh bw bc =
     sbind (compareComposite ah aw bh bw) (\<lambda>key. Inr (if key \<noteq> 0 then key else byteCompare ac bc))"

definition opToState :: "'v lww_op \<Rightarrow> 'v lww_state" where
  "opToState op = \<lparr>ls_entityId = lo_entityId op, ls_value = lo_value op,
     ls_contentHash = lo_contentHash op, ls_hlc = lo_hlc op, ls_writer = lo_writer op\<rparr>"

definition applyLww :: "'v lww_state option \<Rightarrow> 'v lww_op \<Rightarrow> lww_error + 'v lww_state" where
  "applyLww prev op =
     (case prev of
        None \<Rightarrow> Inr (opToState op)
      | Some p \<Rightarrow>
          if ls_entityId p \<noteq> lo_entityId op then Inl (EntityMismatch (ls_entityId p) (lo_entityId op))
          else case compareVersion (lo_hlc op) (lo_writer op) (lo_contentHash op)
                      (ls_hlc p) (ls_writer p) (ls_contentHash p) of
                 Inl e \<Rightarrow> Inl (LwwHlc e)
               | Inr c \<Rightarrow> Inr (if c = 1 then opToState op else p))"

definition mergeLww :: "'v lww_state \<Rightarrow> 'v lww_state \<Rightarrow> lww_error + 'v lww_state" where
  "mergeLww a b =
     (if ls_entityId a \<noteq> ls_entityId b then Inl (EntityMismatch (ls_entityId a) (ls_entityId b))
      else case compareVersion (ls_hlc a) (ls_writer a) (ls_contentHash a)
                  (ls_hlc b) (ls_writer b) (ls_contentHash b) of
             Inl e \<Rightarrow> Inl (LwwHlc e)
           | Inr c \<Rightarrow> Inr (if c \<ge> 0 then a else b))"

definition lwwConflict :: "'v lww_op \<Rightarrow> 'v lww_op \<Rightarrow> hlc_error + bool" where
  "lwwConflict a b =
     (if lo_entityId a \<noteq> lo_entityId b then Inr False
      else sbind (compareComposite (lo_hlc a) (lo_writer a) (lo_hlc b) (lo_writer b)) (\<lambda>c.
        Inr (if c \<noteq> 0 then False
             else if length (lo_contentHash a) \<noteq> length (lo_contentHash b) then True
             else \<not> same_prefix (lo_contentHash a) (lo_contentHash b))))"

subsection \<open>Versions\<close>

text \<open>The version of a value as one point of a linear order.\<close>

type_synonym version = "int \<times> int \<times> bytes \<times> bytes"

definition version :: "hlc \<Rightarrow> writer_id \<Rightarrow> bytes \<Rightarrow> version" where
  "version h w c = (wallMs h, counter h, w, c)"

definition ver :: "'v lww_state \<Rightarrow> version" where
  "ver s = version (ls_hlc s) (ls_writer s) (ls_contentHash s)"

lemma same_prefix_eq: "length a = length b \<Longrightarrow> same_prefix a b \<longleftrightarrow> a = b"
  by (induction a b rule: list_induct2) auto

lemma byteCompare_loop_cases:
  "case byteCompare_loop a b of
     Some c \<Rightarrow> c = cmp_lin a b
   | None \<Rightarrow> cmp_lin a b = cmp_lin (length a) (length b)"
  by (induction a b rule: byteCompare_loop.induct) (auto simp: cmp_lin_def Nil_less_iff split: option.splits)

lemma byteCompare_eq: "byteCompare a b = cmp_lin a b"
proof (cases "byteCompare_loop a b")
  case None
  then have "cmp_lin a b = cmp_lin (length a) (length b)"
    using byteCompare_loop_cases [of a b] by simp
  moreover have "byteCompare a b = cmp_lin (length a) (length b)"
    using None by (auto simp: byteCompare_def cmp_lin_def)
  ultimately show ?thesis by simp
next
  case (Some c)
  then show ?thesis using byteCompare_loop_cases [of a b] by (simp add: byteCompare_def)
qed

lemma compareVersion_ok:
  "writer_ok aw \<Longrightarrow> writer_ok bw \<Longrightarrow>
   compareVersion ah aw ac bh bw bc = Inr (cmp_lin (version ah aw ac) (version bh bw bc))"
  by (auto simp: compareVersion_def compareComposite_ok cmp_composite_ok byteCompare_eq version_def
      compareHlc_def cmp_lin_def)

lemma version_inject: "version h w c = version h' w' c' \<longleftrightarrow> h = h' \<and> w = w' \<and> c = c'"
  by (auto simp: version_def)

lemma ver_opToState [simp]: "ver (opToState op) = version (lo_hlc op) (lo_writer op) (lo_contentHash op)"
  by (simp add: ver_def opToState_def)

lemma opToState_sel [simp]:
  "ls_entityId (opToState op) = lo_entityId op" "ls_writer (opToState op) = lo_writer op"
  "ls_hlc (opToState op) = lo_hlc op" "ls_value (opToState op) = lo_value op"
  "ls_contentHash (opToState op) = lo_contentHash op"
  by (simp_all add: opToState_def)

lemma cmp_lin_1_iff: "cmp_lin a b = 1 \<longleftrightarrow> b < a"
  by (auto simp: cmp_lin_def)

lemma cmp_lin_ge_0_iff: "0 \<le> cmp_lin a b \<longleftrightarrow> b \<le> a"
  by (auto simp: cmp_lin_def)

lemma applyLww_ok:
  assumes "writer_ok (lo_writer op)"
    and "\<And>p. prev = Some p \<Longrightarrow> ls_entityId p = lo_entityId op \<and> writer_ok (ls_writer p)"
  shows "applyLww prev op =
    Inr (case prev of None \<Rightarrow> opToState op
         | Some p \<Rightarrow> if ver p < ver (opToState op) then opToState op else p)"
  using assms
  by (auto simp: applyLww_def ver_def opToState_def compareVersion_ok cmp_lin_1_iff split: option.splits)

lemma mergeLww_ok:
  assumes "ls_entityId a = ls_entityId b" "writer_ok (ls_writer a)" "writer_ok (ls_writer b)"
  shows "mergeLww a b = Inr (if ver b \<le> ver a then a else b)"
  using assms by (simp add: mergeLww_def ver_def compareVersion_ok cmp_lin_ge_0_iff)

text \<open>
  Two values are compatible when a tie of their versions, content hash included, means they
  are the same value. For values whose hash was computed by \<open>makeLwwOp\<close> this is collision
  freedom of the hash on the two values.
\<close>

definition lww_compat :: "'v lww_state \<Rightarrow> 'v lww_state \<Rightarrow> bool" where
  "lww_compat a b \<longleftrightarrow> (ls_entityId a = ls_entityId b \<and> ver a = ver b \<longrightarrow> a = b)"

subsection \<open>The registry\<close>

text \<open>The abstract register bank: the largest version of each entity wins.\<close>

definition lww_step :: "'v lww_op \<Rightarrow> (string \<rightharpoonup> 'v lww_state) \<Rightarrow> (string \<rightharpoonup> 'v lww_state)" where
  "lww_step op m = m(lo_entityId op \<mapsto>
     (case m (lo_entityId op) of
        None \<Rightarrow> opToState op
      | Some p \<Rightarrow> if ver p < ver (opToState op) then opToState op else p))"

lemma lww_step_commute:
  assumes "lww_compat (opToState a) (opToState b)"
  shows "lww_step a (lww_step b m) = lww_step b (lww_step a m)"
proof (cases "lo_entityId a = lo_entityId b")
  case False
  then show ?thesis by (simp add: lww_step_def fun_upd_twist)
next
  case True
  then have tie: "ver (opToState a) = ver (opToState b) \<Longrightarrow> opToState a = opToState b"
    using assms by (simp add: lww_compat_def)
  consider "ver (opToState a) < ver (opToState b)" | "ver (opToState a) = ver (opToState b)"
    | "ver (opToState b) < ver (opToState a)"
    by (rule linorder_cases)
  then show ?thesis
    using True tie by cases (auto simp: lww_step_def simp del: ver_opToState split: option.splits)
qed

lemma lww_step_idem: "lww_step a (lww_step a m) = lww_step a m"
  by (auto simp: lww_step_def split: option.splits)

subsection \<open>Properties\<close>

lemma makeLwwOp_verifies [codec_simps]: "verifyLwwOp blake3 (makeLwwOp blake3 e v h w)"
  by (simp add: verifyLwwOp_def makeLwwOp_def same_prefix_eq)

text \<open>Merging register states is a join: on states of one entity whose version ties are
  genuine duplicates, \<open>mergeLww\<close> never throws, is idempotent, commutative and associative, and
  picks the state with the largest version (timestamp, writer, content hash).\<close>

theorem mergeLww_join:
  assumes "writer_ok (ls_writer a)" "writer_ok (ls_writer b)" "writer_ok (ls_writer c)"
    and "ls_entityId a = ls_entityId b" "ls_entityId b = ls_entityId c"
    and "lww_compat a b" "lww_compat b c" "lww_compat a c"
  shows "mergeLww a a = Inr a \<and> mergeLww a b = mergeLww b a
    \<and> sbind (mergeLww a b) (\<lambda>x. mergeLww x c) = sbind (mergeLww b c) (mergeLww a)
    \<and> (\<exists>m. mergeLww a b = Inr m \<and> ver m = max (ver a) (ver b))"
  using assms by (auto simp: mergeLww_ok lww_compat_def max_def)

definition sample_lww :: "int \<Rightarrow> string lww_op" where
  "sample_lww n = \<lparr>lo_entityId = ''e'', lo_value = ''v'', lo_contentHash = [7],
     lo_hlc = \<lparr>wallMs = n, counter = 0\<rparr>, lo_writer = replicate 16 2\<rparr>"

theorem mergeLww_join_witness:
  "mergeLww (opToState (sample_lww 1)) (opToState (sample_lww 2))
   = mergeLww (opToState (sample_lww 2)) (opToState (sample_lww 1))"
  using mergeLww_join [of "opToState (sample_lww 1)" "opToState (sample_lww 2)" "opToState (sample_lww 3)"]
  by (simp add: sample_lww_def writer_ok_def WRITER_BYTES_def lww_compat_def version_def)

text \<open>A register keeps exactly the newest write: applying an operation returns the new
  value if its version is strictly larger and the old state otherwise, so the result never
  has a smaller version than either; operations of another entity are an error.\<close>

theorem applyLww_newest:
  assumes "writer_ok (lo_writer op)" "writer_ok (ls_writer p)"
  shows "applyLww (Some p) op =
     (if ls_entityId p \<noteq> lo_entityId op then Inl (EntityMismatch (ls_entityId p) (lo_entityId op))
      else Inr (if ver p < ver (opToState op) then opToState op else p))"
  using assms by (simp add: applyLww_def applyLww_ok)
    (simp add: ver_def opToState_def compareVersion_ok cmp_lin_1_iff)

theorem applyLww_newest_witness:
  "applyLww (Some (opToState (sample_lww 5))) (sample_lww 5) = Inr (opToState (sample_lww 5))"
  using applyLww_newest [of "sample_lww 5" "opToState (sample_lww 5)"]
  by (simp add: sample_lww_def writer_ok_def WRITER_BYTES_def)


end
