(* ===== verification/Gset.thy ===== *)
theory Gset
  imports Hlc
begin

text \<open>
  The grow-only set of trace observations of \<open>src/daemon/src/crdt/gset.ts\<close>. Its \<open>Map\<close> from
  the hex composite key to the operation is an association list in insertion order. Shown
  here: \<open>apply\<close> and \<open>merge\<close> see only the set of operations, \<open>sortedOps\<close> is canonical, and
  \<open>materializeGset\<close> sums every observation exactly once.
\<close>

definition TS_BUCKET_SECONDS :: int where "TS_BUCKET_SECONDS = 60"

record gset_op =
  g_src :: string
  g_dst :: string
  g_tsBucket :: int
  g_observed :: int
  g_weight :: int
  g_hlc :: hlc
  g_writer :: writer_id

type_synonym gset_state = "(string \<times> gset_op) list"

definition bucketize :: "int \<Rightarrow> int" where
  "bucketize unixSeconds = unixSeconds div TS_BUCKET_SECONDS * TS_BUCKET_SECONDS"

definition opKey :: "gset_op \<Rightarrow> hlc_error + string" where
  "opKey op = sbind (encodeComposite (g_hlc op) (g_writer op)) (\<lambda>b. Inr (bytesToHex b))"

definition gset_size :: "gset_state \<Rightarrow> nat" where
  "gset_size s = length s"

definition gset_put :: "string \<Rightarrow> gset_op \<Rightarrow> gset_state \<Rightarrow> gset_state" where
  "gset_put k op s = (if k \<in> fst ` set s then s else AList.update k op s)"

definition gset_apply :: "gset_op \<Rightarrow> gset_state \<Rightarrow> hlc_error + gset_state" where
  "gset_apply op s = sbind (opKey op) (\<lambda>k. Inr (gset_put k op s))"

fun gset_merge :: "gset_state \<Rightarrow> gset_state \<Rightarrow> gset_state \<times> nat" where
  "gset_merge s [] = (s, 0)"
| "gset_merge s ((k, op) # other) =
     (if k \<in> fst ` set s then gset_merge s other
      else let (s', added) = gset_merge (AList.update k op s) other in (s', Suc added))"

definition gset_cmp :: "gset_op \<Rightarrow> gset_op \<Rightarrow> int" where
  "gset_cmp a b = cmp_composite (g_hlc a, g_writer a) (g_hlc b, g_writer b)"

definition gset_sortedOps :: "gset_state \<Rightarrow> gset_op list" where
  "gset_sortedOps s = js_sort gset_cmp (map snd s)"

fun gset_apply_all :: "gset_op list \<Rightarrow> gset_state \<Rightarrow> hlc_error + gset_state" where
  "gset_apply_all [] s = Inr s"
| "gset_apply_all (op # ops) s = sbind (gset_apply op s) (gset_apply_all ops)"

definition gset_clone :: "gset_state \<Rightarrow> hlc_error + gset_state" where
  "gset_clone s = gset_apply_all (map snd s) []"

record observation_view =
  v_src :: string
  v_dst :: string
  v_tsBucket :: int
  v_observed :: int
  v_weight :: int
  v_observers :: nat

text \<open>The key of a view, \<open>`${src}\\u0000${dst}\\u0000${tsBucket}`\<close>.\<close>

definition NUL :: char where "NUL = char_of (0::nat)"

definition view_key :: "gset_op \<Rightarrow> string" where
  "view_key op = g_src op @ NUL # g_dst op @ NUL # int_dec (g_tsBucket op)"

definition view_new :: "gset_op \<Rightarrow> observation_view" where
  "view_new op = \<lparr>v_src = g_src op, v_dst = g_dst op, v_tsBucket = g_tsBucket op,
     v_observed = g_observed op, v_weight = g_weight op, v_observers = 1\<rparr>"

definition view_add :: "gset_op \<Rightarrow> observation_view \<Rightarrow> observation_view" where
  "view_add op v = v\<lparr>v_observed := v_observed v + g_observed op,
     v_weight := v_weight v + g_weight op, v_observers := v_observers v + 1\<rparr>"

fun materialize_loop ::
    "gset_op list \<Rightarrow> (string \<times> observation_view) list \<Rightarrow> (string \<times> observation_view) list" where
  "materialize_loop [] by_key = by_key"
| "materialize_loop (op # ops) by_key =
     materialize_loop ops
       (case map_of by_key (view_key op) of
          None \<Rightarrow> AList.update (view_key op) (view_new op) by_key
        | Some v \<Rightarrow> AList.update (view_key op) (view_add op v) by_key)"

definition materializeGset :: "gset_state \<Rightarrow> observation_view list" where
  "materializeGset s = map snd (materialize_loop (gset_sortedOps s) [])"

subsection \<open>Invariant\<close>

text \<open>
  Keys are distinct and each is the key of its operation.
\<close>

definition gset_inv :: "gset_state \<Rightarrow> bool" where
  "gset_inv s \<longleftrightarrow> distinct (map fst s) \<and> (\<forall>(k, op) \<in> set s. opKey op = Inr k)"

lemma gset_inv_empty [inv_intros]: "gset_inv []"
  by (simp add: gset_inv_def)

lemma gset_invD: "gset_inv s \<Longrightarrow> (k, op) \<in> set s \<Longrightarrow> opKey op = Inr k"
  by (auto simp: gset_inv_def)

lemma opKey_Inr_iff: "(\<exists>k. opKey op = Inr k) \<longleftrightarrow> hlc_ok (g_hlc op) \<and> writer_ok (g_writer op)"
  using encodeComposite_Inr_iff [of "g_hlc op" "g_writer op"]
  by (auto simp: opKey_def sbind_eq_Inr_iff)

lemma opKey_composite:
  assumes "opKey a = Inr k" "opKey b = Inr k"
  shows "g_hlc a = g_hlc b \<and> g_writer a = g_writer b"
proof -
  obtain x y where "encodeComposite (g_hlc a) (g_writer a) = Inr x" "bytesToHex x = k"
    and "encodeComposite (g_hlc b) (g_writer b) = Inr y" "bytesToHex y = k"
    using assms by (auto simp: opKey_def sbind_eq_Inr_iff)
  then show ?thesis using encodeComposite_inject bytesToHex_inject by metis
qed

lemma map_of_gset_put: "map_of (gset_put k op s) = (if k \<in> dom (map_of s) then map_of s else (map_of s)(k \<mapsto> op))"
  by (simp add: gset_put_def dom_map_of_conv_image_fst update_conv')

lemma gset_put_inv [inv_intros]: "gset_inv s \<Longrightarrow> opKey op = Inr k \<Longrightarrow> gset_inv (gset_put k op s)"
  by (auto simp: gset_inv_def gset_put_def update_new)

lemma gset_apply_inv [inv_intros]: "gset_inv s \<Longrightarrow> gset_apply op s = Inr s' \<Longrightarrow> gset_inv s'"
  by (auto simp: gset_apply_def sbind_eq_Inr_iff intro: gset_put_inv)

lemma gset_apply_all_inv: "gset_inv s \<Longrightarrow> gset_apply_all ops s = Inr s' \<Longrightarrow> gset_inv s'"
  by (induction ops arbitrary: s) (auto simp: sbind_eq_Inr_iff intro: gset_apply_inv)

lemma gset_merge_inv [inv_intros]:
  "gset_inv s \<Longrightarrow> gset_inv t \<Longrightarrow> gset_inv (fst (gset_merge s t))"
proof (induction s t rule: gset_merge.induct)
  case (1 s)
  then show ?case by simp
next
  case (2 s k op other)
  have t: "gset_inv other" "opKey op = Inr k" using "2.prems"(2) by (auto simp: gset_inv_def)
  show ?case
  proof (cases "k \<in> fst ` set s")
    case True
    with 2 t show ?thesis by simp
  next
    case False
    with t "2.prems" have "gset_inv (AList.update k op s)"
      using gset_put_inv [of s op k] by (simp add: gset_put_def)
    with "2.IH"(2) False t show ?thesis by (simp add: split_beta Let_def)
  qed
qed

text \<open>Every key of the state is in range, so sorting never throws.\<close>

lemma gset_inv_writer: "gset_inv s \<Longrightarrow> op \<in> set (map snd s) \<Longrightarrow> writer_ok (g_writer op)"
  using opKey_Inr_iff by (force simp: gset_inv_def)

lemma gset_cmp_zero: "writer_ok (g_writer a) \<Longrightarrow> writer_ok (g_writer b) \<Longrightarrow>
  gset_cmp a b = 0 \<longleftrightarrow> g_hlc a = g_hlc b \<and> g_writer a = g_writer b"
  using composite.zero_iff [of "(g_hlc a, g_writer a)" "(g_hlc b, g_writer b)"]
  by (simp add: gset_cmp_def)

interpretation gset_order: comparator gset_cmp "\<lambda>op. writer_ok (g_writer op)"
  using composite.image [of "\<lambda>op. (g_hlc op, g_writer op)"] by (simp add: gset_cmp_def [abs_def])

lemma gset_inv_distinct: "gset_inv s \<Longrightarrow> distinct (map snd s)"
proof (induction s)
  case Nil
  then show ?case by simp
next
  case (Cons p s)
  obtain k op where p: "p = (k, op)" by (cases p)
  have "op \<notin> set (map snd s)"
  proof
    assume "op \<in> set (map snd s)"
    then obtain k' where k': "(k', op) \<in> set s" by auto
    then have "opKey op = Inr k'" using gset_invD [OF Cons.prems, of k' op] by simp
    moreover have "opKey op = Inr k" using gset_invD [OF Cons.prems, of k op] p by simp
    ultimately have "k' = k" by simp
    with k' have "k \<in> fst ` set s" by (metis fst_conv image_eqI)
    with Cons.prems p show False by (simp add: gset_inv_def)
  qed
  with Cons p show ?case by (simp add: gset_inv_def)
qed

lemma gset_inv_same_key:
  assumes "gset_inv s" "a \<in> set (map snd s)" "b \<in> set (map snd s)"
    and "g_hlc a = g_hlc b" "g_writer a = g_writer b"
  shows "a = b"
proof -
  obtain k l where kl: "(k, a) \<in> set s" "(l, b) \<in> set s" using assms(2,3) by auto
  moreover have "opKey a = opKey b" using assms(4,5) by (simp add: opKey_def)
  moreover have "opKey a = Inr k" "opKey b = Inr l" using kl gset_invD [OF assms(1)] by auto
  ultimately have "k = l" by simp
  with kl assms(1) show ?thesis by (metis gset_inv_def map_of_is_SomeI option.inject)
qed

lemma gset_inv_map_of_set: "gset_inv s \<Longrightarrow> gset_inv t \<Longrightarrow> map_of s = map_of t \<longleftrightarrow> set s = set t"
  by (metis gset_inv_def map_of_eqI map_of_inject_set)

lemma gset_sortedOps_canonical:
  assumes "gset_inv s" "gset_inv t" "map_of s = map_of t"
  shows "gset_sortedOps s = gset_sortedOps t"
  unfolding gset_sortedOps_def
proof (rule gset_order.js_sort_canonical)
  have "set s = set t" using assms gset_inv_map_of_set by blast
  then show "set (map snd s) = set (map snd t)" by simp
  show "\<forall>op \<in> set (map snd s). writer_ok (g_writer op)"
    using assms(1) gset_inv_writer by blast
  then show "\<forall>a \<in> set (map snd s). \<forall>b \<in> set (map snd s). gset_cmp a b = 0 \<longrightarrow> a = b"
    using assms(1) gset_inv_same_key gset_cmp_zero by metis
qed (use assms gset_inv_distinct in auto)

subsection \<open>Convergence\<close>

text \<open>
  \<open>apply\<close> as the daemon runs it on an incoming operation: an operation whose key cannot be
  encoded is dropped.
\<close>

definition gset_receive :: "gset_op \<Rightarrow> gset_state \<Rightarrow> gset_state" where
  "gset_receive op s = (case gset_apply op s of Inr s' \<Rightarrow> s' | Inl _ \<Rightarrow> s)"

definition gset_step :: "gset_op \<Rightarrow> (string \<rightharpoonup> gset_op) \<Rightarrow> (string \<rightharpoonup> gset_op)" where
  "gset_step op m =
     (case opKey op of Inl _ \<Rightarrow> m | Inr k \<Rightarrow> if k \<in> dom m then m else m(k \<mapsto> op))"

definition gset_compat :: "gset_op \<Rightarrow> gset_op \<Rightarrow> bool" where
  "gset_compat a b \<longleftrightarrow> (g_hlc a = g_hlc b \<and> g_writer a = g_writer b \<longrightarrow> a = b)"

lemma gset_receive_inv [inv_intros]: "gset_inv s \<Longrightarrow> gset_inv (gset_receive op s)"
  by (auto simp: gset_receive_def intro: gset_apply_inv split: sum.splits)

lemma gset_receive_view [view_simps]: "map_of (gset_receive op s) = gset_step op (map_of s)"
proof (cases "opKey op")
  case (Inl e)
  then show ?thesis by (simp add: gset_receive_def gset_apply_def gset_step_def)
next
  case (Inr k)
  then show ?thesis
    unfolding gset_receive_def gset_apply_def gset_step_def
    by (simp only: sbind_simps sum.case) (simp only: map_of_gset_put)
qed

lemma gset_step_commute:
  assumes "gset_compat a b"
  shows "gset_step a (gset_step b m) = gset_step b (gset_step a m)"
proof (cases "opKey a = opKey b")
  case True
  show ?thesis
  proof (cases "opKey a")
    case (Inl e)
    with True have "opKey b = Inl e" by simp
    with Inl show ?thesis by (simp add: gset_step_def)
  next
    case (Inr k)
    with True have "opKey b = Inr k" by simp
    with Inr have "g_hlc a = g_hlc b \<and> g_writer a = g_writer b" by (rule opKey_composite)
    with assms have "a = b" unfolding gset_compat_def by blast
    then show ?thesis by simp
  qed
next
  case False
  then show ?thesis
    by (cases "opKey a"; cases "opKey b") (auto simp: gset_step_def)
qed

lemma gset_step_idem: "gset_step a (gset_step a m) = gset_step a m"
  by (auto simp: gset_step_def split: sum.splits)

interpretation gset_replica: convergent gset_receive gset_step map_of "\<lambda>_. True" gset_inv gset_compat
  by unfold_locales (auto simp: gset_receive_view gset_step_idem intro: gset_receive_inv gset_step_commute)

lemma gset_merge_union:
  "distinct (map fst t) \<Longrightarrow> map_of (fst (gset_merge s t)) = map_of t ++ map_of s"
proof (induction s t rule: gset_merge.induct)
  case (1 s)
  then show ?case by simp
next
  case (2 s k op other)
  have fresh: "map_of other k = None" using "2.prems" by (simp add: map_of_eq_None_iff)
  show ?case
  proof (cases "k \<in> fst ` set s")
    case True
    then obtain v where "map_of s k = Some v" by (metis map_of_eq_None_iff not_Some_eq)
    then have "(map_of other)(k \<mapsto> op) ++ map_of s = map_of other ++ map_of s"
      by (auto simp: map_add_def fun_eq_iff split: option.splits)
    with 2 True show ?thesis by (simp add: fun_upd_def)
  next
    case False
    then have "map_of s k = None" by (simp add: map_of_eq_None_iff)
    then have "(map_of other)(k \<mapsto> op) ++ map_of s = map_of other ++ (map_of s)(k \<mapsto> op)"
      using fresh by (auto simp: map_add_def fun_eq_iff split: option.splits)
    with 2 False show ?thesis by (simp add: split_beta Let_def update_conv' fun_upd_def)
  qed
qed

lemma gset_merge_count:
  "length (fst (gset_merge s t)) = length s + snd (gset_merge s t)"
  by (induction s t rule: gset_merge.induct) (simp_all add: split_beta Let_def update_new)

subsection \<open>The materialized view\<close>

lemma view_add_sum:
  "v_observed (fold view_add ops v) = v_observed v + sum_list (map g_observed ops)
   \<and> v_weight (fold view_add ops v) = v_weight v + sum_list (map g_weight ops)
   \<and> v_observers (fold view_add ops v) = v_observers v + length ops
   \<and> v_src (fold view_add ops v) = v_src v \<and> v_dst (fold view_add ops v) = v_dst v
   \<and> v_tsBucket (fold view_add ops v) = v_tsBucket v"
  by (induction ops arbitrary: v) (simp_all add: view_add_def)

lemma materialize_loop_keys:
  "distinct (map fst m) \<Longrightarrow> distinct (map fst (materialize_loop ops m)) \<and>
   fst ` set (materialize_loop ops m) = fst ` set m \<union> view_key ` set ops"
proof (induction ops m rule: materialize_loop.induct)
  case (1 m)
  then show ?case by simp
next
  case (2 op ops m)
  have "fst ` set (AList.update k v m) = insert k (fst ` set m)" for k v
    using dom_update [of k v m] by simp
  with 2 show ?case by (auto split: option.splits simp: distinct_update)
qed

lemma materialize_loop_lookup:
  "map_of (materialize_loop ops m) k =
     (case filter (\<lambda>op. view_key op = k) ops of
        [] \<Rightarrow> map_of m k
      | op # ops' \<Rightarrow> Some (fold view_add ops'
          (case map_of m k of None \<Rightarrow> view_new op | Some v \<Rightarrow> view_add op v)))"
proof (induction ops m rule: materialize_loop.induct)
  case (1 m)
  then show ?case by simp
next
  case (2 op ops m)
  then show ?case
    by (cases "view_key op = k") (auto simp: update_conv' split: option.splits list.splits)
qed

text \<open>A view holds the sums over exactly the operations with its key.\<close>

lemma materialize_loop_sums:
  assumes "(k, v) \<in> set (materialize_loop ops [])"
  defines "mine \<equiv> filter (\<lambda>op. view_key op = k) ops"
  shows "v_observed v = sum_list (map g_observed mine) \<and> v_weight v = sum_list (map g_weight mine)
    \<and> v_observers v = length mine
    \<and> (\<exists>op \<in> set ops. view_key op = k \<and> v_src v = g_src op \<and> v_dst v = g_dst op \<and> v_tsBucket v = g_tsBucket op)"
proof -
  have "map_of (materialize_loop ops []) k = Some v"
    using assms(1) materialize_loop_keys [of "[]" ops] by simp
  then obtain op ops' where mine: "mine = op # ops'" and v: "v = fold view_add ops' (view_new op)"
    unfolding mine_def by (auto simp: materialize_loop_lookup split: list.splits)
  have "op \<in> set mine" using mine by simp
  then have "op \<in> set ops \<and> view_key op = k" by (simp add: mine_def)
  with mine v show ?thesis by (auto simp: view_add_sum view_new_def)
qed

definition coords :: "gset_op \<Rightarrow> string \<times> string \<times> int" where
  "coords op = (g_src op, g_dst op, g_tsBucket op)"

definition view_coords :: "observation_view \<Rightarrow> string \<times> string \<times> int" where
  "view_coords v = (v_src v, v_dst v, v_tsBucket v)"

definition nul_free :: "gset_op \<Rightarrow> bool" where
  "nul_free op \<longleftrightarrow> NUL \<notin> set (g_src op) \<and> NUL \<notin> set (g_dst op)"

lemma view_key_coords:
  "nul_free a \<Longrightarrow> nul_free b \<Longrightarrow> view_key a = view_key b \<longleftrightarrow> coords a = coords b"
  by (simp add: view_key_def nul_free_def coords_def split_at_separator)

subsection \<open>Properties\<close>

text \<open>Two replicas of the observation set that received the same operations, in any
  order and with any repetitions, list the same operations in the same order and show the
  same materialized view; operations whose key cannot be encoded change nothing.\<close>

theorem gset_convergence:
  assumes "set xs = set ys" "\<forall>a \<in> set xs. \<forall>b \<in> set xs. gset_compat a b"
  shows "gset_sortedOps (fold gset_receive xs []) = gset_sortedOps (fold gset_receive ys [])
    \<and> materializeGset (fold gset_receive xs []) = materializeGset (fold gset_receive ys [])"
proof -
  have "map_of (fold gset_receive xs []) = map_of (fold gset_receive ys [])"
    using gset_replica.converges [of "[]" "[]" xs ys] assms by (simp add: gset_inv_empty)
  moreover have "gset_inv (fold gset_receive zs [])" for zs
    using gset_replica.inv_fold [of "[]" zs] by (simp add: gset_inv_empty)
  ultimately have "gset_sortedOps (fold gset_receive xs []) = gset_sortedOps (fold gset_receive ys [])"
    by (intro gset_sortedOps_canonical)
  then show ?thesis by (simp add: materializeGset_def)
qed

definition sample_gset_op :: "int \<Rightarrow> gset_op" where
  "sample_gset_op n = \<lparr>g_src = ''a'', g_dst = ''b'', g_tsBucket = 60, g_observed = n, g_weight = 2,
     g_hlc = \<lparr>wallMs = 100 + n, counter = 0\<rparr>, g_writer = replicate 16 1\<rparr>"

theorem gset_convergence_witness:
  "materializeGset (fold gset_receive [sample_gset_op 1, sample_gset_op 2] [])
   = materializeGset (fold gset_receive [sample_gset_op 2, sample_gset_op 1, sample_gset_op 2] [])"
  using gset_convergence [of "[sample_gset_op 1, sample_gset_op 2]" "[sample_gset_op 2, sample_gset_op 1, sample_gset_op 2]"]
  by (simp add: gset_compat_def sample_gset_op_def insert_commute)

lemma gset_merge_present:
  "set (map fst t) \<subseteq> set (map fst s) \<Longrightarrow> gset_merge s t = (s, 0)"
  by (induction s t rule: gset_merge.induct) auto

text \<open>Merging keeps every operation of both sides, its own on a shared key, and reports
  exactly the number of operations that were new; merging the same state twice adds nothing.\<close>

theorem gset_merge_is_union:
  assumes "gset_inv s" "gset_inv t"
  shows "map_of (fst (gset_merge s t)) = map_of t ++ map_of s
    \<and> snd (gset_merge s t) = card (dom (map_of t) - dom (map_of s))
    \<and> gset_merge (fst (gset_merge s t)) t = (fst (gset_merge s t), 0)"
proof -
  let ?m = "fst (gset_merge s t)"
  have d: "distinct (map fst t)" "distinct (map fst s)" "distinct (map fst ?m)"
    using assms gset_merge_inv [OF assms] by (auto simp: gset_inv_def)
  have u: "map_of ?m = map_of t ++ map_of s" using gset_merge_union [OF d(1)] .
  then have dom: "dom (map_of ?m) = dom (map_of s) \<union> (dom (map_of t) - dom (map_of s))" by auto
  have card: "card (dom (map_of xs)) = length xs" if "distinct (map fst xs)" for xs :: gset_state
    using distinct_card [OF that] by (simp add: dom_map_of_conv_image_fst)
  have "length ?m = length s + card (dom (map_of t) - dom (map_of s))"
    using card_Un_disjoint [of "dom (map_of s)" "dom (map_of t) - dom (map_of s)"] card [OF d(3)] card [OF d(2)] dom
    by (simp add: finite_dom_map_of)
  then have "snd (gset_merge s t) = card (dom (map_of t) - dom (map_of s))"
    using gset_merge_count [of s t] by simp
  moreover have "set (map fst t) \<subseteq> set (map fst ?m)"
    using dom by (auto simp: dom_map_of_conv_image_fst)
  ultimately show ?thesis using u gset_merge_present by blast
qed

theorem gset_merge_is_union_witness:
  "snd (gset_merge (gset_receive (sample_gset_op 1) []) (gset_receive (sample_gset_op 2) []))
   = card (dom (map_of (gset_receive (sample_gset_op 2) [])) - dom (map_of (gset_receive (sample_gset_op 1) [])))"
  using gset_merge_is_union [of "gset_receive (sample_gset_op 1) []" "gset_receive (sample_gset_op 2) []"]
  by (simp add: gset_receive_inv gset_inv_empty)

text \<open>The materialized view has exactly one row per source, destination and time bucket
  that was observed, and the row sums every operation of that cell exactly once: observed
  counts, weights and the number of observers.\<close>

theorem materialize_sums:
  assumes "\<forall>op \<in> set (map snd s). nul_free op"
  shows "distinct (map view_coords (materializeGset s))
    \<and> view_coords ` set (materializeGset s) = coords ` set (map snd s)
    \<and> (\<forall>v \<in> set (materializeGset s).
        let mine = filter (\<lambda>op. coords op = view_coords v) (gset_sortedOps s)
        in v_observed v = sum_list (map g_observed mine) \<and> v_weight v = sum_list (map g_weight mine)
           \<and> v_observers v = length mine)"
proof -
  let ?ops = "gset_sortedOps s" and ?m = "materialize_loop (gset_sortedOps s) []"
  have set: "set ?ops = set (map snd s)" by (simp add: gset_sortedOps_def)
  have nf: "\<forall>op \<in> set ?ops. nul_free op" using assms set by simp
  have keys: "distinct (map fst ?m)" "fst ` set ?m = view_key ` set ?ops"
    using materialize_loop_keys [of "[]" ?ops] by auto
  have row: "\<exists>op \<in> set ?ops. view_key op = k \<and> view_coords v = coords op" if "(k, v) \<in> set ?m" for k v
    using materialize_loop_sums [OF that] by (auto simp: view_coords_def coords_def)
  have vc: "(view_coords v = coords op) = (k = view_key op)" if "(k, v) \<in> set ?m" "op \<in> set ?ops" for k v op
    using row [OF that(1)] that(2) nf view_key_coords by metis
  have "inj_on view_coords (snd ` set ?m)"
  proof (rule inj_onI, clarsimp)
    fix k v l w assume kv: "(k, v) \<in> set ?m" "(l, w) \<in> set ?m" "view_coords v = view_coords w"
    then have "k = l" using row vc by metis
    with kv(1,2) keys(1) show "v = w" by (metis map_of_is_SomeI option.inject)
  qed
  moreover have "distinct (map snd ?m)"
  proof -
    have "inj_on snd (set ?m)"
    proof (rule inj_onI, clarsimp)
      fix k l v assume "(k, v) \<in> set ?m" "(l, v) \<in> set ?m"
      then show "k = l" using row vc by metis
    qed
    then show ?thesis using keys(1) by (simp add: distinct_map)
  qed
  ultimately have "distinct (map view_coords (materializeGset s))"
    unfolding materializeGset_def by (subst distinct_map) simp
  moreover have "view_coords ` set (materializeGset s) = coords ` set (map snd s)"
    unfolding materializeGset_def set [symmetric]
  proof (intro equalityI subsetI)
    fix c assume "c \<in> view_coords ` set (map snd ?m)"
    then obtain k v where "(k, v) \<in> set ?m" "c = view_coords v" by auto
    then show "c \<in> coords ` set ?ops" using row by blast
  next
    fix c assume "c \<in> coords ` set ?ops"
    then obtain op where op: "op \<in> set ?ops" "c = coords op" by blast
    then have "view_key op \<in> fst ` set ?m" using keys(2) by blast
    then obtain v where v: "(view_key op, v) \<in> set ?m" by force
    then have "view_coords v = c" using vc op by blast
    moreover have "v \<in> set (map snd ?m)" using v by force
    ultimately show "c \<in> view_coords ` set (map snd ?m)" by blast
  qed
  moreover have "let mine = filter (\<lambda>op. coords op = view_coords v) ?ops
      in v_observed v = sum_list (map g_observed mine) \<and> v_weight v = sum_list (map g_weight mine)
         \<and> v_observers v = length mine" if vin: "v \<in> set (materializeGset s)" for v
  proof -
    obtain k where k: "(k, v) \<in> set ?m" using vin by (auto simp: materializeGset_def)
    have "filter (\<lambda>op. coords op = view_coords v) ?ops = filter (\<lambda>op. view_key op = k) ?ops"
      by (intro filter_cong [OF refl]) (use vc [OF k] in metis)
    with materialize_loop_sums [OF k] show ?thesis by (simp add: Let_def)
  qed
  ultimately show ?thesis by blast
qed

theorem materialize_sums_witness:
  "view_coords ` set (materializeGset [(''k'', sample_gset_op 1), (''l'', sample_gset_op 2)]) = {(''a'', ''b'', 60)}"
  using materialize_sums [of "[(''k'', sample_gset_op 1), (''l'', sample_gset_op 2)]"]
  by (simp add: sample_gset_op_def nul_free_def NUL_def coords_def char_of_def)

end
