(* ===== verification/Orset.thy ===== *)
theory Orset
  imports Hlc
begin

text \<open>
  The observed-remove set behind the claim board, \<open>src/daemon/src/crdt/orset.ts\<close>: \<open>adds\<close>
  maps a claim id to its add records in insertion order, \<open>removed\<close> is a set of tags. Shown
  here: the invariant of the two maps, convergence of the state and of \<open>active\<close>, that a
  remove hides exactly the tags it lists, and that \<open>makeRemoveOpFor\<close> releases its claim.
\<close>

type_synonym tag = string

record claim_payload =
  cp_intent :: string
  cp_scope :: "string list"
  cp_fingerprint :: string
  cp_createdMs :: int
  cp_ttlMs :: int

record or_add =
  oa_claimId :: string
  oa_agent :: string
  oa_payload :: claim_payload
  oa_hlc :: hlc
  oa_writer :: writer_id

record or_remove =
  or_claimId :: string
  or_observedTags :: "tag list"
  or_hlc :: hlc
  or_writer :: writer_id

datatype or_op = OrAdd or_add | OrRemove or_remove

definition tagOf :: "hlc \<Rightarrow> writer_id \<Rightarrow> hlc_error + tag" where
  "tagOf h w = sbind (encodeComposite h w) (\<lambda>b. Inr (bytesToHex b))"

definition addOpTag :: "or_add \<Rightarrow> hlc_error + tag" where
  "addOpTag op = tagOf (oa_hlc op) (oa_writer op)"

record add_record =
  ar_op :: or_add
  ar_tag :: tag

record orset =
  adds :: "(string \<times> add_record list) list"
  removed :: "tag list"

definition orset_empty :: orset where
  "orset_empty = \<lparr>adds = [], removed = []\<rparr>"

definition adds_get :: "orset \<Rightarrow> string \<Rightarrow> add_record list" where
  "adds_get s cid = (case map_of (adds s) cid of Some rs \<Rightarrow> rs | None \<Rightarrow> [])"

definition put_add :: "tag \<Rightarrow> or_add \<Rightarrow> orset \<Rightarrow> orset" where
  "put_add t op s =
     (let rs = adds_get s (oa_claimId op)
      in if list_ex (\<lambda>r. ar_tag r = t) rs then s
         else s\<lparr>adds := AList.update (oa_claimId op) (rs @ [\<lparr>ar_op = op, ar_tag = t\<rparr>]) (adds s)\<rparr>)"

definition applyAdd :: "or_add \<Rightarrow> orset \<Rightarrow> hlc_error + orset" where
  "applyAdd op s = sbind (addOpTag op) (\<lambda>t. Inr (put_add t op s))"

definition applyRemove :: "or_remove \<Rightarrow> orset \<Rightarrow> orset" where
  "applyRemove op s = s\<lparr>removed := fold set_add (or_observedTags op) (removed s)\<rparr>"

fun orset_apply :: "or_op \<Rightarrow> orset \<Rightarrow> hlc_error + orset" where
  "orset_apply (OrAdd op) s = applyAdd op s"
| "orset_apply (OrRemove op) s = Inr (applyRemove op s)"

fun apply_adds :: "or_add list \<Rightarrow> orset \<Rightarrow> hlc_error + orset" where
  "apply_adds [] s = Inr s"
| "apply_adds (op # ops) s = sbind (applyAdd op s) (apply_adds ops)"

text \<open>The records of all claims, claim by claim, in insertion order.\<close>

definition all_adds :: "orset \<Rightarrow> or_add list" where
  "all_adds s = concat (map (\<lambda>(_, rs). map ar_op rs) (adds s))"

definition orset_merge :: "orset \<Rightarrow> orset \<Rightarrow> hlc_error + orset" where
  "orset_merge s other =
     sbind (apply_adds (all_adds other) s) (\<lambda>s'.
       Inr (s'\<lparr>removed := fold set_add (removed other) (removed s')\<rparr>))"

definition add_cmp :: "or_add \<Rightarrow> or_add \<Rightarrow> int" where
  "add_cmp a b = cmp_composite (oa_hlc a, oa_writer a) (oa_hlc b, oa_writer b)"

definition live_records :: "tag list \<Rightarrow> int option \<Rightarrow> add_record list \<Rightarrow> add_record list" where
  "live_records rem now rs =
     filter (\<lambda>r. ar_tag r \<notin> set rem
                 \<and> (case now of None \<Rightarrow> True | Some t \<Rightarrow> cp_ttlMs (oa_payload (ar_op r)) > t)) rs"

definition winner :: "tag list \<Rightarrow> int option \<Rightarrow> add_record list \<Rightarrow> or_add option" where
  "winner rem now rs =
     (let live = live_records rem now rs
      in if live = [] then None
         else Some (ar_op (last (js_sort (\<lambda>a b. add_cmp (ar_op a) (ar_op b)) live))))"

definition claimId_cmp :: "or_add \<Rightarrow> or_add \<Rightarrow> int" where
  "claimId_cmp a b = cmp_lin (oa_claimId a) (oa_claimId b)"

definition active :: "int option \<Rightarrow> orset \<Rightarrow> or_add list" where
  "active now s = js_sort claimId_cmp (List.map_filter (\<lambda>(_, rs). winner (removed s) now rs) (adds s))"

definition orset_clone :: "orset \<Rightarrow> hlc_error + orset" where
  "orset_clone s =
     sbind (apply_adds (all_adds s) orset_empty) (\<lambda>s'.
       Inr (s'\<lparr>removed := fold set_add (removed s) (removed s')\<rparr>))"

definition sortedAdds :: "orset \<Rightarrow> or_add list" where
  "sortedAdds s = js_sort add_cmp (all_adds s)"

definition removedTags :: "orset \<Rightarrow> tag list" where
  "removedTags s = sort (removed s)"

definition makeRemoveOpFor :: "orset \<Rightarrow> string \<Rightarrow> hlc \<Rightarrow> writer_id \<Rightarrow> hlc_error + or_remove" where
  "makeRemoveOpFor s cid h w =
     sbind (smap addOpTag (filter (\<lambda>a. oa_claimId a = cid) (sortedAdds s))) (\<lambda>observed.
       Inr \<lparr>or_claimId = cid, or_observedTags = observed, or_hlc = h, or_writer = w\<rparr>)"

subsection \<open>Invariant\<close>

text \<open>
  Claim ids are distinct, no record list is empty, and each record sits under the claim id
  and tag of its operation, one record per tag.
\<close>

definition recs_ok :: "string \<Rightarrow> add_record list \<Rightarrow> bool" where
  "recs_ok cid rs \<longleftrightarrow> rs \<noteq> [] \<and> distinct (map ar_tag rs) \<and>
     (\<forall>r \<in> set rs. oa_claimId (ar_op r) = cid \<and> addOpTag (ar_op r) = Inr (ar_tag r))"

definition orset_inv :: "orset \<Rightarrow> bool" where
  "orset_inv s \<longleftrightarrow> distinct (map fst (adds s)) \<and> distinct (removed s) \<and>
     (\<forall>(cid, rs) \<in> set (adds s). recs_ok cid rs)"

lemma orset_inv_empty [inv_intros]: "orset_inv orset_empty"
  by (simp add: orset_inv_def orset_empty_def)

lemma addOpTag_Inr_iff: "(\<exists>t. addOpTag op = Inr t) \<longleftrightarrow> hlc_ok (oa_hlc op) \<and> writer_ok (oa_writer op)"
  using encodeComposite_Inr_iff [of "oa_hlc op" "oa_writer op"]
  by (auto simp: addOpTag_def tagOf_def sbind_eq_Inr_iff)

lemma addOpTag_composite:
  assumes "addOpTag a = Inr t" "addOpTag b = Inr t"
  shows "oa_hlc a = oa_hlc b \<and> oa_writer a = oa_writer b"
proof -
  obtain x y where "encodeComposite (oa_hlc a) (oa_writer a) = Inr x" "bytesToHex x = t"
    and "encodeComposite (oa_hlc b) (oa_writer b) = Inr y" "bytesToHex y = t"
    using assms by (auto simp: addOpTag_def tagOf_def sbind_eq_Inr_iff)
  then show ?thesis using encodeComposite_inject bytesToHex_inject by metis
qed

lemma adds_get_recs:
  assumes "orset_inv s" "adds_get s cid \<noteq> []"
  shows "(cid, adds_get s cid) \<in> set (adds s) \<and> recs_ok cid (adds_get s cid)"
  using assms by (auto simp: adds_get_def orset_inv_def split: option.splits dest: map_of_SomeD)

lemma in_adds_get: "orset_inv s \<Longrightarrow> (cid, rs) \<in> set (adds s) \<Longrightarrow> adds_get s cid = rs"
  by (simp add: adds_get_def orset_inv_def)

lemma recs_okD:
  assumes "orset_inv s" "r \<in> set (adds_get s cid)"
  shows "oa_claimId (ar_op r) = cid" "addOpTag (ar_op r) = Inr (ar_tag r)"
    "hlc_ok (oa_hlc (ar_op r))" "writer_ok (oa_writer (ar_op r))"
proof -
  have "recs_ok cid (adds_get s cid)" using adds_get_recs assms by (metis list.set_cases neq_Nil_conv)
  with assms(2) show a: "oa_claimId (ar_op r) = cid" "addOpTag (ar_op r) = Inr (ar_tag r)"
    by (auto simp: recs_ok_def)
  then show "hlc_ok (oa_hlc (ar_op r))" "writer_ok (oa_writer (ar_op r))"
    using addOpTag_Inr_iff by blast+
qed

lemma adds_get_distinct: "orset_inv s \<Longrightarrow> distinct (map ar_tag (adds_get s cid))"
  using adds_get_recs [of s cid] by (cases "adds_get s cid = []") (auto simp: recs_ok_def)

lemma put_add_inv [inv_intros]:
  assumes inv: "orset_inv s" and t: "addOpTag op = Inr t"
  shows "orset_inv (put_add t op s)"
proof (cases "list_ex (\<lambda>r. ar_tag r = t) (adds_get s (oa_claimId op))")
  case True
  with inv show ?thesis by (simp add: put_add_def)
next
  case False
  let ?cid = "oa_claimId op" and ?rs = "adds_get s (oa_claimId op) @ [\<lparr>ar_op = op, ar_tag = t\<rparr>]"
  have ok: "recs_ok ?cid ?rs"
    using False t recs_okD [OF inv] adds_get_distinct [OF inv]
    by (auto simp: recs_ok_def list_ex_iff)
  have "set (AList.update ?cid ?rs (adds s)) \<subseteq> insert (?cid, ?rs) (set (adds s))"
    by (rule set_update_subset)
  with ok inv have "\<forall>(cid, rs) \<in> set (AList.update ?cid ?rs (adds s)). recs_ok cid rs"
    by (auto simp: orset_inv_def)
  with False inv show ?thesis
    by (simp add: put_add_def Let_def orset_inv_def distinct_update)
qed

lemma applyRemove_inv [inv_intros]: "orset_inv s \<Longrightarrow> orset_inv (applyRemove op s)"
  by (simp add: orset_inv_def applyRemove_def)

lemma applyAdd_inv [inv_intros]: "orset_inv s \<Longrightarrow> applyAdd op s = Inr s' \<Longrightarrow> orset_inv s'"
  by (auto simp: applyAdd_def sbind_eq_Inr_iff intro: put_add_inv)

lemma orset_apply_inv [inv_intros]: "orset_inv s \<Longrightarrow> orset_apply op s = Inr s' \<Longrightarrow> orset_inv s'"
  by (cases op) (auto intro: applyAdd_inv applyRemove_inv)

lemma apply_adds_inv: "orset_inv s \<Longrightarrow> apply_adds ops s = Inr s' \<Longrightarrow> orset_inv s'"
  by (induction ops arbitrary: s) (auto simp: sbind_eq_Inr_iff intro: applyAdd_inv)

lemma orset_merge_inv [inv_intros]: "orset_inv s \<Longrightarrow> orset_merge s t = Inr s' \<Longrightarrow> orset_inv s'"
  by (auto simp: orset_merge_def sbind_eq_Inr_iff orset_inv_def dest!: apply_adds_inv [rotated])

subsection \<open>Convergence\<close>

text \<open>
  The abstract OR-set: for each claim a finite map from tag to add operation, and the set
  of removed tags.
\<close>

type_synonym or_view = "(string \<Rightarrow> tag \<rightharpoonup> or_add) \<times> tag set"

definition orset_view :: "orset \<Rightarrow> or_view" where
  "orset_view s =
     (\<lambda>cid. map_of (map (\<lambda>r. (ar_tag r, ar_op r)) (adds_get s cid)), set (removed s))"

definition orset_receive :: "or_op \<Rightarrow> orset \<Rightarrow> orset" where
  "orset_receive op s = (case orset_apply op s of Inr s' \<Rightarrow> s' | Inl _ \<Rightarrow> s)"

definition view_put :: "tag \<Rightarrow> or_add \<Rightarrow> or_view \<Rightarrow> or_view" where
  "view_put t op v =
     (let c = oa_claimId op
      in if fst v c t = None then ((fst v)(c := (fst v c)(t \<mapsto> op)), snd v) else v)"

fun orset_step :: "or_op \<Rightarrow> or_view \<Rightarrow> or_view" where
  "orset_step (OrAdd op) v = (case addOpTag op of Inl _ \<Rightarrow> v | Inr t \<Rightarrow> view_put t op v)"
| "orset_step (OrRemove r) v = (fst v, snd v \<union> set (or_observedTags r))"

definition or_add_compat :: "or_add \<Rightarrow> or_add \<Rightarrow> bool" where
  "or_add_compat a b \<longleftrightarrow>
     (oa_claimId a = oa_claimId b \<and> oa_hlc a = oa_hlc b \<and> oa_writer a = oa_writer b \<longrightarrow> a = b)"

definition orset_compat :: "or_op \<Rightarrow> or_op \<Rightarrow> bool" where
  "orset_compat a b = (case (a, b) of (OrAdd x, OrAdd y) \<Rightarrow> or_add_compat x y | _ \<Rightarrow> True)"

lemma adds_get_put_add:
  "adds_get (put_add t op s) c =
     (if c = oa_claimId op \<and> \<not> list_ex (\<lambda>r. ar_tag r = t) (adds_get s c)
      then adds_get s c @ [\<lparr>ar_op = op, ar_tag = t\<rparr>] else adds_get s c)"
  by (auto simp: put_add_def adds_get_def update_conv' Let_def)

lemma removed_put_add [simp]: "removed (put_add t op s) = removed s"
  by (simp add: put_add_def Let_def)

lemma recs_lookup_None:
  "map_of (map (\<lambda>r. (ar_tag r, ar_op r)) rs) t = None \<longleftrightarrow> \<not> list_ex (\<lambda>r. ar_tag r = t) rs"
  by (induction rs) auto

lemma recs_lookup_snoc:
  "\<not> list_ex (\<lambda>r. ar_tag r = t) rs \<Longrightarrow>
   [t \<mapsto> op] ++ map_of (map (\<lambda>r. (ar_tag r, ar_op r)) rs) =
   (map_of (map (\<lambda>r. (ar_tag r, ar_op r)) rs))(t \<mapsto> op)"
  by (auto simp: fun_eq_iff map_add_def recs_lookup_None [symmetric] split: option.splits)

lemma put_add_view: "orset_view (put_add t op s) = view_put t op (orset_view s)"
  by (auto simp: orset_view_def view_put_def Let_def adds_get_put_add recs_lookup_None
      recs_lookup_snoc fun_eq_iff)

lemma orset_receive_view [view_simps]: "orset_view (orset_receive op s) = orset_step op (orset_view s)"
proof (cases op)
  case (OrAdd a)
  then show ?thesis
    by (cases "addOpTag a") (simp_all add: orset_receive_def applyAdd_def put_add_view)
next
  case (OrRemove r)
  then show ?thesis
    by (auto simp: orset_receive_def applyRemove_def orset_view_def adds_get_def)
qed

lemma orset_receive_inv [inv_intros]: "orset_inv s \<Longrightarrow> orset_inv (orset_receive op s)"
  by (auto simp: orset_receive_def intro: orset_apply_inv split: sum.splits)

lemma view_put_commute:
  "(oa_claimId a = oa_claimId b \<and> t = u \<longrightarrow> a = b) \<Longrightarrow>
   view_put t a (view_put u b v) = view_put u b (view_put t a v)"
  by (auto simp: view_put_def Let_def fun_upd_twist)

lemma orset_step_commute:
  assumes "orset_compat a b"
  shows "orset_step a (orset_step b v) = orset_step b (orset_step a v)"
proof (cases a)
  case a: (OrAdd x)
  show ?thesis
  proof (cases b)
    case b: (OrAdd y)
    have "view_put t x (view_put u y v) = view_put u y (view_put t x v)"
      if "addOpTag x = Inr t" "addOpTag y = Inr u" for t u
      using that assms a b addOpTag_composite [of x t y]
      by (intro view_put_commute) (auto simp: orset_compat_def or_add_compat_def)
    then show ?thesis using a b
      by (cases "addOpTag x"; cases "addOpTag y") simp_all
  next
    case (OrRemove r)
    with a show ?thesis
      by (cases "addOpTag x") (simp_all add: view_put_def Let_def)
  qed
next
  case a: (OrRemove r)
  show ?thesis
  proof (cases b)
    case (OrAdd y)
    with a show ?thesis by (cases "addOpTag y") (simp_all add: view_put_def Let_def)
  next
    case (OrRemove q)
    with a show ?thesis by (auto simp: Un_ac)
  qed
qed

lemma orset_step_idem: "orset_step a (orset_step a v) = orset_step a v"
  by (cases a) (auto simp: view_put_def Let_def split: sum.splits)

interpretation orset_replica: convergent orset_receive orset_step orset_view "\<lambda>_. True" orset_inv orset_compat
  by unfold_locales
    (auto simp: orset_receive_view orset_step_idem intro: orset_receive_inv orset_step_commute)

subsection \<open>The claims a replica shows\<close>

definition rec_cmp :: "add_record \<Rightarrow> add_record \<Rightarrow> int" where
  "rec_cmp a b = add_cmp (ar_op a) (ar_op b)"

interpretation add_order: comparator add_cmp "\<lambda>a. writer_ok (oa_writer a)"
  using composite.image [of "\<lambda>a. (oa_hlc a, oa_writer a)"] by (simp add: add_cmp_def [abs_def])

interpretation rec_order: comparator rec_cmp "\<lambda>r. writer_ok (oa_writer (ar_op r))"
  using add_order.image [of ar_op] by (simp add: rec_cmp_def [abs_def])

interpretation claim_order: comparator claimId_cmp "\<lambda>_. True"
  using lin.image [of oa_claimId] by (simp add: claimId_cmp_def [abs_def])

lemma add_cmp_zero: "writer_ok (oa_writer a) \<Longrightarrow> writer_ok (oa_writer b) \<Longrightarrow>
  add_cmp a b = 0 \<longleftrightarrow> oa_hlc a = oa_hlc b \<and> oa_writer a = oa_writer b"
  using composite.zero_iff [of "(oa_hlc a, oa_writer a)" "(oa_hlc b, oa_writer b)"]
  by (simp add: add_cmp_def)

lemma winner_alt:
  "winner rem now rs =
     (if live_records rem now rs = [] then None
      else Some (ar_op (last (js_sort rec_cmp (live_records rem now rs)))))"
  by (simp add: winner_def rec_cmp_def [abs_def] Let_def)

lemma set_live_records:
  "r \<in> set (live_records rem now rs) \<longleftrightarrow>
   r \<in> set rs \<and> ar_tag r \<notin> set rem \<and> (\<forall>t. now = Some t \<longrightarrow> t < cp_ttlMs (oa_payload (ar_op r)))"
  by (auto simp: live_records_def split: option.splits)

lemma winner_live: "winner rem now rs = Some op \<Longrightarrow> \<exists>r \<in> set (live_records rem now rs). ar_op r = op"
  by (metis js_sort_Nil_iff last_in_set option.distinct(1) option.inject set_js_sort winner_alt)

lemma winner_None_iff: "winner rem now rs = None \<longleftrightarrow> live_records rem now rs = []"
  by (simp add: winner_alt)

lemma adds_get_rec_eq:
  assumes "orset_inv s" "a \<in> set (adds_get s c)" "b \<in> set (adds_get s c)"
    and "oa_hlc (ar_op a) = oa_hlc (ar_op b)" "oa_writer (ar_op a) = oa_writer (ar_op b)"
  shows "a = b"
proof -
  have "addOpTag (ar_op a) = addOpTag (ar_op b)" using assms(4,5) by (simp add: addOpTag_def)
  then have "ar_tag a = ar_tag b"
    using recs_okD(2) [OF assms(1,2)] recs_okD(2) [OF assms(1,3)] by simp
  then show ?thesis
    using adds_get_distinct [OF assms(1), of c] assms(2,3) by (auto simp: distinct_map inj_on_def)
qed

lemma winner_canonical:
  assumes "orset_inv s" "orset_inv s'" "set (adds_get s c) = set (adds_get s' c)"
    and "set rem = set rem'"
  shows "winner rem now (adds_get s c) = winner rem' now (adds_get s' c)"
proof -
  let ?l = "live_records rem now (adds_get s c)" and ?l' = "live_records rem' now (adds_get s' c)"
  have set: "set ?l = set ?l'" using assms(3,4) by (auto simp: set_live_records)
  have sub: "set ?l \<subseteq> set (adds_get s c)" by (auto simp: set_live_records)
  have ok: "\<forall>r \<in> set ?l. writer_ok (oa_writer (ar_op r))"
    using recs_okD(4) [OF assms(1)] sub by blast
  have "js_sort rec_cmp ?l = js_sort rec_cmp ?l'"
  proof (rule rec_order.js_sort_canonical [OF set _ _ ok])
    show "distinct ?l" "distinct ?l'"
      using adds_get_distinct [OF assms(1), of c] adds_get_distinct [OF assms(2), of c]
      by (auto simp: live_records_def distinct_map)
    show "\<forall>a \<in> set ?l. \<forall>b \<in> set ?l. rec_cmp a b = 0 \<longrightarrow> a = b"
      using ok sub adds_get_rec_eq [OF assms(1), of _ c]
      by (auto simp: rec_cmp_def add_cmp_zero subset_iff)
  qed
  moreover have "?l = [] \<longleftrightarrow> ?l' = []" using set by (metis set_empty)
  ultimately show ?thesis by (simp add: winner_alt)
qed

lemma winner_claimId:
  assumes "orset_inv s" "winner rem now (adds_get s c) = Some op"
  shows "oa_claimId op = c"
  using winner_live [OF assms(2)] recs_okD(1) [OF assms(1)] by (auto simp: set_live_records)

lemma winner_max:
  assumes "orset_inv s" "winner rem now (adds_get s c) = Some op"
    and "r \<in> set (live_records rem now (adds_get s c))"
  shows "add_cmp (ar_op r) op \<le> 0"
proof -
  let ?l = "live_records rem now (adds_get s c)"
  have "\<forall>r \<in> set ?l. writer_ok (oa_writer (ar_op r))"
    using recs_okD(4) [OF assms(1)] by (auto simp: set_live_records)
  then have "rec_cmp r (last (js_sort rec_cmp ?l)) \<le> 0"
    using assms(3) by (intro rec_order.last_js_sort_max) auto
  moreover have "ar_op (last (js_sort rec_cmp ?l)) = op"
    using assms(2) by (simp add: winner_alt split: if_splits)
  ultimately show ?thesis by (simp add: rec_cmp_def)
qed

lemma active_iff:
  assumes "orset_inv s"
  shows "op \<in> set (active now s) \<longleftrightarrow> winner (removed s) now (adds_get s (oa_claimId op)) = Some op"
proof
  assume "op \<in> set (active now s)"
  then obtain c rs where "(c, rs) \<in> set (adds s)" "winner (removed s) now rs = Some op"
    by (auto simp: active_def map_filter_def split: prod.splits)
  then show "winner (removed s) now (adds_get s (oa_claimId op)) = Some op"
    using in_adds_get [OF assms] winner_claimId [OF assms] by metis
next
  assume w: "winner (removed s) now (adds_get s (oa_claimId op)) = Some op"
  then have "adds_get s (oa_claimId op) \<noteq> []" by (auto simp: winner_alt live_records_def)
  then have "(oa_claimId op, adds_get s (oa_claimId op)) \<in> set (adds s)"
    using adds_get_recs [OF assms] by blast
  with w show "op \<in> set (active now s)"
    by (force simp: active_def map_filter_def)
qed

lemma active_claims_distinct:
  assumes "orset_inv s"
  shows "distinct (map oa_claimId (active now s))"
proof -
  let ?ws = "List.map_filter (\<lambda>(_, rs). winner (removed s) now rs) (adds s)"
  have "oa_claimId v = fst p"
    if "p \<in> set (adds s)" "(case p of (_, rs) \<Rightarrow> winner (removed s) now rs) = Some v" for p v
    using that in_adds_get [OF assms, of "fst p" "snd p"] winner_claimId [OF assms]
    by (metis case_prod_beta prod.collapse)
  moreover have "distinct (map fst (adds s))" using assms by (simp add: orset_inv_def)
  ultimately have "distinct (map oa_claimId ?ws)"
    by (intro distinct_keys_map_filter [THEN conjunct1]) auto
  moreover have "mset (map oa_claimId (active now s)) = mset (map oa_claimId ?ws)"
    by (simp add: active_def)
  ultimately show ?thesis using mset_eq_imp_distinct_iff by blast
qed

lemma active_sorted: "sorted (map oa_claimId (active now s))"
  using claim_order.sorted_js_sort [of "List.map_filter (\<lambda>(_, rs). winner (removed s) now rs) (adds s)"]
  by (simp add: active_def sorted_map claimId_cmp_def)

text \<open>What \<open>active\<close> returns is a function of the abstract state.\<close>

lemma recs_of_view:
  assumes "orset_inv s"
  shows "r \<in> set (adds_get s c) \<longleftrightarrow> fst (orset_view s) c (ar_tag r) = Some (ar_op r)"
proof -
  have "distinct (map fst (map (\<lambda>r. (ar_tag r, ar_op r)) (adds_get s c)))"
    using adds_get_distinct [OF assms, of c] by (simp add: o_def)
  then have "fst (orset_view s) c (ar_tag r) = Some (ar_op r) \<longleftrightarrow>
      (ar_tag r, ar_op r) \<in> set (map (\<lambda>r. (ar_tag r, ar_op r)) (adds_get s c))"
    by (simp only: orset_view_def fst_conv map_of_eq_Some_iff)
  also have "\<dots> \<longleftrightarrow> r \<in> set (adds_get s c)"
    by (auto simp: image_iff) (metis add_record.equality old.unit.exhaust)
  finally show ?thesis by simp
qed

lemma winner_of_view:
  assumes "orset_inv s" "orset_inv s'" "orset_view s = orset_view s'"
  shows "winner (removed s) now (adds_get s c) = winner (removed s') now (adds_get s' c)"
proof (rule winner_canonical [OF assms(1,2)])
  show "set (adds_get s c) = set (adds_get s' c)"
    using recs_of_view [OF assms(1)] recs_of_view [OF assms(2)] assms(3) by auto
  show "set (removed s) = set (removed s')"
    using arg_cong [OF assms(3), of snd] by (simp add: orset_view_def)
qed

lemma active_of_view:
  assumes "orset_inv s" "orset_inv s'" "orset_view s = orset_view s'"
  shows "active now s = active now s'"
proof (rule map_sorted_distinct_set_unique [where f = oa_claimId])
  show eq: "set (active now s) = set (active now s')"
    using active_iff [OF assms(1)] active_iff [OF assms(2)] winner_of_view [OF assms] by auto
  show "inj_on oa_claimId (set (active now s) \<union> set (active now s'))"
    using active_claims_distinct [OF assms(1), of now] eq by (simp add: distinct_map)
qed (use active_sorted active_claims_distinct assms in auto)

subsection \<open>Releasing a claim\<close>

lemma in_all_adds:
  assumes "orset_inv s"
  shows "op \<in> set (all_adds s) \<longleftrightarrow> (\<exists>r \<in> set (adds_get s (oa_claimId op)). ar_op r = op)"
proof
  assume "op \<in> set (all_adds s)"
  then obtain c rs r where "(c, rs) \<in> set (adds s)" "r \<in> set rs" "ar_op r = op"
    by (auto simp: all_adds_def)
  moreover from this have "adds_get s c = rs" using in_adds_get [OF assms] by blast
  ultimately show "\<exists>r \<in> set (adds_get s (oa_claimId op)). ar_op r = op"
    using recs_okD(1) [OF assms] by metis
next
  assume "\<exists>r \<in> set (adds_get s (oa_claimId op)). ar_op r = op"
  then obtain r where r: "r \<in> set (adds_get s (oa_claimId op))" "ar_op r = op" by blast
  then have "adds_get s (oa_claimId op) \<noteq> []" by auto
  then have "(oa_claimId op, adds_get s (oa_claimId op)) \<in> set (adds s)"
    using adds_get_recs [OF assms] by blast
  with r show "op \<in> set (all_adds s)" by (force simp: all_adds_def)
qed

lemma adds_get_in_all:
  assumes "orset_inv s" "r \<in> set (adds_get s c)"
  shows "ar_op r \<in> set (all_adds s)"
proof -
  have "oa_claimId (ar_op r) = c" using recs_okD(1) [OF assms] .
  with assms(2) have "\<exists>q \<in> set (adds_get s (oa_claimId (ar_op r))). ar_op q = ar_op r" by blast
  then show ?thesis by (simp only: in_all_adds [OF assms(1)])
qed

text \<open>Building the remove never throws, and it observes exactly the tags of its claim.\<close>

lemma makeRemoveOpFor_ok:
  assumes "orset_inv s"
  shows "\<exists>tags. makeRemoveOpFor s cid h w =
      Inr \<lparr>or_claimId = cid, or_observedTags = tags, or_hlc = h, or_writer = w\<rparr>
    \<and> set tags = ar_tag ` set (adds_get s cid)"
proof -
  let ?mine = "filter (\<lambda>a. oa_claimId a = cid) (sortedAdds s)"
  let ?tag = "\<lambda>a. case addOpTag a of Inr t \<Rightarrow> t | Inl _ \<Rightarrow> []"
  have mine: "set ?mine = ar_op ` set (adds_get s cid)"
    using in_all_adds [OF assms] recs_okD(1) [OF assms] by (auto simp: sortedAdds_def)
  have "addOpTag a = Inr (?tag a)" if "a \<in> set ?mine" for a
    using that recs_okD(2) [OF assms] unfolding mine by auto
  then have ok: "smap addOpTag ?mine = Inr (map ?tag ?mine)" by (rule smap_Inr)
  have "set (map ?tag ?mine) = ?tag ` ar_op ` set (adds_get s cid)" using mine by simp
  also have "\<dots> = ar_tag ` set (adds_get s cid)"
    using recs_okD(2) [OF assms] by (force simp: image_image)
  finally show ?thesis using ok by (simp add: makeRemoveOpFor_def)
qed

lemma adds_get_applyRemove [simp]: "adds_get (applyRemove op s) c = adds_get s c"
  by (simp add: adds_get_def applyRemove_def)

lemma removed_applyRemove [simp]:
  "set (removed (applyRemove op s)) = set (or_observedTags op) \<union> set (removed s)"
  by (simp add: applyRemove_def)

text \<open>No tag is shared between claims: composite keys identify operations.\<close>

definition tags_separate :: "orset \<Rightarrow> bool" where
  "tags_separate s \<longleftrightarrow>
     (\<forall>a \<in> set (all_adds s). \<forall>b \<in> set (all_adds s).
        oa_hlc a = oa_hlc b \<and> oa_writer a = oa_writer b \<longrightarrow> oa_claimId a = oa_claimId b)"

lemma winner_after_release:
  assumes inv: "orset_inv s" and sep: "tags_separate s"
    and op: "makeRemoveOpFor s cid h w = Inr op"
  shows "winner (removed (applyRemove op s)) now (adds_get s c) =
    (if c = cid then None else winner (removed s) now (adds_get s c))"
proof -
  have tags: "set (or_observedTags op) = ar_tag ` set (adds_get s cid)"
    using makeRemoveOpFor_ok [OF inv, of cid h w] op by auto
  show ?thesis
  proof (cases "c = cid")
    case True
    with tags show ?thesis by (auto simp: winner_None_iff live_records_def filter_empty_conv)
  next
    case False
    have "ar_tag r \<notin> set (or_observedTags op)" if r: "r \<in> set (adds_get s c)" for r
    proof
      assume "ar_tag r \<in> set (or_observedTags op)"
      then obtain q where q: "q \<in> set (adds_get s cid)" "ar_tag q = ar_tag r" using tags by auto
      have "oa_hlc (ar_op r) = oa_hlc (ar_op q) \<and> oa_writer (ar_op r) = oa_writer (ar_op q)"
        using recs_okD(2) [OF inv r] recs_okD(2) [OF inv q(1)] unfolding q(2)
        by (rule addOpTag_composite)
      then have "oa_claimId (ar_op r) = oa_claimId (ar_op q)"
        using sep adds_get_in_all [OF inv r] adds_get_in_all [OF inv q(1)]
        unfolding tags_separate_def by blast
      with False show False using recs_okD(1) [OF inv r] recs_okD(1) [OF inv q(1)] by simp
    qed
    then have "live_records (removed (applyRemove op s)) now (adds_get s c) =
        live_records (removed s) now (adds_get s c)"
      unfolding live_records_def by (intro filter_cong) auto
    with False show ?thesis by (simp add: winner_alt)
  qed
qed

subsection \<open>Properties\<close>

lemma view_put_removed [simp]: "snd (view_put t op v) = snd v"
  by (simp add: view_put_def Let_def)

lemma view_put_present: "fst (view_put t op v) (oa_claimId op) t \<noteq> None"
  by (simp add: view_put_def Let_def)

lemma active_in_all: "orset_inv s \<Longrightarrow> a \<in> set (active now s) \<Longrightarrow> a \<in> set (all_adds s)"
  using winner_live active_iff adds_get_in_all by (metis set_live_records)

lemma orset_reachable_inv: "orset_inv (fold orset_receive ops orset_empty)"
  using orset_replica.inv_fold [of orset_empty ops] by (simp add: orset_inv_empty)

text \<open>Two replicas of the claim board that received the same adds and removes, in any
  order and with any repetitions, show the same active claims at every time.\<close>

theorem claims_converge:
  assumes "set xs = set ys" "\<forall>a \<in> set xs. \<forall>b \<in> set xs. orset_compat a b"
  shows "active now (fold orset_receive xs orset_empty) = active now (fold orset_receive ys orset_empty)"
  using orset_replica.converges [of orset_empty orset_empty xs ys] assms
  by (intro active_of_view orset_reachable_inv) (simp add: orset_inv_empty)

definition sample_add :: "string \<Rightarrow> int \<Rightarrow> or_add" where
  "sample_add cid t = \<lparr>oa_claimId = cid, oa_agent = ''ada'',
     oa_payload = \<lparr>cp_intent = ''x'', cp_scope = [''f.ts''], cp_fingerprint = [], cp_createdMs = t, cp_ttlMs = t + 10\<rparr>,
     oa_hlc = \<lparr>wallMs = t, counter = 0\<rparr>, oa_writer = replicate 16 2\<rparr>"

definition sample_remove :: "string \<Rightarrow> tag list \<Rightarrow> or_remove" where
  "sample_remove cid tags = \<lparr>or_claimId = cid, or_observedTags = tags,
     or_hlc = \<lparr>wallMs = 50, counter = 0\<rparr>, or_writer = replicate 16 2\<rparr>"

theorem claims_converge_witness:
  "active (Some 3) (fold orset_receive [OrAdd (sample_add ''c'' 1), OrRemove (sample_remove ''c'' [''t''])] orset_empty)
   = active (Some 3) (fold orset_receive [OrRemove (sample_remove ''c'' [''t'']), OrAdd (sample_add ''c'' 1)] orset_empty)"
  by (rule claims_converge) (simp_all add: orset_compat_def or_add_compat_def insert_commute)

text \<open>What the board shows: one row per claim id, in order of the ids; the row is a
  received add of that claim that was not removed and has not expired, and no other such add
  of the claim is newer; and a claim with such an add always has a row.\<close>

theorem active_rows:
  assumes "orset_inv s"
  shows "sorted (map oa_claimId (active now s)) \<and> distinct (map oa_claimId (active now s))
    \<and> (\<forall>op \<in> set (active now s).
        (\<exists>r \<in> set (live_records (removed s) now (adds_get s (oa_claimId op))). ar_op r = op)
        \<and> (\<forall>r \<in> set (live_records (removed s) now (adds_get s (oa_claimId op))). add_cmp (ar_op r) op \<le> 0))
    \<and> (\<forall>cid. live_records (removed s) now (adds_get s cid) \<noteq> [] \<longrightarrow> cid \<in> oa_claimId ` set (active now s))"
proof (intro conjI ballI allI impI)
  fix cid assume "live_records (removed s) now (adds_get s cid) \<noteq> []"
  then obtain op where w: "winner (removed s) now (adds_get s cid) = Some op" by (auto simp: winner_alt)
  moreover from w have "oa_claimId op = cid" by (rule winner_claimId [OF assms])
  ultimately show "cid \<in> oa_claimId ` set (active now s)" using active_iff [OF assms] by blast
qed (use active_sorted active_claims_distinct [OF assms] active_iff [OF assms] winner_live
      winner_max [OF assms] in blast)+

theorem active_rows_witness:
  "sorted (map oa_claimId (active (Some 3) (orset_receive (OrAdd (sample_add ''c'' 1)) orset_empty)))"
  using active_rows [of "orset_receive (OrAdd (sample_add ''c'' 1)) orset_empty" "Some 3"]
  by (simp add: orset_receive_inv orset_inv_empty)

text \<open>Releasing a claim works and touches nothing else: the remove built from what this
  replica saw never throws, and after applying it the board shows the same rows except that
  the claim is gone, whatever the time.\<close>

theorem release_hides_claim:
  assumes "orset_inv s" "tags_separate s"
  shows "\<exists>op. makeRemoveOpFor s cid h w = Inr op
    \<and> set (active now (applyRemove op s)) = {a \<in> set (active now s). oa_claimId a \<noteq> cid}"
proof -
  obtain op where op: "makeRemoveOpFor s cid h w = Inr op"
    using makeRemoveOpFor_ok [OF assms(1), of cid h w] by blast
  have "a \<in> set (active now (applyRemove op s)) \<longleftrightarrow> a \<in> set (active now s) \<and> oa_claimId a \<noteq> cid" for a
    using winner_after_release [OF assms op, of now "oa_claimId a"] active_iff [OF assms(1), of a now]
      active_iff [OF applyRemove_inv [OF assms(1)], of a now op] by simp
  with op show ?thesis by blast
qed

theorem release_hides_claim_witness:
  "\<exists>op. makeRemoveOpFor (orset_receive (OrAdd (sample_add ''c'' 1)) orset_empty) ''c''
          \<lparr>wallMs = 9, counter = 0\<rparr> (replicate 16 3) = Inr op
    \<and> set (active None (applyRemove op (orset_receive (OrAdd (sample_add ''c'' 1)) orset_empty))) = {}"
proof -
  let ?s = "orset_receive (OrAdd (sample_add ''c'' 1)) orset_empty"
  have "all_adds ?s = [sample_add ''c'' 1] \<or> all_adds ?s = []"
    by (auto simp: orset_receive_def applyAdd_def put_add_def orset_empty_def adds_get_def all_adds_def
        sbind_def Let_def split: sum.splits)
  then have one: "set (all_adds ?s) \<subseteq> {sample_add ''c'' 1}" by auto
  have inv: "orset_inv ?s" by (rule orset_receive_inv [OF orset_inv_empty])
  have all: "a = sample_add ''c'' 1" if "a \<in> set (all_adds ?s)" for a
    using that one by blast
  have sep: "tags_separate ?s" unfolding tags_separate_def 
    by (intro ballI impI, drule all, drule all) (simp only:)
  have mine: "oa_claimId a = ''c''" if "a \<in> set (active None ?s)" for a
    using all [OF active_in_all [OF inv that]] by (simp only: sample_add_def or_add.simps)
  have "{a \<in> set (active None ?s). oa_claimId a \<noteq> ''c''} = {}"
    by (rule equals0I) (elim CollectE conjE, erule notE, erule mine)
  with release_hides_claim [OF inv sep, of "''c''" "\<lparr>wallMs = 9, counter = 0\<rparr>" "replicate 16 3" None]
  show ?thesis by (simp only:)
qed

text \<open>Adds win: an add whose tag the removing replica had not seen survives that
  replica's release, in whatever order the two arrive elsewhere, and claims the id there.\<close>

theorem add_wins:
  assumes "orset_inv s" "addOpTag a = Inr t" "t \<notin> set (removed s)"
    and "makeRemoveOpFor r (oa_claimId a) h w = Inr rem" "orset_inv r"
    and "t \<notin> ar_tag ` set (adds_get r (oa_claimId a))"
    and "xs = [OrAdd a, OrRemove rem] \<or> xs = [OrRemove rem, OrAdd a]"
  shows "oa_claimId a \<in> oa_claimId ` set (active None (fold orset_receive xs s))"
proof -
  let ?s = "fold orset_receive xs s"
  have inv: "orset_inv ?s" using orset_replica.inv_fold [OF assms(1), of xs] by simp
  have tags: "t \<notin> set (or_observedTags rem)"
    using makeRemoveOpFor_ok [OF assms(5), of "oa_claimId a" h w] assms(4,6) by auto
  have v: "orset_view ?s = fold orset_step xs (orset_view s)"
    using orset_replica.view_fold [OF assms(1), of xs] by simp
  have rem: "t \<notin> set (removed ?s)"
  proof -
    have "snd (orset_view ?s) = snd (orset_view s) \<union> set (or_observedTags rem)"
      using assms(2,7) unfolding v by auto
    then show ?thesis using tags assms(3) by (auto simp: orset_view_def)
  qed
  have "fst (orset_view ?s) (oa_claimId a) t \<noteq> None"
    using assms(2,7) view_put_present unfolding v by (elim disjE) (simp_all del: not_None_eq)
  then obtain r where "r \<in> set (adds_get ?s (oa_claimId a))" "ar_tag r = t"
    by (auto simp: orset_view_def recs_lookup_None list_ex_iff)
  then have "winner (removed ?s) None (adds_get ?s (oa_claimId a)) \<noteq> None"
    using rem unfolding winner_None_iff by (force simp: live_records_def filter_empty_conv)
  then obtain op where "winner (removed ?s) None (adds_get ?s (oa_claimId a)) = Some op" by blast
  moreover from this have "oa_claimId op = oa_claimId a" by (rule winner_claimId [OF inv])
  ultimately show ?thesis using active_iff [OF inv] by (metis image_eqI)
qed

lemma sample_add_tag: "\<exists>t. addOpTag (sample_add c 1) = Inr t"
  by (simp add: addOpTag_Inr_iff sample_add_def hlc_ok_def writer_ok_def size_defs)

theorem add_wins_witness:
  "\<exists>rem. ''c'' \<in> oa_claimId ` set (active None
     (fold orset_receive [OrAdd (sample_add ''c'' 1), OrRemove rem] orset_empty))"
proof -
  obtain t where t: "addOpTag (sample_add ''c'' 1) = Inr t" using sample_add_tag by blast
  obtain rem where "makeRemoveOpFor orset_empty (oa_claimId (sample_add ''c'' 1))
      \<lparr>wallMs = 9, counter = 0\<rparr> (replicate 16 3) = Inr rem"
    using makeRemoveOpFor_ok [OF orset_inv_empty] by blast
  from add_wins [OF orset_inv_empty t _ this orset_inv_empty _ disjI1 [OF refl]]
  show ?thesis by (force simp: orset_empty_def adds_get_def sample_add_def)
qed

end
