(* ===== verification/Wire.thy ===== *)
theory Wire
  imports Lww Gset Orset
begin

text \<open>
  The wire view of operations: \<open>WireOp\<close> and the converters of \<open>src/daemon/src/crdt/wire.ts\<close>
  and \<open>src/daemon/src/crdt/state.ts\<close> between it and the logical operations. The claim payload
  travels as the UTF-8 text of \<open>JSON.stringify\<close>; that text and its parse are the arguments
  \<open>stringify\<close> and \<open>parse\<close>. Shown here: a logical operation survives the trip to the wire
  and back.
\<close>

record wire_hlc =
  wall_ms :: int
  wh_counter :: int

datatype wire_op =
    WLww (w_entity_id: string) (w_content_hash: bytes) (w_body: bytes) (w_hlc: wire_hlc) (w_writer: bytes)
  | WGset (w_src: string) (w_dst: string) (w_ts_bucket: int) (w_observed: int) (w_weight: int)
      (w_hlc: wire_hlc) (w_writer: bytes)
  | WOrAdd (w_claim_id: string) (w_agent: string) (w_payload_cbor: bytes) (w_hlc: wire_hlc) (w_writer: bytes)
  | WOrRemove (w_claim_id: string) (w_observed_tags: bytes) (w_hlc: wire_hlc) (w_writer: bytes)

datatype wire_error = TagLength nat | TagNotBytes

subsection \<open>Logical to wire\<close>

definition hlcToWire :: "hlc \<Rightarrow> wire_hlc" where
  "hlcToWire h = \<lparr>wall_ms = wallMs h, wh_counter = counter h\<rparr>"

definition wireHlc :: "wire_hlc \<Rightarrow> hlc" where
  "wireHlc w = \<lparr>wallMs = wall_ms w, counter = wh_counter w\<rparr>"

text \<open>\<open>lwwToWire\<close> at string values, the only ones the daemon makes.\<close>

definition lwwToWire :: "string lww_op \<Rightarrow> wire_op" where
  "lwwToWire op = WLww (lo_entityId op) (lo_contentHash op) (utf8_encode (lo_value op))
     (hlcToWire (lo_hlc op)) (lo_writer op)"

definition gsetToWire :: "gset_op \<Rightarrow> wire_op" where
  "gsetToWire op = WGset (g_src op) (g_dst op) (g_tsBucket op) (g_observed op) (g_weight op)
     (hlcToWire (g_hlc op)) (g_writer op)"

text \<open>
  The inner loop of \<open>orToWire\<close> parses the 28 digit pairs of a tag. A pair that does not parse
  to a byte would be rejected by the native encoder that the array is handed to next; here it
  is an error of the conversion.
\<close>

fun tag_pairs :: "string \<Rightarrow> wire_error + bytes" where
  "tag_pairs (c # d # s) =
     (case parse_hex_pair c d of
        Some v \<Rightarrow> if 0 \<le> v \<and> v < 256 then sbind (tag_pairs s) (\<lambda>bs. Inr (word_of_int v # bs))
                  else Inl TagNotBytes
      | None \<Rightarrow> Inl TagNotBytes)"
| "tag_pairs _ = Inr []"

fun tags_to_bytes :: "tag list \<Rightarrow> wire_error + bytes" where
  "tags_to_bytes [] = Inr []"
| "tags_to_bytes (t # ts) =
     (if length t \<noteq> 56 then Inl (TagLength (length t))
      else sbind (tag_pairs t) (\<lambda>b. sbind (tags_to_bytes ts) (\<lambda>bs. Inr (b @ bs))))"

fun orToWire :: "(claim_payload \<Rightarrow> string) \<Rightarrow> or_op \<Rightarrow> wire_error + wire_op" where
  "orToWire stringify (OrAdd op) =
     Inr (WOrAdd (oa_claimId op) (oa_agent op) (utf8_encode (stringify (oa_payload op)))
            (hlcToWire (oa_hlc op)) (oa_writer op))"
| "orToWire stringify (OrRemove op) =
     sbind (tags_to_bytes (or_observedTags op)) (\<lambda>bs.
       Inr (WOrRemove (or_claimId op) bs (hlcToWire (or_hlc op)) (or_writer op)))"

subsection \<open>Wire to logical\<close>

definition wireOpToGset :: "wire_op \<Rightarrow> gset_op option" where
  "wireOpToGset w =
     (case w of
        WGset src dst ts obs wt h wr \<Rightarrow>
          Some \<lparr>g_src = src, g_dst = dst, g_tsBucket = ts, g_observed = obs, g_weight = wt,
                g_hlc = wireHlc h, g_writer = wr\<rparr>
      | _ \<Rightarrow> None)"

text \<open>The loop that cuts the tag bytes into 28-byte tags; a short tail is dropped.\<close>

function split_tags :: "bytes \<Rightarrow> tag list" where
  "split_tags bs = (if 28 \<le> length bs then bytesToHex (take 28 bs) # split_tags (drop 28 bs) else [])"
  by pat_completeness auto
termination by (relation "measure length") auto

declare split_tags.simps [simp del]

text \<open>
  \<open>parse\<close> is \<open>JSON.parse\<close> with the coercions that follow it; \<open>None\<close> is its exception.
\<close>

fun wireOpToOr :: "(string \<Rightarrow> claim_payload option) \<Rightarrow> wire_op \<Rightarrow> or_op option" where
  "wireOpToOr parse (WOrAdd cid agent cbor h wr) =
     (case parse (utf8_decode cbor) of
        None \<Rightarrow> None
      | Some p \<Rightarrow> Some (OrAdd \<lparr>oa_claimId = cid, oa_agent = agent, oa_payload = p,
                               oa_hlc = wireHlc h, oa_writer = wr\<rparr>))"
| "wireOpToOr parse (WOrRemove cid tags h wr) =
     Some (OrRemove \<lparr>or_claimId = cid, or_observedTags = split_tags tags, or_hlc = wireHlc h, or_writer = wr\<rparr>)"
| "wireOpToOr parse (WLww e ch b h w) = None"
| "wireOpToOr parse (WGset s d t c wt h w) = None"

text \<open>The \<open>lww\<close> branch of \<open>applyWireOpInMemory\<close> builds its operation in place.\<close>

definition wireOpToLww :: "wire_op \<Rightarrow> string lww_op option" where
  "wireOpToLww w =
     (case w of
        WLww e ch body h wr \<Rightarrow>
          Some \<lparr>lo_entityId = e, lo_value = utf8_decode body, lo_contentHash = ch,
                lo_hlc = wireHlc h, lo_writer = wr\<rparr>
      | _ \<Rightarrow> None)"

subsection \<open>Round trips\<close>

lemma wireHlc_hlcToWire [codec_simps]: "wireHlc (hlcToWire h) = h"
  by (simp add: wireHlc_def hlcToWire_def)

lemma wireOpToGset_gsetToWire [codec_simps]: "wireOpToGset (gsetToWire op) = Some op"
  by (simp add: wireOpToGset_def gsetToWire_def codec_simps)

lemma wireOpToLww_lwwToWire [codec_simps]: "wireOpToLww (lwwToWire op) = Some op"
  by (simp add: wireOpToLww_def lwwToWire_def codec_simps)

lemma tag_pairs_hex_byte:
  "tag_pairs (hex_byte b @ s) = sbind (tag_pairs s) (\<lambda>bs. Inr (b # bs))"
proof -
  have "unat b div 16 < 16" using unat_byte_less [of b] by simp
  then have p: "parse_hex_pair (hex_digit (unat b div 16)) (hex_digit (unat b mod 16)) = Some (int (unat b))"
    using hex_digit_not_x [of "unat b mod 16"]
    by (simp add: parse_hex_pair_def flip: of_nat_mult of_nat_add)
  show ?thesis using unsigned_less [of b, where ?'a = int] by (simp add: hex_byte_def p)
qed

lemma tag_pairs_bytesToHex [codec_simps]: "tag_pairs (bytesToHex bs) = Inr bs"
  by (induction bs) (simp_all add: tag_pairs_hex_byte)

lemma tags_to_bytes_hex:
  "\<forall>b \<in> set bss. length b = 28 \<Longrightarrow> tags_to_bytes (map bytesToHex bss) = Inr (concat bss)"
  by (induction bss) (simp_all add: codec_simps)

lemma split_tags_concat: "\<forall>b \<in> set bss. length b = 28 \<Longrightarrow> split_tags (concat bss) = map bytesToHex bss"
proof (induction bss)
  case Nil
  then show ?case by (simp add: split_tags.simps)
next
  case (Cons b bss)
  then show ?case by (subst split_tags.simps) simp
qed

text \<open>Tags as the program makes them: the hex of 28 bytes.\<close>

definition tag_ok :: "tag \<Rightarrow> bool" where
  "tag_ok t \<longleftrightarrow> (\<exists>b. length b = 28 \<and> t = bytesToHex b)"

lemma addOpTag_tag_ok: "addOpTag op = Inr t \<Longrightarrow> tag_ok t"
  using encodeComposite_length
  by (fastforce simp: addOpTag_def tagOf_def sbind_eq_Inr_iff tag_ok_def size_defs)

lemma tags_ok_bytes:
  assumes "\<forall>t \<in> set ts. tag_ok t"
  obtains bss where "\<forall>b \<in> set bss. length b = 28" "ts = map bytesToHex bss"
proof -
  obtain f where "\<forall>t \<in> set ts. length (f t) = 28 \<and> t = bytesToHex (f t)"
    using assms unfolding tag_ok_def by metis
  then have "\<forall>b \<in> set (map f ts). length b = 28" "ts = map bytesToHex (map f ts)"
    by (auto simp: map_idI)
  then show ?thesis by (rule that)
qed

text \<open>A payload whose text parses back, and tags as \<open>addOpTag\<close> makes them.\<close>

fun or_wire_ok :: "(claim_payload \<Rightarrow> string) \<Rightarrow> (string \<Rightarrow> claim_payload option) \<Rightarrow> or_op \<Rightarrow> bool" where
  "or_wire_ok stringify parse (OrAdd op) = (parse (stringify (oa_payload op)) = Some (oa_payload op))"
| "or_wire_ok stringify parse (OrRemove op) = (\<forall>t \<in> set (or_observedTags op). tag_ok t)"

lemma orToWire_ok: "or_wire_ok stringify parse op \<Longrightarrow> \<exists>w. orToWire stringify op = Inr w"
proof (cases op)
  case (OrRemove r)
  moreover assume "or_wire_ok stringify parse op"
  ultimately obtain bss where "\<forall>b \<in> set bss. length b = 28" "or_observedTags r = map bytesToHex bss"
    using tags_ok_bytes by (metis or_wire_ok.simps(2))
  then show ?thesis using OrRemove by (simp add: tags_to_bytes_hex)
qed simp

lemma wireOpToOr_orToWire:
  assumes "or_wire_ok stringify parse op" "orToWire stringify op = Inr w"
  shows "wireOpToOr parse w = Some op"
proof (cases op)
  case (OrAdd a)
  with assms show ?thesis by (auto simp: codec_simps)
next
  case (OrRemove r)
  with assms(1) obtain bss where "\<forall>b \<in> set bss. length b = 28" "or_observedTags r = map bytesToHex bss"
    using tags_ok_bytes by (metis or_wire_ok.simps(2))
  with OrRemove assms(2) show ?thesis
    by (auto simp: tags_to_bytes_hex split_tags_concat codec_simps)
qed

subsection \<open>Properties\<close>




end
