(* ===== verification/Retention.thy ===== *)
theory Retention
  imports Bytes
begin

text \<open>
  The growth bounds of \<open>src/daemon/src/crdt/retention.ts\<close>. A report is computed from the
  segment sizes of the op log (\<open>OpLog.segmentSizes\<close>, sorted by day); warnings are the lines
  that \<open>warnRetention\<close> writes. Shown here: a bound is reported exactly when it is exceeded,
  and the totals and day range are those of the segments.
\<close>

datatype crdt_type = LWW | GSET | ORSET

definition TYPES :: "crdt_type list" where
  "TYPES = [LWW, GSET, ORSET]"

lemma set_TYPES [simp]: "t \<in> set TYPES"
  by (cases t) (simp_all add: TYPES_def)

record crdt_limits =
  warnTotalBytes :: int
  warnSegmentBytes :: int
  warnSegmentCount :: int
  warnOpCount :: int
  maxPushBatchBytes :: int
  maxSegmentBytes :: int

definition CRDT_LIMITS :: crdt_limits where
  "CRDT_LIMITS = \<lparr>warnTotalBytes = 512 * 1024 * 1024, warnSegmentBytes = 64 * 1024 * 1024,
     warnSegmentCount = 400, warnOpCount = 2000000, maxPushBatchBytes = 8 * 1024 * 1024,
     maxSegmentBytes = 512 * 1024 * 1024\<rparr>"

definition RETENTION_RECHECK_INTERVAL_MS :: int where
  "RETENTION_RECHECK_INTERVAL_MS = 5 * 60 * 1000"

datatype violation_code = total_bytes | segment_bytes | segment_count | op_count

record retention_violation =
  rv_code :: violation_code
  rv_type :: "crdt_type option"
  rv_day :: "string option"
  rv_observed :: int
  rv_limit :: int

record retention_report =
  totalBytes :: int
  segmentCounts :: "crdt_type \<Rightarrow> int"
  oldestDay :: "string option"
  newestDay :: "string option"
  violations :: "retention_violation list"

type_synonym segment_size = "string \<times> int"

text \<open>The body of the inner loop over the segments of one type.\<close>

definition inspect_segment ::
    "crdt_limits \<Rightarrow> crdt_type \<Rightarrow> retention_report \<Rightarrow> segment_size \<Rightarrow> retention_report" where
  "inspect_segment limits type r seg =
     (case seg of (day, bytes) \<Rightarrow>
        r\<lparr>totalBytes := totalBytes r + bytes,
          oldestDay := (case oldestDay r of None \<Rightarrow> Some day | Some d \<Rightarrow> if day < d then Some day else Some d),
          newestDay := (case newestDay r of None \<Rightarrow> Some day | Some d \<Rightarrow> if day > d then Some day else Some d),
          violations := violations r @
            (if bytes > warnSegmentBytes limits
             then [\<lparr>rv_code = segment_bytes, rv_type = Some type, rv_day = Some day,
                    rv_observed = bytes, rv_limit = warnSegmentBytes limits\<rparr>] else [])\<rparr>)"

definition inspect_type ::
    "crdt_limits \<Rightarrow> (crdt_type \<Rightarrow> segment_size list) \<Rightarrow> retention_report \<Rightarrow> crdt_type \<Rightarrow> retention_report" where
  "inspect_type limits segmentSizes r type =
     (let sizes = segmentSizes type; n = int (length sizes)
      in foldl (inspect_segment limits type)
           (r\<lparr>segmentCounts := (segmentCounts r)(type := n),
              violations := violations r @
                (if n > warnSegmentCount limits
                 then [\<lparr>rv_code = segment_count, rv_type = Some type, rv_day = None,
                        rv_observed = n, rv_limit = warnSegmentCount limits\<rparr>] else [])\<rparr>)
           sizes)"

definition inspectRetention ::
    "(crdt_type \<Rightarrow> segment_size list) \<Rightarrow> crdt_limits \<Rightarrow> retention_report" where
  "inspectRetention segmentSizes limits =
     (let r = foldl (inspect_type limits segmentSizes)
                \<lparr>totalBytes = 0, segmentCounts = (\<lambda>_. 0), oldestDay = None, newestDay = None, violations = []\<rparr>
                TYPES
      in if totalBytes r > warnTotalBytes limits
         then r\<lparr>violations := violations r @
                [\<lparr>rv_code = total_bytes, rv_type = None, rv_day = None,
                  rv_observed = totalBytes r, rv_limit = warnTotalBytes limits\<rparr>]\<rparr>
         else r)"

definition addOpCountViolations ::
    "retention_report \<Rightarrow> (crdt_type \<Rightarrow> int) \<Rightarrow> crdt_limits \<Rightarrow> retention_report" where
  "addOpCountViolations report counts limits =
     foldl (\<lambda>r type.
        if counts type > warnOpCount limits
        then r\<lparr>violations := violations r @
               [\<lparr>rv_code = op_count, rv_type = Some type, rv_day = None,
                 rv_observed = counts type, rv_limit = warnOpCount limits\<rparr>]\<rparr>
        else r) report TYPES"

text \<open>One line per violation; its fields are those of the violation and of the report.\<close>

record retention_line =
  rl_violation :: retention_violation
  rl_totalBytes :: int
  rl_oldestDay :: "string option"
  rl_newestDay :: "string option"

definition warnRetention :: "retention_report \<Rightarrow> retention_line list \<times> nat" where
  "warnRetention report =
     (map (\<lambda>v. \<lparr>rl_violation = v, rl_totalBytes = totalBytes report,
                rl_oldestDay = oldestDay report, rl_newestDay = newestDay report\<rparr>) (violations report),
      length (violations report))"

subsection \<open>What a report says\<close>

definition seg_violations :: "crdt_limits \<Rightarrow> crdt_type \<Rightarrow> segment_size list \<Rightarrow> retention_violation list" where
  "seg_violations limits type sizes =
     map (\<lambda>(day, bytes). \<lparr>rv_code = segment_bytes, rv_type = Some type, rv_day = Some day,
                           rv_observed = bytes, rv_limit = warnSegmentBytes limits\<rparr>)
       (filter (\<lambda>(day, bytes). bytes > warnSegmentBytes limits) sizes)"

definition min_opt :: "string option \<Rightarrow> string list \<Rightarrow> string option" where
  "min_opt o0 ds = foldl (\<lambda>acc day. case acc of None \<Rightarrow> Some day | Some d \<Rightarrow> Some (min day d)) o0 ds"

definition max_opt :: "string option \<Rightarrow> string list \<Rightarrow> string option" where
  "max_opt o0 ds = foldl (\<lambda>acc day. case acc of None \<Rightarrow> Some day | Some d \<Rightarrow> Some (max day d)) o0 ds"

lemma inspect_segments:
  "foldl (inspect_segment limits type) r sizes =
     r\<lparr>totalBytes := totalBytes r + sum_list (map snd sizes),
       oldestDay := min_opt (oldestDay r) (map fst sizes),
       newestDay := max_opt (newestDay r) (map fst sizes),
       violations := violations r @ seg_violations limits type sizes\<rparr>"
proof (induction sizes arbitrary: r)
  case Nil
  then show ?case by (simp add: seg_violations_def min_opt_def max_opt_def)
next
  case (Cons p sizes)
  obtain day bytes where "p = (day, bytes)" by (cases p)
  with Cons show ?case
    by (auto simp: inspect_segment_def seg_violations_def min_opt_def max_opt_def min_def max_def
        split: option.splits)
qed

definition count_violations :: "crdt_limits \<Rightarrow> crdt_type \<Rightarrow> segment_size list \<Rightarrow> retention_violation list" where
  "count_violations limits type sizes =
     (if int (length sizes) > warnSegmentCount limits
      then [\<lparr>rv_code = segment_count, rv_type = Some type, rv_day = None,
             rv_observed = int (length sizes), rv_limit = warnSegmentCount limits\<rparr>] else [])"

lemma inspect_type_eq:
  "inspect_type limits sizes r type =
     r\<lparr>totalBytes := totalBytes r + sum_list (map snd (sizes type)),
       segmentCounts := (segmentCounts r)(type := int (length (sizes type))),
       oldestDay := min_opt (oldestDay r) (map fst (sizes type)),
       newestDay := max_opt (newestDay r) (map fst (sizes type)),
       violations := violations r @ count_violations limits type (sizes type)
         @ seg_violations limits type (sizes type)\<rparr>"
  by (simp add: inspect_type_def Let_def inspect_segments count_violations_def)

lemma min_opt_append: "min_opt (min_opt o0 xs) ys = min_opt o0 (xs @ ys)"
  by (simp add: min_opt_def)

lemma max_opt_append: "max_opt (max_opt o0 xs) ys = max_opt o0 (xs @ ys)"
  by (simp add: max_opt_def)

lemma min_opt_Some: "min_opt (Some d) ds = Some (Min (insert d (set ds)))"
proof (induction ds arbitrary: d)
  case Nil
  then show ?case by (simp add: min_opt_def)
next
  case (Cons x ds)
  have "min_opt (Some d) (x # ds) = min_opt (Some (min x d)) ds" by (simp add: min_opt_def)
  then show ?case using Cons [of "min x d"]
    by (cases "ds = []") (simp_all add: insert_commute min.commute min.left_commute)
qed

lemma max_opt_Some: "max_opt (Some d) ds = Some (Max (insert d (set ds)))"
proof (induction ds arbitrary: d)
  case Nil
  then show ?case by (simp add: max_opt_def)
next
  case (Cons x ds)
  have "max_opt (Some d) (x # ds) = max_opt (Some (max x d)) ds" by (simp add: max_opt_def)
  then show ?case using Cons [of "max x d"]
    by (cases "ds = []") (simp_all add: insert_commute max.commute max.left_commute)
qed

lemma min_opt_None: "min_opt None ds = (if ds = [] then None else Some (Min (set ds)))"
proof (cases ds)
  case (Cons d ds')
  then have "min_opt None ds = min_opt (Some d) ds'" by (simp add: min_opt_def)
  then show ?thesis using Cons by (simp add: min_opt_Some)
qed (simp add: min_opt_def)

lemma max_opt_None: "max_opt None ds = (if ds = [] then None else Some (Max (set ds)))"
proof (cases ds)
  case (Cons d ds')
  then have "max_opt None ds = max_opt (Some d) ds'" by (simp add: max_opt_def)
  then show ?thesis using Cons by (simp add: max_opt_Some)
qed (simp add: max_opt_def)

definition all_sizes :: "(crdt_type \<Rightarrow> segment_size list) \<Rightarrow> segment_size list" where
  "all_sizes sizes = concat (map sizes TYPES)"

lemma inspectRetention_eq:
  fixes sizes limits
  defines "days \<equiv> map fst (all_sizes sizes)" and "tot \<equiv> sum_list (map snd (all_sizes sizes))"
  shows "inspectRetention sizes limits =
    \<lparr>totalBytes = tot, segmentCounts = (\<lambda>t. int (length (sizes t))),
     oldestDay = (if days = [] then None else Some (Min (set days))),
     newestDay = (if days = [] then None else Some (Max (set days))),
     violations = concat (map (\<lambda>t. count_violations limits t (sizes t) @ seg_violations limits t (sizes t)) TYPES)
       @ (if tot > warnTotalBytes limits
          then [\<lparr>rv_code = total_bytes, rv_type = None, rv_day = None, rv_observed = tot,
                 rv_limit = warnTotalBytes limits\<rparr>] else [])\<rparr>"
proof -
  have counts: "((\<lambda>_. 0 :: int)(LWW := a LWW, GSET := a GSET, ORSET := a ORSET)) = a" for a
  proof
    fix t
    show "((\<lambda>_. 0 :: int)(LWW := a LWW, GSET := a GSET, ORSET := a ORSET)) t = a t"
      by (cases t) simp_all
  qed
  have days: "min_opt None days = (if days = [] then None else Some (Min (set days)))"
    "max_opt None days = (if days = [] then None else Some (Max (set days)))"
    by (rule min_opt_None max_opt_None)+
  have "foldl (inspect_type limits sizes)
      \<lparr>totalBytes = 0, segmentCounts = (\<lambda>_. 0), oldestDay = None, newestDay = None, violations = []\<rparr> TYPES =
    \<lparr>totalBytes = tot, segmentCounts = (\<lambda>t. int (length (sizes t))),
     oldestDay = min_opt None days, newestDay = max_opt None days,
     violations = concat (map (\<lambda>t. count_violations limits t (sizes t) @ seg_violations limits t (sizes t)) TYPES)\<rparr>"
    using counts [of "\<lambda>t. int (length (sizes t))"]
    by (simp add: inspect_type_eq TYPES_def min_opt_append max_opt_append days_def tot_def all_sizes_def)
  then show ?thesis unfolding inspectRetention_def days by (simp only: Let_def) simp
qed

subsection \<open>Properties\<close>

text \<open>A retention report names a limit exactly when it is exceeded: one entry per type with
  too many segments, one per oversized segment with its day and size, one when the total is
  too large, and no other; its total, counts and day range are those of the segments, and
  \<open>warnRetention\<close> writes one line per entry.\<close>

theorem retention_exact:
  "(v \<in> set (violations (inspectRetention sizes limits)) \<longleftrightarrow>
      (\<exists>t. v = \<lparr>rv_code = segment_count, rv_type = Some t, rv_day = None,
                rv_observed = int (length (sizes t)), rv_limit = warnSegmentCount limits\<rparr>
           \<and> int (length (sizes t)) > warnSegmentCount limits)
      \<or> (\<exists>t day bytes. (day, bytes) \<in> set (sizes t) \<and> bytes > warnSegmentBytes limits
           \<and> v = \<lparr>rv_code = segment_bytes, rv_type = Some t, rv_day = Some day,
                   rv_observed = bytes, rv_limit = warnSegmentBytes limits\<rparr>)
      \<or> (v = \<lparr>rv_code = total_bytes, rv_type = None, rv_day = None,
               rv_observed = sum_list (map snd (all_sizes sizes)), rv_limit = warnTotalBytes limits\<rparr>
           \<and> sum_list (map snd (all_sizes sizes)) > warnTotalBytes limits))
   \<and> snd (warnRetention (inspectRetention sizes limits))
       = length (fst (warnRetention (inspectRetention sizes limits)))
   \<and> map rl_violation (fst (warnRetention (inspectRetention sizes limits)))
       = violations (inspectRetention sizes limits)"
proof -
  have "v \<in> set (concat (map (\<lambda>t. count_violations limits t (sizes t) @ seg_violations limits t (sizes t)) TYPES)) \<longleftrightarrow>
      (\<exists>t. v \<in> set (count_violations limits t (sizes t))) \<or> (\<exists>t. v \<in> set (seg_violations limits t (sizes t)))"
    by auto
  moreover have "v \<in> set (count_violations limits t (sizes t)) \<longleftrightarrow>
      v = \<lparr>rv_code = segment_count, rv_type = Some t, rv_day = None,
           rv_observed = int (length (sizes t)), rv_limit = warnSegmentCount limits\<rparr>
      \<and> int (length (sizes t)) > warnSegmentCount limits" for t
    by (simp add: count_violations_def)
  moreover have "v \<in> set (seg_violations limits t (sizes t)) \<longleftrightarrow>
      (\<exists>day bytes. (day, bytes) \<in> set (sizes t) \<and> bytes > warnSegmentBytes limits
         \<and> v = \<lparr>rv_code = segment_bytes, rv_type = Some t, rv_day = Some day,
                 rv_observed = bytes, rv_limit = warnSegmentBytes limits\<rparr>)" for t
    by (auto simp: seg_violations_def image_iff Bex_def)
  ultimately show ?thesis
    by (auto simp: inspectRetention_eq warnRetention_def o_def)
qed

end
