(* ===== verification/Calendar.thy ===== *)
theory Calendar
  imports Bytes
begin

text \<open>
  The part of \<open>Date\<close> that the op log and the sync routes use: the UTC calendar of a Unix
  time in milliseconds, the strings \<open>YYYY-MM-DD\<close> that name segments
  (\<open>utcDate\<close> in \<open>src/daemon/src/crdt/oplog.ts\<close>), the check of such a name
  (\<open>isSafeSegmentName\<close> in \<open>src/daemon/src/daemon/routes/sync.ts\<close>), and \<open>toISOString\<close>.
  Shown here: the calendar round-trips, every segment name the op log writes passes the
  check, and string order on names is the order of days.
\<close>

subsection \<open>Days and years\<close>

definition leap :: "int \<Rightarrow> bool" where
  "leap y \<longleftrightarrow> y mod 4 = 0 \<and> (y mod 100 \<noteq> 0 \<or> y mod 400 = 0)"

definition year_len :: "int \<Rightarrow> int" where
  "year_len y = (if leap y then 366 else 365)"

definition day_from_year :: "int \<Rightarrow> int" where
  "day_from_year y =
     365 * (y - 1970) + (y - 1969) div 4 - (y - 1901) div 100 + (y - 1601) div 400"

text \<open>The year of a day: the estimate by the mean year is off by at most one.\<close>

definition year_of_day :: "int \<Rightarrow> int" where
  "year_of_day d =
     (let y = 1970 + (400 * d) div 146097
      in if d < day_from_year y then y - 1 else if day_from_year (y + 1) \<le> d then y + 1 else y)"

definition month_lens :: "int \<Rightarrow> int list" where
  "month_lens y = [31, if leap y then 29 else 28, 31, 30, 31, 30, 31, 31, 30, 31, 30, 31]"

definition month_start :: "int \<Rightarrow> nat \<Rightarrow> int" where
  "month_start y m = sum_list (take m (month_lens y))"

fun find_month :: "int list \<Rightarrow> int \<Rightarrow> int \<Rightarrow> int \<times> int" where
  "find_month [] m d = (m, d)"
| "find_month (l # ls) m d = (if d < l then (m, d) else find_month ls (m + 1) (d - l))"

text \<open>\<open>getUTCFullYear\<close>, \<open>getUTCMonth() + 1\<close> and \<open>getUTCDate\<close> of a day number.\<close>

definition date_of_day :: "int \<Rightarrow> int \<times> int \<times> int" where
  "date_of_day d =
     (let y = year_of_day d; (m, r) = find_month (month_lens y) 1 (d - day_from_year y)
      in (y, m, r + 1))"

text \<open>\<open>Date.UTC\<close>: overflowing months carry into the year, and years 0 to 99 mean 1900 on.\<close>

definition day_of_utc :: "int \<Rightarrow> int \<Rightarrow> int \<Rightarrow> int" where
  "day_of_utc y0 m0 d =
     (let y1 = (if 0 \<le> y0 \<and> y0 \<le> 99 then 1900 + y0 else y0);
          y = y1 + m0 div 12; m = m0 mod 12
      in day_from_year y + month_start y (nat m) + (d - 1))"

definition valid_date :: "int \<Rightarrow> int \<Rightarrow> int \<Rightarrow> bool" where
  "valid_date y m d \<longleftrightarrow> 1 \<le> m \<and> m \<le> 12 \<and> 1 \<le> d \<and> d \<le> month_lens y ! nat (m - 1)"

lemma div_Suc_step:
  assumes "0 < (k::int)"
  shows "(x + 1) div k = x div k + (if (x + 1) mod k = 0 then 1 else 0)"
proof (cases "x mod k = k - 1")
  case True
  then have "x + 1 = k * (x div k + 1)"
    using mult_div_mod_eq [of k x] by (simp only: distrib_left)
  then have "(x + 1) div k = x div k + 1 \<and> (x + 1) mod k = 0"
    using assms by (metis nonzero_mult_div_cancel_left mod_mult_self1_is_0 less_irrefl)
  then show ?thesis by simp
next
  case False
  with assms have r: "0 \<le> x mod k" "x mod k + 1 < k"
    using pos_mod_bound [OF assms, of x] pos_mod_sign [OF assms, of x] by linarith+
  have e: "x + 1 = k * (x div k) + (x mod k + 1)"
    using mult_div_mod_eq [of k x] by simp
  from r have "(x + 1) div k = x div k" "(x + 1) mod k = x mod k + 1"
    by (auto intro: int_div_pos_eq [OF e] int_mod_pos_eq [OF e])
  with r show ?thesis by simp
qed

lemma day_from_year_Suc: "day_from_year (y + 1) = day_from_year y + year_len y"
proof -
  have m: "(y - 1968) mod 4 = 0 \<longleftrightarrow> y mod 4 = 0" "(y - 1900) mod 100 = 0 \<longleftrightarrow> y mod 100 = 0"
    "(y - 1600) mod 400 = 0 \<longleftrightarrow> y mod 400 = 0"
    by (simp_all add: mod_eq_0_iff_dvd dvd_diff_left_iff)
  have a: "(y - 1968) div 4 = (y - 1969) div 4 + (if y mod 4 = 0 then 1 else 0)"
    using div_Suc_step [of 4 "y - 1969"] m(1) by simp
  have b: "(y - 1900) div 100 = (y - 1901) div 100 + (if y mod 100 = 0 then 1 else 0)"
    using div_Suc_step [of 100 "y - 1901"] m(2) by simp
  have c: "(y - 1600) div 400 = (y - 1601) div 400 + (if y mod 400 = 0 then 1 else 0)"
    using div_Suc_step [of 400 "y - 1601"] m(3) by simp
  have d: "y mod 400 = 0 \<Longrightarrow> y mod 100 = 0" "y mod 100 = 0 \<Longrightarrow> y mod 4 = 0"
    using dvd_trans [of 100 400 y] dvd_trans [of 4 100 y] by (simp_all add: mod_eq_0_iff_dvd)
  have "day_from_year (y + 1) - day_from_year y = 365
      + ((y - 1968) div 4 - (y - 1969) div 4)
      - ((y - 1900) div 100 - (y - 1901) div 100)
      + ((y - 1600) div 400 - (y - 1601) div 400)"
    unfolding day_from_year_def by simp
  then show ?thesis
    unfolding a b c year_len_def leap_def using d by (auto split: if_splits)
qed

lemma day_from_year_mono: "y \<le> z \<Longrightarrow> day_from_year y \<le> day_from_year z"
proof (induction z rule: int_ge_induct)
  case base
  then show ?case by simp
next
  case (step z)
  then show ?case using day_from_year_Suc [of z] by (simp add: year_len_def split: if_splits)
qed

lemma div_mod_bounds:
  "0 < (k::int) \<Longrightarrow> k * (x div k) \<le> x \<and> x - (k - 1) \<le> k * (x div k)"
  using mult_div_mod_eq [of k x] pos_mod_bound [of k x] pos_mod_sign [of k x] by linarith

lemma day_from_year_approx:
  "146097 * (y - 1970) - 600 \<le> 400 * day_from_year y \<and> 400 * day_from_year y \<le> 146097 * (y - 1970) + 700"
proof -
  have "4 * ((y - 1969) div 4) \<le> y - 1969" "y - 1969 - 3 \<le> 4 * ((y - 1969) div 4)"
    and "100 * ((y - 1901) div 100) \<le> y - 1901" "y - 1901 - 99 \<le> 100 * ((y - 1901) div 100)"
    and "400 * ((y - 1601) div 400) \<le> y - 1601" "y - 1601 - 399 \<le> 400 * ((y - 1601) div 400)"
    using div_mod_bounds [of 4 "y - 1969"] div_mod_bounds [of 100 "y - 1901"]
      div_mod_bounds [of 400 "y - 1601"] by auto
  then show ?thesis
    unfolding day_from_year_def right_diff_distrib distrib_left by (intro conjI; linarith)
qed

lemma year_of_day_bounds:
  "day_from_year (year_of_day d) \<le> d \<and> d < day_from_year (year_of_day d + 1)"
proof -
  define y where "y = 1970 + (400 * d) div 146097"
  have e: "146097 * (y - 1970) \<le> 400 * d" "400 * d < 146097 * (y - 1970) + 146097"
    using div_mod_bounds [of 146097 "400 * d"] unfolding y_def by auto
  have lo: "day_from_year (y - 1) \<le> d"
    using conjunct2 [OF day_from_year_approx [of "y - 1"]] e by (simp add: algebra_simps)
  have hi: "d < day_from_year (y + 2)"
    using conjunct1 [OF day_from_year_approx [of "y + 2"]] e by (simp add: algebra_simps)
  show ?thesis
    using lo hi by (auto simp: year_of_day_def Let_def y_def [symmetric] add.assoc)
qed

lemma year_of_day_unique:
  assumes "day_from_year y \<le> d" "d < day_from_year (y + 1)"
  shows "year_of_day d = y"
proof (rule ccontr)
  assume "year_of_day d \<noteq> y"
  then consider "year_of_day d + 1 \<le> y" | "y + 1 \<le> year_of_day d" by linarith
  then show False
  proof cases
    case 1
    from day_from_year_mono [OF this] year_of_day_bounds [of d] assms show False by linarith
  next
    case 2
    from day_from_year_mono [OF this] year_of_day_bounds [of d] assms show False by linarith
  qed
qed

subsection \<open>Months\<close>

lemma sum_month_lens: "sum_list (month_lens y) = year_len y"
  by (simp add: month_lens_def year_len_def)

lemma find_month_start:
  assumes "k < length ls" "0 \<le> r" "r < ls ! k" "\<forall>l \<in> set ls. 0 < l"
  shows "find_month ls m (sum_list (take k ls) + r) = (m + int k, r)"
  using assms
proof (induction ls arbitrary: k m)
  case Nil
  then show ?case by simp
next
  case (Cons l ls)
  show ?case
  proof (cases k)
    case 0
    with Cons.prems show ?thesis by simp
  next
    case (Suc j)
    have "0 \<le> sum_list (take j ls)"
      using Cons.prems(4) by (intro sum_list_nonneg) (auto dest!: in_set_takeD intro: less_imp_le)
    moreover have "0 < l" using Cons.prems(4) by simp
    ultimately have "\<not> l + sum_list (take j ls) + r < l" using Cons.prems(2) by linarith
    with Suc Cons.prems Cons.IH [of j "m + 1"] show ?thesis by (simp add: add.assoc)
  qed
qed

lemma find_month_correct:
  assumes "0 \<le> r" "r < sum_list ls" "find_month ls m r = (m', r')" "\<forall>l \<in> set ls. 0 < l"
  shows "m \<le> m' \<and> nat (m' - m) < length ls \<and> 0 \<le> r' \<and> r' < ls ! nat (m' - m)
    \<and> r = sum_list (take (nat (m' - m)) ls) + r'"
  using assms
proof (induction ls arbitrary: m r)
  case Nil
  then show ?case by simp
next
  case (Cons l ls)
  show ?case
  proof (cases "r < l")
    case True
    with Cons.prems show ?thesis by simp
  next
    case False
    with Cons.prems Cons.IH [of "r - l" "m + 1"]
    have IH: "m + 1 \<le> m'" "nat (m' - (m + 1)) < length ls" "0 \<le> r'" "r' < ls ! nat (m' - (m + 1))"
      "r - l = sum_list (take (nat (m' - (m + 1))) ls) + r'" by auto
    then have "nat (m' - m) = Suc (nat (m' - (m + 1)))" by linarith
    with IH show ?thesis by simp
  qed
qed

lemma month_lens_pos: "\<forall>l \<in> set (month_lens y). 0 < l"
  by (simp add: month_lens_def)

lemma length_month_lens: "length (month_lens y) = 12"
  by (simp add: month_lens_def)

lemma month_start_bound:
  assumes "valid_date y m d"
  shows "0 \<le> month_start y (nat (m - 1)) + (d - 1)"
    "month_start y (nat (m - 1)) + (d - 1) < year_len y"
proof -
  let ?k = "nat (m - 1)" and ?ls = "month_lens y"
  have k: "?k < length ?ls" using assms by (auto simp: valid_date_def length_month_lens)
  have nn: "0 \<le> sum_list (take j ?ls)" "0 \<le> sum_list (drop j ?ls)" for j
    using month_lens_pos [of y]
    by (auto intro!: sum_list_nonneg dest!: in_set_takeD in_set_dropD intro: less_imp_le)
  show "0 \<le> month_start y ?k + (d - 1)"
    using nn(1) [of ?k] assms by (simp add: month_start_def valid_date_def)
  have "sum_list ?ls = sum_list (take ?k ?ls) + (?ls ! ?k + sum_list (drop (Suc ?k) ?ls))"
    using k by (metis Cons_nth_drop_Suc append_take_drop_id sum_list.Cons sum_list.append)
  with nn(2) [of "Suc ?k"] assms show "month_start y ?k + (d - 1) < year_len y"
    by (simp add: month_start_def valid_date_def sum_month_lens)
qed

lemma date_of_day_of_date:
  assumes "valid_date y m d"
  shows "date_of_day (day_from_year y + month_start y (nat (m - 1)) + (d - 1)) = (y, m, d)"
proof -
  let ?r = "month_start y (nat (m - 1)) + (d - 1)"
  have "year_of_day (day_from_year y + ?r) = y"
    using month_start_bound [OF assms] day_from_year_Suc [of y]
    by (intro year_of_day_unique) auto
  moreover have "find_month (month_lens y) 1 ?r = (m, d - 1)"
    using assms find_month_start [of "nat (m - 1)" "month_lens y" "d - 1" 1] month_lens_pos
    by (auto simp: valid_date_def month_start_def length_month_lens)
  ultimately show ?thesis by (simp add: date_of_day_def add.assoc)
qed

lemma date_of_day_valid:
  assumes "date_of_day n = (y, m, d)"
  shows "valid_date y m d \<and> n = day_from_year y + month_start y (nat (m - 1)) + (d - 1)"
proof -
  have y: "y = year_of_day n" and f: "find_month (month_lens y) 1 (n - day_from_year y) = (m, d - 1)"
    using assms by (auto simp: date_of_day_def Let_def split: prod.splits)
  have b: "0 \<le> n - day_from_year y" "n - day_from_year y < sum_list (month_lens y)"
    using year_of_day_bounds [of n] day_from_year_Suc [of y] by (auto simp: y sum_month_lens)
  from find_month_correct [OF b f month_lens_pos]
  show ?thesis by (auto simp: valid_date_def length_month_lens month_start_def)
qed

text \<open>\<open>Date.UTC\<close> followed by the getters is the identity exactly on real dates of year 100 on.\<close>

lemma day_of_utc_valid:
  "valid_date y m d \<Longrightarrow> 100 \<le> y \<Longrightarrow>
   day_of_utc y (m - 1) d = day_from_year y + month_start y (nat (m - 1)) + (d - 1)"
  by (simp add: day_of_utc_def valid_date_def)

lemma day_order:
  assumes "valid_date y m d" "valid_date y' m' d'"
  defines "n \<equiv> day_from_year y + month_start y (nat (m - 1)) + (d - 1)"
    and "n' \<equiv> day_from_year y' + month_start y' (nat (m' - 1)) + (d' - 1)"
  assumes "y < y' \<or> y = y' \<and> (m < m' \<or> m = m' \<and> d < d')"
  shows "n < n'"
  using assms(5)
proof (elim disjE conjE)
  assume "y < y'"
  then show ?thesis
    using day_from_year_mono [of "y + 1" y'] day_from_year_Suc [of y]
      month_start_bound [OF assms(1)] month_start_bound [OF assms(2)]
    unfolding n_def n'_def by linarith
next
  assume yy: "y = y'" and "m < m'"
  let ?k = "nat (m - 1)" and ?k' = "nat (m' - 1)" and ?ls = "month_lens y"
  have k: "?k < length ?ls" "Suc ?k \<le> ?k'" using assms(1) \<open>m < m'\<close>
    by (auto simp: valid_date_def length_month_lens)
  have "0 \<le> sum_list (take (?k' - Suc ?k) (drop (Suc ?k) ?ls))"
    using month_lens_pos [of y]
    by (intro sum_list_nonneg) (auto dest!: in_set_takeD in_set_dropD intro: less_imp_le)
  moreover have "take ?k' ?ls = take (Suc ?k) ?ls @ take (?k' - Suc ?k) (drop (Suc ?k) ?ls)"
    using k(2) by (metis le_add_diff_inverse take_add)
  ultimately have "sum_list (take ?k ?ls) + ?ls ! ?k \<le> sum_list (take ?k' ?ls)"
    using k(1) by (simp add: take_Suc_conv_app_nth)
  then show ?thesis
    using assms(1,2) yy by (simp add: n_def n'_def month_start_def valid_date_def)
next
  assume "y = y'" "m = m'" "d < d'"
  then show ?thesis by (simp add: n_def n'_def)
qed

subsection \<open>Decimal fields of fixed width\<close>

definition padStart :: "nat \<Rightarrow> string \<Rightarrow> string" where
  "padStart n s = replicate (n - length s) (CHR ''0'') @ s"

definition is_digit :: "char \<Rightarrow> bool" where
  "is_digit c \<longleftrightarrow> 48 \<le> (of_char c :: nat) \<and> (of_char c :: nat) \<le> 57"

fun dig :: "nat \<Rightarrow> nat \<Rightarrow> string" where
  "dig 0 v = []"
| "dig (Suc n) v = dig n (v div 10) @ [char_of (v mod 10 + 48)]"

lemma length_dig [simp]: "length (dig n v) = n"
  by (induction n arbitrary: v) auto

lemma dec_val_snoc: "dec_val (s @ [c]) = 10 * dec_val s + (of_char c - 48)"
  by (simp add: dec_val_def)

lemma dec_val_dig: "v < 10 ^ n \<Longrightarrow> dec_val (dig n v) = v"
proof (induction n arbitrary: v)
  case 0
  then show ?case by (simp add: dec_val_def)
next
  case (Suc n)
  then have "v div 10 < 10 ^ n" by (simp add: less_mult_imp_div_less mult.commute)
  with Suc.IH show ?case by (simp add: dec_val_snoc)
qed

lemma digits_dig: "\<forall>c \<in> set (dig n v). is_digit c"
  by (induction n arbitrary: v) (auto simp: is_digit_def)

lemma is_digitE: "is_digit c \<Longrightarrow> \<exists>j. of_char c = 48 + j \<and> j < (10::nat)"
  by (rule exI [of _ "of_char c - 48"]) (auto simp: is_digit_def)

lemma dec_val_less: "\<forall>c \<in> set s. is_digit c \<Longrightarrow> dec_val s < 10 ^ length s"
proof (induction s rule: rev_induct)
  case Nil
  then show ?case by (simp add: dec_val_def)
next
  case (snoc c s)
  then have "dec_val s + 1 \<le> 10 ^ length s" by simp
  moreover obtain j :: nat where "of_char c = 48 + j" "j < 10" using is_digitE snoc.prems by auto
  ultimately show ?case by (simp add: dec_val_snoc)
qed

lemma dig_dec_val: "\<forall>c \<in> set s. is_digit c \<Longrightarrow> dig (length s) (dec_val s) = s"
proof (induction s rule: rev_induct)
  case Nil
  then show ?case by simp
next
  case (snoc c s)
  obtain j :: nat where j: "of_char c = 48 + j" "j < 10" using is_digitE snoc.prems by auto
  then have "char_of (j + 48) = c" by (metis add.commute char_of_char)
  with j snoc show ?case by (simp add: dec_val_snoc)
qed

lemma digits_less: "r < 10 \<Longrightarrow> q < 10 \<Longrightarrow> 10 * a + r < 10 * b + q \<longleftrightarrow> a < b \<or> a = b \<and> r < (q::nat)"
  by auto

lemma dig_less_iff: "v < 10 ^ n \<Longrightarrow> w < 10 ^ n \<Longrightarrow> dig n v < dig n w \<longleftrightarrow> v < w"
proof (induction n arbitrary: v w)
  case 0
  then show ?case by simp
next
  case (Suc n)
  then have b: "v div 10 < 10 ^ n" "w div 10 < 10 ^ n" by (simp_all add: less_mult_imp_div_less mult.commute)
  have eq: "dig n (v div 10) = dig n (w div 10) \<longleftrightarrow> v div 10 = w div 10"
    using b dec_val_dig by metis
  have ch: "(char_of (v mod 10 + 48) :: char) < char_of (w mod 10 + 48) \<longleftrightarrow> v mod 10 < w mod 10"
    by (simp add: less_char_def)
  have "v < w \<longleftrightarrow> v div 10 < w div 10 \<or> v div 10 = w div 10 \<and> v mod 10 < w mod 10"
    using digits_less [of "v mod 10" "w mod 10" "v div 10" "w div 10"] by simp
  then show ?case using Suc.IH [OF b] by (simp add: append_less_iff eq ch)
qed

lemma dig_inject: "v < 10 ^ n \<Longrightarrow> w < 10 ^ n \<Longrightarrow> dig n v = dig n w \<longleftrightarrow> v = w"
  by (metis dec_val_dig)

lemma nat_dec_dig: "10 ^ n \<le> v \<Longrightarrow> v < 10 ^ Suc n \<Longrightarrow> nat_dec v = dig (Suc n) v"
proof (induction n arbitrary: v)
  case 0
  then show ?case by (subst nat_dec.simps) simp
next
  case (Suc n)
  then have "10 ^ n \<le> v div 10" "v div 10 < 10 ^ Suc n" by simp_all
  moreover have "\<not> v < 10" using Suc.prems(1) one_le_power [of "10::nat" n] unfolding power_Suc by linarith
  ultimately have "10 ^ n \<le> v div 10" "v div 10 < 10 ^ Suc n" "\<not> v < 10" by simp_all
  with Suc.IH [of "v div 10"] Suc.prems show ?case by (subst nat_dec.simps) simp
qed

lemma pad2_dig: "v < 100 \<Longrightarrow> padStart 2 (nat_dec v) = dig 2 v"
proof (cases "v < 10")
  case True
  moreover have "char_of (48::nat) = CHR ''0''" by (simp add: char_of_eq_iff)
  ultimately show ?thesis by (subst nat_dec.simps) (simp add: padStart_def numeral_2_eq_2)
next
  case False
  moreover assume "v < 100"
  ultimately show ?thesis using nat_dec_dig [of 1 v] by (simp add: padStart_def numeral_2_eq_2)
qed

subsection \<open>Segment names\<close>

definition MAX_TIME_MS :: int where
  "MAX_TIME_MS = 8640000000000000"

definition DAY_MS :: int where
  "DAY_MS = 86400000"

definition utcDate :: "int \<Rightarrow> string" where
  "utcDate unixMs =
     (if \<bar>unixMs\<bar> \<le> MAX_TIME_MS
      then let (y, m, d) = date_of_day (unixMs div DAY_MS)
           in int_dec y @ ''-'' @ padStart 2 (int_dec m) @ ''-'' @ padStart 2 (int_dec d)
      else ''NaN-NaN-NaN'')"

definition isSafeSegmentName :: "string \<Rightarrow> bool" where
  "isSafeSegmentName s =
     (if length s = 10 \<and> list_all is_digit (take 4 s) \<and> s ! 4 = CHR ''-''
         \<and> list_all is_digit (take 2 (drop 5 s)) \<and> s ! 7 = CHR ''-'' \<and> list_all is_digit (drop 8 s)
      then let y = int (dec_val (take 4 s)); mo = int (dec_val (take 2 (drop 5 s)));
               d = int (dec_val (drop 8 s))
           in date_of_day (day_of_utc y (mo - 1) d) = (y, mo, d)
      else False)"

text \<open>\<open>Date.prototype.toISOString\<close>; \<open>None\<close> is its \<open>RangeError\<close>.\<close>

definition toISOString :: "int \<Rightarrow> string option" where
  "toISOString t =
     (if \<bar>t\<bar> \<le> MAX_TIME_MS
      then let (y, m, d) = date_of_day (t div DAY_MS); r = t mod DAY_MS; p = (\<lambda>n i. padStart n (int_dec i))
           in Some ((if 0 \<le> y \<and> y \<le> 9999 then p 4 y
                     else (if y < 0 then ''-'' else ''+'') @ p 6 \<bar>y\<bar>)
                @ ''-'' @ p 2 m @ ''-'' @ p 2 d @ ''T'' @ p 2 (r div 3600000) @ '':''
                @ p 2 (r div 60000 mod 60) @ '':'' @ p 2 (r div 1000 mod 60) @ ''.''
                @ p 3 (r mod 1000) @ ''Z'')
      else None)"

definition seg_name :: "int \<Rightarrow> int \<Rightarrow> int \<Rightarrow> string" where
  "seg_name y m d = dig 4 (nat y) @ CHR ''-'' # dig 2 (nat m) @ CHR ''-'' # dig 2 (nat d)"

lemma valid_date_ranges:
  assumes "valid_date y m d"
  shows "1 \<le> m" "m \<le> 12" "1 \<le> d" "d \<le> 31"
proof -
  show "1 \<le> m" "m \<le> 12" "1 \<le> d" using assms by (auto simp: valid_date_def)
  have "nat (m - 1) < length (month_lens y)" using assms by (auto simp: valid_date_def length_month_lens)
  then have "month_lens y ! nat (m - 1) \<in> set (month_lens y)" by (rule nth_mem)
  then have "month_lens y ! nat (m - 1) \<le> 31" by (auto simp: month_lens_def)
  then show "d \<le> 31" using assms by (auto simp: valid_date_def)
qed

lemma utcDate_seg_name:
  assumes "date_of_day (t div DAY_MS) = (y, m, d)" "\<bar>t\<bar> \<le> MAX_TIME_MS" "1000 \<le> y" "y \<le> 9999"
  shows "utcDate t = seg_name y m d"
proof -
  note r = valid_date_ranges [OF conjunct1 [OF date_of_day_valid [OF assms(1)]]]
  have "10 ^ 3 \<le> nat y" "nat y < 10 ^ Suc 3" "Suc 3 = 4" using assms(3,4) by (simp_all add: le_nat_iff)
  then have "nat_dec (nat y) = dig 4 (nat y)" by (metis nat_dec_dig)
  with r assms show ?thesis by (simp add: utcDate_def seg_name_def int_dec_def pad2_dig)
qed

lemma isSafeSegmentName_seg_name:
  assumes "valid_date y m d" "100 \<le> y" "y \<le> 9999"
  shows "isSafeSegmentName (seg_name y m d)"
proof -
  note r = valid_date_ranges [OF assms(1)]
  have n: "nat y < 10 ^ 4" "nat m < 10 ^ 2" "nat d < 10 ^ 2"
    using r assms(3) by simp_all
  note v = n [THEN dec_val_dig]
  have e: "date_of_day (day_of_utc y (m - 1) d) = (y, m, d)"
    using assms by (simp add: day_of_utc_valid date_of_day_of_date)
  have n4: "(dig 4 (nat y) @ CHR ''-'' # xs) ! 4 = CHR ''-''" for xs
    by (simp add: nth_append)
  have n7: "seg_name y m d ! 7 = CHR ''-''"
  proof -
    have "seg_name y m d = (dig 4 (nat y) @ CHR ''-'' # dig 2 (nat m)) @ CHR ''-'' # dig 2 (nat d)"
      by (simp add: seg_name_def)
    moreover have "length (dig 4 (nat y) @ CHR ''-'' # dig 2 (nat m)) = 7" by simp
    ultimately show ?thesis by (metis nth_append_length)
  qed
  have p: "take 4 (seg_name y m d) = dig 4 (nat y)" "take 2 (drop 5 (seg_name y m d)) = dig 2 (nat m)"
    "drop 8 (seg_name y m d) = dig 2 (nat d)" "length (seg_name y m d) = 10"
    "seg_name y m d ! 4 = CHR ''-''"
    using n4 by (simp_all add: seg_name_def)
  show ?thesis
    unfolding isSafeSegmentName_def p n7
    using v e r assms by (simp add: list_all_iff digits_dig Let_def)
qed

lemma isSafeSegmentName_D:
  assumes "isSafeSegmentName s"
  shows "\<exists>y m d. valid_date y m d \<and> 100 \<le> y \<and> y \<le> 9999 \<and> s = seg_name y m d"
proof -
  let ?a = "take 4 s" and ?b = "take 2 (drop 5 s)" and ?c = "drop 8 s"
  define y m d where "y = int (dec_val ?a)" and "m = int (dec_val ?b)" and "d = int (dec_val ?c)"
  have l: "length s = 10" and dg: "\<forall>c \<in> set ?a. is_digit c" "\<forall>c \<in> set ?b. is_digit c" "\<forall>c \<in> set ?c. is_digit c"
    and h: "s ! 4 = CHR ''-''" "s ! 7 = CHR ''-''"
    and e: "date_of_day (day_of_utc y (m - 1) d) = (y, m, d)"
    using assms by (auto simp: isSafeSegmentName_def list_all_iff Let_def y_def m_def d_def split: if_splits)
  have "s = ?a @ s ! 4 # drop 5 s" using l id_take_nth_drop [of 4 s] by simp
  moreover have "drop 5 s = ?b @ drop 7 s"
    using append_take_drop_id [of 2 "drop 5 s", symmetric] by simp
  moreover have "drop 7 s = s ! 7 # ?c" using l Cons_nth_drop_Suc [of 7 s, symmetric] by simp
  ultimately have s: "s = ?a @ CHR ''-'' # ?b @ CHR ''-'' # ?c" using h by metis
  have "dig 4 (nat y) = ?a" "dig 2 (nat m) = ?b" "dig 2 (nat d) = ?c"
    using dig_dec_val [OF dg(1)] dig_dec_val [OF dg(2)] dig_dec_val [OF dg(3)] l
    by (simp_all add: y_def m_def d_def)
  with s have "s = seg_name y m d" by (simp add: seg_name_def)
  moreover have "y \<le> 9999" using dec_val_less [OF dg(1)] l by (simp add: y_def)
  moreover have vd: "valid_date y m d" using date_of_day_valid [OF e] by simp
  moreover have "100 \<le> y"
  proof (rule ccontr)
    assume "\<not> 100 \<le> y"
    then have yr: "0 \<le> y" "y < 100" by (simp_all add: y_def)
    have "day_of_utc y (m - 1) d = day_from_year (1900 + y) + month_start (1900 + y) (nat (m - 1)) + (d - 1)"
      using yr valid_date_ranges [OF vd] by (simp add: day_of_utc_def Let_def)
    moreover have "0 \<le> month_start (1900 + y) (nat (m - 1))"
      using month_lens_pos [of "1900 + y"]
      by (auto simp: month_start_def intro!: sum_list_nonneg dest!: in_set_takeD intro: less_imp_le)
    moreover have "day_from_year y + month_start y (nat (m - 1)) + (d - 1) < day_from_year (y + 1)"
      using month_start_bound [OF vd] day_from_year_Suc [of y] by linarith
    moreover have "day_from_year (y + 1) \<le> day_from_year (1900 + y)"
      by (rule day_from_year_mono) simp
    ultimately show False
      using date_of_day_valid [OF e] valid_date_ranges(3) [OF vd] by linarith
  qed
  ultimately show ?thesis by blast
qed

lemma seg_name_less_iff:
  assumes "valid_date y m d" "0 \<le> y" "y \<le> 9999" "valid_date y' m' d'" "0 \<le> y'" "y' \<le> 9999"
  shows "seg_name y m d < seg_name y' m' d' \<longleftrightarrow> y < y' \<or> y = y' \<and> (m < m' \<or> m = m' \<and> d < d')"
proof -
  note r = valid_date_ranges [OF assms(1)] valid_date_ranges [OF assms(4)]
  show ?thesis
    using r assms by (simp add: seg_name_def append_less_iff dig_less_iff dig_inject nat_eq_iff) auto
qed

text \<open>String order on segment names is the order of their days.\<close>

lemma seg_name_order:
  assumes "date_of_day i = (y, m, d)" "0 \<le> y" "y \<le> 9999" "date_of_day j = (y', m', d')" "0 \<le> y'" "y' \<le> 9999"
  shows "seg_name y m d < seg_name y' m' d' \<longleftrightarrow> i < j"
proof -
  note v = date_of_day_valid [OF assms(1)] date_of_day_valid [OF assms(4)]
  let ?lt = "\<lambda>y m d y' m' d'. y < y' \<or> y = y' \<and> (m < m' \<or> m = m' \<and> d < (d'::int))"
  have "?lt y m d y' m' d' \<Longrightarrow> i < j" "?lt y' m' d' y m d \<Longrightarrow> j < i"
    using v day_order by blast+
  moreover have "?lt y m d y' m' d' \<or> ?lt y' m' d' y m d \<or> (y, m, d) = (y', m', d')" by auto
  ultimately have "?lt y m d y' m' d' \<longleftrightarrow> i < j" using v by fastforce
  then show ?thesis using v assms by (simp add: seg_name_less_iff)
qed

text \<open>The wall times whose calendar year has four digits, and their days.\<close>

definition four_digit_ms :: "int \<Rightarrow> bool" where
  "four_digit_ms t \<longleftrightarrow> 0 \<le> t \<and> t < 253402300800000"

lemma four_digit_date:
  assumes "four_digit_ms t" "date_of_day (t div DAY_MS) = (y, m, d)"
  shows "\<bar>t\<bar> \<le> MAX_TIME_MS" "1970 \<le> y" "y \<le> 9999"
proof -
  show "\<bar>t\<bar> \<le> MAX_TIME_MS" using assms(1) by (simp add: four_digit_ms_def MAX_TIME_MS_def)
  have n: "0 \<le> t div DAY_MS" "t div DAY_MS < 2932897"
    using assms(1) by (auto simp: four_digit_ms_def DAY_MS_def)
  have e: "day_from_year 1970 = 0" "day_from_year 10000 = 2932897" by (simp_all add: day_from_year_def)
  note v = date_of_day_valid [OF assms(2)]
  then have b: "day_from_year y \<le> t div DAY_MS" "t div DAY_MS < day_from_year (y + 1)"
    using month_start_bound [of y m d] day_from_year_Suc [of y] by auto
  show "1970 \<le> y"
    using b(2) n(1) e(1) day_from_year_mono [of "y + 1" 1970] by linarith
  show "y \<le> 9999"
    using b(1) n(2) e(2) day_from_year_mono [of 10000 y] by linarith
qed

lemma utcDate_safe: "four_digit_ms t \<Longrightarrow> isSafeSegmentName (utcDate t)"
  using four_digit_date [of t] date_of_day_valid [of "t div DAY_MS"] utcDate_seg_name [of t]
  by (cases "date_of_day (t div DAY_MS)") (auto intro!: isSafeSegmentName_seg_name)

lemma utcDate_less_iff:
  assumes "four_digit_ms t" "four_digit_ms u"
  shows "utcDate t < utcDate u \<longleftrightarrow> t div DAY_MS < u div DAY_MS"
proof -
  obtain y m d where t: "date_of_day (t div DAY_MS) = (y, m, d)" by (cases "date_of_day (t div DAY_MS)")
  obtain y' m' d' where u: "date_of_day (u div DAY_MS) = (y', m', d')" by (cases "date_of_day (u div DAY_MS)")
  note rt = four_digit_date [OF assms(1) t] and ru = four_digit_date [OF assms(2) u]
  have "utcDate t = seg_name y m d" "utcDate u = seg_name y' m' d'"
    using rt ru t u by (simp_all add: utcDate_seg_name)
  then show ?thesis using rt ru seg_name_order [OF t _ _ u] by simp
qed

lemma utcDate_eq_iff:
  "four_digit_ms t \<Longrightarrow> four_digit_ms u \<Longrightarrow> utcDate t = utcDate u \<longleftrightarrow> t div DAY_MS = u div DAY_MS"
  by (metis linorder_neqE_linordered_idom not_less_iff_gr_or_eq utcDate_less_iff)

subsection \<open>Properties\<close>

text \<open>The name check of the sync routes accepts exactly the strings \<open>YYYY-MM-DD\<close> that spell
  a real calendar day of the years 100 to 9999; in particular no accepted name has a path
  separator or any character but digits and two dashes.\<close>

theorem safe_segment_names:
  "isSafeSegmentName s = (\<exists>y m d. valid_date y m d \<and> 100 \<le> y \<and> y \<le> 9999 \<and> s = seg_name y m d)"
  using isSafeSegmentName_D isSafeSegmentName_seg_name by blast

text \<open>The segment an operation is filed under depends only on its UTC day, its name passes
  the name check of every peer, and the string order of names is the order of days, so that
  listing segments by name replays them oldest first. (From 1970 to the end of 9999.)\<close>

theorem utcDate_orders_days:
  assumes "four_digit_ms t" "four_digit_ms u"
  shows "isSafeSegmentName (utcDate t)
    \<and> (utcDate t = utcDate u \<longleftrightarrow> t div DAY_MS = u div DAY_MS)
    \<and> (utcDate t < utcDate u \<longleftrightarrow> t div DAY_MS < u div DAY_MS)"
  using assms utcDate_safe utcDate_eq_iff utcDate_less_iff by blast

theorem utcDate_orders_days_witness:
  "isSafeSegmentName (utcDate 951868799999) \<and> utcDate 951868799999 < utcDate 951868800000"
  using utcDate_orders_days [of 951868799999 951868800000] by (simp add: four_digit_ms_def DAY_MS_def)

end
