(* ===== verification/Oplog.thy ===== *)
theory Oplog
  imports Wire Retention Calendar
begin

text \<open>
  The append-only operation log of \<open>src/daemon/src/crdt/oplog.ts\<close>. The directory of one CRDT
  type is an association list from the name of a \<open>.log\<close> file (without the suffix) to its
  bytes. The native codec is the argument \<open>bridge\<close> (\<open>WireBridge\<close> of
  \<open>src/daemon/src/crdt/wire.ts\<close>), a throw being \<open>None\<close>. The clock is read once per
  operation, and calls of the operating system succeed; \<open>write_fully\<close> models the loop over
  short writes separately. Shown here: varints and frames round-trip, a torn tail is cut at
  the last complete batch and nothing else is lost, what is appended is what is replayed, and
  the inbound guards bound what a peer can make the log hold.
\<close>

record bridge =
  br_encode :: "wire_op list \<Rightarrow> bytes option"
  br_decode :: "bytes \<Rightarrow> wire_op list option"
  br_decodeSegment :: "bytes \<Rightarrow> wire_op list option"

subsection \<open>Varints and frames\<close>

definition VARINT_U32_MAX :: int where
  "VARINT_U32_MAX = 4294967295"

datatype varint_error = VarintNegative int | VarintTooBig

text \<open>\<open>v >>>= 7\<close> is on 32 bits.\<close>

function encode_varint_loop :: "int \<Rightarrow> bytes" where
  "encode_varint_loop v =
     (if v \<ge> 128 then word_of_int (v mod 128 + 128) # encode_varint_loop (v mod 2 ^ 32 div 128)
      else [word_of_int (v mod 128)])"
  by pat_completeness auto
termination
proof (relation "measure nat")
  fix v :: int assume "v \<ge> 128"
  then have "v mod 2 ^ 32 div 128 \<le> v div 128" by (intro zdiv_mono1 zmod_le_nonneg_dividend) auto
  also have "\<dots> < v" using \<open>v \<ge> 128\<close> by (simp add: int_div_less_self)
  finally show "(v mod 2 ^ 32 div 128, v) \<in> measure nat" using \<open>v \<ge> 128\<close> by simp
qed simp

declare encode_varint_loop.simps [simp del]

definition encodeVarint :: "int \<Rightarrow> varint_error + bytes" where
  "encodeVarint value = (if value < 0 then Inl (VarintNegative value) else Inr (encode_varint_loop value))"

text \<open>The loop of \<open>readVarint\<close> over the bytes from \<open>offset\<close>; \<open>Inr None\<close> is a torn varint.\<close>

fun read_varint_loop :: "bytes \<Rightarrow> int \<Rightarrow> int \<Rightarrow> nat \<Rightarrow> nat \<Rightarrow> varint_error + (int \<times> nat) option" where
  "read_varint_loop [] result mul shift i = Inr None"
| "read_varint_loop (b # bs) result mul shift i =
     (let result' = result + uint b mod 128 * mul; i' = Suc i
      in if uint b < 128
         then (if result' > VARINT_U32_MAX then Inl VarintTooBig else Inr (Some (result', i')))
         else if shift + 7 \<ge> 35 then Inl VarintTooBig
         else read_varint_loop bs result' (mul * 128) (shift + 7) i')"

definition readVarint :: "bytes \<Rightarrow> nat \<Rightarrow> varint_error + (int \<times> nat) option" where
  "readVarint bytes offset = read_varint_loop (drop offset bytes) 0 1 0 offset"

lemma read_varint_loop_next:
  "read_varint_loop bs r m s i = Inr (Some (v, j)) \<Longrightarrow> i < j \<and> j \<le> i + length bs"
proof (induction bs r m s i rule: read_varint_loop.induct)
  case (2 b bs r m s i)
  then show ?case by (fastforce simp: Let_def split: if_splits)
qed simp

lemma readVarint_next: "readVarint bs off = Inr (Some (v, j)) \<Longrightarrow> off < j \<and> (off < length bs \<longrightarrow> j \<le> length bs)"
  using read_varint_loop_next [of "drop off bs" 0 1 0 off v j] by (auto simp: readVarint_def)

function split_from :: "bytes \<Rightarrow> nat \<Rightarrow> varint_error + bytes list" where
  "split_from bytes offset =
     (if offset < length bytes
      then (case readVarint bytes offset of
              Inl e \<Rightarrow> Inl e
            | Inr None \<Rightarrow> Inr []
            | Inr (Some (batchLen, after)) \<Rightarrow>
                if after + nat batchLen > length bytes then Inr []
                else sbind (split_from bytes (after + nat batchLen)) (\<lambda>out.
                       Inr (take (nat batchLen) (drop after bytes) # out)))
      else Inr [])"
  by pat_completeness auto
termination
  by (relation "measure (\<lambda>(bytes, offset). length bytes - offset)") (auto dest!: readVarint_next)

declare split_from.simps [simp del]

definition splitSegmentBatches :: "bytes \<Rightarrow> varint_error + bytes list" where
  "splitSegmentBatches bytes = split_from bytes 0"

text \<open>
  \<open>writeFully\<close>: \<open>ns\<close> are the results of the successive calls of \<open>writeSync\<close>; the result is
  how much was written and whether the loop threw.
\<close>

fun write_fully :: "nat \<Rightarrow> int list \<Rightarrow> nat \<Rightarrow> nat \<times> bool" where
  "write_fully written ns len =
     (if written < len
      then (case ns of [] \<Rightarrow> (written, True)
            | n # ns' \<Rightarrow> if n \<le> 0 then (written, True) else write_fully (written + nat n) ns' len)
      else (written, False))"

declare write_fully.simps [simp del]

subsection \<open>The log\<close>

record segment_handle =
  sh_date :: string
  pendingWrites :: nat
  lastFlushMs :: int

datatype stderr_line =
    LimitExceeded retention_line
  | LocalDayOutOfWindow crdt_type string
  | TruncatedTornWrite crdt_type string nat

record oplog =
  disk :: "crdt_type \<Rightarrow> (string \<times> bytes) list"
  segments :: "crdt_type \<Rightarrow> segment_handle option"
  flushEveryWrites :: nat
  flushEveryMs :: int
  ol_limits :: crdt_limits
  retentionCheckIntervalMs :: int
  lastRetentionCheckMs :: int
  warnedLocalDays :: "(crdt_type \<times> string) list"
  stderr :: "stderr_line list"

definition oplog_new ::
    "(crdt_type \<Rightarrow> (string \<times> bytes) list) \<Rightarrow> nat option \<Rightarrow> int option \<Rightarrow> crdt_limits option \<Rightarrow> int option \<Rightarrow> int \<Rightarrow> oplog" where
  "oplog_new files writes ms limits interval now =
     \<lparr>disk = files, segments = (\<lambda>_. None),
      flushEveryWrites = (case writes of Some n \<Rightarrow> n | None \<Rightarrow> 32),
      flushEveryMs = (case ms of Some n \<Rightarrow> n | None \<Rightarrow> 250),
      ol_limits = (case limits of Some l \<Rightarrow> l | None \<Rightarrow> CRDT_LIMITS),
      retentionCheckIntervalMs = (case interval of Some n \<Rightarrow> n | None \<Rightarrow> RETENTION_RECHECK_INTERVAL_MS),
      lastRetentionCheckMs = now, warnedLocalDays = [], stderr = []\<rparr>"

definition seg_file :: "oplog \<Rightarrow> crdt_type \<Rightarrow> string \<Rightarrow> bytes option" where
  "seg_file log type day = map_of (disk log type) day"

definition file_or_empty :: "oplog \<Rightarrow> crdt_type \<Rightarrow> string \<Rightarrow> bytes" where
  "file_or_empty log type day = (case seg_file log type day of Some b \<Rightarrow> b | None \<Rightarrow> [])"

definition write_file :: "crdt_type \<Rightarrow> string \<Rightarrow> bytes \<Rightarrow> oplog \<Rightarrow> oplog" where
  "write_file type day b log = log\<lparr>disk := (disk log)(type := AList.update day b (disk log type))\<rparr>"

definition append_file :: "crdt_type \<Rightarrow> string \<Rightarrow> bytes \<Rightarrow> oplog \<Rightarrow> oplog" where
  "append_file type day b log = write_file type day (file_or_empty log type day @ b) log"

definition day_cmp :: "string \<times> 'a \<Rightarrow> string \<times> 'a \<Rightarrow> int" where
  "day_cmp a b = cmp_lin (fst a) (fst b)"

definition segmentSizes :: "oplog \<Rightarrow> crdt_type \<Rightarrow> segment_size list" where
  "segmentSizes log type = js_sort day_cmp (map (\<lambda>(day, b). (day, int (length b))) (disk log type))"

definition diskUsage :: "oplog \<Rightarrow> int" where
  "diskUsage log = sum_list (concat (map (\<lambda>t. map snd (segmentSizes log t)) TYPES))"

definition listSegmentDays :: "oplog \<Rightarrow> crdt_type \<Rightarrow> string list" where
  "listSegmentDays log type = sort (map fst (disk log type))"

definition maybeCheckRetention :: "int \<Rightarrow> oplog \<Rightarrow> oplog" where
  "maybeCheckRetention now log =
     (if retentionCheckIntervalMs log \<le> 0 then log
      else if now - lastRetentionCheckMs log < retentionCheckIntervalMs log then log
      else let log' = log\<lparr>lastRetentionCheckMs := now\<rparr>
           in log'\<lparr>stderr := stderr log' @
                map LimitExceeded (fst (warnRetention (inspectRetention (segmentSizes log') (ol_limits log'))))\<rparr>)"

definition ensureOpenSegment :: "int \<Rightarrow> crdt_type \<Rightarrow> string \<Rightarrow> oplog \<Rightarrow> segment_handle \<times> oplog" where
  "ensureOpenSegment now type date log =
     (let fresh = \<lparr>sh_date = date, pendingWrites = 0, lastFlushMs = now\<rparr>;
          opened = append_file type date [] (log\<lparr>segments := (segments log)(type \<mapsto> fresh)\<rparr>)
      in case segments log type of
           Some existing \<Rightarrow> if sh_date existing = date then (existing, log) else (fresh, opened)
         | None \<Rightarrow> (fresh, opened))"

definition frame :: "bytes \<Rightarrow> bytes" where
  "frame batch = encode_varint_loop (int (length batch)) @ batch"

definition appendBatchBytes ::
    "int \<Rightarrow> crdt_type \<Rightarrow> string \<Rightarrow> bytes \<Rightarrow> bool \<Rightarrow> oplog \<Rightarrow> varint_error + (nat \<times> oplog)" where
  "appendBatchBytes now type date batch cached log =
     sbind (encodeVarint (int (length batch))) (\<lambda>header.
       let buf = header @ batch
       in if \<not> cached
          then Inr (length buf, maybeCheckRetention now (append_file type date buf log))
          else let (seg, log1) = ensureOpenSegment now type date log;
                   log2 = append_file type date buf log1;
                   seg1 = seg\<lparr>pendingWrites := pendingWrites seg + 1\<rparr>;
                   seg2 = (if pendingWrites seg1 \<ge> flushEveryWrites log2 \<or> now - lastFlushMs seg1 \<ge> flushEveryMs log2
                           then seg1\<lparr>pendingWrites := 0, lastFlushMs := now\<rparr> else seg1)
               in Inr (length buf, maybeCheckRetention now (log2\<lparr>segments := (segments log2)(type \<mapsto> seg2)\<rparr>)))"

subsection \<open>Inbound and local appends\<close>

datatype reject_kind = RejectDay | RejectSize

datatype append_error = SegmentRejected reject_kind | Varint varint_error | Encode

definition MAX_FUTURE_SEGMENT_DAYS :: int where
  "MAX_FUTURE_SEGMENT_DAYS = 7"

definition MIN_SEGMENT_DAY :: string where
  "MIN_SEGMENT_DAY = ''1970-01-01''"

definition assertAcceptableSegmentDay :: "string \<Rightarrow> int \<Rightarrow> append_error + unit" where
  "assertAcceptableSegmentDay day nowMs =
     (if day < MIN_SEGMENT_DAY then Inl (SegmentRejected RejectDay)
      else if day > utcDate (nowMs + MAX_FUTURE_SEGMENT_DAYS * 86400000)
      then Inl (SegmentRejected RejectDay) else Inr ())"

definition warnIfLocalDayOutOfWindow :: "int \<Rightarrow> crdt_type \<Rightarrow> string \<Rightarrow> oplog \<Rightarrow> oplog" where
  "warnIfLocalDayOutOfWindow now type date log =
     (if (type, date) \<in> set (warnedLocalDays log) then log
      else case assertAcceptableSegmentDay date now of
             Inr _ \<Rightarrow> log
           | Inl _ \<Rightarrow> log\<lparr>warnedLocalDays := set_add (type, date) (warnedLocalDays log),
                          stderr := stderr log @ [LocalDayOutOfWindow type date]\<rparr>)"

definition lift_varint :: "varint_error + 'a \<Rightarrow> append_error + 'a" where
  "lift_varint x = (case x of Inl e \<Rightarrow> Inl (Varint e) | Inr a \<Rightarrow> Inr a)"

fun appendOps :: "bridge \<Rightarrow> int \<Rightarrow> crdt_type \<Rightarrow> wire_op list \<Rightarrow> oplog \<Rightarrow> (append_error + nat) \<times> oplog" where
  "appendOps br now type [] log = (Inr 0, log)"
| "appendOps br now type (op # ops) log =
     (let date = utcDate (wall_ms (w_hlc op));
          log1 = warnIfLocalDayOutOfWindow now type date log
      in case br_encode br (op # ops) of
           None \<Rightarrow> (Inl Encode, log1)
         | Some batch \<Rightarrow>
             case appendBatchBytes now type date batch True log1 of
               Inl e \<Rightarrow> (Inl (Varint e), log1)
             | Inr (n, log2) \<Rightarrow> (Inr n, log2))"

definition appendRawBatchToDate ::
    "int \<Rightarrow> crdt_type \<Rightarrow> string \<Rightarrow> bytes \<Rightarrow> oplog \<Rightarrow> append_error + (nat \<times> oplog)" where
  "appendRawBatchToDate now type date batch log =
     (if int (length batch) > maxPushBatchBytes CRDT_LIMITS then Inl (SegmentRejected RejectSize)
      else sbind (assertAcceptableSegmentDay date now) (\<lambda>_.
        let existingBytes = length (file_or_empty log type date)
        in if int (existingBytes + length batch) > maxSegmentBytes CRDT_LIMITS
           then Inl (SegmentRejected RejectSize)
           else lift_varint (appendBatchBytes now type date batch False log)))"

definition flushAll :: "int \<Rightarrow> oplog \<Rightarrow> oplog" where
  "flushAll now log = log\<lparr>segments := (\<lambda>t. map_option (\<lambda>seg.
     if pendingWrites seg > 0 then seg\<lparr>pendingWrites := 0, lastFlushMs := now\<rparr> else seg) (segments log t))\<rparr>"

definition oplog_close :: "oplog \<Rightarrow> oplog" where
  "oplog_close log = log\<lparr>segments := (\<lambda>_. None)\<rparr>"

subsection \<open>Reading\<close>

text \<open>
  The inner loop of \<open>hydrate\<close> on one file: the operations it yields, and either the exception
  of \<open>readVarint\<close>, which leaves the generator, or the end of the last good batch.
\<close>

function hydrate_from :: "bridge \<Rightarrow> bytes \<Rightarrow> nat \<Rightarrow> wire_op list \<times> (varint_error + nat)" where
  "hydrate_from br bytes offset =
     (if offset < length bytes
      then (case readVarint bytes offset of
              Inl e \<Rightarrow> ([], Inl e)
            | Inr None \<Rightarrow> ([], Inr offset)
            | Inr (Some (batchLen, after)) \<Rightarrow>
                if after + nat batchLen > length bytes then ([], Inr offset)
                else case br_decode br (take (nat batchLen) (drop after bytes)) of
                       None \<Rightarrow> ([], Inr offset)
                     | Some decoded \<Rightarrow>
                         let (ops, r) = hydrate_from br bytes (after + nat batchLen)
                         in (decoded @ ops, r))
      else ([], Inr offset))"
  by pat_completeness auto
termination
  by (relation "measure (\<lambda>(br, bytes, offset). length bytes - offset)") (auto dest!: readVarint_next)

declare hydrate_from.simps [simp del]

fun hydrate_files ::
    "bridge \<Rightarrow> crdt_type \<Rightarrow> (string \<times> bytes) list \<Rightarrow> oplog \<Rightarrow> wire_op list \<times> varint_error option \<times> oplog" where
  "hydrate_files br type [] log = ([], None, log)"
| "hydrate_files br type ((day, bytes) # fs) log =
     (case hydrate_from br bytes 0 of
        (ops, Inl e) \<Rightarrow> (ops, Some e, log)
      | (ops, Inr lastGoodEnd) \<Rightarrow>
          let log1 = (if lastGoodEnd \<noteq> length bytes
                      then (write_file type day (take lastGoodEnd bytes) log)
                             \<lparr>stderr := stderr log @ [TruncatedTornWrite type day (length bytes - lastGoodEnd)]\<rparr>
                      else log);
              (ops', r, log2) = hydrate_files br type fs log1
          in (ops @ ops', r, log2))"

text \<open>Files are replayed in the order of their full names, suffix included.\<close>

definition name_cmp :: "string \<times> bytes \<Rightarrow> string \<times> bytes \<Rightarrow> int" where
  "name_cmp a b = cmp_lin (fst a @ ''.log'') (fst b @ ''.log'')"

definition oplog_hydrate :: "bridge \<Rightarrow> crdt_type \<Rightarrow> oplog \<Rightarrow> wire_op list \<times> varint_error option \<times> oplog" where
  "oplog_hydrate br type log = hydrate_files br type (js_sort name_cmp (disk log type)) log"

definition compositeKeyHex :: "wire_op \<Rightarrow> hlc_error + string" where
  "compositeKeyHex op =
     sbind (encodeHlc (wireHlc (w_hlc op))) (\<lambda>h. Inr (bytesToHex (h @ w_writer op)))"

definition segmentCompositeKeys :: "bridge \<Rightarrow> oplog \<Rightarrow> crdt_type \<Rightarrow> string \<Rightarrow> hlc_error + string list" where
  "segmentCompositeKeys br log type day =
     (case seg_file log type day of
        None \<Rightarrow> Inr []
      | Some bytes \<Rightarrow>
          case br_decodeSegment br bytes of
            None \<Rightarrow> Inr []
          | Some decoded \<Rightarrow> sbind (smap compositeKeyHex decoded) (\<lambda>keys. Inr (sort (fold set_add keys []))))"

definition decodeBatch :: "bridge \<Rightarrow> bytes \<Rightarrow> wire_op list option" where
  "decodeBatch br bytes = br_decode br bytes"

definition readSegmentBytes :: "oplog \<Rightarrow> crdt_type \<Rightarrow> string \<Rightarrow> bytes option" where
  "readSegmentBytes log type day = seg_file log type day"

definition readSegmentRange :: "oplog \<Rightarrow> crdt_type \<Rightarrow> string \<Rightarrow> nat \<Rightarrow> int \<Rightarrow> (bytes \<times> nat) option" where
  "readSegmentRange log type day offset maxBytes =
     (case seg_file log type day of
        None \<Rightarrow> None
      | Some bytes \<Rightarrow>
          let size = length bytes
          in if offset \<ge> size \<or> maxBytes \<le> 0 then Some ([], size)
             else Some (take (min (nat maxBytes) (size - offset)) (drop offset bytes), size))"

text \<open>The modification time is the file system's; it is an argument.\<close>

record segment_stat =
  st_mtimeMs :: int
  st_size :: nat
  st_tailHex :: string

definition segmentStat :: "(crdt_type \<Rightarrow> string \<Rightarrow> int) \<Rightarrow> oplog \<Rightarrow> crdt_type \<Rightarrow> string \<Rightarrow> segment_stat option" where
  "segmentStat mtime log type day =
     (case seg_file log type day of
        None \<Rightarrow> None
      | Some bytes \<Rightarrow>
          let tailLen = min 16 (length bytes)
          in Some \<lparr>st_mtimeMs = mtime type day, st_size = length bytes,
                   st_tailHex = bytesToHex (drop (length bytes - tailLen) bytes)\<rparr>)"

subsection \<open>Varints and frames round-trip\<close>

lemma encode_varint_small: "0 \<le> v \<Longrightarrow> v < 128 \<Longrightarrow> encode_varint_loop v = [word_of_int v]"
  by (subst encode_varint_loop.simps) simp

lemma encode_varint_big:
  "128 \<le> v \<Longrightarrow> v \<le> VARINT_U32_MAX \<Longrightarrow>
   encode_varint_loop v = word_of_int (v mod 128 + 128) # encode_varint_loop (v div 128)"
  by (subst encode_varint_loop.simps) (simp add: VARINT_U32_MAX_def)

lemma varint_cont_byte:
  "uint (word_of_int (v mod 128) + 128 :: byte) = v mod 128 + 128"
proof -
  have "uint (word_of_int (v mod 128 + 128) :: byte) = (v mod 128 + 128) mod 256" by (rule uint_byte)
  also have "\<dots> = v mod 128 + 128" by (rule mod_pos_pos_trivial) (auto simp: add_nonneg_nonneg)
  finally show ?thesis by simp
qed

lemma mod_not_neg: "\<not> v mod 128 < (0 :: int)"
  by (simp add: not_less)

lemma div_128_le: "0 \<le> v \<Longrightarrow> v div 128 \<le> (v :: int)"
  using zdiv_mono2 [of v 1 128] by simp

lemma length_frame: "length (frame b) = length (encode_varint_loop (int (length b))) + length b"
  by (simp add: frame_def)

lemma encode_varint_not_Nil [simp]: "encode_varint_loop v \<noteq> []"
  by (subst encode_varint_loop.simps) simp

lemma read_varint_encoded:
  assumes "0 \<le> v" "v < 128 ^ Suc k" "s + 7 * Suc k \<le> 35" "v \<le> VARINT_U32_MAX"
    and "r + v * m \<le> VARINT_U32_MAX"
  shows "read_varint_loop (encode_varint_loop v @ rest) r m s i =
    Inr (Some (r + v * m, i + length (encode_varint_loop v)))"
  using assms
proof (induction k arbitrary: v s r m i)
  case 0
  then show ?case by (simp add: encode_varint_small uint_byte)
next
  case (Suc k)
  show ?case
  proof (cases "v < 128")
    case True
    with Suc.prems show ?thesis by (simp add: encode_varint_small uint_byte)
  next
    case False
    have split: "v mod 128 * m + v div 128 * (m * 128) = v * m"
      by (metis (no_types, opaque_lifting) add.commute distrib_right div_mult_mod_eq mult.assoc mult.commute)
    have "v div 128 \<le> v" using Suc.prems(1) by (rule div_128_le)
    moreover have "v div 128 < 128 ^ Suc k" using Suc.prems(2) by simp
    ultimately have "read_varint_loop (encode_varint_loop (v div 128) @ rest) (r + v mod 128 * m) (m * 128) (s + 7) (Suc i) =
      Inr (Some (r + v mod 128 * m + v div 128 * (m * 128), Suc i + length (encode_varint_loop (v div 128))))"
      using Suc.prems split False by (intro Suc.IH) (auto simp: add.assoc)
    with False Suc.prems split show ?thesis
      by (simp add: encode_varint_big varint_cont_byte add.assoc Let_def mod_not_neg)
  qed
qed

lemma read_varint_torn:
  assumes "0 \<le> v" "v < 128 ^ Suc k" "s + 7 * Suc k \<le> 35" "v \<le> VARINT_U32_MAX"
    and "n < length (encode_varint_loop v)"
  shows "read_varint_loop (take n (encode_varint_loop v)) r m s i = Inr None"
  using assms
proof (induction k arbitrary: v s r m i n)
  case 0
  then show ?case by (simp add: encode_varint_small)
next
  case (Suc k)
  show ?case
  proof (cases "v < 128")
    case True
    with Suc.prems show ?thesis by (simp add: encode_varint_small)
  next
    case False
    show ?thesis
    proof (cases n)
      case 0
      then show ?thesis by simp
    next
      case (Suc n')
      have "v div 128 \<le> v" using Suc.prems(1) by (rule div_128_le)
      moreover have "v div 128 < 128 ^ Suc k" using Suc.prems(2) by simp
      ultimately have "read_varint_loop (take n' (encode_varint_loop (v div 128))) (r + v mod 128 * m) (m * 128) (s + 7) (Suc i) = Inr None"
        using Suc.prems False Suc by (intro Suc.IH) (auto simp: encode_varint_big)
      with False Suc.prems Suc show ?thesis
        by (simp add: encode_varint_big varint_cont_byte Let_def mod_not_neg)
    qed
  qed
qed

definition frame_ok :: "bytes \<Rightarrow> bool" where
  "frame_ok b \<longleftrightarrow> int (length b) \<le> VARINT_U32_MAX"

lemma u32_bound: "v \<le> VARINT_U32_MAX \<Longrightarrow> v < 128 ^ Suc 4"
  by (simp add: VARINT_U32_MAX_def)

lemma readVarint_frame:
  assumes "frame_ok b"
  shows "readVarint (pre @ frame b @ rest) (length pre) =
    Inr (Some (int (length b), length pre + length (encode_varint_loop (int (length b)))))"
  using read_varint_encoded [of "int (length b)" 4 0 0 1 "b @ rest" "length pre"] assms u32_bound [of "int (length b)"]
  by (simp add: readVarint_def frame_def frame_ok_def)

text \<open>What a crash can leave at the end of a file: a proper prefix of a frame.\<close>

definition torn :: "bytes \<Rightarrow> bool" where
  "torn t \<longleftrightarrow> (\<exists>b n. frame_ok b \<and> n < length (frame b) \<and> t = take n (frame b))"

lemma torn_Nil [simp]: "torn []"
  by (auto simp: torn_def frame_ok_def frame_def VARINT_U32_MAX_def intro!: exI [of _ "[]"] exI [of _ 0])

lemma readVarint_torn:
  assumes "torn t" "t \<noteq> []"
  shows "readVarint (pre @ t) (length pre) = Inr None \<or>
    (\<exists>l after. readVarint (pre @ t) (length pre) = Inr (Some (l, after)) \<and> length (pre @ t) < after + nat l)"
proof -
  obtain b n where b: "frame_ok b" "n < length (frame b)" "t = take n (frame b)"
    using assms(1) unfolding torn_def by blast
  let ?h = "encode_varint_loop (int (length b))"
  note bd = u32_bound [of "int (length b)"] b(1) [unfolded frame_ok_def]
  show ?thesis
  proof (cases "n < length ?h")
    case True
    then have "t = take n ?h" using b by (simp add: frame_def)
    then show ?thesis
      using read_varint_torn [of "int (length b)" 4 0 n 0 1 "length pre"] True bd
      by (simp add: readVarint_def)
  next
    case False
    then have t: "t = ?h @ take (n - length ?h) b" using b by (simp add: frame_def)
    then have "readVarint (pre @ t) (length pre) = Inr (Some (int (length b), length pre + length ?h))"
      using read_varint_encoded [of "int (length b)" 4 0 0 1 "take (n - length ?h) b" "length pre"] bd
      by (simp add: readVarint_def)
    moreover have "length (pre @ t) < length pre + length ?h + length b"
      using b(2) False t by (simp add: frame_def)
    ultimately show ?thesis by simp
  qed
qed

lemma take_frame_batch:
  "take (length b) (drop (length pre + length (encode_varint_loop (int (length b)))) (pre @ frame b @ rest)) = b"
  by (simp add: frame_def)

lemma frame_end:
  "length pre + length (encode_varint_loop (int (length b))) + length b = length (pre @ frame b)"
  by (simp add: frame_def)

lemma split_from_frames:
  assumes "\<forall>b \<in> set bs. frame_ok b" "torn t"
  shows "split_from (pre @ concat (map frame bs) @ t) (length pre) = Inr bs"
  using assms
proof (induction bs arbitrary: pre)
  case Nil
  show ?case
  proof (cases "t = []")
    case True
    then show ?thesis by (subst split_from.simps) simp
  next
    case False
    with readVarint_torn [OF Nil.prems(2) False, of pre] show ?thesis
      by (subst split_from.simps) auto
  qed
next
  case (Cons b bs)
  let ?rest = "concat (map frame bs) @ t"
  have "split_from ((pre @ frame b) @ ?rest) (length (pre @ frame b)) = Inr bs"
    using Cons by (intro Cons.IH) auto
  moreover have "length pre < length (pre @ frame b @ ?rest)" by (simp add: frame_def)
  ultimately show ?case
    using readVarint_frame [of b pre ?rest] Cons.prems take_frame_batch [of b pre ?rest] frame_end [of pre b]
    by (subst split_from.simps) (simp add: length_frame add.assoc)
qed

lemma hydrate_from_frames:
  assumes "\<forall>b \<in> set bs. frame_ok b \<and> br_decode br b \<noteq> None" "torn t"
  shows "hydrate_from br (pre @ concat (map frame bs) @ t) (length pre) =
    (concat (map (\<lambda>b. the (br_decode br b)) bs), Inr (length (pre @ concat (map frame bs))))"
  using assms
proof (induction bs arbitrary: pre)
  case Nil
  show ?case
  proof (cases "t = []")
    case True
    then show ?thesis by (subst hydrate_from.simps) simp
  next
    case False
    with readVarint_torn [OF Nil.prems(2) False, of pre] show ?thesis
      by (subst hydrate_from.simps) auto
  qed
next
  case (Cons b bs)
  let ?rest = "concat (map frame bs) @ t"
  obtain ops where ops: "br_decode br b = Some ops" using Cons.prems(1) by auto
  have "hydrate_from br ((pre @ frame b) @ ?rest) (length (pre @ frame b)) =
      (concat (map (\<lambda>b. the (br_decode br b)) bs), Inr (length ((pre @ frame b) @ concat (map frame bs))))"
    using Cons by (intro Cons.IH) auto
  moreover have "length pre < length (pre @ frame b @ ?rest)" by (simp add: frame_def)
  ultimately show ?case
    using readVarint_frame [of b pre ?rest] Cons.prems take_frame_batch [of b pre ?rest] frame_end [of pre b] ops
    by (subst hydrate_from.simps) (simp add: length_frame add.assoc)
qed

subsection \<open>Replaying the log\<close>

text \<open>A file as appends leave it, and as a crash may leave it.\<close>

definition batches_ok :: "bridge \<Rightarrow> bytes list \<Rightarrow> bool" where
  "batches_ok br bs \<longleftrightarrow> (\<forall>b \<in> set bs. frame_ok b \<and> br_decode br b \<noteq> None)"

definition seg_ok :: "bridge \<Rightarrow> bytes \<Rightarrow> bool" where
  "seg_ok br bytes \<longleftrightarrow> (\<exists>bs. batches_ok br bs \<and> bytes = concat (map frame bs))"

definition seg_crashed :: "bridge \<Rightarrow> bytes \<Rightarrow> bool" where
  "seg_crashed br bytes \<longleftrightarrow> (\<exists>bs t. batches_ok br bs \<and> torn t \<and> bytes = concat (map frame bs) @ t)"

definition seg_ops :: "bridge \<Rightarrow> bytes \<Rightarrow> wire_op list" where
  "seg_ops br bytes = fst (hydrate_from br bytes 0)"

definition good_part :: "bridge \<Rightarrow> bytes \<Rightarrow> bytes" where
  "good_part br bytes = (case snd (hydrate_from br bytes 0) of Inr n \<Rightarrow> take n bytes | Inl _ \<Rightarrow> bytes)"

definition log_ok :: "bridge \<Rightarrow> crdt_type \<Rightarrow> oplog \<Rightarrow> bool" where
  "log_ok br type log \<longleftrightarrow> distinct (map fst (disk log type)) \<and> (\<forall>(day, b) \<in> set (disk log type). seg_ok br b)"

definition log_crashed :: "bridge \<Rightarrow> crdt_type \<Rightarrow> oplog \<Rightarrow> bool" where
  "log_crashed br type log \<longleftrightarrow>
     distinct (map fst (disk log type)) \<and> (\<forall>(day, b) \<in> set (disk log type). seg_crashed br b)"

definition replay :: "bridge \<Rightarrow> crdt_type \<Rightarrow> oplog \<Rightarrow> wire_op list" where
  "replay br type log = fst (oplog_hydrate br type log)"

lemma hydrate_frames:
  "batches_ok br bs \<Longrightarrow> torn t \<Longrightarrow> hydrate_from br (concat (map frame bs) @ t) 0 =
     (concat (map (\<lambda>b. the (br_decode br b)) bs), Inr (length (concat (map frame bs))))"
  using hydrate_from_frames [of bs br t "[]"] by (simp add: batches_ok_def)

lemma seg_crashed_hydrate:
  assumes "seg_crashed br b"
  shows "\<exists>n. hydrate_from br b 0 = (seg_ops br b, Inr n) \<and> n \<le> length b \<and> good_part br b = take n b"
    "seg_ok br (good_part br b)" "seg_ops br (good_part br b) = seg_ops br b"
    "\<exists>t. torn t \<and> b = good_part br b @ t"
proof -
  obtain bs t where b: "batches_ok br bs" "torn t" "b = concat (map frame bs) @ t"
    using assms unfolding seg_crashed_def by blast
  note h = hydrate_frames [OF b(1,2)] and h0 = hydrate_frames [OF b(1) torn_Nil, unfolded append_Nil2]
  have g: "good_part br b = concat (map frame bs)" using h b(3) by (simp add: good_part_def)
  show "\<exists>n. hydrate_from br b 0 = (seg_ops br b, Inr n) \<and> n \<le> length b \<and> good_part br b = take n b"
    unfolding g seg_ops_def unfolding b(3) h by simp
  show "seg_ok br (good_part br b)" using b(1) g unfolding seg_ok_def by blast
  show "seg_ops br (good_part br b) = seg_ops br b" unfolding g seg_ops_def unfolding b(3) h h0 by simp
  show "\<exists>t. torn t \<and> b = good_part br b @ t" unfolding g by (intro exI [of _ t] conjI, rule b(2), rule b(3))
qed

lemma seg_ok_crashed: "seg_ok br b \<Longrightarrow> seg_crashed br b \<and> good_part br b = b"
proof
  assume "seg_ok br b"
  then obtain bs where b: "batches_ok br bs" "b = concat (map frame bs)" unfolding seg_ok_def by blast
  show "seg_crashed br b" unfolding seg_crashed_def using b by (intro exI [of _ bs] exI [of _ "[]"]) simp
  show "good_part br b = b" using hydrate_frames [OF b(1) torn_Nil] b(2) by (simp add: good_part_def)
qed

lemma seg_ok_append:
  assumes "seg_ok br bytes" "frame_ok b" "br_decode br b = Some ops"
  shows "seg_ok br (bytes @ frame b) \<and> seg_ops br (bytes @ frame b) = seg_ops br bytes @ ops"
proof -
  obtain bs where bs: "batches_ok br bs" "bytes = concat (map frame bs)" using assms(1) unfolding seg_ok_def by blast
  have ok: "batches_ok br (bs @ [b])" using bs(1) assms(2,3) by (auto simp: batches_ok_def)
  have e: "bytes @ frame b = concat (map frame (bs @ [b]))" using bs(2) by simp
  show ?thesis
    using hydrate_frames [OF ok torn_Nil] hydrate_frames [OF bs(1) torn_Nil] e bs(2) assms(3) ok
    unfolding seg_ok_def seg_ops_def by (auto intro!: exI [of _ "bs @ [b]"])
qed

lemma seg_ok_Nil: "seg_ok br [] \<and> seg_ops br [] = []"
  by (auto simp: seg_ok_def batches_ok_def seg_ops_def hydrate_from.simps intro!: exI [of _ "[]"])

text \<open>The directory after a replay: every file cut to its good part, with one warning each.\<close>

definition recover_dir :: "bridge \<Rightarrow> (string \<times> bytes) list \<Rightarrow> (string \<times> bytes) list" where
  "recover_dir br fs = map (\<lambda>(day, b). (day, good_part br b)) fs"

lemma update_map_prefix:
  "distinct (map fst xs) \<Longrightarrow> (k, v) \<in> set xs \<Longrightarrow>
   AList.update k w xs = map (\<lambda>(k', v'). if k' = k then (k, w) else (k', v')) xs"
proof (induction xs)
  case Nil
  then show ?case by simp
next
  case (Cons p xs)
  obtain k' v' where p: "p = (k', v')" by (cases p)
  show ?case
  proof (cases "k' = k")
    case True
    with Cons.prems p have "k \<notin> fst ` set xs" by simp
    then have "map (\<lambda>(k', v'). if k' = k then (k, w) else (k', v')) xs = xs"
      by (intro map_idI) (force split: prod.splits)
    with True p show ?thesis by simp
  next
    case False
    with Cons p show ?thesis by auto
  qed
qed

definition recover_file :: "bridge \<Rightarrow> crdt_type \<Rightarrow> string \<times> bytes \<Rightarrow> oplog \<Rightarrow> oplog" where
  "recover_file br type f log =
     (case f of (day, b) \<Rightarrow>
        if good_part br b \<noteq> b
        then (write_file type day (good_part br b) log)
               \<lparr>stderr := stderr log @ [TruncatedTornWrite type day (length b - length (good_part br b))]\<rparr>
        else log)"

lemma hydrate_files_crashed:
  assumes "\<forall>(day, b) \<in> set fs. seg_crashed br b"
  shows "hydrate_files br type fs log =
    (concat (map (\<lambda>(day, b). seg_ops br b) fs), None, fold (recover_file br type) fs log)"
  using assms
proof (induction fs arbitrary: log)
  case Nil
  then show ?case by simp
next
  case (Cons f fs)
  obtain day b where f: "f = (day, b)" by (cases f)
  with Cons.prems have c: "seg_crashed br b" by simp
  obtain n where n: "hydrate_from br b 0 = (seg_ops br b, Inr n)" "n \<le> length b" "good_part br b = take n b"
    using seg_crashed_hydrate(1) [OF c] by blast
  then have "n \<noteq> length b \<longleftrightarrow> good_part br b \<noteq> b" "length (good_part br b) = n"
    by (auto dest: arg_cong [of _ _ length])
  with Cons f n show ?case by (simp add: recover_file_def Let_def)
qed

lemma recover_file_disk:
  assumes "distinct (map fst (disk log type))" "(day, b) \<in> set (disk log type)"
  shows "disk (recover_file br type (day, b) log) =
    (disk log)(type := map (\<lambda>(k, v). if k = day then (day, good_part br b) else (k, v)) (disk log type))"
proof (cases "good_part br b = b")
  case True
  have "map (\<lambda>(k, v). if k = day then (day, b) else (k, v)) (disk log type) = disk log type"
  proof (intro map_idI, clarsimp)
    fix v assume "(day, v) \<in> set (disk log type)"
    with assms show "b = v" by (metis map_of_is_SomeI option.inject)
  qed
  then have "(disk log)(type := map (\<lambda>(k, v). if k = day then (day, good_part br b) else (k, v)) (disk log type)) = disk log"
    unfolding True by (simp only: fun_upd_triv)
  with True show ?thesis by (simp only: recover_file_def prod.case) simp
next
  case False
  then show ?thesis by (simp add: recover_file_def write_file_def update_map_prefix [OF assms])
qed

lemma recover_files_disk:
  assumes "distinct (map fst fs)" "distinct (map fst (disk log type))" "set fs \<subseteq> set (disk log type)"
  shows "disk (fold (recover_file br type) fs log) =
    (disk log)(type := map (\<lambda>(k, v). if k \<in> fst ` set fs then (k, good_part br v) else (k, v)) (disk log type))"
  using assms
proof (induction fs arbitrary: log)
  case Nil
  then show ?case by (simp add: case_prod_beta')
next
  case (Cons f fs)
  obtain day b where f: "f = (day, b)" by (cases f)
  let ?log = "recover_file br type (day, b) log"
  have fin: "(day, b) \<in> set (disk log type)" using Cons.prems(3) f by simp
  note d = recover_file_disk [OF Cons.prems(2) fin]
  have keys: "map fst (disk ?log type) = map fst (disk log type)"
    unfolding d fun_upd_same map_map by (intro map_cong [OF refl]) (simp add: case_prod_beta')
  have sub: "set fs \<subseteq> set (disk ?log type)"
  proof
    fix g assume g: "g \<in> set fs"
    then have "fst g \<noteq> day" using Cons.prems(1) f by auto
    then have "(case g of (k, v) \<Rightarrow> if k = day then (day, good_part br b) else (k, v)) = g" by (cases g) simp
    moreover have "g \<in> set (disk log type)" using g Cons.prems(3) by auto
    ultimately show "g \<in> set (disk ?log type)"
      unfolding d fun_upd_same set_map by (metis (no_types, lifting) image_eqI)
  qed
  have uniq: "b = v" if "(day, v) \<in> set (disk log type)" for v
    using that fin Cons.prems(2) by (metis map_of_is_SomeI option.inject)
  have nin: "day \<notin> fst ` set fs" using Cons.prems(1) f by simp
  have "(case (case p of (k, v) \<Rightarrow> if k = day then (day, good_part br b) else (k, v)) of
        (k, v) \<Rightarrow> if k \<in> fst ` set fs then (k, good_part br v) else (k, v)) =
      (case p of (k, v) \<Rightarrow> if k \<in> fst ` set (f # fs) then (k, good_part br v) else (k, v))"
    if p: "p \<in> set (disk log type)" for p
  proof (cases "fst p = day")
    case True
    then have "p = (day, b)" using p uniq [of "snd p"] by (cases p) simp
    then show ?thesis using nin f by simp
  next
    case False
    then show ?thesis using f by (simp add: case_prod_beta')
  qed
  then have "map (\<lambda>(k, v). if k \<in> fst ` set fs then (k, good_part br v) else (k, v)) (disk ?log type) =
      map (\<lambda>(k, v). if k \<in> fst ` set (f # fs) then (k, good_part br v) else (k, v)) (disk log type)"
    unfolding d fun_upd_same map_map by (intro map_cong [OF refl]) (simp only: o_apply)
  moreover have "disk (fold (recover_file br type) fs ?log) = (disk ?log)(type :=
      map (\<lambda>(k, v). if k \<in> fst ` set fs then (k, good_part br v) else (k, v)) (disk ?log type))"
    using keys Cons.prems(1,2) sub by (intro Cons.IH) simp_all
  ultimately show ?case by (simp only: fold_simps f d fun_upd_upd)
qed

lemma day_cmp_name_sort [simp]:
  "mset (js_sort name_cmp fs) = mset fs" "set (js_sort name_cmp fs) = set fs"
  by simp_all

lemma distinct_js_sort_fst [simp]: "distinct (map fst (js_sort cmp fs)) = distinct (map fst fs)"
  by (metis mset_js_sort mset_map mset_eq_imp_distinct_iff)

lemma oplog_hydrate_crashed:
  assumes "log_crashed br type log"
  shows "\<exists>log'. oplog_hydrate br type log =
      (concat (map (\<lambda>(day, b). seg_ops br b) (js_sort name_cmp (disk log type))), None, log')
    \<and> disk log' = (disk log)(type := recover_dir br (disk log type))"
proof -
  let ?fs = "js_sort name_cmp (disk log type)"
  have c: "\<forall>(day, b) \<in> set ?fs. seg_crashed br b" and d: "distinct (map fst (disk log type))"
    using assms by (auto simp: log_crashed_def)
  have "disk (fold (recover_file br type) ?fs log) =
      (disk log)(type := map (\<lambda>(k, v). if k \<in> fst ` set ?fs then (k, good_part br v) else (k, v)) (disk log type))"
    using d by (intro recover_files_disk) auto
  moreover have "map (\<lambda>(k, v). if k \<in> fst ` set ?fs then (k, good_part br v) else (k, v)) (disk log type) =
      recover_dir br (disk log type)"
    unfolding recover_dir_def by (intro map_cong) (auto simp: image_iff split: prod.splits)
  ultimately show ?thesis unfolding oplog_hydrate_def hydrate_files_crashed [OF c] by simp
qed

lemma name_cmp_recover:
  "js_sort name_cmp (recover_dir br fs) = recover_dir br (js_sort name_cmp fs)"
proof -
  have ins: "js_insort name_cmp (fst f, g) (recover_dir br gs) = map (\<lambda>(d, b). (d, b)) (js_insort name_cmp (fst f, g) (recover_dir br gs))"
    for f :: "string \<times> bytes" and g gs by simp
  have "js_insort name_cmp (d, good_part br b) (recover_dir br gs) = recover_dir br (js_insort name_cmp (d, b) gs)" for d b gs
    by (induction gs) (auto simp: recover_dir_def name_cmp_def split: prod.splits)
  then show ?thesis by (induction fs) (auto simp: recover_dir_def split: prod.splits)
qed

lemma recover_dir_ok:
  "log_crashed br type log \<Longrightarrow> disk log' = (disk log)(type := recover_dir br (disk log type)) \<Longrightarrow> log_ok br type log'"
  using seg_crashed_hydrate(2)
  by (auto simp: log_ok_def log_crashed_def recover_dir_def o_def case_prod_beta')

lemma log_ok_crashed: "log_ok br type log \<Longrightarrow> log_crashed br type log"
  using seg_ok_crashed by (auto simp: log_ok_def log_crashed_def)

lemma mset_replay:
  "log_crashed br type log \<Longrightarrow> mset (replay br type log) = (\<Sum>f \<in># mset (disk log type). mset (seg_ops br (snd f)))"
proof -
  assume "log_crashed br type log"
  then have "replay br type log = concat (map (\<lambda>(day, b). seg_ops br b) (js_sort name_cmp (disk log type)))"
    using oplog_hydrate_crashed unfolding replay_def by fastforce
  then have "mset (replay br type log) = (\<Sum>f \<leftarrow> js_sort name_cmp (disk log type). mset (seg_ops br (snd f)))"
    by (simp add: mset_concat o_def case_prod_beta')
  also have "\<dots> = (\<Sum>f \<in># mset (js_sort name_cmp (disk log type)). mset (seg_ops br (snd f)))"
    by (simp only: sum_mset_sum_list [symmetric] mset_map)
  finally show ?thesis by simp
qed

subsection \<open>Appending\<close>

lemma maybeCheckRetention_frame [simp]:
  "disk (maybeCheckRetention now log) = disk log" "segments (maybeCheckRetention now log) = segments log"
  "flushEveryWrites (maybeCheckRetention now log) = flushEveryWrites log"
  by (simp_all add: maybeCheckRetention_def Let_def)

lemma warnIfLocalDay_frame [simp]:
  "disk (warnIfLocalDayOutOfWindow now type date log) = disk log"
  "segments (warnIfLocalDayOutOfWindow now type date log) = segments log"
  "flushEveryWrites (warnIfLocalDayOutOfWindow now type date log) = flushEveryWrites log"
  by (simp_all add: warnIfLocalDayOutOfWindow_def split: sum.splits)

lemma append_file_disk:
  "disk (append_file type day b log) =
     (disk log)(type := AList.update day (file_or_empty log type day @ b) (disk log type))"
  by (simp add: append_file_def write_file_def)

lemma append_file_twice:
  "disk (append_file type day c (append_file type day b log)) = disk (append_file type day (b @ c) log)"
  by (simp add: append_file_disk file_or_empty_def seg_file_def update_conv' update_last)

lemma append_file_cong:
  "disk l = disk l' \<Longrightarrow> disk (append_file type day b l) = disk (append_file type day b l')"
  by (simp add: append_file_disk file_or_empty_def seg_file_def)

lemma ensureOpenSegment_disk:
  "disk (append_file type day b (snd (ensureOpenSegment now type day log))) = disk (append_file type day b log)"
proof -
  have "disk (append_file type day b (append_file type day [] l)) = disk (append_file type day b log)"
    if "disk l = disk log" for l
    using append_file_twice [of type day b "[]" l] append_file_cong [OF that, of type day b] by simp
  then show ?thesis by (auto simp: ensureOpenSegment_def Let_def split: option.splits)
qed

lemma appendBatchBytes_disk:
  assumes "appendBatchBytes now type date batch cached log = Inr (n, log')"
  shows "disk log' = disk (append_file type date (frame batch) log) \<and> n = length (frame batch)"
  using assms ensureOpenSegment_disk [of type date "frame batch" now log]
  by (auto simp: appendBatchBytes_def encodeVarint_def frame_def [symmetric] Let_def split_beta length_frame
      split: if_splits)

lemma appendBatchBytes_total: "\<exists>n log'. appendBatchBytes now type date batch cached log = Inr (n, log')"
  by (simp add: appendBatchBytes_def encodeVarint_def Let_def split_beta)

text \<open>Every local append flushes once enough writes are pending.\<close>

lemma appendBatchBytes_pending:
  assumes "appendBatchBytes now type date batch True log = Inr (n, log')" "0 < flushEveryWrites log"
  shows "\<exists>seg. segments log' type = Some seg \<and> sh_date seg = date \<and> pendingWrites seg < flushEveryWrites log"
proof -
  have "sh_date (fst (ensureOpenSegment now type date log)) = date"
    by (auto simp: ensureOpenSegment_def Let_def split: option.splits)
  moreover have "flushEveryWrites (snd (ensureOpenSegment now type date log)) = flushEveryWrites log"
    by (auto simp: ensureOpenSegment_def append_file_def write_file_def Let_def split: option.splits)
  ultimately show ?thesis
    using assms
    by (auto simp: appendBatchBytes_def encodeVarint_def append_file_def write_file_def Let_def split_beta)
qed

lemma sum_update:
  fixes g :: "bytes \<Rightarrow> wire_op multiset"
  assumes "distinct (map fst xs)" "g [] = {#}"
    and "g new = g (case map_of xs k of Some b \<Rightarrow> b | None \<Rightarrow> []) + d"
  shows "(\<Sum>f \<in># mset (AList.update k new xs). g (snd f)) = (\<Sum>f \<in># mset xs. g (snd f)) + d"
  using assms
proof (induction xs)
  case Nil
  then show ?case by simp
next
  case (Cons p xs)
  obtain k' v' where p: "p = (k', v')" by (cases p)
  show ?case
  proof (cases "k' = k")
    case True
    with Cons.prems p have "map_of xs k = None" by (auto simp: map_of_eq_None_iff)
    with True Cons.prems p show ?thesis by simp
  next
    case False
    with Cons p show ?thesis by simp
  qed
qed

lemma append_file_replay:
  assumes "log_ok br type log" "frame_ok batch" "br_decode br batch = Some ops"
    and "disk log' = disk (append_file type day (frame batch) log)"
  shows "log_ok br type log' \<and> mset (replay br type log') = mset (replay br type log) + mset ops"
proof -
  let ?old = "file_or_empty log type day" and ?fs = "disk log type"
  let ?new = "AList.update day (?old @ frame batch) ?fs"
  have d: "disk log' type = ?new" using assms(4) by (simp add: append_file_disk)
  have old: "?old = (case map_of ?fs day of Some b \<Rightarrow> b | None \<Rightarrow> [])" by (simp add: file_or_empty_def seg_file_def)
  have "seg_ok br ?old"
    using assms(1) seg_ok_Nil unfolding old log_ok_def by (auto split: option.splits dest!: map_of_SomeD)
  then have new: "seg_ok br (?old @ frame batch)" "seg_ops br (?old @ frame batch) = seg_ops br ?old @ ops"
    using seg_ok_append assms(2,3) by blast+
  have dist: "distinct (map fst ?fs)" using assms(1) by (simp add: log_ok_def)
  have "\<forall>(d, b) \<in> set ?new. seg_ok br b"
    using set_update_subset [of day "?old @ frame batch" ?fs] new(1) assms(1) unfolding log_ok_def by blast
  then have ok: "log_ok br type log'" using dist d by (simp add: log_ok_def distinct_update)
  have "(\<Sum>f \<in># mset ?new. mset (seg_ops br (snd f))) = (\<Sum>f \<in># mset ?fs. mset (seg_ops br (snd f))) + mset ops"
    using sum_update [OF dist, of "\<lambda>b. mset (seg_ops br b)"] new(2) seg_ok_Nil old by simp
  then show ?thesis using ok d mset_replay log_ok_crashed assms(1) by metis
qed

lemma four_varint_bytes: "0 \<le> v \<Longrightarrow> v < 128 ^ Suc k \<Longrightarrow> v \<le> VARINT_U32_MAX \<Longrightarrow> length (encode_varint_loop v) \<le> Suc k"
proof (induction k arbitrary: v)
  case 0
  then show ?case by (simp add: encode_varint_small)
next
  case (Suc k)
  show ?case
  proof (cases "v < 128")
    case True
    with Suc.prems show ?thesis by (simp add: encode_varint_small)
  next
    case False
    have "v div 128 \<le> v" using Suc.prems(1) by (rule div_128_le)
    with False Suc.prems show ?thesis using Suc.IH [of "v div 128"] by (simp add: encode_varint_big)
  qed
qed

subsection \<open>The acceptance window\<close>

lemma seg_name_1970: "MIN_SEGMENT_DAY = seg_name 1970 1 1"
  by code_simp

lemma acceptable_day_window:
  assumes "isSafeSegmentName day" "assertAcceptableSegmentDay day now = Inr ()"
    and "four_digit_ms (now + MAX_FUTURE_SEGMENT_DAYS * 86400000)"
  shows "\<exists>n. 0 \<le> n \<and> n \<le> now div DAY_MS + MAX_FUTURE_SEGMENT_DAYS \<and> day = utcDate (n * DAY_MS)"
proof -
  let ?h = "now + MAX_FUTURE_SEGMENT_DAYS * 86400000"
  obtain y m d where s: "valid_date y m d" "100 \<le> y" "y \<le> 9999" "day = seg_name y m d"
    using isSafeSegmentName_D [OF assms(1)] by blast
  define n where "n = day_from_year y + month_start y (nat (m - 1)) + (d - 1)"
  have dn: "date_of_day n = (y, m, d)" using date_of_day_of_date [OF s(1)] by (simp add: n_def)
  obtain y' m' d' where h: "date_of_day (?h div DAY_MS) = (y', m', d')" by (cases "date_of_day (?h div DAY_MS)")
  note fh = four_digit_date [OF assms(3) h]
  have "utcDate ?h = seg_name y' m' d'" using utcDate_seg_name [OF h] fh by simp
  with assms(2) s(4) have le: "\<not> seg_name y' m' d' < seg_name y m d" and ge: "\<not> seg_name y m d < seg_name 1970 1 1"
    by (auto simp: assertAcceptableSegmentDay_def seg_name_1970 split: if_splits)
  have z: "date_of_day 0 = (1970, 1, 1)" by code_simp
  have n0: "0 \<le> n" using seg_name_order [OF dn _ _ z] ge s(2,3) by simp
  have nh: "n \<le> ?h div DAY_MS" using seg_name_order [OF h _ _ dn] le s(2,3) fh by simp
  have fd: "four_digit_ms (n * DAY_MS)"
  proof -
    have "n * DAY_MS \<le> ?h div DAY_MS * DAY_MS" using nh by (intro mult_right_mono) (auto simp: DAY_MS_def)
    also have "\<dots> \<le> ?h" by (simp add: DAY_MS_def)
    finally show ?thesis using assms(3) n0 by (simp add: four_digit_ms_def DAY_MS_def)
  qed
  have "n * DAY_MS div DAY_MS = n" by (simp add: DAY_MS_def)
  with dn have "utcDate (n * DAY_MS) = seg_name y m d"
    using utcDate_seg_name [of "n * DAY_MS" y m d] four_digit_date [OF fd, of y m d] by simp
  moreover have "?h div DAY_MS = now div DAY_MS + MAX_FUTURE_SEGMENT_DAYS"
    by (simp add: DAY_MS_def MAX_FUTURE_SEGMENT_DAYS_def)
  ultimately show ?thesis using n0 nh s(4) by (intro exI [of _ n]) simp
qed

subsection \<open>Properties\<close>

text \<open>Splitting a segment gives back exactly the batches that were framed into it, in
  order; a torn tail (any proper prefix of a further frame) is ignored and is never an error.\<close>

theorem split_frames:
  assumes "\<forall>b \<in> set bs. int (length b) \<le> VARINT_U32_MAX" "torn t"
  shows "splitSegmentBatches (concat (map frame bs) @ t) = Inr bs"
  using split_from_frames [of bs t "[]"] assms by (simp add: splitSegmentBatches_def frame_ok_def)

theorem split_frames_witness:
  "splitSegmentBatches (concat (map frame [replicate 200 7, [1, 2]]) @ [200]) = Inr [replicate 200 7, [1, 2]]"
proof (rule split_frames)
  have "frame (replicate 200 0) = 200 # 1 # replicate 200 0"
    by (simp add: frame_def encode_varint_big encode_varint_small VARINT_U32_MAX_def)
  then show "torn [200]"
    unfolding torn_def by (intro exI [of _ "replicate 200 0"] exI [of _ 1]) (simp add: frame_ok_def VARINT_U32_MAX_def)
qed (simp add: VARINT_U32_MAX_def)


definition sample_wire_op :: wire_op where
  "sample_wire_op = WGset ''a'' ''b'' 60 1 2 \<lparr>wall_ms = 86400000, wh_counter = 0\<rparr> (replicate 16 1)"

definition sample_bridge :: bridge where
  "sample_bridge = \<lparr>br_encode = (\<lambda>ops. if ops = [sample_wire_op] then Some [9] else None),
     br_decode = (\<lambda>b. if b = [9] then Some [sample_wire_op] else None),
     br_decodeSegment = (\<lambda>b. if b = [1, 9] then Some [sample_wire_op] else None)\<rparr>"

definition sample_log :: "bytes \<Rightarrow> oplog" where
  "sample_log b = oplog_new (\<lambda>t. if t = GSET then [(''1970-01-02'', b)] else []) None None None None 0"

lemma frame_9: "frame [9] = [1, 9]"
  by (simp add: frame_def encode_varint_small)

lemma sample_log_crashed: "log_crashed sample_bridge GSET (sample_log [1, 9, 1])"
proof -
  have "torn [1]" unfolding torn_def using frame_9
    by (intro exI [of _ "[9]"] exI [of _ 1]) (simp add: frame_ok_def VARINT_U32_MAX_def)
  moreover have "batches_ok sample_bridge [[9]]"
    by (simp add: batches_ok_def frame_ok_def VARINT_U32_MAX_def sample_bridge_def)
  ultimately have "seg_crashed sample_bridge [1, 9, 1]"
    unfolding seg_crashed_def by (intro exI [of _ "[[9]]"] exI [of _ "[1]"]) (simp add: frame_9)
  then show ?thesis by (simp add: log_crashed_def sample_log_def oplog_new_def)
qed


text \<open>C20: What is appended locally is what the next start replays: appending a non-empty batch to
  a well-formed log succeeds, keeps it well formed, adds exactly the operations of the batch
  to the replay, writes them to the file of the first operation's UTC day, changes no other
  file, and leaves fewer than \<open>flushEveryWrites\<close> batches unsynced in that file. (Given that
  the codec decodes what it encodes and that a batch is shorter than 4 GiB.)\<close>

theorem append_then_replay:
  assumes "log_ok br type log" "br_encode br (op # ops) = Some batch"
    and "br_decode br batch = Some (op # ops)" "int (length batch) \<le> VARINT_U32_MAX"
    and "0 < flushEveryWrites log"
  shows "\<exists>n log' seg. appendOps br now type (op # ops) log = (Inr n, log')
    \<and> log_ok br type log' \<and> mset (replay br type log') = mset (replay br type log) + mset (op # ops)
    \<and> (\<forall>t day. (t, day) \<noteq> (type, utcDate (wall_ms (w_hlc op))) \<longrightarrow> seg_file log' t day = seg_file log t day)
    \<and> segments log' type = Some seg \<and> sh_date seg = utcDate (wall_ms (w_hlc op))
    \<and> pendingWrites seg < flushEveryWrites log"
proof -
  let ?day = "utcDate (wall_ms (w_hlc op))"
  let ?log1 = "warnIfLocalDayOutOfWindow now type ?day log"
  obtain n log' where a: "appendBatchBytes now type ?day batch True ?log1 = Inr (n, log')"
    using appendBatchBytes_total by blast
  have d: "disk log' = disk (append_file type ?day (frame batch) ?log1)"
    using appendBatchBytes_disk [OF a] by simp
  have ok1: "log_ok br type ?log1" using assms(1) by (simp add: log_ok_def)
  have "mset (replay br type ?log1) = mset (replay br type log)"
    using mset_replay [OF log_ok_crashed [OF ok1]] mset_replay [OF log_ok_crashed [OF assms(1)]] by simp
  with append_file_replay [OF ok1 _ assms(3) d] assms(4)
  have "log_ok br type log' \<and> mset (replay br type log') = mset (replay br type log) + mset (op # ops)"
    by (simp add: frame_ok_def)
  moreover have "\<forall>t day. (t, day) \<noteq> (type, ?day) \<longrightarrow> seg_file log' t day = seg_file log t day"
    using d by (auto simp: seg_file_def append_file_disk update_conv')
  moreover have "appendOps br now type (op # ops) log = (Inr n, log')"
    using assms(2) a by (simp add: Let_def)
  moreover obtain seg where "segments log' type = Some seg" "sh_date seg = ?day" "pendingWrites seg < flushEveryWrites log"
    using appendBatchBytes_pending [OF a] assms(5) by auto
  ultimately show ?thesis by blast
qed

lemma sample_log_ok: "log_ok sample_bridge GSET (sample_log [1, 9])"
proof -
  have "batches_ok sample_bridge [[9]]"
    by (simp add: batches_ok_def frame_ok_def VARINT_U32_MAX_def sample_bridge_def)
  then have "seg_ok sample_bridge [1, 9]"
    unfolding seg_ok_def by (intro exI [of _ "[[9]]"]) (simp add: frame_9)
  then show ?thesis by (simp add: log_ok_def sample_log_def oplog_new_def)
qed

theorem append_then_replay_witness:
  "\<exists>n log'. appendOps sample_bridge 86400000 GSET [sample_wire_op] (sample_log [1, 9]) = (Inr n, log')
     \<and> log_ok sample_bridge GSET log'"
  using append_then_replay [OF sample_log_ok, of sample_wire_op "[]" "[9]" 86400000]
  by (auto simp: sample_bridge_def VARINT_U32_MAX_def sample_log_def oplog_new_def)

text \<open>C21: What a peer can make the log hold is bounded: an accepted inbound batch is at most the
  batch cap, grows the named segment to at most the segment cap plus its length prefix,
  changes no other file, and, for a name that passes the name check, the segment is the file
  of a day from the epoch to seven days ahead of the clock; anything else is refused and
  changes nothing.\<close>

theorem inbound_bounded:
  assumes "appendRawBatchToDate now type date batch log = Inr (n, log')"
  shows "int (length batch) \<le> maxPushBatchBytes CRDT_LIMITS
    \<and> seg_file log' type date = Some (file_or_empty log type date @ frame batch)
    \<and> int (length (file_or_empty log type date @ frame batch)) \<le> maxSegmentBytes CRDT_LIMITS + 4
    \<and> (\<forall>t day. (t, day) \<noteq> (type, date) \<longrightarrow> seg_file log' t day = seg_file log t day)
    \<and> (isSafeSegmentName date \<and> four_digit_ms (now + MAX_FUTURE_SEGMENT_DAYS * 86400000) \<longrightarrow>
        (\<exists>d. 0 \<le> d \<and> d \<le> now div DAY_MS + MAX_FUTURE_SEGMENT_DAYS \<and> date = utcDate (d * DAY_MS)))"
proof -
  have cap: "int (length batch) \<le> maxPushBatchBytes CRDT_LIMITS"
    and acc: "assertAcceptableSegmentDay date now = Inr ()"
    and tot: "int (length (file_or_empty log type date) + length batch) \<le> maxSegmentBytes CRDT_LIMITS"
    and a: "appendBatchBytes now type date batch False log = Inr (n, log')"
    using assms
    by (auto simp: appendRawBatchToDate_def sbind_eq_Inr_iff lift_varint_def Let_def split: if_splits sum.splits)
  have d: "disk log' = disk (append_file type date (frame batch) log)" using appendBatchBytes_disk [OF a] by simp
  have "length (encode_varint_loop (int (length batch))) \<le> Suc 3"
    using cap by (intro four_varint_bytes) (simp_all add: CRDT_LIMITS_def VARINT_U32_MAX_def)
  with tot have "int (length (file_or_empty log type date @ frame batch)) \<le> maxSegmentBytes CRDT_LIMITS + 4"
    by (simp add: length_frame)
  moreover have "seg_file log' type date = Some (file_or_empty log type date @ frame batch)"
    using d by (simp add: seg_file_def append_file_disk update_conv')
  moreover have "\<forall>t day. (t, day) \<noteq> (type, date) \<longrightarrow> seg_file log' t day = seg_file log t day"
    using d by (auto simp: seg_file_def append_file_disk update_conv')
  ultimately show ?thesis using cap acceptable_day_window [OF _ acc] by blast
qed

theorem inbound_bounded_witness:
  "\<exists>n log'. appendRawBatchToDate 86400000 GSET ''1970-01-02'' [9] (sample_log [1, 9]) = Inr (n, log')
     \<and> seg_file log' GSET ''1970-01-02'' = Some ([1, 9] @ frame [9])"
proof -
  have "\<not> ''1970-01-02'' < MIN_SEGMENT_DAY" by code_simp
  moreover have "utcDate (86400000 + MAX_FUTURE_SEGMENT_DAYS * 86400000) = ''1970-01-09''" by code_simp
  moreover have "\<not> ''1970-01-09'' < ''1970-01-02''" by code_simp
  ultimately have acc: "assertAcceptableSegmentDay ''1970-01-02'' 86400000 = Inr ()"
    by (simp add: assertAcceptableSegmentDay_def)
  have f: "file_or_empty (sample_log [1, 9]) GSET ''1970-01-02'' = [1, 9]"
    by (simp add: file_or_empty_def seg_file_def sample_log_def oplog_new_def)
  obtain n log' where "appendBatchBytes 86400000 GSET ''1970-01-02'' [9] False (sample_log [1, 9]) = Inr (n, log')"
    using appendBatchBytes_total by blast
  then have a: "appendRawBatchToDate 86400000 GSET ''1970-01-02'' [9] (sample_log [1, 9]) = Inr (n, log')"
    by (simp add: appendRawBatchToDate_def acc f CRDT_LIMITS_def lift_varint_def)
  with inbound_bounded [OF a] f show ?thesis by auto
qed

end
