(* ===== verification/Merkle.thy ===== *)
theory Merkle
  imports Oplog
begin

text \<open>
  The Merkle summary of the op log, \<open>src/daemon/src/crdt/merkle.ts\<close>: one leaf per day of a
  CRDT type, hashed over the sorted set of composite keys of its segment, a root over the
  sorted leaf hashes, the leaf cache \<open>merkle.json\<close>, and the comparison of two snapshots. The
  hash \<open>blake3\<close> is an argument. Shown here: roots do not depend on the order of operations,
  batches or leaves; equal roots mean equal leaves unless the hash collides on the inputs that
  were hashed; the cache never changes the result; a diff is empty exactly for equal leaves.
\<close>

definition LEAF_TAG :: byte where "LEAF_TAG = 0"
definition NODE_TAG :: byte where "NODE_TAG = 1"

record segment_leaf =
  sl_path :: string
  sl_hash :: string

record merkle_snapshot =
  roots :: "crdt_type \<Rightarrow> string"
  leaves :: "crdt_type \<Rightarrow> segment_leaf list"

record cache_entry =
  ce_hash :: string
  ce_mtimeMs :: int
  ce_size :: nat
  ce_tailHex :: string

type_synonym merkle_cache = "((crdt_type \<times> string) \<times> cache_entry) list"

datatype merkle_error = OddHex string | BadKey hlc_error

subsection \<open>Hashes\<close>

definition hexToBytes :: "string \<Rightarrow> merkle_error + bytes" where
  "hexToBytes hex = (if length hex mod 2 \<noteq> 0 then Inl (OddHex hex) else Inr (hex_pairs hex))"

definition EMPTY_ROOT_HEX :: "(bytes \<Rightarrow> bytes) \<Rightarrow> string" where
  "EMPTY_ROOT_HEX blake3 = bytesToHex (blake3 [NODE_TAG])"

definition EMPTY_LEAF_HEX :: "(bytes \<Rightarrow> bytes) \<Rightarrow> string" where
  "EMPTY_LEAF_HEX blake3 = bytesToHex (blake3 [LEAF_TAG])"

definition leafHash :: "(bytes \<Rightarrow> bytes) \<Rightarrow> string list \<Rightarrow> merkle_error + string" where
  "leafHash blake3 sortedKeysHex =
     sbind (smap hexToBytes sortedKeysHex) (\<lambda>ks. Inr (bytesToHex (blake3 (LEAF_TAG # concat ks))))"

text \<open>\<open>byteCompare\<close> of this file returns the difference of the first unequal bytes.\<close>

fun merkle_byteCompare :: "bytes \<Rightarrow> bytes \<Rightarrow> int" where
  "merkle_byteCompare (a # as) (b # bs) = (if a \<noteq> b then uint a - uint b else merkle_byteCompare as bs)"
| "merkle_byteCompare as bs = int (length as) - int (length bs)"

definition combine :: "(bytes \<Rightarrow> bytes) \<Rightarrow> bytes \<Rightarrow> bytes \<Rightarrow> bytes" where
  "combine blake3 a b =
     (let (fst, snd) = (if merkle_byteCompare a b \<le> 0 then (a, b) else (b, a))
      in blake3 (NODE_TAG # fst @ snd))"

fun next_level :: "(bytes \<Rightarrow> bytes) \<Rightarrow> bytes list \<Rightarrow> bytes list" where
  "next_level blake3 (a # b # rest) = combine blake3 a b # next_level blake3 rest"
| "next_level blake3 [a] = [a]"
| "next_level blake3 [] = []"

lemma length_next_level: "length (next_level blake3 xs) = (length xs + 1) div 2"
  by (induction blake3 xs rule: next_level.induct) auto

function root_loop :: "(bytes \<Rightarrow> bytes) \<Rightarrow> bytes list \<Rightarrow> bytes list" where
  "root_loop blake3 level = (if length level > 1 then root_loop blake3 (next_level blake3 level) else level)"
  by pat_completeness auto
termination by (relation "measure (\<lambda>(_, level). length level)") (auto simp: length_next_level)

declare root_loop.simps [simp del]

definition rootOf :: "(bytes \<Rightarrow> bytes) \<Rightarrow> segment_leaf list \<Rightarrow> merkle_error + string" where
  "rootOf blake3 ls =
     (if ls = [] then Inr (EMPTY_ROOT_HEX blake3)
      else sbind (smap hexToBytes (sort (map sl_hash ls))) (\<lambda>level.
             Inr (bytesToHex (hd (root_loop blake3 level)))))"

subsection \<open>Snapshots\<close>

definition fresh_leaf ::
    "(bytes \<Rightarrow> bytes) \<Rightarrow> bridge \<Rightarrow> oplog \<Rightarrow> crdt_type \<Rightarrow> string \<Rightarrow> merkle_error + string" where
  "fresh_leaf blake3 br log type day =
     (case segmentCompositeKeys br log type day of
        Inl e \<Rightarrow> Inl (BadKey e) | Inr keys \<Rightarrow> leafHash blake3 keys)"

text \<open>One iteration over a day: its hash, from the cache when the entry matches, and the cache.\<close>

definition day_hash ::
    "(bytes \<Rightarrow> bytes) \<Rightarrow> bridge \<Rightarrow> (crdt_type \<Rightarrow> string \<Rightarrow> int) \<Rightarrow> oplog \<Rightarrow> crdt_type \<Rightarrow> string
     \<Rightarrow> merkle_cache \<Rightarrow> merkle_error + (string \<times> merkle_cache)" where
  "day_hash blake3 br mtime log type day cache =
     (let stat = segmentStat mtime log type day;
          cached = map_of cache (type, day);
          fresh = sbind (fresh_leaf blake3 br log type day) (\<lambda>hash.
            Inr (hash, case stat of
                  None \<Rightarrow> cache
                | Some s \<Rightarrow> AList.update (type, day)
                    \<lparr>ce_hash = hash, ce_mtimeMs = st_mtimeMs s, ce_size = st_size s, ce_tailHex = st_tailHex s\<rparr> cache))
      in case (stat, cached) of
           (Some s, Some c) \<Rightarrow>
             if ce_mtimeMs c = st_mtimeMs s \<and> ce_size c = st_size s \<and> ce_tailHex c = st_tailHex s
             then Inr (ce_hash c, cache) else fresh
         | _ \<Rightarrow> fresh)"

fun day_leaves ::
    "(bytes \<Rightarrow> bytes) \<Rightarrow> bridge \<Rightarrow> (crdt_type \<Rightarrow> string \<Rightarrow> int) \<Rightarrow> oplog \<Rightarrow> crdt_type \<Rightarrow> string list
     \<Rightarrow> merkle_cache \<Rightarrow> merkle_error + (segment_leaf list \<times> merkle_cache)" where
  "day_leaves blake3 br mtime log type [] cache = Inr ([], cache)"
| "day_leaves blake3 br mtime log type (day # days) cache =
     sbind (day_hash blake3 br mtime log type day cache) (\<lambda>(hash, cache1).
     sbind (day_leaves blake3 br mtime log type days cache1) (\<lambda>(ls, cache2).
       Inr (if hash = EMPTY_LEAF_HEX blake3 then ls else \<lparr>sl_path = day, sl_hash = hash\<rparr> # ls, cache2)))"

fun type_leaves ::
    "(bytes \<Rightarrow> bytes) \<Rightarrow> bridge \<Rightarrow> (crdt_type \<Rightarrow> string \<Rightarrow> int) \<Rightarrow> oplog \<Rightarrow> crdt_type list
     \<Rightarrow> merkle_snapshot \<Rightarrow> merkle_cache \<Rightarrow> merkle_error + (merkle_snapshot \<times> merkle_cache)" where
  "type_leaves blake3 br mtime log [] snap cache = Inr (snap, cache)"
| "type_leaves blake3 br mtime log (t # ts) snap cache =
     sbind (day_leaves blake3 br mtime log t (listSegmentDays log t) cache) (\<lambda>(ls, cache1).
     sbind (rootOf blake3 ls) (\<lambda>root.
       type_leaves blake3 br mtime log ts
         (snap\<lparr>roots := (roots snap)(t := root), leaves := (leaves snap)(t := ls)\<rparr>) cache1))"

text \<open>
  The content of \<open>merkle.json\<close>: \<open>None\<close> when it is missing, unparsable or of another version.
  \<open>computeMerkle\<close> returns the snapshot and the content afterwards (written only when a leaf
  was recomputed, and then equal to the cache).
\<close>

definition loadCache :: "merkle_cache option \<Rightarrow> merkle_cache" where
  "loadCache f = (case f of Some c \<Rightarrow> c | None \<Rightarrow> [])"

definition computeMerkle ::
    "(bytes \<Rightarrow> bytes) \<Rightarrow> bridge \<Rightarrow> (crdt_type \<Rightarrow> string \<Rightarrow> int) \<Rightarrow> oplog \<Rightarrow> merkle_cache option
     \<Rightarrow> merkle_error + (merkle_snapshot \<times> merkle_cache option)" where
  "computeMerkle blake3 br mtime log cacheFile =
     (let cache = loadCache cacheFile
      in sbind (type_leaves blake3 br mtime log TYPES \<lparr>roots = (\<lambda>_. []), leaves = (\<lambda>_. [])\<rparr> cache)
           (\<lambda>(snap, cache'). Inr (snap, if cache' = cache then cacheFile else Some cache')))"

definition computeRoots ::
    "(bytes \<Rightarrow> bytes) \<Rightarrow> bridge \<Rightarrow> (crdt_type \<Rightarrow> string \<Rightarrow> int) \<Rightarrow> oplog \<Rightarrow> merkle_cache option
     \<Rightarrow> merkle_error + (crdt_type \<Rightarrow> string)" where
  "computeRoots blake3 br mtime log cacheFile =
     sbind (computeMerkle blake3 br mtime log cacheFile) (\<lambda>(snap, _). Inr (roots snap))"

record merkle_diff =
  md_pull :: "(crdt_type \<times> string \<times> string) list"
  md_push :: "(crdt_type \<times> string \<times> string) list"

definition by_path :: "segment_leaf list \<Rightarrow> (string \<times> string) list" where
  "by_path ls = foldl (\<lambda>m l. AList.update (sl_path l) (sl_hash l) m) [] ls"

definition diffSnapshots :: "merkle_snapshot \<Rightarrow> merkle_snapshot \<Rightarrow> merkle_diff" where
  "diffSnapshots ours theirs =
     \<lparr>md_pull = concat (map (\<lambda>t. map (\<lambda>(p, h). (t, p, h))
        (filter (\<lambda>(p, h). map_of (by_path (leaves ours t)) p \<noteq> Some h) (by_path (leaves theirs t)))) TYPES),
      md_push = concat (map (\<lambda>t. map (\<lambda>(p, h). (t, p, h))
        (filter (\<lambda>(p, h). p \<notin> fst ` set (by_path (leaves theirs t))) (by_path (leaves ours t)))) TYPES)\<rparr>"

subsection \<open>Trees of hashes\<close>

lemma merkle_byteCompare_le: "merkle_byteCompare a b \<le> 0 \<longleftrightarrow> a \<le> b"
proof (induction a b rule: merkle_byteCompare.induct)
  case (1 a as b bs)
  have "uint a - uint b \<le> 0 \<longleftrightarrow> a \<le> b" by (simp add: word_le_def)
  with 1 show ?case by (auto simp: order.strict_iff_order)
qed auto

lemma combine_min_max: "combine blake3 a b = blake3 (NODE_TAG # min a b @ max a b)"
  by (simp add: combine_def merkle_byteCompare_le min_def max_def)

datatype htree = HLeaf bytes | HNode htree htree

fun th :: "(bytes \<Rightarrow> bytes) \<Rightarrow> htree \<Rightarrow> bytes" where
  "th blake3 (HLeaf k) = blake3 (LEAF_TAG # k)"
| "th blake3 (HNode s t) = combine blake3 (th blake3 s) (th blake3 t)"

fun tleaves :: "htree \<Rightarrow> bytes multiset" where
  "tleaves (HLeaf k) = {#k#}"
| "tleaves (HNode s t) = tleaves s + tleaves t"

fun tin :: "(bytes \<Rightarrow> bytes) \<Rightarrow> htree \<Rightarrow> bytes set" where
  "tin blake3 (HLeaf k) = {LEAF_TAG # k}"
| "tin blake3 (HNode s t) =
     insert (NODE_TAG # min (th blake3 s) (th blake3 t) @ max (th blake3 s) (th blake3 t))
       (tin blake3 s \<union> tin blake3 t)"

definition out_32 :: "(bytes \<Rightarrow> bytes) \<Rightarrow> bool" where
  "out_32 blake3 \<longleftrightarrow> (\<forall>x. length (blake3 x) = 32)"

lemma length_th: "out_32 blake3 \<Longrightarrow> length (th blake3 t) = 32"
  by (cases t) (simp_all add: out_32_def combine_min_max)

lemma tags_differ [simp]: "LEAF_TAG \<noteq> NODE_TAG" "NODE_TAG \<noteq> LEAF_TAG"
  by (simp_all add: LEAF_TAG_def NODE_TAG_def)

lemma min_max_cases:
  fixes a b c d :: "'a::linorder"
  shows "min a b = min c d \<Longrightarrow> max a b = max c d \<Longrightarrow> a = c \<and> b = d \<or> a = d \<and> b = c"
  by (auto simp: min_def max_def split: if_splits)

lemma th_leaf_in: "LEAF_TAG # k \<in> tin b (HLeaf k)"
  by simp

text \<open>A hash determines the leaves below it, up to a collision among the inputs hashed.\<close>

lemma th_inject:
  assumes "out_32 blake3"
  shows "inj_on blake3 (tin blake3 s \<union> tin blake3 t) \<Longrightarrow> th blake3 s = th blake3 t \<Longrightarrow> tleaves s = tleaves t"
proof (induction s arbitrary: t)
  case (HLeaf k)
  show ?case
  proof (cases t)
    case t: (HLeaf l)
    have "LEAF_TAG # k = LEAF_TAG # l"
      by (rule inj_onD [OF HLeaf.prems(1)]) (use HLeaf.prems(2) t in simp_all)
    with t show ?thesis by simp
  next
    case t: (HNode t1 t2)
    have "LEAF_TAG # k = NODE_TAG # min (th blake3 t1) (th blake3 t2) @ max (th blake3 t1) (th blake3 t2)"
      by (rule inj_onD [OF HLeaf.prems(1)]) (use HLeaf.prems(2) t in \<open>simp_all add: combine_min_max\<close>)
    then show ?thesis by simp
  qed
next
  case (HNode s1 s2)
  show ?case
  proof (cases t)
    case t: (HLeaf l)
    have "NODE_TAG # min (th blake3 s1) (th blake3 s2) @ max (th blake3 s1) (th blake3 s2) = LEAF_TAG # l"
      by (rule inj_onD [OF HNode.prems(1)]) (use HNode.prems(2) t in \<open>simp_all add: combine_min_max\<close>)
    then show ?thesis by simp
  next
    case t: (HNode t1 t2)
    have inj: "inj_on blake3 (tin blake3 u \<union> tin blake3 v)" if "u \<in> {s1, s2}" "v \<in> {t1, t2}" for u v
      by (rule inj_on_subset [OF HNode.prems(1)]) (use that t in auto)
    have "NODE_TAG # min (th blake3 s1) (th blake3 s2) @ max (th blake3 s1) (th blake3 s2) =
        NODE_TAG # min (th blake3 t1) (th blake3 t2) @ max (th blake3 t1) (th blake3 t2)"
      by (rule inj_onD [OF HNode.prems(1)]) (use HNode.prems(2) t in \<open>simp_all add: combine_min_max\<close>)
    moreover have "length (min (th blake3 s1) (th blake3 s2)) = length (min (th blake3 t1) (th blake3 t2))"
      using length_th [OF assms] by (simp add: min_def)
    ultimately have "min (th blake3 s1) (th blake3 s2) = min (th blake3 t1) (th blake3 t2)"
      "max (th blake3 s1) (th blake3 s2) = max (th blake3 t1) (th blake3 t2)" by auto
    then consider "th blake3 s1 = th blake3 t1" "th blake3 s2 = th blake3 t2"
      | "th blake3 s1 = th blake3 t2" "th blake3 s2 = th blake3 t1"
      using min_max_cases by metis
    then show ?thesis
    proof cases
      case 1
      then have "tleaves s1 = tleaves t1" "tleaves s2 = tleaves t2" using HNode.IH inj by auto
      with t show ?thesis by simp
    next
      case 2
      then have "tleaves s1 = tleaves t2" "tleaves s2 = tleaves t1" using HNode.IH inj by auto
      with t show ?thesis by simp
    qed
  qed
qed

fun pair_trees :: "htree list \<Rightarrow> htree list" where
  "pair_trees (s # t # r) = HNode s t # pair_trees r"
| "pair_trees ts = ts"

text \<open>The inputs that one level, and then the whole loop, hands to the hash.\<close>

fun level_inputs :: "bytes list \<Rightarrow> bytes list" where
  "level_inputs (a # b # rest) = (NODE_TAG # min a b @ max a b) # level_inputs rest"
| "level_inputs _ = []"

function loop_inputs :: "(bytes \<Rightarrow> bytes) \<Rightarrow> bytes list \<Rightarrow> bytes list" where
  "loop_inputs blake3 level =
     (if length level > 1 then level_inputs level @ loop_inputs blake3 (next_level blake3 level) else [])"
  by pat_completeness auto
termination by (relation "measure (\<lambda>(_, level). length level)") (auto simp: length_next_level)

declare loop_inputs.simps [simp del]

lemma pair_trees_level:
  "next_level blake3 (map (th blake3) ts) = map (th blake3) (pair_trees ts)
   \<and> sum_list (map tleaves (pair_trees ts)) = sum_list (map tleaves ts)
   \<and> \<Union> (tin blake3 ` set (pair_trees ts)) \<subseteq> \<Union> (tin blake3 ` set ts) \<union> set (level_inputs (map (th blake3) ts))
   \<and> (pair_trees ts = [] \<longleftrightarrow> ts = [])"
  by (induction ts rule: pair_trees.induct) (auto simp: add.assoc)

lemma subset_step: "T \<subseteq> A \<union> L \<Longrightarrow> A \<subseteq> B \<union> I \<Longrightarrow> T \<subseteq> B \<union> (I \<union> L)"
  by blast

lemma root_loop_tree:
  assumes "level = map (th blake3) ts" "ts \<noteq> []"
  shows "\<exists>t. root_loop blake3 level = [th blake3 t] \<and> tleaves t = sum_list (map tleaves ts)
    \<and> tin blake3 t \<subseteq> \<Union> (tin blake3 ` set ts) \<union> set (loop_inputs blake3 level)"
  using assms
proof (induction "length level" arbitrary: level ts rule: less_induct)
  case less
  show ?case
  proof (cases "length level > 1")
    case True
    have "length (next_level blake3 level) < length level" using True by (simp add: length_next_level)
    moreover have "next_level blake3 level = map (th blake3) (pair_trees ts)" "pair_trees ts \<noteq> []"
      using pair_trees_level [of blake3 ts] less.prems by auto
    ultimately obtain t where t: "root_loop blake3 (next_level blake3 level) = [th blake3 t]"
      "tleaves t = sum_list (map tleaves (pair_trees ts))"
      "tin blake3 t \<subseteq> \<Union> (tin blake3 ` set (pair_trees ts)) \<union> set (loop_inputs blake3 (next_level blake3 level))"
      using less.hyps by blast
    have "root_loop blake3 level = [th blake3 t]"
      using True t(1) by (subst root_loop.simps) simp
    moreover have "tleaves t = sum_list (map tleaves ts)"
      using t(2) pair_trees_level [of blake3 ts] by simp
    moreover have li: "set (loop_inputs blake3 level) =
        set (level_inputs level) \<union> set (loop_inputs blake3 (next_level blake3 level))"
      using True by (subst loop_inputs.simps) simp
    have "\<Union> (tin blake3 ` set (pair_trees ts)) \<subseteq> \<Union> (tin blake3 ` set ts) \<union> set (level_inputs level)"
      unfolding less.prems(1) using pair_trees_level [of blake3 ts] by (elim conjE)
    then have "tin blake3 t \<subseteq> \<Union> (tin blake3 ` set ts) \<union> set (loop_inputs blake3 level)"
      unfolding li by (rule subset_step [OF t(3)])
    ultimately show ?thesis by blast
  next
    case False
    with less.prems obtain t where "ts = [t]" by (cases ts; cases "tl ts") auto
    with less.prems show ?thesis by (subst root_loop.simps) auto
  qed
qed

text \<open>The root over the leaves of the key inputs \<open>ks\<close>, and every input hashed for it.\<close>

definition leaf_hex :: "(bytes \<Rightarrow> bytes) \<Rightarrow> bytes \<Rightarrow> string" where
  "leaf_hex blake3 k = bytesToHex (blake3 (LEAF_TAG # k))"

definition hashed :: "(bytes \<Rightarrow> bytes) \<Rightarrow> bytes list \<Rightarrow> bytes set" where
  "hashed blake3 ks = insert [NODE_TAG] ((#) LEAF_TAG ` set ks
     \<union> set (loop_inputs blake3 (map hex_pairs (sort (map (leaf_hex blake3) ks)))))"

lemma smap_hexToBytes: "smap hexToBytes (map bytesToHex bs) = Inr bs"
  by (induction bs) (simp_all add: hexToBytes_def codec_simps)

lemma rootOf_tree:
  assumes "map sl_hash ls = map (leaf_hex blake3) ks" "ls \<noteq> []"
  shows "\<exists>t. rootOf blake3 ls = Inr (bytesToHex (th blake3 t)) \<and> tleaves t = mset ks \<and> tin blake3 t \<subseteq> hashed blake3 ks"
proof -
  define ks' where "ks' = sort_key (leaf_hex blake3) ks"
  have sorted: "sort (map sl_hash ls) = map (leaf_hex blake3) ks'"
    unfolding assms(1) ks'_def by (rule properties_for_sort) simp_all
  let ?ts = "map HLeaf ks'"
  have level: "map hex_pairs (sort (map sl_hash ls)) = map (th blake3) ?ts"
    unfolding sorted by (simp add: leaf_hex_def codec_simps)
  have "smap hexToBytes (sort (map sl_hash ls)) = Inr (map (th blake3) ?ts)"
    unfolding sorted using smap_hexToBytes [of "map (\<lambda>k. blake3 (LEAF_TAG # k)) ks'"]
    by (simp add: leaf_hex_def [abs_def] o_def)
  moreover have "?ts \<noteq> []"
  proof
    assume "?ts = []"
    then have "map sl_hash ls = []" using sorted by (metis list.map_disc_iff mset_sort mset_zero_iff)
    with assms(2) show False by simp
  qed
  then obtain t where "root_loop blake3 (map (th blake3) ?ts) = [th blake3 t]" "tleaves t = sum_list (map tleaves ?ts)"
    "tin blake3 t \<subseteq> \<Union> (tin blake3 ` set ?ts) \<union> set (loop_inputs blake3 (map (th blake3) ?ts))"
    using root_loop_tree [OF refl] by blast
  moreover have "sum_list (map tleaves ?ts) = mset ks"
  proof -
    have "sum_list (map tleaves (map HLeaf xs)) = mset xs" for xs by (induction xs) auto
    then show ?thesis by (simp add: ks'_def)
  qed
  moreover have "\<Union> (tin blake3 ` set ?ts) = (#) LEAF_TAG ` set ks" by (auto simp: ks'_def)
  moreover have "map (th blake3) ?ts = map hex_pairs (sort (map (leaf_hex blake3) ks))"
    using level assms(1) by simp
  ultimately show ?thesis using assms(2)
    by (intro exI [of _ t]) (auto simp: rootOf_def hashed_def)
qed

subsection \<open>The cache\<close>

definition coherent ::
    "(bytes \<Rightarrow> bytes) \<Rightarrow> bridge \<Rightarrow> (crdt_type \<Rightarrow> string \<Rightarrow> int) \<Rightarrow> oplog \<Rightarrow> merkle_cache \<Rightarrow> bool" where
  "coherent blake3 br mtime log cache \<longleftrightarrow>
     (\<forall>t day c s. map_of cache (t, day) = Some c \<and> segmentStat mtime log t day = Some s
        \<and> ce_mtimeMs c = st_mtimeMs s \<and> ce_size c = st_size s \<and> ce_tailHex c = st_tailHex s
        \<longrightarrow> fresh_leaf blake3 br log t day = Inr (ce_hash c))"

text \<open>The snapshot without any cache.\<close>

fun fresh_leaves :: "(bytes \<Rightarrow> bytes) \<Rightarrow> bridge \<Rightarrow> oplog \<Rightarrow> crdt_type \<Rightarrow> string list \<Rightarrow> merkle_error + segment_leaf list" where
  "fresh_leaves blake3 br log t [] = Inr []"
| "fresh_leaves blake3 br log t (day # days) =
     sbind (fresh_leaf blake3 br log t day) (\<lambda>hash.
     sbind (fresh_leaves blake3 br log t days) (\<lambda>ls.
       Inr (if hash = EMPTY_LEAF_HEX blake3 then ls else \<lparr>sl_path = day, sl_hash = hash\<rparr> # ls)))"

fun fresh_types ::
    "(bytes \<Rightarrow> bytes) \<Rightarrow> bridge \<Rightarrow> oplog \<Rightarrow> crdt_type list \<Rightarrow> merkle_snapshot \<Rightarrow> merkle_error + merkle_snapshot" where
  "fresh_types blake3 br log [] snap = Inr snap"
| "fresh_types blake3 br log (t # ts) snap =
     sbind (fresh_leaves blake3 br log t (listSegmentDays log t)) (\<lambda>ls.
     sbind (rootOf blake3 ls) (\<lambda>root.
       fresh_types blake3 br log ts
         (snap\<lparr>roots := (roots snap)(t := root), leaves := (leaves snap)(t := ls)\<rparr>)))"

definition fresh_snapshot :: "(bytes \<Rightarrow> bytes) \<Rightarrow> bridge \<Rightarrow> oplog \<Rightarrow> merkle_error + merkle_snapshot" where
  "fresh_snapshot blake3 br log = fresh_types blake3 br log TYPES \<lparr>roots = (\<lambda>_. []), leaves = (\<lambda>_. [])\<rparr>"

lemma coherentD:
  "coherent blake3 br mtime log cache \<Longrightarrow> map_of cache (t, day) = Some c \<Longrightarrow> segmentStat mtime log t day = Some s \<Longrightarrow>
   ce_mtimeMs c = st_mtimeMs s \<Longrightarrow> ce_size c = st_size s \<Longrightarrow> ce_tailHex c = st_tailHex s \<Longrightarrow>
   fresh_leaf blake3 br log t day = Inr (ce_hash c)"
  unfolding coherent_def by blast

lemma day_hash_fresh:
  assumes "coherent blake3 br mtime log cache"
  shows "case day_hash blake3 br mtime log t day cache of
      Inl e \<Rightarrow> fresh_leaf blake3 br log t day = Inl e
    | Inr (h, cache') \<Rightarrow> fresh_leaf blake3 br log t day = Inr h \<and> coherent blake3 br mtime log cache'"
proof -
  have put: "coherent blake3 br mtime log (AList.update (t, day)
      \<lparr>ce_hash = h, ce_mtimeMs = st_mtimeMs s, ce_size = st_size s, ce_tailHex = st_tailHex s\<rparr> cache)"
    if "fresh_leaf blake3 br log t day = Inr h" for h s
    using assms that unfolding coherent_def by (auto simp: update_conv')
  show ?thesis
    using assms put coherentD [OF assms, of t day]
    by (auto simp: day_hash_def Let_def sbind_def split: option.splits sum.splits)
qed

lemma day_leaves_fresh:
  assumes "coherent blake3 br mtime log cache"
  shows "case day_leaves blake3 br mtime log t days cache of
      Inl e \<Rightarrow> fresh_leaves blake3 br log t days = Inl e
    | Inr (ls, cache') \<Rightarrow> fresh_leaves blake3 br log t days = Inr ls \<and> coherent blake3 br mtime log cache'"
  using assms
proof (induction days arbitrary: cache)
  case Nil
  then show ?case by simp
next
  case (Cons day days)
  show ?case
  proof (cases "day_hash blake3 br mtime log t day cache")
    case (Inl e)
    with day_hash_fresh [OF Cons.prems, of t day] show ?thesis by simp
  next
    case (Inr p)
    obtain h cache1 where p: "p = (h, cache1)" by (cases p)
    with Inr day_hash_fresh [OF Cons.prems, of t day]
    have h: "fresh_leaf blake3 br log t day = Inr h" and co: "coherent blake3 br mtime log cache1" by auto
    from Cons.IH [OF co] Inr p h show ?thesis
      by (cases "day_leaves blake3 br mtime log t days cache1") auto
  qed
qed

lemma type_leaves_fresh:
  assumes "coherent blake3 br mtime log cache"
  shows "case type_leaves blake3 br mtime log ts snap cache of
      Inl e \<Rightarrow> fresh_types blake3 br log ts snap = Inl e
    | Inr (snap', cache') \<Rightarrow> fresh_types blake3 br log ts snap = Inr snap' \<and> coherent blake3 br mtime log cache'"
  using assms
proof (induction ts arbitrary: snap cache)
  case Nil
  then show ?case by simp
next
  case (Cons t ts)
  show ?case
  proof (cases "day_leaves blake3 br mtime log t (listSegmentDays log t) cache")
    case (Inl e)
    with day_leaves_fresh [OF Cons.prems, of t "listSegmentDays log t"] show ?thesis by simp
  next
    case (Inr p)
    obtain ls cache1 where p: "p = (ls, cache1)" by (cases p)
    with Inr day_leaves_fresh [OF Cons.prems, of t "listSegmentDays log t"]
    have f: "fresh_leaves blake3 br log t (listSegmentDays log t) = Inr ls"
      and co: "coherent blake3 br mtime log cache1" by auto
    show ?thesis
    proof (cases "rootOf blake3 ls")
      case (Inl e)
      then show ?thesis using Inr p f by simp
    next
      case root: (Inr r)
      show ?thesis
        using Cons.IH [OF co, of "snap\<lparr>roots := (roots snap)(t := r), leaves := (leaves snap)(t := ls)\<rparr>"] Inr p f root
        by (auto split: sum.splits prod.splits)
    qed
  qed
qed

subsection \<open>What a leaf depends on\<close>

text \<open>The operations of a segment, as the summary sees them; none when it cannot be decoded.\<close>

definition seg_op_set :: "bridge \<Rightarrow> oplog \<Rightarrow> crdt_type \<Rightarrow> string \<Rightarrow> wire_op set" where
  "seg_op_set br log t day =
     (case seg_file log t day of
        None \<Rightarrow> {}
      | Some b \<Rightarrow> (case br_decodeSegment br b of None \<Rightarrow> {} | Some ops \<Rightarrow> set ops))"

definition op_key :: "wire_op \<Rightarrow> string" where
  "op_key op = (case compositeKeyHex op of Inr k \<Rightarrow> k | Inl _ \<Rightarrow> [])"

lemma compositeKeyHex_ok: "hlc_ok (wireHlc (w_hlc op)) \<Longrightarrow> compositeKeyHex op = Inr (op_key op)"
  using encodeHlc_ok [of "wireHlc (w_hlc op)"] by (simp add: compositeKeyHex_def op_key_def)

lemma segmentCompositeKeys_ok:
  assumes "\<forall>op \<in> seg_op_set br log t day. hlc_ok (wireHlc (w_hlc op))"
  shows "segmentCompositeKeys br log t day = Inr (sorted_list_of_set (op_key ` seg_op_set br log t day))"
proof (cases "\<exists>b ops. seg_file log t day = Some b \<and> br_decodeSegment br b = Some ops")
  case True
  then obtain b ops where b: "seg_file log t day = Some b" "br_decodeSegment br b = Some ops" by blast
  then have s: "seg_op_set br log t day = set ops" by (simp add: seg_op_set_def)
  have "smap compositeKeyHex ops = Inr (map op_key ops)"
    using assms s by (intro smap_Inr compositeKeyHex_ok) auto
  moreover have "sorted_list_of_set (set (fold set_add (map op_key ops) [])) = sort (fold set_add (map op_key ops) [])"
    unfolding sorted_list_of_set_sort_remdups by (simp add: distinct_remdups_id)
  then have "sort (fold set_add (map op_key ops) []) = sorted_list_of_set (op_key ` set ops)" by simp
  ultimately show ?thesis using b s by (simp add: segmentCompositeKeys_def)
next
  case False
  then have "seg_op_set br log t day = {}" "segmentCompositeKeys br log t day = Inr []"
    by (auto simp: seg_op_set_def segmentCompositeKeys_def split: option.splits)
  then show ?thesis by simp
qed

lemma even_op_key: "hlc_ok (wireHlc (w_hlc op)) \<Longrightarrow> length (op_key op) mod 2 = 0"
  using encodeHlc_ok [of "wireHlc (w_hlc op)"] by (simp add: op_key_def compositeKeyHex_def)

definition leaf_of_ops :: "(bytes \<Rightarrow> bytes) \<Rightarrow> wire_op set \<Rightarrow> string" where
  "leaf_of_ops blake3 ops =
     bytesToHex (blake3 (LEAF_TAG # concat (map hex_pairs (sorted_list_of_set (op_key ` ops)))))"

lemma finite_seg_op_set [simp]: "finite (seg_op_set br log t day)"
  by (simp add: seg_op_set_def split: option.splits)

lemma fresh_leaf_ok:
  assumes "\<forall>op \<in> seg_op_set br log t day. hlc_ok (wireHlc (w_hlc op))"
  shows "fresh_leaf blake3 br log t day = Inr (leaf_of_ops blake3 (seg_op_set br log t day))"
proof -
  let ?ks = "sorted_list_of_set (op_key ` seg_op_set br log t day)"
  have "smap hexToBytes ?ks = Inr (map hex_pairs ?ks)"
    using assms even_op_key by (intro smap_Inr) (auto simp: hexToBytes_def)
  then show ?thesis
    by (simp add: fresh_leaf_def segmentCompositeKeys_ok [OF assms] leafHash_def leaf_of_ops_def)
qed

lemma leaf_of_no_ops: "leaf_of_ops blake3 {} = EMPTY_LEAF_HEX blake3"
  by (simp add: leaf_of_ops_def EMPTY_LEAF_HEX_def)

definition keys_ok :: "bridge \<Rightarrow> oplog \<Rightarrow> bool" where
  "keys_ok br log \<longleftrightarrow> (\<forall>t day. \<forall>op \<in> seg_op_set br log t day. hlc_ok (wireHlc (w_hlc op)))"

lemma fresh_leaves_ok:
  assumes "keys_ok br log"
  shows "fresh_leaves blake3 br log t days = Inr (map (\<lambda>d. \<lparr>sl_path = d, sl_hash = leaf_of_ops blake3 (seg_op_set br log t d)\<rparr>)
    (filter (\<lambda>d. leaf_of_ops blake3 (seg_op_set br log t d) \<noteq> EMPTY_LEAF_HEX blake3) days))"
  using assms by (induction days) (simp_all add: fresh_leaf_ok keys_ok_def)

lemma listed_iff: "day \<in> set (listSegmentDays log t) \<longleftrightarrow> seg_file log t day \<noteq> None"
proof -
  have "day \<in> set (listSegmentDays log t) \<longleftrightarrow> day \<in> fst ` set (disk log t)" by (simp add: listSegmentDays_def)
  then show ?thesis unfolding seg_file_def by (simp add: map_of_eq_None_iff)
qed

lemma fresh_leaves_of_ops:
  assumes "keys_ok br log" "keys_ok br' log'" "\<forall>day. seg_op_set br log t day = seg_op_set br' log' t day"
    and "distinct (map fst (disk log t))" "distinct (map fst (disk log' t))"
  shows "fresh_leaves blake3 br log t (listSegmentDays log t) = fresh_leaves blake3 br' log' t (listSegmentDays log' t)"
proof -
  let ?h = "\<lambda>d. leaf_of_ops blake3 (seg_op_set br log t d)"
  let ?ne = "\<lambda>d. ?h d \<noteq> EMPTY_LEAF_HEX blake3"
  have listed: "d \<in> set (listSegmentDays log t) \<and> d \<in> set (listSegmentDays log' t)" if "?ne d" for d
  proof -
    have "seg_op_set br log t d \<noteq> {}" using that leaf_of_no_ops [of blake3] by auto
    moreover from this have "seg_op_set br' log' t d \<noteq> {}" using assms(3) by simp
    ultimately show ?thesis unfolding listed_iff by (auto simp: seg_op_set_def split: option.splits)
  qed
  have "filter ?ne (listSegmentDays log t) = filter ?ne (listSegmentDays log' t)"
  proof (rule sorted_distinct_set_unique)
    show "set (filter ?ne (listSegmentDays log t)) = set (filter ?ne (listSegmentDays log' t))"
      using listed by auto
  qed (use assms(4,5) in \<open>simp_all add: listSegmentDays_def sorted_wrt_filter\<close>)
  then show ?thesis using assms(3) by (simp add: fresh_leaves_ok [OF assms(1)] fresh_leaves_ok [OF assms(2)])
qed

lemma fresh_types_of_ops:
  assumes "keys_ok br log" "keys_ok br' log'" "\<forall>t day. seg_op_set br log t day = seg_op_set br' log' t day"
    and "\<forall>t. distinct (map fst (disk log t)) \<and> distinct (map fst (disk log' t))"
  shows "fresh_types blake3 br log ts snap = fresh_types blake3 br' log' ts snap"
proof (induction ts arbitrary: snap)
  case Nil
  then show ?case by simp
next
  case (Cons t ts)
  have "fresh_leaves blake3 br log t (listSegmentDays log t) = fresh_leaves blake3 br' log' t (listSegmentDays log' t)"
    using assms by (intro fresh_leaves_of_ops) auto
  with Cons show ?case by simp
qed

lemma rootOf_ok: "\<forall>l \<in> set ls. \<exists>b. sl_hash l = bytesToHex b \<Longrightarrow> \<exists>r. rootOf blake3 ls = Inr r"
proof -
  assume "\<forall>l \<in> set ls. \<exists>b. sl_hash l = bytesToHex b"
  then have "smap hexToBytes (sort (map sl_hash ls)) = Inr (map hex_pairs (sort (map sl_hash ls)))"
    by (intro smap_Inr) (auto simp: hexToBytes_def)
  then show ?thesis by (simp add: rootOf_def)
qed

lemma fresh_types_ok:
  assumes "keys_ok br log"
  shows "\<exists>snap'. fresh_types blake3 br log ts snap = Inr snap'"
proof (induction ts arbitrary: snap)
  case Nil
  then show ?case by simp
next
  case (Cons t ts)
  obtain ls where ls: "fresh_leaves blake3 br log t (listSegmentDays log t) = Inr ls"
    "\<forall>l \<in> set ls. \<exists>b. sl_hash l = bytesToHex b"
    using fresh_leaves_ok [OF assms, of blake3 t "listSegmentDays log t"] by (auto simp: leaf_of_ops_def)
  from rootOf_ok [OF ls(2)] obtain r where "rootOf blake3 ls = Inr r" by blast
  with ls Cons show ?case by simp
qed

text \<open>With encodable keys, summarising never throws.\<close>

lemma computeMerkle_ok:
  assumes "keys_ok br log" "coherent blake3 br mtime log (loadCache cf)"
  shows "\<exists>snap c. computeMerkle blake3 br mtime log cf = Inr (snap, c)"
  using type_leaves_fresh [OF assms(2), of TYPES "\<lparr>roots = (\<lambda>_. []), leaves = (\<lambda>_. [])\<rparr>"]
    fresh_types_ok [OF assms(1), of blake3 TYPES "\<lparr>roots = (\<lambda>_. []), leaves = (\<lambda>_. [])\<rparr>"]
  by (auto simp: computeMerkle_def Let_def sbind_def split: sum.splits prod.splits)

lemma coherent_Nil: "coherent blake3 br mtime log []"
  by (simp add: coherent_def)

subsection \<open>Comparing snapshots\<close>

lemma by_path_distinct: "distinct (map fst (by_path ls))"
proof -
  have "distinct (map fst m) \<Longrightarrow> distinct (map fst (foldl (\<lambda>m l. AList.update (sl_path l) (sl_hash l) m) m ls))" for m
    by (induction ls arbitrary: m) (auto simp: distinct_update)
  then show ?thesis by (simp add: by_path_def)
qed

lemma by_path_set:
  assumes "distinct (map sl_path ls)"
  shows "set (by_path ls) = (\<lambda>l. (sl_path l, sl_hash l)) ` set ls"
proof -
  have "distinct (map sl_path ls) \<Longrightarrow> fst ` set m \<inter> sl_path ` set ls = {} \<Longrightarrow>
      set (foldl (\<lambda>m l. AList.update (sl_path l) (sl_hash l) m) m ls) = set m \<union> (\<lambda>l. (sl_path l, sl_hash l)) ` set ls" for m
  proof (induction ls arbitrary: m)
    case Nil
    then show ?case by simp
  next
    case (Cons l ls)
    have "AList.update (sl_path l) (sl_hash l) m = m @ [(sl_path l, sl_hash l)]"
      using Cons.prems(2) by (intro update_new) auto
    with Cons show ?case by auto
  qed
  from this [OF assms, of "[]"] show ?thesis by (simp add: by_path_def)
qed

lemma in_all_types:
  "(t, p, h) \<in> set (concat (map (\<lambda>t. map (\<lambda>(p, h). (t, p, h)) (f t)) TYPES)) \<longleftrightarrow> (p, h) \<in> set (f t)"
  by (force simp: image_iff)

definition leaf_pairs :: "segment_leaf list \<Rightarrow> (string \<times> string) set" where
  "leaf_pairs ls = (\<lambda>l. (sl_path l, sl_hash l)) ` set ls"

lemma diff_iff:
  assumes "\<forall>t. distinct (map sl_path (leaves ours t)) \<and> distinct (map sl_path (leaves theirs t))"
  shows "(t, p, h) \<in> set (md_pull (diffSnapshots ours theirs)) \<longleftrightarrow>
      (p, h) \<in> leaf_pairs (leaves theirs t) \<and> (p, h) \<notin> leaf_pairs (leaves ours t)"
    "(t, p, h) \<in> set (md_push (diffSnapshots ours theirs)) \<longleftrightarrow>
      (p, h) \<in> leaf_pairs (leaves ours t) \<and> p \<notin> fst ` leaf_pairs (leaves theirs t)"
proof -
  have s: "set (by_path (leaves x t)) = leaf_pairs (leaves x t)" if "x \<in> {ours, theirs}" for x
    using that assms by (auto simp: leaf_pairs_def by_path_set)
  have "map_of (by_path (leaves ours t)) p \<noteq> Some h \<longleftrightarrow> (p, h) \<notin> leaf_pairs (leaves ours t)"
    using by_path_distinct [of "leaves ours t"] s [of ours] by (simp add: map_of_eq_Some_iff)
  then show "(t, p, h) \<in> set (md_pull (diffSnapshots ours theirs)) \<longleftrightarrow>
      (p, h) \<in> leaf_pairs (leaves theirs t) \<and> (p, h) \<notin> leaf_pairs (leaves ours t)"
    using s [of theirs] by (simp only: diffSnapshots_def merkle_diff.select_convs in_all_types) auto
  show "(t, p, h) \<in> set (md_push (diffSnapshots ours theirs)) \<longleftrightarrow>
      (p, h) \<in> leaf_pairs (leaves ours t) \<and> p \<notin> fst ` leaf_pairs (leaves theirs t)"
    using s [of ours] s [of theirs] by (simp only: diffSnapshots_def merkle_diff.select_convs in_all_types) auto
qed

lemma equal_roots:
  assumes "map sl_hash ls = map (leaf_hex blake3) ks" "map sl_hash ls' = map (leaf_hex blake3) ks'"
    and "\<forall>x. length (blake3 x) = 32"
    and "inj_on blake3 (hashed blake3 ks \<union> hashed blake3 ks')"
    and "rootOf blake3 ls = rootOf blake3 ls'"
  shows "mset ks = mset ks' \<and> mset (map sl_hash ls) = mset (map sl_hash ls')"
proof -
  have o: "out_32 blake3" using assms(3) by (simp add: out_32_def)
  have root_in: "\<exists>t. rootOf blake3 l = Inr (bytesToHex (th blake3 t)) \<and> tleaves t = mset k \<and> tin blake3 t \<subseteq> hashed blake3 k"
    if "map sl_hash l = map (leaf_hex blake3) k" "l \<noteq> []" for l k
    using rootOf_tree [OF that] .
  have not_empty: "th blake3 t \<noteq> blake3 [NODE_TAG]" if "insert [NODE_TAG] (tin blake3 t) \<subseteq> hashed blake3 ks \<union> hashed blake3 ks'" for t
  proof
    assume eq: "th blake3 t = blake3 [NODE_TAG]"
    obtain x where x: "x \<in> tin blake3 t" "th blake3 t = blake3 x" "x \<noteq> [NODE_TAG]"
    proof (cases t)
      case (HLeaf k)
      then show ?thesis using that [of "LEAF_TAG # k"] by simp
    next
      case (HNode s u)
      have "min (th blake3 s) (th blake3 u) @ max (th blake3 s) (th blake3 u) \<noteq> []"
        using length_th [OF o, of s] length_th [OF o, of u] by (auto simp: min_def)
      then show ?thesis using that [of "NODE_TAG # min (th blake3 s) (th blake3 u) @ max (th blake3 s) (th blake3 u)"] HNode
        by (simp add: combine_min_max)
    qed
    have "x = [NODE_TAG]" by (rule inj_onD [OF assms(4)]) (use x eq that in auto)
    with x(3) show False by simp
  qed
  have e: "[NODE_TAG] \<in> hashed blake3 k" for k by (simp add: hashed_def)
  show ?thesis
  proof (cases "ls = [] \<or> ls' = []")
    case True
    have "ls = [] \<and> ls' = []"
    proof (rule ccontr)
      assume "\<not> (ls = [] \<and> ls' = [])"
      with True consider "ls = []" "ls' \<noteq> []" | "ls' = []" "ls \<noteq> []" by blast
      then show False
      proof cases
        case 1
        with root_in [OF assms(2)] obtain t where "rootOf blake3 ls' = Inr (bytesToHex (th blake3 t))" "tin blake3 t \<subseteq> hashed blake3 ks'" by blast
        with assms(5) 1 not_empty [of t] e [of ks'] show False by (auto simp: rootOf_def EMPTY_ROOT_HEX_def)
      next
        case 2
        with root_in [OF assms(1)] obtain t where "rootOf blake3 ls = Inr (bytesToHex (th blake3 t))" "tin blake3 t \<subseteq> hashed blake3 ks" by blast
        with assms(5) 2 not_empty [of t] e [of ks] show False by (auto simp: rootOf_def EMPTY_ROOT_HEX_def)
      qed
    qed
    with assms(1,2) show ?thesis by simp
  next
    case False
    obtain t where t: "rootOf blake3 ls = Inr (bytesToHex (th blake3 t))" "tleaves t = mset ks" "tin blake3 t \<subseteq> hashed blake3 ks"
      using root_in [OF assms(1)] False by blast
    obtain u where u: "rootOf blake3 ls' = Inr (bytesToHex (th blake3 u))" "tleaves u = mset ks'" "tin blake3 u \<subseteq> hashed blake3 ks'"
      using root_in [OF assms(2)] False by blast
    have "inj_on blake3 (tin blake3 t \<union> tin blake3 u)"
      by (rule inj_on_subset [OF assms(4)]) (use t(3) u(3) in blast)
    moreover have "th blake3 t = th blake3 u" using assms(5) t(1) u(1) by simp
    ultimately have "mset ks = mset ks'" using th_inject [OF o] t(2) u(2) by metis
    then show ?thesis unfolding assms(1,2) by simp
  qed
qed

subsection \<open>Properties\<close>

text \<open>C15: Replicas with the same operations agree on their summary: when two logs hold, for every
  type and day, the same set of operations (in whatever order, batching or repetition, and
  whatever empty or undecodable segments they also have), they compute the same leaves and
  roots, from scratch or through any truthful cache.\<close>

theorem same_ops_same_roots:
  assumes "\<forall>t day. seg_op_set br log t day = seg_op_set br' log' t day"
    and "keys_ok br log" "keys_ok br' log'"
    and "\<forall>t. distinct (map fst (disk log t)) \<and> distinct (map fst (disk log' t))"
    and "coherent blake3 br mtime log (loadCache cf)" "coherent blake3 br' mtime' log' (loadCache cf')"
    and "computeMerkle blake3 br mtime log cf = Inr (snap, c)"
    and "computeMerkle blake3 br' mtime' log' cf' = Inr (snap', c')"
  shows "snap = snap'"
  using type_leaves_fresh [OF assms(5), of TYPES "\<lparr>roots = (\<lambda>_. []), leaves = (\<lambda>_. [])\<rparr>"]
    type_leaves_fresh [OF assms(6), of TYPES "\<lparr>roots = (\<lambda>_. []), leaves = (\<lambda>_. [])\<rparr>"] assms(7,8)
    fresh_types_of_ops [OF assms(2,3,1,4), of blake3 TYPES "\<lparr>roots = (\<lambda>_. []), leaves = (\<lambda>_. [])\<rparr>"]
  by (auto simp: computeMerkle_def Let_def sbind_eq_Inr_iff)

lemma sample_keys_ok: "keys_ok sample_bridge (sample_log [1, 9])"
  by (auto simp: keys_ok_def seg_op_set_def seg_file_def sample_log_def oplog_new_def sample_bridge_def
      sample_wire_op_def wireHlc_def hlc_ok_def size_defs split: if_splits)

theorem same_ops_same_roots_witness:
  "\<exists>snap c c'. computeMerkle (\<lambda>x. x) sample_bridge (\<lambda>_ _. 0) (sample_log [1, 9]) None = Inr (snap, c)
     \<and> computeMerkle (\<lambda>x. x) sample_bridge (\<lambda>_ _. 5) (sample_log [1, 9]) None = Inr (snap, c')"
proof -
  let ?log = "sample_log [1, 9]"
  have co: "coherent (\<lambda>x. x) sample_bridge m ?log (loadCache None)" for m
    by (simp add: loadCache_def coherent_Nil)
  obtain snap c where a: "computeMerkle (\<lambda>x. x) sample_bridge (\<lambda>_ _. 0) ?log None = Inr (snap, c)"
    using computeMerkle_ok [OF sample_keys_ok co] by blast
  obtain snap' c' where b: "computeMerkle (\<lambda>x. x) sample_bridge (\<lambda>_ _. 5) ?log None = Inr (snap', c')"
    using computeMerkle_ok [OF sample_keys_ok co] by blast
  have "snap = snap'"
    by (rule same_ops_same_roots [OF _ sample_keys_ok sample_keys_ok _ co co a b])
      (simp_all add: sample_log_def oplog_new_def)
  with a b show ?thesis by blast
qed

text \<open>Equal roots mean equal leaves: when the roots of two lists of leaves agree, then the
  leaves have the same hashes, with the same multiplicities, unless the hash function
  collides on the finitely many inputs that were hashed to compute the two roots. A leaf is
  never mistaken for an inner node, and a promoted odd node never for a duplicated one.\<close>

theorem root_binds_leaves:
  assumes "map sl_hash ls = map (leaf_hex blake3) ks" "map sl_hash ls' = map (leaf_hex blake3) ks'"
    and "\<forall>x. length (blake3 x) = 32"
    and "inj_on blake3 (hashed blake3 ks \<union> hashed blake3 ks')"
    and "rootOf blake3 ls = rootOf blake3 ls'"
  shows "mset ks = mset ks' \<and> mset (map sl_hash ls) = mset (map sl_hash ls')"
  using equal_roots [OF assms] .

theorem root_binds_leaves_witness:
  "mset [[5 :: byte]] = mset [[5 :: byte]] \<and> mset (map sl_hash [\<lparr>sl_path = ''a'',
     sl_hash = leaf_hex (\<lambda>x. take 32 (x @ replicate 32 0)) [5]\<rparr>]) = mset (map sl_hash [\<lparr>sl_path = ''b'',
     sl_hash = leaf_hex (\<lambda>x. take 32 (x @ replicate 32 0)) [5]\<rparr>])"
proof -
  let ?h = "\<lambda>x :: bytes. take 32 (x @ replicate 32 0)"
  have "loop_inputs ?h [x] = []" for x by (subst loop_inputs.simps) simp
  then have "hashed ?h [[5]] = {[NODE_TAG], [LEAF_TAG, 5]}" by (simp add: hashed_def insert_commute)
  then have "inj_on ?h (hashed ?h [[5]] \<union> hashed ?h [[5]])" by (simp add: NODE_TAG_def LEAF_TAG_def)
  moreover have "\<forall>x. length (?h x) = 32" by (auto simp: min_def)
  ultimately show ?thesis
    by (intro root_binds_leaves [of _ ?h]) (simp_all only: rootOf_def list.map segment_leaf.simps list.distinct if_False simp_thms)
qed

text \<open>A stale cache cannot change the summary: with a cache whose matching entries are
  truthful, \<open>computeMerkle\<close> returns exactly the snapshot (or the exception) of a computation
  without cache, and the cache it leaves is truthful again.\<close>

theorem cache_transparent:
  assumes "coherent blake3 br mtime log (loadCache cf)"
  shows "case computeMerkle blake3 br mtime log cf of
      Inl e \<Rightarrow> fresh_snapshot blake3 br log = Inl e
    | Inr (snap, cf') \<Rightarrow> fresh_snapshot blake3 br log = Inr snap \<and> coherent blake3 br mtime log (loadCache cf')"
  using type_leaves_fresh [OF assms, of TYPES "\<lparr>roots = (\<lambda>_. []), leaves = (\<lambda>_. [])\<rparr>"] assms
  by (auto simp: computeMerkle_def Let_def sbind_def fresh_snapshot_def loadCache_def split: sum.splits prod.splits)

theorem cache_transparent_witness:
  "case computeMerkle (\<lambda>x. x) sample_bridge (\<lambda>_ _. 0) (sample_log [1, 9]) None of
      Inl e \<Rightarrow> fresh_snapshot (\<lambda>x. x) sample_bridge (sample_log [1, 9]) = Inl e
    | Inr (snap, cf') \<Rightarrow> fresh_snapshot (\<lambda>x. x) sample_bridge (sample_log [1, 9]) = Inr snap
        \<and> coherent (\<lambda>x. x) sample_bridge (\<lambda>_ _. 0) (sample_log [1, 9]) (loadCache cf')"
  by (rule cache_transparent) (simp add: loadCache_def coherent_Nil)

text \<open>A diff asks for exactly the segments the peer has and we lack or have differently, and
  offers exactly those of days the peer lacks; it is empty only when the peers hold the same
  leaves.\<close>

theorem diff_exact:
  assumes "\<forall>t. distinct (map sl_path (leaves ours t)) \<and> distinct (map sl_path (leaves theirs t))"
  shows "((t, p, h) \<in> set (md_pull (diffSnapshots ours theirs)) \<longleftrightarrow>
        (p, h) \<in> leaf_pairs (leaves theirs t) \<and> (p, h) \<notin> leaf_pairs (leaves ours t))
    \<and> ((t, p, h) \<in> set (md_push (diffSnapshots ours theirs)) \<longleftrightarrow>
        (p, h) \<in> leaf_pairs (leaves ours t) \<and> p \<notin> fst ` leaf_pairs (leaves theirs t))
    \<and> (md_pull (diffSnapshots ours theirs) = [] \<and> md_push (diffSnapshots ours theirs) = [] \<longrightarrow>
        leaf_pairs (leaves ours t) = leaf_pairs (leaves theirs t))"
proof (intro conjI impI)
  note d = diff_iff [OF assms]
  show "(t, p, h) \<in> set (md_pull (diffSnapshots ours theirs)) \<longleftrightarrow>
      (p, h) \<in> leaf_pairs (leaves theirs t) \<and> (p, h) \<notin> leaf_pairs (leaves ours t)" by (rule d)
  show "(t, p, h) \<in> set (md_push (diffSnapshots ours theirs)) \<longleftrightarrow>
      (p, h) \<in> leaf_pairs (leaves ours t) \<and> p \<notin> fst ` leaf_pairs (leaves theirs t)" by (rule d)
  assume "md_pull (diffSnapshots ours theirs) = [] \<and> md_push (diffSnapshots ours theirs) = []"
  then have pull: "leaf_pairs (leaves theirs t) \<subseteq> leaf_pairs (leaves ours t)"
    and push: "fst ` leaf_pairs (leaves ours t) \<subseteq> fst ` leaf_pairs (leaves theirs t)"
    using d [of t] by auto
  have "inj_on fst (leaf_pairs (leaves ours t))"
  proof (rule inj_onI)
    have i: "inj_on sl_path (set (leaves ours t))" using assms by (simp add: distinct_map)
    show "x = y" if "x \<in> leaf_pairs (leaves ours t)" "y \<in> leaf_pairs (leaves ours t)" "fst x = fst y" for x y
      using that i by (auto simp: leaf_pairs_def dest: inj_onD)
  qed
  with pull push show "leaf_pairs (leaves ours t) = leaf_pairs (leaves theirs t)"
    by (metis image_mono inj_on_image_eq_iff order_refl subset_antisym)
qed

theorem diff_exact_witness:
  "(GSET, ''b'', ''3'') \<in> set (md_pull (diffSnapshots
      \<lparr>roots = (\<lambda>_. []), leaves = (\<lambda>_. [\<lparr>sl_path = ''a'', sl_hash = ''1''\<rparr>])\<rparr>
      \<lparr>roots = (\<lambda>_. []), leaves = (\<lambda>_. [\<lparr>sl_path = ''a'', sl_hash = ''2''\<rparr>, \<lparr>sl_path = ''b'', sl_hash = ''3''\<rparr>])\<rparr>))"
  using diff_exact [of "\<lparr>roots = (\<lambda>_. []), leaves = (\<lambda>_. [\<lparr>sl_path = ''a'', sl_hash = ''1''\<rparr>])\<rparr>"
    "\<lparr>roots = (\<lambda>_. []), leaves = (\<lambda>_. [\<lparr>sl_path = ''a'', sl_hash = ''2''\<rparr>, \<lparr>sl_path = ''b'', sl_hash = ''3''\<rparr>])\<rparr>"
    GSET "''b''" "''3''"]
  by (simp add: leaf_pairs_def)

end
