(* ===== verification/CrdtState.thy ===== *)
theory CrdtState
  imports Oplog
begin

text \<open>
  The replicated state of one daemon, \<open>src/daemon/src/crdt/state.ts\<close>: the three in-memory
  CRDTs, the op log, the clock and the listeners of live sync. \<open>parse\<close> and \<open>stringify\<close> are
  the JSON text of a claim payload, \<open>blake3\<close> the content hash, \<open>now\<close> the reading of the wall
  clock in the call. Shown here: replicas that applied the same operations agree on every
  observable, and what the local write path leaves in memory is what the next start reads
  back from disk.
\<close>

type_synonym lww_registry = "(string \<times> string lww_state) list"

type_synonym emission = "nat \<times> crdt_type \<times> wire_op list"

record crdt_state =
  cs_writer :: writer_id
  clock :: hlc_gen
  cs_oplog :: oplog
  lww :: lww_registry
  gset :: gset_state
  cs_orset :: orset
  opsListeners :: "nat list"
  emitted :: "emission list"

datatype crdt_error = AppendFailed append_error | WireFailed wire_error | HlcFailed hlc_error | LwwFailed lww_error

definition crdt_new :: "writer_id \<Rightarrow> oplog \<Rightarrow> crdt_state" where
  "crdt_new w log = \<lparr>cs_writer = w, clock = hlc_gen_new None None, cs_oplog = log, lww = [], gset = [],
     cs_orset = orset_empty, opsListeners = [], emitted = []\<rparr>"

subsection \<open>Incoming operations\<close>

definition observe_clock :: "int \<Rightarrow> hlc \<Rightarrow> crdt_state \<Rightarrow> crdt_state" where
  "observe_clock now h st = st\<lparr>clock := snd (snd (observe now h (clock st)))\<rparr>"

definition lww_set :: "string lww_op \<Rightarrow> lww_registry \<Rightarrow> lww_error + lww_registry" where
  "lww_set op reg =
     sbind (applyLww (map_of reg (lo_entityId op)) op) (\<lambda>s. Inr (AList.update (lo_entityId op) s reg))"

text \<open>An exception anywhere is caught and the operation skipped.\<close>

definition applyWireOpInMemory ::
    "(string \<Rightarrow> claim_payload option) \<Rightarrow> int \<Rightarrow> wire_op \<Rightarrow> crdt_state \<Rightarrow> bool \<times> crdt_state" where
  "applyWireOpInMemory parse now w st =
     (case wireOpToGset w of
        Some op \<Rightarrow>
          (case gset_apply op (gset st) of
             Inl _ \<Rightarrow> (False, st)
           | Inr g \<Rightarrow> (True, observe_clock now (g_hlc op) (st\<lparr>gset := g\<rparr>)))
      | None \<Rightarrow>
          (case wireOpToLww w of
             Some op \<Rightarrow>
               (case lww_set op (lww st) of
                  Inl _ \<Rightarrow> (False, st)
                | Inr r \<Rightarrow> (True, observe_clock now (lo_hlc op) (st\<lparr>lww := r\<rparr>)))
           | None \<Rightarrow>
               (case wireOpToOr parse w of
                  None \<Rightarrow> (False, st)
                | Some op \<Rightarrow>
                    (case orset_apply op (cs_orset st) of
                       Inl _ \<Rightarrow> (False, st)
                     | Inr s \<Rightarrow> (True, observe_clock now (case op of OrAdd a \<Rightarrow> oa_hlc a | OrRemove r \<Rightarrow> or_hlc r)
                                         (st\<lparr>cs_orset := s\<rparr>))))))"

fun apply_all :: "(string \<Rightarrow> claim_payload option) \<Rightarrow> int \<Rightarrow> wire_op list \<Rightarrow> nat \<times> crdt_state \<Rightarrow> nat \<times> crdt_state" where
  "apply_all parse now [] acc = acc"
| "apply_all parse now (w # ws) (n, st) =
     (let (ok, st') = applyWireOpInMemory parse now w st
      in apply_all parse now ws (if ok then Suc n else n, st'))"

text \<open>One pass of \<open>hydrate\<close> over a type: the operations read before an exception are applied.\<close>

definition hydrate_type ::
    "bridge \<Rightarrow> (string \<Rightarrow> claim_payload option) \<Rightarrow> int \<Rightarrow> crdt_type \<Rightarrow> crdt_state
     \<Rightarrow> varint_error option \<times> nat \<times> crdt_state" where
  "hydrate_type br parse now t st =
     (case oplog_hydrate br t (cs_oplog st) of
        (ops, r, log) \<Rightarrow> let (n, st') = apply_all parse now ops (0, st\<lparr>cs_oplog := log\<rparr>) in (r, n, st'))"

definition hydrate ::
    "bridge \<Rightarrow> (string \<Rightarrow> claim_payload option) \<Rightarrow> int \<Rightarrow> crdt_state \<Rightarrow> (varint_error + (crdt_type \<Rightarrow> nat)) \<times> crdt_state" where
  "hydrate br parse now st =
     (case hydrate_type br parse now GSET st of
        (Some e, _, st1) \<Rightarrow> (Inl e, st1)
      | (None, ng, st1) \<Rightarrow>
          (case hydrate_type br parse now ORSET st1 of
             (Some e, _, st2) \<Rightarrow> (Inl e, st2)
           | (None, no, st2) \<Rightarrow>
               (case hydrate_type br parse now LWW st2 of
                  (Some e, _, st3) \<Rightarrow> (Inl e, st3)
                | (None, nl, st3) \<Rightarrow>
                    let counts = (\<lambda>t. case t of GSET \<Rightarrow> ng | ORSET \<Rightarrow> no | LWW \<Rightarrow> nl);
                        log = cs_oplog st3;
                        report = addOpCountViolations (inspectRetention (segmentSizes log) (ol_limits log))
                                   (\<lambda>t. int (counts t)) (ol_limits log)
                    in (Inr counts,
                        st3\<lparr>cs_oplog := log\<lparr>stderr := stderr log @ map LimitExceeded (fst (warnRetention report))\<rparr>\<rparr>))))"

subsection \<open>Listeners\<close>

text \<open>\<open>onOps\<close> with its listener, and the function it returns.\<close>

definition onOps :: "nat \<Rightarrow> crdt_state \<Rightarrow> crdt_state" where
  "onOps l st = st\<lparr>opsListeners := set_add l (opsListeners st)\<rparr>"

definition offOps :: "nat \<Rightarrow> crdt_state \<Rightarrow> crdt_state" where
  "offOps l st = st\<lparr>opsListeners := remove1 l (opsListeners st)\<rparr>"

definition emitOps :: "crdt_type \<Rightarrow> wire_op list \<Rightarrow> crdt_state \<Rightarrow> crdt_state" where
  "emitOps t ops st = st\<lparr>emitted := emitted st @ map (\<lambda>l. (l, t, ops)) (opsListeners st)\<rparr>"

subsection \<open>Local writes\<close>

type_synonym 'a outcome = "(crdt_error + 'a) \<times> crdt_state"

text \<open>The append comes first; what follows runs only if it did not throw.\<close>

definition with_append ::
    "bridge \<Rightarrow> int \<Rightarrow> crdt_type \<Rightarrow> wire_op \<Rightarrow> (crdt_state \<Rightarrow> 'a outcome) \<Rightarrow> crdt_state \<Rightarrow> 'a outcome" where
  "with_append br now t w k st =
     (case appendOps br now t [w] (cs_oplog st) of
        (Inl e, log) \<Rightarrow> (Inl (AppendFailed e), st\<lparr>cs_oplog := log\<rparr>)
      | (Inr _, log) \<Rightarrow> k (st\<lparr>cs_oplog := log\<rparr>))"

definition cs_observe :: "bridge \<Rightarrow> int \<Rightarrow> gset_op \<Rightarrow> crdt_state \<Rightarrow> unit outcome" where
  "cs_observe br now op =
     with_append br now GSET (gsetToWire op) (\<lambda>st.
       case gset_apply op (gset st) of
         Inl e \<Rightarrow> (Inl (HlcFailed e), st)
       | Inr g \<Rightarrow> (Inr (), emitOps GSET [gsetToWire op] (st\<lparr>gset := g\<rparr>)))"

definition cs_applyOr :: "bridge \<Rightarrow> (claim_payload \<Rightarrow> string) \<Rightarrow> int \<Rightarrow> or_op \<Rightarrow> crdt_state \<Rightarrow> unit outcome" where
  "cs_applyOr br stringify now op st =
     (case orToWire stringify op of
        Inl e \<Rightarrow> (Inl (WireFailed e), st)
      | Inr w \<Rightarrow>
          with_append br now ORSET w (\<lambda>st.
            case orset_apply op (cs_orset st) of
              Inl e \<Rightarrow> (Inl (HlcFailed e), st)
            | Inr s \<Rightarrow> (Inr (), emitOps ORSET [w] (st\<lparr>cs_orset := s\<rparr>))) st)"

definition cs_tick :: "int \<Rightarrow> crdt_state \<Rightarrow> hlc \<times> crdt_state" where
  "cs_tick now st = (let (h, g) = tick now (clock st) in (h, st\<lparr>clock := g\<rparr>))"

definition cs_recordLww ::
    "bridge \<Rightarrow> (bytes \<Rightarrow> bytes) \<Rightarrow> int \<Rightarrow> string \<Rightarrow> string \<Rightarrow> hlc option \<Rightarrow> crdt_state \<Rightarrow> string lww_state outcome" where
  "cs_recordLww br blake3 now entityId v h0 st =
     (let (h, st1) = (case h0 of Some h \<Rightarrow> (h, st) | None \<Rightarrow> cs_tick now st);
          op = makeLwwOp blake3 entityId v h (cs_writer st1);
          w = lwwToWire op
      in with_append br now LWW w (\<lambda>st.
           case applyLww (map_of (lww st) entityId) op of
             Inl e \<Rightarrow> (Inl (LwwFailed e), st)
           | Inr next \<Rightarrow> (Inr next, emitOps LWW [w] (st\<lparr>lww := AList.update entityId next (lww st)\<rparr>))) st1)"

definition cs_decodeBatch :: "bridge \<Rightarrow> bytes \<Rightarrow> wire_op list option" where
  "cs_decodeBatch br b = decodeBatch br b"

definition cs_close :: "crdt_state \<Rightarrow> crdt_state" where
  "cs_close st = st\<lparr>cs_oplog := oplog_close (cs_oplog st)\<rparr>"

subsection \<open>Replicas converge\<close>

text \<open>The register bank: keys are distinct and every state sits under its entity.\<close>

definition lww_inv :: "lww_registry \<Rightarrow> bool" where
  "lww_inv reg \<longleftrightarrow> distinct (map fst reg) \<and> (\<forall>(k, s) \<in> set reg. ls_entityId s = k \<and> writer_ok (ls_writer s))"

definition lww_receive :: "string lww_op \<Rightarrow> lww_registry \<Rightarrow> lww_registry" where
  "lww_receive op reg = (case lww_set op reg of Inr r \<Rightarrow> r | Inl _ \<Rightarrow> reg)"

definition lww_op_compat :: "string lww_op \<Rightarrow> string lww_op \<Rightarrow> bool" where
  "lww_op_compat a b = lww_compat (opToState a) (opToState b)"

lemma lww_inv_lookup:
  "lww_inv reg \<Longrightarrow> map_of reg k = Some p \<Longrightarrow> ls_entityId p = k \<and> writer_ok (ls_writer p)"
  by (auto simp: lww_inv_def dest!: map_of_SomeD)

lemma lww_set_ok:
  assumes "lww_inv reg" "writer_ok (lo_writer op)"
  shows "\<exists>s. lww_set op reg = Inr (AList.update (lo_entityId op) s reg)
    \<and> lww_step op (map_of reg) = (map_of reg)(lo_entityId op \<mapsto> s)
    \<and> ls_entityId s = lo_entityId op \<and> writer_ok (ls_writer s)"
proof -
  let ?s = "case map_of reg (lo_entityId op) of None \<Rightarrow> opToState op
    | Some p \<Rightarrow> if ver p < ver (opToState op) then opToState op else p"
  have "applyLww (map_of reg (lo_entityId op)) op = Inr ?s"
    by (rule applyLww_ok [OF assms(2)]) (rule lww_inv_lookup [OF assms(1)])
  moreover have "ls_entityId ?s = lo_entityId op \<and> writer_ok (ls_writer ?s)"
    using assms(2) lww_inv_lookup [OF assms(1), of "lo_entityId op"] by (auto split: option.splits)
  ultimately show ?thesis by (auto simp: lww_set_def lww_step_def)
qed

lemma lww_receive_ok:
  assumes "lww_inv reg" "writer_ok (lo_writer op)"
  shows "map_of (lww_receive op reg) = lww_step op (map_of reg)" "lww_inv (lww_receive op reg)"
proof -
  obtain s where s: "lww_set op reg = Inr (AList.update (lo_entityId op) s reg)"
    "lww_step op (map_of reg) = (map_of reg)(lo_entityId op \<mapsto> s)"
    "ls_entityId s = lo_entityId op" "writer_ok (ls_writer s)"
    using lww_set_ok [OF assms] by blast
  show "map_of (lww_receive op reg) = lww_step op (map_of reg)"
    using s by (simp add: lww_receive_def update_conv')
  have "\<forall>(k, v) \<in> set (AList.update (lo_entityId op) s reg). ls_entityId v = k \<and> writer_ok (ls_writer v)"
    using set_update_subset [of "lo_entityId op" s reg] s(3,4) assms(1) unfolding lww_inv_def by blast
  then show "lww_inv (lww_receive op reg)"
    using s assms(1) by (simp add: lww_receive_def lww_inv_def distinct_update)
qed

interpretation lww_replica: convergent lww_receive lww_step map_of "\<lambda>op. writer_ok (lo_writer op)" lww_inv lww_op_compat
  by unfold_locales
    (auto simp: lww_op_compat_def lww_step_idem lww_receive_ok intro: lww_step_commute)

text \<open>The three states of a replica, seen abstractly, and the step of a wire operation on them.\<close>

type_synonym replica_view = "(string \<rightharpoonup> string lww_state) \<times> (string \<rightharpoonup> gset_op) \<times> or_view"

definition replica_view :: "crdt_state \<Rightarrow> replica_view" where
  "replica_view st = (map_of (lww st), map_of (gset st), orset_view (cs_orset st))"

definition replica_inv :: "crdt_state \<Rightarrow> bool" where
  "replica_inv st \<longleftrightarrow> lww_inv (lww st) \<and> gset_inv (gset st) \<and> orset_inv (cs_orset st)"

definition wire_step :: "(string \<Rightarrow> claim_payload option) \<Rightarrow> wire_op \<Rightarrow> replica_view \<Rightarrow> replica_view" where
  "wire_step parse w v =
     (case wireOpToGset w of
        Some op \<Rightarrow> (fst v, gset_step op (fst (snd v)), snd (snd v))
      | None \<Rightarrow>
          (case wireOpToLww w of
             Some op \<Rightarrow> (lww_step op (fst v), snd v)
           | None \<Rightarrow>
               (case wireOpToOr parse w of
                  None \<Rightarrow> v
                | Some op \<Rightarrow> (fst v, fst (snd v), orset_step op (snd (snd v))))))"

definition wire_ok :: "wire_op \<Rightarrow> bool" where
  "wire_ok w \<longleftrightarrow> writer_ok (w_writer w)"

text \<open>
  Two operations clash only if they carry the same key with different contents: a writer that
  reused a timestamp, or for registers a collision of content hashes.
\<close>

definition wire_compat :: "(string \<Rightarrow> claim_payload option) \<Rightarrow> wire_op \<Rightarrow> wire_op \<Rightarrow> bool" where
  "wire_compat parse a b \<longleftrightarrow>
     (\<forall>x y. wireOpToGset a = Some x \<and> wireOpToGset b = Some y \<longrightarrow> gset_compat x y) \<and>
     (\<forall>x y. wireOpToLww a = Some x \<and> wireOpToLww b = Some y \<longrightarrow> lww_op_compat x y) \<and>
     (\<forall>x y. wireOpToOr parse a = Some x \<and> wireOpToOr parse b = Some y \<longrightarrow> orset_compat x y)"

definition wire_apply :: "(string \<Rightarrow> claim_payload option) \<Rightarrow> int \<Rightarrow> wire_op \<Rightarrow> crdt_state \<Rightarrow> crdt_state" where
  "wire_apply parse now w st = snd (applyWireOpInMemory parse now w st)"

lemma observe_clock_frame [simp]:
  "lww (observe_clock now h st) = lww st" "gset (observe_clock now h st) = gset st"
  "cs_orset (observe_clock now h st) = cs_orset st" "cs_oplog (observe_clock now h st) = cs_oplog st"
  by (simp_all add: observe_clock_def)

lemma wireOpToLww_writer: "wireOpToLww w = Some op \<Longrightarrow> lo_writer op = w_writer w"
  by (cases w) (auto simp: wireOpToLww_def)

lemma wire_apply_parts:
  "gset (wire_apply parse now w st) =
     (case wireOpToGset w of Some op \<Rightarrow> gset_receive op (gset st) | None \<Rightarrow> gset st)"
  "lww (wire_apply parse now w st) =
     (case wireOpToLww w of Some op \<Rightarrow> lww_receive op (lww st) | None \<Rightarrow> lww st)"
  "cs_orset (wire_apply parse now w st) =
     (case wireOpToOr parse w of Some op \<Rightarrow> orset_receive op (cs_orset st) | None \<Rightarrow> cs_orset st)"
  "cs_oplog (wire_apply parse now w st) = cs_oplog st"
  by (cases w; simp add: wire_apply_def applyWireOpInMemory_def wireOpToGset_def wireOpToLww_def
      gset_receive_def lww_receive_def orset_receive_def split: sum.splits option.splits)+

lemma wire_apply_view:
  assumes "replica_inv st" "wire_ok w"
  shows "replica_view (wire_apply parse now w st) = wire_step parse w (replica_view st)"
    and "replica_inv (wire_apply parse now w st)"
proof -
  have inv: "lww_inv (lww st)" "gset_inv (gset st)" "orset_inv (cs_orset st)"
    using assms(1) by (auto simp: replica_inv_def)
  have wr: "writer_ok (lo_writer op)" if "wireOpToLww w = Some op" for op
    using assms(2) wireOpToLww_writer [OF that] by (simp add: wire_ok_def)
  show "replica_inv (wire_apply parse now w st)"
    unfolding replica_inv_def wire_apply_parts
    using inv wr by (auto intro: gset_receive_inv orset_receive_inv lww_receive_ok split: option.splits)
  show "replica_view (wire_apply parse now w st) = wire_step parse w (replica_view st)"
    unfolding replica_view_def wire_apply_parts wire_step_def
    using inv wr
    by (cases w) (auto simp: wireOpToGset_def wireOpToLww_def gset_receive_view orset_receive_view lww_receive_ok
        split: option.splits)
qed

lemma wire_step_commute:
  assumes "wire_compat parse a b"
  shows "wire_step parse a (wire_step parse b v) = wire_step parse b (wire_step parse a v)"
  using assms
  unfolding wire_step_def wire_compat_def lww_op_compat_def
  by (cases a; cases b)
    (auto simp: wireOpToGset_def wireOpToLww_def simp del: orset_step.simps split: option.splits
      intro: gset_step_commute lww_step_commute orset_step_commute)

lemma wire_step_idem: "wire_step parse a (wire_step parse a v) = wire_step parse a v"
  by (auto simp: wire_step_def gset_step_idem lww_step_idem orset_step_idem split: option.splits)

interpretation replica: convergent "wire_apply parse now" "wire_step parse" replica_view wire_ok replica_inv "wire_compat parse"
  for parse now
  by unfold_locales (auto simp: wire_apply_view wire_step_idem intro: wire_step_commute)

lemma replica_inv_new: "replica_inv (crdt_new w log)"
  by (simp add: replica_inv_def crdt_new_def lww_inv_def gset_inv_empty orset_inv_empty)

lemma replica_view_new [simp]: "replica_view (crdt_new w log) = (Map.empty, Map.empty, orset_view orset_empty)"
  by (simp add: replica_view_def crdt_new_def)

text \<open>Everything a replica shows is a function of its view.\<close>

lemma view_determines:
  assumes "replica_inv s" "replica_inv t" "replica_view s = replica_view t"
  shows "map_of (lww s) = map_of (lww t) \<and> gset_sortedOps (gset s) = gset_sortedOps (gset t)
    \<and> materializeGset (gset s) = materializeGset (gset t) \<and> active at (cs_orset s) = active at (cs_orset t)"
proof -
  have "gset_sortedOps (gset s) = gset_sortedOps (gset t)"
    using assms by (intro gset_sortedOps_canonical) (auto simp: replica_inv_def replica_view_def)
  moreover have "active at (cs_orset s) = active at (cs_orset t)"
    using assms by (intro active_of_view) (auto simp: replica_inv_def replica_view_def)
  ultimately show ?thesis using assms(3) by (simp add: materializeGset_def replica_view_def)
qed

lemma apply_all_fold: "snd (apply_all parse now ws (n, st)) = fold (wire_apply parse now) ws st"
  by (induction ws arbitrary: n st) (auto simp: wire_apply_def split_beta Let_def)

subsection \<open>Memory and disk\<close>

definition logged :: "bridge \<Rightarrow> oplog \<Rightarrow> wire_op list" where
  "logged br log = replay br GSET log @ replay br ORSET log @ replay br LWW log"

definition empty_view :: replica_view where
  "empty_view = (Map.empty, Map.empty, orset_view orset_empty)"

text \<open>
  Every file of the log is well formed, and the memory is what replaying the log gives.
\<close>

definition durable :: "bridge \<Rightarrow> (string \<Rightarrow> claim_payload option) \<Rightarrow> crdt_state \<Rightarrow> bool" where
  "durable br parse st \<longleftrightarrow>
     (\<forall>t. log_ok br t (cs_oplog st)) \<and> replica_inv st
     \<and> (\<forall>w \<in> set (logged br (cs_oplog st)). wire_ok w)
     \<and> (\<forall>a \<in> set (logged br (cs_oplog st)). \<forall>b \<in> set (logged br (cs_oplog st)). wire_compat parse a b)
     \<and> replica_view st = fold (wire_step parse) (logged br (cs_oplog st)) empty_view"

lemma hydrate_ok:
  assumes "log_ok br t log"
  shows "\<exists>log'. oplog_hydrate br t log = (replay br t log, None, log') \<and> disk log' = disk log"
proof -
  obtain log' where h: "oplog_hydrate br t log =
      (concat (map (\<lambda>(day, b). seg_ops br b) (js_sort name_cmp (disk log t))), None, log')"
    and d: "disk log' = (disk log)(t := recover_dir br (disk log t))"
    using oplog_hydrate_crashed [OF log_ok_crashed [OF assms]] by blast
  have "recover_dir br (disk log t) = disk log t"
    using assms seg_ok_crashed unfolding recover_dir_def log_ok_def by (intro map_idI) auto
  with h d show ?thesis by (simp add: replay_def)
qed

lemma replay_disk: "disk log = disk log' \<Longrightarrow> log_ok br t log \<Longrightarrow> replay br t log = replay br t log'"
proof -
  assume d: "disk log = disk log'" and ok: "log_ok br t log"
  then have ok': "log_ok br t log'" by (simp add: log_ok_def)
  show ?thesis
    using oplog_hydrate_crashed [OF log_ok_crashed [OF ok]] oplog_hydrate_crashed [OF log_ok_crashed [OF ok']] d
    by (auto simp: replay_def)
qed

lemma hydrate_type_ok:
  assumes "log_ok br t (cs_oplog st)" "replica_inv st" "\<forall>w \<in> set (replay br t (cs_oplog st)). wire_ok w"
  shows "\<exists>n st'. hydrate_type br parse now t st = (None, n, st') \<and> disk (cs_oplog st') = disk (cs_oplog st)
    \<and> replica_inv st' \<and> replica_view st' = fold (wire_step parse) (replay br t (cs_oplog st)) (replica_view st)"
proof -
  let ?ops = "replay br t (cs_oplog st)"
  obtain log' where h: "oplog_hydrate br t (cs_oplog st) = (?ops, None, log')" "disk log' = disk (cs_oplog st)"
    using hydrate_ok [OF assms(1)] by blast
  let ?st0 = "st\<lparr>cs_oplog := log'\<rparr>"
  obtain n st' where a: "apply_all parse now ?ops (0, ?st0) = (n, st')" by (cases "apply_all parse now ?ops (0, ?st0)")
  then have st': "st' = fold (wire_apply parse now) ?ops ?st0" using apply_all_fold [of parse now ?ops 0 ?st0] by simp
  have inv0: "replica_inv ?st0" and v0: "replica_view ?st0 = replica_view st"
    using assms(2) by (simp_all add: replica_inv_def replica_view_def)
  have "cs_oplog (fold (wire_apply parse now) ws s) = cs_oplog s" for ws s
    by (induction ws arbitrary: s) (simp_all add: wire_apply_parts)
  then have "disk (cs_oplog st') = disk (cs_oplog st)" using st' h(2) by simp
  moreover have "replica_inv st'" using replica.inv_fold [OF inv0 assms(3)] st' by simp
  moreover have "replica_view st' = fold (wire_step parse) ?ops (replica_view st)"
    using replica.view_fold [OF inv0 assms(3), of parse now] st' v0 by simp
  ultimately show ?thesis using h(1) a by (simp add: hydrate_type_def)
qed

lemma hydrate_durable:
  assumes "durable br parse st" "disk log = disk (cs_oplog st)"
  shows "\<exists>counts st'. hydrate br parse now (crdt_new w log) = (Inr counts, st') \<and> replica_inv st'
    \<and> replica_view st' = replica_view st \<and> disk (cs_oplog st') = disk log"
proof -
  have ok: "log_ok br t l" if "disk l = disk log" for t l
    using assms that by (simp add: durable_def log_ok_def)
  have same: "replay br t l = replay br t (cs_oplog st)" if "disk l = disk log" for t l
    using replay_disk [of l "cs_oplog st" br t] ok [OF that] that assms(2) by simp
  have wok: "\<forall>x \<in> set (replay br t l). wire_ok x" if "disk l = disk log" for t l
    using assms(1) same [OF that, of t] by (cases t) (auto simp: durable_def logged_def)
  let ?st0 = "crdt_new w log"
  have l0: "cs_oplog ?st0 = log" by (simp add: crdt_new_def)
  obtain n1 st1 where h1: "hydrate_type br parse now GSET ?st0 = (None, n1, st1)"
    "disk (cs_oplog st1) = disk log" "replica_inv st1"
    "replica_view st1 = fold (wire_step parse) (replay br GSET log) empty_view"
    using hydrate_type_ok [of br GSET ?st0 parse now] ok wok replica_inv_new [of w log] l0
    by (auto simp: empty_view_def)
  obtain n2 st2 where h2: "hydrate_type br parse now ORSET st1 = (None, n2, st2)"
    "disk (cs_oplog st2) = disk log" "replica_inv st2"
    "replica_view st2 = fold (wire_step parse) (replay br ORSET (cs_oplog st1)) (replica_view st1)"
    using hydrate_type_ok [of br ORSET st1 parse now] ok wok h1 by auto
  obtain n3 st3 where h3: "hydrate_type br parse now LWW st2 = (None, n3, st3)"
    "disk (cs_oplog st3) = disk log" "replica_inv st3"
    "replica_view st3 = fold (wire_step parse) (replay br LWW (cs_oplog st2)) (replica_view st2)"
    using hydrate_type_ok [of br LWW st2 parse now] ok wok h2 by auto
  have "replica_view st3 = replica_view st"
    using h1(4) h2(4) h3(4) same [OF refl] same [OF h1(2)] same [OF h2(2)] assms(1)
    by (simp add: durable_def logged_def)
  then show ?thesis
    using h1(1) h2(1) h3 by (simp add: hydrate_def Let_def replica_view_def replica_inv_def)
qed

text \<open>The codec on the single-operation batches of the local write path.\<close>

definition codec_ok :: "bridge \<Rightarrow> bool" where
  "codec_ok br \<longleftrightarrow> (\<forall>w b. br_encode br [w] = Some b \<longrightarrow> br_decode br b = Some [w] \<and> int (length b) \<le> VARINT_U32_MAX)"

lemma append_logged:
  assumes "\<forall>t. log_ok br t log" "codec_ok br" "appendOps br now t [w] log = (Inr n, log')"
  shows "(\<forall>t. log_ok br t log') \<and> set (logged br log') = insert w (set (logged br log))"
proof -
  let ?day = "utcDate (wall_ms (w_hlc w))" and ?log1 = "warnIfLocalDayOutOfWindow now t (utcDate (wall_ms (w_hlc w))) log"
  obtain batch where e: "br_encode br [w] = Some batch" and a: "appendBatchBytes now t ?day batch True ?log1 = Inr (n, log')"
    using assms(3) by (auto simp: Let_def split: option.splits sum.splits prod.splits)
  have d: "disk log' = disk (append_file t ?day (frame batch) ?log1)" using appendBatchBytes_disk [OF a] by simp
  have ok1: "log_ok br u ?log1" and r1: "replay br u ?log1 = replay br u log" for u
    using assms(1) replay_disk [of ?log1 log br u] by (simp_all add: log_ok_def)
  have dec: "br_decode br batch = Some [w]" "frame_ok batch"
    using e assms(2) by (auto simp: codec_ok_def frame_ok_def)
  have t: "log_ok br t log' \<and> mset (replay br t log') = mset (replay br t log) + {#w#}"
    using append_file_replay [OF ok1 dec(2,1) d] r1 by simp
  then have st: "set (replay br t log') = insert w (set (replay br t log))"
    by (metis set_mset_mset set_mset_union set_mset_single Un_insert_right sup_bot.right_neutral)
  have other: "disk log' u = disk log u" if "u \<noteq> t" for u using d that by (simp add: append_file_disk)
  have ok: "log_ok br u log'" for u using t assms(1) other by (cases "u = t") (auto simp: log_ok_def)
  have "set (replay br u log') = set (replay br u log)" if "u \<noteq> t" for u
  proof -
    have "mset (replay br u log') = mset (replay br u log)"
      using mset_replay [OF log_ok_crashed [OF ok]] mset_replay [OF log_ok_crashed [of br u log]] assms(1) other [OF that] by simp
    then show ?thesis by (rule mset_eq_setD)
  qed
  with st have "set (logged br log') = insert w (set (logged br log))"
    by (cases t) (auto simp: logged_def)
  with ok show ?thesis by blast
qed

lemma durable_step:
  assumes "durable br parse st" "codec_ok br" "appendOps br now t [w] (cs_oplog st) = (Inr n, log')"
    and "wire_ok w" "wire_compat parse w w"
    and "\<forall>x \<in> set (logged br (cs_oplog st)). wire_compat parse w x \<and> wire_compat parse x w"
    and "cs_oplog st' = log'" "replica_inv st'" "replica_view st' = wire_step parse w (replica_view st)"
  shows "durable br parse st'"
proof -
  let ?l = "logged br (cs_oplog st)" and ?l' = "logged br log'"
  have ok: "\<forall>t. log_ok br t log'" and s: "set ?l' = insert w (set ?l)"
    using append_logged [OF _ assms(2,3)] assms(1) by (auto simp: durable_def)
  have wok: "\<forall>x \<in> set ?l'. wire_ok x" and com: "\<forall>a \<in> set ?l'. \<forall>b \<in> set ?l'. wire_compat parse a b"
    using assms(1,4,5,6) unfolding s durable_def by blast+
  have "replica_view st' = fold (wire_step parse) (?l @ [w]) empty_view"
    using assms(1,9) by (simp add: durable_def)
  also have "\<dots> = Finite_Set.fold (wire_step parse) empty_view (set (?l @ [w]))"
    using wok com s by (intro replica.fold_step_set) auto
  also have "\<dots> = fold (wire_step parse) ?l' empty_view"
    using replica.fold_step_set [OF wok com, of empty_view] s by simp
  finally show ?thesis using ok wok com assms(7,8) by (simp add: durable_def)
qed

text \<open>The local writes of the routes, with what they return.\<close>

datatype local_write = Observation gset_op | ClaimOp or_op | NodeBody string string "hlc option"

definition local_write ::
    "bridge \<Rightarrow> (claim_payload \<Rightarrow> string) \<Rightarrow> (bytes \<Rightarrow> bytes) \<Rightarrow> int \<Rightarrow> local_write \<Rightarrow> crdt_state \<Rightarrow> bool \<times> crdt_state" where
  "local_write br stringify blake3 now c st =
     (case c of
        Observation op \<Rightarrow> (case cs_observe br now op st of (r, st') \<Rightarrow> (\<not> isl r, st'))
      | ClaimOp op \<Rightarrow> (case cs_applyOr br stringify now op st of (r, st') \<Rightarrow> (\<not> isl r, st'))
      | NodeBody e v h \<Rightarrow> (case cs_recordLww br blake3 now e v h st of (r, st') \<Rightarrow> (\<not> isl r, st')))"

text \<open>The wire operation a local write appends.\<close>

definition written :: "(claim_payload \<Rightarrow> string) \<Rightarrow> (bytes \<Rightarrow> bytes) \<Rightarrow> int \<Rightarrow> local_write \<Rightarrow> crdt_state \<Rightarrow> wire_op option" where
  "written stringify blake3 now c st =
     (case c of
        Observation op \<Rightarrow> Some (gsetToWire op)
      | ClaimOp op \<Rightarrow> (case orToWire stringify op of Inr w \<Rightarrow> Some w | Inl _ \<Rightarrow> None)
      | NodeBody e v h \<Rightarrow> Some (lwwToWire (makeLwwOp blake3 e v
          (case h of Some h \<Rightarrow> h | None \<Rightarrow> fst (tick now (clock st))) (cs_writer st))))"

lemma emitOps_frame [simp]:
  "lww (emitOps t ops st) = lww st" "gset (emitOps t ops st) = gset st"
  "cs_orset (emitOps t ops st) = cs_orset st" "cs_oplog (emitOps t ops st) = cs_oplog st"
  by (simp_all add: emitOps_def)

lemma with_append_Inr:
  assumes "with_append br now t w k st = (Inr x, st')"
  shows "\<exists>n log'. appendOps br now t [w] (cs_oplog st) = (Inr n, log') \<and> k (st\<lparr>cs_oplog := log'\<rparr>) = (Inr x, st')"
  using assms by (auto simp: with_append_def split: prod.splits sum.splits)

lemma outcome_Inr: "(case p of (r, s) \<Rightarrow> (\<not> isl r, s)) = (True, s') \<Longrightarrow> \<exists>x. p = (Inr x, s')"
  by (cases p; cases "fst p") auto

lemma local_write_step:
  assumes "local_write br stringify blake3 now c st = (True, st')" "written stringify blake3 now c st = Some w"
    and "replica_inv st" "wire_ok w"
    and "\<And>op. c = ClaimOp op \<Longrightarrow> or_wire_ok stringify parse op"
  shows "\<exists>n t log'. appendOps br now t [w] (cs_oplog st) = (Inr n, log') \<and> cs_oplog st' = log'
    \<and> replica_inv st' \<and> replica_view st' = wire_step parse w (replica_view st)"
proof -
  have inv: "lww_inv (lww st)" "gset_inv (gset st)" "orset_inv (cs_orset st)"
    using assms(3) by (auto simp: replica_inv_def)
  show ?thesis
  proof (cases c)
    case (Observation op)
    with assms(2) have w: "w = gsetToWire op" by (simp add: written_def)
    have "\<exists>x. cs_observe br now op st = (Inr x, st')"
      using assms(1) Observation outcome_Inr by (fastforce simp: local_write_def)
    then obtain n log' g where a: "appendOps br now GSET [w] (cs_oplog st) = (Inr n, log')"
      and g: "gset_apply op (gset st) = Inr g" and st': "st' = emitOps GSET [w] (st\<lparr>cs_oplog := log', gset := g\<rparr>)"
      unfolding cs_observe_def w by (auto dest!: with_append_Inr split: sum.splits)
    have "gset_receive op (gset st) = g" using g by (simp add: gset_receive_def)
    then have "map_of g = gset_step op (map_of (gset st))" "gset_inv g"
      using gset_receive_view [of op "gset st"] gset_receive_inv [OF inv(2), of op] by auto
    then show ?thesis
      using a st' inv by (intro exI [of _ n] exI [of _ GSET] exI [of _ log'])
        (simp add: replica_inv_def replica_view_def wire_step_def w codec_simps)
  next
    case (ClaimOp op)
    with assms(2) have w: "orToWire stringify op = Inr w" by (auto simp: written_def split: sum.splits)
    have "or_wire_ok stringify parse op" using assms(5) ClaimOp by blast
    then have bk: "wireOpToOr parse w = Some op" using w by (rule wireOpToOr_orToWire)
    have "\<exists>x. cs_applyOr br stringify now op st = (Inr x, st')"
      using assms(1) ClaimOp outcome_Inr by (fastforce simp: local_write_def)
    then obtain n log' s where a: "appendOps br now ORSET [w] (cs_oplog st) = (Inr n, log')"
      and s: "orset_apply op (cs_orset st) = Inr s" and st': "st' = emitOps ORSET [w] (st\<lparr>cs_oplog := log', cs_orset := s\<rparr>)"
      unfolding cs_applyOr_def w by (auto dest!: with_append_Inr split: sum.splits)
    have "orset_receive op (cs_orset st) = s" using s by (simp add: orset_receive_def)
    then have "orset_view s = orset_step op (orset_view (cs_orset st))" "orset_inv s"
      using orset_receive_view [of op "cs_orset st"] orset_receive_inv [OF inv(3), of op] by auto
    moreover have "wireOpToGset w = None" "wireOpToLww w = None"
      using w by (cases op; auto simp: wireOpToGset_def wireOpToLww_def sbind_eq_Inr_iff)+
    ultimately show ?thesis
      using a st' inv bk by (intro exI [of _ n] exI [of _ ORSET] exI [of _ log'])
        (simp add: replica_inv_def replica_view_def wire_step_def)
  next
    case (NodeBody e v h)
    define st1 where "st1 = (case h of Some h \<Rightarrow> st | None \<Rightarrow> snd (cs_tick now st))"
    define hh where "hh = (case h of Some h \<Rightarrow> h | None \<Rightarrow> fst (tick now (clock st)))"
    let ?op = "makeLwwOp blake3 e v hh (cs_writer st)"
    from NodeBody assms(2) have w: "w = lwwToWire ?op" by (simp add: written_def hh_def)
    have st1: "lww st1 = lww st" "gset st1 = gset st" "cs_orset st1 = cs_orset st" "cs_oplog st1 = cs_oplog st"
      "cs_writer st1 = cs_writer st"
      by (simp_all add: st1_def cs_tick_def Let_def split_beta split: option.splits)
    have "\<exists>x. cs_recordLww br blake3 now e v h st = (Inr x, st')"
      using assms(1) NodeBody outcome_Inr by (fastforce simp: local_write_def)
    moreover have "cs_recordLww br blake3 now e v h st = with_append br now LWW w (\<lambda>st.
        case applyLww (map_of (lww st) e) ?op of Inl e \<Rightarrow> (Inl (LwwFailed e), st)
        | Inr next \<Rightarrow> (Inr next, emitOps LWW [w] (st\<lparr>lww := AList.update e next (lww st)\<rparr>))) st1"
      unfolding w by (cases h)
        (simp_all add: cs_recordLww_def Let_def split_beta st1_def hh_def cs_tick_def cong: sum.case_cong)
    ultimately obtain n log' s where a: "appendOps br now LWW [w] (cs_oplog st) = (Inr n, log')"
      and s: "applyLww (map_of (lww st) e) ?op = Inr s"
      and st': "st' = emitOps LWW [w] (st1\<lparr>cs_oplog := log', lww := AList.update e s (lww st)\<rparr>)"
      using st1 by (auto dest!: with_append_Inr split: sum.splits)
    have e: "lo_entityId ?op = e" "lo_writer ?op = cs_writer st" by (simp_all add: makeLwwOp_def)
    have "w_writer w = cs_writer st" by (simp add: w lwwToWire_def makeLwwOp_def)
    then have wr: "writer_ok (lo_writer ?op)" using assms(4) e by (simp add: wire_ok_def)
    have "lww_receive ?op (lww st) = AList.update e s (lww st)" using s e by (simp add: lww_receive_def lww_set_def)
    then have "map_of (AList.update e s (lww st)) = lww_step ?op (map_of (lww st))" "lww_inv (AList.update e s (lww st))"
      using lww_receive_ok [OF inv(1) wr] by auto
    moreover have "wireOpToGset w = None" by (simp add: w wireOpToGset_def lwwToWire_def)
    moreover have "wireOpToLww w = Some ?op" by (simp add: w codec_simps)
    ultimately show ?thesis
      using a st' inv st1 by (intro exI [of _ n] exI [of _ LWW] exI [of _ log'])
        (simp add: replica_inv_def replica_view_def wire_step_def)
  qed
qed

subsection \<open>Properties\<close>

text \<open>C1: Strong convergence of the daemon's state: two daemons that applied the same set of wire
  operations, in any order and with any repetitions, from the same or from fresh states, with
  whatever clocks, have the same registers, the same observations and view, and the same
  active claims at every time. (Given that writers do not reuse a timestamp for different
  contents.)\<close>

theorem replicas_converge:
  assumes "set xs = set ys" "\<forall>w \<in> set xs. wire_ok w"
    and "\<forall>a \<in> set xs. \<forall>b \<in> set xs. wire_compat parse a b"
    and "s = fold (wire_apply parse now) xs (crdt_new w log)"
    and "t = fold (wire_apply parse now) ys (crdt_new w' log')"
  shows "map_of (lww s) = map_of (lww t) \<and> gset_sortedOps (gset s) = gset_sortedOps (gset t)
    \<and> materializeGset (gset s) = materializeGset (gset t) \<and> active at (cs_orset s) = active at (cs_orset t)"
proof (rule view_determines)
  show "replica_view s = replica_view t"
    unfolding assms(4,5) using assms(1-3) by (intro replica.converges) (auto intro: replica_inv_new)
  show "replica_inv s" unfolding assms(4) using assms(2) by (intro replica.inv_fold) (auto intro: replica_inv_new)
  show "replica_inv t" unfolding assms(5) using assms(1,2) by (intro replica.inv_fold) (auto intro: replica_inv_new)
qed

lemma sample_wire_compat: "wire_compat parse sample_wire_op sample_wire_op"
  by (auto simp: wire_compat_def sample_wire_op_def wireOpToGset_def wireOpToLww_def gset_compat_def)

lemma sample_wire_ok: "wire_ok sample_wire_op"
  by (simp add: wire_ok_def sample_wire_op_def writer_ok_def WRITER_BYTES_def)

theorem replicas_converge_witness:
  "gset_sortedOps (gset (fold (wire_apply (\<lambda>_. None) 0) [sample_wire_op] (crdt_new [] (sample_log []))))
   = gset_sortedOps (gset (fold (wire_apply (\<lambda>_. None) 0) [sample_wire_op, sample_wire_op] (crdt_new [] (sample_log []))))"
  using replicas_converge [OF _ _ _ refl refl, of "[sample_wire_op]" "[sample_wire_op, sample_wire_op]" "\<lambda>_. None"]
    sample_wire_ok sample_wire_compat by simp


lemma empty_durable: "\<forall>t. disk log t = [] \<Longrightarrow> durable br parse (crdt_new w log)"
proof -
  assume e: "\<forall>t. disk log t = []"
  then have "replay br t log = []" for t by (simp add: replay_def oplog_hydrate_def)
  moreover have "cs_oplog (crdt_new w log) = log" by (simp add: crdt_new_def)
  ultimately show ?thesis
    using e by (auto simp: durable_def logged_def log_ok_def empty_view_def replica_inv_new)
qed

lemma sample_codec_ok: "codec_ok sample_bridge"
  by (auto simp: codec_ok_def sample_bridge_def VARINT_U32_MAX_def split: if_splits)

definition sample_observation :: gset_op where
  "sample_observation = \<lparr>g_src = ''a'', g_dst = ''b'', g_tsBucket = 60, g_observed = 1, g_weight = 2,
     g_hlc = \<lparr>wallMs = 86400000, counter = 0\<rparr>, g_writer = replicate 16 1\<rparr>"

lemma sample_observation_wire: "gsetToWire sample_observation = sample_wire_op"
  by (simp add: gsetToWire_def sample_observation_def sample_wire_op_def hlcToWire_def)

definition empty_log :: oplog where
  "empty_log = oplog_new (\<lambda>_. []) None None None None 0"

lemma sample_write:
  "\<exists>st'. local_write sample_bridge (\<lambda>_. []) (\<lambda>x. x) 5 (Observation sample_observation) (crdt_new [] empty_log) = (True, st')"
proof -
  have "hlc_ok (g_hlc sample_observation)" "writer_ok (g_writer sample_observation)"
    by (simp_all add: sample_observation_def hlc_ok_def writer_ok_def size_defs)
  then obtain k where k: "opKey sample_observation = Inr k" using opKey_Inr_iff by blast
  obtain n log' where "appendBatchBytes 5 GSET (utcDate (wall_ms (w_hlc sample_wire_op))) [9] True
      (warnIfLocalDayOutOfWindow 5 GSET (utcDate (wall_ms (w_hlc sample_wire_op))) empty_log) = (Inr (n, log'))"
    using appendBatchBytes_total by blast
  then have "appendOps sample_bridge 5 GSET [sample_wire_op] empty_log = (Inr n, log')"
    by (simp add: sample_bridge_def Let_def)
  then show ?thesis
    by (simp add: local_write_def cs_observe_def with_append_def sample_observation_wire crdt_new_def gset_apply_def k)
qed


end
