(* ===== verification/Peers.thy ===== *)
theory Peers
  imports Hlc
begin

text \<open>
  The registry of peers, \<open>src/daemon/src/crdt/peers.ts\<close>: one file per peer, named by its writer
  id. The directory is an association list from file names to parsed contents, \<open>None\<close> standing
  for a file that cannot be read or parsed; a record is published by an atomic rename, so a write
  is one update, or nothing when the file system refuses it (\<open>io_ok\<close>). \<open>stamp\<close> is the ISO text of the
  clock. Shown here: recording one peer never touches another, never enrols the daemon itself,
  keeps what was known, and never grows the registry beyond its cap.
\<close>

definition SYNC_PROTOCOL_VERSION :: int where "SYNC_PROTOCOL_VERSION = 1"

definition MAX_KNOWN_PEERS :: nat where "MAX_KNOWN_PEERS = 64"

record peer_record =
  pr_writer_id :: string
  pr_last_url :: "string option"
  pr_first_seen :: string
  pr_last_synced :: string
  pr_protocol :: "int option"

record peer_handshake =
  ph_writer_id :: string
  ph_protocol :: int

text \<open>The directory, \<open>None\<close> while it does not exist, and the one-time latch of the cap warning.\<close>

record peers_state =
  known_dir :: "(string \<times> json option) list option"
  capWarningEmitted :: bool
  capWarnings :: nat

subsection \<open>Records\<close>

definition lower_hex :: "char \<Rightarrow> bool" where
  "lower_hex c \<longleftrightarrow> c \<in> set ''0123456789abcdef''"

definition writer_id_hex :: "string \<Rightarrow> bool" where
  "writer_id_hex s \<longleftrightarrow> length s = WRITER_BYTES * 2 \<and> list_all lower_hex s"

definition isWriterIdHex :: "json option \<Rightarrow> string option" where
  "isWriterIdHex j = (case j of Some (JStr s) \<Rightarrow> if writer_id_hex s then Some s else None | _ \<Rightarrow> None)"

text \<open>A number that is an integer and not negative.\<close>

definition protocol_of :: "json option \<Rightarrow> int option" where
  "protocol_of j = (case j of Some (JInt p) \<Rightarrow> if p < 0 then None else Some p | _ \<Rightarrow> None)"

definition string_of :: "json option \<Rightarrow> string option" where
  "string_of j = (case j of Some (JStr s) \<Rightarrow> Some s | _ \<Rightarrow> None)"

definition parsePeerHandshake :: "json option \<Rightarrow> peer_handshake option" where
  "parsePeerHandshake value =
     (case value of
        None \<Rightarrow> None
      | Some v \<Rightarrow>
          (case isWriterIdHex (member ''writer_id'' v) of
             None \<Rightarrow> None
           | Some w \<Rightarrow>
               (case protocol_of (member ''protocol'' v) of
                  None \<Rightarrow> None
                | Some p \<Rightarrow> Some \<lparr>ph_writer_id = w, ph_protocol = p\<rparr>)))"

definition parseRecord :: "json option \<Rightarrow> string \<Rightarrow> peer_record option" where
  "parseRecord parsed expectedWriterId =
     (case parsed of
        None \<Rightarrow> None
      | Some raw \<Rightarrow>
          if member ''writer_id'' raw \<noteq> Some (JStr expectedWriterId) then None
          else case (string_of (member ''first_seen'' raw), string_of (member ''last_synced'' raw)) of
                 (Some firstSeen, Some lastSynced) \<Rightarrow>
                   Some \<lparr>pr_writer_id = expectedWriterId, pr_last_url = string_of (member ''last_url'' raw),
                     pr_first_seen = firstSeen, pr_last_synced = lastSynced, pr_protocol = protocol_of (member ''protocol'' raw)\<rparr>
               | _ \<Rightarrow> None)"

definition json_or_null :: "('a \<Rightarrow> json) \<Rightarrow> 'a option \<Rightarrow> json" where
  "json_or_null f x = (case x of None \<Rightarrow> JNull | Some a \<Rightarrow> f a)"

definition record_json :: "peer_record \<Rightarrow> json" where
  "record_json r =
     JObj [(''writer_id'', JStr (pr_writer_id r)), (''last_url'', json_or_null JStr (pr_last_url r)),
       (''first_seen'', JStr (pr_first_seen r)), (''last_synced'', JStr (pr_last_synced r)),
       (''protocol'', json_or_null JInt (pr_protocol r))]"

subsection \<open>Reading the registry\<close>

definition peer_file :: "string \<Rightarrow> string" where
  "peer_file w = w @ ''.json''"

text \<open>\<open>name.endsWith(".json")\<close>, and the name without it.\<close>

definition strip_json :: "string \<Rightarrow> string option" where
  "strip_json n = (if 5 \<le> length n \<and> drop (length n - 5) n = ''.json'' then Some (take (length n - 5) n) else None)"

definition slot_of :: "string \<Rightarrow> string option" where
  "slot_of n = (case strip_json n of None \<Rightarrow> None | Some w \<Rightarrow> if writer_id_hex w then Some w else None)"

definition entries :: "peers_state \<Rightarrow> (string \<times> json option) list" where
  "entries s = (case known_dir s of None \<Rightarrow> [] | Some fs \<Rightarrow> fs)"

definition readKnownPeers :: "peers_state \<Rightarrow> peer_record list" where
  "readKnownPeers s =
     js_sort (\<lambda>a b. cmp_lin (pr_writer_id a) (pr_writer_id b))
       (List.map_filter (\<lambda>(n, c). case slot_of n of None \<Rightarrow> None | Some w \<Rightarrow> parseRecord c w) (entries s))"

definition readKnownPeer :: "string \<Rightarrow> peers_state \<Rightarrow> peer_record option" where
  "readKnownPeer w s =
     (if \<not> writer_id_hex w then None
      else case map_of (entries s) (peer_file w) of None \<Rightarrow> None | Some c \<Rightarrow> parseRecord c w)"

definition countKnownPeerFiles :: "peers_state \<Rightarrow> nat" where
  "countKnownPeerFiles s = length (filter (\<lambda>(n, c). slot_of n \<noteq> None) (entries s))"

subsection \<open>Recording an exchange\<close>

record record_options =
  ro_writerId :: "json option"
  ro_url :: "string option"
  ro_protocol :: "json option"
  ro_selfWriterId :: string

definition merged_record :: "record_options \<Rightarrow> string \<Rightarrow> string \<Rightarrow> peer_record option \<Rightarrow> peer_record" where
  "merged_record opts w stamp existing =
     \<lparr>pr_writer_id = w,
      pr_last_url = (case ro_url opts of Some u \<Rightarrow> Some u | None \<Rightarrow> Option.bind existing pr_last_url),
      pr_first_seen = (case existing of Some e \<Rightarrow> pr_first_seen e | None \<Rightarrow> stamp),
      pr_last_synced = stamp,
      pr_protocol = (case protocol_of (ro_protocol opts) of Some p \<Rightarrow> Some p | None \<Rightarrow> Option.bind existing pr_protocol)\<rparr>"

definition recordPeer :: "bool \<Rightarrow> string \<Rightarrow> record_options \<Rightarrow> peers_state \<Rightarrow> peer_record option \<times> peers_state" where
  "recordPeer io_ok stamp opts s =
     (case isWriterIdHex (ro_writerId opts) of
        None \<Rightarrow> (None, s)
      | Some w \<Rightarrow>
          if w = ro_selfWriterId opts then (None, s)
          else let existing = readKnownPeer w s
               in if existing = None \<and> countKnownPeerFiles s \<ge> MAX_KNOWN_PEERS
                  then (None, if capWarningEmitted s then s
                              else s\<lparr>capWarningEmitted := True, capWarnings := Suc (capWarnings s)\<rparr>)
                  else if \<not> io_ok then (None, s)
                  else let r = merged_record opts w stamp existing
                       in (Some r, s\<lparr>known_dir := Some (AList.update (peer_file w) (Some (record_json r)) (entries s))\<rparr>))"

subsection \<open>Files and slots\<close>

lemma strip_json_file [simp]: "strip_json (peer_file w) = Some w"
  by (simp add: strip_json_def peer_file_def)

lemma peer_file_eq [simp]: "peer_file v = peer_file w \<longleftrightarrow> v = w"
  by (simp add: peer_file_def)

lemma slot_of_file [simp]: "slot_of (peer_file w) = (if writer_id_hex w then Some w else None)"
  by (simp add: slot_of_def)

lemma slot_of_Some: "slot_of n = Some w \<longleftrightarrow> n = peer_file w \<and> writer_id_hex w"
proof
  assume a: "slot_of n = Some w"
  then have "5 \<le> length n" "drop (length n - 5) n = ''.json''" "take (length n - 5) n = w" "writer_id_hex w"
    by (auto simp: slot_of_def strip_json_def split: if_splits)
  then show "n = peer_file w \<and> writer_id_hex w" unfolding peer_file_def by (metis append_take_drop_id)
qed simp

text \<open>What is written is what is read back.\<close>

lemma parse_record_json [codec_simps]:
  "0 \<le> the (pr_protocol r) \<or> pr_protocol r = None \<Longrightarrow> parseRecord (Some (record_json r)) (pr_writer_id r) = Some r"
  by (cases r; cases "pr_last_url r"; cases "pr_protocol r")
    (auto simp: parseRecord_def record_json_def member_def json_or_null_def string_of_def protocol_of_def)

lemma protocol_of_nonneg: "protocol_of j = Some p \<Longrightarrow> 0 \<le> p"
  by (auto simp: protocol_of_def split: option.splits json.splits if_splits)

lemma readKnownPeer_protocol: "readKnownPeer w s = Some r \<Longrightarrow> pr_protocol r = Some p \<Longrightarrow> 0 \<le> p"
  by (auto simp: readKnownPeer_def parseRecord_def dest: protocol_of_nonneg split: if_splits option.splits)

lemma readKnownPeer_id: "readKnownPeer w s = Some r \<Longrightarrow> pr_writer_id r = w"
  by (auto simp: readKnownPeer_def parseRecord_def split: if_splits option.splits)

lemma merged_record_id [simp]: "pr_writer_id (merged_record opts w stamp e) = w"
  by (simp add: merged_record_def)

lemma merged_record_ok:
  "0 \<le> the (pr_protocol (merged_record opts w stamp (readKnownPeer w s))) \<or> pr_protocol (merged_record opts w stamp (readKnownPeer w s)) = None"
  using protocol_of_nonneg readKnownPeer_protocol [of w s]
  by (fastforce simp: merged_record_def bind_eq_Some_conv split: option.splits)

lemma count_update:
  "length (filter (\<lambda>(n, c). slot_of n \<noteq> None) (AList.update k v fs))
     \<le> length (filter (\<lambda>(n, c). slot_of n \<noteq> None) fs) + (if k \<in> fst ` set fs then 0 else 1)"
  by (induction fs) (auto simp: rev_image_eqI)

lemma entries_update [simp]: "entries (s\<lparr>known_dir := Some fs\<rparr>) = fs"
  by (simp add: entries_def)

text \<open>The cases of a call.\<close>

lemma recordPeer_cases:
  assumes "recordPeer io_ok stamp opts s = (r, s')"
  obtains (nothing) "r = None" "known_dir s' = known_dir s"
  | (recorded) w where "isWriterIdHex (ro_writerId opts) = Some w" "w \<noteq> ro_selfWriterId opts"
      "readKnownPeer w s \<noteq> None \<or> countKnownPeerFiles s < MAX_KNOWN_PEERS"
      "r = Some (merged_record opts w stamp (readKnownPeer w s))"
      "s' = s\<lparr>known_dir := Some (AList.update (peer_file w) (Some (record_json (merged_record opts w stamp (readKnownPeer w s)))) (entries s))\<rparr>"
proof (cases "isWriterIdHex (ro_writerId opts)")
  case None
  show ?thesis by (rule nothing) (use assms None in \<open>auto simp: recordPeer_def\<close>)
next
  case (Some w)
  let ?full = "readKnownPeer w s = None \<and> countKnownPeerFiles s \<ge> MAX_KNOWN_PEERS"
  show ?thesis
  proof (cases "w = ro_selfWriterId opts \<or> ?full \<or> \<not> io_ok")
    case True
    show ?thesis by (rule nothing) (use assms Some True in \<open>auto simp: recordPeer_def Let_def split: if_splits\<close>)
  next
    case False
    show ?thesis
    proof (rule recorded [OF Some])
      show "readKnownPeer w s \<noteq> None \<or> countKnownPeerFiles s < MAX_KNOWN_PEERS" using False by linarith
    qed (use assms Some False in \<open>auto simp: recordPeer_def Let_def split: if_splits\<close>)
  qed
qed

lemma isWriterIdHex_hex: "isWriterIdHex j = Some w \<Longrightarrow> writer_id_hex w"
  by (auto simp: isWriterIdHex_def split: option.splits json.splits if_splits)

lemma recordPeer_reads:
  assumes "recordPeer io_ok stamp opts s = (r, s')"
  shows "readKnownPeer v s' = (case r of Some rec \<Rightarrow> if pr_writer_id rec = v then Some rec else readKnownPeer v s | None \<Rightarrow> readKnownPeer v s)"
  using assms
proof (cases rule: recordPeer_cases)
  case nothing
  then show ?thesis by (simp add: readKnownPeer_def entries_def)
next
  case (recorded w)
  let ?rec = "merged_record opts w stamp (readKnownPeer w s)"
  have "parseRecord (Some (record_json ?rec)) w = Some ?rec"
    using parse_record_json [OF merged_record_ok, of opts w stamp s] by simp
  then show ?thesis
    using recorded isWriterIdHex_hex [OF recorded(1)] by (auto simp: readKnownPeer_def update_conv')
qed

lemma recordPeer_count:
  assumes "recordPeer io_ok stamp opts s = (r, s')"
  shows "countKnownPeerFiles s' \<le> max (countKnownPeerFiles s) MAX_KNOWN_PEERS"
  using assms
proof (cases rule: recordPeer_cases)
  case nothing
  then show ?thesis by (simp add: countKnownPeerFiles_def entries_def)
next
  case (recorded w)
  have "peer_file w \<in> fst ` set (entries s)" if "readKnownPeer w s \<noteq> None"
    using that by (auto simp: readKnownPeer_def split: if_splits option.splits dest!: map_of_SomeD) force
  then show ?thesis
    using count_update [of "peer_file w" "Some (record_json (merged_record opts w stamp (readKnownPeer w s)))" "entries s"] recorded(3,5)
    by (auto simp: countKnownPeerFiles_def split: if_splits)
qed

subsection \<open>Properties\<close>

text \<open>A run of exchanges, each with its clock and whether the file system let it be published.\<close>

definition record_all :: "(bool \<times> string \<times> record_options) list \<Rightarrow> peers_state \<Rightarrow> peers_state" where
  "record_all calls s = fold (\<lambda>(io_ok, stamp, opts) s. snd (recordPeer io_ok stamp opts s)) calls s"

lemma record_all_simps [simp]:
  "record_all [] s = s" "record_all ((io_ok, stamp, opts) # calls) s = record_all calls (snd (recordPeer io_ok stamp opts s))"
  by (simp_all add: record_all_def)

lemma record_all_count: "countKnownPeerFiles (record_all calls s) \<le> max (countKnownPeerFiles s) MAX_KNOWN_PEERS"
proof (induction calls arbitrary: s)
  case (Cons c calls)
  obtain io_ok stamp opts where c: "c = (io_ok, stamp, opts)" by (cases c) auto
  show ?case using Cons [of "snd (recordPeer io_ok stamp opts s)"] recordPeer_count [of io_ok stamp opts s] c
    by (cases "recordPeer io_ok stamp opts s") fastforce
qed simp

lemma record_all_other:
  "\<forall>(io_ok, stamp, opts) \<in> set calls. isWriterIdHex (ro_writerId opts) \<noteq> Some v \<or> ro_selfWriterId opts = v
    \<Longrightarrow> readKnownPeer v (record_all calls s) = readKnownPeer v s"
proof (induction calls arbitrary: s)
  case (Cons c calls)
  obtain io_ok stamp opts where c: "c = (io_ok, stamp, opts)" by (cases c) auto
  obtain r s' where r: "recordPeer io_ok stamp opts s = (r, s')" by fastforce
  have "readKnownPeer v s' = readKnownPeer v s"
    using recordPeer_reads [OF r, of v] r Cons.prems c
    by (cases rule: recordPeer_cases [OF r]) auto
  then show ?case using Cons c r by simp
qed simp

text \<open>C23: The registry of peers is a bounded, lossless map. However many calls a daemon receives,
  with whatever ids, clocks and failing writes: the number of enrolled peers never exceeds the
  cap (or what it was, if more), the record of an id that was not presented, and of the daemon's
  own id, is what it was; and after one more exchange that is recorded, that peer reads back with
  the new time, with the time it was first seen, and with the address and protocol it was known
  by when the exchange states none, while every other record is unchanged.\<close>

theorem peer_registry:
  assumes "\<forall>(io_ok, stamp, opts) \<in> set calls. isWriterIdHex (ro_writerId opts) \<noteq> Some v \<or> ro_selfWriterId opts = v"
    and "recordPeer io_ok stamp opts (record_all calls s) = (Some r, s')"
  shows "countKnownPeerFiles s' \<le> max (countKnownPeerFiles s) MAX_KNOWN_PEERS
    \<and> (v \<noteq> pr_writer_id r \<longrightarrow> readKnownPeer v s' = readKnownPeer v s)
    \<and> readKnownPeer (pr_writer_id r) s' = Some r \<and> pr_writer_id r \<noteq> ro_selfWriterId opts \<and> pr_last_synced r = stamp
    \<and> (\<forall>old. readKnownPeer (pr_writer_id r) (record_all calls s) = Some old \<longrightarrow> pr_first_seen r = pr_first_seen old
         \<and> (ro_url opts = None \<longrightarrow> pr_last_url r = pr_last_url old)
         \<and> (protocol_of (ro_protocol opts) = None \<longrightarrow> pr_protocol r = pr_protocol old))"
proof -
  have "countKnownPeerFiles s' \<le> max (countKnownPeerFiles s) MAX_KNOWN_PEERS"
    using recordPeer_count [OF assms(2)] record_all_count [of calls s] by linarith
  moreover have "readKnownPeer v s' = readKnownPeer v s" if "v \<noteq> pr_writer_id r"
    using recordPeer_reads [OF assms(2), of v] record_all_other [OF assms(1), of s] that by simp
  moreover have "readKnownPeer (pr_writer_id r) s' = Some r" using recordPeer_reads [OF assms(2)] by simp
  ultimately show ?thesis using assms(2)
    by (cases rule: recordPeer_cases [OF assms(2)]) (auto simp: merged_record_def)
qed

definition sample_peer :: string where
  "sample_peer = replicate 32 (CHR ''a'')"

definition sample_options :: record_options where
  "sample_options = \<lparr>ro_writerId = Some (JStr sample_peer), ro_url = None, ro_protocol = Some (JInt 1), ro_selfWriterId = ''self''\<rparr>"

theorem peer_registry_witness:
  "\<exists>r s'. recordPeer True ''t2'' sample_options (record_all [(True, ''t1'', sample_options)] \<lparr>known_dir = None, capWarningEmitted = False, capWarnings = 0\<rparr>)
      = (Some r, s') \<and> pr_first_seen r = ''t1'' \<and> countKnownPeerFiles s' \<le> 64"
proof -
  let ?s = "\<lparr>known_dir = None, capWarningEmitted = False, capWarnings = 0\<rparr>"
  have hex: "isWriterIdHex (ro_writerId sample_options) = Some sample_peer" "sample_peer \<noteq> ''self''" "writer_id_hex sample_peer"
    by (simp_all add: sample_options_def isWriterIdHex_def writer_id_hex_def sample_peer_def WRITER_BYTES_def lower_hex_def list_all_iff)
      (simp add: eval_nat_numeral)
  obtain s1 where s1: "recordPeer True ''t1'' sample_options ?s = (Some (merged_record sample_options sample_peer ''t1'' None), s1)"
    using hex by (simp add: recordPeer_def readKnownPeer_def entries_def countKnownPeerFiles_def MAX_KNOWN_PEERS_def sample_options_def Let_def)
  have k: "readKnownPeer sample_peer s1 = Some (merged_record sample_options sample_peer ''t1'' None)"
    using recordPeer_reads [OF s1] by simp
  then obtain r s' where r: "recordPeer True ''t2'' sample_options s1 = (Some r, s')" "pr_writer_id r = sample_peer"
    using hex by (simp add: recordPeer_def Let_def sample_options_def)
  have "\<forall>(io_ok, stamp, opts) \<in> set [(True, ''t1'', sample_options)]. isWriterIdHex (ro_writerId opts) \<noteq> Some ''other'' \<or> ro_selfWriterId opts = ''other''"
    using hex by (simp add: sample_peer_def eval_nat_numeral)
  from peer_registry [OF this, of True "''t2''" sample_options ?s r s'] r s1 k show ?thesis
    by (auto simp: merged_record_def countKnownPeerFiles_def entries_def MAX_KNOWN_PEERS_def)
qed

end
