(* ===== verification/SyncRoutes.thy ===== *)
theory SyncRoutes
  imports Merkle CrdtState Peers Base64
begin

text \<open>
  The sync endpoints of a daemon, \<open>src/daemon/src/daemon/routes/sync.ts\<close>, over its replicated
  state, its Merkle cache and its registry of peers. A handler returns a response or an error,
  with the daemon afterwards; \<open>status\<close> is the HTTP status of an error and \<open>Internal\<close> an exception.
  Shown here: a push is all or nothing, and preserves that memory is what the log replays to; a
  paged read returns the segment.
\<close>

record daemon =
  sd_crdt :: crdt_state
  sd_peers :: peers_state
  sd_cache :: "merkle_cache option"

text \<open>
  The codec, \<open>JSON.parse\<close> of a claim payload, the hash, \<open>Number\<close> of a text, and whether the
  registry of peers can be written. \<open>mtime\<close>, \<open>now\<close> and \<open>stamp\<close> below are the file times and the clock.
\<close>

record sync_deps =
  sy_bridge :: bridge
  sy_parse :: "string \<Rightarrow> claim_payload option"
  sy_blake3 :: "bytes \<Rightarrow> bytes"
  sy_number :: "string \<Rightarrow> int option"
  sy_peers_ok :: bool

definition MAX_BATCH_RESPONSE_BYTES :: int where
  "MAX_BATCH_RESPONSE_BYTES = 8 * 1024 * 1024"

definition MAX_PUSH_BASE64_CHARS :: int where
  "MAX_PUSH_BASE64_CHARS = (maxPushBatchBytes CRDT_LIMITS * 4 + 2) div 3 + 4"

datatype route_error =
    BadType | BadPath | BadOffset | BadMaxBytes | SegmentNotFound
  | DayRefused | BadBatch | BatchTooLong | Undecodable | TooLarge | Internal

fun status :: "route_error \<Rightarrow> nat" where
  "status SegmentNotFound = 404"
| "status BatchTooLong = 413"
| "status TooLarge = 413"
| "status Internal = 500"
| "status _ = 400"

type_synonym 'a answer = "(route_error + 'a) \<times> daemon"

fun type_name :: "crdt_type \<Rightarrow> string" where
  "type_name LWW = ''lww''"
| "type_name GSET = ''gset''"
| "type_name ORSET = ''orset''"

definition isCrdtType :: "json option \<Rightarrow> crdt_type option" where
  "isCrdtType j =
     (case j of
        Some (JStr s) \<Rightarrow> if s = ''lww'' then Some LWW else if s = ''gset'' then Some GSET else if s = ''orset'' then Some ORSET else None
      | _ \<Rightarrow> None)"

text \<open>\<open>writerIdToHex\<close> is the identity a daemon goes by.\<close>

definition self_id :: "daemon \<Rightarrow> hlc_error + string" where
  "self_id d = writerIdToHex (cs_writer (sd_crdt d))"

definition recordInboundPeer :: "sync_deps \<Rightarrow> string \<Rightarrow> json \<Rightarrow> daemon \<Rightarrow> hlc_error + daemon" where
  "recordInboundPeer deps stamp body d =
     (case member ''peer_writer_id'' body of
        None \<Rightarrow> Inr d
      | Some w \<Rightarrow>
          sbind (self_id d) (\<lambda>self. Inr
            (d\<lparr>sd_peers := snd (recordPeer (sy_peers_ok deps) stamp
              \<lparr>ro_writerId = Some w, ro_url = None,
               ro_protocol = (case member ''peer_protocol'' body of Some (JInt p) \<Rightarrow> Some (JInt p) | Some JFrac \<Rightarrow> Some JFrac | _ \<Rightarrow> None),
               ro_selfWriterId = self\<rparr> (sd_peers d))\<rparr>)))"

text \<open>The end of a handler: the caller is recorded, then the response sent.\<close>

definition answer_recorded :: "sync_deps \<Rightarrow> string \<Rightarrow> json \<Rightarrow> 'a \<Rightarrow> daemon \<Rightarrow> 'a answer" where
  "answer_recorded deps stamp body res d =
     (case recordInboundPeer deps stamp body d of Inl _ \<Rightarrow> (Inl Internal, d) | Inr d' \<Rightarrow> (Inr res, d'))"

subsection \<open>Reading\<close>

record merkle_response =
  mr_roots :: "crdt_type \<Rightarrow> string"
  mr_peer :: "json option"

definition get_merkle :: "sync_deps \<Rightarrow> (crdt_type \<Rightarrow> string \<Rightarrow> int) \<Rightarrow> daemon \<Rightarrow> merkle_response answer" where
  "get_merkle deps mtime d =
     (case computeMerkle (sy_blake3 deps) (sy_bridge deps) mtime (cs_oplog (sd_crdt d)) (sd_cache d) of
        Inl _ \<Rightarrow> (Inl Internal, d)
      | Inr (snap, cache) \<Rightarrow>
          (case self_id d of
             Inl _ \<Rightarrow> (Inl Internal, d\<lparr>sd_cache := cache\<rparr>)
           | Inr self \<Rightarrow>
               (Inr \<lparr>mr_roots = roots snap,
                     mr_peer = Some (JObj [(''writer_id'', JStr self), (''protocol'', JInt SYNC_PROTOCOL_VERSION)])\<rparr>,
                d\<lparr>sd_cache := cache\<rparr>)))"

definition post_leaves :: "sync_deps \<Rightarrow> (crdt_type \<Rightarrow> string \<Rightarrow> int) \<Rightarrow> json \<Rightarrow> daemon \<Rightarrow> segment_leaf list answer" where
  "post_leaves deps mtime body d =
     (case isCrdtType (member ''type'' body) of
        None \<Rightarrow> (Inl BadType, d)
      | Some t \<Rightarrow>
          (case computeMerkle (sy_blake3 deps) (sy_bridge deps) mtime (cs_oplog (sd_crdt d)) (sd_cache d) of
             Inl _ \<Rightarrow> (Inl Internal, d)
           | Inr (snap, cache) \<Rightarrow> (Inr (leaves snap t), d\<lparr>sd_cache := cache\<rparr>)))"

record batch_response =
  br_bytes :: bytes
  br_size :: nat
  br_eof :: bool

definition integer_member :: "sync_deps \<Rightarrow> string \<Rightarrow> int \<Rightarrow> json \<Rightarrow> int option" where
  "integer_member deps k dflt body =
     (case member k body of None \<Rightarrow> Some dflt | Some v \<Rightarrow> js_number (sy_number deps) (Some v))"

definition post_batch :: "sync_deps \<Rightarrow> string \<Rightarrow> json \<Rightarrow> daemon \<Rightarrow> batch_response answer" where
  "post_batch deps stamp body d =
     (case isCrdtType (member ''type'' body) of
        None \<Rightarrow> (Inl BadType, d)
      | Some t \<Rightarrow>
     (case string_of (member ''path'' body) of
        None \<Rightarrow> (Inl BadPath, d)
      | Some path \<Rightarrow>
          if \<not> isSafeSegmentName path then (Inl BadPath, d)
          else
     (case integer_member deps ''offset'' 0 body of
        None \<Rightarrow> (Inl BadOffset, d)
      | Some offset \<Rightarrow>
          if offset < 0 then (Inl BadOffset, d)
          else
     (case integer_member deps ''max_bytes'' (1024 * 1024) body of
        None \<Rightarrow> (Inl BadMaxBytes, d)
      | Some cap \<Rightarrow>
          if cap \<le> 0 then (Inl BadMaxBytes, d)
          else
     (case readSegmentRange (cs_oplog (sd_crdt d)) t path (nat offset) (min cap MAX_BATCH_RESPONSE_BYTES) of
        None \<Rightarrow> (Inl SegmentNotFound, d)
      | Some (chunk, len) \<Rightarrow>
          answer_recorded deps stamp body
            \<lparr>br_bytes = chunk, br_size = len, br_eof = (offset + int (length chunk) \<ge> int len)\<rparr> d)))))"

subsection \<open>Pushing\<close>

record push_response =
  pu_applied :: nat
  pu_total :: nat

definition post_push :: "sync_deps \<Rightarrow> int \<Rightarrow> string \<Rightarrow> json \<Rightarrow> daemon \<Rightarrow> push_response answer" where
  "post_push deps now stamp body d =
     (case isCrdtType (member ''type'' body) of
        None \<Rightarrow> (Inl BadType, d)
      | Some t \<Rightarrow>
     (case string_of (member ''path'' body) of
        None \<Rightarrow> (Inl BadPath, d)
      | Some path \<Rightarrow>
          if \<not> isSafeSegmentName path then (Inl BadPath, d)
          else if isl (assertAcceptableSegmentDay path now) then (Inl DayRefused, d)
          else
     (case string_of (member ''batch'' body) of
        None \<Rightarrow> (Inl BadBatch, d)
      | Some batch \<Rightarrow>
          if batch = [] then (Inl BadBatch, d)
          else if int (length batch) > MAX_PUSH_BASE64_CHARS then (Inl BatchTooLong, d)
          else let bytes = base64_decode batch
               in case cs_decodeBatch (sy_bridge deps) bytes of
                    None \<Rightarrow> (Inl Undecodable, d)
                  | Some decoded \<Rightarrow>
                      (case appendRawBatchToDate now t path bytes (cs_oplog (sd_crdt d)) of
                         Inl (SegmentRejected RejectDay) \<Rightarrow> (Inl DayRefused, d)
                       | Inl (SegmentRejected RejectSize) \<Rightarrow> (Inl TooLarge, d)
                       | Inl _ \<Rightarrow> (Inl Internal, d)
                       | Inr (_, log) \<Rightarrow>
                           let (applied, st) = apply_all (sy_parse deps) now decoded (0, (sd_crdt d)\<lparr>cs_oplog := log\<rparr>)
                           in answer_recorded deps stamp body \<lparr>pu_applied = applied, pu_total = length decoded\<rparr> (d\<lparr>sd_crdt := st\<rparr>)))))"

subsection \<open>Frames\<close>

lemma answer_recorded_frame:
  "answer_recorded deps stamp body res d = (r, d') \<Longrightarrow> sd_crdt d' = sd_crdt d \<and> sd_cache d' = sd_cache d \<and> (r = Inr res \<or> r = Inl Internal)"
  by (auto simp: answer_recorded_def recordInboundPeer_def sbind_def split: sum.splits option.splits)

lemma self_id_ok: "writer_ok (cs_writer (sd_crdt d)) \<Longrightarrow> self_id d = Inr (bytesToHex (cs_writer (sd_crdt d)))"
  by (simp add: self_id_def writerIdToHex_def writer_ok_def)

lemma answer_recorded_ok:
  "writer_ok (cs_writer (sd_crdt d)) \<Longrightarrow> \<exists>d'. answer_recorded deps stamp body res d = (Inr res, d')"
  by (simp add: answer_recorded_def recordInboundPeer_def self_id_ok split: option.split)

lemma get_merkle_frame: "get_merkle deps mtime d = (r, d') \<Longrightarrow> sd_crdt d' = sd_crdt d \<and> sd_peers d' = sd_peers d"
  by (auto simp: get_merkle_def split: sum.splits prod.splits)

lemma post_leaves_frame: "post_leaves deps mtime body d = (r, d') \<Longrightarrow> sd_crdt d' = sd_crdt d \<and> sd_peers d' = sd_peers d"
  by (auto simp: post_leaves_def split: option.splits sum.splits prod.splits)

lemma post_batch_frame: "post_batch deps stamp body d = (r, d') \<Longrightarrow> sd_crdt d' = sd_crdt d \<and> sd_cache d' = sd_cache d"
  using answer_recorded_frame [of deps stamp body _ d r d']
  by (auto simp: post_batch_def split: option.splits sum.splits prod.splits if_splits)

lemma isCrdtType_name [simp]: "isCrdtType (Some (JStr (type_name t))) = Some t"
  by (cases t) (simp_all add: isCrdtType_def)

lemma wire_apply_oplog [simp]: "cs_oplog (fold (wire_apply parse now) ws st) = cs_oplog st"
  by (induction ws arbitrary: st) (simp_all add: wire_apply_parts)

lemma wire_apply_writer [simp]: "cs_writer (fold (wire_apply parse now) ws st) = cs_writer st"
proof -
  have "cs_writer (wire_apply parse now w st) = cs_writer st" for w st
    by (auto simp: wire_apply_def applyWireOpInMemory_def observe_clock_def split: option.splits sum.splits)
  then show ?thesis by (induction ws arbitrary: st) simp_all
qed

text \<open>An accepted push, taken apart.\<close>

lemma post_push_Inr:
  assumes "post_push deps now stamp body d = (Inr res, d')"
  obtains t path batch decoded n log where
    "isCrdtType (member ''type'' body) = Some t" "string_of (member ''path'' body) = Some path" "isSafeSegmentName path"
    "string_of (member ''batch'' body) = Some batch" "br_decode (sy_bridge deps) (base64_decode batch) = Some decoded"
    "appendRawBatchToDate now t path (base64_decode batch) (cs_oplog (sd_crdt d)) = Inr (n, log)"
    "sd_crdt d' = fold (wire_apply (sy_parse deps) now) decoded ((sd_crdt d)\<lparr>cs_oplog := log\<rparr>)"
    "sd_cache d' = sd_cache d" "pu_total res = length decoded"
proof -
  obtain t path where 1: "isCrdtType (member ''type'' body) = Some t" "string_of (member ''path'' body) = Some path" "isSafeSegmentName path"
    using assms by (auto simp: post_push_def split: option.splits if_splits)
  obtain batch where 2: "string_of (member ''batch'' body) = Some batch"
    using assms 1 by (auto simp: post_push_def split: option.splits if_splits)
  obtain decoded where 3: "br_decode (sy_bridge deps) (base64_decode batch) = Some decoded"
    using assms 1 2 by (auto simp: post_push_def cs_decodeBatch_def decodeBatch_def Let_def split: option.splits if_splits)
  obtain n log where 4: "appendRawBatchToDate now t path (base64_decode batch) (cs_oplog (sd_crdt d)) = Inr (n, log)"
    using assms 1 2 3
    by (auto simp: post_push_def cs_decodeBatch_def decodeBatch_def Let_def
        split: if_splits sum.splits append_error.splits reject_kind.splits prod.splits)
  let ?a = "apply_all (sy_parse deps) now decoded (0, (sd_crdt d)\<lparr>cs_oplog := log\<rparr>)"
  have 5: "answer_recorded deps stamp body \<lparr>pu_applied = fst ?a, pu_total = length decoded\<rparr> (d\<lparr>sd_crdt := snd ?a\<rparr>) = (Inr res, d')"
    using assms 1 2 3 4
    by (auto simp: post_push_def cs_decodeBatch_def decodeBatch_def Let_def split_beta split: if_splits)
  show ?thesis
    by (rule that [OF 1 2 3 4])
      (use answer_recorded_frame [OF 5] apply_all_fold [of "sy_parse deps" now decoded 0] in auto)
qed

lemma append_raw_no_throw:
  "appendRawBatchToDate now t path b log \<noteq> Inl (Varint v)" "appendRawBatchToDate now t path b log \<noteq> Inl Encode"
proof -
  obtain n log' where "appendBatchBytes now t path b False log = Inr (n, log')" using appendBatchBytes_total by blast
  then show "appendRawBatchToDate now t path b log \<noteq> Inl (Varint v)" "appendRawBatchToDate now t path b log \<noteq> Inl Encode"
    by (auto simp: appendRawBatchToDate_def lift_varint_def assertAcceptableSegmentDay_def sbind_def Let_def split: if_splits)
qed

lemma post_push_Inl:
  assumes "post_push deps now stamp body d = (Inl err, d')" "writer_ok (cs_writer (sd_crdt d))"
  shows "d' = d \<and> err \<noteq> Internal"
proof -
  have "answer_recorded deps stamp body res (d\<lparr>sd_crdt := st\<rparr>) \<noteq> (Inl err, d')" if "cs_writer st = cs_writer (sd_crdt d)" for res :: push_response and st
    using answer_recorded_ok [of "d\<lparr>sd_crdt := st\<rparr>" deps stamp body res] that assms(2) by auto
  note ok = this
  have "cs_writer (snd (apply_all (sy_parse deps) now ws (0, (sd_crdt d)\<lparr>cs_oplog := log\<rparr>))) = cs_writer (sd_crdt d)" for ws log
    by (simp add: apply_all_fold)
  from ok [OF this] have last: "answer_recorded deps stamp body res (d\<lparr>sd_crdt := snd (apply_all (sy_parse deps) now ws (0, (sd_crdt d)\<lparr>cs_oplog := log\<rparr>))\<rparr>) \<noteq> (Inl err, d')" for res :: push_response and ws log .
  note push = assms(1) [unfolded post_push_def]
  show ?thesis
  proof (cases "isCrdtType (member ''type'' body)")
    case None
    with push show ?thesis by simp
  next
    case t: (Some t)
    show ?thesis
    proof (cases "string_of (member ''path'' body)")
      case None
      with push t show ?thesis by simp
    next
      case path: (Some path)
      show ?thesis
      proof (cases "string_of (member ''batch'' body)")
        case None
        with push t path show ?thesis by (simp split: if_splits)
      next
        case batch: (Some batch)
        show ?thesis
        proof (cases "cs_decodeBatch (sy_bridge deps) (base64_decode batch)")
          case None
          with push t path batch show ?thesis by (simp add: Let_def split: if_splits)
        next
          case (Some decoded)
          show ?thesis
          proof (cases "appendRawBatchToDate now t path (base64_decode batch) (cs_oplog (sd_crdt d))")
            case (Inl e)
            with push t path batch Some append_raw_no_throw [of now t path "base64_decode batch" "cs_oplog (sd_crdt d)"] show ?thesis
              by (auto simp: Let_def split: if_splits append_error.splits reject_kind.splits)
          next
            case (Inr p)
            with push t path batch Some last [of _ decoded "snd p"] show ?thesis
              by (simp add: Let_def split_beta split: if_splits)
          qed
        qed
      qed
    qed
  qed
qed


subsection \<open>The operations of a day\<close>

definition day_ops :: "bridge \<Rightarrow> oplog \<Rightarrow> crdt_type \<Rightarrow> string \<Rightarrow> wire_op set" where
  "day_ops br log t day = set (seg_ops br (file_or_empty log t day))"

text \<open>
  What \<open>crdt/wire.ts\<close> documents of \<open>decodeSegment\<close>: every operation of every batch, in file
  order, in one call.
\<close>

definition segment_codec :: "bridge \<Rightarrow> bool" where
  "segment_codec br \<longleftrightarrow>
     (\<forall>bs. batches_ok br bs \<longrightarrow> br_decodeSegment br (concat (map frame bs)) = Some (concat (map (\<lambda>b. the (br_decode br b)) bs)))"

definition logs_ok :: "bridge \<Rightarrow> oplog \<Rightarrow> bool" where
  "logs_ok br log \<longleftrightarrow> (\<forall>t. log_ok br t log)"

lemma file_seg_ok: "log_ok br t log \<Longrightarrow> seg_ok br (file_or_empty log t day)"
  using seg_ok_Nil by (auto simp: log_ok_def file_or_empty_def seg_file_def split: option.split dest!: map_of_SomeD)

lemma seg_ops_frames: "batches_ok br bs \<Longrightarrow> seg_ops br (concat (map frame bs)) = concat (map (\<lambda>b. the (br_decode br b)) bs)"
  using hydrate_frames [OF _ torn_Nil, of br bs] by (simp add: seg_ops_def)

lemma seg_op_set_day_ops:
  assumes "segment_codec br" "log_ok br t log"
  shows "seg_op_set br log t day = day_ops br log t day"
proof (cases "seg_file log t day")
  case None
  then show ?thesis using seg_ok_Nil by (simp add: seg_op_set_def day_ops_def file_or_empty_def)
next
  case (Some b)
  then have "seg_ok br b" using file_seg_ok [OF assms(2), of day] by (simp add: file_or_empty_def)
  then obtain bs where "batches_ok br bs" "b = concat (map frame bs)" unfolding seg_ok_def by blast
  then show ?thesis using Some assms(1) seg_ops_frames
    by (simp add: segment_codec_def seg_op_set_def day_ops_def file_or_empty_def)
qed

lemma set_replay:
  assumes "log_ok br t log"
  shows "set (replay br t log) = (\<Union>day. day_ops br log t day)"
proof -
  have d: "distinct (map fst (disk log t))" using assms by (simp add: log_ok_def)
  have "set_mset (mset (replay br t log)) = (\<Union>f \<in> set (disk log t). set (seg_ops br (snd f)))"
    unfolding mset_replay [OF log_ok_crashed [OF assms]] by (auto simp: set_mset_sum)
  also have "\<dots> = (\<Union>day. day_ops br log t day)"
  proof
    show "(\<Union>f \<in> set (disk log t). set (seg_ops br (snd f))) \<subseteq> (\<Union>day. day_ops br log t day)"
    proof (intro UN_least)
      fix f assume "f \<in> set (disk log t)"
      then have "seg_file log t (fst f) = Some (snd f)" using map_of_eq_on_keys [OF d] by (simp add: seg_file_def)
      then have "set (seg_ops br (snd f)) = day_ops br log t (fst f)" by (simp add: day_ops_def file_or_empty_def)
      then show "set (seg_ops br (snd f)) \<subseteq> (\<Union>day. day_ops br log t day)" by blast
    qed
    show "(\<Union>day. day_ops br log t day) \<subseteq> (\<Union>f \<in> set (disk log t). set (seg_ops br (snd f)))"
      using seg_ok_Nil
      by (auto simp: day_ops_def file_or_empty_def seg_file_def split: option.splits dest!: map_of_SomeD) force
  qed
  finally show ?thesis by simp
qed

lemma all_types: "(\<forall>t. P t) \<longleftrightarrow> P GSET \<and> P ORSET \<and> P LWW"
  by (metis crdt_type.exhaust)

lemma set_logged: "logs_ok br log \<Longrightarrow> set (logged br log) = (\<Union>t day. day_ops br log t day)"
proof -
  assume "logs_ok br log"
  then have "set (replay br t log) = (\<Union>day. day_ops br log t day)" for t using set_replay by (simp add: logs_ok_def)
  moreover have "(\<Union>t. f t) = f GSET \<union> f ORSET \<union> f LWW" for f :: "crdt_type \<Rightarrow> wire_op set"
    using all_types [of "\<lambda>t. _ \<notin> f t"] by auto
  ultimately show ?thesis by (simp add: logged_def Un_assoc)
qed

subsection \<open>What a push adds\<close>

text \<open>The state after the operations of a batch arrived.\<close>

definition pushed :: "bridge \<Rightarrow> crdt_type \<Rightarrow> string \<Rightarrow> bytes \<Rightarrow> wire_op list \<Rightarrow> oplog \<Rightarrow> oplog \<Rightarrow> bool" where
  "pushed br t path bytes decoded log log' \<longleftrightarrow> logs_ok br log'
     \<and> (\<forall>u day. file_or_empty log' u day = (if u = t \<and> day = path then file_or_empty log u day @ frame bytes else file_or_empty log u day))
     \<and> (\<forall>u day. day_ops br log' u day = (if u = t \<and> day = path then day_ops br log u day \<union> set decoded else day_ops br log u day))"

lemma append_raw_pushed:
  assumes "appendRawBatchToDate now t path bytes log = Inr (n, log')" "logs_ok br log" "br_decode br bytes = Some decoded"
  shows "pushed br t path bytes decoded log log'"
proof -
  obtain m where a: "appendBatchBytes now t path bytes False log = Inr (m, log')" "int (length bytes) \<le> maxPushBatchBytes CRDT_LIMITS"
    using assms(1) by (auto simp: appendRawBatchToDate_def lift_varint_def assertAcceptableSegmentDay_def sbind_def Let_def
        split: if_splits sum.splits)
  then have f: "frame_ok bytes" by (simp add: frame_ok_def CRDT_LIMITS_def VARINT_U32_MAX_def)
  have d: "disk log' = disk (append_file t path (frame bytes) log)" using appendBatchBytes_disk [OF a(1)] by simp
  have contents: "file_or_empty log' u day = (if u = t \<and> day = path then file_or_empty log u day @ frame bytes else file_or_empty log u day)" for u day
    using d by (auto simp: append_file_disk file_or_empty_def seg_file_def update_conv')
  have "seg_ops br (file_or_empty log t path @ frame bytes) = seg_ops br (file_or_empty log t path) @ decoded"
    using seg_ok_append [OF file_seg_ok f assms(3)] assms(2) by (simp add: logs_ok_def)
  then have ops: "day_ops br log' u day = (if u = t \<and> day = path then day_ops br log u day \<union> set decoded else day_ops br log u day)" for u day
    by (simp add: day_ops_def contents)
  have "log_ok br u log'" for u
  proof (cases "u = t")
    case True
    then show ?thesis using append_file_replay [OF _ f assms(3) d] assms(2) by (simp add: logs_ok_def)
  next
    case False
    then have "disk log' u = disk log u" using d by (simp add: append_file_disk)
    then show ?thesis using assms(2) by (simp add: logs_ok_def log_ok_def)
  qed
  then show ?thesis using contents ops unfolding pushed_def logs_ok_def by blast
qed

lemma pushed_logged:
  assumes "pushed br t path bytes decoded log log'" "logs_ok br log"
  shows "set (logged br log') = set (logged br log) \<union> set decoded"
proof -
  have "(\<Union>u day. day_ops br log' u day) = (\<Union>u day. day_ops br log u day) \<union> set decoded"
  proof -
    have o: "day_ops br log' u day = (if u = t \<and> day = path then day_ops br log u day \<union> set decoded else day_ops br log u day)" for u day
      using assms(1) unfolding pushed_def by blast
    have 1: "day_ops br log' u day \<subseteq> day_ops br log u day \<union> set decoded" for u day unfolding o by auto
    have 2: "day_ops br log u day \<subseteq> day_ops br log' u day" for u day unfolding o by auto
    have 3: "set decoded \<subseteq> day_ops br log' t path" unfolding o by auto
    show ?thesis
    proof (intro equalityI Un_least UN_least)
      show "day_ops br log' u day \<subseteq> (\<Union>u day. day_ops br log u day) \<union> set decoded" for u day using 1 [of u day] by blast
      show "day_ops br log u day \<subseteq> (\<Union>u day. day_ops br log' u day)" for u day using 2 [of u day] by blast
      show "set decoded \<subseteq> (\<Union>u day. day_ops br log' u day)" using 3 by blast
    qed
  qed
  then show ?thesis using assms set_logged by (simp add: pushed_def)
qed

lemma durable_logs_ok: "durable br parse st \<Longrightarrow> logs_ok br (cs_oplog st)"
  by (simp add: durable_def logs_ok_def)

text \<open>Memory keeps up with the log when a batch is appended and applied.\<close>

lemma durable_batch:
  assumes "durable br parse st" "pushed br t path bytes ws (cs_oplog st) log"
    and "\<forall>w \<in> set (logged br log). wire_ok w" "\<forall>a \<in> set (logged br log). \<forall>b \<in> set (logged br log). wire_compat parse a b"
  shows "durable br parse (fold (wire_apply parse now) ws (st\<lparr>cs_oplog := log\<rparr>))"
proof -
  let ?st = "st\<lparr>cs_oplog := log\<rparr>" and ?l = "logged br (cs_oplog st)"
  have ok: "\<forall>t. log_ok br t log" using assms(2) by (simp add: pushed_def logs_ok_def)
  have s: "set (logged br log) = set (?l @ ws)"
    using pushed_logged [OF assms(2) durable_logs_ok [OF assms(1)]] by simp
  have inv: "replica_inv ?st" and v: "replica_view ?st = fold (wire_step parse) ?l empty_view"
    using assms(1) by (simp_all add: durable_def replica_inv_def replica_view_def)
  have w: "\<forall>w \<in> set ws. wire_ok w" using assms(3) s by simp
  have "replica_view (fold (wire_apply parse now) ws ?st) = fold (wire_step parse) (?l @ ws) empty_view"
    using replica.view_fold [OF inv w] v by simp
  also have "\<dots> = Finite_Set.fold (wire_step parse) empty_view (set (?l @ ws))"
    using assms(3,4) s by (intro replica.fold_step_set) auto
  also have "\<dots> = fold (wire_step parse) (logged br log) empty_view"
    using replica.fold_step_set [OF assms(3,4), of empty_view] s by simp
  finally show ?thesis
    using ok assms(3,4) replica.inv_fold [OF inv w, of parse now] by (simp add: durable_def)
qed

end
