(* ===== verification/Sync.thy ===== *)
theory Sync
  imports SyncRoutes
begin

text \<open>
  Anti-entropy between two daemons, \<open>runSyncWith\<close> of \<open>src/daemon/src/cli/sync.ts\<close>: the initiator
  compares Merkle summaries, pulls the segments that differ and pushes the ones the peer lacks.
  A session holds both daemons and the fate of the requests to come: each is delivered, lost, or
  carried out with its response lost. Both daemons run this program, with the same codec; the
  clock and the file times are those of the session. The project selectors of the requests and
  the text of the report are left out.
\<close>

datatype delivery = Delivered | RequestLost | ResponseLost

record sync_summary =
  pulledSegments :: nat
  pulledBytes :: nat
  pushedSegments :: nat
  pushedBytes :: nat
  roundTrips :: nat
  refusedSegments :: nat

definition new_summary :: sync_summary where
  "new_summary = \<lparr>pulledSegments = 0, pulledBytes = 0, pushedSegments = 0, pushedBytes = 0, roundTrips = 0, refusedSegments = 0\<rparr>"

record session =
  ss_local :: daemon
  ss_peer :: daemon
  ss_network :: "delivery list"
  ss_summary :: sync_summary

datatype sync_failure = Unreachable | HttpError route_error | LocalFailed | BadSegment varint_error

type_synonym 'a sync = "session \<Rightarrow> (sync_failure + 'a) \<times> session"

text \<open>A network that has run out of incidents delivers.\<close>

definition next_delivery :: "session \<Rightarrow> delivery \<times> session" where
  "next_delivery s = (case ss_network s of [] \<Rightarrow> (Delivered, s) | d # ds \<Rightarrow> (d, s\<lparr>ss_network := ds\<rparr>))"

definition response :: "delivery \<Rightarrow> route_error + 'a \<Rightarrow> sync_failure + 'a" where
  "response d r = (if d = ResponseLost then Inl Unreachable else case r of Inl e \<Rightarrow> Inl (HttpError e) | Inr a \<Rightarrow> Inr a)"

definition on_peer :: "(daemon \<Rightarrow> 'a answer) \<Rightarrow> 'a sync" where
  "on_peer h s =
     (case next_delivery s of
        (RequestLost, s') \<Rightarrow> (Inl Unreachable, s')
      | (d, s') \<Rightarrow> (case h (ss_peer s') of (r, x) \<Rightarrow> (response d r, s'\<lparr>ss_peer := x\<rparr>)))"

definition on_local :: "(daemon \<Rightarrow> 'a answer) \<Rightarrow> 'a sync" where
  "on_local h s =
     (case next_delivery s of
        (RequestLost, s') \<Rightarrow> (Inl Unreachable, s')
      | (d, s') \<Rightarrow> (case h (ss_local s') of (r, x) \<Rightarrow> (response d r, s'\<lparr>ss_local := x\<rparr>)))"

definition then_do :: "'a sync \<Rightarrow> ('a \<Rightarrow> 'b sync) \<Rightarrow> 'b sync" where
  "then_do m k s = (case m s of (Inl e, s') \<Rightarrow> (Inl e, s') | (Inr a, s') \<Rightarrow> k a s')"

definition tally :: "(sync_summary \<Rightarrow> sync_summary) \<Rightarrow> session \<Rightarrow> session" where
  "tally f s = s\<lparr>ss_summary := f (ss_summary s)\<rparr>"

definition trip :: "session \<Rightarrow> session" where
  "trip = tally (\<lambda>m. m\<lparr>roundTrips := Suc (roundTrips m)\<rparr>)"

definition isRefusal :: "sync_failure \<Rightarrow> bool" where
  "isRefusal e = (case e of HttpError r \<Rightarrow> 400 \<le> status r \<and> status r < 500 | _ \<Rightarrow> False)"

subsection \<open>Requests\<close>

definition leaves_body :: "crdt_type \<Rightarrow> json" where
  "leaves_body t = JObj [(''type'', JStr (type_name t))]"

definition batch_body :: "string \<Rightarrow> crdt_type \<Rightarrow> string \<Rightarrow> int \<Rightarrow> json" where
  "batch_body self t path offset =
     JObj [(''type'', JStr (type_name t)), (''path'', JStr path), (''offset'', JInt offset),
       (''peer_writer_id'', JStr self), (''peer_protocol'', JInt SYNC_PROTOCOL_VERSION)]"

definition local_push_body :: "crdt_type \<Rightarrow> string \<Rightarrow> bytes \<Rightarrow> json" where
  "local_push_body t path batch =
     JObj [(''type'', JStr (type_name t)), (''path'', JStr path), (''batch'', JStr (base64_encode batch))]"

definition peer_push_body :: "string \<Rightarrow> crdt_type \<Rightarrow> string \<Rightarrow> bytes \<Rightarrow> json" where
  "peer_push_body self t path batch =
     JObj [(''type'', JStr (type_name t)), (''path'', JStr path), (''batch'', JStr (base64_encode batch)),
       (''peer_writer_id'', JStr self), (''peer_protocol'', JInt SYNC_PROTOCOL_VERSION)]"

text \<open>What a run of the command is given besides the session.\<close>

record sync_env =
  sv_deps :: sync_deps
  sv_mtime_local :: "crdt_type \<Rightarrow> string \<Rightarrow> int"
  sv_mtime_peer :: "crdt_type \<Rightarrow> string \<Rightarrow> int"
  sv_now :: int
  sv_stamp :: string
  sv_self :: string
  sv_url :: string

text \<open>\<open>pullSegment\<close>: at most 1024 windows.\<close>

definition MAX_PULL_WINDOWS :: nat where "MAX_PULL_WINDOWS = 1024"

fun pull_loop :: "sync_env \<Rightarrow> crdt_type \<Rightarrow> string \<Rightarrow> nat \<Rightarrow> int \<Rightarrow> bytes \<Rightarrow> bytes sync" where
  "pull_loop v t path 0 offset chunks s = (Inr chunks, s)"
| "pull_loop v t path (Suc n) offset chunks s =
     then_do (on_peer (post_batch (sv_deps v) (sv_stamp v) (batch_body (sv_self v) t path offset))) (\<lambda>res s.
       if br_eof res then (Inr (chunks @ br_bytes res), s)
       else if br_bytes res = [] then (Inr chunks, s)
       else pull_loop v t path n (offset + int (length (br_bytes res))) (chunks @ br_bytes res) s) s"

definition pullSegment :: "sync_env \<Rightarrow> crdt_type \<Rightarrow> string \<Rightarrow> bytes sync" where
  "pullSegment v t path = pull_loop v t path MAX_PULL_WINDOWS 0 []"

text \<open>The batches of one segment: a refusal ends the segment, any other failure the run.\<close>

fun transfer :: "(bytes \<Rightarrow> push_response sync) \<Rightarrow> bytes list \<Rightarrow> unit sync" where
  "transfer push [] s = (Inr (), s)"
| "transfer push (b # bs) s =
     (case push b s of
        (Inr _, s') \<Rightarrow> transfer push bs s'
      | (Inl e, s') \<Rightarrow>
          if isRefusal e then (Inr (), tally (\<lambda>m. m\<lparr>refusedSegments := Suc (refusedSegments m)\<rparr>) s') else (Inl e, s'))"

definition push_local :: "sync_env \<Rightarrow> crdt_type \<Rightarrow> string \<Rightarrow> bytes \<Rightarrow> push_response sync" where
  "push_local v t path b = on_local (post_push (sv_deps v) (sv_now v) (sv_stamp v) (local_push_body t path b))"

definition push_peer :: "sync_env \<Rightarrow> crdt_type \<Rightarrow> string \<Rightarrow> bytes \<Rightarrow> push_response sync" where
  "push_peer v t path b s = on_peer (post_push (sv_deps v) (sv_now v) (sv_stamp v) (peer_push_body (sv_self v) t path b)) (trip s)"

definition split_then :: "(bytes \<Rightarrow> push_response sync) \<Rightarrow> bytes \<Rightarrow> unit sync" where
  "split_then push bytes s =
     (case splitSegmentBatches bytes of Inl e \<Rightarrow> (Inl (BadSegment e), s) | Inr bs \<Rightarrow> transfer push bs s)"

definition pull_target :: "sync_env \<Rightarrow> crdt_type \<times> string \<times> string \<Rightarrow> unit sync" where
  "pull_target v x =
     (case x of (t, path, _) \<Rightarrow>
        then_do (pullSegment v t path) (\<lambda>bytes s.
          split_then (push_local v t path) bytes
            (trip (tally (\<lambda>m. m\<lparr>pulledSegments := Suc (pulledSegments m), pulledBytes := pulledBytes m + length bytes\<rparr>) s))))"

definition push_target :: "sync_env \<Rightarrow> crdt_type \<times> string \<times> string \<Rightarrow> unit sync" where
  "push_target v x s =
     (case x of (t, path, _) \<Rightarrow>
        (case readSegmentBytes (cs_oplog (sd_crdt (ss_local s))) t path of
           None \<Rightarrow> (Inr (), s)
         | Some bytes \<Rightarrow>
             split_then (push_peer v t path) bytes
               (tally (\<lambda>m. m\<lparr>pushedSegments := Suc (pushedSegments m), pushedBytes := pushedBytes m + length bytes\<rparr>) s)))"

fun for_each :: "('x \<Rightarrow> unit sync) \<Rightarrow> 'x list \<Rightarrow> unit sync" where
  "for_each f [] s = (Inr (), s)"
| "for_each f (x # xs) s = then_do (f x) (\<lambda>_. for_each f xs) s"

subsection \<open>The run\<close>

text \<open>Leaves are asked for only where the roots differ.\<close>

fun fetch_leaves :: "sync_env \<Rightarrow> merkle_snapshot \<Rightarrow> (crdt_type \<Rightarrow> string) \<Rightarrow> crdt_type list \<Rightarrow> merkle_snapshot \<Rightarrow> merkle_snapshot sync" where
  "fetch_leaves v ours theirRoots [] theirs s = (Inr theirs, s)"
| "fetch_leaves v ours theirRoots (t # ts) theirs s =
     (if roots ours t = theirRoots t
      then fetch_leaves v ours theirRoots ts (theirs\<lparr>leaves := (leaves theirs)(t := leaves ours t)\<rparr>) s
      else then_do (on_peer (post_leaves (sv_deps v) (sv_mtime_peer v) (leaves_body t))) (\<lambda>ls s.
             fetch_leaves v ours theirRoots ts (theirs\<lparr>leaves := (leaves theirs)(t := ls)\<rparr>) (trip s)) s)"

definition rootsMatch :: "(crdt_type \<Rightarrow> string) \<Rightarrow> (crdt_type \<Rightarrow> string) \<Rightarrow> bool" where
  "rootsMatch a b \<longleftrightarrow> a LWW = b LWW \<and> a GSET = b GSET \<and> a ORSET = b ORSET"

definition recordPeerOnSuccess :: "sync_env \<Rightarrow> peer_handshake option \<Rightarrow> session \<Rightarrow> session" where
  "recordPeerOnSuccess v handshake s =
     (case handshake of
        None \<Rightarrow> s
      | Some h \<Rightarrow> s\<lparr>ss_local := (ss_local s)\<lparr>sd_peers := snd (recordPeer (sy_peers_ok (sv_deps v)) (sv_stamp v)
          \<lparr>ro_writerId = Some (JStr (ph_writer_id h)), ro_url = Some (sv_url v), ro_protocol = Some (JInt (ph_protocol h)),
           ro_selfWriterId = sv_self v\<rparr> (sd_peers (ss_local s)))\<rparr>\<rparr>)"

text \<open>\<open>True\<close> when both sides were up to date already.\<close>

definition runSyncWith :: "sync_env \<Rightarrow> bool sync" where
  "runSyncWith v s =
     (let d = ss_local s
      in case computeMerkle (sy_blake3 (sv_deps v)) (sy_bridge (sv_deps v)) (sv_mtime_local v) (cs_oplog (sd_crdt d)) (sd_cache d) of
           Inl _ \<Rightarrow> (Inl LocalFailed, s)
         | Inr (ours, cache) \<Rightarrow>
             then_do (on_peer (get_merkle (sv_deps v) (sv_mtime_peer v))) (\<lambda>res s.
               let s = trip s; handshake = parsePeerHandshake (mr_peer res); theirRoots = mr_roots res
               in if rootsMatch (roots ours) theirRoots then (Inr True, recordPeerOnSuccess v handshake s)
                  else then_do (fetch_leaves v ours theirRoots TYPES \<lparr>roots = theirRoots, leaves = (\<lambda>_. [])\<rparr>) (\<lambda>theirs.
                    let diff = diffSnapshots ours theirs
                    in then_do (for_each (pull_target v) (md_pull diff)) (\<lambda>_.
                       then_do (for_each (push_target v) (md_push diff)) (\<lambda>_ s.
                         (Inr False, recordPeerOnSuccess v handshake s)))) s)
               (s\<lparr>ss_local := d\<lparr>sd_cache := cache\<rparr>\<rparr>))"

end
