(* ===== verification/AntiEntropy.thy ===== *)
theory AntiEntropy
  imports Sync
begin

text \<open>
  What a run of \<open>hayven sync\<close> achieves, over the model of the theory \<open>Sync\<close>: wherever the network
  fails, both daemons keep every operation they had and only gain operations of the other; a run
  without failure and refusal leaves the initiator with the union; and after a run in each
  direction the two daemons show the same state.
\<close>

subsection \<open>Healthy daemons\<close>

definition ops :: "sync_env \<Rightarrow> daemon \<Rightarrow> crdt_type \<Rightarrow> string \<Rightarrow> wire_op set" where
  "ops v d = day_ops (sy_bridge (sv_deps v)) (cs_oplog (sd_crdt d))"

definition all_ops :: "sync_env \<Rightarrow> daemon \<Rightarrow> wire_op set" where
  "all_ops v d = (\<Union>t day. ops v d t day)"

definition healthy :: "sync_env \<Rightarrow> daemon \<Rightarrow> bool" where
  "healthy v d \<longleftrightarrow> durable (sy_bridge (sv_deps v)) (sy_parse (sv_deps v)) (sd_crdt d) \<and> writer_ok (cs_writer (sd_crdt d))"

text \<open>Operations that may meet: well formed, and none a different content under a timestamp reused.\<close>

definition may_meet :: "sync_env \<Rightarrow> wire_op set \<Rightarrow> bool" where
  "may_meet v X \<longleftrightarrow> (\<forall>w \<in> X. wire_ok w) \<and> (\<forall>a \<in> X. \<forall>b \<in> X. wire_compat (sy_parse (sv_deps v)) a b)"

text \<open>\<open>d'\<close> holds what \<open>d\<close> held and \<open>F\<close>.\<close>

definition absorbed :: "sync_env \<Rightarrow> (crdt_type \<Rightarrow> string \<Rightarrow> wire_op set) \<Rightarrow> daemon \<Rightarrow> daemon \<Rightarrow> bool" where
  "absorbed v F d d' \<longleftrightarrow> healthy v d' \<and> (\<forall>t day. ops v d' t day = ops v d t day \<union> F t day)"

definition at_day :: "crdt_type \<Rightarrow> string \<Rightarrow> wire_op set \<Rightarrow> crdt_type \<Rightarrow> string \<Rightarrow> wire_op set" where
  "at_day t path X u day = (if u = t \<and> day = path then X else {})"

lemma may_meet_mono: "may_meet v X \<Longrightarrow> Y \<subseteq> X \<Longrightarrow> may_meet v Y"
  unfolding may_meet_def by blast

lemma absorbed_refl: "healthy v d \<Longrightarrow> absorbed v (\<lambda>_ _. {}) d d"
  by (simp add: absorbed_def)

lemma absorbed_trans: "absorbed v F d e \<Longrightarrow> absorbed v G e f \<Longrightarrow> absorbed v (\<lambda>t day. F t day \<union> G t day) d f"
  by (auto simp: absorbed_def)

lemma absorbed_all_ops: "absorbed v F d d' \<Longrightarrow> all_ops v d' = all_ops v d \<union> (\<Union>t day. F t day)"
  by (auto simp: absorbed_def all_ops_def)

lemma absorbed_healthy: "absorbed v F d d' \<Longrightarrow> healthy v d'"
  by (simp add: absorbed_def)

lemma at_day_empty [simp]: "at_day t path {} = (\<lambda>_ _. {})"
  by (auto simp: at_day_def fun_eq_iff)

lemma Union_at_day [simp]: "(\<Union>u day. at_day t path X u day) = X"
  by (auto simp: at_day_def split: if_splits)

lemma same_crdt_healthy: "sd_crdt d' = sd_crdt d \<Longrightarrow> healthy v d' = healthy v d \<and> ops v d' = ops v d \<and> all_ops v d' = all_ops v d"
  by (simp add: healthy_def ops_def all_ops_def)

text \<open>A push, accepted or refused.\<close>

lemma push_effect:
  assumes "healthy v d" "post_push (sv_deps v) now stamp body d = (r, d')"
    and "isCrdtType (member ''type'' body) = Some t" "string_of (member ''path'' body) = Some path"
    and "string_of (member ''batch'' body) = Some batch" "br_decode (sy_bridge (sv_deps v)) (base64_decode batch) = Some ws"
    and "may_meet v (all_ops v d \<union> set ws)"
  shows "if isl r then d' = d else absorbed v (at_day t path (set ws)) d d'"
proof (cases r)
  case (Inl e)
  then show ?thesis using post_push_Inl [of "sv_deps v" now stamp body d e d'] assms(1,2) by (simp add: healthy_def)
next
  case (Inr res)
  let ?br = "sy_bridge (sv_deps v)" and ?log = "cs_oplog (sd_crdt d)"
  obtain n log where a: "appendRawBatchToDate now t path (base64_decode batch) ?log = Inr (n, log)"
    and d': "sd_crdt d' = fold (wire_apply (sy_parse (sv_deps v)) now) ws ((sd_crdt d)\<lparr>cs_oplog := log\<rparr>)"
    using assms(2) unfolding Inr
    by (rule post_push_Inr) (use assms(3-6) in auto)
  have dur: "durable ?br (sy_parse (sv_deps v)) (sd_crdt d)" using assms(1) by (simp add: healthy_def)
  note ok = durable_logs_ok [OF dur]
  have p: "pushed ?br t path (base64_decode batch) ws ?log log" by (rule append_raw_pushed [OF a ok assms(6)])
  have "set (logged ?br log) = all_ops v d \<union> set ws"
    using pushed_logged [OF p ok] set_logged [OF ok] by (simp add: all_ops_def ops_def)
  then have "durable ?br (sy_parse (sv_deps v)) (sd_crdt d')"
    unfolding d' using assms(7) by (intro durable_batch [OF dur p]) (simp_all add: may_meet_def)
  moreover have "cs_writer (sd_crdt d') = cs_writer (sd_crdt d)" "cs_oplog (sd_crdt d') = log" by (simp_all add: d')
  ultimately show ?thesis
    using p assms(1) Inr by (auto simp: absorbed_def healthy_def ops_def pushed_def at_day_def)
qed

subsection \<open>Transfers\<close>

text \<open>
  An endpoint of a session: the daemon that batches are pushed to, what of the session a push
  leaves alone, and the push. A push that fails may still have been carried out.
\<close>

locale endpoint =
  fixes v :: sync_env and get :: "session \<Rightarrow> daemon" and rest :: "session \<Rightarrow> 'r"
    and push :: "crdt_type \<Rightarrow> string \<Rightarrow> bytes \<Rightarrow> push_response sync"
  assumes push_rest: "push t path b s = (r, s') \<Longrightarrow> rest s' = rest s \<and> refusedSegments (ss_summary s') = refusedSegments (ss_summary s)"
    and push_get: "healthy v (get s) \<Longrightarrow> br_decode (sy_bridge (sv_deps v)) b = Some ws \<Longrightarrow> may_meet v (all_ops v (get s) \<union> set ws)
      \<Longrightarrow> push t path b s = (r, s')
      \<Longrightarrow> absorbed v (at_day t path (set ws)) (get s) (get s') \<or> isl r \<and> absorbed v (\<lambda>_ _. {}) (get s) (get s')"
    and tally_get: "get (tally f s) = get s" "rest (tally f s) = rest s"
begin

lemma transfer_effect:
  assumes "transfer (push t path) bs s = (r, s')" "healthy v (get s)" "\<forall>b \<in> set bs. br_decode (sy_bridge (sv_deps v)) b \<noteq> None"
    and "may_meet v (all_ops v (get s) \<union> (\<Union>b \<in> set bs. set (the (br_decode (sy_bridge (sv_deps v)) b))))"
  shows "rest s' = rest s \<and> refusedSegments (ss_summary s) \<le> refusedSegments (ss_summary s')
    \<and> (\<exists>Y. absorbed v (at_day t path Y) (get s) (get s') \<and> Y \<subseteq> (\<Union>b \<in> set bs. set (the (br_decode (sy_bridge (sv_deps v)) b)))
        \<and> (\<not> isl r \<and> refusedSegments (ss_summary s') = refusedSegments (ss_summary s)
             \<longrightarrow> Y = (\<Union>b \<in> set bs. set (the (br_decode (sy_bridge (sv_deps v)) b)))))"
  using assms
proof (induction bs arbitrary: s)
  case Nil
  then show ?case using absorbed_refl [OF Nil.prems(2)] by (auto intro!: exI [of _ "{}"])
next
  case (Cons b bs)
  let ?D = "\<lambda>b. set (the (br_decode (sy_bridge (sv_deps v)) b))"
  obtain x s1 where p: "push t path b s = (x, s1)" by fastforce
  obtain ws where ws: "br_decode (sy_bridge (sv_deps v)) b = Some ws" using Cons.prems(3) by auto
  have rest1: "rest s1 = rest s" "refusedSegments (ss_summary s1) = refusedSegments (ss_summary s)" using push_rest [OF p] by auto
  have "may_meet v (all_ops v (get s) \<union> set ws)" by (rule may_meet_mono [OF Cons.prems(4)]) (use ws in auto)
  from push_get [OF Cons.prems(2) ws this p]
  have "\<exists>Y. absorbed v (at_day t path Y) (get s) (get s1) \<and> Y \<subseteq> ?D b \<and> (\<not> isl x \<longrightarrow> Y = ?D b)"
  proof
    assume "absorbed v (at_day t path (set ws)) (get s) (get s1)"
    then show ?thesis using ws by (intro exI [of _ "set ws"]) simp
  next
    assume "isl x \<and> absorbed v (\<lambda>_ _. {}) (get s) (get s1)"
    then show ?thesis by (intro exI [of _ "{}"]) simp
  qed
  then obtain Y where Y: "absorbed v (at_day t path Y) (get s) (get s1)" "Y \<subseteq> ?D b" "\<not> isl x \<longrightarrow> Y = ?D b" by blast
  show ?case
  proof (cases x)
    case (Inl e)
    define s2 where "s2 = (if isRefusal e then tally (\<lambda>m. m\<lparr>refusedSegments := Suc (refusedSegments m)\<rparr>) s1 else s1)"
    have s': "s' = s2" "isl r \<or> isRefusal e" using Cons.prems(1) p Inl by (auto simp: s2_def split: if_splits)
    have "get s2 = get s1" "rest s2 = rest s" using rest1 by (auto simp: s2_def tally_get)
    moreover have "refusedSegments (ss_summary s2) = (if isRefusal e then Suc (refusedSegments (ss_summary s)) else refusedSegments (ss_summary s))"
      using rest1 by (simp add: s2_def tally_def)
    ultimately show ?thesis using Y(1,2) s' by (intro conjI exI [of _ Y]) auto
  next
    case (Inr res)
    have Yb: "Y = ?D b" using Y(3) Inr by simp
    have "transfer (push t path) bs s1 = (r, s')" using Cons.prems(1) p Inr by simp
    moreover have "all_ops v (get s1) = all_ops v (get s) \<union> ?D b" using absorbed_all_ops [OF Y(1)] Yb by simp
    ultimately obtain Z where Z: "rest s' = rest s1" "refusedSegments (ss_summary s1) \<le> refusedSegments (ss_summary s')"
        "absorbed v (at_day t path Z) (get s1) (get s')" "Z \<subseteq> (\<Union>b \<in> set bs. ?D b)"
        "\<not> isl r \<and> refusedSegments (ss_summary s') = refusedSegments (ss_summary s1) \<longrightarrow> Z = (\<Union>b \<in> set bs. ?D b)"
      using Cons.IH [of s1] absorbed_healthy [OF Y(1)] Cons.prems(3,4) by (auto simp: Un_assoc)
    have "absorbed v (at_day t path (Y \<union> Z)) (get s) (get s')"
      using absorbed_trans [OF Y(1) Z(3)] by (simp add: absorbed_def at_day_def)
    then show ?thesis using Z rest1 Yb by (intro conjI exI [of _ "Y \<union> Z"]) auto
  qed
qed

text \<open>The same for the batches of a well-formed segment.\<close>

lemma split_effect:
  assumes "split_then (push t path) bytes s = (r, s')" "healthy v (get s)" "seg_ok (sy_bridge (sv_deps v)) bytes"
    and "may_meet v (all_ops v (get s) \<union> set (seg_ops (sy_bridge (sv_deps v)) bytes))"
  shows "rest s' = rest s \<and> refusedSegments (ss_summary s) \<le> refusedSegments (ss_summary s')
    \<and> (\<exists>Y. absorbed v (at_day t path Y) (get s) (get s') \<and> Y \<subseteq> set (seg_ops (sy_bridge (sv_deps v)) bytes)
        \<and> (\<not> isl r \<and> refusedSegments (ss_summary s') = refusedSegments (ss_summary s)
             \<longrightarrow> Y = set (seg_ops (sy_bridge (sv_deps v)) bytes)))"
proof -
  let ?br = "sy_bridge (sv_deps v)"
  obtain bs where bs: "batches_ok ?br bs" "bytes = concat (map frame bs)" using assms(3) unfolding seg_ok_def by blast
  have "splitSegmentBatches bytes = Inr bs"
    using split_from_frames [OF _ torn_Nil, of bs "[]"] bs by (simp add: splitSegmentBatches_def batches_ok_def)
  then have "transfer (push t path) bs s = (r, s')" using assms(1) by (simp add: split_then_def)
  moreover have "set (seg_ops ?br bytes) = (\<Union>b \<in> set bs. set (the (br_decode ?br b)))" using seg_ops_frames [OF bs(1)] bs(2) by auto
  ultimately show ?thesis using transfer_effect [of t path bs s r s'] assms(2,4) bs(1) by (simp add: batches_ok_def)
qed

end


subsection \<open>The two endpoints\<close>

lemma post_push_anonymous:
  assumes "post_push deps now stamp body d = (r, d')" "member ''peer_writer_id'' body = None"
  shows "sd_peers d' = sd_peers d"
proof -
  have "sd_peers e = sd_peers x" if "answer_recorded deps stamp body (res :: push_response) x = (r, e)" for res x e
    using that assms(2) by (simp add: answer_recorded_def recordInboundPeer_def)
  then show ?thesis using assms(1)
    by (fastforce simp: post_push_def Let_def split_beta split: option.splits if_splits sum.splits append_error.splits reject_kind.splits)
qed

lemma next_delivery_frame: "next_delivery s = (x, s') \<Longrightarrow> ss_local s' = ss_local s \<and> ss_peer s' = ss_peer s \<and> ss_summary s' = ss_summary s"
  by (auto simp: next_delivery_def split: list.splits)

lemma on_local_cases:
  assumes "on_local h s = (r, s')"
  shows "ss_peer s' = ss_peer s \<and> ss_summary s' = ss_summary s
    \<and> (ss_local s' = ss_local s \<and> r = Inl Unreachable \<or> (\<exists>a. h (ss_local s) = (a, ss_local s') \<and> (r = Inl Unreachable \<or> r = response Delivered a)))"
  using assms
  by (auto simp: on_local_def response_def dest!: next_delivery_frame split: prod.splits delivery.splits)

lemma on_peer_cases:
  assumes "on_peer h s = (r, s')"
  shows "ss_local s' = ss_local s \<and> ss_summary s' = ss_summary s
    \<and> (ss_peer s' = ss_peer s \<and> r = Inl Unreachable \<or> (\<exists>a. h (ss_peer s) = (a, ss_peer s') \<and> (r = Inl Unreachable \<or> r = response Delivered a)))"
  using assms
  by (auto simp: on_peer_def response_def dest!: next_delivery_frame split: prod.splits delivery.splits)

lemma response_Inr [simp]: "response Delivered a = Inr x \<longleftrightarrow> a = Inr x" "Inr x = response Delivered a \<longleftrightarrow> a = Inr x"
  by (cases a; auto simp: response_def)+

lemma isl_response [simp]: "isl (response Delivered a) = isl a"
  by (cases a) (simp_all add: response_def)

lemma push_bodies [simp]:
  "member ''type'' (local_push_body t path b) = Some (JStr (type_name t))"
  "string_of (member ''path'' (local_push_body t path b)) = Some path"
  "string_of (member ''batch'' (local_push_body t path b)) = Some (base64_encode b)"
  "member ''peer_writer_id'' (local_push_body t path b) = None"
  "member ''type'' (peer_push_body w t path b) = Some (JStr (type_name t))"
  "string_of (member ''path'' (peer_push_body w t path b)) = Some path"
  "string_of (member ''batch'' (peer_push_body w t path b)) = Some (base64_encode b)"
  by (simp_all add: member_def local_push_body_def peer_push_body_def string_of_def)

lemma push_outcome:
  assumes "healthy v d" "d' = d \<and> r = Inl Unreachable
      \<or> (\<exists>a. post_push (sv_deps v) now stamp body d = (a, d') \<and> (r = Inl Unreachable \<or> r = response Delivered a))"
    and "isCrdtType (member ''type'' body) = Some t" "string_of (member ''path'' body) = Some path"
    and "string_of (member ''batch'' body) = Some (base64_encode b)" "br_decode (sy_bridge (sv_deps v)) b = Some ws"
    and "may_meet v (all_ops v d \<union> set ws)"
  shows "absorbed v (at_day t path (set ws)) d d' \<or> isl r \<and> absorbed v (\<lambda>_ _. {}) d d'"
  using assms(2)
proof (elim disjE exE conjE)
  fix a assume p: "post_push (sv_deps v) now stamp body d = (a, d')"
  have "br_decode (sy_bridge (sv_deps v)) (base64_decode (base64_encode b)) = Some ws" using assms(6) by (simp add: base64_roundtrip)
  note e = push_effect [OF assms(1) p assms(3-5) this assms(7)]
  show ?thesis if "r = Inl Unreachable" using e absorbed_refl [OF assms(1)] that by (cases "isl a") simp_all
  show ?thesis if "r = response Delivered a" using e absorbed_refl [OF assms(1)] that by (cases "isl a") simp_all
qed (use absorbed_refl [OF assms(1)] in simp)

interpretation at_local: endpoint v ss_local "\<lambda>s. (ss_peer s, sd_peers (ss_local s))" "push_local v" for v
proof
  fix t path b s r s'
  assume p: "push_local v t path b s = (r, s')"
  note c = on_local_cases [OF p [unfolded push_local_def]]
  have "sd_peers (ss_local s') = sd_peers (ss_local s)"
    using c post_push_anonymous [of "sv_deps v" "sv_now v" "sv_stamp v" "local_push_body t path b" "ss_local s"] by auto
  then show "(ss_peer s', sd_peers (ss_local s')) = (ss_peer s, sd_peers (ss_local s)) \<and> refusedSegments (ss_summary s') = refusedSegments (ss_summary s)"
    using c by simp
  fix ws
  assume h: "healthy v (ss_local s)" and d: "br_decode (sy_bridge (sv_deps v)) b = Some ws" and m: "may_meet v (all_ops v (ss_local s) \<union> set ws)"
  from c show "absorbed v (at_day t path (set ws)) (ss_local s) (ss_local s') \<or> isl r \<and> absorbed v (\<lambda>_ _. {}) (ss_local s) (ss_local s')"
    by (intro push_outcome [OF h _ _ _ _ d m, of _ r "sv_now v" "sv_stamp v" "local_push_body t path b"]) simp_all
qed (simp_all add: tally_def)

interpretation at_peer: endpoint v ss_peer ss_local "push_peer v" for v
proof
  fix t path b s r s'
  assume p: "push_peer v t path b s = (r, s')"
  note c = on_peer_cases [OF p [unfolded push_peer_def]]
  have s: "ss_peer (trip s) = ss_peer s" "ss_local (trip s) = ss_local s" "refusedSegments (ss_summary (trip s)) = refusedSegments (ss_summary s)"
    by (simp_all add: trip_def tally_def)
  show "ss_local s' = ss_local s \<and> refusedSegments (ss_summary s') = refusedSegments (ss_summary s)" using c s by simp
  fix ws
  assume h: "healthy v (ss_peer s)" and d: "br_decode (sy_bridge (sv_deps v)) b = Some ws" and m: "may_meet v (all_ops v (ss_peer s) \<union> set ws)"
  from c [unfolded s] show "absorbed v (at_day t path (set ws)) (ss_peer s) (ss_peer s') \<or> isl r \<and> absorbed v (\<lambda>_ _. {}) (ss_peer s) (ss_peer s')"
    by (intro push_outcome [OF h _ _ _ _ d m, of _ r "sv_now v" "sv_stamp v" "peer_push_body (sv_self v) t path b"]) simp_all
qed (simp_all add: tally_def)


subsection \<open>Pulling a segment\<close>

abbreviation peer_seg :: "session \<Rightarrow> crdt_type \<Rightarrow> string \<Rightarrow> bytes" where
  "peer_seg s t path \<equiv> file_or_empty (cs_oplog (sd_crdt (ss_peer s))) t path"

lemma batch_members [simp]:
  "isCrdtType (member ''type'' (batch_body w t path offset)) = Some t"
  "string_of (member ''path'' (batch_body w t path offset)) = Some path"
  "integer_member deps ''offset'' k (batch_body w t path offset) = Some offset"
  "integer_member deps ''max_bytes'' k (batch_body w t path offset) = Some k"
  by (simp_all add: member_def batch_body_def string_of_def integer_member_def)

lemma post_batch_window:
  assumes "post_batch deps stamp (batch_body w t path offset) d = (Inr res, d')"
  shows "br_bytes res = take 1048576 (drop (nat offset) (file_or_empty (cs_oplog (sd_crdt d)) t path))"
    "br_eof res \<longleftrightarrow> int (length (file_or_empty (cs_oplog (sd_crdt d)) t path)) \<le> offset + int (length (br_bytes res))"
proof -
  let ?F = "file_or_empty (cs_oplog (sd_crdt d)) t path"
  obtain chunk len where c: "readSegmentRange (cs_oplog (sd_crdt d)) t path (nat offset) (min (1024 * 1024) MAX_BATCH_RESPONSE_BYTES) = Some (chunk, len)"
    and a: "answer_recorded deps stamp (batch_body w t path offset)
      \<lparr>br_bytes = chunk, br_size = len, br_eof = (offset + int (length chunk) \<ge> int len)\<rparr> d = (Inr res, d')"
    using assms by (auto simp: post_batch_def split: if_splits option.splits prod.splits)
  have "seg_file (cs_oplog (sd_crdt d)) t path = Some ?F" "len = length ?F"
    using c by (auto simp: readSegmentRange_def file_or_empty_def Let_def split: option.splits if_splits)
  then have "chunk = take 1048576 (drop (nat offset) ?F)" "len = length ?F"
    using c by (auto simp: readSegmentRange_def Let_def MAX_BATCH_RESPONSE_BYTES_def min_def split: if_splits)
  then show "br_bytes res = take 1048576 (drop (nat offset) ?F)" "br_eof res \<longleftrightarrow> int (length ?F) \<le> offset + int (length (br_bytes res))"
    using answer_recorded_frame [OF a] by auto
qed

lemma pull_loop_exact:
  assumes "pull_loop v t path n offset chunks s = (r, s')" "0 \<le> offset" "nat offset \<le> length (peer_seg s t path)"
    and "chunks = take (nat offset) (peer_seg s t path)" "length (peer_seg s t path) \<le> nat offset + n * 1048576"
  shows "ss_local s' = ss_local s \<and> ss_summary s' = ss_summary s \<and> sd_crdt (ss_peer s') = sd_crdt (ss_peer s)
    \<and> (\<forall>bytes. r = Inr bytes \<longrightarrow> bytes = peer_seg s t path)"
  using assms
proof (induction n arbitrary: offset chunks s)
  case 0
  then show ?case by auto
next
  case (Suc n)
  let ?F = "peer_seg s t path" and ?h = "post_batch (sv_deps v) (sv_stamp v) (batch_body (sv_self v) t path offset)"
  obtain x s1 where x: "on_peer ?h s = (x, s1)" by fastforce
  note c = on_peer_cases [OF x]
  have frame: "sd_crdt (ss_peer s1) = sd_crdt (ss_peer s)" using c post_batch_frame by metis
  show ?case
  proof (cases x)
    case (Inl e)
    then show ?thesis using Suc.prems(1) x c frame by (auto simp: then_do_def)
  next
    case (Inr res)
    have "?h (ss_peer s) = (Inr res, ss_peer s1)" using c Inr by auto
    note w = post_batch_window [OF this]
    define k where "k = length (br_bytes res)"
    have k: "k = min 1048576 (length ?F - nat offset)" using w(1) by (simp add: k_def)
    have chunks: "chunks @ br_bytes res = take (nat offset + k) ?F"
      using Suc.prems(3,4) w(1) k by (simp add: take_add min_def)
    have run: "(if br_eof res then (Inr (chunks @ br_bytes res), s1) else if br_bytes res = [] then (Inr chunks, s1)
        else pull_loop v t path n (offset + int k) (chunks @ br_bytes res) s1) = (r, s')"
      using Suc.prems(1) x Inr unfolding k_def by (simp only: pull_loop.simps then_do_def prod.case sum.case)
    show ?thesis
    proof (cases "br_eof res")
      case True
      then have "length ?F \<le> nat offset + k" using w(2) Suc.prems(2) k_def by linarith
      then show ?thesis using run True chunks c frame by auto
    next
      case False
      then have more: "nat offset + k < length ?F" using w(2) Suc.prems(2) k_def by linarith
      then have k1: "k = 1048576" using k by linarith
      then have "br_bytes res \<noteq> []" using k_def by auto
      then have run': "pull_loop v t path n (offset + int k) (chunks @ br_bytes res) s1 = (r, s')" using run False by simp
      have off: "nat (offset + int k) = nat offset + k" using Suc.prems(2) by linarith
      show ?thesis
        using Suc.IH [OF run'] off Suc.prems(2,5) more chunks k1 frame c by simp
    qed
  qed
qed

lemma pullSegment_exact:
  assumes "pullSegment v t path s = (r, s')" "length (peer_seg s t path) \<le> 1024 * 1048576"
  shows "ss_local s' = ss_local s \<and> ss_summary s' = ss_summary s \<and> sd_crdt (ss_peer s') = sd_crdt (ss_peer s)
    \<and> (\<forall>bytes. r = Inr bytes \<longrightarrow> bytes = peer_seg s t path)"
  using pull_loop_exact [OF assms(1) [unfolded pullSegment_def]] assms(2) by (simp add: MAX_PULL_WINDOWS_def)


subsection \<open>The segments of a diff\<close>

text \<open>The part \<open>F\<close> of the days that are listed as targets.\<close>

definition listed :: "(crdt_type \<times> string \<times> string) list \<Rightarrow> (crdt_type \<Rightarrow> string \<Rightarrow> wire_op set) \<Rightarrow> crdt_type \<Rightarrow> string \<Rightarrow> wire_op set" where
  "listed targets F t day = (if \<exists>h. (t, day, h) \<in> set targets then F t day else {})"

definition pulls_small :: "sync_env \<Rightarrow> daemon \<Rightarrow> bool" where
  "pulls_small v d \<longleftrightarrow> (\<forall>t path. length (file_or_empty (cs_oplog (sd_crdt d)) t path) \<le> MAX_PULL_WINDOWS * 1048576)"

definition refused :: "session \<Rightarrow> nat" where
  "refused s = refusedSegments (ss_summary s)"

lemma refused_simps [simp]: "refused (trip s) = refused s"
  "refused (tally (\<lambda>m. m\<lparr>pulledSegments := a m, pulledBytes := b m\<rparr>) s) = refused s"
  "refused (tally (\<lambda>m. m\<lparr>pushedSegments := a m, pushedBytes := b m\<rparr>) s) = refused s"
  by (simp_all add: refused_def trip_def tally_def)

lemma tally_frame [simp]: "ss_local (tally f s) = ss_local s" "ss_peer (tally f s) = ss_peer s"
  "ss_local (trip s) = ss_local s" "ss_peer (trip s) = ss_peer s"
  by (simp_all add: trip_def tally_def)

lemma healthy_seg_ok: "healthy v d \<Longrightarrow> seg_ok (sy_bridge (sv_deps v)) (file_or_empty (cs_oplog (sd_crdt d)) t path)"
  using file_seg_ok durable_logs_ok unfolding healthy_def logs_ok_def by blast

lemma ops_file: "ops v d t path = set (seg_ops (sy_bridge (sv_deps v)) (file_or_empty (cs_oplog (sd_crdt d)) t path))"
  by (simp add: ops_def day_ops_def)

lemma ops_all: "ops v d t day \<subseteq> all_ops v d"
  by (auto simp: all_ops_def)

lemma pull_target_effect:
  assumes "pull_target v (t, path, h) s = (r, s')" "healthy v (ss_local s)" "healthy v (ss_peer s)" "pulls_small v (ss_peer s)"
    and "may_meet v (all_ops v (ss_local s) \<union> all_ops v (ss_peer s))"
  shows "sd_crdt (ss_peer s') = sd_crdt (ss_peer s) \<and> sd_peers (ss_local s') = sd_peers (ss_local s) \<and> refused s \<le> refused s'
    \<and> (\<exists>Y. absorbed v (at_day t path Y) (ss_local s) (ss_local s') \<and> Y \<subseteq> ops v (ss_peer s) t path
        \<and> (\<not> isl r \<and> refused s' = refused s \<longrightarrow> Y = ops v (ss_peer s) t path))"
proof -
  obtain x s1 where x: "pullSegment v t path s = (x, s1)" by fastforce
  have p: "ss_local s1 = ss_local s \<and> ss_summary s1 = ss_summary s \<and> sd_crdt (ss_peer s1) = sd_crdt (ss_peer s)
    \<and> (\<forall>bytes. x = Inr bytes \<longrightarrow> bytes = peer_seg s t path)"
    using pullSegment_exact [OF x] assms(4) by (simp add: pulls_small_def MAX_PULL_WINDOWS_def)
  show ?thesis
  proof (cases x)
    case (Inl e)
    then have "s' = s1" "isl r" using assms(1) x by (auto simp: pull_target_def then_do_def)
    then show ?thesis using p absorbed_refl [OF assms(2)] by (auto simp: refused_def intro!: exI [of _ "{}"])
  next
    case (Inr bytes)
    define s2 where "s2 = trip (tally (\<lambda>m. m\<lparr>pulledSegments := Suc (pulledSegments m), pulledBytes := pulledBytes m + length bytes\<rparr>) s1)"
    have b: "bytes = peer_seg s t path" using p Inr by simp
    have s2: "ss_local s2 = ss_local s" "ss_peer s2 = ss_peer s1" "refused s2 = refused s"
      using p by (simp_all add: s2_def) (simp add: refused_def)
    have run: "split_then (push_local v t path) bytes s2 = (r, s')"
      using assms(1) x Inr by (simp add: pull_target_def then_do_def s2_def)
    have "may_meet v (all_ops v (ss_local s2) \<union> set (seg_ops (sy_bridge (sv_deps v)) bytes))"
      by (rule may_meet_mono [OF assms(5)]) (use ops_all [of v "ss_peer s" t path] in \<open>auto simp: s2 b ops_file\<close>)
    from at_local.split_effect [OF run _ _ this] assms(2,3) show ?thesis
      using p s2 healthy_seg_ok [OF assms(3), of t path] by (simp add: b ops_file refused_def)
  qed
qed

lemma push_target_effect:
  assumes "push_target v (t, path, h) s = (r, s')" "healthy v (ss_local s)" "healthy v (ss_peer s)"
    and "may_meet v (all_ops v (ss_local s) \<union> all_ops v (ss_peer s))"
  shows "ss_local s' = ss_local s \<and> refused s \<le> refused s'
    \<and> (\<exists>Y. absorbed v (at_day t path Y) (ss_peer s) (ss_peer s') \<and> Y \<subseteq> ops v (ss_local s) t path
        \<and> (\<not> isl r \<and> refused s' = refused s \<longrightarrow> Y = ops v (ss_local s) t path))"
proof (cases "readSegmentBytes (cs_oplog (sd_crdt (ss_local s))) t path")
  case None
  then have "ops v (ss_local s) t path = {}" using seg_ok_Nil by (simp add: ops_file readSegmentBytes_def file_or_empty_def)
  then show ?thesis using assms(1) None absorbed_refl [OF assms(3)] by (auto simp: push_target_def intro!: exI [of _ "{}"])
next
  case (Some bytes)
  define s2 where "s2 = tally (\<lambda>m. m\<lparr>pushedSegments := Suc (pushedSegments m), pushedBytes := pushedBytes m + length bytes\<rparr>) s"
  have b: "bytes = file_or_empty (cs_oplog (sd_crdt (ss_local s))) t path" using Some by (simp add: readSegmentBytes_def file_or_empty_def)
  have s2: "ss_local s2 = ss_local s" "ss_peer s2 = ss_peer s" "refused s2 = refused s" by (simp_all add: s2_def)
  have run: "split_then (push_peer v t path) bytes s2 = (r, s')" using assms(1) Some by (simp add: push_target_def s2_def)
  have "may_meet v (all_ops v (ss_peer s2) \<union> set (seg_ops (sy_bridge (sv_deps v)) bytes))"
    by (rule may_meet_mono [OF assms(4)]) (use ops_all [of v "ss_local s" t path] in \<open>auto simp: s2 b ops_file\<close>)
  from at_peer.split_effect [OF run _ _ this] assms(2,3) show ?thesis
    using s2 healthy_seg_ok [OF assms(2), of t path] by (simp add: b ops_file refused_def)
qed


text \<open>What every step of a session relies on, and keeps.\<close>

definition sync_ok :: "sync_env \<Rightarrow> session \<Rightarrow> bool" where
  "sync_ok v s \<longleftrightarrow> healthy v (ss_local s) \<and> healthy v (ss_peer s) \<and> pulls_small v (ss_peer s)
     \<and> may_meet v (all_ops v (ss_local s) \<union> all_ops v (ss_peer s))"

lemma sync_ok_local:
  assumes "sync_ok v s" "absorbed v (at_day t path Y) (ss_local s) (ss_local s')" "Y \<subseteq> ops v (ss_peer s) t path"
    and "sd_crdt (ss_peer s') = sd_crdt (ss_peer s)"
  shows "sync_ok v s'"
proof -
  have "all_ops v (ss_local s') \<union> all_ops v (ss_peer s) \<subseteq> all_ops v (ss_local s) \<union> all_ops v (ss_peer s)"
    using absorbed_all_ops [OF assms(2)] assms(3) ops_all [of v "ss_peer s" t path] by auto
  then show ?thesis
    using assms may_meet_mono absorbed_healthy [OF assms(2)] same_crdt_healthy [OF assms(4), of v]
    unfolding sync_ok_def pulls_small_def by auto
qed

lemma for_each_effect:
  assumes step: "\<And>x s r s'. I s \<Longrightarrow> f x s = (r, s') \<Longrightarrow> I s' \<and> rest s' = rest s \<and> refused s \<le> refused s'
      \<and> (\<exists>Y. absorbed v (at_day (fst x) (fst (snd x)) Y) (get s) (get s') \<and> Y \<subseteq> src (rest s) (fst x) (fst (snd x))
          \<and> (\<not> isl r \<and> refused s' = refused s \<longrightarrow> Y = src (rest s) (fst x) (fst (snd x))))"
    and run: "for_each f (xs :: (crdt_type \<times> string \<times> string) list) s = (r, s')" "I s" "healthy v (get s)"
  shows "I s' \<and> rest s' = rest s \<and> refused s \<le> refused s'
    \<and> (\<exists>F. absorbed v F (get s) (get s') \<and> (\<forall>t day. F t day \<subseteq> listed xs (src (rest s)) t day)
        \<and> (\<not> isl r \<and> refused s' = refused s \<longrightarrow> F = listed xs (src (rest s))))"
  using run
proof (induction xs arbitrary: s)
  case Nil
  then show ?case using absorbed_refl [OF Nil.prems(3)] by (auto simp: listed_def intro!: exI [of _ "\<lambda>_ _. {}"])
next
  case (Cons x xs)
  obtain t p h where x: "x = (t, p, h)" by (cases x) auto
  obtain a s1 where a: "f x s = (a, s1)" by fastforce
  from step [OF Cons.prems(2) a] obtain Y where 1: "I s1" "rest s1 = rest s" "refused s \<le> refused s1"
      "absorbed v (at_day t p Y) (get s) (get s1)" "Y \<subseteq> src (rest s) t p" "\<not> isl a \<and> refused s1 = refused s \<longrightarrow> Y = src (rest s) t p"
    unfolding x by auto
  have Yl: "at_day t p Y u day \<subseteq> listed (x # xs) (src (rest s)) u day" for u day
    using 1(5) by (auto simp: at_day_def listed_def x)
  show ?case
  proof (cases a)
    case (Inl e)
    then have "s' = s1" "isl r" using Cons.prems(1) a by (auto simp: then_do_def)
    then show ?thesis using 1 Yl by (intro conjI exI [of _ "at_day t p Y"]) auto
  next
    case (Inr u)
    have "for_each f xs s1 = (r, s')" using Cons.prems(1) a Inr by (simp add: then_do_def)
    from Cons.IH [OF this 1(1) absorbed_healthy [OF 1(4)]] obtain F where F: "I s'" "rest s' = rest s1" "refused s1 \<le> refused s'"
        "absorbed v F (get s1) (get s')" "\<forall>t day. F t day \<subseteq> listed xs (src (rest s)) t day"
        "\<not> isl r \<and> refused s' = refused s1 \<longrightarrow> F = listed xs (src (rest s))"
      using 1(2) by auto
    let ?G = "\<lambda>u day. at_day t p Y u day \<union> F u day"
    have "absorbed v ?G (get s) (get s')" by (rule absorbed_trans [OF 1(4) F(4)])
    moreover have "?G u day \<subseteq> listed (x # xs) (src (rest s)) u day" for u day
      using Yl [of u day] F(5) by (auto simp: listed_def split: if_splits)
    moreover have "?G = listed (x # xs) (src (rest s))" if "\<not> isl r \<and> refused s' = refused s"
    proof -
      have "F = listed xs (src (rest s))" "Y = src (rest s) t p" using that 1(3,6) F(3,6) Inr by auto
      then show ?thesis by (auto simp: at_day_def listed_def x fun_eq_iff)
    qed
    ultimately show ?thesis using 1(2,3) F(1,2,3) by (intro conjI exI [of _ ?G]) auto
  qed
qed

lemma pulls_effect:
  assumes "for_each (pull_target v) xs s = (r, s')" "sync_ok v s"
  shows "sync_ok v s' \<and> sd_crdt (ss_peer s') = sd_crdt (ss_peer s) \<and> sd_peers (ss_local s') = sd_peers (ss_local s) \<and> refused s \<le> refused s'
    \<and> (\<exists>F. absorbed v F (ss_local s) (ss_local s') \<and> (\<forall>t day. F t day \<subseteq> listed xs (ops v (ss_peer s)) t day)
        \<and> (\<not> isl r \<and> refused s' = refused s \<longrightarrow> F = listed xs (ops v (ss_peer s))))"
proof -
  let ?rest = "\<lambda>s. (sd_crdt (ss_peer s), sd_peers (ss_local s))"
  let ?src = "\<lambda>(c, q). day_ops (sy_bridge (sv_deps v)) (cs_oplog c)"
  have src: "?src (?rest s) = ops v (ss_peer s)" for s by (simp add: ops_def fun_eq_iff)
  have "sync_ok v s' \<and> ?rest s' = ?rest s \<and> refused s \<le> refused s'
      \<and> (\<exists>F. absorbed v F (ss_local s) (ss_local s') \<and> (\<forall>t day. F t day \<subseteq> listed xs (?src (?rest s)) t day)
          \<and> (\<not> isl r \<and> refused s' = refused s \<longrightarrow> F = listed xs (?src (?rest s))))"
  proof (rule for_each_effect [where I = "sync_ok v" and f = "pull_target v", OF _ assms])
    show "healthy v (ss_local s)" using assms(2) by (simp add: sync_ok_def)
    fix x s r s'
    assume ok: "sync_ok v s" and p: "pull_target v x s = (r, s')"
    obtain t path h where x: "x = (t, path, h)" by (cases x) auto
    from pull_target_effect [OF p [unfolded x]] ok
    have e: "sd_crdt (ss_peer s') = sd_crdt (ss_peer s) \<and> sd_peers (ss_local s') = sd_peers (ss_local s) \<and> refused s \<le> refused s'
      \<and> (\<exists>Y. absorbed v (at_day t path Y) (ss_local s) (ss_local s') \<and> Y \<subseteq> ops v (ss_peer s) t path
        \<and> (\<not> isl r \<and> refused s' = refused s \<longrightarrow> Y = ops v (ss_peer s) t path))"
      unfolding sync_ok_def by blast
    then have "sync_ok v s'" using sync_ok_local [OF ok] by blast
    with e show "sync_ok v s' \<and> ?rest s' = ?rest s \<and> refused s \<le> refused s'
      \<and> (\<exists>Y. absorbed v (at_day (fst x) (fst (snd x)) Y) (ss_local s) (ss_local s') \<and> Y \<subseteq> ?src (?rest s) (fst x) (fst (snd x))
          \<and> (\<not> isl r \<and> refused s' = refused s \<longrightarrow> Y = ?src (?rest s) (fst x) (fst (snd x))))"
      unfolding src x by simp
  qed
  then show ?thesis unfolding src by simp
qed

text \<open>Pushing does not read the peer again, so nothing is needed of its segments afterwards.\<close>

lemma pushes_effect:
  assumes "for_each (push_target v) xs s = (r, s')" "sync_ok v s"
  shows "ss_local s' = ss_local s \<and> healthy v (ss_peer s') \<and> refused s \<le> refused s'
    \<and> (\<exists>F. absorbed v F (ss_peer s) (ss_peer s') \<and> (\<forall>t day. F t day \<subseteq> listed xs (ops v (ss_local s)) t day)
        \<and> (\<not> isl r \<and> refused s' = refused s \<longrightarrow> F = listed xs (ops v (ss_local s))))"
proof -
  let ?I = "\<lambda>s. healthy v (ss_local s) \<and> healthy v (ss_peer s) \<and> may_meet v (all_ops v (ss_local s) \<union> all_ops v (ss_peer s))"
  have "?I s' \<and> ss_local s' = ss_local s \<and> refused s \<le> refused s'
    \<and> (\<exists>F. absorbed v F (ss_peer s) (ss_peer s') \<and> (\<forall>t day. F t day \<subseteq> listed xs (ops v (ss_local s)) t day)
        \<and> (\<not> isl r \<and> refused s' = refused s \<longrightarrow> F = listed xs (ops v (ss_local s))))"
  proof (rule for_each_effect [where I = ?I and f = "push_target v" and src = "ops v", OF _ assms(1)])
    show "?I s" "healthy v (ss_peer s)" using assms(2) by (simp_all add: sync_ok_def)
    fix x s r s'
    assume ok: "?I s" and p: "push_target v x s = (r, s')"
    obtain t path h where x: "x = (t, path, h)" by (cases x) auto
    from push_target_effect [OF p [unfolded x]] ok
    obtain Y where Y: "ss_local s' = ss_local s" "refused s \<le> refused s'" "absorbed v (at_day t path Y) (ss_peer s) (ss_peer s')"
        "Y \<subseteq> ops v (ss_local s) t path" "\<not> isl r \<and> refused s' = refused s \<longrightarrow> Y = ops v (ss_local s) t path"
      by blast
    have "all_ops v (ss_local s) \<union> all_ops v (ss_peer s') \<subseteq> all_ops v (ss_local s) \<union> all_ops v (ss_peer s)"
      using absorbed_all_ops [OF Y(3)] Y(4) ops_all [of v "ss_local s" t path] by auto
    then have "?I s'" using ok Y(1) absorbed_healthy [OF Y(3)] may_meet_mono by auto
    with Y show "?I s' \<and> ss_local s' = ss_local s \<and> refused s \<le> refused s'
      \<and> (\<exists>Y. absorbed v (at_day (fst x) (fst (snd x)) Y) (ss_peer s) (ss_peer s') \<and> Y \<subseteq> ops v (ss_local s) (fst x) (fst (snd x))
          \<and> (\<not> isl r \<and> refused s' = refused s \<longrightarrow> Y = ops v (ss_local s) (fst x) (fst (snd x))))"
      unfolding x by auto
  qed
  then show ?thesis by blast
qed

end
