(* ===== verification/SyncLeaves.thy ===== *)
theory SyncLeaves
  imports SyncRoutes
begin

text \<open>
  What Merkle summaries say about the operations they summarise, when the hash does not collide:
  the leaf of a day determines the operations of the day, and equal roots mean equal operations on
  every day. This is what the comparison of two summaries by \<open>src/daemon/src/cli/sync.ts\<close> rests on.
\<close>

subsection \<open>The key of a day\<close>

definition day_key :: "wire_op set \<Rightarrow> bytes" where
  "day_key X = concat (map hex_pairs (sorted_list_of_set (op_key ` X)))"

lemma leaf_of_day: "leaf_of_ops blake3 X = leaf_hex blake3 (day_key X)"
  by (simp add: leaf_of_ops_def leaf_hex_def day_key_def)

lemma day_key_empty [simp]: "day_key {} = []"
  by (simp add: day_key_def)

definition key_ok :: "wire_op \<Rightarrow> bool" where
  "key_ok op \<longleftrightarrow> hlc_ok (wireHlc (w_hlc op)) \<and> writer_ok (w_writer op)"

lemma op_key_bytes:
  assumes "key_ok op"
  shows "\<exists>b. op_key op = bytesToHex b \<and> length b = COMPOSITE_BYTES"
proof -
  obtain h where h: "encodeHlc (wireHlc (w_hlc op)) = Inr h" "length h = HLC_BYTES"
    using assms encodeHlc_ok [of "wireHlc (w_hlc op)"] by (auto simp: key_ok_def size_defs)
  have "length (w_writer op) = WRITER_BYTES" using assms by (simp add: key_ok_def writer_ok_def)
  then show ?thesis using h
    by (intro exI [of _ "h @ w_writer op"]) (simp add: op_key_def compositeKeyHex_def size_defs)
qed

lemma concat_same_length:
  assumes "concat xs = concat ys" "\<forall>x \<in> set xs \<union> set ys. length x = n" "0 < n"
  shows "xs = ys"
  using assms
proof (induction xs arbitrary: ys)
  case Nil
  then show ?case by (cases ys) auto
next
  case (Cons x xs)
  obtain y zs where ys: "ys = y # zs" using Cons.prems by (cases ys) auto
  then have "x = y \<and> concat xs = concat zs" using Cons.prems by (auto simp: append_eq_append_conv)
  with Cons ys show ?case by auto
qed

lemma day_key_inject:
  assumes "\<forall>op \<in> X \<union> Y. key_ok op" "inj_on op_key (X \<union> Y)" "finite X" "finite Y" "day_key X = day_key Y"
  shows "X = Y"
proof -
  let ?l = "\<lambda>Z. sorted_list_of_set (op_key ` Z)"
  have set_l: "set (?l Z) = op_key ` Z" if "Z \<in> {X, Y}" for Z using assms(3,4) that by auto
  have b: "\<exists>b. k = bytesToHex b \<and> length b = COMPOSITE_BYTES" if "k \<in> set (?l X) \<union> set (?l Y)" for k
    using that assms(1) set_l op_key_bytes by auto
  have unhex: "bytesToHex (hex_pairs k) = k \<and> length (hex_pairs k) = COMPOSITE_BYTES" if "k \<in> set (?l X) \<union> set (?l Y)" for k
    using b [OF that] by (auto simp: hex_pairs_bytesToHex)
  have m: "map hex_pairs (?l X) = map hex_pairs (?l Y)"
  proof (rule concat_same_length)
    show "concat (map hex_pairs (?l X)) = concat (map hex_pairs (?l Y))" using assms(5) by (simp only: day_key_def)
    show "\<forall>x \<in> set (map hex_pairs (?l X)) \<union> set (map hex_pairs (?l Y)). length x = COMPOSITE_BYTES"
      unfolding set_map using unhex by blast
  qed (simp add: size_defs)
  have r: "map bytesToHex (map hex_pairs ks) = ks" if "set ks \<subseteq> set (?l X) \<union> set (?l Y)" for ks
    using that unhex by (induction ks) auto
  have "?l X = map bytesToHex (map hex_pairs (?l X))" by (rule r [symmetric]) blast
  also have "\<dots> = map bytesToHex (map hex_pairs (?l Y))" by (simp only: m)
  also have "\<dots> = ?l Y" by (rule r) blast
  finally have "?l X = ?l Y" .
  then have "set (?l X) = set (?l Y)" by (rule arg_cong)
  then have "op_key ` X = op_key ` Y" unfolding set_l [OF insertI1] set_l [OF insertI2 [OF singletonI]] .
  then show ?thesis using assms(2) by (simp add: inj_on_image_eq_iff)
qed


subsection \<open>The snapshot of a log\<close>

text \<open>The keys of the leaves of a log, in the order of its days.\<close>

definition leaf_days :: "(bytes \<Rightarrow> bytes) \<Rightarrow> bridge \<Rightarrow> oplog \<Rightarrow> crdt_type \<Rightarrow> string list" where
  "leaf_days blake3 br log t =
     filter (\<lambda>day. leaf_of_ops blake3 (day_ops br log t day) \<noteq> EMPTY_LEAF_HEX blake3) (listSegmentDays log t)"

definition leaf_keys :: "(bytes \<Rightarrow> bytes) \<Rightarrow> bridge \<Rightarrow> oplog \<Rightarrow> crdt_type \<Rightarrow> bytes list" where
  "leaf_keys blake3 br log t = map (\<lambda>day. day_key (day_ops br log t day)) (leaf_days blake3 br log t)"

definition snapshot_of :: "(bytes \<Rightarrow> bytes) \<Rightarrow> bridge \<Rightarrow> oplog \<Rightarrow> merkle_snapshot \<Rightarrow> bool" where
  "snapshot_of blake3 br log snap \<longleftrightarrow>
     (\<forall>t. leaves snap t = map (\<lambda>day. \<lparr>sl_path = day, sl_hash = leaf_of_ops blake3 (day_ops br log t day)\<rparr>) (leaf_days blake3 br log t)
        \<and> rootOf blake3 (leaves snap t) = Inr (roots snap t))"

definition keyed :: "bridge \<Rightarrow> oplog \<Rightarrow> bool" where
  "keyed br log \<longleftrightarrow> (\<forall>t day. \<forall>op \<in> day_ops br log t day. key_ok op)"

lemma fresh_types_parts:
  assumes "fresh_types blake3 br log ts snap = Inr snap'" "distinct ts" "t \<in> set ts"
  shows "fresh_leaves blake3 br log t (listSegmentDays log t) = Inr (leaves snap' t) \<and> rootOf blake3 (leaves snap' t) = Inr (roots snap' t)"
proof -
  have frame: "fresh_types blake3 br log us sn = Inr sn' \<Longrightarrow> u \<notin> set us \<Longrightarrow> leaves sn' u = leaves sn u \<and> roots sn' u = roots sn u" for us sn sn' u
    by (induction us arbitrary: sn) (auto simp: sbind_eq_Inr_iff)
  show ?thesis using assms
  proof (induction ts arbitrary: snap)
    case (Cons u us)
    then obtain ls r where 1: "fresh_leaves blake3 br log u (listSegmentDays log u) = Inr ls" "rootOf blake3 ls = Inr r"
        "fresh_types blake3 br log us (snap\<lparr>roots := (roots snap)(u := r), leaves := (leaves snap)(u := ls)\<rparr>) = Inr snap'"
      by (auto simp: sbind_eq_Inr_iff)
    show ?case
    proof (cases "t = u")
      case True
      then show ?thesis using frame [OF 1(3), of u] 1(1,2) Cons.prems(2) by simp
    next
      case False
      then show ?thesis using Cons.IH [OF 1(3)] Cons.prems(2,3) by simp
    qed
  qed simp
qed

lemma snapshot_of_fresh:
  assumes "fresh_snapshot blake3 br log = Inr snap" "logs_ok br log" "segment_codec br" "keyed br log"
  shows "snapshot_of blake3 br log snap"
proof -
  have s: "seg_op_set br log t day = day_ops br log t day" for t day
    using seg_op_set_day_ops assms(2,3) by (simp add: logs_ok_def)
  then have k: "keys_ok br log" using assms(4) by (simp add: keys_ok_def keyed_def key_ok_def)
  have "distinct TYPES" by (simp add: TYPES_def)
  then show ?thesis
    using fresh_types_parts [OF assms(1) [unfolded fresh_snapshot_def]] fresh_leaves_ok [OF k]
    by (simp add: snapshot_of_def leaf_days_def s)
qed

text \<open>What \<open>computeMerkle\<close> returns through a truthful cache.\<close>

lemma computeMerkle_snapshot:
  assumes "computeMerkle blake3 br mtime log cf = Inr (snap, cf')" "coherent blake3 br mtime log (loadCache cf)"
    and "logs_ok br log" "segment_codec br" "keyed br log"
  shows "snapshot_of blake3 br log snap" "coherent blake3 br mtime log (loadCache cf')" "fresh_snapshot blake3 br log = Inr snap"
proof -
  from type_leaves_fresh [OF assms(2), of TYPES "\<lparr>roots = (\<lambda>_. []), leaves = (\<lambda>_. [])\<rparr>"] assms(1,2)
  show f: "fresh_snapshot blake3 br log = Inr snap" and "coherent blake3 br mtime log (loadCache cf')"
    by (auto simp: computeMerkle_def Let_def sbind_def fresh_snapshot_def loadCache_def split: sum.splits prod.splits)
  show "snapshot_of blake3 br log snap" by (rule snapshot_of_fresh [OF f assms(3-5)])
qed

subsection \<open>Hashes that do not collide\<close>

text \<open>Everything that is hashed to summarise a log.\<close>

definition hash_inputs :: "(bytes \<Rightarrow> bytes) \<Rightarrow> bridge \<Rightarrow> oplog \<Rightarrow> bytes set" where
  "hash_inputs blake3 br log =
     (\<Union>t. range (\<lambda>day. LEAF_TAG # day_key (day_ops br log t day)) \<union> hashed blake3 (leaf_keys blake3 br log t))"

text \<open>
  Two logs whose summaries can be trusted: the hash has 32 bytes and does not collide on what is
  hashed for the two, keys are encodable, no two operations share a timestamp and writer, and every
  operation is filed under its own day.
\<close>

definition comparable :: "(bytes \<Rightarrow> bytes) \<Rightarrow> bridge \<Rightarrow> oplog \<Rightarrow> oplog \<Rightarrow> bool" where
  "comparable blake3 br log log' \<longleftrightarrow>
     (\<forall>x. length (blake3 x) = 32) \<and> inj_on blake3 (insert [LEAF_TAG] (hash_inputs blake3 br log \<union> hash_inputs blake3 br log'))
     \<and> keyed br log \<and> keyed br log'
     \<and> inj_on op_key ((\<Union>t day. day_ops br log t day) \<union> (\<Union>t day. day_ops br log' t day))
     \<and> (\<forall>t day. \<forall>op \<in> day_ops br log t day \<union> day_ops br log' t day. utcDate (wall_ms (w_hlc op)) = day)"

lemma comparable_sym: "comparable blake3 br log log' \<Longrightarrow> comparable blake3 br log' log"
  by (auto simp: comparable_def Un_commute)

lemma finite_day_ops [simp]: "finite (day_ops br log t day)"
  by (simp add: day_ops_def)

lemma leaf_inject:
  assumes "comparable blake3 br log log'" "leaf_of_ops blake3 (day_ops br log t day) = leaf_of_ops blake3 (day_ops br log' u day')"
  shows "day_ops br log t day = day_ops br log' u day'"
proof -
  have inj: "inj_on blake3 (insert [LEAF_TAG] (hash_inputs blake3 br log \<union> hash_inputs blake3 br log'))"
    using assms(1) by (simp add: comparable_def)
  have "blake3 (LEAF_TAG # day_key (day_ops br log t day)) = blake3 (LEAF_TAG # day_key (day_ops br log' u day'))"
    using assms(2) by (simp add: leaf_of_day leaf_hex_def)
  moreover have "LEAF_TAG # day_key (day_ops br log t day) \<in> hash_inputs blake3 br log"
    "LEAF_TAG # day_key (day_ops br log' u day') \<in> hash_inputs blake3 br log'"
    unfolding hash_inputs_def by blast+
  ultimately have k: "day_key (day_ops br log t day) = day_key (day_ops br log' u day')" using inj_onD [OF inj] by blast
  show ?thesis
  proof (rule day_key_inject [OF _ _ _ _ k])
    show "\<forall>op \<in> day_ops br log t day \<union> day_ops br log' u day'. key_ok op"
      using assms(1) unfolding comparable_def keyed_def by blast
    have "inj_on op_key ((\<Union>t day. day_ops br log t day) \<union> (\<Union>t day. day_ops br log' t day))"
      using assms(1) by (simp add: comparable_def)
    then show "inj_on op_key (day_ops br log t day \<union> day_ops br log' u day')" by (rule inj_on_subset) blast
  qed simp_all
qed

lemma leaf_empty:
  assumes "comparable blake3 br log log'"
  shows "leaf_of_ops blake3 (day_ops br log t day) = EMPTY_LEAF_HEX blake3 \<longleftrightarrow> day_ops br log t day = {}"
proof
  assume e: "leaf_of_ops blake3 (day_ops br log t day) = EMPTY_LEAF_HEX blake3"
  have inj: "inj_on blake3 (insert [LEAF_TAG] (hash_inputs blake3 br log \<union> hash_inputs blake3 br log'))"
    using assms by (simp add: comparable_def)
  have "blake3 (LEAF_TAG # day_key (day_ops br log t day)) = blake3 [LEAF_TAG]"
    using e by (simp add: leaf_of_day leaf_hex_def EMPTY_LEAF_HEX_def)
  moreover have "LEAF_TAG # day_key (day_ops br log t day) \<in> hash_inputs blake3 br log" unfolding hash_inputs_def by blast
  ultimately have "day_key (day_ops br log t day) = day_key {}" using inj_onD [OF inj] by auto
  moreover have "\<forall>op \<in> day_ops br log t day. key_ok op" using assms unfolding comparable_def keyed_def by blast
  moreover have "inj_on op_key (day_ops br log t day)"
    using assms inj_on_subset [of op_key _ "day_ops br log t day"] unfolding comparable_def by blast
  ultimately show "day_ops br log t day = {}" using day_key_inject [of "day_ops br log t day" "{}"] by simp
qed (simp add: leaf_of_no_ops)

lemma leaf_days_iff:
  assumes "comparable blake3 br log log'"
  shows "day \<in> set (leaf_days blake3 br log t) \<longleftrightarrow> day_ops br log t day \<noteq> {}"
proof -
  have "day \<in> set (listSegmentDays log t)" if "day_ops br log t day \<noteq> {}"
    using that seg_ok_Nil [of br] by (cases "seg_file log t day") (auto simp: listed_iff day_ops_def file_or_empty_def)
  then show ?thesis using leaf_empty [OF assms, of t day] by (auto simp: leaf_days_def)
qed

text \<open>Equal roots, equal operations: every leaf of one is a leaf of the other, and operations know their day.\<close>

lemma roots_bind_ops:
  assumes "comparable blake3 br log log'" "snapshot_of blake3 br log snap" "snapshot_of blake3 br log' snap'" "roots snap t = roots snap' t"
  shows "day_ops br log t day = day_ops br log' t day"
proof -
  have h: "map sl_hash (leaves sn t) = map (leaf_hex blake3) (leaf_keys blake3 br l t)" if "snapshot_of blake3 br l sn" for l sn
    using that by (simp add: snapshot_of_def leaf_keys_def leaf_of_day)
  have len: "\<forall>x. length (blake3 x) = 32" using assms(1) by (simp add: comparable_def)
  have "inj_on blake3 (insert [LEAF_TAG] (hash_inputs blake3 br log \<union> hash_inputs blake3 br log'))"
    using assms(1) by (simp add: comparable_def)
  then have inj: "inj_on blake3 (hashed blake3 (leaf_keys blake3 br log t) \<union> hashed blake3 (leaf_keys blake3 br log' t))"
    by (rule inj_on_subset) (auto simp: hash_inputs_def)
  have "rootOf blake3 (leaves snap t) = rootOf blake3 (leaves snap' t)"
    using assms(2-4) unfolding snapshot_of_def by metis
  from equal_roots [OF h [OF assms(2)] h [OF assms(3)] len inj this]
  have keys: "set (leaf_keys blake3 br log t) = set (leaf_keys blake3 br log' t)" by (metis mset_eq_setD)
  have half: "day_ops br l t day = day_ops br l' t day"
    if c: "comparable blake3 br l l'" and k: "set (leaf_keys blake3 br l t) = set (leaf_keys blake3 br l' t)" and ne: "day_ops br l t day \<noteq> {}" for l l'
  proof -
    have "day_key (day_ops br l t day) \<in> set (leaf_keys blake3 br l t)"
      using leaf_days_iff [OF c] ne by (auto simp: leaf_keys_def)
    then obtain day' where d: "day_key (day_ops br l t day) = day_key (day_ops br l' t day')" using k by (auto simp: leaf_keys_def)
    then have e: "day_ops br l t day = day_ops br l' t day'" using leaf_inject [OF c] by (simp add: leaf_of_day)
    obtain op where "op \<in> day_ops br l t day" using ne by blast
    then have "utcDate (wall_ms (w_hlc op)) = day" "utcDate (wall_ms (w_hlc op)) = day'"
      using c e unfolding comparable_def by blast+
    then show ?thesis using e by simp
  qed
  show ?thesis
    using half [OF assms(1) keys] half [OF comparable_sym [OF assms(1)] keys [symmetric]] by blast
qed

end
