(* ===== verification/SyncRun.thy ===== *)
theory SyncRun
  imports AntiEntropy SyncLeaves
begin

text \<open>
  A whole run of \<open>hayven sync\<close>, \<open>runSyncWith\<close> of \<open>src/daemon/src/cli/sync.ts\<close>, on top of what a
  pull and a push do (theory \<open>AntiEntropy\<close>) and of what summaries say (theory \<open>SyncLeaves\<close>).
\<close>

subsection \<open>Asking for summaries\<close>

abbreviation same_data :: "session \<Rightarrow> session \<Rightarrow> bool" where
  "same_data s s' \<equiv> ss_local s' = ss_local s \<and> sd_crdt (ss_peer s') = sd_crdt (ss_peer s) \<and> refused s' = refused s"

lemma fetch_leaves_frame: "fetch_leaves v ours R ts theirs s = (r, s') \<Longrightarrow> same_data s s'"
proof (induction ts arbitrary: theirs s)
  case (Cons t ts)
  show ?case
  proof (cases "roots ours t = R t")
    case True
    then show ?thesis using Cons by simp
  next
    case False
    obtain x s1 where x: "on_peer (post_leaves (sv_deps v) (sv_mtime_peer v) (leaves_body t)) s = (x, s1)" by fastforce
    note c = on_peer_cases [OF x]
    have f: "same_data s s1" using c post_leaves_frame unfolding refused_def by metis
    show ?thesis
    proof (cases x)
      case (Inl e)
      then show ?thesis using Cons.prems False x Inl f by (simp add: then_do_def)
    next
      case (Inr ls)
      then have "fetch_leaves v ours R ts (theirs\<lparr>leaves := (leaves theirs)(t := ls)\<rparr>) (trip s1) = (r, s')"
        using Cons.prems False x Inr by (simp add: then_do_def)
      from Cons.IH [OF this] f show ?thesis by simp
    qed
  qed
qed simp

lemma recordPeer_frame: "same_data s (recordPeerOnSuccess v h s) \<or> sd_crdt (ss_local (recordPeerOnSuccess v h s)) = sd_crdt (ss_local s)"
  by (auto simp: recordPeerOnSuccess_def split: option.split)

lemma recordPeerOnSuccess_frame [simp]:
  "sd_crdt (ss_local (recordPeerOnSuccess v h s)) = sd_crdt (ss_local s)"
  "ss_peer (recordPeerOnSuccess v h s) = ss_peer s" "refused (recordPeerOnSuccess v h s) = refused s"
  by (simp_all add: recordPeerOnSuccess_def refused_def split: option.split)


subsection \<open>The course of a run\<close>

text \<open>
  Every run goes through the states \<open>a\<close> (summaries compared), \<open>b\<close> (segments pulled) and \<open>c\<close>
  (segments pushed), or stops on the way.
\<close>

lemma run_course:
  assumes "runSyncWith v s = (r, s')"
  obtains (no_summary) "s' = s" "isl r"
  | (compared) ours cache a where
      "computeMerkle (sy_blake3 (sv_deps v)) (sy_bridge (sv_deps v)) (sv_mtime_local v) (cs_oplog (sd_crdt (ss_local s))) (sd_cache (ss_local s)) = Inr (ours, cache)"
      "a = s\<lparr>ss_local := (ss_local s)\<lparr>sd_cache := cache\<rparr>\<rparr>"
      "same_data a s'" "isl r"
  | (up_to_date) ours cache res a s1 where
      "computeMerkle (sy_blake3 (sv_deps v)) (sy_bridge (sv_deps v)) (sv_mtime_local v) (cs_oplog (sd_crdt (ss_local s))) (sd_cache (ss_local s)) = Inr (ours, cache)"
      "a = s\<lparr>ss_local := (ss_local s)\<lparr>sd_cache := cache\<rparr>\<rparr>"
      "get_merkle (sv_deps v) (sv_mtime_peer v) (ss_peer a) = (Inr res, ss_peer s1)" "same_data a s1"
      "rootsMatch (roots ours) (mr_roots res)" "r = Inr True" "s' = recordPeerOnSuccess v (parsePeerHandshake (mr_peer res)) s1"
  | (exchanged) ours cache res a s1 s2 theirs x b where
      "computeMerkle (sy_blake3 (sv_deps v)) (sy_bridge (sv_deps v)) (sv_mtime_local v) (cs_oplog (sd_crdt (ss_local s))) (sd_cache (ss_local s)) = Inr (ours, cache)"
      "a = s\<lparr>ss_local := (ss_local s)\<lparr>sd_cache := cache\<rparr>\<rparr>"
      "get_merkle (sv_deps v) (sv_mtime_peer v) (ss_peer a) = (Inr res, ss_peer s1)" "same_data a s1"
      "\<not> rootsMatch (roots ours) (mr_roots res)"
      "fetch_leaves v ours (mr_roots res) TYPES \<lparr>roots = mr_roots res, leaves = (\<lambda>_. [])\<rparr> s1 = (Inr theirs, s2)"
      "for_each (pull_target v) (md_pull (diffSnapshots ours theirs)) s2 = (x, b)"
      "isl x \<longrightarrow> isl r \<and> s' = b"
      "\<not> isl x \<longrightarrow> (\<exists>y c. for_each (push_target v) (md_push (diffSnapshots ours theirs)) b = (y, c)
         \<and> (isl y \<longrightarrow> isl r \<and> s' = c)
         \<and> (\<not> isl y \<longrightarrow> r = Inr False \<and> s' = recordPeerOnSuccess v (parsePeerHandshake (mr_peer res)) c))"
proof -
  let ?M = "computeMerkle (sy_blake3 (sv_deps v)) (sy_bridge (sv_deps v)) (sv_mtime_local v) (cs_oplog (sd_crdt (ss_local s))) (sd_cache (ss_local s))"
  show ?thesis
  proof (cases ?M)
    case (Inl e)
    then show ?thesis by (intro no_summary) (use assms in \<open>auto simp: runSyncWith_def Let_def\<close>)
  next
    case (Inr p)
    obtain ours cache where m: "?M = Inr (ours, cache)" using Inr by (cases p) auto
    define a where "a = s\<lparr>ss_local := (ss_local s)\<lparr>sd_cache := cache\<rparr>\<rparr>"
    obtain g s0 where g: "on_peer (get_merkle (sv_deps v) (sv_mtime_peer v)) a = (g, s0)" by fastforce
    note c = on_peer_cases [OF g]
    have f0: "same_data a s0" using c get_merkle_frame unfolding refused_def by metis
    show ?thesis
    proof (cases g)
      case (Inl e)
      have "s' = s0" "isl r" using assms m g Inl by (auto simp: runSyncWith_def Let_def a_def then_do_def)
      then show ?thesis using f0 by (intro compared [OF m a_def]) simp_all
    next
      case (Inr res)
      define s1 where "s1 = trip s0"
      have f1: "same_data a s1" using f0 by (simp add: s1_def)
      have gm: "get_merkle (sv_deps v) (sv_mtime_peer v) (ss_peer a) = (Inr res, ss_peer s1)" using c Inr by (auto simp: s1_def)
      let ?h = "parsePeerHandshake (mr_peer res)"
      have run: "(if rootsMatch (roots ours) (mr_roots res) then (Inr True, recordPeerOnSuccess v ?h s1)
          else then_do (fetch_leaves v ours (mr_roots res) TYPES \<lparr>roots = mr_roots res, leaves = (\<lambda>_. [])\<rparr>) (\<lambda>theirs.
            then_do (for_each (pull_target v) (md_pull (diffSnapshots ours theirs))) (\<lambda>_.
              then_do (for_each (push_target v) (md_push (diffSnapshots ours theirs))) (\<lambda>_ s.
                (Inr False, recordPeerOnSuccess v ?h s)))) s1) = (r, s')"
        using assms m g Inr unfolding runSyncWith_def Let_def a_def s1_def then_do_def by simp
      show ?thesis
      proof (cases "rootsMatch (roots ours) (mr_roots res)")
        case True
        then show ?thesis using run by (intro up_to_date [OF m a_def gm f1]) simp_all
      next
        case False
        obtain l s2 where l: "fetch_leaves v ours (mr_roots res) TYPES \<lparr>roots = mr_roots res, leaves = (\<lambda>_. [])\<rparr> s1 = (l, s2)" by fastforce
        note f2 = fetch_leaves_frame [OF l]
        show ?thesis
        proof (cases l)
          case (Inl e)
          have "s' = s2" "isl r" using run False l Inl by (auto simp: then_do_def)
          then show ?thesis using f1 f2 by (intro compared [OF m a_def]) simp_all
        next
          case (Inr theirs)
          let ?d = "diffSnapshots ours theirs"
          obtain x b where x: "for_each (pull_target v) (md_pull ?d) s2 = (x, b)" by fastforce
          obtain y d where y: "for_each (push_target v) (md_push ?d) b = (y, d)" by fastforce
          have rest: "(case x of Inl e \<Rightarrow> (Inl e, b)
              | Inr _ \<Rightarrow> (case y of Inl e \<Rightarrow> (Inl e, d) | Inr _ \<Rightarrow> (Inr False, recordPeerOnSuccess v ?h d))) = (r, s')"
            using run False l Inr x y by (simp add: then_do_def split: sum.splits)
          show ?thesis
            by (rule exchanged [OF m a_def gm f1 False l [unfolded Inr] x])
              (use rest y in \<open>auto split: sum.splits\<close>)
        qed
      qed
    qed
  qed
qed


subsection \<open>What any run does\<close>

lemma same_crdt_absorbed: "sd_crdt e = sd_crdt d \<Longrightarrow> sd_crdt e' = sd_crdt d' \<Longrightarrow> absorbed v F e e' = absorbed v F d d'"
  unfolding absorbed_def healthy_def ops_def by simp

lemma same_crdt_sync_ok:
  "sd_crdt (ss_local s') = sd_crdt (ss_local s) \<Longrightarrow> sd_crdt (ss_peer s') = sd_crdt (ss_peer s) \<Longrightarrow> sync_ok v s' = sync_ok v s"
  unfolding sync_ok_def pulls_small_def all_ops_def healthy_def ops_def by simp

lemma listed_subset: "listed xs F t day \<subseteq> F t day"
  by (simp add: listed_def)

text \<open>\<open>F\<close> is what the local daemon gained, \<open>G\<close> what the peer gained.\<close>

lemma run_gains:
  assumes "runSyncWith v s = (r, s')" "sync_ok v s"
  shows "\<exists>F G. absorbed v F (ss_local s) (ss_local s') \<and> (\<forall>t day. F t day \<subseteq> ops v (ss_peer s) t day)
    \<and> absorbed v G (ss_peer s) (ss_peer s') \<and> (\<forall>t day. G t day \<subseteq> ops v (ss_local s) t day \<union> ops v (ss_peer s) t day)
    \<and> (isl r \<longrightarrow> sd_peers (ss_local s') = sd_peers (ss_local s))"
proof -
  have h: "healthy v (ss_local s)" "healthy v (ss_peer s)" using assms(2) by (simp_all add: sync_ok_def)
  have same: ?thesis if "sd_crdt (ss_local s') = sd_crdt (ss_local s)" "sd_crdt (ss_peer s') = sd_crdt (ss_peer s)"
      "isl r \<longrightarrow> sd_peers (ss_local s') = sd_peers (ss_local s)"
  proof -
    have "absorbed v (\<lambda>_ _. {}) (ss_local s) (ss_local s')" "absorbed v (\<lambda>_ _. {}) (ss_peer s) (ss_peer s')"
      using absorbed_refl [OF h(1)] absorbed_refl [OF h(2)] same_crdt_absorbed [OF refl that(1)] same_crdt_absorbed [OF refl that(2)] by simp_all
    then show ?thesis using that(3) by (intro exI [of _ "\<lambda>_ _. {}"]) simp
  qed
  show ?thesis
    using assms(1)
  proof (cases rule: run_course)
    case no_summary
    then show ?thesis by (intro same) simp_all
  next
    case (compared ours cache a)
    then show ?thesis by (intro same) simp_all
  next
    case (up_to_date ours cache res a s1)
    then show ?thesis by (intro same) simp_all
  next
    case (exchanged ours cache res a s1 s2 theirs x b)
    let ?d = "diffSnapshots ours theirs"
    note f2 = fetch_leaves_frame [OF exchanged(6)]
    have l2: "sd_crdt (ss_local s2) = sd_crdt (ss_local s)" "sd_peers (ss_local s2) = sd_peers (ss_local s)"
        "sd_crdt (ss_peer s2) = sd_crdt (ss_peer s)"
      using f2 exchanged(2,4) by simp_all
    have "sync_ok v s2" using same_crdt_sync_ok [OF l2(1,3)] assms(2) by simp
    from pulls_effect [OF exchanged(7) this] obtain F where
      b: "sync_ok v b" "sd_crdt (ss_peer b) = sd_crdt (ss_peer s)" "sd_peers (ss_local b) = sd_peers (ss_local s)" and
      F: "absorbed v F (ss_local s2) (ss_local b)" "\<forall>t day. F t day \<subseteq> listed (md_pull ?d) (ops v (ss_peer s2)) t day"
      using l2 by auto
    have Fs: "F t day \<subseteq> ops v (ss_peer s) t day" for t day
      using F(2) listed_subset [of "md_pull ?d" "ops v (ss_peer s2)" t day] same_crdt_healthy [OF l2(3), of v] by fastforce
    have Fl: "absorbed v F (ss_local s) (ss_local b)" using F(1) same_crdt_absorbed [OF l2(1) refl] by simp
    have stop: ?thesis if "s' = b" "isl r"
      using Fl Fs b absorbed_refl [OF h(2)] same_crdt_absorbed [OF refl b(2), of v _ "ss_peer s"] that
      by (intro exI [of _ F] exI [of _ "\<lambda>_ _. {}"]) simp
    show ?thesis
    proof (cases "isl x")
      case True
      then show ?thesis using exchanged(8) stop by blast
    next
      case False
      then obtain y c where c: "for_each (push_target v) (md_push ?d) b = (y, c)" "isl y \<longrightarrow> isl r \<and> s' = c"
          "\<not> isl y \<longrightarrow> r = Inr False \<and> s' = recordPeerOnSuccess v (parsePeerHandshake (mr_peer res)) c"
        using exchanged(9) by blast
      from pushes_effect [OF c(1) b(1)] obtain G where lc: "ss_local c = ss_local b" and
        G: "absorbed v G (ss_peer b) (ss_peer c)" "\<forall>t day. G t day \<subseteq> listed (md_push ?d) (ops v (ss_local b)) t day"
        by blast
      have Gs: "G t day \<subseteq> ops v (ss_local s) t day \<union> ops v (ss_peer s) t day" for t day
        using G(2) listed_subset [of "md_push ?d" "ops v (ss_local b)" t day] Fl Fs [of t day] unfolding absorbed_def by fastforce
      have fin: "sd_crdt (ss_local s') = sd_crdt (ss_local b)" "ss_peer s' = ss_peer c"
          "isl r \<longrightarrow> sd_peers (ss_local s') = sd_peers (ss_local s)"
        using c(2,3) lc b(3) by (cases "isl y"; auto)+
      show ?thesis
        using Fl Fs G(1) Gs fin same_crdt_absorbed [OF refl fin(1)] same_crdt_absorbed [OF b(2) refl]
        by (intro exI [of _ F] exI [of _ G]) simp
    qed
  qed
qed


subsection \<open>Summaries that can be trusted\<close>

abbreviation log_of :: "daemon \<Rightarrow> oplog" where
  "log_of d \<equiv> cs_oplog (sd_crdt d)"

definition cache_true :: "sync_env \<Rightarrow> (crdt_type \<Rightarrow> string \<Rightarrow> int) \<Rightarrow> daemon \<Rightarrow> bool" where
  "cache_true v mtime d \<longleftrightarrow> coherent (sy_blake3 (sv_deps v)) (sy_bridge (sv_deps v)) mtime (log_of d) (loadCache (sd_cache d))"

definition trusted :: "sync_env \<Rightarrow> session \<Rightarrow> bool" where
  "trusted v s \<longleftrightarrow> segment_codec (sy_bridge (sv_deps v))
     \<and> comparable (sy_blake3 (sv_deps v)) (sy_bridge (sv_deps v)) (log_of (ss_local s)) (log_of (ss_peer s))
     \<and> cache_true v (sv_mtime_local v) (ss_local s) \<and> cache_true v (sv_mtime_peer v) (ss_peer s)"

abbreviation summary_of :: "sync_env \<Rightarrow> daemon \<Rightarrow> merkle_snapshot \<Rightarrow> bool" where
  "summary_of v d snap \<equiv> snapshot_of (sy_blake3 (sv_deps v)) (sy_bridge (sv_deps v)) (log_of d) snap"

definition answerable :: "sync_env \<Rightarrow> daemon \<Rightarrow> bool" where
  "answerable v d \<longleftrightarrow> segment_codec (sy_bridge (sv_deps v)) \<and> logs_ok (sy_bridge (sv_deps v)) (log_of d) \<and> keyed (sy_bridge (sv_deps v)) (log_of d)"

lemma healthy_logs_ok: "healthy v d \<Longrightarrow> logs_ok (sy_bridge (sv_deps v)) (log_of d)"
  using durable_logs_ok by (auto simp: healthy_def)

lemma computeMerkle_summary:
  assumes "computeMerkle (sy_blake3 (sv_deps v)) (sy_bridge (sv_deps v)) mtime (log_of d) (sd_cache d) = Inr (snap, cache)"
    and "cache_true v mtime d" "answerable v d"
  shows "summary_of v d snap" "cache_true v mtime (d\<lparr>sd_cache := cache\<rparr>)"
    "fresh_snapshot (sy_blake3 (sv_deps v)) (sy_bridge (sv_deps v)) (log_of d) = Inr snap"
  using computeMerkle_snapshot [OF assms(1)] assms(2,3) by (simp_all add: cache_true_def answerable_def)

lemma get_merkle_summary:
  assumes "get_merkle (sv_deps v) mtime d = (Inr res, d')" "cache_true v mtime d" "answerable v d"
  shows "\<exists>snap. summary_of v d snap \<and> fresh_snapshot (sy_blake3 (sv_deps v)) (sy_bridge (sv_deps v)) (log_of d) = Inr snap
    \<and> mr_roots res = roots snap" "cache_true v mtime d'"
  using assms computeMerkle_summary [OF _ assms(2,3)]
  by (auto simp: get_merkle_def split: sum.splits prod.splits)

lemma post_leaves_summary:
  assumes "post_leaves (sv_deps v) mtime (leaves_body t) d = (r, d')" "cache_true v mtime d" "answerable v d"
  shows "cache_true v mtime d'"
    "r = Inr ls \<Longrightarrow> fresh_snapshot (sy_blake3 (sv_deps v)) (sy_bridge (sv_deps v)) (log_of d) = Inr snap \<Longrightarrow> ls = leaves snap t"
  using assms computeMerkle_summary [OF _ assms(2,3)]
  by (auto simp: post_leaves_def leaves_body_def member_def split: sum.splits prod.splits)


lemma answerable_same: "sd_crdt d' = sd_crdt d \<Longrightarrow> answerable v d' = answerable v d"
  by (simp add: answerable_def)

text \<open>The leaves that are compared: those of the peer, its own where the roots agree.\<close>

lemma fetch_leaves_summary:
  assumes "fetch_leaves v ours R ts theirs s = (Inr theirs', s')" "distinct ts"
    and "cache_true v (sv_mtime_peer v) (ss_peer s)" "answerable v (ss_peer s)"
    and "fresh_snapshot (sy_blake3 (sv_deps v)) (sy_bridge (sv_deps v)) (log_of (ss_peer s)) = Inr snap"
  shows "leaves theirs' t = (if t \<notin> set ts then leaves theirs t else if roots ours t = R t then leaves ours t else leaves snap t)"
  using assms
proof (induction ts arbitrary: theirs s)
  case (Cons u us)
  show ?case
  proof (cases "roots ours u = R u")
    case True
    then have "fetch_leaves v ours R us (theirs\<lparr>leaves := (leaves theirs)(u := leaves ours u)\<rparr>) s = (Inr theirs', s')" using Cons.prems(1) by simp
    from Cons.IH [OF this] show ?thesis using Cons.prems True by auto
  next
    case False
    obtain x s1 where x: "on_peer (post_leaves (sv_deps v) (sv_mtime_peer v) (leaves_body u)) s = (x, s1)" by fastforce
    obtain ls where ls: "x = Inr ls" using Cons.prems(1) False x by (cases x) (auto simp: then_do_def)
    have p: "post_leaves (sv_deps v) (sv_mtime_peer v) (leaves_body u) (ss_peer s) = (Inr ls, ss_peer s1)"
      using on_peer_cases [OF x] ls by auto
    have f: "fetch_leaves v ours R us (theirs\<lparr>leaves := (leaves theirs)(u := ls)\<rparr>) (trip s1) = (Inr theirs', s')"
      using Cons.prems(1) False x ls by (simp add: then_do_def)
    have c: "sd_crdt (ss_peer s1) = sd_crdt (ss_peer s)" using post_leaves_frame [OF p] by simp
    have "ls = leaves snap u" by (rule post_leaves_summary(2) [OF p Cons.prems(3,4) refl Cons.prems(5)])
    then show ?thesis
      using Cons.IH [OF f] Cons.prems(2,4,5) post_leaves_summary(1) [OF p Cons.prems(3,4)] c answerable_same [OF c, of v] False by auto
  qed
qed simp

lemma leaf_pairs_snapshot:
  assumes "comparable blake3 br log log'" "snapshot_of blake3 br log snap"
  shows "leaf_pairs (leaves snap t) = {(day, leaf_of_ops blake3 (day_ops br log t day)) |day. day_ops br log t day \<noteq> {}}"
proof -
  have "leaf_pairs (leaves snap t) = (\<lambda>day. (day, leaf_of_ops blake3 (day_ops br log t day))) ` set (leaf_days blake3 br log t)"
    using assms(2) by (simp add: snapshot_of_def leaf_pairs_def image_image)
  then show ?thesis using leaf_days_iff [OF assms(1), of _ t] by (auto simp: image_iff)
qed

lemma distinct_leaf_days: "logs_ok br log \<Longrightarrow> distinct (leaf_days blake3 br log t)"
  by (simp add: leaf_days_def listSegmentDays_def logs_ok_def log_ok_def)

text \<open>The days that are pulled are those that differ and the peer has; pushed are those it has nothing of.\<close>

lemma diff_days:
  assumes c: "comparable blake3 br log log'" and ours: "snapshot_of blake3 br log ours" and snap: "snapshot_of blake3 br log' snap"
    and "logs_ok br log" "logs_ok br log'"
    and theirs: "\<forall>t. leaves theirs t = (if roots ours t = roots snap t then leaves ours t else leaves snap t)"
  shows "(\<exists>h. (t, day, h) \<in> set (md_pull (diffSnapshots ours theirs))) \<longleftrightarrow>
      day_ops br log' t day \<noteq> {} \<and> day_ops br log t day \<noteq> day_ops br log' t day"
    "(\<exists>h. (t, day, h) \<in> set (md_push (diffSnapshots ours theirs))) \<longleftrightarrow> day_ops br log t day \<noteq> {} \<and> day_ops br log' t day = {}"
proof -
  note c' = comparable_sym [OF c]
  have d: "distinct (map sl_path (leaves ours t)) \<and> distinct (map sl_path (leaves theirs t))" for t
    using theirs ours snap distinct_leaf_days [OF assms(4), of blake3 t] distinct_leaf_days [OF assms(5), of blake3 t]
    by (simp add: snapshot_of_def comp_def)
  note di = diff_iff [where ours = ours and theirs = theirs, OF allI [OF d]]
  let ?L = "\<lambda>log day. leaf_of_ops blake3 (day_ops br log t day)"
  have p: "leaf_pairs (leaves ours t) = {(day, ?L log day) |day. day_ops br log t day \<noteq> {}}"
    and q: "leaf_pairs (leaves snap t) = {(day, ?L log' day) |day. day_ops br log' t day \<noteq> {}}"
    by (rule leaf_pairs_snapshot [OF c ours], rule leaf_pairs_snapshot [OF c' snap])
  have inj: "?L log day = ?L log' day \<longleftrightarrow> day_ops br log t day = day_ops br log' t day"
    using leaf_inject [OF c, of t day t day] by auto
  show "(\<exists>h. (t, day, h) \<in> set (md_pull (diffSnapshots ours theirs))) \<longleftrightarrow>
      day_ops br log' t day \<noteq> {} \<and> day_ops br log t day \<noteq> day_ops br log' t day"
  proof (cases "roots ours t = roots snap t")
    case True
    then have "day_ops br log t day = day_ops br log' t day" using roots_bind_ops [OF c ours snap] by blast
    then show ?thesis using True theirs by (simp add: di(1))
  next
    case False
    then have "leaf_pairs (leaves theirs t) = leaf_pairs (leaves snap t)" using theirs by simp
    then show ?thesis using inj by (simp add: di(1) p q) metis
  qed
  show "(\<exists>h. (t, day, h) \<in> set (md_push (diffSnapshots ours theirs))) \<longleftrightarrow> day_ops br log t day \<noteq> {} \<and> day_ops br log' t day = {}"
  proof (cases "roots ours t = roots snap t")
    case True
    then have "day_ops br log t day = day_ops br log' t day" using roots_bind_ops [OF c ours snap] by blast
    then show ?thesis using True theirs by (force simp: di(2))
  next
    case False
    then have "leaf_pairs (leaves theirs t) = leaf_pairs (leaves snap t)" using theirs by simp
    then show ?thesis by (auto simp: di(2) p q image_iff)
  qed
qed


subsection \<open>A run without failure and refusal\<close>

lemma exchange_exact:
  assumes "for_each (pull_target v) (md_pull d) s = (Inr u, e)" "for_each (push_target v) (md_push d) e = (Inr w, g)"
    and "sync_ok v s" "refused g = refused s"
    and pull: "\<And>t day. (\<exists>h. (t, day, h) \<in> set (md_pull d)) \<longleftrightarrow> ops v (ss_peer s) t day \<noteq> {} \<and> ops v (ss_local s) t day \<noteq> ops v (ss_peer s) t day"
    and push: "\<And>t day. (\<exists>h. (t, day, h) \<in> set (md_push d)) \<longleftrightarrow> ops v (ss_local s) t day \<noteq> {} \<and> ops v (ss_peer s) t day = {}"
  shows "ops v (ss_local g) t day = ops v (ss_local s) t day \<union> ops v (ss_peer s) t day"
    "ops v (ss_peer g) t day = (if ops v (ss_peer s) t day = {} then ops v (ss_local s) t day else ops v (ss_peer s) t day)"
proof -
  from pulls_effect [OF assms(1,3)] obtain F where
    e: "sync_ok v e" "sd_crdt (ss_peer e) = sd_crdt (ss_peer s)" "refused s \<le> refused e" and
    F: "absorbed v F (ss_local s) (ss_local e)" "refused e = refused s \<longrightarrow> F = listed (md_pull d) (ops v (ss_peer s))"
    by auto
  from pushes_effect [OF assms(2) e(1)] obtain G where
    g: "ss_local g = ss_local e" "refused e \<le> refused g" and
    G: "absorbed v G (ss_peer e) (ss_peer g)" "refused g = refused e \<longrightarrow> G = listed (md_push d) (ops v (ss_local e))"
    by auto
  have r: "refused e = refused s" "refused g = refused e" using assms(4) e(3) g(2) by auto
  have "F t day = (if ops v (ss_peer s) t day \<noteq> {} \<and> ops v (ss_local s) t day \<noteq> ops v (ss_peer s) t day then ops v (ss_peer s) t day else {})"
    unfolding mp [OF F(2) r(1)] listed_def pull ..
  then have l: "ops v (ss_local e) t day = ops v (ss_local s) t day \<union> ops v (ss_peer s) t day"
    using F(1) by (auto simp: absorbed_def split: if_splits)
  then show "ops v (ss_local g) t day = ops v (ss_local s) t day \<union> ops v (ss_peer s) t day" using g(1) by simp
  have "G t day = (if ops v (ss_local s) t day \<noteq> {} \<and> ops v (ss_peer s) t day = {} then ops v (ss_local e) t day else {})"
    unfolding mp [OF G(2) r(2)] listed_def push ..
  moreover have "ops v (ss_peer g) t day = ops v (ss_peer s) t day \<union> G t day"
    using G(1) same_crdt_healthy [OF e(2), of v] by (simp add: absorbed_def)
  ultimately show "ops v (ss_peer g) t day = (if ops v (ss_peer s) t day = {} then ops v (ss_local s) t day else ops v (ss_peer s) t day)"
    using l by auto
qed

lemma trusted_parts:
  assumes "sync_ok v s" "trusted v s"
  shows "answerable v (ss_local s)" "answerable v (ss_peer s)" "healthy v (ss_local s)" "healthy v (ss_peer s)"
    "comparable (sy_blake3 (sv_deps v)) (sy_bridge (sv_deps v)) (log_of (ss_local s)) (log_of (ss_peer s))"
    "cache_true v (sv_mtime_local v) (ss_local s)" "cache_true v (sv_mtime_peer v) (ss_peer s)"
  using assms healthy_logs_ok by (auto simp: sync_ok_def trusted_def answerable_def comparable_def)

text \<open>The second result says whether the two were found equal.\<close>

lemma run_exact:
  assumes "runSyncWith v s = (Inr b, s')" "sync_ok v s" "trusted v s" "refused s' = refused s"
  shows "ops v (ss_local s') t day = ops v (ss_local s) t day \<union> ops v (ss_peer s) t day
    \<and> ops v (ss_peer s') t day = (if ops v (ss_peer s) t day = {} then ops v (ss_local s) t day else ops v (ss_peer s) t day)
    \<and> (b \<longrightarrow> ops v (ss_local s) t day = ops v (ss_peer s) t day)"
proof -
  let ?blake = "sy_blake3 (sv_deps v)" and ?br = "sy_bridge (sv_deps v)"
  let ?P = "log_of (ss_peer s)"
  note t = trusted_parts [OF assms(2,3)]
  note c = t(5)
  show ?thesis
    using assms(1)
  proof (cases rule: run_course)
    case (up_to_date ours cache res a s1)
    note o = computeMerkle_summary(1) [OF up_to_date(1) t(6,1)]
    have pa: "ss_peer a = ss_peer s" using up_to_date(2) by simp
    from get_merkle_summary(1) [OF up_to_date(3) [unfolded pa] t(7,2)] obtain snap where
      n: "summary_of v (ss_peer s) snap" "mr_roots res = roots snap" by blast
    have "roots ours u = roots snap u" for u using up_to_date(5) n(2) by (cases u) (simp_all add: rootsMatch_def)
    then have "ops v (ss_local s) u d = ops v (ss_peer s) u d" for u d
      using roots_bind_ops [OF c o n(1)] by (simp add: ops_def)
    moreover have "sd_crdt (ss_local s') = sd_crdt (ss_local s)" "sd_crdt (ss_peer s') = sd_crdt (ss_peer s)"
      using up_to_date(2,4,7) by simp_all
    ultimately show ?thesis by (simp add: ops_def)
  next
    case (exchanged ours cache res a s1 s2 theirs x e)
    note o = computeMerkle_summary(1) [OF exchanged(1) t(6,1)]
    have pa: "ss_peer a = ss_peer s" using exchanged(2) by simp
    note gm = exchanged(3) [unfolded pa]
    from get_merkle_summary(1) [OF gm t(7,2)] obtain snap where
      n: "summary_of v (ss_peer s) snap" "mr_roots res = roots snap" "fresh_snapshot ?blake ?br ?P = Inr snap" by blast
    have c1: "sd_crdt (ss_peer s1) = sd_crdt (ss_peer s)" using exchanged(4) pa by simp
    have th: "\<forall>u. leaves theirs u = (if roots ours u = roots snap u then leaves ours u else leaves snap u)"
    proof
      fix u
      have ts: "distinct TYPES" "u \<in> set TYPES" by (simp add: TYPES_def, cases u) (simp_all add: TYPES_def)
      then show "leaves theirs u = (if roots ours u = roots snap u then leaves ours u else leaves snap u)"
        using fetch_leaves_summary [OF exchanged(6) ts(1) get_merkle_summary(2) [OF gm t(7,2)], of snap u]
          answerable_same [OF c1, of v] t(2) n(2,3) c1 by simp
    qed
    have l2: "sd_crdt (ss_local s2) = sd_crdt (ss_local s)" "sd_crdt (ss_peer s2) = sd_crdt (ss_peer s)" "refused s2 = refused s"
      using fetch_leaves_frame [OF exchanged(6)] exchanged(2,4) by (simp_all add: refused_def)
    have o2: "ops v (ss_local s2) = ops v (ss_local s)" "ops v (ss_peer s2) = ops v (ss_peer s)" using l2 by (simp_all add: ops_def)
    have ok2: "sync_ok v s2" using same_crdt_sync_ok [OF l2(1,2)] assms(2) by simp
    note dd = diff_days [OF c o n(1) healthy_logs_ok [OF t(3)] healthy_logs_ok [OF t(4)] th, folded ops_def o2]
    have "\<not> isl x" using exchanged(8) by auto
    then obtain u where x: "x = Inr u" by (cases x) auto
    obtain y g where g: "for_each (push_target v) (md_push (diffSnapshots ours theirs)) e = (y, g)" "\<not> isl y"
        "b = False" "s' = recordPeerOnSuccess v (parsePeerHandshake (mr_peer res)) g"
      using exchanged(9) x by (cases "isl x") auto
    obtain w where y: "y = Inr w" using g(2) by (cases y) auto
    have fin: "sd_crdt (ss_local s') = sd_crdt (ss_local g)" "ss_peer s' = ss_peer g" "refused g = refused s2"
      using g(4) assms(4) l2(3) by simp_all
    show ?thesis
      using exchange_exact [OF exchanged(7) [unfolded x] g(1) [unfolded y] ok2 fin(3) dd, of t day] fin(1,2) g(3)
      unfolding o2 by (simp add: ops_def)
  qed simp_all
qed


subsection \<open>A run over a working network completes\<close>

text \<open>The network has no incident left, and both daemons know who they are.\<close>

definition online :: "session \<Rightarrow> bool" where
  "online s \<longleftrightarrow> ss_network s = [] \<and> writer_ok (cs_writer (sd_crdt (ss_local s))) \<and> writer_ok (cs_writer (sd_crdt (ss_peer s)))"

lemma on_peer_online: "ss_network s = [] \<Longrightarrow> on_peer h s = (case h (ss_peer s) of (r, x) \<Rightarrow> (response Delivered r, s\<lparr>ss_peer := x\<rparr>))"
  by (simp add: on_peer_def next_delivery_def)

lemma on_local_online: "ss_network s = [] \<Longrightarrow> on_local h s = (case h (ss_local s) of (r, x) \<Rightarrow> (response Delivered r, s\<lparr>ss_local := x\<rparr>))"
  by (simp add: on_local_def next_delivery_def)

lemma network_trip [simp]: "ss_network (trip s) = ss_network s"
  by (simp add: trip_def tally_def)

lemma online_tally [simp]: "online (tally f s) = online s" "online (trip s) = online s"
  by (simp_all add: online_def tally_def trip_def)

lemma post_push_writer:
  assumes "post_push deps now stamp body d = (r, d')" "writer_ok (cs_writer (sd_crdt d))"
  shows "cs_writer (sd_crdt d') = cs_writer (sd_crdt d)"
proof (cases r)
  case (Inl e)
  then show ?thesis using post_push_Inl [of deps now stamp body d e d'] assms by simp
next
  case (Inr res)
  show ?thesis by (rule post_push_Inr [OF assms(1) [unfolded Inr]]) simp
qed

lemma post_push_refusal: "post_push deps now stamp body d = (Inl e, d') \<Longrightarrow> writer_ok (cs_writer (sd_crdt d)) \<Longrightarrow> isRefusal (HttpError e)"
  using post_push_Inl [of deps now stamp body d e d'] by (cases e) (simp_all add: isRefusal_def)

lemma response_Delivered: "response Delivered r = (case r of Inl e \<Rightarrow> Inl (HttpError e) | Inr a \<Rightarrow> Inr a)"
  by (simp add: response_def)

lemma push_online:
  assumes "online s"
  shows "push_local v t path b s = (r, s') \<Longrightarrow> online s' \<and> (\<forall>e. r = Inl e \<longrightarrow> isRefusal e)"
    "push_peer v t path b s = (r, s') \<Longrightarrow> online s' \<and> (\<forall>e. r = Inl e \<longrightarrow> isRefusal e)"
proof -
  have n: "ss_network s = []" "ss_network (trip s) = []"
    "writer_ok (cs_writer (sd_crdt (ss_local s)))" "writer_ok (cs_writer (sd_crdt (ss_peer s)))"
    using assms by (simp_all add: online_def trip_def tally_def)
  show "push_local v t path b s = (r, s') \<Longrightarrow> online s' \<and> (\<forall>e. r = Inl e \<longrightarrow> isRefusal e)"
    using n post_push_writer post_push_refusal
    by (fastforce simp: push_local_def on_local_online response_Delivered online_def split: prod.splits sum.splits)
  show "push_peer v t path b s = (r, s') \<Longrightarrow> online s' \<and> (\<forall>e. r = Inl e \<longrightarrow> isRefusal e)"
    using n post_push_writer post_push_refusal
    by (fastforce simp: push_peer_def on_peer_online response_Delivered online_def trip_def tally_def split: prod.splits sum.splits)
qed

lemma transfer_online:
  assumes "\<And>b s r s'. online s \<Longrightarrow> push b s = (r, s') \<Longrightarrow> online s' \<and> (\<forall>e. r = Inl e \<longrightarrow> isRefusal e)"
    and "transfer push bs s = (r, s')" "online s"
  shows "online s' \<and> r = Inr ()"
  using assms(2,3)
proof (induction bs arbitrary: s)
  case (Cons b bs)
  obtain x s1 where x: "push b s = (x, s1)" by fastforce
  from assms(1) [OF Cons.prems(2) x] Cons.prems(1) x Cons.IH [of s1] show ?case by (auto split: sum.splits if_splits)
qed simp

lemma split_online:
  assumes "\<And>b s r s'. online s \<Longrightarrow> push b s = (r, s') \<Longrightarrow> online s' \<and> (\<forall>e. r = Inl e \<longrightarrow> isRefusal e)"
    and "split_then push bytes s = (r, s')" "online s" "seg_ok br bytes"
  shows "online s' \<and> r = Inr ()"
proof -
  obtain bs where bs: "batches_ok br bs" "bytes = concat (map frame bs)" using assms(4) unfolding seg_ok_def by blast
  have "splitSegmentBatches bytes = Inr bs"
    using split_from_frames [OF _ torn_Nil, of bs "[]"] bs by (simp add: splitSegmentBatches_def batches_ok_def)
  then show ?thesis using transfer_online [where push = push and bs = bs, OF assms(1)] assms(2,3) by (simp add: split_then_def)
qed

lemma split_online_ends:
  assumes "online s" "seg_ok br bytes"
  shows "split_then (push_local v t path) bytes s = (r, s') \<Longrightarrow> online s' \<and> r = Inr ()"
    "split_then (push_peer v t path) bytes s = (r, s') \<Longrightarrow> online s' \<and> r = Inr ()"
  using split_online [where push = "push_local v t path", OF _ _ assms] split_online [where push = "push_peer v t path", OF _ _ assms]
    push_online by blast+

lemma post_batch_ok:
  assumes "writer_ok (cs_writer (sd_crdt d))" "isSafeSegmentName path" "seg_file (log_of d) t path \<noteq> None" "0 \<le> offset"
  shows "\<exists>res d'. post_batch deps stamp (batch_body w t path offset) d = (Inr res, d')"
proof -
  have "\<exists>p. readSegmentRange (log_of d) t path (nat offset) (min (1024 * 1024) MAX_BATCH_RESPONSE_BYTES) = Some p"
    using assms(3) by (auto simp: readSegmentRange_def Let_def)
  then obtain chunk len where "readSegmentRange (log_of d) t path (nat offset) (min (1024 * 1024) MAX_BATCH_RESPONSE_BYTES) = Some (chunk, len)"
    by auto
  moreover obtain d' where "answer_recorded deps stamp (batch_body w t path offset)
      \<lparr>br_bytes = chunk, br_size = len, br_eof = (offset + int (length chunk) \<ge> int len)\<rparr> d = (Inr \<lparr>br_bytes = chunk, br_size = len, br_eof = (offset + int (length chunk) \<ge> int len)\<rparr>, d')"
    by (rule exE [OF answer_recorded_ok [OF assms(1)]])
  ultimately show ?thesis using assms(2,4) by (simp add: post_batch_def)
qed

lemma pull_loop_online:
  assumes "pull_loop v t path n offset chunks s = (r, s')" "online s" "isSafeSegmentName path"
    and "seg_file (log_of (ss_peer s)) t path \<noteq> None" "0 \<le> offset"
  shows "online s' \<and> \<not> isl r"
  using assms
proof (induction n arbitrary: offset chunks s)
  case (Suc n)
  let ?h = "post_batch (sv_deps v) (sv_stamp v) (batch_body (sv_self v) t path offset)"
  obtain res d where h: "?h (ss_peer s) = (Inr res, d)"
    using post_batch_ok [OF _ Suc.prems(3,4,5), of "sv_deps v" "sv_stamp v" "sv_self v"] Suc.prems(2) unfolding online_def by blast
  have d: "sd_crdt d = sd_crdt (ss_peer s)" using post_batch_frame [OF h] by simp
  let ?s = "s\<lparr>ss_peer := d\<rparr>"
  have on: "on_peer ?h s = (Inr res, ?s)" using Suc.prems(2) h by (simp add: on_peer_online online_def)
  have o: "online ?s" using Suc.prems(2) d by (simp add: online_def)
  have "(if br_eof res then (Inr (chunks @ br_bytes res), ?s) else if br_bytes res = [] then (Inr chunks, ?s)
      else pull_loop v t path n (offset + int (length (br_bytes res))) (chunks @ br_bytes res) ?s) = (r, s')"
    using Suc.prems(1) on by (simp only: pull_loop.simps then_do_def prod.case sum.case)
  then show ?case
    using Suc.IH [of "offset + int (length (br_bytes res))" "chunks @ br_bytes res" ?s] Suc.prems(3,4,5) o d
    by (auto split: if_splits)
qed auto

lemma for_each_online:
  assumes "\<forall>x \<in> set xs. \<forall>s r s'. I s \<longrightarrow> f x s = (r, s') \<longrightarrow> I s' \<and> r = Inr ()"
    and "for_each f xs s = (r, s')" "I s"
  shows "I s' \<and> r = Inr ()"
  using assms
proof (induction xs arbitrary: s)
  case (Cons x xs)
  obtain y s1 where y: "f x s = (y, s1)" by fastforce
  have "\<forall>s r s'. I s \<longrightarrow> f x s = (r, s') \<longrightarrow> I s' \<and> r = Inr ()"
    by (rule bspec [OF Cons.prems(1)]) simp
  from this [rule_format, OF Cons.prems(3) y] have 1: "I s1" "y = Inr ()" by simp_all
  have "for_each f xs s1 = (r, s')" using Cons.prems(2) y 1(2) by (simp add: then_do_def)
  from Cons.IH [OF _ this 1(1)] show ?case using Cons.prems(1) list.set_intros(2) [of _ xs x] by blast
qed simp

text \<open>Every segment the peer has operations in has a name that requests may use.\<close>

lemma pulls_online:
  assumes "for_each (pull_target v) xs s = (r, s')" "online s" "sync_ok v s"
    and "\<And>t path h. (t, path, h) \<in> set xs \<Longrightarrow> isSafeSegmentName path \<and> seg_file (log_of (ss_peer s)) t path \<noteq> None"
  shows "online s' \<and> sync_ok v s' \<and> r = Inr ()"
proof -
  let ?I = "\<lambda>s'. online s' \<and> sync_ok v s' \<and> sd_crdt (ss_peer s') = sd_crdt (ss_peer s)"
  have "?I s' \<and> r = Inr ()"
  proof (rule for_each_online [OF _ assms(1)], intro ballI allI impI)
    show "?I s" using assms(2,3) by simp
  next
    fix x s0 r0 s0'
    assume x: "x \<in> set xs" and i: "?I s0" and p: "pull_target v x s0 = (r0, s0')"
    obtain t path h where xe: "x = (t, path, h)" by (cases x) auto
    have n: "isSafeSegmentName path" "seg_file (log_of (ss_peer s0)) t path \<noteq> None" using assms(4) [of t path h] x xe i by simp_all
    obtain y s1 where y: "pullSegment v t path s0 = (y, s1)" by fastforce
    have o: "online s1" "\<not> isl y" using pull_loop_online [OF y [unfolded pullSegment_def]] i n by auto
    obtain bytes where b: "y = Inr bytes" using o(2) by (cases y) auto
    have "length (peer_seg s0 t path) \<le> 1024 * 1048576"
      using i unfolding sync_ok_def pulls_small_def MAX_PULL_WINDOWS_def by blast
    from pullSegment_exact [OF y this] b have "bytes = peer_seg s0 t path" by blast
    moreover have "healthy v (ss_peer s0)" using i by (simp add: sync_ok_def)
    ultimately have seg: "seg_ok (sy_bridge (sv_deps v)) bytes" using healthy_seg_ok by simp
    have "split_then (push_local v t path) bytes
        (trip (tally (\<lambda>m. m\<lparr>pulledSegments := Suc (pulledSegments m), pulledBytes := pulledBytes m + length bytes\<rparr>) s1)) = (r0, s0')"
      using p y b by (simp add: xe pull_target_def then_do_def)
    from split_online_ends(1) [OF _ seg this] o(1) have e: "online s0' \<and> r0 = Inr ()" by simp
    have "for_each (pull_target v) [x] s0 = (r0, s0')" using p e by (simp add: then_do_def)
    from pulls_effect [OF this] i have "sync_ok v s0' \<and> sd_crdt (ss_peer s0') = sd_crdt (ss_peer s0)" by blast
    with e i show "?I s0' \<and> r0 = Inr ()" by simp
  qed
  then show ?thesis by blast
qed

lemma split_frame_peer: "split_then (push_peer v t path) bytes s = (r, s') \<Longrightarrow> ss_local s' = ss_local s"
proof -
  have "transfer (push_peer v t path) bs s = (r, s') \<Longrightarrow> ss_local s' = ss_local s" for bs s
  proof (induction bs arbitrary: s)
    case (Cons b bs)
    obtain x s1 where x: "push_peer v t path b s = (x, s1)" by fastforce
    have "ss_local s1 = ss_local s" using at_peer.push_rest [OF x] by simp
    then show ?case using Cons x by (auto split: sum.splits if_splits)
  qed simp
  then show "split_then (push_peer v t path) bytes s = (r, s') \<Longrightarrow> ss_local s' = ss_local s"
    by (auto simp: split_then_def split: sum.splits)
qed

lemma pushes_online:
  assumes "for_each (push_target v) xs s = (r, s')" "online s" "healthy v (ss_local s)"
  shows "online s' \<and> r = Inr ()"
proof -
  let ?I = "\<lambda>s'. online s' \<and> ss_local s' = ss_local s"
  have "?I s' \<and> r = Inr ()"
  proof (rule for_each_online [OF _ assms(1)], intro ballI allI impI)
    show "?I s" using assms(2) by simp
  next
    fix x s0 r0 s0'
    assume i: "?I s0" and p: "push_target v x s0 = (r0, s0')"
    obtain t path h where xe: "x = (t, path, h)" by (cases x) auto
    show "?I s0' \<and> r0 = Inr ()"
    proof (cases "readSegmentBytes (log_of (ss_local s0)) t path")
      case None
      then show ?thesis using p i by (simp add: xe push_target_def)
    next
      case (Some bytes)
      let ?s = "tally (\<lambda>m. m\<lparr>pushedSegments := Suc (pushedSegments m), pushedBytes := pushedBytes m + length bytes\<rparr>) s0"
      have p': "split_then (push_peer v t path) bytes ?s = (r0, s0')" using p Some by (simp add: xe push_target_def)
      have b: "bytes = file_or_empty (log_of (ss_local s)) t path" using Some i by (simp add: readSegmentBytes_def file_or_empty_def)
      have "seg_ok (sy_bridge (sv_deps v)) bytes" unfolding b by (rule healthy_seg_ok [OF assms(3)])
      then have "online s0' \<and> r0 = Inr ()" using split_online_ends(2) [OF _ _ p'] i by simp
      moreover have "ss_local s0' = ss_local s0" using split_frame_peer [OF p'] by simp
      ultimately show ?thesis using i by simp
    qed
  qed
  then show ?thesis by blast
qed


lemma answerable_keys_ok: "answerable v d \<Longrightarrow> keys_ok (sy_bridge (sv_deps v)) (log_of d)"
  using seg_op_set_day_ops [of "sy_bridge (sv_deps v)"]
  by (auto simp: answerable_def logs_ok_def keys_ok_def keyed_def key_ok_def)

lemma summary_ok:
  assumes "answerable v d" "cache_true v mtime d"
  shows "\<exists>snap cache. computeMerkle (sy_blake3 (sv_deps v)) (sy_bridge (sv_deps v)) mtime (log_of d) (sd_cache d) = Inr (snap, cache)"
  using computeMerkle_ok [OF answerable_keys_ok [OF assms(1)]] assms(2) unfolding cache_true_def by blast

lemma fetch_leaves_online:
  assumes "fetch_leaves v ours R ts theirs s = (r, s')" "online s" "cache_true v (sv_mtime_peer v) (ss_peer s)" "answerable v (ss_peer s)"
  shows "\<not> isl r \<and> online s'"
  using assms
proof (induction ts arbitrary: theirs s)
  case (Cons u us)
  show ?case
  proof (cases "roots ours u = R u")
    case True
    then show ?thesis using Cons.IH [of _ s] Cons.prems by simp
  next
    case False
    obtain ls d where p: "post_leaves (sv_deps v) (sv_mtime_peer v) (leaves_body u) (ss_peer s) = (Inr ls, d)"
      using summary_ok [OF Cons.prems(4,3)] by (auto simp: post_leaves_def leaves_body_def member_def)
    let ?s = "s\<lparr>ss_peer := d\<rparr>"
    have c: "sd_crdt d = sd_crdt (ss_peer s)" using post_leaves_frame [OF p] by simp
    have "on_peer (post_leaves (sv_deps v) (sv_mtime_peer v) (leaves_body u)) s = (Inr ls, ?s)"
      using Cons.prems(2) p by (simp add: on_peer_online online_def)
    then have "fetch_leaves v ours R us (theirs\<lparr>leaves := (leaves theirs)(u := ls)\<rparr>) (trip ?s) = (r, s')"
      using Cons.prems(1) False by (simp add: then_do_def)
    from Cons.IH [OF this] show ?thesis
      using Cons.prems(2,4) post_leaves_summary(1) [OF p Cons.prems(3,4)] answerable_same [OF c, of v] c by (simp add: online_def)
  qed
qed auto

lemma exchange_online:
  assumes "online s" "cache_true v (sv_mtime_peer v) (ss_peer s)" "answerable v (ss_peer s)" "sync_ok v s"
    and "fetch_leaves v ours R TYPES theirs0 s = (x, s1)"
    and "\<forall>theirs t path h. x = Inr theirs \<longrightarrow> (t, path, h) \<in> set (md_pull (diffSnapshots ours theirs)) \<longrightarrow>
      isSafeSegmentName path \<and> seg_file (log_of (ss_peer s)) t path \<noteq> None"
  shows "\<exists>theirs s2 s3. x = Inr theirs \<and> for_each (pull_target v) (md_pull (diffSnapshots ours theirs)) s1 = (Inr (), s2)
    \<and> for_each (push_target v) (md_push (diffSnapshots ours theirs)) s2 = (Inr (), s3)"
proof -
  from fetch_leaves_online [OF assms(5,1-3)] obtain theirs where th: "x = Inr theirs" "online s1" by (cases x) auto
  note f = fetch_leaves_frame [OF assms(5)]
  have ok: "sync_ok v s1" using same_crdt_sync_ok [of s1 s v] f assms(4) by simp
  obtain y s2 where y: "for_each (pull_target v) (md_pull (diffSnapshots ours theirs)) s1 = (y, s2)" by fastforce
  have "isSafeSegmentName path \<and> seg_file (log_of (ss_peer s1)) t path \<noteq> None"
    if "(t, path, h) \<in> set (md_pull (diffSnapshots ours theirs))" for t path h
    using assms(6) th(1) that unfolding conjunct1 [OF conjunct2 [OF f]] by blast
  from pulls_online [OF y th(2) ok this] have 2: "online s2" "sync_ok v s2" "y = Inr ()" by simp_all
  obtain z s3 where z: "for_each (push_target v) (md_push (diffSnapshots ours theirs)) s2 = (z, s3)" by fastforce
  have "z = Inr ()" using pushes_online [OF z 2(1)] 2(2) by (simp add: sync_ok_def)
  then show ?thesis using th(1) y z 2(3) by blast
qed

definition dated :: "sync_env \<Rightarrow> daemon \<Rightarrow> bool" where
  "dated v d \<longleftrightarrow> (\<forall>op \<in> all_ops v d. four_digit_ms (wall_ms (w_hlc op)))"

lemma safe_days:
  assumes "dated v d" "comparable blake3 (sy_bridge (sv_deps v)) log (log_of d)" "ops v d t day \<noteq> {}"
  shows "isSafeSegmentName day \<and> seg_file (log_of d) t day \<noteq> None"
proof -
  obtain op where op: "op \<in> ops v d t day" using assms(3) by blast
  then have "four_digit_ms (wall_ms (w_hlc op))" using assms(1) ops_all [of v d t day] by (auto simp: dated_def)
  moreover have "utcDate (wall_ms (w_hlc op)) = day" using assms(2) op unfolding comparable_def ops_def by blast
  ultimately have "isSafeSegmentName day" using utcDate_safe by auto
  moreover have "seg_file (log_of d) t day \<noteq> None"
    using op seg_ok_Nil by (cases "seg_file (log_of d) t day") (simp_all add: ops_def day_ops_def file_or_empty_def)
  ultimately show ?thesis by blast
qed

lemma run_completes:
  assumes "ss_network s = []" "sync_ok v s" "trusted v s" "dated v (ss_peer s)"
  shows "\<exists>b s'. runSyncWith v s = (Inr b, s')"
proof -
  let ?blake = "sy_blake3 (sv_deps v)" and ?br = "sy_bridge (sv_deps v)"
  note t = trusted_parts [OF assms(2,3)]
  have w: "writer_ok (cs_writer (sd_crdt (ss_local s)))" "writer_ok (cs_writer (sd_crdt (ss_peer s)))"
    using t(3,4) by (simp_all add: healthy_def)
  obtain ours cache where m: "computeMerkle ?blake ?br (sv_mtime_local v) (log_of (ss_local s)) (sd_cache (ss_local s)) = Inr (ours, cache)"
    using summary_ok [OF t(1,6)] by blast
  obtain res d where g: "get_merkle (sv_deps v) (sv_mtime_peer v) (ss_peer s) = (Inr res, d)"
    using summary_ok [OF t(2,7)] self_id_ok [OF w(2)] by (auto simp: get_merkle_def)
  have d: "sd_crdt d = sd_crdt (ss_peer s)" using get_merkle_frame [OF g] by simp
  define s1 where "s1 = trip (s\<lparr>ss_local := (ss_local s)\<lparr>sd_cache := cache\<rparr>, ss_peer := d\<rparr>)"
  have o: "online s1" using assms(1) w d by (simp add: s1_def online_def)
  have s1: "sd_crdt (ss_local s1) = sd_crdt (ss_local s)" "ss_peer s1 = d" by (simp_all add: s1_def)
  obtain x s2 where x: "fetch_leaves v ours (mr_roots res) TYPES \<lparr>roots = mr_roots res, leaves = (\<lambda>_. [])\<rparr> s1 = (x, s2)" by fastforce
  note gs = get_merkle_summary [OF g t(7,2)]
  from gs(1) obtain snap where n: "summary_of v (ss_peer s) snap" "fresh_snapshot ?blake ?br (log_of (ss_peer s)) = Inr snap" "mr_roots res = roots snap"
    by blast
  have an: "answerable v (ss_peer s1)" using answerable_same [of d "ss_peer s" v] d t(2) s1(2) by simp
  have safe: "isSafeSegmentName path \<and> seg_file (log_of (ss_peer s1)) u path \<noteq> None"
    if x': "x = Inr theirs" and p: "(u, path, h) \<in> set (md_pull (diffSnapshots ours theirs))" for theirs u path h
  proof -
    have "\<forall>u. leaves theirs u = (if roots ours u = roots snap u then leaves ours u else leaves snap u)"
      using fetch_leaves_summary [OF x [unfolded x'], where snap = snap] gs(2) an n(2,3) s1(2) d by (simp add: TYPES_def [symmetric]) (simp add: TYPES_def)
    from diff_days(1) [OF t(5) computeMerkle_summary(1) [OF m t(6,1)] n(1) healthy_logs_ok [OF t(3)] healthy_logs_ok [OF t(4)] this] p
    have "ops v (ss_peer s) u path \<noteq> {}" unfolding ops_def by blast
    then show ?thesis using safe_days [OF assms(4) t(5)] s1(2) d by simp
  qed
  have "cache_true v (sv_mtime_peer v) (ss_peer s1)" "sync_ok v s1"
    using gs(2) s1 same_crdt_sync_ok [of s1 s v] d assms(2) by simp_all
  from exchange_online [OF o this(1) an this(2) x] safe obtain theirs s3 s4 where
    e: "x = Inr theirs" "for_each (pull_target v) (md_pull (diffSnapshots ours theirs)) s2 = (Inr (), s3)"
      "for_each (push_target v) (md_push (diffSnapshots ours theirs)) s3 = (Inr (), s4)" by blast
  show ?thesis
    using m g assms(1) x e unfolding s1_def
    by (auto simp: runSyncWith_def Let_def then_do_def on_peer_online response_Delivered)
qed

end
