(* ===== verification/Convergence.thy ===== *)
theory Convergence
  imports SyncRun
begin

text \<open>
  What the sync command achieves: a push is all or nothing; an interrupted run loses nothing and
  invents nothing; over a working network a run completes, and leaves the initiator with the
  union; a run in each direction makes two daemons show the same state.
\<close>

subsection \<open>What a daemon shows\<close>

lemma healthy_view:
  assumes "healthy v d"
  shows "replica_inv (sd_crdt d)"
    "replica_view (sd_crdt d) = Finite_Set.fold (wire_step (sy_parse (sv_deps v))) empty_view (all_ops v d)"
proof -
  let ?br = "sy_bridge (sv_deps v)" and ?parse = "sy_parse (sv_deps v)" and ?l = "logged (sy_bridge (sv_deps v)) (log_of d)"
  have d: "durable ?br ?parse (sd_crdt d)" using assms by (simp add: healthy_def)
  show "replica_inv (sd_crdt d)" using d by (simp add: durable_def)
  have "replica_view (sd_crdt d) = fold (wire_step ?parse) ?l empty_view" using d by (simp add: durable_def)
  also have "\<dots> = Finite_Set.fold (wire_step ?parse) empty_view (set ?l)"
    using d by (intro replica.fold_step_set) (auto simp: durable_def)
  also have "set ?l = all_ops v d" using set_logged [OF healthy_logs_ok [OF assms]] by (simp add: all_ops_def ops_def)
  finally show "replica_view (sd_crdt d) = Finite_Set.fold (wire_step ?parse) empty_view (all_ops v d)" .
qed

lemma same_ops_same_view:
  assumes "healthy v d" "healthy v d'" "\<forall>t day. ops v d t day = ops v d' t day"
  shows "map_of (lww (sd_crdt d)) = map_of (lww (sd_crdt d')) \<and> materializeGset (gset (sd_crdt d)) = materializeGset (gset (sd_crdt d'))
    \<and> active at (cs_orset (sd_crdt d)) = active at (cs_orset (sd_crdt d'))"
proof -
  have "all_ops v d = all_ops v d'" using assms(3) by (simp add: all_ops_def)
  then show ?thesis
    using view_determines [OF healthy_view(1) [OF assms(1)] healthy_view(1) [OF assms(2)], of at]
      healthy_view(2) [OF assms(1)] healthy_view(2) [OF assms(2)] by simp
qed

lemma same_ops_same_summary:
  assumes "healthy v d" "healthy v d'" "segment_codec (sy_bridge (sv_deps v))" "\<forall>t day. ops v d t day = ops v d' t day"
    and "keyed (sy_bridge (sv_deps v)) (log_of d)"
  shows "fresh_snapshot blake3 (sy_bridge (sv_deps v)) (log_of d) = fresh_snapshot blake3 (sy_bridge (sv_deps v)) (log_of d')"
proof -
  let ?br = "sy_bridge (sv_deps v)"
  have s: "seg_op_set ?br (log_of e) t day = ops v e t day" if "e \<in> {d, d'}" for e t day
    using seg_op_set_day_ops [OF assms(3)] healthy_logs_ok [of v e] that assms(1,2) by (auto simp: logs_ok_def ops_def)
  have k: "\<forall>t day. \<forall>op \<in> ops v d t day. hlc_ok (wireHlc (w_hlc op))" using assms(5) by (simp add: keyed_def key_ok_def ops_def)
  then have "keys_ok ?br (log_of d)" "keys_ok ?br (log_of d')" using s assms(4) by (simp_all add: keys_ok_def)
  then show ?thesis unfolding fresh_snapshot_def
    by (rule fresh_types_of_ops) (use s assms(4) healthy_logs_ok [OF assms(1)] healthy_logs_ok [OF assms(2)] in \<open>simp_all add: logs_ok_def log_ok_def\<close>)
qed


lemma same_deps: "sv_deps w = sv_deps v \<Longrightarrow> ops w = ops v \<and> all_ops w = all_ops v \<and> healthy w = healthy v \<and> may_meet w = may_meet v"
  unfolding fun_eq_iff ops_def all_ops_def healthy_def may_meet_def by simp

text \<open>A session in the other direction starts from what the first one left.\<close>

lemma reverse_sync_ok:
  assumes "runSyncWith v s = (r, s1)" "sync_ok v s" "sv_deps w = sv_deps v"
    and "ss_local s2 = ss_peer s1" "ss_peer s2 = ss_local s1" "pulls_small w (ss_peer s2)"
  shows "sync_ok w s2"
proof -
  from run_gains [OF assms(1,2)] obtain F G where
    F: "absorbed v F (ss_local s) (ss_local s1)" "\<forall>t day. F t day \<subseteq> ops v (ss_peer s) t day" and
    G: "absorbed v G (ss_peer s) (ss_peer s1)" "\<forall>t day. G t day \<subseteq> ops v (ss_local s) t day \<union> ops v (ss_peer s) t day"
    by blast
  have "all_ops v (ss_local s1) \<union> all_ops v (ss_peer s1) \<subseteq> all_ops v (ss_local s) \<union> all_ops v (ss_peer s)"
  proof -
    let ?U = "all_ops v (ss_local s) \<union> all_ops v (ss_peer s)"
    have "F t day \<subseteq> ?U" "G t day \<subseteq> ?U" for t day
      using F(2) [rule_format, of t day] G(2) [rule_format, of t day] ops_all [of v "ss_local s" t day] ops_all [of v "ss_peer s" t day]
      by (auto simp only: Un_iff subset_iff)
    then show ?thesis unfolding absorbed_all_ops [OF F(1)] absorbed_all_ops [OF G(1)] by (intro Un_least UN_least) simp_all
  qed
  then have "may_meet v (all_ops v (ss_peer s1) \<union> all_ops v (ss_local s1))"
    using assms(2) may_meet_mono by (auto simp: sync_ok_def Un_commute)
  then show ?thesis
    using absorbed_healthy [OF F(1)] absorbed_healthy [OF G(1)] assms(4-6) same_deps [OF assms(3)]
    by (simp add: sync_ok_def)
qed

lemma both_ways_ops:
  assumes "runSyncWith v s = (Inr b, s1)" "sync_ok v s" "trusted v s" "refused s1 = refused s"
    and "runSyncWith w s2 = (Inr c, s3)" "sync_ok w s2" "trusted w s2" "refused s3 = refused s2"
    and "sv_deps w = sv_deps v" "ss_local s2 = ss_peer s1" "ss_peer s2 = ss_local s1"
  shows "ops v (ss_local s3) t day = ops v (ss_local s) t day \<union> ops v (ss_peer s) t day
    \<and> ops v (ss_peer s3) t day = ops v (ss_local s) t day \<union> ops v (ss_peer s) t day"
proof -
  have o: "ops w = ops v" using same_deps [OF assms(9)] by simp
  show ?thesis
    using run_exact [OF assms(1-4), of t day] run_exact [OF assms(5-8), of t day] unfolding o assms(10,11) by auto
qed


text \<open>Equal daemons are found equal: nothing is exchanged.\<close>

lemma run_up_to_date:
  assumes "ss_network s = []" "sync_ok v s" "trusted v s" "\<forall>t day. ops v (ss_local s) t day = ops v (ss_peer s) t day"
  shows "\<exists>s'. runSyncWith v s = (Inr True, s') \<and> refused s' = refused s \<and> ss_network s' = []
    \<and> sd_crdt (ss_local s') = sd_crdt (ss_local s) \<and> sd_crdt (ss_peer s') = sd_crdt (ss_peer s)
    \<and> cache_true v (sv_mtime_local v) (ss_local s') \<and> cache_true v (sv_mtime_peer v) (ss_peer s')"
proof -
  let ?blake = "sy_blake3 (sv_deps v)" and ?br = "sy_bridge (sv_deps v)"
  note t = trusted_parts [OF assms(2,3)]
  obtain ours cache where m: "computeMerkle ?blake ?br (sv_mtime_local v) (log_of (ss_local s)) (sd_cache (ss_local s)) = Inr (ours, cache)"
    using summary_ok [OF t(1,6)] by blast
  have w: "writer_ok (cs_writer (sd_crdt (ss_peer s)))" using t(4) by (simp add: healthy_def)
  obtain res d where g: "get_merkle (sv_deps v) (sv_mtime_peer v) (ss_peer s) = (Inr res, d)"
    using summary_ok [OF t(2,7)] self_id_ok [OF w] by (auto simp: get_merkle_def)
  note gs = get_merkle_summary [OF g t(7,2)] and ms = computeMerkle_summary [OF m t(6,1)]
  have "fresh_snapshot ?blake ?br (log_of (ss_local s)) = fresh_snapshot ?blake ?br (log_of (ss_peer s))"
    using assms(4) t(1) by (intro same_ops_same_summary [OF t(3,4)]) (auto simp: answerable_def)
  then have "mr_roots res = roots ours" using gs(1) ms(3) by auto
  then have match: "rootsMatch (roots ours) (mr_roots res)" by (simp add: rootsMatch_def)
  let ?s = "recordPeerOnSuccess v (parsePeerHandshake (mr_peer res)) (trip (s\<lparr>ss_local := (ss_local s)\<lparr>sd_cache := cache\<rparr>, ss_peer := d\<rparr>))"
  have run: "runSyncWith v s = (Inr True, ?s)"
    using m g assms(1) match by (simp add: runSyncWith_def Let_def then_do_def on_peer_online response_Delivered)
  have c: "sd_crdt d = sd_crdt (ss_peer s)" using get_merkle_frame [OF g] by simp
  have rec: "ss_network (recordPeerOnSuccess v h x) = ss_network x" "sd_cache (ss_local (recordPeerOnSuccess v h x)) = sd_cache (ss_local x)" for h x
    by (simp_all add: recordPeerOnSuccess_def split: option.split)
  have ref: "refused (s\<lparr>ss_local := x, ss_peer := y\<rparr>) = refused s" for x y by (simp add: refused_def)
  show ?thesis
    using run ms(2) gs(2) c assms(1) rec ref by (intro exI [of _ ?s]) (simp add: cache_true_def)
qed


subsection \<open>A sample\<close>

text \<open>A codec for one operation, a hash that does not collide on what is hashed for it, and two daemons.\<close>

definition sync_bridge :: bridge where
  "sync_bridge = \<lparr>br_encode = (\<lambda>ops. if ops = [sample_wire_op] then Some [9] else None),
     br_decode = (\<lambda>b. if b = [9] then Some [sample_wire_op] else None),
     br_decodeSegment = (\<lambda>b. case splitSegmentBatches b of Inl _ \<Rightarrow> None
       | Inr bs \<Rightarrow> Some (concat (map (\<lambda>b. if b = [9] then [sample_wire_op] else []) bs)))\<rparr>"

definition sample_hash :: "bytes \<Rightarrow> bytes" where
  "sample_hash x = replicate 30 0 @ [if x = [] then 0 else hd x, word_of_nat (length x)]"

definition sample_env :: sync_env where
  "sample_env = \<lparr>sv_deps = \<lparr>sy_bridge = sync_bridge, sy_parse = (\<lambda>_. None), sy_blake3 = sample_hash, sy_number = (\<lambda>_. None), sy_peers_ok = True\<rparr>,
     sv_mtime_local = (\<lambda>_ _. 0), sv_mtime_peer = (\<lambda>_ _. 0), sv_now = 86400000, sv_stamp = ''t'', sv_self = replicate 32 (CHR ''a''), sv_url = ''u''\<rparr>"

definition daemon_with :: "byte \<Rightarrow> wire_op list \<Rightarrow> oplog \<Rightarrow> daemon" where
  "daemon_with n ws log =
     \<lparr>sd_crdt = fold (wire_apply (\<lambda>_. None) 0) ws ((crdt_new (replicate 16 n) empty_log)\<lparr>cs_oplog := log\<rparr>),
      sd_peers = \<lparr>known_dir = None, capWarningEmitted = False, capWarnings = 0\<rparr>, sd_cache = None\<rparr>"

definition no_ops :: daemon where "no_ops = daemon_with 1 [] empty_log"
definition one_op :: daemon where "one_op = daemon_with 2 [sample_wire_op] (sample_log [1, 9])"

lemma env_simps [simp]:
  "sy_bridge (sv_deps sample_env) = sync_bridge" "sy_parse (sv_deps sample_env) = (\<lambda>_. None)" "sy_blake3 (sv_deps sample_env) = sample_hash"
  by (simp_all add: sample_env_def)

lemma log_of_sample [simp]: "log_of no_ops = empty_log" "log_of one_op = sample_log [1, 9]"
  using wire_apply_oplog [of "\<lambda>_. None" 0 "[sample_wire_op]"] by (simp_all add: no_ops_def one_op_def daemon_with_def)

lemma sample_files:
  "file_or_empty empty_log t day = []"
  "file_or_empty (sample_log b) t day = (if t = GSET \<and> day = ''1970-01-02'' then b else [])"
  by (simp_all add: file_or_empty_def seg_file_def sample_log_def empty_log_def oplog_new_def)

lemma frames_of_9: "batches_ok sync_bridge [[9]]" "concat (map frame [[9]]) = [1, 9]"
  by (simp_all add: batches_ok_def frame_ok_def sync_bridge_def VARINT_U32_MAX_def frame_9)

lemma sample_segment_codec: "segment_codec sync_bridge"
  unfolding segment_codec_def
proof (intro allI impI)
  fix bs assume ok: "batches_ok sync_bridge bs"
  have "splitSegmentBatches (concat (map frame bs)) = Inr bs"
    using split_from_frames [OF _ torn_Nil, of bs "[]"] ok by (simp add: splitSegmentBatches_def batches_ok_def)
  moreover have "\<forall>b \<in> set bs. b = [9]" using ok by (auto simp: batches_ok_def sync_bridge_def split: if_splits)
  ultimately show "br_decodeSegment sync_bridge (concat (map frame bs)) = Some (concat (map (\<lambda>b. the (br_decode sync_bridge b)) bs))"
    by (auto simp: sync_bridge_def intro!: arg_cong [of _ _ concat])
qed

lemma sample_day_ops:
  "day_ops sync_bridge empty_log t day = {}"
  "day_ops sync_bridge (sample_log [1, 9]) t day = (if t = GSET \<and> day = ''1970-01-02'' then {sample_wire_op} else {})"
proof -
  show "day_ops sync_bridge empty_log t day = {}"
    using seg_ok_Nil by (simp add: day_ops_def sample_files)
  have "seg_ops sync_bridge [1, 9] = [sample_wire_op]"
    using seg_ops_frames [OF frames_of_9(1)] frames_of_9(2) by (simp add: sync_bridge_def)
  then show "day_ops sync_bridge (sample_log [1, 9]) t day = (if t = GSET \<and> day = ''1970-01-02'' then {sample_wire_op} else {})"
    using seg_ok_Nil by (simp add: day_ops_def sample_files)
qed

lemma sample_logs_ok: "logs_ok sync_bridge empty_log" "logs_ok sync_bridge (sample_log [1, 9])"
proof -
  have "seg_ok sync_bridge [1, 9]" unfolding seg_ok_def using frames_of_9 by metis
  then show "logs_ok sync_bridge empty_log" "logs_ok sync_bridge (sample_log [1, 9])"
    by (auto simp: logs_ok_def log_ok_def empty_log_def sample_log_def oplog_new_def)
qed

lemma sample_ops [simp]:
  "ops sample_env no_ops t day = {}"
  "ops sample_env one_op t day = (if t = GSET \<and> day = ''1970-01-02'' then {sample_wire_op} else {})"
  by (simp_all add: ops_def sample_day_ops)

lemma sample_all_ops: "all_ops sample_env no_ops = {}" "all_ops sample_env one_op = {sample_wire_op}"
  by (auto simp: all_ops_def)

lemma sample_healthy: "healthy sample_env no_ops" "healthy sample_env one_op"
proof -
  let ?st = "\<lambda>n. crdt_new (replicate 16 n) empty_log"
  have "\<forall>t. disk empty_log t = []" by (simp add: empty_log_def oplog_new_def)
  then have e: "durable sync_bridge (\<lambda>_. None) (?st n)" for n by (rule empty_durable)
  have "cs_oplog (?st n) = empty_log" for n by (simp add: crdt_new_def)
  then have st: "(?st n)\<lparr>cs_oplog := empty_log\<rparr> = ?st n" for n by simp
  have w: "writer_ok (replicate 16 n)" for n :: byte by (simp add: writer_ok_def size_defs)
  show "healthy sample_env no_ops"
    using e [of 1] w [of 1] by (simp add: healthy_def no_ops_def daemon_with_def st) (simp add: crdt_new_def)
  have s: "set (logged sync_bridge (sample_log [1, 9])) = {sample_wire_op}"
    using set_logged [OF sample_logs_ok(2)] by (auto simp: sample_day_ops)
  have "pushed sync_bridge GSET ''1970-01-02'' [9] [sample_wire_op] empty_log (sample_log [1, 9])"
    using sample_logs_ok(2) frame_9 by (simp add: pushed_def sample_day_ops sample_files)
  then have "pushed sync_bridge GSET ''1970-01-02'' [9] [sample_wire_op] (cs_oplog (?st 2)) (sample_log [1, 9])"
    by (simp add: crdt_new_def)
  from durable_batch [OF e this, of 0] s sample_wire_ok sample_wire_compat
  show "healthy sample_env one_op"
    using w [of 2] wire_apply_writer [of "\<lambda>_. None" 0 "[sample_wire_op]" "(?st 2)\<lparr>cs_oplog := sample_log [1, 9]\<rparr>"]
    by (simp add: healthy_def one_op_def daemon_with_def) (simp add: crdt_new_def)
qed

lemma sample_sync_ok:
  assumes "ss_local s \<in> {no_ops, one_op}" "ss_peer s \<in> {no_ops, one_op}"
  shows "sync_ok sample_env s"
proof -
  have d: "healthy sample_env d \<and> pulls_small sample_env d \<and> all_ops sample_env d \<subseteq> {sample_wire_op}" if "d \<in> {no_ops, one_op}" for d
    using that sample_healthy
    by (elim insertE emptyE) (simp_all add: pulls_small_def sample_files MAX_PULL_WINDOWS_def sample_all_ops)
  have "may_meet sample_env {sample_wire_op}" by (simp add: may_meet_def sample_wire_ok sample_wire_compat)
  then have "may_meet sample_env (all_ops sample_env (ss_local s) \<union> all_ops sample_env (ss_peer s))"
    by (rule may_meet_mono) (use d [OF assms(1)] d [OF assms(2)] in blast)
  then show ?thesis using d [OF assms(1)] d [OF assms(2)] by (simp add: sync_ok_def)
qed

lemma sample_leaf_days:
  "leaf_days sample_hash sync_bridge empty_log t = []"
  "set (leaf_days sample_hash sync_bridge (sample_log [1, 9]) t) \<subseteq> {''1970-01-02''}"
  "length (leaf_days sample_hash sync_bridge (sample_log [1, 9]) t) \<le> 1"
  by (auto simp: leaf_days_def listSegmentDays_def empty_log_def sample_log_def oplog_new_def)

lemma sample_hash_inputs:
  assumes "log \<in> {empty_log, sample_log [1, 9]}"
  shows "hash_inputs sample_hash sync_bridge log \<subseteq> {[LEAF_TAG], [NODE_TAG], LEAF_TAG # day_key {sample_wire_op}}"
proof -
  have one: "loop_inputs b xs = []" if "length xs \<le> 1" for b :: "bytes \<Rightarrow> bytes" and xs
    using that by (subst loop_inputs.simps) simp
  have ops: "day_ops sync_bridge log t day = {} \<or> day_ops sync_bridge log t day = {sample_wire_op}" for t day
    using assms by (auto simp: sample_day_ops split: if_splits)
  have days: "length (leaf_days sample_hash sync_bridge log t) \<le> 1" for t
    using assms sample_leaf_days(1,3) by auto
  then have h: "hashed sample_hash (leaf_keys sample_hash sync_bridge log t) = insert [NODE_TAG] ((#) LEAF_TAG ` set (leaf_keys sample_hash sync_bridge log t))" for t
    by (simp add: hashed_def one leaf_keys_def)
  have k: "day_key (day_ops sync_bridge log t day) \<in> {[], day_key {sample_wire_op}}" for t day using ops [of t day] by auto
  have "LEAF_TAG # day_key (day_ops sync_bridge log t day) \<in> {[LEAF_TAG], [NODE_TAG], LEAF_TAG # day_key {sample_wire_op}}" for t day
    using k [of t day] by auto
  then show ?thesis unfolding hash_inputs_def h unfolding leaf_keys_def by auto
qed

lemma sample_trusted:
  assumes "log_of (ss_local s) \<in> {empty_log, sample_log [1, 9]}" "log_of (ss_peer s) \<in> {empty_log, sample_log [1, 9]}"
    and "cache_true sample_env (\<lambda>_ _. 0) (ss_local s)" "cache_true sample_env (\<lambda>_ _. 0) (ss_peer s)"
  shows "trusted sample_env s"
proof -
  let ?L = "log_of (ss_local s)" and ?P = "log_of (ss_peer s)"
  have ops: "day_ops sync_bridge log t day \<subseteq> (if day = ''1970-01-02'' then {sample_wire_op} else {})" if "log \<in> {empty_log, sample_log [1, 9]}" for log t day
    using that by (auto simp: sample_day_ops split: if_splits)
  have ops1: "day_ops sync_bridge log t day \<subseteq> {sample_wire_op}" if "log \<in> {empty_log, sample_log [1, 9]}" for log t day
    using ops [OF that, of t day] by (auto split: if_splits)
  have key: "key_ok sample_wire_op" "utcDate (wall_ms (w_hlc sample_wire_op)) = ''1970-01-02''"
    by (simp_all add: key_ok_def sample_wire_op_def wireHlc_def hlc_ok_def writer_ok_def size_defs) code_simp
  obtain b where b: "op_key sample_wire_op = bytesToHex b" "length b = COMPOSITE_BYTES" using op_key_bytes [OF key(1)] by blast
  have "day_key {sample_wire_op} = b" using b by (simp add: day_key_def hex_pairs_bytesToHex)
  then have "inj_on sample_hash {[LEAF_TAG], [NODE_TAG], LEAF_TAG # day_key {sample_wire_op}}"
    using b(2) by (auto simp: inj_on_def sample_hash_def LEAF_TAG_def NODE_TAG_def size_defs)
  then have inj: "inj_on sample_hash (insert [LEAF_TAG] (hash_inputs sample_hash sync_bridge ?L \<union> hash_inputs sample_hash sync_bridge ?P))"
    by (rule inj_on_subset) (use sample_hash_inputs [OF assms(1)] sample_hash_inputs [OF assms(2)] in blast)
  have keyed: "keyed sync_bridge log" if "log \<in> {empty_log, sample_log [1, 9]}" for log
    using ops1 [OF that] key(1) unfolding keyed_def by blast
  have "inj_on op_key {sample_wire_op}" by simp
  then have "inj_on op_key ((\<Union>t day. day_ops sync_bridge ?L t day) \<union> (\<Union>t day. day_ops sync_bridge ?P t day))"
    by (rule inj_on_subset) (use ops1 [OF assms(1)] ops1 [OF assms(2)] in blast)
  moreover have "utcDate (wall_ms (w_hlc op)) = day" if "op \<in> day_ops sync_bridge ?L t day \<union> day_ops sync_bridge ?P t day" for op t day
    using that ops [OF assms(1), of t day] ops [OF assms(2), of t day] key(2) by (auto split: if_splits)
  ultimately have "comparable sample_hash sync_bridge ?L ?P"
    using inj keyed [OF assms(1)] keyed [OF assms(2)] by (simp add: comparable_def sample_hash_def)
  then show ?thesis using assms(3,4) sample_segment_codec by (simp add: trusted_def) (simp add: sample_env_def)
qed

lemma sample_cache: "cache_true sample_env mtime no_ops" "cache_true sample_env mtime one_op"
  by (simp_all add: cache_true_def no_ops_def one_op_def daemon_with_def loadCache_def coherent_Nil)


subsection \<open>Properties\<close>

text \<open>C22: A push is all or nothing. Whatever the body, a refused push leaves the daemon as it was, and the
  status says that the request was at fault; an accepted one adds the operations of the batch to the
  segment it names, to that one only, and memory stays what the log replays to.\<close>

theorem push_all_or_nothing:
  assumes "healthy v d" "post_push (sv_deps v) now stamp body d = (r, d')"
    and "\<forall>batch ws. string_of (member ''batch'' body) = Some batch \<longrightarrow>
      br_decode (sy_bridge (sv_deps v)) (base64_decode batch) = Some ws \<longrightarrow> may_meet v (all_ops v d \<union> set ws)"
  shows "case r of
      Inl e \<Rightarrow> d' = d \<and> 400 \<le> status e \<and> status e < 500
    | Inr res \<Rightarrow> \<exists>t path batch ws. isCrdtType (member ''type'' body) = Some t \<and> string_of (member ''path'' body) = Some path
        \<and> string_of (member ''batch'' body) = Some batch \<and> br_decode (sy_bridge (sv_deps v)) (base64_decode batch) = Some ws
        \<and> pu_total res = length ws \<and> healthy v d'
        \<and> (\<forall>u day. ops v d' u day = ops v d u day \<union> (if u = t \<and> day = path then set ws else {}))"
proof (cases r)
  case (Inl e)
  have "writer_ok (cs_writer (sd_crdt d))" using assms(1) by (simp add: healthy_def)
  then have "d' = d" "isRefusal (HttpError e)"
    using post_push_Inl post_push_refusal assms(2) Inl by auto
  then show ?thesis using Inl by (simp add: isRefusal_def)
next
  case (Inr res)
  obtain t path batch ws n log where p: "isCrdtType (member ''type'' body) = Some t" "string_of (member ''path'' body) = Some path"
      "string_of (member ''batch'' body) = Some batch" "br_decode (sy_bridge (sv_deps v)) (base64_decode batch) = Some ws" "pu_total res = length ws"
    by (rule post_push_Inr [OF assms(2) [unfolded Inr]]) blast
  from push_effect [OF assms(1,2) p(1-4)] assms(3) p(3,4) Inr
  have "absorbed v (at_day t path (set ws)) d d'" by simp
  then show ?thesis using Inr p unfolding absorbed_def at_day_def by auto
qed

theorem push_all_or_nothing_witness:
  "\<exists>d'. fst (post_push (sv_deps sample_env) 86400000 ''t'' (local_push_body GSET ''1970-01-02'' []) no_ops) = Inl BadBatch
     \<and> snd (post_push (sv_deps sample_env) 86400000 ''t'' (local_push_body GSET ''1970-01-02'' []) no_ops) = no_ops
     \<and> snd (post_push (sv_deps sample_env) 86400000 ''t'' (local_push_body GSET ''1970-01-02'' [9]) no_ops) = d'
     \<and> ops sample_env d' GSET ''1970-01-02'' = {sample_wire_op}"
proof -
  let ?empty = "post_push (sv_deps sample_env) 86400000 ''t'' (local_push_body GSET ''1970-01-02'' []) no_ops"
  let ?push = "post_push (sv_deps sample_env) 86400000 ''t'' (local_push_body GSET ''1970-01-02'' [9]) no_ops"
  have run: "fst ?empty = Inl BadBatch" "\<not> isl (fst ?push)" by code_simp+
  have "may_meet sample_env {sample_wire_op}" by (simp add: may_meet_def sample_wire_ok sample_wire_compat)
  then have meet: "\<forall>batch ws. string_of (member ''batch'' body) = Some batch \<longrightarrow>
      br_decode (sy_bridge (sv_deps sample_env)) (base64_decode batch) = Some ws \<longrightarrow> may_meet sample_env (all_ops sample_env no_ops \<union> set ws)" for body
    by (auto simp: sync_bridge_def sample_all_ops split: if_splits)
  note p = push_all_or_nothing [OF sample_healthy(1) prod.collapse [symmetric] meet, where now = 86400000 and stamp = "''t''"]
  have 1: "snd ?empty = no_ops" using p [where body = "local_push_body GSET ''1970-01-02'' []"] run(1) by simp
  from p [where body = "local_push_body GSET ''1970-01-02'' [9]"] run(2)
  obtain ws where "br_decode sync_bridge [9] = Some ws" "ops sample_env (snd ?push) GSET ''1970-01-02'' = set ws"
    by (cases "fst ?push") (auto simp: base64_roundtrip simp del: base64_encode.simps type_name.simps)
  moreover from this(1) have "ws = [sample_wire_op]" by (simp add: sync_bridge_def)
  ultimately have "ops sample_env (snd ?push) GSET ''1970-01-02'' = {sample_wire_op}" by (simp only: list.set)
  with 1 run(1) show ?thesis by blast
qed

text \<open>C4: A run of the sync command is safe at any point. Whichever requests are lost, whichever responses
  are lost after the request was carried out, and wherever the run stops: both daemons keep all
  their operations, gain only operations the other has, on the day and of the type the other has
  them, and their memory stays what their log replays to. A run that fails registers no peer.\<close>

theorem sync_interrupted:
  assumes "runSyncWith v s = (r, s')" "sync_ok v s"
  shows "healthy v (ss_local s') \<and> healthy v (ss_peer s')
    \<and> (\<forall>t day. ops v (ss_local s) t day \<subseteq> ops v (ss_local s') t day
        \<and> ops v (ss_local s') t day \<subseteq> ops v (ss_local s) t day \<union> ops v (ss_peer s) t day
        \<and> ops v (ss_peer s) t day \<subseteq> ops v (ss_peer s') t day
        \<and> ops v (ss_peer s') t day \<subseteq> ops v (ss_local s) t day \<union> ops v (ss_peer s) t day)
    \<and> (isl r \<longrightarrow> sd_peers (ss_local s') = sd_peers (ss_local s))"
  using run_gains [OF assms] unfolding absorbed_def by (elim exE conjE) (intro conjI allI; auto)

theorem sync_interrupted_witness:
  "\<exists>r s'. runSyncWith sample_env \<lparr>ss_local = no_ops, ss_peer = one_op, ss_network = [Delivered, ResponseLost, RequestLost], ss_summary = new_summary\<rparr> = (r, s')
     \<and> healthy sample_env (ss_local s') \<and> sample_wire_op \<in> ops sample_env (ss_peer s') GSET ''1970-01-02''
     \<and> ops sample_env (ss_local s') LWW ''1970-01-02'' = {}"
proof -
  let ?s = "\<lparr>ss_local = no_ops, ss_peer = one_op, ss_network = [Delivered, ResponseLost, RequestLost], ss_summary = new_summary\<rparr>"
  obtain r s' where r: "runSyncWith sample_env ?s = (r, s')" by fastforce
  have "sync_ok sample_env ?s" by (rule sample_sync_ok) simp_all
  from sync_interrupted [OF r this] have
    "healthy sample_env (ss_local s')" "ops sample_env one_op GSET ''1970-01-02'' \<subseteq> ops sample_env (ss_peer s') GSET ''1970-01-02''"
    "ops sample_env (ss_local s') LWW ''1970-01-02'' \<subseteq> ops sample_env no_ops LWW ''1970-01-02'' \<union> ops sample_env one_op LWW ''1970-01-02''"
    unfolding session.select_convs by blast+
  with r show ?thesis by auto
qed

text \<open>C3: Over a network that delivers, a run of the sync command completes; unless a segment was refused, the
  initiator then holds on every day what it had and what the peer had, and the peer has received the
  days it had nothing of.\<close>

theorem sync_reaches_union:
  assumes "ss_network s = []" "sync_ok v s" "trusted v s" "dated v (ss_peer s)"
  shows "\<exists>b s'. runSyncWith v s = (Inr b, s') \<and> (refused s' = refused s \<longrightarrow>
    (\<forall>t day. ops v (ss_local s') t day = ops v (ss_local s) t day \<union> ops v (ss_peer s) t day
      \<and> ops v (ss_peer s') t day = (if ops v (ss_peer s) t day = {} then ops v (ss_local s) t day else ops v (ss_peer s) t day)))"
  using run_completes [OF assms] run_exact [OF _ assms(2,3)] by blast


theorem sync_reaches_union_witness:
  "\<exists>b s'. runSyncWith sample_env \<lparr>ss_local = no_ops, ss_peer = one_op, ss_network = [], ss_summary = new_summary\<rparr> = (Inr b, s')
     \<and> (refused s' = 0 \<longrightarrow> ops sample_env (ss_local s') GSET ''1970-01-02'' = {sample_wire_op})"
proof -
  let ?s = "\<lparr>ss_local = no_ops, ss_peer = one_op, ss_network = [], ss_summary = new_summary\<rparr>"
  have "sync_ok sample_env ?s" by (rule sample_sync_ok) simp_all
  moreover have "trusted sample_env ?s" by (rule sample_trusted) (simp_all add: sample_cache)
  moreover have "dated sample_env (ss_peer ?s)"
    by (simp add: dated_def sample_all_ops four_digit_ms_def sample_wire_op_def)
  ultimately obtain b s' where "runSyncWith sample_env ?s = (Inr b, s')"
    "refused s' = refused ?s \<longrightarrow> ops sample_env (ss_local s') GSET ''1970-01-02'' = {sample_wire_op}"
    using sync_reaches_union [of ?s sample_env] by fastforce
  then show ?thesis by (auto simp: refused_def new_summary_def)
qed

text \<open>C5: A run in each direction makes two daemons one: each holds on every day the operations the two had,
  their registers, sums and active claims are the same, and so are the summaries of their logs,
  so that a further comparison finds nothing to exchange.\<close>

theorem sync_both_ways:
  assumes "runSyncWith v s = (Inr b, s1)" "sync_ok v s" "trusted v s" "refused s1 = refused s"
    and "sv_deps w = sv_deps v" "ss_local s2 = ss_peer s1" "ss_peer s2 = ss_local s1" "pulls_small w (ss_peer s2)"
    and "runSyncWith w s2 = (Inr c, s3)" "trusted w s2" "refused s3 = refused s2"
  shows "(\<forall>t day. ops v (ss_local s3) t day = ops v (ss_local s) t day \<union> ops v (ss_peer s) t day
        \<and> ops v (ss_peer s3) t day = ops v (ss_local s) t day \<union> ops v (ss_peer s) t day)
    \<and> map_of (lww (sd_crdt (ss_local s3))) = map_of (lww (sd_crdt (ss_peer s3)))
    \<and> materializeGset (gset (sd_crdt (ss_local s3))) = materializeGset (gset (sd_crdt (ss_peer s3)))
    \<and> active at (cs_orset (sd_crdt (ss_local s3))) = active at (cs_orset (sd_crdt (ss_peer s3)))
    \<and> fresh_snapshot (sy_blake3 (sv_deps v)) (sy_bridge (sv_deps v)) (log_of (ss_local s3))
      = fresh_snapshot (sy_blake3 (sv_deps v)) (sy_bridge (sv_deps v)) (log_of (ss_peer s3))"
proof -
  have ok2: "sync_ok w s2" by (rule reverse_sync_ok [OF assms(1,2,5-8)])
  have o: "ops v (ss_local s3) t day = ops v (ss_local s) t day \<union> ops v (ss_peer s) t day
      \<and> ops v (ss_peer s3) t day = ops v (ss_local s) t day \<union> ops v (ss_peer s) t day" for t day
    by (rule both_ways_ops [OF assms(1-4,9) ok2 assms(10,11,5-7)])
  have h: "healthy v (ss_local s3)" "healthy v (ss_peer s3)"
    using run_gains [OF assms(9) ok2] same_deps [OF assms(5)] by (auto simp: absorbed_def)
  have eq: "\<forall>t day. ops v (ss_local s3) t day = ops v (ss_peer s3) t day" using o by simp
  have "keyed (sy_bridge (sv_deps v)) (log_of (ss_local s)) \<and> keyed (sy_bridge (sv_deps v)) (log_of (ss_peer s))"
    using trusted_parts(5) [OF assms(2,3)] by (simp add: comparable_def)
  then have "keyed (sy_bridge (sv_deps v)) (log_of (ss_local s3))" using o unfolding keyed_def ops_def by blast
  moreover have "segment_codec (sy_bridge (sv_deps v))" using assms(3) by (simp add: trusted_def)
  ultimately show ?thesis
    using o same_ops_same_view [OF h eq, of at] same_ops_same_summary [OF h _ eq] by blast
qed


theorem sync_both_ways_witness:
  "\<exists>s1 s3. runSyncWith sample_env \<lparr>ss_local = one_op, ss_peer = one_op, ss_network = [], ss_summary = new_summary\<rparr> = (Inr True, s1)
     \<and> runSyncWith sample_env (s1\<lparr>ss_local := ss_peer s1, ss_peer := ss_local s1\<rparr>) = (Inr True, s3)
     \<and> materializeGset (gset (sd_crdt (ss_local s3))) = materializeGset (gset (sd_crdt (ss_peer s3)))"
proof -
  let ?s = "\<lparr>ss_local = one_op, ss_peer = one_op, ss_network = [], ss_summary = new_summary\<rparr>"
  have m: "sv_mtime_local sample_env = (\<lambda>_ _. 0)" "sv_mtime_peer sample_env = (\<lambda>_ _. 0)" by (simp_all add: sample_env_def)
  have ok: "sync_ok sample_env ?s" by (rule sample_sync_ok) simp_all
  have tr: "trusted sample_env ?s" by (rule sample_trusted) (simp_all add: sample_cache)
  from run_up_to_date [OF _ ok tr] obtain s1 where s1: "runSyncWith sample_env ?s = (Inr True, s1)" "refused s1 = refused ?s" "ss_network s1 = []"
      "sd_crdt (ss_local s1) = sd_crdt one_op" "sd_crdt (ss_peer s1) = sd_crdt one_op"
      "cache_true sample_env (\<lambda>_ _. 0) (ss_local s1)" "cache_true sample_env (\<lambda>_ _. 0) (ss_peer s1)"
    using m by auto
  let ?s2 = "s1\<lparr>ss_local := ss_peer s1, ss_peer := ss_local s1\<rparr>"
  have small: "pulls_small sample_env (ss_peer ?s2)"
    using s1(4) by (simp add: pulls_small_def sample_files MAX_PULL_WINDOWS_def)
  have ok2: "sync_ok sample_env ?s2" by (rule reverse_sync_ok [OF s1(1) ok refl _ _ small]) simp_all
  have tr2: "trusted sample_env ?s2" by (rule sample_trusted) (use s1(4-7) in simp_all)
  from run_up_to_date [OF _ ok2 tr2] obtain s3 where s3: "runSyncWith sample_env ?s2 = (Inr True, s3)" "refused s3 = refused ?s2"
    using s1(3-5) by (auto simp: ops_def)
  from sync_both_ways [OF s1(1) ok tr s1(2) refl _ _ small s3(1) tr2 s3(2)]
  have "materializeGset (gset (sd_crdt (ss_local s3))) = materializeGset (gset (sd_crdt (ss_peer s3)))" by simp
  with s1(1) s3(1) show ?thesis by blast
qed

end
