(* ===== verification/GraphDb.thy ===== *)
theory GraphDb
  imports Bytes "HOL-Library.Option_ord"
begin

text \<open>
  The project index, \<open>src/daemon/src/db/queries.ts\<close> over \<open>src/daemon/src/db/schema.ts\<close>: the
  tables of \<open>index.sqlite\<close>, one function per prepared statement, and the full-text table that
  triggers keep in step with the nodes. A table is its list of rows, oldest first; SQL leaves the
  order of a query without \<open>ORDER BY\<close> open, and nothing below depends on it. A transaction
  that throws is not modelled. Shown here: every operation keeps primary keys unique and the
  full-text table an exact mirror of the nodes; deleting a file removes exactly its rows; a
  re-ingest through \<open>replaceEdges\<close> is idempotent.
\<close>

subsection \<open>Rows and tables\<close>

record graph_node =
  gn_id :: string
  gn_name :: string
  gn_qualified_name :: string
  gn_kind :: string
  gn_language :: string
  gn_file :: string
  gn_range :: "int \<times> int"
  gn_ast_hash :: string
  gn_summary :: "string option"
  gn_last_seen :: int
  gn_logical_clock :: int
  gn_last_modified_by :: "string option"

record graph_edge =
  ge_src :: string
  ge_dst :: string
  ge_kind :: string
  ge_weight :: int
  ge_last_seen :: int

record node_row =
  nr_id :: string
  nr_name :: string
  nr_qualified_name :: string
  nr_kind :: string
  nr_language :: "string option"
  nr_file :: "string option"
  nr_range_start :: int
  nr_range_end :: int
  nr_ast_hash :: "string option"
  nr_summary :: "string option"
  nr_last_seen :: "int option"
  nr_logical_clock :: int
  nr_last_modified_by :: "string option"
  nr_merge_flagged :: int

record merge_rejection_row =
  mr_file :: string
  mr_phase :: string
  mr_language :: string
  mr_reason :: string
  mr_detected_at :: int

record edge_row =
  er_src :: string
  er_dst :: string
  er_kind :: string
  er_weight :: int
  er_last_seen :: "int option"

record call_site_row =
  site_dst :: string
  site_src :: string
  site_kind :: string
  site_file :: "string option"
  site_line :: "int option"
  site_col :: "int option"

record fts_row =
  fts_id :: string
  fts_name :: string
  fts_qualified_name :: string
  fts_summary :: string
  fts_path :: string

record claim_row =
  cr_id :: string
  cr_agent :: string
  cr_scope_json :: string
  cr_fingerprint :: string
  cr_intent :: string
  cr_created :: int
  cr_ttl :: int

text \<open>
  \<open>has_fts\<close> is the cached probe of the SQLite build, \<open>fts_triggers\<close> whether the three
  triggers exist; without FTS5 there is no full-text table and no trigger.
\<close>

record db =
  nodes_t :: "node_row list"
  edges_t :: "edge_row list"
  call_sites_t :: "call_site_row list"
  merge_rejections_t :: "merge_rejection_row list"
  claims_t :: "claim_row list"
  stats_t :: "(string \<times> string) list"
  nodes_fts_t :: "fts_row list"
  fts_triggers :: bool
  has_fts :: bool

definition db_new :: "bool \<Rightarrow> db" where
  "db_new fts = \<lparr>nodes_t = [], edges_t = [], call_sites_t = [], merge_rejections_t = [], claims_t = [],
     stats_t = [], nodes_fts_t = [], fts_triggers = fts, has_fts = fts\<rparr>"

text \<open>\<open>INSERT \<dots> ON CONFLICT(key) DO UPDATE\<close>: \<open>merge old excluded\<close> is the row it leaves.\<close>

definition upsert_row :: "('r \<Rightarrow> 'k) \<Rightarrow> ('r \<Rightarrow> 'r \<Rightarrow> 'r) \<Rightarrow> 'r \<Rightarrow> 'r list \<Rightarrow> 'r list" where
  "upsert_row key merge r rows =
     (if key r \<in> key ` set rows then map (\<lambda>x. if key x = key r then merge x r else x) rows else rows @ [r])"

subsection \<open>The full-text mirror\<close>

definition fts_separator :: "char \<Rightarrow> char" where
  "fts_separator c = (if c \<in> set ''/.-_'' then CHR '' '' else c)"

definition ftsPathExpr :: "node_row \<Rightarrow> string" where
  "ftsPathExpr r = map fts_separator (case nr_file r of None \<Rightarrow> [] | Some f \<Rightarrow> f) @ '' '' @ map fts_separator (nr_id r)"

definition fts_of :: "node_row \<Rightarrow> fts_row" where
  "fts_of r = \<lparr>fts_id = nr_id r, fts_name = nr_name r, fts_qualified_name = nr_qualified_name r,
     fts_summary = (case nr_summary r of None \<Rightarrow> [] | Some s \<Rightarrow> s), fts_path = ftsPathExpr r\<rparr>"

text \<open>The three triggers, then a row statement on \<open>nodes\<close> with the trigger it fires.\<close>

definition nodes_fts_ai :: "node_row \<Rightarrow> fts_row list \<Rightarrow> fts_row list" where
  "nodes_fts_ai new fts = fts @ [fts_of new]"

definition nodes_fts_ad :: "node_row \<Rightarrow> fts_row list \<Rightarrow> fts_row list" where
  "nodes_fts_ad old fts = filter (\<lambda>f. fts_id f \<noteq> nr_id old) fts"

definition nodes_fts_au :: "node_row \<Rightarrow> node_row \<Rightarrow> fts_row list \<Rightarrow> fts_row list" where
  "nodes_fts_au old new fts = filter (\<lambda>f. fts_id f \<noteq> nr_id old) fts @ [fts_of new]"

definition sql_insert_node :: "node_row \<Rightarrow> db \<Rightarrow> db" where
  "sql_insert_node r d = d\<lparr>nodes_t := nodes_t d @ [r],
     nodes_fts_t := (if fts_triggers d then nodes_fts_ai r (nodes_fts_t d) else nodes_fts_t d)\<rparr>"

definition sql_update_nodes :: "(node_row \<Rightarrow> bool) \<Rightarrow> (node_row \<Rightarrow> node_row) \<Rightarrow> db \<Rightarrow> db" where
  "sql_update_nodes P g d = d\<lparr>nodes_t := map (\<lambda>r. if P r then g r else r) (nodes_t d),
     nodes_fts_t := (if fts_triggers d then fold (\<lambda>r. nodes_fts_au r (g r)) (filter P (nodes_t d)) (nodes_fts_t d)
                     else nodes_fts_t d)\<rparr>"

definition sql_delete_nodes :: "(node_row \<Rightarrow> bool) \<Rightarrow> db \<Rightarrow> db" where
  "sql_delete_nodes P d = d\<lparr>nodes_t := filter (\<lambda>r. \<not> P r) (nodes_t d),
     nodes_fts_t := (if fts_triggers d then fold nodes_fts_ad (filter P (nodes_t d)) (nodes_fts_t d)
                     else nodes_fts_t d)\<rparr>"

definition withoutFtsTriggers :: "(db \<Rightarrow> db) \<Rightarrow> db \<Rightarrow> db" where
  "withoutFtsTriggers f d = (if has_fts d then (f (d\<lparr>fts_triggers := False\<rparr>))\<lparr>fts_triggers := True\<rparr> else f d)"

subsection \<open>Nodes\<close>

definition node_params :: "graph_node \<Rightarrow> node_row" where
  "node_params n = \<lparr>nr_id = gn_id n, nr_name = gn_name n, nr_qualified_name = gn_qualified_name n,
     nr_kind = gn_kind n, nr_language = Some (gn_language n), nr_file = Some (gn_file n),
     nr_range_start = fst (gn_range n), nr_range_end = snd (gn_range n), nr_ast_hash = Some (gn_ast_hash n),
     nr_summary = gn_summary n, nr_last_seen = Some (gn_last_seen n), nr_logical_clock = gn_logical_clock n,
     nr_last_modified_by = gn_last_modified_by n, nr_merge_flagged = 0\<rparr>"

definition UPSERT_NODE_STMT :: "node_row \<Rightarrow> node_row \<Rightarrow> node_row" where
  "UPSERT_NODE_STMT old excluded = excluded\<lparr>
     nr_summary := (case nr_summary excluded of Some s \<Rightarrow> Some s | None \<Rightarrow> nr_summary old),
     nr_logical_clock := max (nr_logical_clock old) (nr_logical_clock excluded),
     nr_merge_flagged := nr_merge_flagged old\<rparr>"

definition upsertNode :: "graph_node \<Rightarrow> db \<Rightarrow> db" where
  "upsertNode n d =
     (let r = node_params n
      in if nr_id r \<in> nr_id ` set (nodes_t d)
         then sql_update_nodes (\<lambda>x. nr_id x = nr_id r) (\<lambda>x. UPSERT_NODE_STMT x r) d
         else sql_insert_node r d)"

definition upsertNodes :: "graph_node list \<Rightarrow> db \<Rightarrow> nat \<times> db" where
  "upsertNodes ns d = (length ns, fold upsertNode ns d)"

definition getNode :: "string \<Rightarrow> db \<Rightarrow> node_row option" where
  "getNode i d = List.find (\<lambda>r. nr_id r = i) (nodes_t d)"

definition allNodeIds :: "db \<Rightarrow> string list" where
  "allNodeIds d = map nr_id (nodes_t d)"

definition deleteNode :: "string \<Rightarrow> db \<Rightarrow> db" where
  "deleteNode i = sql_delete_nodes (\<lambda>r. nr_id r = i)"

definition nodeIdsForFile :: "string \<Rightarrow> db \<Rightarrow> string list" where
  "nodeIdsForFile f d = map nr_id (filter (\<lambda>r. nr_file r = Some f) (nodes_t d))"

definition deleteNodesByFile :: "string \<Rightarrow> db \<Rightarrow> nat \<times> db" where
  "deleteNodesByFile f d =
     (let d1 = d\<lparr>call_sites_t := filter (\<lambda>s. site_file s \<noteq> Some f) (call_sites_t d)\<rparr>;
          d2 = d1\<lparr>edges_t := filter (\<lambda>e. er_src e \<notin> set (nodeIdsForFile f d1)) (edges_t d1)\<rparr>;
          before = length (nodeIdsForFile f d2);
          d3 = withoutFtsTriggers (\<lambda>x.
                 sql_delete_nodes (\<lambda>r. nr_file r = Some f)
                   (if has_fts x
                    then x\<lparr>nodes_fts_t := filter (\<lambda>t. fts_id t \<notin> set (nodeIdsForFile f x)) (nodes_fts_t x)\<rparr>
                    else x)) d2
      in (before, d3))"

text \<open>The statements of \<open>clearGraph\<close>; its ingest marker is in theory IndexHealth.\<close>

definition clearGraph_tables :: "db \<Rightarrow> db" where
  "clearGraph_tables = withoutFtsTriggers (\<lambda>d.
     (sql_delete_nodes (\<lambda>_. True) (d\<lparr>edges_t := []\<rparr>))\<lparr>nodes_fts_t := []\<rparr>)"

definition nodeRowToGraphNode :: "node_row \<Rightarrow> graph_node" where
  "nodeRowToGraphNode r = \<lparr>gn_id = nr_id r, gn_name = nr_name r, gn_qualified_name = nr_qualified_name r,
     gn_kind = nr_kind r, gn_language = (case nr_language r of None \<Rightarrow> ''unknown'' | Some l \<Rightarrow> l),
     gn_file = (case nr_file r of None \<Rightarrow> [] | Some f \<Rightarrow> f), gn_range = (nr_range_start r, nr_range_end r),
     gn_ast_hash = (case nr_ast_hash r of None \<Rightarrow> [] | Some h \<Rightarrow> h), gn_summary = nr_summary r,
     gn_last_seen = (case nr_last_seen r of None \<Rightarrow> 0 | Some t \<Rightarrow> t), gn_logical_clock = nr_logical_clock r,
     gn_last_modified_by = (case nr_last_modified_by r of Some w \<Rightarrow> if w = [] then None else Some w | None \<Rightarrow> None)\<rparr>"

subsection \<open>Merge rejections\<close>

definition clearMergeState :: "string list \<Rightarrow> db \<Rightarrow> db" where
  "clearMergeState files = fold (\<lambda>f d.
     sql_update_nodes (\<lambda>r. nr_file r = Some f) (\<lambda>r. r\<lparr>nr_merge_flagged := 0\<rparr>)
       (d\<lparr>merge_rejections_t := filter (\<lambda>m. mr_file m \<noteq> f) (merge_rejections_t d)\<rparr>)) files"

definition recordMergeRejections :: "merge_rejection_row list \<Rightarrow> db \<Rightarrow> nat \<times> db" where
  "recordMergeRejections rows d = (length rows, fold (\<lambda>m d.
     sql_update_nodes (\<lambda>r. nr_file r = Some (mr_file m)) (\<lambda>r. r\<lparr>nr_merge_flagged := 1\<rparr>)
       (d\<lparr>merge_rejections_t := upsert_row (\<lambda>x. (mr_file x, mr_phase x)) (\<lambda>_ x. x) m (merge_rejections_t d)\<rparr>)) rows d)"

definition listMergeRejections :: "int \<Rightarrow> db \<Rightarrow> merge_rejection_row list" where
  "listMergeRejections limit d = take (nat limit) (sort_key (\<lambda>m. - mr_detected_at m) (merge_rejections_t d))"

definition mergeRejectionCount :: "db \<Rightarrow> nat" where
  "mergeRejectionCount d = length (merge_rejections_t d)"

subsection \<open>Edges\<close>

definition edge_key :: "edge_row \<Rightarrow> string \<times> string \<times> string" where
  "edge_key e = (er_src e, er_dst e, er_kind e)"

definition edge_params :: "graph_edge \<Rightarrow> edge_row" where
  "edge_params e = \<lparr>er_src = ge_src e, er_dst = ge_dst e, er_kind = ge_kind e, er_weight = ge_weight e,
     er_last_seen = Some (ge_last_seen e)\<rparr>"

definition UPSERT_EDGE_STMT :: "edge_row \<Rightarrow> edge_row \<Rightarrow> edge_row" where
  "UPSERT_EDGE_STMT old excluded =
     old\<lparr>er_weight := er_weight old + er_weight excluded, er_last_seen := er_last_seen excluded\<rparr>"

definition REPLACE_EDGE_STMT :: "edge_row \<Rightarrow> edge_row \<Rightarrow> edge_row" where
  "REPLACE_EDGE_STMT old excluded =
     old\<lparr>er_weight := er_weight excluded, er_last_seen := er_last_seen excluded\<rparr>"

definition upsertEdge :: "graph_edge \<Rightarrow> db \<Rightarrow> db" where
  "upsertEdge e d = d\<lparr>edges_t := upsert_row edge_key UPSERT_EDGE_STMT (edge_params e) (edges_t d)\<rparr>"

definition upsertEdges :: "graph_edge list \<Rightarrow> db \<Rightarrow> nat \<times> db" where
  "upsertEdges es d = (length es, fold upsertEdge es d)"

definition replaceEdge :: "graph_edge \<Rightarrow> db \<Rightarrow> db" where
  "replaceEdge e d = d\<lparr>edges_t := upsert_row edge_key REPLACE_EDGE_STMT (edge_params e) (edges_t d)\<rparr>"

definition replaceEdges :: "graph_edge list \<Rightarrow> db \<Rightarrow> nat \<times> db" where
  "replaceEdges es d = (length es, fold replaceEdge es d)"

definition outgoing :: "string \<Rightarrow> db \<Rightarrow> edge_row list" where
  "outgoing i d = filter (\<lambda>e. er_src e = i) (edges_t d)"

definition incoming :: "string \<Rightarrow> db \<Rightarrow> edge_row list" where
  "incoming i d = filter (\<lambda>e. er_dst e = i) (edges_t d)"

definition edgeRowToGraphEdge :: "edge_row \<Rightarrow> graph_edge" where
  "edgeRowToGraphEdge e = \<lparr>ge_src = er_src e, ge_dst = er_dst e, ge_kind = er_kind e, ge_weight = er_weight e,
     ge_last_seen = (case er_last_seen e of None \<Rightarrow> 0 | Some t \<Rightarrow> t)\<rparr>"

subsection \<open>Call sites, statistics and claims\<close>

definition insertCallSites :: "call_site_row list \<Rightarrow> db \<Rightarrow> nat \<times> db" where
  "insertCallSites rows d = (length rows, d\<lparr>call_sites_t := call_sites_t d @ rows\<rparr>)"

definition clearCallSites :: "db \<Rightarrow> db" where
  "clearCallSites d = d\<lparr>call_sites_t := []\<rparr>"

definition CHUNK :: nat where "CHUNK = 500"

function delete_site_chunks :: "string list \<Rightarrow> nat \<times> db \<Rightarrow> nat \<times> db" where
  "delete_site_chunks files acc =
     (if files = [] then acc
      else let chunk = take CHUNK files; (removed, d) = acc;
               hit = (\<lambda>s. site_file s \<in> Some ` set chunk)
           in delete_site_chunks (drop CHUNK files)
                (removed + length (filter hit (call_sites_t d)),
                 d\<lparr>call_sites_t := filter (\<lambda>s. \<not> hit s) (call_sites_t d)\<rparr>))"
  by auto
termination by (relation "measure (length \<circ> fst)") (auto simp: CHUNK_def)

declare delete_site_chunks.simps [simp del]

definition deleteCallSitesByFile :: "string list \<Rightarrow> db \<Rightarrow> nat \<times> db" where
  "deleteCallSitesByFile srcFiles d = delete_site_chunks (fold set_add srcFiles []) (0, d)"

definition callSitesOf :: "string \<Rightarrow> db \<Rightarrow> call_site_row list" where
  "callSitesOf dst d = sort_key (\<lambda>s. (site_file s, site_line s, site_col s)) (filter (\<lambda>s. site_dst s = dst) (call_sites_t d))"

definition setStat :: "string \<Rightarrow> string \<Rightarrow> db \<Rightarrow> db" where
  "setStat k v d = d\<lparr>stats_t := AList.update k v (stats_t d)\<rparr>"

definition getStat :: "string \<Rightarrow> db \<Rightarrow> string option" where
  "getStat k d = map_of (stats_t d) k"

definition db_counts :: "db \<Rightarrow> nat \<times> nat \<times> nat" where
  "db_counts d = (length (nodes_t d), length (edges_t d), length (claims_t d))"

text \<open>Claims are also rows of the index, a cache of the replicated set (\<open>routes/claims.ts\<close>).\<close>

definition upsertClaimRow :: "claim_row \<Rightarrow> db \<Rightarrow> db" where
  "upsertClaimRow r d = d\<lparr>claims_t := upsert_row cr_id (\<lambda>_ x. x) r (claims_t d)\<rparr>"

definition deleteClaimRow :: "string \<Rightarrow> db \<Rightarrow> db" where
  "deleteClaimRow i d = d\<lparr>claims_t := filter (\<lambda>r. cr_id r \<noteq> i) (claims_t d)\<rparr>"

subsection \<open>Keys stay unique\<close>

lemma map_key_upsert:
  assumes "\<And>x. key x = key r \<Longrightarrow> key (merge x r) = key x"
  shows "map key (upsert_row key merge r rows) = (if key r \<in> key ` set rows then map key rows else map key rows @ [key r])"
  using assms by (auto simp: upsert_row_def)

lemma distinct_upsert:
  assumes "\<And>x. key x = key r \<Longrightarrow> key (merge x r) = key x" "distinct (map key rows)"
  shows "distinct (map key (upsert_row key merge r rows))"
  using assms by (subst map_key_upsert) auto

lemma distinct_upsert_replace: "distinct (map key rows) \<Longrightarrow> distinct (map key (upsert_row key (\<lambda>_ x. x) r rows))"
  by (rule distinct_upsert) auto

lemma edge_key_stmts [simp]:
  "edge_key (UPSERT_EDGE_STMT x r) = edge_key x" "edge_key (REPLACE_EDGE_STMT x r) = edge_key x"
  by (simp_all add: edge_key_def UPSERT_EDGE_STMT_def REPLACE_EDGE_STMT_def)

subsection \<open>The mirror\<close>

definition mirror :: "db \<Rightarrow> bool" where
  "mirror d \<longleftrightarrow> distinct (map nr_id (nodes_t d)) \<and> fts_triggers d = has_fts d
     \<and> mset (nodes_fts_t d) = (if has_fts d then mset (map fts_of (nodes_t d)) else {#})"

definition db_ok :: "db \<Rightarrow> bool" where
  "db_ok d \<longleftrightarrow> mirror d \<and> distinct (map edge_key (edges_t d))
     \<and> distinct (map (\<lambda>m. (mr_file m, mr_phase m)) (merge_rejections_t d))
     \<and> distinct (map cr_id (claims_t d)) \<and> distinct (map fst (stats_t d))"

lemma fts_id_fts_of [simp]: "fts_id (fts_of r) = nr_id r"
  by (simp add: fts_of_def)

lemma mset_nodes_fts_au:
  assumes "distinct (map nr_id rs)" "\<And>r. r \<in> set rs \<Longrightarrow> nr_id (g r) = nr_id r"
  shows "mset (fold (\<lambda>r. nodes_fts_au r (g r)) rs fts)
    = filter_mset (\<lambda>f. fts_id f \<notin> nr_id ` set rs) (mset fts) + mset (map (\<lambda>r. fts_of (g r)) rs)"
  using assms
proof (induction rs arbitrary: fts)
  case Nil
  then show ?case by simp
next
  case (Cons r rs)
  have "mset (fold (\<lambda>r. nodes_fts_au r (g r)) (r # rs) fts)
      = filter_mset (\<lambda>f. fts_id f \<notin> nr_id ` set rs) (mset (nodes_fts_au r (g r) fts)) + mset (map (\<lambda>r. fts_of (g r)) rs)"
    using Cons by simp
  also have "filter_mset (\<lambda>f. fts_id f \<notin> nr_id ` set rs) (mset (nodes_fts_au r (g r) fts))
      = filter_mset (\<lambda>f. fts_id f \<notin> nr_id ` set (r # rs)) (mset fts) + {#fts_of (g r)#}"
    using Cons.prems by (auto simp: nodes_fts_au_def filter_filter_mset intro: filter_mset_cong)
  finally show ?case by simp
qed

lemma mset_nodes_fts_ad:
  "mset (fold nodes_fts_ad rs fts) = filter_mset (\<lambda>f. fts_id f \<notin> nr_id ` set rs) (mset fts)"
  by (induction rs arbitrary: fts) (auto simp: nodes_fts_ad_def filter_filter_mset intro: filter_mset_cong)

lemma mset_fts_filter:
  assumes "distinct (map nr_id rows)"
  shows "filter_mset (\<lambda>f. fts_id f \<notin> nr_id ` set (filter P rows)) (mset (map fts_of rows))
    = mset (map fts_of (filter (\<lambda>r. \<not> P r) rows))"
proof -
  have "nr_id r \<in> nr_id ` set (filter P rows) \<longleftrightarrow> P r" if "r \<in> set rows" for r
    using assms that by (auto simp: distinct_map dest: inj_onD)
  then have "filter ((\<lambda>f. fts_id f \<notin> nr_id ` set (filter P rows)) \<circ> fts_of) rows = filter (\<lambda>r. \<not> P r) rows"
    by (intro filter_cong) auto
  then show ?thesis by (simp only: filter_map flip: mset_filter)
qed

lemma sql_insert_node_mirror [intro]:
  "mirror d \<Longrightarrow> nr_id r \<notin> nr_id ` set (nodes_t d) \<Longrightarrow> mirror (sql_insert_node r d)"
  by (auto simp: mirror_def sql_insert_node_def nodes_fts_ai_def)

lemma map_id_update: "(\<And>r. nr_id (g r) = nr_id r) \<Longrightarrow> map nr_id (map (\<lambda>r. if P r then g r else r) rows) = map nr_id rows"
  by simp

lemma mset_map_if:
  "mset (map (\<lambda>r. h (if P r then g r else r)) rows) = mset (map h (filter (\<lambda>r. \<not> P r) rows)) + mset (map (\<lambda>r. h (g r)) (filter P rows))"
  by (induction rows) auto

lemma sql_update_nodes_mirror [intro]:
  assumes "mirror d" "\<And>r. P r \<Longrightarrow> nr_id (g r) = nr_id r"
  shows "mirror (sql_update_nodes P g d)"
proof -
  have d: "distinct (map nr_id (nodes_t d))" "fts_triggers d = has_fts d"
    "mset (nodes_fts_t d) = (if has_fts d then mset (map fts_of (nodes_t d)) else {#})"
    using assms(1) by (auto simp: mirror_def)
  have "map nr_id (map (\<lambda>r. if P r then g r else r) (nodes_t d)) = map nr_id (nodes_t d)"
    using assms(2) by simp
  moreover have "mset (fold (\<lambda>r. nodes_fts_au r (g r)) (filter P (nodes_t d)) (nodes_fts_t d))
      = mset (map fts_of (map (\<lambda>r. if P r then g r else r) (nodes_t d)))" if "has_fts d"
  proof -
    have "mset (fold (\<lambda>r. nodes_fts_au r (g r)) (filter P (nodes_t d)) (nodes_fts_t d))
        = filter_mset (\<lambda>f. fts_id f \<notin> nr_id ` set (filter P (nodes_t d))) (mset (nodes_fts_t d))
          + mset (map (\<lambda>r. fts_of (g r)) (filter P (nodes_t d)))"
      using d(1) assms(2) by (intro mset_nodes_fts_au) (auto simp: distinct_map_filter)
    then show ?thesis
      using that d(3) mset_map_if [of fts_of P g "nodes_t d"] mset_fts_filter [OF d(1), of P] by (simp add: comp_def)
  qed
  ultimately show ?thesis
    using d unfolding mirror_def sql_update_nodes_def by (simp del: map_map mset_map)
qed

lemma sql_delete_nodes_mirror [intro]:
  assumes "mirror d"
  shows "mirror (sql_delete_nodes P d)"
  using assms mset_fts_filter [of "nodes_t d" P]
  by (auto simp: mirror_def sql_delete_nodes_def mset_nodes_fts_ad distinct_map_filter)

lemma mirror_frame [simp]:
  "mirror (d\<lparr>edges_t := e\<rparr>) = mirror d" "mirror (d\<lparr>call_sites_t := c\<rparr>) = mirror d"
  "mirror (d\<lparr>merge_rejections_t := m\<rparr>) = mirror d" "mirror (d\<lparr>claims_t := l\<rparr>) = mirror d"
  "mirror (d\<lparr>stats_t := t\<rparr>) = mirror d"
  by (simp_all add: mirror_def)

lemma sql_frame [simp]:
  "edges_t (sql_update_nodes P g d) = edges_t d" "call_sites_t (sql_update_nodes P g d) = call_sites_t d"
  "merge_rejections_t (sql_update_nodes P g d) = merge_rejections_t d" "claims_t (sql_update_nodes P g d) = claims_t d"
  "stats_t (sql_update_nodes P g d) = stats_t d" "has_fts (sql_update_nodes P g d) = has_fts d"
  "edges_t (sql_delete_nodes P d) = edges_t d" "call_sites_t (sql_delete_nodes P d) = call_sites_t d"
  "merge_rejections_t (sql_delete_nodes P d) = merge_rejections_t d" "claims_t (sql_delete_nodes P d) = claims_t d"
  "stats_t (sql_delete_nodes P d) = stats_t d" "has_fts (sql_delete_nodes P d) = has_fts d"
  "edges_t (sql_insert_node r d) = edges_t d" "call_sites_t (sql_insert_node r d) = call_sites_t d"
  "merge_rejections_t (sql_insert_node r d) = merge_rejections_t d" "claims_t (sql_insert_node r d) = claims_t d"
  "stats_t (sql_insert_node r d) = stats_t d" "has_fts (sql_insert_node r d) = has_fts d"
  by (simp_all add: sql_update_nodes_def sql_delete_nodes_def sql_insert_node_def)

lemma sql_nodes [simp]:
  "nodes_t (sql_update_nodes P g d) = map (\<lambda>r. if P r then g r else r) (nodes_t d)"
  "nodes_t (sql_delete_nodes P d) = filter (\<lambda>r. \<not> P r) (nodes_t d)"
  "nodes_t (sql_insert_node r d) = nodes_t d @ [r]"
  by (simp_all add: sql_update_nodes_def sql_delete_nodes_def sql_insert_node_def)

lemma mirror_upsertNode: "mirror d \<Longrightarrow> mirror (upsertNode n d)"
  unfolding upsertNode_def Let_def by (auto simp: UPSERT_NODE_STMT_def)

lemma mirror_without:
  assumes "mirror d" "has_fts d"
    and "\<And>x. has_fts x \<Longrightarrow> has_fts (f x)"
    and "distinct (map nr_id (nodes_t (f (d\<lparr>fts_triggers := False\<rparr>))))"
    and "mset (nodes_fts_t (f (d\<lparr>fts_triggers := False\<rparr>))) = mset (map fts_of (nodes_t (f (d\<lparr>fts_triggers := False\<rparr>))))"
  shows "mirror (withoutFtsTriggers f d)"
  using assms by (simp add: mirror_def withoutFtsTriggers_def)

lemma deleteNodesByFile_nodes [simp]:
  "nodes_t (snd (deleteNodesByFile f d)) = filter (\<lambda>r. nr_file r \<noteq> Some f) (nodes_t d)"
  "edges_t (snd (deleteNodesByFile f d)) = filter (\<lambda>e. er_src e \<notin> set (nodeIdsForFile f d)) (edges_t d)"
  "call_sites_t (snd (deleteNodesByFile f d)) = filter (\<lambda>s. site_file s \<noteq> Some f) (call_sites_t d)"
  "merge_rejections_t (snd (deleteNodesByFile f d)) = merge_rejections_t d"
  "claims_t (snd (deleteNodesByFile f d)) = claims_t d" "stats_t (snd (deleteNodesByFile f d)) = stats_t d"
  "fst (deleteNodesByFile f d) = length (nodeIdsForFile f d)"
  by (simp_all add: deleteNodesByFile_def Let_def withoutFtsTriggers_def nodeIdsForFile_def)

lemma set_nodeIdsForFile: "set (nodeIdsForFile f d) = nr_id ` set (filter (\<lambda>r. nr_file r = Some f) (nodes_t d))"
  by (simp add: nodeIdsForFile_def)

lemma mirror_deleteNodesByFile:
  assumes "mirror d"
  shows "mirror (snd (deleteNodesByFile f d))"
proof (cases "has_fts d")
  case True
  have "distinct (map nr_id (nodes_t d))" "mset (nodes_fts_t d) = mset (map fts_of (nodes_t d))"
    using assms True by (auto simp: mirror_def)
  then show ?thesis
    using assms True mset_fts_filter [of "nodes_t d" "\<lambda>r. nr_file r = Some f"] unfolding deleteNodesByFile_def Let_def snd_conv
    by (intro mirror_without) (auto simp: nodeIdsForFile_def distinct_map_filter sql_delete_nodes_def)
next
  case False
  then show ?thesis
    using assms by (auto simp: deleteNodesByFile_def Let_def withoutFtsTriggers_def)
qed

lemma mirror_clearGraph: "mirror d \<Longrightarrow> mirror (clearGraph_tables d)"
  by (auto simp: clearGraph_tables_def withoutFtsTriggers_def mirror_def sql_delete_nodes_def)

lemma clearGraph_tables_frame [simp]:
  "nodes_t (clearGraph_tables d) = []" "edges_t (clearGraph_tables d) = []"
  "call_sites_t (clearGraph_tables d) = call_sites_t d" "merge_rejections_t (clearGraph_tables d) = merge_rejections_t d"
  "claims_t (clearGraph_tables d) = claims_t d" "stats_t (clearGraph_tables d) = stats_t d"
  by (simp_all add: clearGraph_tables_def withoutFtsTriggers_def)

subsection \<open>The operations of the index, as one type\<close>

datatype db_op =
    UpsertNodes "graph_node list"
  | DeleteNode string
  | DeleteFile string
  | ClearTables
  | ClearMergeState "string list"
  | RecordRejections "merge_rejection_row list"
  | UpsertEdges "graph_edge list"
  | ReplaceEdges "graph_edge list"
  | InsertSites "call_site_row list"
  | ClearSites
  | DeleteSites "string list"
  | SetStat string string
  | UpsertClaim claim_row
  | DeleteClaim string

fun exec_db :: "db_op \<Rightarrow> db \<Rightarrow> db" where
  "exec_db (UpsertNodes ns) d = snd (upsertNodes ns d)"
| "exec_db (DeleteNode i) d = deleteNode i d"
| "exec_db (DeleteFile f) d = snd (deleteNodesByFile f d)"
| "exec_db ClearTables d = clearGraph_tables d"
| "exec_db (ClearMergeState fs) d = clearMergeState fs d"
| "exec_db (RecordRejections rs) d = snd (recordMergeRejections rs d)"
| "exec_db (UpsertEdges es) d = snd (upsertEdges es d)"
| "exec_db (ReplaceEdges es) d = snd (replaceEdges es d)"
| "exec_db (InsertSites rs) d = snd (insertCallSites rs d)"
| "exec_db ClearSites d = clearCallSites d"
| "exec_db (DeleteSites fs) d = snd (deleteCallSitesByFile fs d)"
| "exec_db (SetStat k v) d = setStat k v d"
| "exec_db (UpsertClaim r) d = upsertClaimRow r d"
| "exec_db (DeleteClaim i) d = deleteClaimRow i d"

lemma fold_db_ok: "(\<And>x d. db_ok d \<Longrightarrow> db_ok (f x d)) \<Longrightarrow> db_ok d \<Longrightarrow> db_ok (fold f xs d)"
  by (induction xs arbitrary: d) auto

lemma upsertNode_frame [simp]:
  "edges_t (upsertNode n d) = edges_t d" "call_sites_t (upsertNode n d) = call_sites_t d"
  "merge_rejections_t (upsertNode n d) = merge_rejections_t d" "claims_t (upsertNode n d) = claims_t d"
  "stats_t (upsertNode n d) = stats_t d"
  by (simp_all add: upsertNode_def Let_def)

lemma delete_site_chunks_spec:
  "delete_site_chunks files (n, d) =
    (n + length (filter (\<lambda>s. site_file s \<in> Some ` set files) (call_sites_t d)),
     d\<lparr>call_sites_t := filter (\<lambda>s. site_file s \<notin> Some ` set files) (call_sites_t d)\<rparr>)"
proof (induction files "(n, d)" arbitrary: n d rule: delete_site_chunks.induct)
  case (1 files)
  show ?case
  proof (cases "files = []")
    case True
    then show ?thesis by (simp add: delete_site_chunks.simps)
  next
    case False
    let ?c = "set (take CHUNK files)" and ?r = "set (drop CHUNK files)"
    have s: "set files = ?c \<union> ?r" by (metis append_take_drop_id set_append)
    have "length (filter (\<lambda>s. site_file s \<in> Some ` ?c) xs)
          + length (filter (\<lambda>s. site_file s \<in> Some ` ?r) (filter (\<lambda>s. site_file s \<notin> Some ` ?c) xs))
        = length (filter (\<lambda>s. site_file s \<in> Some ` set files) xs)" for xs :: "call_site_row list"
      unfolding s by (induction xs) auto
    moreover have "filter (\<lambda>s. site_file s \<notin> Some ` ?r) (filter (\<lambda>s. site_file s \<notin> Some ` ?c) xs)
        = filter (\<lambda>s. site_file s \<notin> Some ` set files) xs" for xs :: "call_site_row list"
      unfolding s filter_filter by (rule filter_cong) auto
    ultimately show ?thesis
      using False by (subst delete_site_chunks.simps) (simp add: Let_def 1 [OF False refl refl refl refl])
  qed
qed

lemma deleteCallSitesByFile_spec:
  "deleteCallSitesByFile files d =
    (length (filter (\<lambda>s. site_file s \<in> Some ` set files) (call_sites_t d)),
     d\<lparr>call_sites_t := filter (\<lambda>s. site_file s \<notin> Some ` set files) (call_sites_t d)\<rparr>)"
  by (simp add: deleteCallSitesByFile_def delete_site_chunks_spec)

lemma exec_db_ok: "db_ok d \<Longrightarrow> db_ok (exec_db op d)"
proof (cases op)
  case (UpsertNodes ns)
  then show "db_ok d \<Longrightarrow> ?thesis"
    by (auto simp: upsertNodes_def intro!: fold_db_ok) (auto simp: db_ok_def mirror_upsertNode)
next
  case (ClearMergeState fs)
  then show "db_ok d \<Longrightarrow> ?thesis"
    by (auto simp: clearMergeState_def intro!: fold_db_ok) (auto simp: db_ok_def distinct_map_filter)
next
  case (RecordRejections rs)
  then show "db_ok d \<Longrightarrow> ?thesis"
    by (auto simp: recordMergeRejections_def intro!: fold_db_ok) (auto simp: db_ok_def intro: distinct_upsert_replace)
next
  case (UpsertEdges es)
  then show "db_ok d \<Longrightarrow> ?thesis"
    by (auto simp: upsertEdges_def intro!: fold_db_ok) (auto simp: db_ok_def upsertEdge_def intro: distinct_upsert)
next
  case (ReplaceEdges es)
  then show "db_ok d \<Longrightarrow> ?thesis"
    by (auto simp: replaceEdges_def intro!: fold_db_ok) (auto simp: db_ok_def replaceEdge_def intro: distinct_upsert)
next
  case (DeleteFile f)
  then show "db_ok d \<Longrightarrow> ?thesis" by (simp add: db_ok_def mirror_deleteNodesByFile distinct_map_filter)
next
  case (UpsertClaim r)
  then show "db_ok d \<Longrightarrow> ?thesis" by (auto simp: db_ok_def upsertClaimRow_def intro: distinct_upsert_replace)
qed (auto simp: db_ok_def deleteNode_def mirror_clearGraph insertCallSites_def clearCallSites_def
    deleteCallSitesByFile_spec setStat_def deleteClaimRow_def distinct_update distinct_map_filter)

subsection \<open>Edge weights\<close>

definition weight_at :: "db \<Rightarrow> string \<times> string \<times> string \<Rightarrow> int option" where
  "weight_at d k = map_option er_weight (List.find (\<lambda>e. edge_key e = k) (edges_t d))"

definition ge_key :: "graph_edge \<Rightarrow> string \<times> string \<times> string" where
  "ge_key e = (ge_src e, ge_dst e, ge_kind e)"

lemma edge_key_params [simp]: "edge_key (edge_params e) = ge_key e"
  by (simp add: edge_key_def edge_params_def ge_key_def)

lemma find_key_None: "List.find (\<lambda>x. f x = k) xs = None \<longleftrightarrow> k \<notin> f ` set xs"
  by (auto simp: find_None_iff image_iff)

lemma find_key_Some: "List.find (\<lambda>x. f x = k) xs = Some y \<Longrightarrow> f y = k \<and> y \<in> set xs"
  by (auto simp: find_Some_iff)

lemma find_upsert:
  assumes "\<And>x. key (merge x r) = key x"
  shows "List.find (\<lambda>x. key x = k) (upsert_row key merge r rows) =
    (if k = key r then Some (case List.find (\<lambda>x. key x = k) rows of Some x \<Rightarrow> merge x r | None \<Rightarrow> r)
     else List.find (\<lambda>x. key x = k) rows)"
proof -
  have "List.find (\<lambda>x. key x = k) (map (\<lambda>x. if key x = key r then merge x r else x) rows) =
    (if k = key r then map_option (\<lambda>x. merge x r) (List.find (\<lambda>x. key x = k) rows) else List.find (\<lambda>x. key x = k) rows)"
    using assms by (induction rows) auto
  moreover have "List.find (\<lambda>x. key x = k) (rows @ [r]) =
    (case List.find (\<lambda>x. key x = k) rows of Some x \<Rightarrow> Some x | None \<Rightarrow> if key r = k then Some r else None)"
    by (induction rows) auto
  ultimately show ?thesis
    using find_key_None [of key k rows] by (cases "key r = k") (auto simp: upsert_row_def split: option.splits)
qed

lemma weight_at_replaceEdge: "weight_at (replaceEdge e d) k = (if k = ge_key e then Some (ge_weight e) else weight_at d k)"
  by (simp add: weight_at_def replaceEdge_def find_upsert split: option.splits)
    (simp add: REPLACE_EDGE_STMT_def edge_params_def)

lemma weight_at_upsertEdge:
  "weight_at (upsertEdge e d) k =
    (if k = ge_key e then Some ((case weight_at d k of Some w \<Rightarrow> w | None \<Rightarrow> 0) + ge_weight e) else weight_at d k)"
  by (simp add: weight_at_def upsertEdge_def find_upsert split: option.splits)
    (simp add: UPSERT_EDGE_STMT_def edge_params_def)

lemma weight_at_replace_fold:
  "weight_at (fold replaceEdge es d) k =
    (case List.find (\<lambda>e. ge_key e = k) (rev es) of Some e \<Rightarrow> Some (ge_weight e) | None \<Rightarrow> weight_at d k)"
  by (induction es rule: rev_induct) (auto simp: weight_at_replaceEdge)

lemma weight_at_upsert_fold:
  "weight_at (fold upsertEdge es d) k =
    (if k \<in> ge_key ` set es
     then Some ((case weight_at d k of Some w \<Rightarrow> w | None \<Rightarrow> 0) + sum_list (map ge_weight (filter (\<lambda>e. ge_key e = k) es)))
     else weight_at d k)"
proof (induction es rule: rev_induct)
  case Nil
  then show ?case by simp
next
  case (snoc e es)
  have "filter (\<lambda>x. ge_key x = ge_key e) es = []" if "ge_key e \<notin> ge_key ` set es"
    using that by (auto simp: filter_empty_conv image_iff)
  with snoc show ?case
    by (cases "k = ge_key e"; cases "ge_key e \<in> ge_key ` set es") (auto simp: weight_at_upsertEdge split: option.splits)
qed

lemma distinct_key_eq: "distinct (map f xs) \<Longrightarrow> x \<in> set xs \<Longrightarrow> y \<in> set xs \<Longrightarrow> f x = f y \<Longrightarrow> x = y"
  by (auto simp: distinct_map dest: inj_onD)

lemma find_rev_distinct:
  assumes "distinct (map f xs)" "x \<in> set xs"
  shows "List.find (\<lambda>y. f y = f x) (rev xs) = Some x"
proof (cases "List.find (\<lambda>y. f y = f x) (rev xs)")
  case None
  with assms(2) show ?thesis by (simp add: find_key_None)
next
  case (Some y)
  with find_key_Some [OF Some] distinct_key_eq [OF assms(1)] assms(2) show ?thesis by auto
qed

lemma filter_key_distinct: "distinct (map f xs) \<Longrightarrow> x \<in> set xs \<Longrightarrow> filter (\<lambda>y. f y = f x) xs = [x]"
proof (induction xs)
  case Nil
  then show ?case by simp
next
  case (Cons y ys)
  have "filter (\<lambda>y. f y = f x) ys = []" if "x = y" using that Cons.prems(1) by (auto simp: filter_empty_conv image_iff)
  with Cons show ?case by auto
qed

subsection \<open>Properties\<close>

text \<open>C14: Whatever sequence of writes runs against a fresh index, with or without FTS5: primary keys
  of nodes, edges, merge rejections, claims and statistics stay unique, the triggers exist exactly
  when the build has FTS5, and the full-text table holds one row per node, with the content of
  that node, and no others, although bulk deletes run with the triggers dropped.\<close>

theorem index_invariant: "db_ok (fold exec_db ops (db_new fts))"
proof -
  have "db_ok (db_new fts)" by (simp add: db_ok_def mirror_def db_new_def)
  then show ?thesis by (intro fold_db_ok exec_db_ok)
qed

text \<open>\<open>deleteNodesByFile\<close> removes exactly what belongs to the file: afterwards a node is found
  iff it was found and lies in another file, an edge is kept iff its source node was not in the
  file, a call site iff it is not located in it; the full-text rows are those of the remaining
  nodes; and the number returned is the number of nodes removed.\<close>

theorem delete_file_exact:
  assumes "db_ok d" "deleteNodesByFile f d = (n, d')"
  shows "getNode i d' = (case getNode i d of Some r \<Rightarrow> if nr_file r = Some f then None else Some r | None \<Rightarrow> None)
    \<and> (e \<in> set (edges_t d') \<longleftrightarrow> e \<in> set (edges_t d) \<and> er_src e \<notin> set (nodeIdsForFile f d))
    \<and> (s \<in> set (call_sites_t d') \<longleftrightarrow> s \<in> set (call_sites_t d) \<and> site_file s \<noteq> Some f)
    \<and> (has_fts d \<longrightarrow> set (nodes_fts_t d') = fts_of ` {r \<in> set (nodes_t d). nr_file r \<noteq> Some f})
    \<and> length (nodes_t d) = length (nodes_t d') + n \<and> db_ok d'"
proof -
  have d': "d' = snd (deleteNodesByFile f d)" "n = length (nodeIdsForFile f d)"
    using assms(2) deleteNodesByFile_nodes(7) [of f d] by auto
  have ok: "db_ok d'" using exec_db_ok [OF assms(1), of "DeleteFile f"] by (simp add: d')
  have dist: "distinct (map nr_id (nodes_t d))" using assms(1) by (simp add: db_ok_def mirror_def)
  have find: "List.find (\<lambda>r. nr_id r = i) (filter (\<lambda>r. nr_file r \<noteq> Some f) rows) =
      (case List.find (\<lambda>r. nr_id r = i) rows of Some r \<Rightarrow> if nr_file r = Some f then None else Some r | None \<Rightarrow> None)"
    if "distinct (map nr_id rows)" for rows
    using that
  proof (induction rows)
    case Nil
    then show ?case by simp
  next
    case (Cons r rows)
    have "List.find (\<lambda>x. nr_id x = i) rows = None" if "nr_id r = i"
      using that Cons.prems by (auto simp: find_key_None)
    with Cons show ?case by auto
  qed
  have "has_fts d' = has_fts d" by (simp add: d' deleteNodesByFile_def Let_def withoutFtsTriggers_def)
  moreover have "mset (nodes_fts_t d') = (if has_fts d' then mset (map fts_of (nodes_t d')) else {#})"
    using ok by (simp add: db_ok_def mirror_def)
  ultimately have "has_fts d \<longrightarrow> set (nodes_fts_t d') = fts_of ` set (nodes_t d')"
    by (metis set_mset_mset set_map)
  moreover have "length (nodes_t d) = length (nodes_t d') + n"
    using sum_length_filter_compl [of "\<lambda>r. nr_file r = Some f" "nodes_t d"] by (simp add: d' nodeIdsForFile_def)
  ultimately show ?thesis
    using ok find [OF dist] unfolding d'(1) getNode_def by simp
qed

definition sample_node :: "string \<Rightarrow> string \<Rightarrow> graph_node" where
  "sample_node i f = \<lparr>gn_id = i, gn_name = i, gn_qualified_name = i, gn_kind = ''function'', gn_language = ''ts'', gn_file = f,
     gn_range = (1, 2), gn_ast_hash = [], gn_summary = None, gn_last_seen = 0, gn_logical_clock = 0, gn_last_modified_by = None\<rparr>"

definition sample_edge :: "string \<Rightarrow> string \<Rightarrow> graph_edge" where
  "sample_edge s t = \<lparr>ge_src = s, ge_dst = t, ge_kind = ''import'', ge_weight = 1, ge_last_seen = 0\<rparr>"

definition sample_db :: db where
  "sample_db = fold exec_db [UpsertNodes [sample_node ''a'' ''f'', sample_node ''b'' ''g''], UpsertEdges [sample_edge ''a'' ''b'']] (db_new True)"

lemma sample_db_ok: "db_ok sample_db"
  unfolding sample_db_def by (intro fold_db_ok exec_db_ok) (simp_all add: db_ok_def mirror_def db_new_def)

theorem delete_file_exact_witness:
  "getNode ''a'' (snd (deleteNodesByFile ''f'' sample_db)) = None"
  using delete_file_exact [OF sample_db_ok, of "''f''" "fst (deleteNodesByFile ''f'' sample_db)" "snd (deleteNodesByFile ''f'' sample_db)" "''a''"]
  by (simp add: getNode_def sample_db_def upsertNodes_def upsertNode_def sample_node_def node_params_def db_new_def
      upsertEdges_def upsertEdge_def)

text \<open>A re-ingest does not inflate edge weights: \<open>replaceEdges\<close> leaves each edge of the batch (one
  row per source, target and kind) with exactly the weight given, whatever the index held, does
  not touch other edges, and running it twice is running it once; whereas \<open>upsertEdges\<close> adds the
  weights of the batch to what was there.\<close>

theorem edge_weights:
  assumes "distinct (map ge_key es)" "e \<in> set es" "k \<notin> ge_key ` set es"
  shows "weight_at (snd (replaceEdges es d)) (ge_key e) = Some (ge_weight e)
    \<and> weight_at (snd (replaceEdges es d)) k = weight_at d k
    \<and> weight_at (snd (replaceEdges es (snd (replaceEdges es d)))) = weight_at (snd (replaceEdges es d))
    \<and> weight_at (snd (upsertEdges es d)) (ge_key e) = Some ((case weight_at d (ge_key e) of Some w \<Rightarrow> w | None \<Rightarrow> 0) + ge_weight e)
    \<and> weight_at (snd (upsertEdges es d)) k = weight_at d k"
proof -
  have "List.find (\<lambda>e. ge_key e = k) (rev es) = None" using assms(3) by (simp only: find_key_None set_rev) simp
  moreover have "weight_at (fold replaceEdge es (fold replaceEdge es d)) = weight_at (fold replaceEdge es d)"
    by (rule ext) (simp add: weight_at_replace_fold split: option.splits)
  moreover have "filter (\<lambda>x. ge_key x = ge_key e) es = [e]"
    by (rule filter_key_distinct [OF assms(1,2)])
  ultimately show ?thesis
    using assms find_rev_distinct [OF assms(1,2)]
    by (simp add: replaceEdges_def upsertEdges_def weight_at_replace_fold weight_at_upsert_fold)
qed

theorem edge_weights_witness:
  "weight_at (snd (replaceEdges [sample_edge ''a'' ''b''] sample_db)) (''a'', ''b'', ''import'') = Some 1"
  using edge_weights [of "[sample_edge ''a'' ''b'']" "sample_edge ''a'' ''b''" "([], [], [])" sample_db]
  by (simp add: sample_edge_def ge_key_def)

end
