(* ===== verification/IndexHealth.thy ===== *)
theory IndexHealth
  imports GraphDb Calendar
begin

text \<open>
  Is the index usable? \<open>src/daemon/src/db/index_health.ts\<close> and the ingest marker of
  \<open>src/daemon/src/db/queries.ts\<close>: an ingest declares itself under a token before it touches the
  graph and retracts the declaration when it has succeeded; a reader that finds a declaration, or
  an empty graph where content was recorded, must not trust the index. The two rows of \<open>stats\<close>
  concerned are kept as their parsed content. A token is minted by the caller (process id, time,
  random), and \<open>esrch p\<close> says that probing process \<open>p\<close> fails with \<open>ESRCH\<close>. Shown here: no
  interleaving of several processes ever un-flags an ingest that is still running, and a marker
  nobody can retract is cleared by the next full rebuild.
\<close>

subsection \<open>The marker\<close>

record in_flight =
  if_t :: string
  if_at :: int

text \<open>
  The trimmed text of the row: blank or \<open>[]\<close>; a JSON array; a number (what \<open>Number\<close> reads from
  it, fractions aside); anything else. A fractional start time in an array counts as malformed.
\<close>

datatype marker_text = Blank | JsonArray "json list" | Scalar int | Unparseable

definition LEGACY_TOKEN :: string where "LEGACY_TOKEN = ''legacy''"

definition MALFORMED_TOKEN :: string where "MALFORMED_TOKEN = ''malformed''"

definition isAdoptableToken :: "string \<Rightarrow> bool" where
  "isAdoptableToken t \<longleftrightarrow> t = LEGACY_TOKEN \<or> t = MALFORMED_TOKEN"

definition tokenPid :: "string \<Rightarrow> int option" where
  "tokenPid t =
     (let head = takeWhile (\<lambda>c. c \<noteq> CHR '':'') t
      in if head = [] \<or> \<not> list_all is_digit head then None
         else if 0 < dec_val head then Some (int (dec_val head)) else None)"

definition isDeadOwnerToken :: "(int \<Rightarrow> bool) \<Rightarrow> string \<Rightarrow> bool" where
  "isDeadOwnerToken esrch t = (case tokenPid t of None \<Rightarrow> False | Some p \<Rightarrow> esrch p)"

fun parse_entry :: "json \<Rightarrow> in_flight option" where
  "parse_entry (JObj kvs) =
     (case (map_of kvs ''t'', map_of kvs ''at'') of
        (Some (JStr t), Some (JInt a)) \<Rightarrow> Some \<lparr>if_t = t, if_at = a\<rparr>
      | _ \<Rightarrow> None)"
| "parse_entry _ = None"

definition malformed_entry :: in_flight where
  "malformed_entry = \<lparr>if_t = MALFORMED_TOKEN, if_at = 0\<rparr>"

definition parseInFlight :: "marker_text option \<Rightarrow> in_flight list" where
  "parseInFlight raw =
     (case raw of
        None \<Rightarrow> []
      | Some Blank \<Rightarrow> []
      | Some (JsonArray xs) \<Rightarrow>
          let entries = List.map_filter parse_entry xs
          in if entries \<noteq> [] then entries else [malformed_entry]
      | Some (Scalar n) \<Rightarrow> if 0 < n then [\<lparr>if_t = LEGACY_TOKEN, if_at = n\<rparr>] else [malformed_entry]
      | Some Unparseable \<Rightarrow> [malformed_entry])"

definition inProgressSince :: "in_flight list \<Rightarrow> int option" where
  "inProgressSince entries =
     (case entries of [] \<Rightarrow> None | e # _ \<Rightarrow> Some (fold (\<lambda>e m. if if_at e < m then if_at e else m) entries (if_at e)))"

subsection \<open>The index file and a handle on it\<close>

text \<open>
  \<open>watermark\<close> is the row \<open>last_ingest_nodes\<close>: the number read from it, or \<open>Some None\<close> for a
  text that is no finite number. The two flags tell whether the tables can be read at all.
\<close>

record index_file =
  tables :: db
  marker :: "marker_text option"
  watermark :: "int option option"
  nodes_readable :: bool
  stats_readable :: bool

definition entry_json :: "in_flight \<Rightarrow> json" where
  "entry_json e = JObj [(''t'', JStr (if_t e)), (''at'', JInt (if_at e))]"

definition readInFlight :: "index_file \<Rightarrow> in_flight list" where
  "readInFlight ix = parseInFlight (marker ix)"

definition writeInFlight :: "in_flight list \<Rightarrow> index_file \<Rightarrow> index_file" where
  "writeInFlight entries ix =
     (if entries = [] then ix\<lparr>marker := None\<rparr> else ix\<lparr>marker := Some (JsonArray (map entry_json entries))\<rparr>)"

text \<open>A handle is its \<open>ingestToken\<close>; \<open>minted\<close> is the token made if it has none.\<close>

definition own_token :: "string \<Rightarrow> string option \<Rightarrow> string" where
  "own_token minted ingestToken = (case ingestToken of Some t \<Rightarrow> t | None \<Rightarrow> minted)"

definition beginIngest ::
    "string \<Rightarrow> int \<Rightarrow> string option \<times> index_file \<Rightarrow> string \<times> string option \<times> index_file" where
  "beginIngest minted startedAtMs s =
     (case s of (ingestToken, ix) \<Rightarrow>
        let token = own_token minted ingestToken;
            existing = readInFlight ix;
            entries = filter (\<lambda>e. \<not> isAdoptableToken (if_t e) \<and> if_t e \<noteq> token) existing;
            legacyAt = map_option if_at (List.find (\<lambda>e. if_t e = LEGACY_TOKEN) existing);
            at = (case legacyAt of Some a \<Rightarrow> a | None \<Rightarrow> startedAtMs)
        in (token, Some token, writeInFlight (entries @ [\<lparr>if_t = token, if_at = at\<rparr>]) ix))"

definition clearGraph ::
    "(int \<Rightarrow> bool) \<Rightarrow> string \<Rightarrow> int \<Rightarrow> string option \<times> index_file \<Rightarrow> string option \<times> index_file" where
  "clearGraph esrch minted now s =
     (case s of (ingestToken, ix) \<Rightarrow>
        let ix1 = ix\<lparr>tables := clearGraph_tables (tables ix)\<rparr>;
            token = own_token minted ingestToken;
            entries = filter (\<lambda>e. \<not> isAdoptableToken (if_t e) \<and> if_t e \<noteq> token \<and> \<not> isDeadOwnerToken esrch (if_t e))
                        (readInFlight ix1)
        in (Some token, writeInFlight (entries @ [\<lparr>if_t = token, if_at = now\<rparr>]) ix1))"

definition endIngest :: "string option \<times> index_file \<Rightarrow> string option \<times> index_file" where
  "endIngest s =
     (case s of
        (None, ix) \<Rightarrow> (None, ix)
      | (Some token, ix) \<Rightarrow> (None, writeInFlight (filter (\<lambda>e. if_t e \<noteq> token) (readInFlight ix)) ix))"

definition ingestInProgressSince :: "index_file \<Rightarrow> int option" where
  "ingestInProgressSince ix = inProgressSince (readInFlight ix)"

definition hasDeclaredIngest :: "string option \<Rightarrow> bool" where
  "hasDeclaredIngest ingestToken \<longleftrightarrow> ingestToken \<noteq> None"

definition recordNodeWatermark :: "int \<Rightarrow> bool \<Rightarrow> index_file \<Rightarrow> index_file" where
  "recordNodeWatermark n authoritative ix =
     (if authoritative then ix\<lparr>watermark := Some (Some n)\<rparr>
      else let prior = (case watermark ix of None \<Rightarrow> Some 0 | Some w \<Rightarrow> w);
               floor = (case prior of Some p \<Rightarrow> if 0 < p then p else 0 | None \<Rightarrow> 0)
           in ix\<lparr>watermark := Some (Some (max floor n))\<rparr>)"

subsection \<open>The decision\<close>

datatype integrity_reason = IndexOk | IngestInterrupted | EmptyButClaimsContent | IndexUnreadable

record index_integrity =
  ii_ok :: bool
  ii_reason :: integrity_reason
  ii_detail :: string
  ii_nodes :: int
  ii_claimedNodes :: int
  ii_inProgressSince :: "int option"

definition em_dash :: string where "em_dash = [CHR 0xE2, CHR 0x80, CHR 0x94]"

text \<open>\<open>None\<close>: formatting a start time outside the range of \<open>Date\<close> throws.\<close>

definition describeInterrupted :: "int \<Rightarrow> string option" where
  "describeInterrupted since =
     (if since \<le> 0
      then Some (''an ingest left an in-progress marker this build cannot parse '' @ em_dash @ '' the graph may be half-written'')
      else map_option (\<lambda>d. ''an ingest started at '' @ d @ '' and never finished '' @ em_dash @ '' the graph is half-written'')
             (toISOString since))"

definition readIndexIntegrity :: "index_file \<Rightarrow> index_integrity option" where
  "readIndexIntegrity ix =
     (if \<not> nodes_readable ix \<or> \<not> stats_readable ix
      then Some \<lparr>ii_ok = False, ii_reason = IndexUnreadable,
             ii_detail = ''the index's `stats`/`nodes` tables could not be read'',
             ii_nodes = (if nodes_readable ix then int (length (nodes_t (tables ix))) else -1),
             ii_claimedNodes = -1, ii_inProgressSince = None\<rparr>
      else let nodes = int (length (nodes_t (tables ix)));
               claimed = (case watermark ix of Some (Some n) \<Rightarrow> if 0 \<le> n then n else -1 | _ \<Rightarrow> -1);
               since = inProgressSince (readInFlight ix)
           in if nodes = 0 \<and> 0 < claimed
              then Some \<lparr>ii_ok = False, ii_reason = EmptyButClaimsContent,
                     ii_detail = ''the graph holds 0 nodes but the last successful ingest recorded '' @ int_dec claimed
                       @ '' '' @ em_dash @ '' the index was wiped by an interrupted rebuild'',
                     ii_nodes = nodes, ii_claimedNodes = claimed, ii_inProgressSince = since\<rparr>
              else case since of
                Some t \<Rightarrow> map_option (\<lambda>detail. \<lparr>ii_ok = False, ii_reason = IngestInterrupted, ii_detail = detail,
                             ii_nodes = nodes, ii_claimedNodes = claimed, ii_inProgressSince = since\<rparr>)
                           (describeInterrupted t)
              | None \<Rightarrow> Some \<lparr>ii_ok = True, ii_reason = IndexOk, ii_detail = [], ii_nodes = nodes,
                             ii_claimedNodes = claimed, ii_inProgressSince = since\<rparr>)"

definition isSeedableIndex :: "index_integrity \<Rightarrow> bool" where
  "isSeedableIndex i =
     (if ii_nodes i = 0 then False else if ii_reason i = IndexUnreadable then True else ii_ok i)"

subsection \<open>Reading back what was written\<close>

lemma parse_entry_json [simp]: "parse_entry (entry_json e) = Some e"
  by (simp add: entry_json_def)

lemma map_filter_entry_json [simp]: "List.map_filter parse_entry (map entry_json es) = es"
  by (induction es) (simp_all add: map_filter_simps)

lemma readInFlight_write [simp, codec_simps]: "readInFlight (writeInFlight es ix) = es"
  by (simp add: readInFlight_def writeInFlight_def parseInFlight_def)

lemma writeInFlight_frame [simp]:
  "tables (writeInFlight es ix) = tables ix" "watermark (writeInFlight es ix) = watermark ix"
  "nodes_readable (writeInFlight es ix) = nodes_readable ix" "stats_readable (writeInFlight es ix) = stats_readable ix"
  by (simp_all add: writeInFlight_def)

lemma readInFlight_frame [simp]:
  "readInFlight (ix\<lparr>tables := d\<rparr>) = readInFlight ix" "readInFlight (recordNodeWatermark n a ix) = readInFlight ix"
  by (simp_all add: readInFlight_def recordNodeWatermark_def Let_def)

lemma inProgressSince_None [simp]: "inProgressSince es = None \<longleftrightarrow> es = []"
  by (simp add: inProgressSince_def split: list.split)

subsection \<open>Several processes on one index\<close>

text \<open>
  Handles \<open>h\<close> of processes \<open>pid h\<close> work on one index file. A handle may declare an ingest or clear
  the graph with a token that carries its process id and was never used before, end its ingest,
  write the tables and the watermark in any way; a process may die at any moment. What probing a
  process answers may be wrong only by calling a dead one alive.
\<close>

record fleet =
  index_of :: index_file
  token_of :: "nat \<Rightarrow> string option"
  dead :: "int set"
  minted :: "string set"

definition mintable :: "(nat \<Rightarrow> int) \<Rightarrow> nat \<Rightarrow> string \<Rightarrow> fleet \<Rightarrow> bool" where
  "mintable pid h t s \<longleftrightarrow> t \<notin> minted s \<and> tokenPid t = Some (pid h) \<and> pid h \<notin> dead s"

inductive ingest_step :: "(nat \<Rightarrow> int) \<Rightarrow> fleet \<Rightarrow> fleet \<Rightarrow> bool" for pid where
  begin_ingest: "mintable pid h t s \<Longrightarrow> beginIngest t at (token_of s h, index_of s) = (u, tok, ix) \<Longrightarrow>
    ingest_step pid s (s\<lparr>index_of := ix, token_of := (token_of s)(h := tok), minted := insert t (minted s)\<rparr>)"
| clear_graph: "mintable pid h t s \<Longrightarrow> (\<And>p. esrch p \<Longrightarrow> p \<in> dead s) \<Longrightarrow>
    clearGraph esrch t at (token_of s h, index_of s) = (tok, ix) \<Longrightarrow>
    ingest_step pid s (s\<lparr>index_of := ix, token_of := (token_of s)(h := tok), minted := insert t (minted s)\<rparr>)"
| end_ingest: "pid h \<notin> dead s \<Longrightarrow> endIngest (token_of s h, index_of s) = (tok, ix) \<Longrightarrow>
    ingest_step pid s (s\<lparr>index_of := ix, token_of := (token_of s)(h := tok)\<rparr>)"
| write_tables: "ingest_step pid s (s\<lparr>index_of := (index_of s)\<lparr>tables := d\<rparr>\<rparr>)"
| record_watermark: "ingest_step pid s (s\<lparr>index_of := recordNodeWatermark n auth (index_of s)\<rparr>)"
| die: "ingest_step pid s (s\<lparr>dead := insert p (dead s)\<rparr>)"

definition fleet_start :: "index_file \<Rightarrow> fleet" where
  "fleet_start ix = \<lparr>index_of = ix, token_of = (\<lambda>_. None), dead = {}, minted = if_t ` set (readInFlight ix)\<rparr>"

definition flagged :: "string \<Rightarrow> index_file \<Rightarrow> bool" where
  "flagged t ix \<longleftrightarrow> t \<in> if_t ` set (readInFlight ix)"

definition fleet_inv :: "(nat \<Rightarrow> int) \<Rightarrow> fleet \<Rightarrow> bool" where
  "fleet_inv pid s \<longleftrightarrow>
     (\<forall>h t. token_of s h = Some t \<longrightarrow> t \<in> minted s \<and> tokenPid t = Some (pid h) \<and> (pid h \<notin> dead s \<longrightarrow> flagged t (index_of s)))
     \<and> (\<forall>g h t. token_of s g = Some t \<longrightarrow> token_of s h = Some t \<longrightarrow> g = h)"

lemma tokenPid_not_adoptable: "tokenPid t = Some p \<Longrightarrow> \<not> isAdoptableToken t"
  by (auto simp: tokenPid_def isAdoptableToken_def LEGACY_TOKEN_def MALFORMED_TOKEN_def is_digit_def Let_def)

lemma flagged_begin:
  assumes "beginIngest t at (k, ix) = (u, tok, ix')"
  shows "tok = Some (own_token t k)" "flagged x ix' \<longleftrightarrow> x = own_token t k \<or> flagged x ix \<and> \<not> isAdoptableToken x"
  using assms by (auto simp: beginIngest_def Let_def flagged_def)

lemma flagged_clear:
  assumes "clearGraph esrch t at (k, ix) = (tok, ix')"
  shows "tok = Some (own_token t k)"
    "flagged x ix' \<longleftrightarrow> x = own_token t k \<or> flagged x ix \<and> \<not> isAdoptableToken x \<and> \<not> isDeadOwnerToken esrch x"
  using assms by (auto simp: clearGraph_def Let_def flagged_def)

lemma flagged_end:
  assumes "endIngest (k, ix) = (tok, ix')"
  shows "tok = None" "flagged x ix' \<longleftrightarrow> flagged x ix \<and> k \<noteq> Some x"
  using assms by (auto simp: endIngest_def Let_def flagged_def split: option.splits)

lemma flagged_frame [simp]:
  "flagged t (ix\<lparr>tables := d\<rparr>) = flagged t ix" "flagged t (recordNodeWatermark n a ix) = flagged t ix"
  by (simp_all add: flagged_def)

lemma fleet_inv_declare:
  assumes inv: "fleet_inv pid s" and t: "mintable pid h t s"
    and keep: "\<And>x p. flagged x (index_of s) \<Longrightarrow> tokenPid x = Some p \<Longrightarrow> p \<notin> dead s \<Longrightarrow> flagged x ix"
    and own: "flagged (own_token t (token_of s h)) ix"
  shows "fleet_inv pid (s\<lparr>index_of := ix, token_of := (token_of s)(h := Some (own_token t (token_of s h))), minted := insert t (minted s)\<rparr>)"
proof -
  let ?u = "own_token t (token_of s h)"
  have tp: "tokenPid t = Some (pid h)" "t \<notin> minted s" using t by (auto simp: mintable_def)
  have A: "x \<in> minted s \<and> tokenPid x = Some (pid g) \<and> (pid g \<notin> dead s \<longrightarrow> flagged x ix)" if "token_of s g = Some x" for g x
    using inv that keep unfolding fleet_inv_def by blast
  have u: "?u \<in> insert t (minted s)" "tokenPid ?u = Some (pid h)"
    using A [of h] tp by (auto simp: own_token_def split: option.splits)
  have inj: "g = h" if "token_of s g = Some ?u" for g
    using that A [of g] tp inv unfolding fleet_inv_def by (auto simp: own_token_def split: option.splits)
  show ?thesis
    using A u own inj inv unfolding fleet_inv_def by (auto split: if_splits)
qed

lemma ingest_step_inv:
  assumes "ingest_step pid s s'" "fleet_inv pid s"
  shows "fleet_inv pid s'"
  using assms
proof cases
  case (begin_ingest h t at u tok ix)
  note f = flagged_begin [OF begin_ingest(3)]
  show ?thesis
    unfolding begin_ingest(1) f(1)
    by (rule fleet_inv_declare [OF assms(2) begin_ingest(2)]) (auto simp: f(2) dest: tokenPid_not_adoptable)
next
  case (clear_graph h t esrch at tok ix)
  note f = flagged_clear [OF clear_graph(4)]
  show ?thesis
    unfolding clear_graph(1) f(1)
    by (rule fleet_inv_declare [OF assms(2) clear_graph(2)])
      (use clear_graph(3) in \<open>auto simp: f(2) isDeadOwnerToken_def dest: tokenPid_not_adoptable\<close>)
next
  case (end_ingest h tok ix)
  note f = flagged_end [OF end_ingest(3)]
  have "flagged x ix" if "token_of s g = Some x" "g \<noteq> h" "pid g \<notin> dead s" for g x
    using that assms(2) unfolding f(2) fleet_inv_def by metis
  then show ?thesis using assms(2) unfolding end_ingest(1) f(1) fleet_inv_def by auto
next
  case write_tables
  with assms(2) show ?thesis by (simp add: fleet_inv_def)
next
  case record_watermark
  with assms(2) show ?thesis by (simp add: fleet_inv_def)
next
  case die
  with assms(2) show ?thesis by (auto simp: fleet_inv_def)
qed

text \<open>It answers unless it has a start time to print that no date can express; then it throws.\<close>

lemma integrity_defined:
  assumes "\<And>t. inProgressSince (readInFlight ix) = Some t \<Longrightarrow> describeInterrupted t \<noteq> None"
  shows "\<exists>i. readIndexIntegrity ix = Some i"
  using assms by (simp add: readIndexIntegrity_def Let_def split: option.splits)

lemma integrity_throws:
  assumes "marker ix = Some (Scalar t)" "MAX_TIME_MS < t" "nodes_t (tables ix) \<noteq> []" "nodes_readable ix" "stats_readable ix"
  shows "readIndexIntegrity ix = None"
proof -
  have "0 < t" using assms(2) by (simp add: MAX_TIME_MS_def)
  then have "inProgressSince (readInFlight ix) = Some t"
    using assms(1) by (simp add: readInFlight_def parseInFlight_def inProgressSince_def)
  moreover have "describeInterrupted t = None"
    using assms(2) by (simp add: describeInterrupted_def toISOString_def MAX_TIME_MS_def)
  ultimately show ?thesis using assms(3-5) by (simp add: readIndexIntegrity_def Let_def)
qed

lemma flagged_not_ok: "flagged t ix \<Longrightarrow> readIndexIntegrity ix = Some i \<Longrightarrow> \<not> ii_ok i \<and> (nodes_readable ix \<and> stats_readable ix \<longrightarrow> \<not> isSeedableIndex i)"
  unfolding flagged_def
  by (auto simp: readIndexIntegrity_def isSeedableIndex_def Let_def split: if_splits option.splits)

lemma fleet_inv_reachable:
  assumes "(ingest_step pid)\<^sup>*\<^sup>* (fleet_start ix) s"
  shows "fleet_inv pid s"
  using assms
proof (induction rule: rtranclp_induct)
  case base
  show ?case by (simp add: fleet_inv_def fleet_start_def)
next
  case (step s s')
  then show ?case by (blast intro: ingest_step_inv)
qed

subsection \<open>Properties\<close>


definition fresh_index :: index_file where
  "fresh_index = \<lparr>tables = sample_db, marker = None, watermark = None, nodes_readable = True, stats_readable = True\<rparr>"

definition sample_fleet :: fleet where
  "sample_fleet = (fleet_start fresh_index)\<lparr>
     index_of := snd (snd (beginIngest ''7:a:b'' 5 (None, fresh_index))),
     token_of := (token_of (fleet_start fresh_index))(0 := Some ''7:a:b''),
     minted := insert ''7:a:b'' (minted (fleet_start fresh_index))\<rparr>"

lemma sample_fleet_step: "ingest_step (\<lambda>_. 7) (fleet_start fresh_index) sample_fleet"
proof -
  have "tokenPid ''7:a:b'' = Some 7" by (simp add: tokenPid_def is_digit_def dec_val_def Let_def)
  then have "mintable (\<lambda>_. 7) 0 ''7:a:b'' (fleet_start fresh_index)"
    by (simp add: mintable_def fleet_start_def fresh_index_def readInFlight_def parseInFlight_def)
  moreover have "beginIngest ''7:a:b'' 5 (token_of (fleet_start fresh_index) 0, index_of (fleet_start fresh_index))
      = (''7:a:b'', Some ''7:a:b'', snd (snd (beginIngest ''7:a:b'' 5 (None, fresh_index))))"
    by (simp add: fleet_start_def beginIngest_def own_token_def Let_def)
  ultimately show ?thesis unfolding sample_fleet_def by (rule begin_ingest)
qed

lemma sample_in_flight: "readInFlight (index_of sample_fleet) = [\<lparr>if_t = ''7:a:b'', if_at = 5\<rparr>]"
  by (simp add: sample_fleet_def beginIngest_def own_token_def Let_def fresh_index_def readInFlight_def [of fresh_index]
      parseInFlight_def)
    (simp add: readInFlight_def parseInFlight_def)


text \<open>C24: A marker never wedges the index: if every declaration found is one nobody can end - left by
  an older build, unreadable, of a dead process, or the handle's own - then a full rebuild
  (\<open>clearGraph\<close>, any repopulation, the authoritative watermark, \<open>endIngest\<close>) removes the marker,
  and the index reads usable, and seedable unless it has no nodes.\<close>

theorem stuck_marker_recovers:
  assumes "\<forall>e \<in> set (readInFlight ix). isAdoptableToken (if_t e) \<or> isDeadOwnerToken esrch (if_t e) \<or> k = Some (if_t e)"
    and "clearGraph esrch t now (k, ix) = (k1, ix1)"
    and "ix2 = recordNodeWatermark (int (length (nodes_t d))) True (ix1\<lparr>tables := d\<rparr>)"
    and "endIngest (k1, ix2) = (k2, ix3)" "nodes_readable ix" "stats_readable ix"
  shows "marker ix3 = None \<and> k2 = None
    \<and> (\<exists>i. readIndexIntegrity ix3 = Some i \<and> ii_ok i \<and> isSeedableIndex i = (nodes_t d \<noteq> []))"
proof -
  let ?u = "own_token t k"
  have "filter (\<lambda>e. \<not> isAdoptableToken (if_t e) \<and> if_t e \<noteq> ?u \<and> \<not> isDeadOwnerToken esrch (if_t e)) (readInFlight ix) = []"
    using assms(1) by (auto simp: filter_empty_conv own_token_def split: option.splits)
  then have 1: "k1 = Some ?u" "readInFlight ix1 = [\<lparr>if_t = ?u, if_at = now\<rparr>]"
    "nodes_readable ix1" "stats_readable ix1"
    using assms(2,5,6) by (auto simp: clearGraph_def Let_def)
  then have 3: "k2 = None" "ix3 = ix2\<lparr>marker := None\<rparr>"
    using assms(4) unfolding assms(3) by (auto simp: endIngest_def writeInFlight_def)
  then have "readInFlight ix3 = []" by (simp add: readInFlight_def parseInFlight_def)
  then have "readIndexIntegrity ix3 = Some \<lparr>ii_ok = True, ii_reason = IndexOk, ii_detail = [],
      ii_nodes = int (length (nodes_t d)), ii_claimedNodes = int (length (nodes_t d)), ii_inProgressSince = None\<rparr>"
    using 1(3,4) unfolding 3 assms(3) readIndexIntegrity_def
    by (simp add: recordNodeWatermark_def inProgressSince_def Let_def)
  then show ?thesis using 3 by (auto simp: isSeedableIndex_def)
qed

definition wedged_index :: index_file where
  "wedged_index = fresh_index\<lparr>marker := Some (JsonArray [entry_json \<lparr>if_t = ''7:a:b'', if_at = 5\<rparr>])\<rparr>"

theorem stuck_marker_recovers_witness:
  "marker (snd (endIngest (Some ''8:c:d'', recordNodeWatermark 0 True
     ((snd (clearGraph (\<lambda>p. p = 7) ''8:c:d'' 9 (None, wedged_index)))\<lparr>tables := db_new True\<rparr>)))) = None"
proof -
  have "readInFlight wedged_index = [\<lparr>if_t = ''7:a:b'', if_at = 5\<rparr>]"
    by (simp add: wedged_index_def readInFlight_def parseInFlight_def map_filter_simps)
  moreover have "isDeadOwnerToken (\<lambda>p. p = 7) ''7:a:b''"
    by (simp add: isDeadOwnerToken_def tokenPid_def is_digit_def dec_val_def Let_def)
  ultimately have A: "\<forall>e \<in> set (readInFlight wedged_index). isAdoptableToken (if_t e) \<or> isDeadOwnerToken (\<lambda>p. p = 7) (if_t e)
      \<or> None = Some (if_t e)" by simp
  have B: "clearGraph (\<lambda>p. p = 7) ''8:c:d'' 9 (None, wedged_index)
      = (Some ''8:c:d'', snd (clearGraph (\<lambda>p. p = 7) ''8:c:d'' 9 (None, wedged_index)))"
    by (simp add: clearGraph_def own_token_def Let_def)
  have C: "nodes_readable wedged_index" "stats_readable wedged_index" "length (nodes_t (db_new True)) = 0"
    by (simp_all add: wedged_index_def fresh_index_def db_new_def)
  show ?thesis
    using stuck_marker_recovers [OF A B refl prod.collapse [symmetric] C(1,2), of "db_new True"] C(3) by simp
qed

end
