(* ===== verification/Bfs.thy ===== *)
theory Bfs
  imports Prelude
begin

text \<open>
  Breadth-first search by levels, as the walks over the graph of the index do it: a map from the
  nodes reached to their depth, in insertion order, and the frontier. Shown here: after \<open>k\<close> levels
  the map holds exactly the nodes at distance at most \<open>k\<close>, each with its distance.
\<close>

subsection \<open>Distance\<close>

text \<open>\<open>at_distance R i x n\<close>: the shortest chain of \<open>R\<close> from \<open>x\<close> to \<open>i\<close> has \<open>n\<close> steps.\<close>

definition at_distance :: "('a \<times> 'a) set \<Rightarrow> 'a \<Rightarrow> 'a \<Rightarrow> nat \<Rightarrow> bool" where
  "at_distance R i x n \<longleftrightarrow> (x, i) \<in> R ^^ n \<and> (\<forall>m < n. (x, i) \<notin> R ^^ m)"

lemma at_distance_unique: "at_distance R i x m \<Longrightarrow> at_distance R i x n \<Longrightarrow> m = n"
  unfolding at_distance_def by (metis linorder_neqE_nat)

lemma at_distance_0 [simp]: "at_distance R i x 0 \<longleftrightarrow> x = i"
  by (simp add: at_distance_def)

lemma at_distance_ex: "(x, i) \<in> R ^^ n \<Longrightarrow> \<exists>m \<le> n. at_distance R i x m"
proof (induction n rule: less_induct)
  case (less n)
  show ?case
  proof (cases "\<exists>m < n. (x, i) \<in> R ^^ m")
    case True
    with less.IH show ?thesis by (meson le_trans less_imp_le)
  next
    case False
    with less.prems show ?thesis by (auto simp: at_distance_def)
  qed
qed

lemma at_distance_Suc:
  "at_distance R i x (Suc n) \<longleftrightarrow>
     (\<exists>y. (x, y) \<in> R \<and> at_distance R i y n) \<and> (\<forall>m \<le> n. \<not> at_distance R i x m)"
proof (intro iffI conjI)
  assume A: "at_distance R i x (Suc n)"
  then obtain y where y: "(x, y) \<in> R" "(y, i) \<in> R ^^ n"
    using relpow_Suc_D2 [of x i n R] unfolding at_distance_def by blast
  obtain m where m: "m \<le> n" "at_distance R i y m" using at_distance_ex [OF y(2)] by blast
  then have "(x, i) \<in> R ^^ Suc m" using y(1) unfolding at_distance_def by (meson relpow_Suc_I2)
  then have "m = n" using A m(1) unfolding at_distance_def by (metis Suc_less_eq le_neq_implies_less)
  then show "\<exists>y. (x, y) \<in> R \<and> at_distance R i y n" using y(1) m(2) by blast
  show "\<forall>m \<le> n. \<not> at_distance R i x m" using A by (auto simp: at_distance_def)
next
  assume A: "(\<exists>y. (x, y) \<in> R \<and> at_distance R i y n) \<and> (\<forall>m \<le> n. \<not> at_distance R i x m)"
  then have "(x, i) \<in> R ^^ Suc n" unfolding at_distance_def by (meson relpow_Suc_I2)
  moreover have "(x, i) \<notin> R ^^ m" if "m < Suc n" for m
    using A at_distance_ex [of x i m R] that by (meson le_trans less_Suc_eq_le)
  ultimately show "at_distance R i x (Suc n)" by (simp add: at_distance_def)
qed

lemma at_distance_before: "at_distance R i x n \<Longrightarrow> k \<le> n \<Longrightarrow> \<exists>y. at_distance R i y k"
proof (induction n arbitrary: x)
  case 0
  then show ?case by auto
next
  case (Suc n)
  show ?case
  proof (cases "k = Suc n")
    case True
    with Suc.prems show ?thesis by blast
  next
    case False
    with Suc show ?thesis by (auto simp: at_distance_Suc)
  qed
qed

lemma distance_reach: "y \<noteq> i \<Longrightarrow> (\<exists>k. at_distance R i y k) \<longleftrightarrow> (y, i) \<in> R\<^sup>+"
proof
  assume "y \<noteq> i" "\<exists>k. at_distance R i y k"
  then show "(y, i) \<in> R\<^sup>+"
    unfolding at_distance_def by (meson relpow_imp_rtrancl rtranclD)
next
  assume "(y, i) \<in> R\<^sup>+"
  then obtain n where "(y, i) \<in> R ^^ n" by (meson rtrancl_imp_relpow trancl_into_rtrancl)
  then show "\<exists>k. at_distance R i y k" using at_distance_ex [of y i n R] by blast
qed

subsection \<open>The search\<close>

fun enqueue :: "nat \<Rightarrow> 'a \<Rightarrow> ('a \<times> nat) list \<times> 'a list \<Rightarrow> ('a \<times> nat) list \<times> 'a list" where
  "enqueue d x (m, nx) = (if x \<in> fst ` set m then (m, nx) else (m @ [(x, d)], nx @ [x]))"

definition level :: "('a \<Rightarrow> 'a list) \<Rightarrow> nat \<Rightarrow> 'a list \<Rightarrow> ('a \<times> nat) list \<Rightarrow> ('a \<times> nat) list \<times> 'a list" where
  "level nb d frontier m = fold (enqueue d) (concat (map nb frontier)) (m, [])"

text \<open>\<open>n\<close> levels remain, the first of them \<open>d\<close>.\<close>

fun level_loop :: "('a \<Rightarrow> 'a list) \<Rightarrow> nat \<Rightarrow> nat \<Rightarrow> 'a list \<Rightarrow> ('a \<times> nat) list \<Rightarrow> ('a \<times> nat) list \<times> 'a list" where
  "level_loop nb 0 d frontier m = (m, frontier)"
| "level_loop nb (Suc n) d frontier m =
     (let (m', next) = level nb d frontier m
      in if next = [] then (m', next) else level_loop nb n (Suc d) next m')"

lemma map_of_snoc: "k \<notin> fst ` set m \<Longrightarrow> map_of (m @ [(k, v)]) = (map_of m)(k \<mapsto> v)"
  by (auto simp: map_add_def fun_eq_iff dest: weak_map_of_SomeI [rotated] map_of_SomeD intro: rev_image_eqI split: option.splits)

lemma fold_enqueue_spec:
  assumes "fold (enqueue d) xs (m, nx) = (m', nx')"
  shows "map_of m' = (\<lambda>x. case map_of m x of Some k \<Rightarrow> Some k | None \<Rightarrow> if x \<in> set xs then Some d else None)
    \<and> set nx' = set nx \<union> {x. map_of m x = None \<and> x \<in> set xs}
    \<and> (distinct (map fst m) \<longrightarrow> distinct (map fst m'))"
  using assms
proof (induction xs arbitrary: m nx)
  case Nil
  then show ?case by (auto simp: fun_eq_iff split: option.splits)
next
  case (Cons y ys)
  show ?case
  proof (cases "y \<in> fst ` set m")
    case True
    then have "map_of m y \<noteq> None" by (simp add: map_of_eq_None_iff)
    with True Cons.prems Cons.IH [of m nx] show ?thesis by (auto simp: fun_eq_iff split: option.splits)
  next
    case False
    then have "map_of m y = None" by (simp add: map_of_eq_None_iff)
    with False Cons.prems Cons.IH [of "m @ [(y, d)]" "nx @ [y]"] map_of_snoc [OF False, of d]
    show ?thesis by (auto simp: fun_eq_iff split: option.splits)
  qed
qed

text \<open>The state of the search before level \<open>Suc k\<close>: all nodes up to distance \<open>k\<close>, the frontier at \<open>k\<close>.\<close>

definition walk_inv :: "('a \<times> 'a) set \<Rightarrow> 'a \<Rightarrow> nat \<Rightarrow> 'a list \<Rightarrow> ('a \<times> nat) list \<Rightarrow> bool" where
  "walk_inv R i k frontier m \<longleftrightarrow> distinct (map fst m)
     \<and> (\<forall>x n. map_of m x = Some n \<longleftrightarrow> at_distance R i x n \<and> n \<le> k)
     \<and> (\<forall>x. x \<in> set frontier \<longleftrightarrow> at_distance R i x k)"

locale level_walk =
  fixes R :: "('a \<times> 'a) set" and nb :: "'a \<Rightarrow> 'a list"
  assumes nb: "x \<in> set (nb y) \<longleftrightarrow> (x, y) \<in> R"
begin

lemma level_spec:
  assumes "level nb d frontier m = (m', nx)"
  shows "map_of m' = (\<lambda>x. case map_of m x of Some k \<Rightarrow> Some k
      | None \<Rightarrow> if \<exists>y \<in> set frontier. (x, y) \<in> R then Some d else None)
    \<and> set nx = {x. map_of m x = None \<and> (\<exists>y \<in> set frontier. (x, y) \<in> R)}
    \<and> (distinct (map fst m) \<longrightarrow> distinct (map fst m'))"
proof -
  have "x \<in> set (concat (map nb frontier)) \<longleftrightarrow> (\<exists>y \<in> set frontier. (x, y) \<in> R)" for x by (auto simp: nb)
  then show ?thesis using fold_enqueue_spec [OF assms [unfolded level_def]]
    by (auto simp: fun_eq_iff split: option.splits)
qed

lemma walk_inv_start: "walk_inv R i 0 [i] [(i, 0)]"
  using at_distance_unique [of R i i 0] by (auto simp: walk_inv_def intro!: gr0I)

lemma walk_inv_next:
  assumes "walk_inv R i k frontier m"
  shows "map_of m x = None \<and> (\<exists>y \<in> set frontier. (x, y) \<in> R) \<longleftrightarrow> at_distance R i x (Suc k)"
proof -
  have "map_of m x = None \<longleftrightarrow> (\<forall>n \<le> k. \<not> at_distance R i x n)"
    using assms unfolding walk_inv_def by (metis not_None_eq)
  then show ?thesis using assms unfolding at_distance_Suc walk_inv_def by blast
qed

lemma walk_inv_step:
  assumes "walk_inv R i k frontier m" "level nb (Suc k) frontier m = (m', nx)"
  shows "walk_inv R i (Suc k) nx m'"
proof -
  note S = level_spec [OF assms(2)]
  note N = walk_inv_next [OF assms(1)]
  have "map_of m' x = Some n \<longleftrightarrow> at_distance R i x n \<and> n \<le> Suc k" for x n
  proof (cases "map_of m x")
    case None
    then have "\<not> at_distance R i x n" if "n \<le> k" using assms(1) that unfolding walk_inv_def by auto
    with None S N [of x] at_distance_unique [of R i x "Suc k" n] show ?thesis
      by (auto simp: le_Suc_eq)
  next
    case (Some j)
    then have "at_distance R i x j" "j \<le> k" using assms(1) unfolding walk_inv_def by auto
    with Some S at_distance_unique [of R i x j n] show ?thesis by auto
  qed
  moreover have "x \<in> set nx \<longleftrightarrow> at_distance R i x (Suc k)" for x using S N [of x] by auto
  ultimately show ?thesis using S assms(1) unfolding walk_inv_def by blast
qed

text \<open>The loop ends at the cap, or earlier when a level is empty; then nothing lies further out.\<close>

lemma level_loop_inv:
  assumes "walk_inv R i k frontier m" "level_loop nb n (Suc k) frontier m = (m', frontier')"
  shows "distinct (map fst m') \<and> (\<forall>x j. map_of m' x = Some j \<longleftrightarrow> at_distance R i x j \<and> j \<le> k + n)
    \<and> (\<exists>l \<le> k + n. walk_inv R i l frontier' m' \<and> (l < k + n \<longrightarrow> frontier' = []))"
  using assms
proof (induction n arbitrary: k frontier m)
  case 0
  then show ?case by (auto simp: walk_inv_def)
next
  case (Suc n)
  obtain m1 nx where e: "level nb (Suc k) frontier m = (m1, nx)" by fastforce
  have w: "walk_inv R i (Suc k) nx m1" by (rule walk_inv_step [OF Suc.prems(1) e])
  show ?case
  proof (cases "nx = []")
    case False
    with Suc.prems(2) e have "level_loop nb n (Suc (Suc k)) nx m1 = (m', frontier')" by simp
    with Suc.IH [OF w this] show ?thesis by simp
  next
    case True
    then have r: "m' = m1" "frontier' = []" using Suc.prems(2) e by simp_all
    have "\<not> at_distance R i x (Suc k)" for x using w True by (simp add: walk_inv_def)
    then have "j \<le> Suc k" if "at_distance R i x j" for x j
      using at_distance_before [OF that, of "Suc k"] by (meson nle_le)
    then have "at_distance R i x j \<and> j \<le> Suc k \<longleftrightarrow> at_distance R i x j \<and> j \<le> k + Suc n" for x j
      by fastforce
    moreover have "\<exists>l \<le> k + Suc n. walk_inv R i l [] m1 \<and> (l < k + Suc n \<longrightarrow> [] = ([] :: string list))"
      using w True by (intro exI [of _ "Suc k"]) simp
    ultimately show ?thesis using w unfolding r walk_inv_def by simp
  qed
qed

end

end
