(* ===== verification/GraphWalk.thy ===== *)
theory GraphWalk
  imports GraphDb Bfs
begin

text \<open>
  Edge traversal, \<open>src/daemon/src/db/graph_walk.ts\<close>: importers, callers and references of a
  symbol, and its transitive blast radius. \<open>lc\<close> is \<open>String.prototype.localeCompare\<close> and
  \<open>fts_top\<close> the best full-text hit for a text; nothing but the order of results and the
  resolution of unknown ids depends on them. Depths are integers. Shown here: references are
  exactly the incoming call and import edges, and the walk reports exactly the nodes within the
  depth cap, each with its shortest distance, and knows whether it left any out.
\<close>

definition resolveNodeId :: "(string \<Rightarrow> string option) \<Rightarrow> db \<Rightarrow> string \<Rightarrow> (string \<times> bool) option" where
  "resolveNodeId fts_top d i =
     (if getNode i d \<noteq> None then Some (i, False) else map_option (\<lambda>h. (h, True)) (fts_top i))"

definition endsWith :: "string \<Rightarrow> string \<Rightarrow> bool" where
  "endsWith s t \<longleftrightarrow> length t \<le> length s \<and> drop (length s - length t) s = t"

definition isCallKind :: "string \<Rightarrow> bool" where
  "isCallKind k \<longleftrightarrow> k = ''call'' \<or> endsWith k ''_call''"

definition IMPORT_KIND :: string where "IMPORT_KIND = ''import''"

definition importersOf :: "(string \<Rightarrow> string \<Rightarrow> int) \<Rightarrow> db \<Rightarrow> string \<Rightarrow> edge_row list" where
  "importersOf lc d i = js_sort (\<lambda>a b. lc (er_src a) (er_src b)) (filter (\<lambda>e. er_kind e = IMPORT_KIND) (incoming i d))"

definition callersOf :: "(string \<Rightarrow> string \<Rightarrow> int) \<Rightarrow> db \<Rightarrow> string \<Rightarrow> edge_row list" where
  "callersOf lc d i = js_sort (\<lambda>a b. lc (er_src a) (er_src b)) (filter (\<lambda>e. isCallKind (er_kind e)) (incoming i d))"

datatype ref_via = ViaCall | ViaImport

record ref_row =
  rr_id :: string
  rr_via :: ref_via
  rr_kind :: string
  rr_weight :: int

definition ref_of :: "edge_row \<Rightarrow> ref_row option" where
  "ref_of e =
     (if er_kind e = IMPORT_KIND
      then Some \<lparr>rr_id = er_src e, rr_via = ViaImport, rr_kind = er_kind e, rr_weight = er_weight e\<rparr>
      else if isCallKind (er_kind e)
      then Some \<lparr>rr_id = er_src e, rr_via = ViaCall, rr_kind = er_kind e, rr_weight = er_weight e\<rparr>
      else None)"

definition ref_cmp :: "(string \<Rightarrow> string \<Rightarrow> int) \<Rightarrow> ref_row \<Rightarrow> ref_row \<Rightarrow> int" where
  "ref_cmp lc a b = (if lc (rr_id a) (rr_id b) \<noteq> 0 then lc (rr_id a) (rr_id b) else lc (rr_kind a) (rr_kind b))"

definition refsOf :: "(string \<Rightarrow> string \<Rightarrow> int) \<Rightarrow> db \<Rightarrow> string \<Rightarrow> ref_row list" where
  "refsOf lc d i = js_sort (ref_cmp lc) (List.map_filter ref_of (incoming i d))"

record refs_summary =
  rs_refs :: "ref_row list"
  rs_callerCount :: nat
  rs_importerCount :: nat
  rs_callSites :: int
  rs_importSites :: int

definition count_ref :: "ref_row \<Rightarrow> refs_summary \<Rightarrow> refs_summary" where
  "count_ref r s =
     (if rr_via r = ViaCall
      then s\<lparr>rs_callerCount := rs_callerCount s + 1, rs_callSites := rs_callSites s + rr_weight r\<rparr>
      else s\<lparr>rs_importerCount := rs_importerCount s + 1, rs_importSites := rs_importSites s + rr_weight r\<rparr>)"

definition refsSummary :: "(string \<Rightarrow> string \<Rightarrow> int) \<Rightarrow> db \<Rightarrow> string \<Rightarrow> refs_summary" where
  "refsSummary lc d i =
     (let refs = refsOf lc d i
      in fold count_ref refs \<lparr>rs_refs = refs, rs_callerCount = 0, rs_importerCount = 0, rs_callSites = 0, rs_importSites = 0\<rparr>)"

record call_site_hit =
  sh_file :: string
  sh_line :: int
  sh_col :: int
  sh_caller :: string
  sh_kind :: string

definition sitesOf :: "db \<Rightarrow> string \<Rightarrow> call_site_hit list" where
  "sitesOf d i = map (\<lambda>r. \<lparr>sh_file = (case site_file r of None \<Rightarrow> [] | Some f \<Rightarrow> f),
     sh_line = (case site_line r of None \<Rightarrow> 0 | Some l \<Rightarrow> l), sh_col = (case site_col r of None \<Rightarrow> 0 | Some c \<Rightarrow> c),
     sh_caller = site_src r, sh_kind = site_kind r\<rparr>) (callSitesOf i d)"

subsection \<open>The blast radius\<close>

record impact_hit =
  ih_id :: string
  ih_depth :: nat

record impact_result =
  ir_root :: string
  ir_depth :: nat
  ir_hits :: "impact_hit list"
  ir_capped :: bool

definition MAX_IMPACT_DEPTH :: nat where "MAX_IMPACT_DEPTH = 64"

definition dependency :: "edge_row \<Rightarrow> bool" where
  "dependency e \<longleftrightarrow> er_kind e = IMPORT_KIND \<or> isCallKind (er_kind e)"

text \<open>The loop over the incoming edges of one node; \<open>depthOf\<close> is in insertion order.\<close>

fun visit_edges :: "nat \<Rightarrow> edge_row list \<Rightarrow> (string \<times> nat) list \<times> string list \<Rightarrow> (string \<times> nat) list \<times> string list" where
  "visit_edges d [] s = s"
| "visit_edges d (e # es) (depthOf, next) =
     (if \<not> dependency e then visit_edges d es (depthOf, next)
      else if er_src e \<in> fst ` set depthOf then visit_edges d es (depthOf, next)
      else visit_edges d es (depthOf @ [(er_src e, d)], next @ [er_src e]))"

definition expand_level :: "db \<Rightarrow> nat \<Rightarrow> string list \<Rightarrow> (string \<times> nat) list \<Rightarrow> (string \<times> nat) list \<times> string list" where
  "expand_level g d frontier depthOf = fold (\<lambda>cur. visit_edges d (incoming cur g)) frontier (depthOf, [])"

text \<open>\<open>n\<close> levels remain, the first of them \<open>d\<close>.\<close>

fun impact_loop :: "db \<Rightarrow> nat \<Rightarrow> nat \<Rightarrow> string list \<Rightarrow> (string \<times> nat) list \<Rightarrow> (string \<times> nat) list \<times> string list" where
  "impact_loop g 0 d frontier depthOf = (depthOf, frontier)"
| "impact_loop g (Suc n) d frontier depthOf =
     (let (depthOf', next) = expand_level g d frontier depthOf
      in if next = [] then (depthOf', next) else impact_loop g n (Suc d) next depthOf')"

definition hit_cmp :: "(string \<Rightarrow> string \<Rightarrow> int) \<Rightarrow> impact_hit \<Rightarrow> impact_hit \<Rightarrow> int" where
  "hit_cmp lc a b =
     (if ih_depth a \<noteq> ih_depth b then int (ih_depth a) - int (ih_depth b) else lc (ih_id a) (ih_id b))"

definition impactOf :: "(string \<Rightarrow> string \<Rightarrow> int) \<Rightarrow> db \<Rightarrow> string \<Rightarrow> int \<Rightarrow> impact_result" where
  "impactOf lc g i maxDepth =
     (let cap = min MAX_IMPACT_DEPTH (nat (max 1 maxDepth));
          (depthOf, frontier) = impact_loop g cap 1 [i] [(i, 0)];
          capped = list_ex (\<lambda>cur. list_ex (\<lambda>e. dependency e \<and> er_src e \<notin> fst ` set depthOf) (incoming cur g)) frontier;
          hits = map (\<lambda>(n, d). \<lparr>ih_id = n, ih_depth = d\<rparr>) (filter (\<lambda>(n, d). n \<noteq> i) depthOf)
      in \<lparr>ir_root = i, ir_depth = cap, ir_hits = js_sort (hit_cmp lc) hits, ir_capped = capped\<rparr>)"

subsection \<open>Distance\<close>

text \<open>\<open>x\<close> depends on \<open>y\<close> by an edge.\<close>

definition depends :: "db \<Rightarrow> (string \<times> string) set" where
  "depends g = {(er_src e, er_dst e) | e. e \<in> set (edges_t g) \<and> dependency e}"

definition dependents :: "db \<Rightarrow> string \<Rightarrow> string list" where
  "dependents g y = map er_src (filter dependency (incoming y g))"

lemma incoming_depends: "(x, y) \<in> depends g \<longleftrightarrow> (\<exists>e \<in> set (incoming y g). dependency e \<and> er_src e = x)"
  by (auto simp: depends_def incoming_def)

interpretation blast: level_walk "depends g" "dependents g" for g
  by unfold_locales (auto simp: dependents_def incoming_depends)

text \<open>The walk is a search by levels.\<close>

lemma visit_edges_enqueue: "visit_edges d es s = fold (enqueue d) (map er_src (filter dependency es)) s"
  by (induction d es s rule: visit_edges.induct) auto

lemma expand_level_eq: "expand_level g d frontier m = level (dependents g) d frontier m"
proof -
  have "fold (\<lambda>cur. visit_edges d (incoming cur g)) frontier s
      = fold (enqueue d) (concat (map (dependents g) frontier)) s" for s
    by (induction frontier arbitrary: s) (simp_all add: visit_edges_enqueue dependents_def)
  then show ?thesis by (simp add: expand_level_def level_def)
qed

lemma impact_loop_eq: "impact_loop g n d frontier m = level_loop (dependents g) n d frontier m"
  by (induction n arbitrary: d frontier m) (simp_all add: expand_level_eq split: prod.splits)

lemma hit_cmp_comparator:
  assumes "comparator lc (\<lambda>_. True)"
  shows "comparator (hit_cmp lc) (\<lambda>_. True)"
proof
  show "sgn (hit_cmp lc y x) = - sgn (hit_cmp lc x y)" for x y
  proof (cases "ih_depth x = ih_depth y")
    case True
    then show ?thesis using comparator.flip [OF assms, of "ih_id x" "ih_id y"] by (simp add: hit_cmp_def)
  next
    case False
    then show ?thesis by (simp add: hit_cmp_def sgn_if)
  qed
  show "hit_cmp lc x z \<le> 0" if "hit_cmp lc x y \<le> 0" "hit_cmp lc y z \<le> 0" for x y z
  proof -
    have d: "ih_depth x \<le> ih_depth y" "ih_depth y \<le> ih_depth z"
      using that by (auto simp: hit_cmp_def split: if_splits)
    show ?thesis
    proof (cases "ih_depth x = ih_depth z")
      case True
      then show ?thesis
        using that d comparator.trans [OF assms, of "ih_id x" "ih_id y" "ih_id z"] by (simp add: hit_cmp_def)
    next
      case False
      with d show ?thesis by (simp add: hit_cmp_def)
    qed
  qed
qed

lemma impactOf_walk:
  assumes "impactOf lc g i maxDepth = r"
  shows "\<exists>m fr l. distinct (map fst m) \<and> (\<forall>x j. map_of m x = Some j \<longleftrightarrow> at_distance (depends g) i x j \<and> j \<le> ir_depth r)
    \<and> walk_inv (depends g) i l fr m \<and> l \<le> ir_depth r \<and> (l < ir_depth r \<longrightarrow> fr = [])
    \<and> ir_hits r = js_sort (hit_cmp lc) (map (\<lambda>(n, d). \<lparr>ih_id = n, ih_depth = d\<rparr>) (filter (\<lambda>(n, d). n \<noteq> i) m))
    \<and> (ir_capped r \<longleftrightarrow> (\<exists>x. map_of m x = None \<and> (\<exists>y \<in> set fr. (x, y) \<in> depends g)))"
proof -
  let ?cap = "min MAX_IMPACT_DEPTH (nat (max 1 maxDepth))"
  obtain m fr where l: "impact_loop g ?cap (Suc 0) [i] [(i, 0)] = (m, fr)" by fastforce
  have "ir_depth r = ?cap" using assms l by (simp add: impactOf_def Let_def flip: assms)
  moreover have "ir_hits r = js_sort (hit_cmp lc) (map (\<lambda>(n, d). \<lparr>ih_id = n, ih_depth = d\<rparr>) (filter (\<lambda>(n, d). n \<noteq> i) m))"
    using l by (simp add: impactOf_def Let_def flip: assms)
  moreover have "ir_capped r \<longleftrightarrow> (\<exists>x. map_of m x = None \<and> (\<exists>y \<in> set fr. (x, y) \<in> depends g))"
    using l by (auto simp: impactOf_def Let_def list_ex_iff incoming_depends map_of_eq_None_iff simp flip: assms)
  ultimately show ?thesis
    using blast.level_loop_inv [OF blast.walk_inv_start l [unfolded impact_loop_eq]] by (intro exI [of _ m] exI [of _ fr]) auto
qed

lemma hit_ids: "y \<in> ih_id ` S \<longleftrightarrow> (\<exists>k. \<lparr>ih_id = y, ih_depth = k\<rparr> \<in> S)"
proof
  assume "y \<in> ih_id ` S"
  then obtain h where "h \<in> S" "y = ih_id h" by blast
  moreover have "h = \<lparr>ih_id = ih_id h, ih_depth = ih_depth h\<rparr>" by simp
  ultimately show "\<exists>k. \<lparr>ih_id = y, ih_depth = k\<rparr> \<in> S" by metis
qed force

lemma impact_hits:
  assumes "impactOf lc g i maxDepth = r"
  shows "\<lparr>ih_id = x, ih_depth = k\<rparr> \<in> set (ir_hits r) \<longleftrightarrow> x \<noteq> i \<and> at_distance (depends g) i x k \<and> k \<le> ir_depth r"
    and "distinct (map ih_id (ir_hits r))"
    and "comparator lc (\<lambda>_. True) \<Longrightarrow> sorted (map ih_depth (ir_hits r))"
proof -
  obtain m where m: "distinct (map fst m)" "\<And>x j. map_of m x = Some j \<longleftrightarrow> at_distance (depends g) i x j \<and> j \<le> ir_depth r"
    and h: "ir_hits r = js_sort (hit_cmp lc) (map (\<lambda>(n, d). \<lparr>ih_id = n, ih_depth = d\<rparr>) (filter (\<lambda>(n, d). n \<noteq> i) m))"
    using impactOf_walk [OF assms] by blast
  have "\<lparr>ih_id = x, ih_depth = k\<rparr> \<in> set (ir_hits r) \<longleftrightarrow> x \<noteq> i \<and> map_of m x = Some k" for x k
    unfolding h using m(1) by (force simp: map_of_eq_Some_iff)
  then show "\<lparr>ih_id = x, ih_depth = k\<rparr> \<in> set (ir_hits r) \<longleftrightarrow> x \<noteq> i \<and> at_distance (depends g) i x k \<and> k \<le> ir_depth r"
    using m(2) by simp
  have "mset (map ih_id (ir_hits r)) = mset (map fst (filter (\<lambda>(n, d). n \<noteq> i) m))"
    unfolding h mset_map mset_js_sort by (simp add: image_mset.compositionality comp_def case_prod_unfold)
  then show "distinct (map ih_id (ir_hits r))"
    using mset_eq_imp_distinct_iff distinct_map_filter [OF m(1)] by blast
  assume "comparator lc (\<lambda>_. True)"
  then have "sorted_wrt (\<lambda>a b. hit_cmp lc a b \<le> 0) (ir_hits r)"
    unfolding h by (intro comparator.sorted_js_sort [OF hit_cmp_comparator]) simp_all
  then show "sorted (map ih_depth (ir_hits r))"
    unfolding sorted_map by (rule sorted_wrt_mono_rel [rotated]) (auto simp: hit_cmp_def split: if_splits)
qed

lemma impact_capped:
  assumes "impactOf lc g i maxDepth = r"
  shows "ir_capped r \<longleftrightarrow> (\<exists>y n. at_distance (depends g) i y n \<and> ir_depth r < n)"
proof -
  obtain m fr l where w: "walk_inv (depends g) i l fr m" "l \<le> ir_depth r" "l < ir_depth r \<longrightarrow> fr = []"
    and c: "ir_capped r \<longleftrightarrow> (\<exists>x. map_of m x = None \<and> (\<exists>y \<in> set fr. (x, y) \<in> depends g))"
    using impactOf_walk [OF assms] by blast
  have more: "(\<exists>x. map_of m x = None \<and> (\<exists>y \<in> set fr. (x, y) \<in> depends g)) \<longleftrightarrow> (\<exists>x. at_distance (depends g) i x (Suc l))"
    using blast.walk_inv_next [OF w(1)] by blast
  show ?thesis
  proof
    assume "ir_capped r"
    then obtain x where "at_distance (depends g) i x (Suc l)" "fr \<noteq> []" using c more by fastforce
    then show "\<exists>y n. at_distance (depends g) i y n \<and> ir_depth r < n" using w(2,3) by (auto intro!: exI [of _ "Suc l"])
  next
    assume "\<exists>y n. at_distance (depends g) i y n \<and> ir_depth r < n"
    then obtain y n where "at_distance (depends g) i y n" "Suc l \<le> n" using w(2) by auto
    then show "ir_capped r" using at_distance_before [of "depends g" i y n "Suc l"] c more by blast
  qed
qed

lemma impact_complete:
  assumes "impactOf lc g i maxDepth = r" "\<not> ir_capped r"
  shows "ih_id ` set (ir_hits r) = {y. (y, i) \<in> (depends g)\<^sup>+} - {i}"
proof -
  have "k \<le> ir_depth r" if "at_distance (depends g) i y k" for y k
    using impact_capped [OF assms(1)] assms(2) that by (meson not_le)
  then have "y \<in> ih_id ` set (ir_hits r) \<longleftrightarrow> (\<exists>k. y \<noteq> i \<and> at_distance (depends g) i y k)" for y
    unfolding hit_ids impact_hits(1) [OF assms(1)] by blast
  then have "y \<in> ih_id ` set (ir_hits r) \<longleftrightarrow> y \<noteq> i \<and> (y, i) \<in> (depends g)\<^sup>+" for y
    using distance_reach [of y i "depends g"] by blast
  then show ?thesis by (intro set_eqI) (simp add: conj_commute)
qed

subsection \<open>Properties\<close>

text \<open>C13: The blast radius is exact: \<open>impactOf\<close> lists precisely the nodes other than the root whose
  shortest chain of call and import edges to the root is within the depth cap (at most 64), each
  once, with the length of that chain, by increasing depth; and \<open>capped\<close> is set precisely when
  some dependent lies further out, so that an answer without it is the whole transitive closure.
  Cycles do not matter. (\<open>lc\<close> is any comparison that is one.)\<close>

theorem impact_exact:
  assumes "impactOf lc g i maxDepth = r" "comparator lc (\<lambda>_. True)"
  shows "(\<lparr>ih_id = x, ih_depth = k\<rparr> \<in> set (ir_hits r) \<longleftrightarrow> x \<noteq> i \<and> at_distance (depends g) i x k \<and> k \<le> ir_depth r)
    \<and> distinct (map ih_id (ir_hits r)) \<and> sorted (map ih_depth (ir_hits r))
    \<and> (ir_capped r \<longleftrightarrow> (\<exists>y n. at_distance (depends g) i y n \<and> ir_depth r < n))
    \<and> (\<not> ir_capped r \<longrightarrow> ih_id ` set (ir_hits r) = {y. (y, i) \<in> (depends g)\<^sup>+} - {i})"
  using impact_hits(1) [OF assms(1)] impact_hits(2) [OF assms(1)] impact_hits(3) [OF assms] impact_capped [OF assms(1)]
    impact_complete [OF assms(1)] by blast

theorem impact_exact_witness:
  "\<lparr>ih_id = ''a'', ih_depth = 1\<rparr> \<in> set (ir_hits (impactOf (\<lambda>_ _. 0) sample_db ''b'' 64))"
proof -
  have e: "edges_t sample_db = [edge_params (sample_edge ''a'' ''b'')]"
    by (simp add: sample_db_def upsertNodes_def upsertEdges_def upsertEdge_def db_new_def upsert_row_def)
  then have "(''a'', ''b'') \<in> depends sample_db"
    by (simp add: depends_def edge_params_def sample_edge_def dependency_def IMPORT_KIND_def)
  then have "at_distance (depends sample_db) ''b'' ''a'' (Suc 0)" by (simp add: at_distance_def)
  moreover have "comparator (\<lambda>_ _. 0 :: int) (\<lambda>_. True)" by unfold_locales auto
  moreover have "ir_depth (impactOf (\<lambda>_ _. 0) sample_db ''b'' 64) = 64"
    by (simp add: impactOf_def Let_def MAX_IMPACT_DEPTH_def split_beta)
  ultimately show ?thesis
    using impact_exact [OF refl, of "\<lambda>_ _. 0" "''a''" "Suc 0" sample_db "''b''" 64] by auto
qed

end
