(* ===== verification/LanePlanner.thy ===== *)
theory LanePlanner
  imports GraphWalk
begin

text \<open>
  Parallel work lanes, \<open>src/daemon/src/db/lane_planner.ts\<close>: the seeds of a change set are grouped
  by overlapping blast radius with a union-find forest, one lane per group. The forest is the
  mutable array \<open>parent\<close>, threaded through every \<open>find\<close> (which halves paths as it goes);
  \<open>None\<close> is a \<open>find\<close> that does not return. Shown here: planning always returns, its lanes share no
  symbol and no file, so that the defensive check never throws, every seed is in exactly one
  lane, and two seeds share a lane only if a chain of overlapping radii connects them.
\<close>

record planned_lane =
  pl_seeds :: "string list"
  pl_files :: "string list"
  pl_symbols :: "string list"

record lane_plan =
  lp_lanes :: "planned_lane list"
  lp_note :: string
  lp_hubsExcluded :: "string list option"

record seed_radius =
  sr_seed :: string
  sr_symbols :: "string list"
  sr_files :: "string list"

record plan_opts =
  po_maxDepth :: "int option"
  po_maxHubDegree :: "int option"

datatype lane_error = SharedSymbol nat nat string | SharedFile nat nat string

subsection \<open>Seeds\<close>

definition seed_symbol :: "(string \<Rightarrow> string option) \<Rightarrow> db \<Rightarrow> string \<Rightarrow> string list \<times> nat \<Rightarrow> string list \<times> nat" where
  "seed_symbol fts_top g symb s = (case s of (seedIds, unresolved) \<Rightarrow>
     case resolveNodeId fts_top g symb of
       None \<Rightarrow> (seedIds, unresolved + 1)
     | Some (i, _) \<Rightarrow> (set_add i seedIds, unresolved))"

definition seed_file :: "db \<Rightarrow> string \<Rightarrow> string list \<times> nat \<Rightarrow> string list \<times> nat" where
  "seed_file g f s = (case s of (seedIds, empties) \<Rightarrow>
     if nodeIdsForFile f g = [] then (seedIds, empties + 1)
     else (fold set_add (nodeIdsForFile f g) seedIds, empties))"

definition plan_seeds ::
    "(string \<Rightarrow> string option) \<Rightarrow> db \<Rightarrow> string list \<Rightarrow> string list \<Rightarrow> string list \<times> nat \<times> nat" where
  "plan_seeds fts_top g symbols files =
     (let (ids1, unresolved) = fold (seed_symbol fts_top g) symbols ([], 0);
          (ids2, empties) = fold (seed_file g) files (ids1, 0)
      in (ids2, unresolved, empties))"

subsection \<open>Radii\<close>

definition is_hub :: "db \<Rightarrow> int option \<Rightarrow> string \<Rightarrow> bool" where
  "is_hub g maxHubDegree i =
     (case maxHubDegree of None \<Rightarrow> False | Some k \<Rightarrow> k < int (length (incoming i g)))"

definition add_hit :: "db \<Rightarrow> int option \<Rightarrow> string \<Rightarrow> impact_hit \<Rightarrow> string list \<times> string list \<Rightarrow> string list \<times> string list" where
  "add_hit g mh seed h s = (case s of (symbols, hubs) \<Rightarrow>
     if ih_id h = seed then (set_add (ih_id h) symbols, hubs)
     else if is_hub g mh (ih_id h) then (symbols, set_add (ih_id h) hubs)
     else (set_add (ih_id h) symbols, hubs))"

definition add_node_file :: "db \<Rightarrow> string \<Rightarrow> string list \<Rightarrow> string list" where
  "add_node_file g i files = (case getNode i g of None \<Rightarrow> files | Some r \<Rightarrow>
     (case nr_file r of None \<Rightarrow> files | Some f \<Rightarrow> set_add f files))"

definition radius_of ::
    "(string \<Rightarrow> string \<Rightarrow> int) \<Rightarrow> db \<Rightarrow> plan_opts \<Rightarrow> string \<Rightarrow> string list \<Rightarrow> seed_radius \<times> string list" where
  "radius_of lc g opts seed hubs =
     (let r = impactOf lc g seed (case po_maxDepth opts of None \<Rightarrow> int MAX_IMPACT_DEPTH | Some k \<Rightarrow> k);
          (symbols, hubs') = fold (add_hit g (po_maxHubDegree opts) seed) (ir_hits r) ([seed], hubs);
          files = fold (add_node_file g) symbols []
      in (\<lparr>sr_seed = seed, sr_symbols = symbols, sr_files = files\<rparr>, hubs'))"

fun radii_of ::
    "(string \<Rightarrow> string \<Rightarrow> int) \<Rightarrow> db \<Rightarrow> plan_opts \<Rightarrow> string list \<Rightarrow> string list \<Rightarrow> seed_radius list \<times> string list" where
  "radii_of lc g opts [] hubs = ([], hubs)"
| "radii_of lc g opts (seed # seeds) hubs =
     (let (r, hubs1) = radius_of lc g opts seed hubs; (rs, hubs2) = radii_of lc g opts seeds hubs1
      in (r # rs, hubs2))"

definition intersects :: "'a list \<Rightarrow> 'a list \<Rightarrow> bool" where
  "intersects a b =
     (let (small, large) = (if length a \<le> length b then (a, b) else (b, a))
      in list_ex (\<lambda>x. x \<in> set large) small)"

definition overlaps :: "seed_radius \<Rightarrow> seed_radius \<Rightarrow> bool" where
  "overlaps a b \<longleftrightarrow> intersects (sr_symbols a) (sr_symbols b) \<or> intersects (sr_files a) (sr_files b)"

subsection \<open>Union-find\<close>

partial_function (option) uf_find :: "nat list \<Rightarrow> nat \<Rightarrow> (nat list \<times> nat) option" where
  "uf_find parent i =
     (if parent ! i = i then Some (parent, i)
      else let parent' = parent[i := parent ! (parent ! i)] in uf_find parent' (parent' ! i))"

definition uf_union :: "nat \<Rightarrow> nat \<Rightarrow> nat list \<Rightarrow> nat list option" where
  "uf_union a b parent =
     Option.bind (uf_find parent a) (\<lambda>(p1, ra).
       Option.bind (uf_find p1 b) (\<lambda>(p2, rb).
         Some (if ra \<noteq> rb then p2[ra := rb] else p2)))"

text \<open>The index pairs \<open>i < j\<close> of the two nested loops, in their order.\<close>

definition index_pairs :: "nat \<Rightarrow> (nat \<times> nat) list" where
  "index_pairs n = concat (map (\<lambda>i. map (Pair i) [i + 1..<n]) [0..<n])"

fun union_overlaps :: "seed_radius list \<Rightarrow> (nat \<times> nat) list \<Rightarrow> nat list \<Rightarrow> nat list option" where
  "union_overlaps radii [] parent = Some parent"
| "union_overlaps radii ((i, j) # ps) parent =
     (if overlaps (radii ! i) (radii ! j)
      then Option.bind (uf_union i j parent) (union_overlaps radii ps)
      else union_overlaps radii ps parent)"

fun collect_components :: "nat list \<Rightarrow> nat list \<Rightarrow> (nat \<times> nat list) list \<Rightarrow> (nat \<times> nat list) list option" where
  "collect_components [] parent comps = Some comps"
| "collect_components (i # is) parent comps =
     Option.bind (uf_find parent i) (\<lambda>(parent', root).
       collect_components is parent'
         (case map_of comps root of
            Some bucket \<Rightarrow> AList.update root (bucket @ [i]) comps
          | None \<Rightarrow> AList.update root [i] comps))"

subsection \<open>Lanes\<close>

definition lane_of :: "seed_radius list \<Rightarrow> nat list \<Rightarrow> planned_lane" where
  "lane_of radii idxs =
     (let rs = map ((!) radii) idxs
      in \<lparr>pl_seeds = sort (map sr_seed rs), pl_files = sort (fold (\<lambda>r. fold set_add (sr_files r)) rs []),
          pl_symbols = sort (fold (\<lambda>r. fold set_add (sr_symbols r)) rs [])\<rparr>)"

definition first_seed :: "planned_lane \<Rightarrow> string" where
  "first_seed l = (case pl_seeds l of [] \<Rightarrow> [] | s # _ \<Rightarrow> s)"

definition check_pair :: "planned_lane list \<Rightarrow> nat \<times> nat \<Rightarrow> lane_error option" where
  "check_pair lanes ij = (case ij of (i, j) \<Rightarrow>
     case List.find (\<lambda>s. s \<in> set (pl_symbols (lanes ! i))) (pl_symbols (lanes ! j)) of
       Some s \<Rightarrow> Some (SharedSymbol i j s)
     | None \<Rightarrow> map_option (SharedFile i j) (List.find (\<lambda>f. f \<in> set (pl_files (lanes ! i))) (pl_files (lanes ! j))))"

definition assertDisjoint :: "planned_lane list \<Rightarrow> lane_error option" where
  "assertDisjoint lanes =
     (case List.map_filter (check_pair lanes) (index_pairs (length lanes)) of [] \<Rightarrow> None | e # _ \<Rightarrow> Some e)"

subsection \<open>The note\<close>

definition plural :: "nat \<Rightarrow> string \<Rightarrow> string" where
  "plural n w = (if n = 1 then w else w @ ''s'')"

definition noteSkipped :: "nat \<Rightarrow> nat \<Rightarrow> string" where
  "noteSkipped unresolvedSymbols emptyFiles =
     (let a = nat_dec unresolvedSymbols @ '' '' @ plural unresolvedSymbols ''unresolved symbol'';
          b = nat_dec emptyFiles @ '' '' @ plural emptyFiles ''empty file''
      in if 0 < unresolvedSymbols \<and> 0 < emptyFiles then a @ '', '' @ b
         else if 0 < unresolvedSymbols then a else if 0 < emptyFiles then b else [])"

definition arrow :: string where "arrow = [CHR 0xE2, CHR 0x86, CHR 0x92]"

definition buildNote :: "nat \<Rightarrow> nat \<Rightarrow> nat \<Rightarrow> nat \<Rightarrow> nat \<Rightarrow> string" where
  "buildNote seedCount laneCount coupledSeeds unresolvedSymbols emptyFiles =
     (let skipped = noteSkipped unresolvedSymbols emptyFiles
      in nat_dec seedCount @ '' '' @ plural seedCount ''seed'' @ '' '' @ arrow @ '' '' @ nat_dec laneCount
         @ '' disjoint '' @ plural laneCount ''lane''
         @ (if 0 < coupledSeeds then ''; '' @ nat_dec coupledSeeds @ '' seeds coupled via shared blast radius'' else [])
         @ (if skipped \<noteq> [] then '' (skipped '' @ skipped @ '')'' else []))"

definition planLanes ::
    "(string \<Rightarrow> string option) \<Rightarrow> (string \<Rightarrow> string \<Rightarrow> int) \<Rightarrow> db \<Rightarrow> string list \<Rightarrow> string list \<Rightarrow> plan_opts
     \<Rightarrow> (lane_error + lane_plan) option" where
  "planLanes fts_top lc g symbols files opts =
     (let (seeds, unresolved, empties) = plan_seeds fts_top g symbols files
      in if seeds = []
         then let skipped = noteSkipped unresolved empties
              in Some (Inr \<lparr>lp_lanes = [],
                   lp_note = (if skipped \<noteq> [] then ''no seeds ('' @ skipped @ '')'' else ''no seeds''),
                   lp_hubsExcluded = None\<rparr>)
         else let (radii, hubs) = radii_of lc g opts seeds []; n = length radii
              in Option.bind (union_overlaps radii (index_pairs n) [0..<n]) (\<lambda>parent.
                 Option.bind (collect_components [0..<n] parent []) (\<lambda>comps.
                   let coupled = sum_list (map (\<lambda>(_, idxs). if 1 < length idxs then length idxs else 0) comps);
                       lanes = js_sort (\<lambda>a b. cmp_lin (first_seed a) (first_seed b)) (map (\<lambda>(_, idxs). lane_of radii idxs) comps);
                       note = buildNote (length seeds) (length lanes) coupled unresolved empties
                   in Some (case assertDisjoint lanes of
                        Some e \<Rightarrow> Inl e
                      | None \<Rightarrow>
                          if po_maxHubDegree opts = None
                          then Inr \<lparr>lp_lanes = lanes, lp_note = note, lp_hubsExcluded = None\<rparr>
                          else Inr \<lparr>lp_lanes = lanes,
                                 lp_note = note @ (if hubs \<noteq> [] then ''; excluded '' @ nat_dec (length hubs) @ '' ''
                                   @ plural (length hubs) ''hub'' @ '' from coupling'' else []),
                                 lp_hubsExcluded = Some (sort hubs)\<rparr>))))"

subsection \<open>The forest\<close>

text \<open>\<open>rooted p n i r\<close>: following \<open>p\<close> from \<open>i\<close> reaches the root \<open>r\<close> after \<open>n\<close> steps.\<close>

primrec rooted :: "nat list \<Rightarrow> nat \<Rightarrow> nat \<Rightarrow> nat \<Rightarrow> bool" where
  "rooted p 0 i r \<longleftrightarrow> i = r \<and> p ! r = r"
| "rooted p (Suc n) i r \<longleftrightarrow> p ! i \<noteq> i \<and> rooted p n (p ! i) r"

definition rep :: "nat list \<Rightarrow> nat \<Rightarrow> nat \<Rightarrow> bool" where
  "rep p i r \<longleftrightarrow> (\<exists>n. rooted p n i r)"

definition uf_ok :: "nat list \<Rightarrow> bool" where
  "uf_ok p \<longleftrightarrow> (\<forall>i < length p. p ! i < length p \<and> (\<exists>r. rep p i r))"

definition uf_same :: "nat list \<Rightarrow> nat \<Rightarrow> nat \<Rightarrow> bool" where
  "uf_same p i j \<longleftrightarrow> (\<exists>r. rep p i r \<and> rep p j r)"

text \<open>\<open>q\<close> has the same representatives as \<open>p\<close>.\<close>

definition uf_equiv :: "nat list \<Rightarrow> nat list \<Rightarrow> bool" where
  "uf_equiv p q \<longleftrightarrow> uf_ok q \<and> length q = length p \<and> (\<forall>i r. rep p i r \<longrightarrow> rep q i r)"

lemma rooted_root: "rooted p n i r \<Longrightarrow> p ! r = r"
  by (induction n arbitrary: i) auto

lemma rooted_of_root: "rooted p n i r \<Longrightarrow> p ! i = i \<Longrightarrow> n = 0 \<and> i = r"
  by (cases n) auto

lemma rooted_unique: "rooted p n i r \<Longrightarrow> rooted p m i s \<Longrightarrow> r = s"
proof (induction n arbitrary: i m)
  case 0
  then show ?case using rooted_of_root [of p m i s] by auto
next
  case (Suc n)
  then show ?case by (cases m) auto
qed

lemma rep_unique: "rep p i r \<Longrightarrow> rep p i s \<Longrightarrow> r = s"
  unfolding rep_def using rooted_unique by blast

lemma rep_self: "p ! i = i \<Longrightarrow> rep p i i"
  unfolding rep_def by (rule exI [of _ 0]) simp

lemma rep_root: "rep p i r \<Longrightarrow> p ! r = r"
  unfolding rep_def using rooted_root by blast

lemma rooted_bound: "uf_ok p \<Longrightarrow> i < length p \<Longrightarrow> rooted p n i r \<Longrightarrow> r < length p"
  by (induction n arbitrary: i) (auto simp: uf_ok_def)

lemma rep_bound: "uf_ok p \<Longrightarrow> i < length p \<Longrightarrow> rep p i r \<Longrightarrow> r < length p"
  unfolding rep_def using rooted_bound by blast

lemma uf_ok_rep: "uf_ok p \<Longrightarrow> i < length p \<Longrightarrow> \<exists>r. rep p i r"
  by (simp add: uf_ok_def)

lemma uf_ok_init: "uf_ok [0..<n]"
  unfolding uf_ok_def
proof (intro allI impI conjI)
  fix i assume "i < length [0..<n]"
  then have "rep [0..<n] i i" by (intro rep_self) simp
  then show "\<exists>r. rep [0..<n] i r" ..
qed simp

lemma rep_init: "i < n \<Longrightarrow> rep [0..<n] i r \<longleftrightarrow> r = i"
  using rep_self [of "[0..<n]" i] rep_unique by auto

lemma uf_equiv_refl: "uf_ok p \<Longrightarrow> uf_equiv p p"
  by (simp add: uf_equiv_def)

lemma uf_equiv_trans: "uf_equiv p q \<Longrightarrow> uf_equiv q r \<Longrightarrow> uf_equiv p r"
  by (simp add: uf_equiv_def)

lemma uf_equiv_rep: "uf_ok p \<Longrightarrow> uf_equiv p q \<Longrightarrow> i < length p \<Longrightarrow> rep q i r \<longleftrightarrow> rep p i r"
  unfolding uf_equiv_def using uf_ok_rep rep_unique by metis

text \<open>Halving a path shortens it.\<close>

lemma rooted_halve:
  assumes "p ! i \<noteq> i" "i < length p" "rooted p n j r"
  shows "\<exists>m \<le> n. rooted (p[i := p ! (p ! i)]) m j r"
  using assms(3)
proof (induction n arbitrary: j)
  case 0
  then have "j \<noteq> i" using assms(1) by auto
  with 0 show ?case by (auto intro!: exI [of _ 0])
next
  case (Suc n)
  let ?q = "p[i := p ! (p ! i)]"
  from Suc obtain m where m: "m \<le> n" "rooted ?q m (p ! j) r" by auto
  show ?case
  proof (cases "j = i")
    case False
    with m Suc.prems have "rooted ?q (Suc m) j r" by simp
    with m(1) show ?thesis by (intro exI [of _ "Suc m"]) simp
  next
    case True
    show ?thesis
    proof (cases "p ! (p ! i) = p ! i")
      case True
      with m \<open>j = i\<close> assms have "rooted ?q (Suc m) j r" by simp
      with m(1) show ?thesis by (intro exI [of _ "Suc m"]) simp
    next
      case False
      with m(2) \<open>j = i\<close> assms(1) obtain k where k: "m = Suc k" "rooted ?q k (p ! (p ! i)) r" by (cases m) auto
      show ?thesis
      proof (cases "p ! (p ! i) = i")
        case True
        with k m(1) \<open>j = i\<close> show ?thesis by (intro exI [of _ k]) simp
      next
        case False
        with k \<open>j = i\<close> assms(2) have "rooted ?q (Suc k) j r" by simp
        with k m(1) show ?thesis by (intro exI [of _ "Suc k"]) simp
      qed
    qed
  qed
qed

lemma uf_equiv_halve:
  assumes "uf_ok p" "i < length p" "p ! i \<noteq> i"
  shows "uf_equiv p (p[i := p ! (p ! i)])"
proof -
  let ?q = "p[i := p ! (p ! i)]"
  have r: "rep ?q j r" if "rep p j r" for j r
    using that rooted_halve [OF assms(3,2)] unfolding rep_def by blast
  have "?q ! j < length ?q \<and> (\<exists>r. rep ?q j r)" if "j < length ?q" for j
  proof
    show "?q ! j < length ?q" using that assms by (auto simp: uf_ok_def nth_list_update)
    have "j < length p" using that by simp
    then obtain t where "rep p j t" using uf_ok_rep [OF assms(1)] by blast
    then show "\<exists>r. rep ?q j r" using r by blast
  qed
  then show ?thesis using r by (simp add: uf_equiv_def uf_ok_def)
qed

lemma uf_find_ok:
  assumes "uf_ok p" "i < length p" "rooted p n i r"
  shows "\<exists>q. uf_find p i = Some (q, r) \<and> uf_equiv p q"
  using assms
proof (induction n arbitrary: p i rule: less_induct)
  case (less n)
  show ?case
  proof (cases "p ! i = i")
    case True
    then show ?thesis
      using less.prems rooted_of_root [of p n i r] by (auto simp: uf_find.simps uf_equiv_refl)
  next
    case False
    let ?q = "p[i := p ! (p ! i)]"
    have e: "uf_equiv p ?q" by (rule uf_equiv_halve [OF less.prems(1,2) False])
    then have q: "uf_ok ?q" "?q ! i < length ?q" using less.prems(2) by (auto simp: uf_equiv_def uf_ok_def)
    obtain m where m: "m \<le> n" "rooted ?q m i r" using rooted_halve [OF False less.prems(2,3)] by blast
    have "0 < n" using False less.prems(3) by (cases n) auto
    obtain k where k: "k < n" "rooted ?q k (?q ! i) r"
    proof (cases m)
      case 0
      with m have "?q ! i = i" "rooted ?q 0 (?q ! i) r" by auto
      with \<open>0 < n\<close> show ?thesis using that by blast
    next
      case (Suc k)
      with m show ?thesis using that [of k] by auto
    qed
    obtain q' where "uf_find ?q (?q ! i) = Some (q', r)" "uf_equiv ?q q'"
      using less.IH [OF k(1) q k(2)] by blast
    with False e show ?thesis by (auto simp: uf_find.simps [of p i] Let_def intro: uf_equiv_trans)
  qed
qed

lemma uf_find_total:
  assumes "uf_ok p" "i < length p"
  shows "\<exists>q r. uf_find p i = Some (q, r) \<and> rep p i r \<and> uf_equiv p q"
proof -
  obtain n r where "rooted p n i r" using uf_ok_rep [OF assms] by (auto simp: rep_def)
  then show ?thesis using uf_find_ok [OF assms] unfolding rep_def by blast
qed

text \<open>Linking root \<open>a\<close> under root \<open>b\<close> merges their classes.\<close>

lemma rooted_link:
  assumes "p ! a = a" "p ! b = b" "a \<noteq> b" "a < length p" "rooted p n i r"
  shows "rep (p[a := b]) i (if r = a then b else r)"
  using assms(5)
proof (induction n arbitrary: i)
  case 0
  show ?case
  proof (cases "r = a")
    case True
    with 0 assms have "rooted (p[a := b]) (Suc 0) i b" by simp
    then have "rep (p[a := b]) i b" unfolding rep_def by blast
    with True show ?thesis by simp
  next
    case False
    with 0 have "rooted (p[a := b]) 0 i r" by simp
    then have "rep (p[a := b]) i r" unfolding rep_def by blast
    with False show ?thesis by simp
  qed
next
  case (Suc n)
  then have "i \<noteq> a" "rep (p[a := b]) (p ! i) (if r = a then b else r)" using assms(1) by auto
  then obtain m where "rooted (p[a := b]) m (p ! i) (if r = a then b else r)" by (auto simp: rep_def)
  with \<open>i \<noteq> a\<close> Suc.prems have "rooted (p[a := b]) (Suc m) i (if r = a then b else r)" by simp
  then show ?case unfolding rep_def by blast
qed

lemma uf_ok_link:
  assumes "uf_ok p" "p ! a = a" "p ! b = b" "a \<noteq> b" "a < length p" "b < length p"
  shows "uf_ok (p[a := b])" "rep p i r \<Longrightarrow> rep (p[a := b]) i (if r = a then b else r)"
proof -
  show r: "rep (p[a := b]) i (if r = a then b else r)" if "rep p i r" for i r
    using that rooted_link [OF assms(2-5)] unfolding rep_def by blast
  show "uf_ok (p[a := b])"
    using assms(1,5,6) r uf_ok_rep [OF assms(1)] unfolding uf_ok_def
    by (auto simp: nth_list_update) blast+
qed

lemma uf_union_ok:
  assumes "uf_ok p" "a < length p" "b < length p"
  shows "\<exists>q. uf_union a b p = Some q \<and> uf_ok q \<and> length q = length p
    \<and> (\<exists>ra rb. rep p a ra \<and> rep p b rb \<and> (\<forall>i r. rep p i r \<longrightarrow> rep q i (if r = ra then rb else r)))"
proof -
  obtain p1 ra where 1: "uf_find p a = Some (p1, ra)" "rep p a ra" "uf_equiv p p1"
    using uf_find_total [OF assms(1,2)] by blast
  then have ok1: "uf_ok p1" "b < length p1" using assms(3) by (auto simp: uf_equiv_def)
  obtain p2 rb where 2: "uf_find p1 b = Some (p2, rb)" "rep p1 b rb" "uf_equiv p1 p2"
    using uf_find_total [OF ok1] by blast
  have e: "uf_equiv p p2" by (rule uf_equiv_trans [OF 1(3) 2(3)])
  then have ok2: "uf_ok p2" "length p2 = length p" and r2: "\<And>i r. rep p i r \<Longrightarrow> rep p2 i r"
    by (auto simp: uf_equiv_def)
  have rb: "rep p b rb" using uf_equiv_rep [OF assms(1) 1(3) assms(3)] 2(2) by blast
  show ?thesis
  proof (cases "ra = rb")
    case True
    then show ?thesis using 1 2 ok2 r2 rb by (auto simp: uf_union_def intro!: exI [of _ rb])
  next
    case False
    have "p2 ! ra = ra" "p2 ! rb = rb" using r2 [OF 1(2)] r2 [OF rb] rep_root by blast+
    moreover have "ra < length p2" "rb < length p2"
      using rep_bound [OF assms(1,2) 1(2)] rep_bound [OF assms(1,3) rb] ok2(2) by auto
    ultimately have "uf_ok (p2[ra := rb])" "\<And>i r. rep p i r \<Longrightarrow> rep (p2[ra := rb]) i (if r = ra then rb else r)"
      using uf_ok_link [OF ok2(1)] False r2 by blast+
    moreover have "uf_union a b p = Some (p2[ra := rb])" using 1(1) 2(1) False by (simp add: uf_union_def)
    ultimately show ?thesis
      using ok2(2) rb 1(2) by (intro exI [of _ "p2[ra := rb]"] conjI exI [of _ ra] exI [of _ rb] allI impI) simp_all
  qed
qed

subsection \<open>The forest against connectivity\<close>

definition linked :: "('a \<times> 'a) set \<Rightarrow> ('a \<times> 'a) set" where
  "linked E = (E \<union> E\<inverse>)\<^sup>*"

lemma linked_sym: "(i, j) \<in> linked E \<Longrightarrow> (j, i) \<in> linked E"
proof -
  have "sym (E \<union> E\<inverse>)" by (auto simp: sym_def)
  then show "(i, j) \<in> linked E \<Longrightarrow> (j, i) \<in> linked E" unfolding linked_def by (meson sym_rtrancl symD)
qed

lemma linked_mono: "E \<subseteq> F \<Longrightarrow> linked E \<subseteq> linked F"
  unfolding linked_def by (rule rtrancl_mono) auto

lemma linked_trans: "(i, j) \<in> linked E \<Longrightarrow> (j, k) \<in> linked E \<Longrightarrow> (i, k) \<in> linked E"
  unfolding linked_def by (rule rtrancl_trans)

lemma linked_edge: "(i, j) \<in> E \<Longrightarrow> (i, j) \<in> linked E"
  unfolding linked_def by auto

lemma linked_insert:
  "(i, j) \<in> linked (insert (a, b) E) \<longleftrightarrow>
     (i, j) \<in> linked E \<or> (i, a) \<in> linked E \<and> (b, j) \<in> linked E \<or> (i, b) \<in> linked E \<and> (a, j) \<in> linked E"
  (is "_ \<longleftrightarrow> ?P j")
proof
  assume "(i, j) \<in> linked (insert (a, b) E)"
  then have "(i, j) \<in> (insert (a, b) E \<union> (insert (a, b) E)\<inverse>)\<^sup>*" by (simp add: linked_def)
  then show "?P j"
  proof (induction rule: rtrancl_induct)
    case base
    show ?case by (simp add: linked_def)
  next
    case (step y z)
    from step.hyps(2) consider "(y, z) \<in> linked E" | "y = a" "z = b" | "y = b" "z = a"
      by (auto simp: linked_def)
    then show ?case
    proof cases
      case 1
      with step.IH show ?thesis by (blast intro: linked_trans)
    next
      case 2
      have "(b, b) \<in> linked E" "(a, a) \<in> linked E" by (simp_all add: linked_def)
      with step.IH 2 show ?thesis by (blast intro: linked_trans linked_sym)
    next
      case 3
      have "(b, b) \<in> linked E" "(a, a) \<in> linked E" by (simp_all add: linked_def)
      with step.IH 3 show ?thesis by (blast intro: linked_trans linked_sym)
    qed
  qed
next
  assume "?P j"
  moreover have "linked E \<subseteq> linked (insert (a, b) E)" by (rule linked_mono) blast
  moreover have "(a, b) \<in> linked (insert (a, b) E)" "(b, a) \<in> linked (insert (a, b) E)"
    using linked_edge [of a b "insert (a, b) E"] linked_sym by auto
  ultimately show "(i, j) \<in> linked (insert (a, b) E)" by (blast intro: linked_trans)
qed

definition forest_of :: "nat \<Rightarrow> (nat \<times> nat) set \<Rightarrow> nat list \<Rightarrow> bool" where
  "forest_of n E p \<longleftrightarrow> uf_ok p \<and> length p = n \<and> (\<forall>i < n. \<forall>j < n. uf_same p i j \<longleftrightarrow> (i, j) \<in> linked E)"

lemma forest_of_init: "forest_of n {} [0..<n]"
  by (auto simp: forest_of_def uf_ok_init uf_same_def rep_init linked_def)

lemma uf_union_same:
  assumes "uf_ok p" "a < length p" "b < length p" "uf_union a b p = Some q" "i < length p" "j < length p"
  shows "uf_same q i j \<longleftrightarrow> uf_same p i j \<or> uf_same p i a \<and> uf_same p b j \<or> uf_same p i b \<and> uf_same p a j"
proof -
  obtain ra rb where r: "rep p a ra" "rep p b rb" "\<And>i r. rep p i r \<Longrightarrow> rep q i (if r = ra then rb else r)"
    using uf_union_ok [OF assms(1-3)] assms(4) by auto
  obtain ri rj where ij: "rep p i ri" "rep p j rj" using uf_ok_rep [OF assms(1)] assms(5,6) by blast
  have same: "uf_same p x y \<longleftrightarrow> rx = ry" if "rep p x rx" "rep p y ry" for p x y rx ry
    using that rep_unique unfolding uf_same_def by metis
  show ?thesis
    unfolding same [OF r(3) [OF ij(1)] r(3) [OF ij(2)]] same [OF ij] same [OF ij(1) r(1)] same [OF r(2) ij(2)]
      same [OF ij(1) r(2)] same [OF r(1) ij(2)]
    by auto
qed

lemma forest_of_union:
  assumes "forest_of n E p" "a < n" "b < n"
  shows "\<exists>q. uf_union a b p = Some q \<and> forest_of n (insert (a, b) E) q"
proof -
  have p: "uf_ok p" "length p = n" "\<And>i j. i < n \<Longrightarrow> j < n \<Longrightarrow> uf_same p i j \<longleftrightarrow> (i, j) \<in> linked E"
    using assms(1) by (auto simp: forest_of_def)
  obtain q where q: "uf_union a b p = Some q" "uf_ok q" "length q = n"
    using uf_union_ok [OF p(1), of a b] p(2) assms(2,3) by auto
  have "uf_same q i j \<longleftrightarrow> (i, j) \<in> linked (insert (a, b) E)" if "i < n" "j < n" for i j
    using uf_union_same [OF p(1) _ _ q(1)] p(2,3) assms(2,3) that unfolding linked_insert by simp
  with q show ?thesis by (simp add: forest_of_def)
qed

definition overlap_pairs :: "seed_radius list \<Rightarrow> (nat \<times> nat) list \<Rightarrow> (nat \<times> nat) set" where
  "overlap_pairs radii ps = {(i, j) \<in> set ps. overlaps (radii ! i) (radii ! j)}"

lemma union_overlaps_ok:
  assumes "forest_of n E p" "\<forall>(i, j) \<in> set ps. i < n \<and> j < n"
  shows "\<exists>q. union_overlaps radii ps p = Some q \<and> forest_of n (E \<union> overlap_pairs radii ps) q"
  using assms
proof (induction ps arbitrary: E p)
  case Nil
  then show ?case by (simp add: overlap_pairs_def)
next
  case (Cons ij ps)
  obtain i j where ij: "ij = (i, j)" by (cases ij)
  show ?case
  proof (cases "overlaps (radii ! i) (radii ! j)")
    case True
    obtain q where q: "uf_union i j p = Some q" "forest_of n (insert (i, j) E) q"
      using forest_of_union [OF Cons.prems(1), of i j] Cons.prems(2) ij by auto
    have "insert (i, j) E \<union> overlap_pairs radii ps = E \<union> overlap_pairs radii (ij # ps)"
      using True by (auto simp: overlap_pairs_def ij)
    with Cons.IH [OF q(2)] Cons.prems(2) q(1) True show ?thesis by (simp add: ij)
  next
    case False
    then have "overlap_pairs radii (ij # ps) = overlap_pairs radii ps" by (auto simp: overlap_pairs_def ij)
    with Cons.IH [OF Cons.prems(1)] Cons.prems(2) False show ?thesis by (simp add: ij)
  qed
qed

lemma set_index_pairs: "set (index_pairs n) = {(i, j). i < j \<and> j < n}"
  by (force simp: index_pairs_def)

subsection \<open>Components\<close>

definition bucket :: "nat list \<Rightarrow> nat list \<Rightarrow> nat \<Rightarrow> nat list option" where
  "bucket p is r = (let l = filter (\<lambda>i. rep p i r) is in if l = [] then None else Some l)"

lemma mset_concat_update:
  assumes "distinct (map fst m)"
  shows "mset (concat (map snd (AList.update k ((case map_of m k of None \<Rightarrow> [] | Some b \<Rightarrow> b) @ [i]) m)))
    = add_mset i (mset (concat (map snd m)))"
  using assms by (induction m) (auto simp: map_of_eq_None_iff split: option.splits)

lemma collect_components_ok:
  assumes "uf_ok p" "uf_equiv p q" "\<forall>i \<in> set is. i < length p"
    and "distinct (map fst comps)" "\<forall>r. map_of comps r = bucket p xs r" "mset (concat (map snd comps)) = mset xs"
  shows "\<exists>comps'. collect_components is q comps = Some comps' \<and> distinct (map fst comps')
    \<and> (\<forall>r. map_of comps' r = bucket p (xs @ is) r) \<and> mset (concat (map snd comps')) = mset (xs @ is)"
  using assms(2-)
proof (induction "is" arbitrary: q comps xs)
  case Nil
  then show ?case by simp
next
  case (Cons i "is")
  have q: "uf_ok q" "i < length q" using Cons.prems(1,2) by (auto simp: uf_equiv_def)
  obtain q' r where f: "uf_find q i = Some (q', r)" "rep q i r" "uf_equiv q q'" using uf_find_total [OF q] by blast
  have r: "rep p i s \<longleftrightarrow> s = r" for s
    using f(2) uf_equiv_rep [OF assms(1) Cons.prems(1), of i] Cons.prems(2) rep_unique [of q i] by auto
  let ?b = "(case map_of comps r of None \<Rightarrow> [] | Some b \<Rightarrow> b) @ [i]"
  let ?c = "AList.update r ?b comps"
  have "?b = filter (\<lambda>j. rep p j r) (xs @ [i])"
    using Cons.prems(4) r by (auto simp: bucket_def Let_def)
  then have "\<forall>s. map_of ?c s = bucket p (xs @ [i]) s"
    using Cons.prems(4) r by (auto simp: update_conv' bucket_def Let_def)
  moreover have "distinct (map fst ?c)" using Cons.prems(3) by (simp add: distinct_update)
  moreover have "mset (concat (map snd ?c)) = mset (xs @ [i])"
    using mset_concat_update [OF Cons.prems(3), of r i] Cons.prems(5) by simp
  ultimately have "\<exists>comps'. collect_components is q' ?c = Some comps' \<and> distinct (map fst comps')
    \<and> (\<forall>r. map_of comps' r = bucket p ((xs @ [i]) @ is) r) \<and> mset (concat (map snd comps')) = mset ((xs @ [i]) @ is)"
    using Cons.prems(2) by (intro Cons.IH uf_equiv_trans [OF Cons.prems(1) f(3)]) auto
  moreover have "collect_components (i # is) q comps = collect_components is q' ?c"
    using f(1) by (cases "map_of comps r") auto
  ultimately show ?case by simp
qed

subsection \<open>Lanes are disjoint\<close>

lemma intersects_iff: "intersects a b \<longleftrightarrow> set a \<inter> set b \<noteq> {}"
  by (auto simp: intersects_def list_ex_iff Let_def)

lemma overlaps_sym: "overlaps a b \<Longrightarrow> overlaps b a"
  by (auto simp: overlaps_def intersects_iff)

lemma set_fold_union: "set (fold (\<lambda>r. fold set_add (f r)) rs xs) = set xs \<union> (\<Union>r \<in> set rs. set (f r))"
  by (induction rs arbitrary: xs) auto

lemma lane_of_sets:
  "set (pl_symbols (lane_of radii idxs)) = (\<Union>i \<in> set idxs. set (sr_symbols (radii ! i)))"
  "set (pl_files (lane_of radii idxs)) = (\<Union>i \<in> set idxs. set (sr_files (radii ! i)))"
  "mset (pl_seeds (lane_of radii idxs)) = mset (map (\<lambda>i. sr_seed (radii ! i)) idxs)"
  by (simp_all add: lane_of_def Let_def set_fold_union comp_def)

definition lanes_apart :: "planned_lane \<Rightarrow> planned_lane \<Rightarrow> bool" where
  "lanes_apart a b \<longleftrightarrow> set (pl_symbols a) \<inter> set (pl_symbols b) = {} \<and> set (pl_files a) \<inter> set (pl_files b) = {}"

lemma sorted_wrt_js_sort_sym:
  assumes "\<And>x y. P x y \<Longrightarrow> P y x"
  shows "sorted_wrt P xs \<Longrightarrow> sorted_wrt P (js_sort c xs)"
proof (induction xs)
  case Nil
  then show ?case by simp
next
  case (Cons x xs)
  have "sorted_wrt P (js_insort c x ys)" if "sorted_wrt P ys" "\<forall>y \<in> set ys. P x y" for ys
    using that by (induction ys) (auto intro: assms)
  with Cons show ?case by simp
qed

lemma check_pair_None:
  assumes "lanes_apart (lanes ! i) (lanes ! j)"
  shows "check_pair lanes (i, j) = None"
proof -
  have "List.find (\<lambda>s. s \<in> set (pl_symbols (lanes ! i))) (pl_symbols (lanes ! j)) = None"
    "List.find (\<lambda>f. f \<in> set (pl_files (lanes ! i))) (pl_files (lanes ! j)) = None"
    using assms by (auto simp: lanes_apart_def find_None_iff)
  then show ?thesis by (simp add: check_pair_def)
qed

lemma assertDisjoint_None:
  assumes "sorted_wrt lanes_apart lanes"
  shows "assertDisjoint lanes = None"
proof -
  have "check_pair lanes ij = None" if "ij \<in> set (index_pairs (length lanes))" for ij
    using that assms check_pair_None [of lanes "fst ij" "snd ij"]
    by (auto simp: set_index_pairs sorted_wrt_iff_nth_less)
  then have "List.map_filter (check_pair lanes) xs = []" if "set xs \<subseteq> set (index_pairs (length lanes))" for xs
    using that by (induction xs) (auto simp: map_filter_simps)
  then show ?thesis by (simp add: assertDisjoint_def)
qed

text \<open>What the grouping of \<open>radii\<close> returns.\<close>

definition grouping_ok :: "seed_radius list \<Rightarrow> (nat \<times> nat list) list \<Rightarrow> bool" where
  "grouping_ok radii comps \<longleftrightarrow>
     mset (concat (map snd comps)) = mset [0..<length radii] \<and> sorted_wrt (\<lambda>c d. set (snd c) \<inter> set (snd d) = {}) comps
     \<and> (\<forall>i < length radii. \<forall>j < length radii.
          (\<exists>c \<in> set comps. i \<in> set (snd c) \<and> j \<in> set (snd c)) \<longleftrightarrow>
          (i, j) \<in> linked {(i, j). i < j \<and> j < length radii \<and> overlaps (radii ! i) (radii ! j)})"

lemma grouping_total:
  "\<exists>parent comps. union_overlaps radii (index_pairs (length radii)) [0..<length radii] = Some parent
    \<and> collect_components [0..<length radii] parent [] = Some comps \<and> grouping_ok radii comps"
proof -
  let ?n = "length radii"
  let ?E = "{(i, j). i < j \<and> j < ?n \<and> overlaps (radii ! i) (radii ! j)}"
  have "overlap_pairs radii (index_pairs ?n) = ?E" by (auto simp: overlap_pairs_def set_index_pairs)
  then obtain p where p: "union_overlaps radii (index_pairs ?n) [0..<?n] = Some p" "forest_of ?n ?E p"
    using union_overlaps_ok [OF forest_of_init, of "index_pairs ?n" ?n radii] by (auto simp: set_index_pairs)
  then have ok: "uf_ok p" "length p = ?n" by (auto simp: forest_of_def)
  obtain comps where c: "collect_components [0..<?n] p [] = Some comps" "distinct (map fst comps)"
    "\<forall>r. map_of comps r = bucket p [0..<?n] r" "mset (concat (map snd comps)) = mset [0..<?n]"
    using collect_components_ok [OF ok(1) uf_equiv_refl [OF ok(1)], of "[0..<?n]" "[]" "[]"] ok(2)
    by (auto simp: bucket_def)
  have mem: "(r, l) \<in> set comps \<longleftrightarrow> l = filter (\<lambda>i. rep p i r) [0..<?n] \<and> l \<noteq> []" for r l
  proof -
    have "bucket p [0..<?n] r = Some l \<longleftrightarrow> l = filter (\<lambda>i. rep p i r) [0..<?n] \<and> l \<noteq> []"
      by (auto simp: bucket_def Let_def)
    with map_of_eq_Some_iff [OF c(2), of r l] c(3) show ?thesis by simp
  qed
  have "sorted_wrt (\<lambda>c d. set (snd c) \<inter> set (snd d) = {}) comps"
    unfolding sorted_wrt_iff_nth_less
  proof (intro allI impI)
    fix a b assume "a < b" "b < length comps"
    then have "fst (comps ! a) \<noteq> fst (comps ! b)" using c(2) by (simp add: distinct_conv_nth)
    moreover have "snd (comps ! a) = filter (\<lambda>i. rep p i (fst (comps ! a))) [0..<?n]"
      "snd (comps ! b) = filter (\<lambda>i. rep p i (fst (comps ! b))) [0..<?n]"
      using mem [of "fst (comps ! a)" "snd (comps ! a)"] mem [of "fst (comps ! b)" "snd (comps ! b)"]
        \<open>a < b\<close> \<open>b < length comps\<close> by auto
    ultimately show "set (snd (comps ! a)) \<inter> set (snd (comps ! b)) = {}" using rep_unique by auto
  qed
  moreover have "(\<exists>c \<in> set comps. i \<in> set (snd c) \<and> j \<in> set (snd c)) \<longleftrightarrow> uf_same p i j" if "i < ?n" "j < ?n" for i j
  proof
    assume "\<exists>c \<in> set comps. i \<in> set (snd c) \<and> j \<in> set (snd c)"
    then show "uf_same p i j" using mem unfolding uf_same_def by force
  next
    assume "uf_same p i j"
    then obtain r where "rep p i r" "rep p j r" by (auto simp: uf_same_def)
    then have "(r, filter (\<lambda>i. rep p i r) [0..<?n]) \<in> set comps" "i \<in> set (filter (\<lambda>i. rep p i r) [0..<?n])"
      "j \<in> set (filter (\<lambda>i. rep p i r) [0..<?n])"
      using that unfolding mem by (auto simp: filter_empty_conv)
    then show "\<exists>c \<in> set comps. i \<in> set (snd c) \<and> j \<in> set (snd c)" by force
  qed
  ultimately show ?thesis using p c by (simp add: grouping_ok_def forest_of_def)
qed

lemma sorted_wrt_pair:
  assumes "sorted_wrt P xs" "x \<in> set xs" "y \<in> set xs"
  shows "x = y \<or> P x y \<or> P y x"
  using assms by (induction xs) auto

lemma grouping_same:
  assumes "grouping_ok radii comps" "c \<in> set comps" "d \<in> set comps" "i \<in> set (snd c)" "i \<in> set (snd d)"
  shows "c = d"
  using assms sorted_wrt_pair [of "\<lambda>c d. set (snd c) \<inter> set (snd d) = {}" comps c d] unfolding grouping_ok_def by blast

lemma grouping_linked:
  assumes "grouping_ok radii comps" "i < length radii" "j < length radii"
  shows "(\<exists>c \<in> set comps. i \<in> set (snd c) \<and> j \<in> set (snd c)) \<longleftrightarrow>
    (i, j) \<in> linked {(i, j). i < j \<and> j < length radii \<and> overlaps (radii ! i) (radii ! j)}"
  using assms by (simp add: grouping_ok_def)

lemma grouping_indices:
  assumes "grouping_ok radii comps"
  shows "mset (concat (map snd comps)) = mset [0..<length radii]"
  using assms unfolding grouping_ok_def by blast

lemma grouping_apart:
  assumes g: "grouping_ok radii comps" "c \<in> set comps" "d \<in> set comps" "set (snd c) \<inter> set (snd d) = {}"
    and "i \<in> set (snd c)" "j \<in> set (snd d)"
  shows "\<not> overlaps (radii ! i) (radii ! j)"
proof
  assume o: "overlaps (radii ! i) (radii ! j)"
  have "set (concat (map snd comps)) = {0..<length radii}"
    using arg_cong [OF grouping_indices [OF g(1)], of set_mset] by simp
  then have n: "i < length radii" "j < length radii" using assms by auto
  let ?E = "{(i, j). i < j \<and> j < length radii \<and> overlaps (radii ! i) (radii ! j)}"
  have "i \<noteq> j" using g(4) assms(5,6) by blast
  then have "(i, j) \<in> ?E \<or> (j, i) \<in> ?E" using o overlaps_sym [OF o] n by auto
  then have "(i, j) \<in> linked ?E"
    by (elim disjE) (rule linked_edge, assumption, rule linked_sym, rule linked_edge, assumption)
  then obtain e where e: "e \<in> set comps" "i \<in> set (snd e)" "j \<in> set (snd e)"
    using grouping_linked [OF g(1) n] by auto
  have "e = c" "e = d"
    using grouping_same [OF g(1) e(1) g(2) e(2) assms(5)] grouping_same [OF g(1) e(1) g(3) e(3) assms(6)] by auto
  then show False using g(4) assms(5) by blast
qed

lemma lanes_sorted:
  assumes "grouping_ok radii comps"
  shows "sorted_wrt lanes_apart (map (\<lambda>(_, idxs). lane_of radii idxs) comps)"
  unfolding sorted_wrt_map
proof (rule sorted_wrt_mono_rel)
  show "sorted_wrt (\<lambda>c d. set (snd c) \<inter> set (snd d) = {}) comps" using assms by (simp add: grouping_ok_def)
  fix c d assume cd: "c \<in> set comps" "d \<in> set comps" "set (snd c) \<inter> set (snd d) = {}"
  have "\<not> overlaps (radii ! i) (radii ! j)" if "i \<in> set (snd c)" "j \<in> set (snd d)" for i j
    by (rule grouping_apart [OF assms cd that])
  then have "lanes_apart (lane_of radii (snd c)) (lane_of radii (snd d))"
    unfolding lanes_apart_def lane_of_sets overlaps_def intersects_iff by blast
  then show "lanes_apart (case c of (_, idxs) \<Rightarrow> lane_of radii idxs) (case d of (_, idxs) \<Rightarrow> lane_of radii idxs)"
    by (simp add: case_prod_unfold)
qed

text \<open>The plan of a change set with at least one seed.\<close>

definition plan_from :: "seed_radius list \<Rightarrow> (nat \<times> nat list) list \<Rightarrow> planned_lane list" where
  "plan_from radii comps =
     js_sort (\<lambda>a b. cmp_lin (first_seed a) (first_seed b)) (map (\<lambda>(_, idxs). lane_of radii idxs) comps)"

lemma plan_shape:
  assumes "plan_seeds fts_top g symbols files = (seeds, unresolved, empties)" "radii_of lc g opts seeds [] = (radii, hubs)"
    and "seeds \<noteq> []"
  shows "\<exists>comps plan. grouping_ok radii comps \<and> planLanes fts_top lc g symbols files opts = Some (Inr plan)
    \<and> lp_lanes plan = plan_from radii comps \<and> sorted_wrt lanes_apart (lp_lanes plan)"
proof -
  obtain parent comps where c: "union_overlaps radii (index_pairs (length radii)) [0..<length radii] = Some parent"
    "collect_components [0..<length radii] parent [] = Some comps" "grouping_ok radii comps"
    using grouping_total by blast
  have s: "sorted_wrt lanes_apart (plan_from radii comps)"
    unfolding plan_from_def by (rule sorted_wrt_js_sort_sym [OF _ lanes_sorted [OF c(3)]]) (auto simp: lanes_apart_def)
  then have "assertDisjoint (plan_from radii comps) = None" by (rule assertDisjoint_None)
  then show ?thesis
    using c s assms unfolding planLanes_def plan_from_def by (cases "po_maxHubDegree opts") (auto simp: Let_def)
qed

lemma radii_of_seeds: "radii_of lc g opts seeds hubs = (radii, hubs') \<Longrightarrow> map sr_seed radii = seeds"
  by (induction seeds arbitrary: hubs radii hubs') (auto simp: Let_def radius_of_def split: prod.splits)

lemma mset_concat_js_sort: "mset (concat (map f (js_sort c xs))) = mset (concat (map f xs))"
  by (simp add: mset_concat) (metis mset_js_sort mset_map sum_mset_sum_list)

lemma mset_lane_seeds:
  "mset (concat (map pl_seeds (map (\<lambda>(_, idxs). lane_of radii idxs) cs))) = image_mset (\<lambda>i. sr_seed (radii ! i)) (mset (concat (map snd cs)))"
  by (induction cs) (auto simp: lane_of_sets)

lemma mset_plan_seeds:
  assumes "grouping_ok radii comps"
  shows "mset (concat (map pl_seeds (plan_from radii comps))) = mset (map sr_seed radii)"
proof -
  have "mset (concat (map pl_seeds (plan_from radii comps))) = image_mset (\<lambda>i. sr_seed (radii ! i)) (mset (concat (map snd comps)))"
    unfolding plan_from_def mset_concat_js_sort mset_lane_seeds ..
  also have "\<dots> = image_mset (\<lambda>i. sr_seed (radii ! i)) (mset [0..<length radii])"
    by (simp only: grouping_indices [OF assms])
  also have "\<dots> = mset (map sr_seed radii)"
    by (metis (no_types, lifting) map_nth mset_map comp_def map_map map_eq_conv)
  finally show ?thesis .
qed

text \<open>The radius of a seed, and that its lane holds all of it.\<close>

lemma add_hits_set:
  "set (fst (fold (add_hit g mh seed) hs (symbols, hubs))) =
    set symbols \<union> {ih_id h | h. h \<in> set hs \<and> (ih_id h = seed \<or> \<not> is_hub g mh (ih_id h))}"
  by (induction hs arbitrary: symbols hubs) (auto simp: add_hit_def)

lemma radius_of_seed [simp]: "sr_seed (fst (radius_of lc g opts seed h)) = seed"
  by (simp add: radius_of_def Let_def split_beta)

lemma radii_of_mem:
  "radii_of lc g opts seeds hubs = (radii, hubs') \<Longrightarrow> a \<in> set radii \<Longrightarrow> \<exists>h. a = fst (radius_of lc g opts (sr_seed a) h)"
proof (induction seeds arbitrary: hubs radii hubs')
  case Nil
  then show ?case by simp
next
  case (Cons seed seeds)
  obtain r h1 where r: "radius_of lc g opts seed hubs = (r, h1)" by fastforce
  obtain rs h2 where rs: "radii_of lc g opts seeds h1 = (rs, h2)" by fastforce
  have "radii = r # rs" using Cons.prems(1) r rs by simp
  moreover have "r = fst (radius_of lc g opts (sr_seed r) hubs)" using r radius_of_seed [of lc g opts seed hubs] by simp
  ultimately show ?case using Cons.IH [OF rs] Cons.prems(2) by auto
qed

lemma radii_of_symbols:
  assumes "radii_of lc g opts seeds hubs = (radii, hubs')" "a \<in> set radii" "maxDepth = (case po_maxDepth opts of None \<Rightarrow> int MAX_IMPACT_DEPTH | Some k \<Rightarrow> k)"
  shows "x \<in> set (sr_symbols a) \<longleftrightarrow> x = sr_seed a \<or> (\<exists>k. at_distance (depends g) (sr_seed a) x k
      \<and> k \<le> ir_depth (impactOf lc g (sr_seed a) maxDepth)) \<and> \<not> is_hub g (po_maxHubDegree opts) x"
proof -
  obtain h where h: "a = fst (radius_of lc g opts (sr_seed a) h)" using radii_of_mem [OF assms(1,2)] by blast
  have m: "(case po_maxDepth opts of None \<Rightarrow> int MAX_IMPACT_DEPTH | Some k \<Rightarrow> k) = maxDepth"
    by (simp add: assms(3))
  have "set (sr_symbols (fst (radius_of lc g opts seed h))) = insert seed {ih_id u | u. u \<in> set (ir_hits (impactOf lc g seed maxDepth))
      \<and> (ih_id u = seed \<or> \<not> is_hub g (po_maxHubDegree opts) (ih_id u))}" for seed
    by (simp add: radius_of_def Let_def m split_beta add_hits_set)
  from this [of "sr_seed a", folded h] have "set (sr_symbols a) = insert (sr_seed a) {ih_id u | u. u \<in> set (ir_hits (impactOf lc g (sr_seed a) maxDepth))
      \<and> (ih_id u = sr_seed a \<or> \<not> is_hub g (po_maxHubDegree opts) (ih_id u))}"
    .
  moreover have "(\<exists>u \<in> set (ir_hits (impactOf lc g (sr_seed a) maxDepth)). ih_id u = x) \<longleftrightarrow>
      x \<noteq> sr_seed a \<and> (\<exists>k. at_distance (depends g) (sr_seed a) x k \<and> k \<le> ir_depth (impactOf lc g (sr_seed a) maxDepth))"
    using hit_ids [of x "set (ir_hits (impactOf lc g (sr_seed a) maxDepth))"] impact_hits(1) [OF refl, of x _ lc g "sr_seed a" maxDepth]
    unfolding image_iff by metis
  ultimately show ?thesis by (auto 4 4)
qed

lemma plan_lane_mem:
  "l \<in> set (plan_from radii comps) \<longleftrightarrow> (\<exists>c \<in> set comps. l = lane_of radii (snd c))"
  by (auto simp: plan_from_def case_prod_unfold)

lemma plan_lane_ex: "(\<exists>l \<in> set (plan_from radii comps). P l) \<longleftrightarrow> (\<exists>c \<in> set comps. P (lane_of radii (snd c)))"
  by (auto simp: plan_from_def case_prod_unfold)

lemma nth_linked:
  assumes "distinct radii" "i < length radii" "j < length radii"
    and "R = {(a, b). a \<in> set radii \<and> b \<in> set radii \<and> overlaps a b}"
  shows "(i, j) \<in> linked {(i, j). i < j \<and> j < length radii \<and> overlaps (radii ! i) (radii ! j)} \<longleftrightarrow> (radii ! i, radii ! j) \<in> R\<^sup>*"
    (is "_ \<in> linked ?E \<longleftrightarrow> _")
proof
  assume "(i, j) \<in> linked ?E"
  then have "(i, j) \<in> (?E \<union> ?E\<inverse>)\<^sup>*" by (simp add: linked_def)
  then show "(radii ! i, radii ! j) \<in> R\<^sup>*"
  proof (induction rule: rtrancl_induct)
    case (step y z)
    then have "(radii ! y, radii ! z) \<in> R" unfolding assms(4) using overlaps_sym by auto
    with step.IH show ?case by simp
  qed simp
next
  assume "(radii ! i, radii ! j) \<in> R\<^sup>*"
  then have "\<exists>k < length radii. radii ! k = radii ! j \<and> (i, k) \<in> linked ?E"
  proof (induction rule: rtrancl_induct)
    case base
    then show ?case using assms(2) by (auto simp: linked_def)
  next
    case (step b c)
    obtain k m where k: "k < length radii" "radii ! k = b" "(i, k) \<in> linked ?E" and m: "m < length radii" "radii ! m = c"
      using step unfolding assms(4) by (auto simp: in_set_conv_nth)
    have "(k, m) \<in> linked ?E"
    proof (cases "k = m")
      case False
      then have "(k, m) \<in> ?E \<or> (m, k) \<in> ?E" using step.hyps(2) k m overlaps_sym unfolding assms(4) by auto
      then show ?thesis by (elim disjE) (rule linked_edge, assumption, rule linked_sym, rule linked_edge, assumption)
    qed (simp add: linked_def)
    with k m show ?case by (blast intro: linked_trans)
  qed
  then show "(i, j) \<in> linked ?E" using assms(1,3) by (auto simp: nth_eq_iff_index_eq)
qed

lemma distinct_seeds:
  assumes "plan_seeds fts_top g symbols files = (seeds, unresolved, empties)"
  shows "distinct seeds"
proof -
  have "distinct (fst (fold (seed_symbol fts_top g) xs (ids, n)))" if "distinct ids" for xs ids n
    using that by (induction xs arbitrary: ids n) (auto simp: seed_symbol_def split: option.splits)
  moreover have "distinct (fst (fold (seed_file g) xs (ids, n)))" if "distinct ids" for xs ids n
    using that by (induction xs arbitrary: ids n) (auto simp: seed_file_def)
  ultimately show ?thesis
    using assms by (auto simp: plan_seeds_def Let_def split_beta)
qed

lemma in_lane_iff:
  assumes "grouping_ok radii comps" "distinct (map sr_seed radii)" "c \<in> set comps" "i < length radii"
  shows "sr_seed (radii ! i) \<in> set (pl_seeds (lane_of radii (snd c))) \<longleftrightarrow> i \<in> set (snd c)"
proof -
  have "set (concat (map snd comps)) = {0..<length radii}"
    using arg_cong [OF grouping_indices [OF assms(1)], of set_mset] by simp
  then have n: "\<forall>j \<in> set (snd c). j < length radii" using assms(3) by auto
  have "set (pl_seeds (lane_of radii (snd c))) = (\<lambda>i. sr_seed (radii ! i)) ` set (snd c)"
    using arg_cong [OF lane_of_sets(3), of set_mset radii "snd c"] by simp
  moreover have "sr_seed (radii ! i) = sr_seed (radii ! j) \<longleftrightarrow> i = j" if "j < length radii" for j
    using assms(2,4) that nth_eq_iff_index_eq [of "map sr_seed radii" i j] by simp
  ultimately show ?thesis using n by auto
qed

subsection \<open>Properties\<close>

text \<open>C12: Planning always returns a plan: every \<open>find\<close> of the union-find forest terminates although
  paths are rewritten under way, the defensive check never throws, no two lanes share a symbol
  or a file, and the seeds of the lanes are exactly the resolved seeds, each in one lane.\<close>

theorem lanes_are_safe:
  "\<exists>plan. planLanes fts_top lc g symbols files opts = Some (Inr plan)
    \<and> sorted_wrt (\<lambda>a b. set (pl_symbols a) \<inter> set (pl_symbols b) = {} \<and> set (pl_files a) \<inter> set (pl_files b) = {}) (lp_lanes plan)
    \<and> mset (concat (map pl_seeds (lp_lanes plan))) = mset (fst (plan_seeds fts_top g symbols files))"
proof -
  obtain seeds u e where s: "plan_seeds fts_top g symbols files = (seeds, u, e)" by (metis prod_cases3)
  show ?thesis
  proof (cases "seeds = []")
    case True
    with s show ?thesis by (simp add: planLanes_def Let_def)
  next
    case False
    obtain radii hubs where r: "radii_of lc g opts seeds [] = (radii, hubs)" by fastforce
    obtain comps plan where p: "grouping_ok radii comps" "planLanes fts_top lc g symbols files opts = Some (Inr plan)"
      "lp_lanes plan = plan_from radii comps" "sorted_wrt lanes_apart (lp_lanes plan)"
      using plan_shape [OF s r False] by blast
    have "mset (concat (map pl_seeds (lp_lanes plan))) = mset seeds"
      unfolding p(3) mset_plan_seeds [OF p(1)] radii_of_seeds [OF r] ..
    moreover have "lanes_apart = (\<lambda>a b. set (pl_symbols a) \<inter> set (pl_symbols b) = {} \<and> set (pl_files a) \<inter> set (pl_files b) = {})"
      by (simp add: lanes_apart_def fun_eq_iff)
    ultimately show ?thesis using p(2,4) s by auto
  qed
qed

text \<open>C25: Lanes are as large as safety requires and no larger: two seeds share a lane exactly when a
  chain of seeds with overlapping radii connects them; a lane holds the whole radius of each of
  its seeds; and the radius of a seed is the seed with everything that depends on it within the
  depth cap, except the hubs.\<close>

theorem lanes_are_minimal:
  assumes "planLanes fts_top lc g symbols files opts = Some (Inr plan)"
    and "radii_of lc g opts (fst (plan_seeds fts_top g symbols files)) [] = (radii, hubs)"
    and "a \<in> set radii" "b \<in> set radii" "R = {(a, b). a \<in> set radii \<and> b \<in> set radii \<and> overlaps a b}"
    and "maxDepth = (case po_maxDepth opts of None \<Rightarrow> int MAX_IMPACT_DEPTH | Some k \<Rightarrow> k)"
  shows "((\<exists>l \<in> set (lp_lanes plan). sr_seed a \<in> set (pl_seeds l) \<and> sr_seed b \<in> set (pl_seeds l)) \<longleftrightarrow> (a, b) \<in> R\<^sup>*)
    \<and> (\<forall>l \<in> set (lp_lanes plan). sr_seed a \<in> set (pl_seeds l) \<longrightarrow> set (sr_symbols a) \<subseteq> set (pl_symbols l))
    \<and> (x \<in> set (sr_symbols a) \<longleftrightarrow> x = sr_seed a \<or> (\<exists>k. at_distance (depends g) (sr_seed a) x k
         \<and> k \<le> ir_depth (impactOf lc g (sr_seed a) maxDepth)) \<and> \<not> is_hub g (po_maxHubDegree opts) x)"
proof -
  obtain seeds u e where s: "plan_seeds fts_top g symbols files = (seeds, u, e)" by (metis prod_cases3)
  have r: "radii_of lc g opts seeds [] = (radii, hubs)" using assms(2) s by simp
  have ds: "distinct (map sr_seed radii)" using distinct_seeds [OF s] radii_of_seeds [OF r] by simp
  have dr: "distinct radii" using ds by (simp add: distinct_map)
  have "seeds \<noteq> []" using assms(3) r by auto
  then obtain comps where p: "grouping_ok radii comps" "lp_lanes plan = plan_from radii comps"
    using plan_shape [OF s r] assms(1) by auto
  obtain i j where ij: "i < length radii" "radii ! i = a" "j < length radii" "radii ! j = b"
    using assms(3,4) by (auto simp: in_set_conv_nth)
  note mem = in_lane_iff [OF p(1) ds]
  have "(\<exists>l \<in> set (lp_lanes plan). sr_seed a \<in> set (pl_seeds l) \<and> sr_seed b \<in> set (pl_seeds l)) \<longleftrightarrow>
      (\<exists>c \<in> set comps. i \<in> set (snd c) \<and> j \<in> set (snd c))"
    unfolding p(2) plan_lane_ex using mem [OF _ ij(1)] mem [OF _ ij(3)] ij(2,4) by (intro bex_cong) auto
  also have "\<dots> \<longleftrightarrow> (a, b) \<in> R\<^sup>*"
    unfolding grouping_linked [OF p(1) ij(1,3)] nth_linked [OF dr ij(1,3) assms(5)] ij ..
  finally have 1: "(\<exists>l \<in> set (lp_lanes plan). sr_seed a \<in> set (pl_seeds l) \<and> sr_seed b \<in> set (pl_seeds l)) \<longleftrightarrow> (a, b) \<in> R\<^sup>*" .
  have "set (sr_symbols a) \<subseteq> set (pl_symbols l)" if l: "l \<in> set (lp_lanes plan)" "sr_seed a \<in> set (pl_seeds l)" for l
  proof -
    obtain c where c: "c \<in> set comps" "l = lane_of radii (snd c)" using l(1) unfolding p(2) plan_lane_mem by blast
    with l(2) mem [OF c(1) ij(1)] ij(2) have "i \<in> set (snd c)" by simp
    with ij(2) show ?thesis by (auto simp: c(2) lane_of_sets)
  qed
  then show ?thesis using 1 radii_of_symbols [OF r assms(3,6)] by blast
qed

definition sample_radius :: seed_radius where
  "sample_radius = fst (radius_of (\<lambda>_ _. 0) sample_db \<lparr>po_maxDepth = None, po_maxHubDegree = None\<rparr> ''a'' [])"

theorem lanes_are_minimal_witness:
  "''a'' \<in> set (sr_symbols sample_radius)"
proof -
  let ?o = "\<lparr>po_maxDepth = None, po_maxHubDegree = None\<rparr>"
  have "getNode ''a'' sample_db \<noteq> None"
    by (simp add: getNode_def sample_db_def upsertNodes_def upsertNode_def sample_node_def node_params_def db_new_def
        upsertEdges_def upsertEdge_def sql_insert_node_def Let_def)
  then have s: "plan_seeds (\<lambda>_. None) sample_db [''a''] [] = ([''a''], 0, 0)"
    by (simp add: plan_seeds_def seed_symbol_def resolveNodeId_def set_add_def)
  obtain plan where p: "planLanes (\<lambda>_. None) (\<lambda>_ _. 0) sample_db [''a''] [] ?o = Some (Inr plan)"
    using lanes_are_safe by blast
  have "radii_of (\<lambda>_ _. 0) sample_db ?o (fst (plan_seeds (\<lambda>_. None) sample_db [''a''] [])) [] =
      ([sample_radius], snd (radius_of (\<lambda>_ _. 0) sample_db ?o ''a'' []))"
    by (simp add: s sample_radius_def Let_def split_beta)
  from lanes_are_minimal [OF p this _ _ refl refl, of sample_radius sample_radius "''a''"]
  show ?thesis by (simp add: sample_radius_def)
qed

end
