(* ===== verification/Adjacency.thy ===== *)
theory Adjacency
  imports GraphDb
begin

text \<open>
  Overlap and adjacency of claim scopes, \<open>src/daemon/src/conflict/adjacency.ts\<close>: pure functions
  of the active claims and of a neighbour lookup, which the claim routes instantiate with the
  edges of the index. Shown here: adjacency by edge is exactly an edge of the index between the
  scopes, in whichever direction and whichever scope comes first, and the three gates are nested
  as documented.
\<close>

record claim_like =
  cl_id :: string
  cl_scope :: "string list"

type_synonym neighbor_lookup = "string \<Rightarrow> string list"

definition scope_intersects :: "string list \<Rightarrow> string list \<Rightarrow> string list" where
  "scope_intersects a b = filter (\<lambda>x. x \<in> set a) b"

text \<open>\<open>lastIndexOf('/')\<close> above 0, and what precedes it.\<close>

definition modulePrefix :: "string \<Rightarrow> string option" where
  "modulePrefix i =
     (let r = dropWhile (\<lambda>c. c \<noteq> CHR ''/'') (rev i) in if length r \<le> 1 then None else Some (rev (tl r)))"

definition modulePrefixes :: "string list \<Rightarrow> string list" where
  "modulePrefixes scope = fold (\<lambda>i out. case modulePrefix i of None \<Rightarrow> out | Some p \<Rightarrow> set_add p out) scope []"

fun findOverlap :: "string list \<Rightarrow> claim_like list \<Rightarrow> (claim_like \<times> string list) option" where
  "findOverlap incomingScope [] = None"
| "findOverlap incomingScope (c # active) =
     (let shared = scope_intersects incomingScope (cl_scope c)
      in if shared \<noteq> [] then Some (c, shared) else findOverlap incomingScope active)"

definition edgeAdjacency :: "string list \<Rightarrow> string list \<Rightarrow> neighbor_lookup \<Rightarrow> bool" where
  "edgeAdjacency scopeA scopeB neighbors \<longleftrightarrow>
     list_ex (\<lambda>a. list_ex (\<lambda>n. n \<in> set scopeB) (neighbors a)) scopeA
     \<or> list_ex (\<lambda>b. list_ex (\<lambda>n. n \<in> set scopeA) (neighbors b)) scopeB"

definition scopeNeighbors :: "string list \<Rightarrow> neighbor_lookup \<Rightarrow> string list" where
  "scopeNeighbors scope neighbors =
     fold (\<lambda>i. fold (\<lambda>n out. if n \<in> set scope then out else set_add n out) (neighbors i)) scope []"

definition scopesGraphConnected :: "string list \<Rightarrow> string list \<Rightarrow> neighbor_lookup \<Rightarrow> bool" where
  "scopesGraphConnected scopeA scopeB neighbors \<longleftrightarrow>
     (if edgeAdjacency scopeA scopeB neighbors then True
      else let aNeighbors = scopeNeighbors scopeA neighbors
           in aNeighbors \<noteq> [] \<and> list_ex (\<lambda>n. n \<in> set aNeighbors) (scopeNeighbors scopeB neighbors))"

definition shareModulePrefix :: "string list \<Rightarrow> string list \<Rightarrow> bool" where
  "shareModulePrefix scopeA scopeB \<longleftrightarrow>
     (let aPrefixes = modulePrefixes scopeA
      in aPrefixes \<noteq> [] \<and> list_ex (\<lambda>p. p \<in> set aPrefixes) (modulePrefixes scopeB))"

definition isAdjacent :: "string list \<Rightarrow> string list \<Rightarrow> neighbor_lookup \<Rightarrow> bool" where
  "isAdjacent scopeA scopeB neighbors \<longleftrightarrow>
     (if edgeAdjacency scopeA scopeB neighbors then True else shareModulePrefix scopeA scopeB)"

datatype adjacency_gate = GateModuleEdge | GateEdge | GateGraph

definition gatePredicate :: "adjacency_gate \<Rightarrow> neighbor_lookup \<Rightarrow> string list \<Rightarrow> string list \<Rightarrow> bool" where
  "gatePredicate gate neighbors a b =
     (case gate of
        GateEdge \<Rightarrow> edgeAdjacency a b neighbors
      | GateGraph \<Rightarrow> scopesGraphConnected a b neighbors
      | GateModuleEdge \<Rightarrow> isAdjacent a b neighbors)"

definition findAdjacent :: "string list \<Rightarrow> claim_like list \<Rightarrow> neighbor_lookup \<Rightarrow> adjacency_gate \<Rightarrow> claim_like list" where
  "findAdjacent incomingScope active neighbors gate =
     filter (\<lambda>c. gatePredicate gate neighbors incomingScope (cl_scope c)) active"

definition suggestScope :: "string list \<Rightarrow> neighbor_lookup \<Rightarrow> string list \<times> string list" where
  "suggestScope scope neighbors = (scope, scopeNeighbors scope neighbors)"

text \<open>The lookup of \<open>routes/claims.ts\<close>: targets of outgoing edges, then sources of incoming ones.\<close>

definition db_neighbors :: "db \<Rightarrow> neighbor_lookup" where
  "db_neighbors d i = map er_dst (outgoing i d) @ map er_src (incoming i d)"

subsection \<open>As sets\<close>

lemma scope_intersects_empty: "scope_intersects a b = [] \<longleftrightarrow> set a \<inter> set b = {}"
  by (auto simp: scope_intersects_def filter_empty_conv)

lemma findOverlap_None: "findOverlap s cs = None \<longleftrightarrow> (\<forall>c \<in> set cs. set s \<inter> set (cl_scope c) = {})"
  by (induction cs) (auto simp: Let_def scope_intersects_empty)

lemma findOverlap_Some:
  "findOverlap s cs = Some (c, es) \<Longrightarrow> c \<in> set cs \<and> es \<noteq> [] \<and> set es = set s \<inter> set (cl_scope c)"
  by (induction cs) (auto simp: Let_def scope_intersects_def split: if_splits)

lemma set_scopeNeighbors: "set (scopeNeighbors scope nb) = (\<Union>i \<in> set scope. set (nb i)) - set scope"
proof -
  have inner: "set (fold (\<lambda>n out. if n \<in> set scope then out else set_add n out) ns out) = set out \<union> (set ns - set scope)" for ns out
    by (induction ns arbitrary: out) auto
  have "set (fold (\<lambda>i. fold (\<lambda>n out. if n \<in> set scope then out else set_add n out) (nb i)) xs out)
      = set out \<union> ((\<Union>i \<in> set xs. set (nb i)) - set scope)" for xs out
    by (induction xs arbitrary: out) (auto simp: inner)
  then show ?thesis by (simp add: scopeNeighbors_def)
qed

lemma set_modulePrefixes: "set (modulePrefixes scope) = {p. \<exists>i \<in> set scope. modulePrefix i = Some p}"
proof -
  have "set (fold (\<lambda>i out. case modulePrefix i of None \<Rightarrow> out | Some p \<Rightarrow> set_add p out) xs out)
      = set out \<union> {p. \<exists>i \<in> set xs. modulePrefix i = Some p}" for xs out
    by (induction xs arbitrary: out) (auto split: option.splits)
  then show ?thesis by (simp add: modulePrefixes_def)
qed

lemma edgeAdjacency_iff:
  "edgeAdjacency a b nb \<longleftrightarrow> (\<exists>x \<in> set a. \<exists>y \<in> set b. y \<in> set (nb x) \<or> x \<in> set (nb y))"
  by (auto simp: edgeAdjacency_def list_ex_iff)

lemma scopesGraphConnected_iff:
  "scopesGraphConnected a b nb \<longleftrightarrow> edgeAdjacency a b nb \<or> set (scopeNeighbors a nb) \<inter> set (scopeNeighbors b nb) \<noteq> {}"
  by (auto simp: scopesGraphConnected_def list_ex_iff Let_def)

lemma isAdjacent_iff:
  "isAdjacent a b nb \<longleftrightarrow> edgeAdjacency a b nb \<or> (\<exists>x \<in> set a. \<exists>y \<in> set b. modulePrefix x \<noteq> None \<and> modulePrefix x = modulePrefix y)"
proof -
  have "shareModulePrefix a b \<longleftrightarrow> set (modulePrefixes a) \<inter> set (modulePrefixes b) \<noteq> {}"
    by (auto simp: shareModulePrefix_def list_ex_iff Let_def)
  also have "\<dots> \<longleftrightarrow> (\<exists>x \<in> set a. \<exists>y \<in> set b. modulePrefix x \<noteq> None \<and> modulePrefix x = modulePrefix y)"
    unfolding set_modulePrefixes by (auto 4 4)
  finally show ?thesis by (simp add: isAdjacent_def)
qed

lemma db_neighbors_sym: "y \<in> set (db_neighbors d x) \<longleftrightarrow> x \<in> set (db_neighbors d y)"
  by (auto simp: db_neighbors_def outgoing_def incoming_def)

lemma db_neighbors_iff:
  "y \<in> set (db_neighbors d x) \<longleftrightarrow> (\<exists>e \<in> set (edges_t d). {er_src e, er_dst e} = {x, y})"
  by (auto simp: db_neighbors_def outgoing_def incoming_def doubleton_eq_iff image_iff)

lemma gate_sym: "gatePredicate g (db_neighbors d) a b \<longleftrightarrow> gatePredicate g (db_neighbors d) b a"
proof -
  have e: "edgeAdjacency a b nb = edgeAdjacency b a nb" for nb by (auto simp: edgeAdjacency_def)
  have m: "isAdjacent a b nb = isAdjacent b a nb" for nb
    unfolding isAdjacent_iff e by (metis (no_types, lifting))
  have g: "scopesGraphConnected a b nb = scopesGraphConnected b a nb" for nb
    unfolding scopesGraphConnected_iff e by (simp add: Int_commute)
  show ?thesis unfolding gatePredicate_def by (cases g) (simp_all add: e m g)
qed

subsection \<open>Properties\<close>

text \<open>The adjacency gates mean what they say on the index: under \<open>edge\<close> two scopes are adjacent
  exactly when some edge joins an entity of one to an entity of the other; every gate is
  symmetric in the two scopes; what passes \<open>edge\<close> passes \<open>graph\<close> and \<open>module+edge\<close>; and
  \<open>findOverlap\<close> finds nothing exactly when the scope is disjoint from that of every active claim.\<close>

theorem gates_exact:
  "(gatePredicate GateEdge (db_neighbors d) a b \<longleftrightarrow> (\<exists>e. e \<in> set (edges_t d) \<and> (\<exists>x y. x \<in> set a \<and> y \<in> set b \<and> {er_src e, er_dst e} = {x, y})))
    \<and> gatePredicate g (db_neighbors d) a b = gatePredicate g (db_neighbors d) b a
    \<and> gatePredicate GateEdge (db_neighbors d) a b \<le> gatePredicate g (db_neighbors d) a b
    \<and> (findOverlap a cs = None) = ((\<Union>c \<in> set cs. set (cl_scope c)) \<inter> set a = {})"
proof -
  have "edgeAdjacency a b (db_neighbors d) \<longleftrightarrow> (\<exists>x \<in> set a. \<exists>y \<in> set b. y \<in> set (db_neighbors d x))"
    unfolding edgeAdjacency_iff using db_neighbors_sym by blast
  then have "gatePredicate GateEdge (db_neighbors d) a b \<longleftrightarrow> (\<exists>e. e \<in> set (edges_t d) \<and> (\<exists>x y. x \<in> set a \<and> y \<in> set b \<and> {er_src e, er_dst e} = {x, y}))"
    unfolding gatePredicate_def db_neighbors_iff by auto
  moreover have "gatePredicate GateEdge (db_neighbors d) a b \<le> gatePredicate g (db_neighbors d) a b"
    by (cases g) (simp_all add: gatePredicate_def scopesGraphConnected_iff isAdjacent_iff)
  ultimately show ?thesis using gate_sym findOverlap_None by (auto simp: Int_commute)
qed

end
