(* ===== verification/Text.thy ===== *)
theory Text
  imports Prelude "HOL-Library.Sublist"
begin

text \<open>
  What the code uses of JavaScript's string methods: \<open>split\<close>, \<open>trim\<close>, \<open>includes\<close>, and
  \<open>slice\<close> at \<open>lastIndexOf\<close>. Names are trimmed of ASCII white space. Shown here: the two slices
  at the last separator put the string back together, and the second holds no separator.
\<close>

fun split_on :: "(char \<Rightarrow> bool) \<Rightarrow> string \<Rightarrow> string list" where
  "split_on sep [] = [[]]"
| "split_on sep (c # s) =
     (if sep c then [] # split_on sep s
      else case split_on sep s of [] \<Rightarrow> [[c]] | w # ws \<Rightarrow> (c # w) # ws)"

definition ascii_space :: "char \<Rightarrow> bool" where
  "ascii_space c \<longleftrightarrow> (of_char c :: nat) \<in> {9, 10, 11, 12, 13, 32}"

definition trim :: "string \<Rightarrow> string" where
  "trim s = rev (dropWhile ascii_space (rev (dropWhile ascii_space s)))"

fun js_includes :: "string \<Rightarrow> string \<Rightarrow> bool" where
  "js_includes [] t \<longleftrightarrow> t = []"
| "js_includes (c # s) t \<longleftrightarrow> prefix t (c # s) \<or> js_includes s t"

text \<open>\<open>toLowerCase\<close>, of ASCII letters.\<close>

definition lower :: "char \<Rightarrow> char" where
  "lower c = (let n = of_char c :: nat in if 65 \<le> n \<and> n \<le> 90 then char_of (n + 32) else c)"

text \<open>\<open>s.slice(s.lastIndexOf(c) + 1)\<close> and \<open>s.slice(0, s.lastIndexOf(c))\<close>, the latter where \<open>c\<close> occurs.\<close>

definition afterLast :: "char \<Rightarrow> string \<Rightarrow> string" where
  "afterLast c s = rev (takeWhile (\<lambda>x. x \<noteq> c) (rev s))"

definition beforeLast :: "char \<Rightarrow> string \<Rightarrow> string" where
  "beforeLast c s = rev (tl (dropWhile (\<lambda>x. x \<noteq> c) (rev s)))"

definition joined :: "char \<Rightarrow> string list \<Rightarrow> string" where
  "joined c ws = (case ws of [] \<Rightarrow> [] | w # us \<Rightarrow> w @ concat (map (\<lambda>u. c # u) us))"

lemma includes_iff: "js_includes s t \<longleftrightarrow> (\<exists>us vs. s = us @ t @ vs)"
proof (induction s)
  case Nil
  then show ?case by auto
next
  case (Cons c s)
  show ?case
  proof
    assume "js_includes (c # s) t"
    then consider "prefix t (c # s)" | "js_includes s t" by auto
    then show "\<exists>us vs. c # s = us @ t @ vs"
    proof cases
      case 1
      then show ?thesis by (metis append_Nil prefix_def)
    next
      case 2
      then obtain us vs where "s = us @ t @ vs" using Cons.IH by blast
      then show ?thesis by (metis append_Cons)
    qed
  next
    assume "\<exists>us vs. c # s = us @ t @ vs"
    then obtain us vs where s: "c # s = us @ t @ vs" by blast
    show "js_includes (c # s) t"
    proof (cases us)
      case Nil
      with s have "prefix t (c # s)" by simp
      then show ?thesis by simp
    next
      case (Cons u us')
      with s have "\<exists>us vs. s = us @ t @ vs" by auto
      then show ?thesis using Cons.IH by simp
    qed
  qed
qed

lemma takeWhile_neq: "c \<notin> set t \<Longrightarrow> takeWhile (\<lambda>x. x \<noteq> c) (t @ c # s) = t"
  by (induction t) auto

lemma dropWhile_neq: "c \<notin> set t \<Longrightarrow> dropWhile (\<lambda>x. x \<noteq> c) (t @ c # s) = c # s"
  by (induction t) auto

lemma takeWhile_neq_all: "c \<notin> set t \<Longrightarrow> takeWhile (\<lambda>x. x \<noteq> c) t = t"
  by (induction t) auto

lemma afterLast_absent [simp]: "c \<notin> set (afterLast c s)"
  by (auto simp: afterLast_def dest: set_takeWhileD)

lemma afterLast_bare [simp]: "c \<notin> set s \<Longrightarrow> afterLast c s = s"
  by (simp add: afterLast_def takeWhile_neq_all)

lemma afterLast_append [simp]: "c \<notin> set t \<Longrightarrow> afterLast c (s @ c # t) = t"
  using takeWhile_neq [of c "rev t" "rev s"] by (simp add: afterLast_def)

lemma beforeLast_append [simp]: "c \<notin> set t \<Longrightarrow> beforeLast c (s @ c # t) = s"
  using dropWhile_neq [of c "rev t" "rev s"] by (simp add: beforeLast_def)

lemma split_at_last:
  assumes "c \<in> set s"
  shows "s = beforeLast c s @ c # afterLast c s"
proof -
  obtain us vs where s: "s = us @ c # vs" "c \<notin> set vs" using split_list_last [OF assms] by blast
  then show ?thesis by (simp only: s(1) afterLast_append [OF s(2)] beforeLast_append [OF s(2)])
qed

subsection \<open>Splitting and joining\<close>

lemma split_on_parts: "\<forall>p \<in> set (split_on sep s). \<forall>c \<in> set p. \<not> sep c"
  by (induction s) (auto split: list.splits)

lemma split_on_bare: "(\<And>c. c \<in> set s \<Longrightarrow> \<not> sep c) \<Longrightarrow> split_on sep s = [s]"
  by (induction s) auto

lemma split_on_append: "sep c \<Longrightarrow> (\<And>x. x \<in> set s \<Longrightarrow> \<not> sep x) \<Longrightarrow> split_on sep (s @ c # t) = s # split_on sep t"
  by (induction s) auto

lemma joined_Cons: "us \<noteq> [] \<Longrightarrow> joined c (w # us) = w @ c # joined c us"
  by (cases us) (simp_all add: joined_def)

lemma split_joined:
  "ws \<noteq> [] \<Longrightarrow> (\<And>w. w \<in> set ws \<Longrightarrow> c \<notin> set w) \<Longrightarrow> split_on (\<lambda>x. x = c) (joined c ws) = ws"
proof (induction ws)
  case Nil
  then show ?case by simp
next
  case (Cons w us)
  show ?case
  proof (cases "us = []")
    case True
    with Cons.prems show ?thesis by (auto simp: joined_def intro!: split_on_bare)
  next
    case False
    have "split_on (\<lambda>x. x = c) (w @ c # joined c us) = w # split_on (\<lambda>x. x = c) (joined c us)"
      by (rule split_on_append) (use Cons.prems in auto)
    with Cons False show ?thesis by (simp add: joined_Cons)
  qed
qed

lemma joined_inject:
  assumes "ws \<noteq> []" "us \<noteq> []" "\<And>w. w \<in> set ws \<union> set us \<Longrightarrow> c \<notin> set w"
  shows "joined c ws = joined c us \<longleftrightarrow> ws = us"
  using split_joined [of ws c] split_joined [of us c] assms by (metis UnCI)

lemma joined_append: "ws \<noteq> [] \<Longrightarrow> us \<noteq> [] \<Longrightarrow> joined c (ws @ us) = joined c ws @ c # joined c us"
proof (induction ws)
  case Nil
  then show ?case by simp
next
  case (Cons w ws)
  then show ?case by (cases "ws = []") (simp_all add: joined_Cons, simp add: joined_def)
qed

lemma joined_empty: "joined c ws = [] \<longleftrightarrow> ws = [] \<or> ws = [[]]"
  by (cases ws) (auto simp: joined_def)

end
