(* ===== verification/Oracle.thy ===== *)
theory Oracle
  imports Bytes Text
begin

text \<open>
  The conflict oracles behind the claim board, \<open>src/daemon/src/conflict/oracle.ts\<close>: the two
  deterministic ones and the selection among all. Text is its UTF-8 bytes, of which
  \<open>toLowerCase\<close> changes the ASCII letters only; confidences are in tenths. The model-backed and
  the contract-diff oracle are other components; here they are only selected. What a caller may
  expect of any oracle is the locale \<open>conflict_oracle\<close>.
\<close>

record claim_context =
  cc_scope :: "string list"
  cc_intent :: string
  cc_neighbors :: "string list"

record conflict_verdict =
  cv_conflict :: bool
  cv_reason :: string
  cv_confidence :: int
  cv_oracle :: string

text \<open>The contract: a verdict names its oracle, and is confident exactly when it is a conflict.\<close>

locale conflict_oracle =
  fixes assess :: "claim_context \<Rightarrow> claim_context \<Rightarrow> conflict_verdict" and oid :: string
  assumes provenance: "cv_oracle (assess i a) = oid"
    and band: "0 \<le> cv_confidence (assess i a) \<and> cv_confidence (assess i a) \<le> 10"
    and confident: "0 < cv_confidence (assess i a) \<longleftrightarrow> cv_conflict (assess i a)"
begin

lemma no_conflict_zero: "\<not> cv_conflict (assess i a) \<Longrightarrow> cv_confidence (assess i a) = 0"
  using band [of i a] confident [of i a] by auto

lemma conflicts_named: "v \<in> set (filter cv_conflict (map (\<lambda>a. assess i a) as)) \<Longrightarrow> cv_oracle v = oid \<and> 0 < cv_confidence v"
  using provenance confident by auto

end

subsection \<open>Tokens\<close>

definition STOPWORDS :: "string list" where
  "STOPWORDS =
     [''the'', ''and'', ''for'', ''with'', ''add'', ''adding'', ''fix'', ''fixing'', ''update'',
      ''updating'', ''refactor'', ''refactoring'', ''into'', ''from'', ''this'', ''that'',
      ''make'', ''use'', ''using'', ''support'', ''handle'', ''handling'', ''new'', ''old'',
      ''via'', ''onto'', ''over'', ''under'', ''when'', ''while'', ''then'', ''than'', ''also'']"

definition MIN_TOKEN_LEN :: nat where "MIN_TOKEN_LEN = 3"

definition token_char :: "char \<Rightarrow> bool" where
  "token_char c = (let n = of_char c :: nat in (97 \<le> n \<and> n \<le> 122) \<or> (48 \<le> n \<and> n \<le> 57))"

text \<open>\<open>split(/[^a-z0-9]+/)\<close>; an empty first or last piece is dropped with the short tokens.\<close>

function split_tokens :: "string \<Rightarrow> string \<Rightarrow> string list" where
  "split_tokens cur [] = [cur]"
| "split_tokens cur (c # s) =
     (if token_char c then split_tokens (cur @ [c]) s
      else cur # split_tokens [] (dropWhile (\<lambda>c. \<not> token_char c) s))"
  by pat_completeness auto
termination by (relation "measure (length \<circ> snd)") (auto simp: le_imp_less_Suc length_dropWhile_le)

definition tokenize :: "string \<Rightarrow> string list" where
  "tokenize t =
     fold (\<lambda>raw out. if length raw < MIN_TOKEN_LEN then out else if raw \<in> set STOPWORDS then out else set_add raw out)
       (split_tokens [] (map lower t)) []"

definition tokenizeAll :: "string list \<Rightarrow> string list" where
  "tokenizeAll parts = fold (\<lambda>p. fold set_add (tokenize p)) parts []"

subsection \<open>The deterministic oracles\<close>

definition sharesNeighbor :: "claim_context \<Rightarrow> claim_context \<Rightarrow> bool" where
  "sharesNeighbor incoming adjacent \<longleftrightarrow>
     list_ex (\<lambda>n. n \<in> set (cc_scope adjacent)) (cc_neighbors incoming)
     \<or> list_ex (\<lambda>n. n \<in> set (cc_scope incoming)) (cc_neighbors adjacent)
     \<or> list_ex (\<lambda>n. n \<in> set (cc_neighbors incoming)) (cc_neighbors adjacent)"

definition countSharedTokens :: "string list \<Rightarrow> string list \<Rightarrow> nat" where
  "countSharedTokens a b = length (filter (\<lambda>t. t \<in> set b) a)"

definition HEURISTIC_ID :: string where "HEURISTIC_ID = ''heuristic-v1''"

definition heuristic_assess :: "claim_context \<Rightarrow> claim_context \<Rightarrow> conflict_verdict" where
  "heuristic_assess incoming adjacent =
     (if \<not> sharesNeighbor incoming adjacent
      then \<lparr>cv_conflict = False,
             cv_reason = ''Scopes are adjacent by module prefix only and share no graph neighbor.'',
             cv_confidence = 0, cv_oracle = HEURISTIC_ID\<rparr>
      else let incSurface = tokenizeAll (cc_intent incoming # cc_scope incoming);
               adjSurface = tokenizeAll (cc_intent adjacent # cc_scope adjacent @ cc_neighbors adjacent);
               shared = countSharedTokens incSurface adjSurface
           in if shared = 0
              then \<lparr>cv_conflict = False,
                     cv_reason = ''Scopes share a graph neighbor but their intents and scopes use no common identifiers.'',
                     cv_confidence = 0, cv_oracle = HEURISTIC_ID\<rparr>
              else \<lparr>cv_conflict = True,
                     cv_reason = ''Scopes share a graph neighbor and '' @ nat_dec shared @ '' overlapping identifier ''
                       @ ''token'' @ (if shared = 1 then [] else ''s'')
                       @ '', so the two work-scopes likely touch the same surface.'',
                     cv_confidence = (if 2 \<le> shared then 8 else 5), cv_oracle = HEURISTIC_ID\<rparr>)"

definition directEdge :: "claim_context \<Rightarrow> claim_context \<Rightarrow> bool" where
  "directEdge a b \<longleftrightarrow>
     list_ex (\<lambda>n. n \<in> set (cc_scope b)) (cc_neighbors a) \<or> list_ex (\<lambda>n. n \<in> set (cc_scope a)) (cc_neighbors b)"

definition GRAPH_ADJACENCY_ORACLE_ID :: string where "GRAPH_ADJACENCY_ORACLE_ID = ''graph-adjacency''"

definition graph_adjacency_assess :: "claim_context \<Rightarrow> claim_context \<Rightarrow> conflict_verdict" where
  "graph_adjacency_assess incoming adjacent =
     (if directEdge incoming adjacent
      then \<lparr>cv_conflict = True,
             cv_reason = ''A resolved call/import edge directly couples the two scopes, so a '' @ ''contract change on one can break the other.'',
             cv_confidence = 7, cv_oracle = GRAPH_ADJACENCY_ORACLE_ID\<rparr>
      else \<lparr>cv_conflict = False, cv_reason = ''No direct call/import edge couples the two scopes.'',
             cv_confidence = 0, cv_oracle = GRAPH_ADJACENCY_ORACLE_ID\<rparr>)"

interpretation heuristic: conflict_oracle heuristic_assess HEURISTIC_ID
  by unfold_locales (auto simp: heuristic_assess_def Let_def)

interpretation graph_adjacency: conflict_oracle graph_adjacency_assess GRAPH_ADJACENCY_ORACLE_ID
  by unfold_locales (auto simp: graph_adjacency_assess_def)

lemma graph_adjacency_below_heuristic: "directEdge i a \<Longrightarrow> sharesNeighbor i a"
  by (auto simp: directEdge_def sharesNeighbor_def)

lemma directEdge_sym: "directEdge a b \<longleftrightarrow> directEdge b a"
  by (auto simp: directEdge_def)

subsection \<open>Selection\<close>

definition CONTRACT_DIFF_ORACLE_ID :: string where "CONTRACT_DIFF_ORACLE_ID = ''contract-diff''"

text \<open>
  \<open>oe_binary\<close> is what \<open>locateBinary\<close> answers, \<open>oe_indexBuilds\<close> whether the signature index can be
  built; \<open>oe_modelPresent\<close> and \<open>oe_modelDir\<close> are the model registry.
\<close>

record oracle_env =
  oe_hayvenDir :: "string option"
  oe_binary :: "string option"
  oe_modelPresent :: "string \<Rightarrow> string \<Rightarrow> bool"
  oe_modelDir :: "string \<Rightarrow> string \<Rightarrow> string option"
  oe_hasDb :: bool
  oe_repoRoot :: "string option"
  oe_indexBuilds :: bool

datatype oracle_choice = UseHeuristic | UseGraphAdjacency | UseContractDiff | UseLlm string

definition selectOracle :: "string option \<Rightarrow> oracle_env option \<Rightarrow> oracle_choice" where
  "selectOracle configured env =
     (let key = (case configured of None \<Rightarrow> HEURISTIC_ID | Some k \<Rightarrow> k)
      in if key = HEURISTIC_ID then UseHeuristic
         else if key = GRAPH_ADJACENCY_ORACLE_ID then UseGraphAdjacency
         else if key = CONTRACT_DIFF_ORACLE_ID then
           (case env of
              None \<Rightarrow> UseHeuristic
            | Some e \<Rightarrow>
                if oe_binary e = None \<or> \<not> oe_hasDb e \<or> oe_repoRoot e = None then UseHeuristic
                else if oe_indexBuilds e then UseContractDiff else UseHeuristic)
         else (case env of
                 None \<Rightarrow> UseHeuristic
               | Some e \<Rightarrow>
                   (case oe_hayvenDir e of
                      None \<Rightarrow> UseHeuristic
                    | Some dir \<Rightarrow>
                        if \<not> oe_modelPresent e dir key then UseHeuristic
                        else if oe_binary e = None \<or> oe_modelDir e dir key = None then UseHeuristic
                        else UseLlm key)))"

text \<open>Without configuration, or without anything to run a model on, the heuristic answers.\<close>

lemma selectOracle_default: "selectOracle None env = UseHeuristic"
  by (simp add: selectOracle_def Let_def)

lemma selectOracle_model:
  "selectOracle key env = UseLlm m \<longleftrightarrow>
     key = Some m \<and> m \<notin> {HEURISTIC_ID, GRAPH_ADJACENCY_ORACLE_ID, CONTRACT_DIFF_ORACLE_ID}
     \<and> (\<exists>e dir. env = Some e \<and> oe_hayvenDir e = Some dir \<and> oe_modelPresent e dir m
          \<and> oe_binary e \<noteq> None \<and> oe_modelDir e dir m \<noteq> None)"
  by (auto simp: selectOracle_def Let_def split: option.splits)

end
