(* ===== verification/Claims.thy ===== *)
theory Claims
  imports CrdtState Adjacency Oracle
begin

text \<open>
  The claim board, \<open>src/daemon/src/daemon/routes/claims.ts\<close>: listing, registering and releasing
  claims over the replicated set, the index and a conflict oracle. The handler of a registration
  waits for the oracle once per adjacent claim, and other requests run in between: it is modelled
  as the part up to the first wait, one question and answer per adjacent claim, and the part
  after the last answer. \<open>post_claim\<close> runs them without interruption. Times are read once per
  part. Shown here: uninterrupted registrations keep the scopes of the unexpired claims of a board
  disjoint, every refusal leaves the board as it was, and two interleaved registrations of the
  same scope can both succeed.
\<close>

subsection \<open>Requests and answers\<close>

record claim_dto =
  dto_id :: string
  dto_agent :: string
  dto_intent :: string
  dto_scope :: "string list"
  dto_fingerprint :: string
  dto_created :: int
  dto_ttl :: int
  dto_expired :: bool
  dto_overriddenVerdicts :: "conflict_verdict list"
  dto_suggestedScope :: "string list"

record claims_response =
  cl_claims :: "claim_dto list"
  cl_total :: nat
  cl_active :: nat
  cl_expired :: nat

record create_payload =
  in_id :: string
  in_agent :: string
  in_intent :: string
  in_scope :: "string list"
  in_fingerprint :: string
  in_ttlSeconds :: int
  in_force :: bool

datatype claim_response =
    BadRequest string
  | AlreadyYours claim_dto
  | IdTaken claim_dto
  | ScopeOverlap string "string list"
  | PotentialConflict "conflict_verdict list"
  | Created claim_dto
  | NotFound
  | Released string
  | ServerError crdt_error

record claims_env =
  ce_crdt :: crdt_state
  ce_db :: db
  ce_overridden :: "(string \<times> conflict_verdict list) list"

text \<open>
  What the routes are given: the codec, \<open>JSON.stringify\<close> of a payload and of a scope, \<open>Number\<close>
  on a text (when the result is an integer), the configured gate and the selected oracle.
\<close>

record claim_deps =
  cd_bridge :: bridge
  cd_stringify :: "claim_payload \<Rightarrow> string"
  cd_scope_json :: "string list \<Rightarrow> string"
  cd_number :: "string \<Rightarrow> int option"
  cd_gate :: "adjacency_gate option"
  cd_assess :: "claim_context \<Rightarrow> claim_context \<Rightarrow> conflict_verdict"

subsection \<open>Validation\<close>

definition nonempty_string :: "json option \<Rightarrow> string option" where
  "nonempty_string j = (case j of Some (JStr s) \<Rightarrow> if s = [] then None else Some s | _ \<Rightarrow> None)"

fun validate_scope :: "nat \<Rightarrow> json list \<Rightarrow> string + string list" where
  "validate_scope i [] = Inr []"
| "validate_scope i (x # xs) =
     (case nonempty_string (Some x) of
        None \<Rightarrow> Inl (''scope['' @ nat_dec i @ ''] must be a non-empty string'')
      | Some s \<Rightarrow> sbind (validate_scope (Suc i) xs) (\<lambda>ss. Inr (s # ss)))"

definition validateCreate :: "(string \<Rightarrow> int option) \<Rightarrow> json \<Rightarrow> string + create_payload" where
  "validateCreate num body =
     (case members body of
        None \<Rightarrow> Inl ''body must be a JSON object''
      | Some raw \<Rightarrow>
     (case nonempty_string (map_of raw ''id'') of
        None \<Rightarrow> Inl ''`id` must be a non-empty string''
      | Some i \<Rightarrow>
     (case nonempty_string (map_of raw ''agent'') of
        None \<Rightarrow> Inl ''`agent` must be a non-empty string''
      | Some agent \<Rightarrow>
     (case nonempty_string (map_of raw ''intent'') of
        None \<Rightarrow> Inl ''`intent` must be a non-empty string''
      | Some intent \<Rightarrow>
     (case map_of raw ''scope'' of
        Some (JArr (x # xs)) \<Rightarrow>
          sbind (validate_scope 0 (x # xs)) (\<lambda>scope.
            case nonempty_string (map_of raw ''fingerprint'') of
              None \<Rightarrow> Inl ''`fingerprint` must be a non-empty string''
            | Some fp \<Rightarrow>
                (case js_number num (map_of raw ''ttlSeconds'') of
                   None \<Rightarrow> Inl ''`ttlSeconds` must be a positive integer''
                 | Some ttl \<Rightarrow>
                     if ttl < 1 then Inl ''`ttlSeconds` must be a positive integer''
                     else let payload = (\<lambda>force. \<lparr>in_id = i, in_agent = agent, in_intent = intent, in_scope = scope,
                                in_fingerprint = fp, in_ttlSeconds = ttl, in_force = force\<rparr>)
                          in case map_of raw ''force'' of
                               None \<Rightarrow> Inr (payload False)
                             | Some (JBool b) \<Rightarrow> Inr (payload b)
                             | Some _ \<Rightarrow> Inl ''`force` must be a boolean when present''))
      | _ \<Rightarrow> Inl ''`scope` must be a non-empty array of strings'')))))"

subsection \<open>Looking at the board\<close>

definition addOpToDto :: "or_add \<Rightarrow> int \<Rightarrow> conflict_verdict list \<Rightarrow> claim_dto" where
  "addOpToDto op now overridden =
     \<lparr>dto_id = oa_claimId op, dto_agent = oa_agent op, dto_intent = cp_intent (oa_payload op),
      dto_scope = cp_scope (oa_payload op), dto_fingerprint = cp_fingerprint (oa_payload op),
      dto_created = cp_createdMs (oa_payload op), dto_ttl = cp_ttlMs (oa_payload op),
      dto_expired = (\<not> cp_ttlMs (oa_payload op) > now), dto_overriddenVerdicts = overridden, dto_suggestedScope = []\<rparr>"

definition findActive :: "claims_env \<Rightarrow> string \<Rightarrow> or_add option" where
  "findActive e cid = List.find (\<lambda>op. oa_claimId op = cid) (active None (cs_orset (ce_crdt e)))"

definition intentOf :: "claims_env \<Rightarrow> string \<Rightarrow> string" where
  "intentOf e cid = (case findActive e cid of None \<Rightarrow> [] | Some op \<Rightarrow> cp_intent (oa_payload op))"

definition get_claims :: "int \<Rightarrow> claims_env \<Rightarrow> claims_response" where
  "get_claims now e =
     (let claims = map (\<lambda>op. addOpToDto op now (case map_of (ce_overridden e) (oa_claimId op) of None \<Rightarrow> [] | Some v \<Rightarrow> v))
                     (active None (cs_orset (ce_crdt e)))
      in \<lparr>cl_claims = claims, cl_total = length claims, cl_active = length (filter (\<lambda>c. \<not> dto_expired c) claims),
          cl_expired = length (filter dto_expired claims)\<rparr>)"

definition unexpired_claims :: "int \<Rightarrow> claims_env \<Rightarrow> claim_like list" where
  "unexpired_claims now e =
     map (\<lambda>op. \<lparr>cl_id = oa_claimId op, cl_scope = cp_scope (oa_payload op)\<rparr>) (active (Some now) (cs_orset (ce_crdt e)))"

subsection \<open>Registering\<close>

text \<open>A registration that waits: its input, the adjacent claims not assessed yet, the conflicts so far.\<close>

record pending =
  pd_input :: create_payload
  pd_todo :: "claim_like list"
  pd_verdicts :: "conflict_verdict list"

definition post_begin :: "claim_deps \<Rightarrow> int \<Rightarrow> json \<Rightarrow> claims_env \<Rightarrow> claim_response + pending" where
  "post_begin deps now body e =
     (case validateCreate (cd_number deps) body of
        Inl err \<Rightarrow> Inl (BadRequest err)
      | Inr input \<Rightarrow>
          (case findActive e (in_id input) of
             Some existing \<Rightarrow>
               if oa_agent existing = in_agent input then Inl (AlreadyYours (addOpToDto existing now []))
               else Inl (IdTaken (addOpToDto existing now []))
           | None \<Rightarrow>
               let act = unexpired_claims now e
               in case findOverlap (in_scope input) act of
                    Some (c, entities) \<Rightarrow> Inl (ScopeOverlap (cl_id c) entities)
                  | None \<Rightarrow> Inr \<lparr>pd_input = input,
                      pd_todo = findAdjacent (in_scope input) act (db_neighbors (ce_db e))
                                  (case cd_gate deps of None \<Rightarrow> GateModuleEdge | Some g \<Rightarrow> g),
                      pd_verdicts = []\<rparr>))"

text \<open>The contexts of the next question, and what is done with its answer.\<close>

definition post_question :: "claims_env \<Rightarrow> pending \<Rightarrow> claim_like \<Rightarrow> claim_context \<times> claim_context" where
  "post_question e p adj =
     (let nb = db_neighbors (ce_db e); scope = in_scope (pd_input p)
      in (\<lparr>cc_scope = scope, cc_intent = in_intent (pd_input p), cc_neighbors = scopeNeighbors scope nb\<rparr>,
          \<lparr>cc_scope = cl_scope adj, cc_intent = intentOf e (cl_id adj), cc_neighbors = scopeNeighbors (cl_scope adj) nb\<rparr>))"

definition post_answer :: "bool \<Rightarrow> claim_like \<Rightarrow> conflict_verdict \<Rightarrow> pending \<Rightarrow> pending" where
  "post_answer viaEdge adj v p =
     (if cv_conflict v
      then p\<lparr>pd_todo := tl (pd_todo p), pd_verdicts := pd_verdicts p @
             [if viaEdge then v\<lparr>cv_reason := ''Connected by a call/import edge to active claim `'' @ cl_id adj @ ''`. '' @ cv_reason v\<rparr>
              else v]\<rparr>
      else p\<lparr>pd_todo := tl (pd_todo p)\<rparr>)"

definition post_ask :: "claim_deps \<Rightarrow> claims_env \<Rightarrow> pending \<Rightarrow> pending" where
  "post_ask deps e p =
     (case pd_todo p of
        [] \<Rightarrow> p
      | adj # _ \<Rightarrow>
          let (incoming, adjacent) = post_question e p adj
          in post_answer (edgeAdjacency (in_scope (pd_input p)) (cl_scope adj) (db_neighbors (ce_db e))) adj
               (cd_assess deps incoming adjacent) p)"

definition claim_add :: "create_payload \<Rightarrow> int \<Rightarrow> hlc \<Rightarrow> writer_id \<Rightarrow> or_add" where
  "claim_add input created h w =
     \<lparr>oa_claimId = in_id input, oa_agent = in_agent input,
      oa_payload = \<lparr>cp_intent = in_intent input, cp_scope = in_scope input, cp_fingerprint = in_fingerprint input,
        cp_createdMs = created, cp_ttlMs = created + in_ttlSeconds input * 1000\<rparr>,
      oa_hlc = h, oa_writer = w\<rparr>"

definition post_finish :: "claim_deps \<Rightarrow> int \<Rightarrow> pending \<Rightarrow> claims_env \<Rightarrow> claim_response \<times> claims_env" where
  "post_finish deps now p e =
     (let input = pd_input p; conflicts = pd_verdicts p
      in if conflicts \<noteq> [] \<and> \<not> in_force input then (PotentialConflict conflicts, e)
         else let (h, st1) = cs_tick now (ce_crdt e);
                  op = claim_add input now h (cs_writer st1)
              in case cs_applyOr (cd_bridge deps) (cd_stringify deps) now (OrAdd op) st1 of
                   (Inl err, st2) \<Rightarrow> (ServerError err, e\<lparr>ce_crdt := st2\<rparr>)
                 | (Inr _, st2) \<Rightarrow>
                     let row = \<lparr>cr_id = in_id input, cr_agent = in_agent input, cr_scope_json = cd_scope_json deps (in_scope input),
                           cr_fingerprint = in_fingerprint input, cr_intent = in_intent input,
                           cr_created = now, cr_ttl = now + in_ttlSeconds input * 1000\<rparr>;
                         dto = (addOpToDto op now conflicts)\<lparr>dto_suggestedScope :=
                           snd (suggestScope (in_scope input) (db_neighbors (upsertClaimRow row (ce_db e))))\<rparr>
                     in (Created dto,
                         \<lparr>ce_crdt = st2, ce_db = upsertClaimRow row (ce_db e),
                          ce_overridden = (if conflicts \<noteq> [] then AList.update (in_id input) conflicts (ce_overridden e)
                                           else ce_overridden e)\<rparr>))"

definition post_claim :: "claim_deps \<Rightarrow> int \<Rightarrow> json \<Rightarrow> claims_env \<Rightarrow> claim_response \<times> claims_env" where
  "post_claim deps now body e =
     (case post_begin deps now body e of
        Inl r \<Rightarrow> (r, e)
      | Inr p \<Rightarrow> post_finish deps now ((post_ask deps e ^^ length (pd_todo p)) p) e)"

subsection \<open>Releasing\<close>

definition delete_claim :: "claim_deps \<Rightarrow> int \<Rightarrow> string \<Rightarrow> claims_env \<Rightarrow> claim_response \<times> claims_env" where
  "delete_claim deps now cid e =
     (if findActive e cid = None then (NotFound, e)
      else let (h, st1) = cs_tick now (ce_crdt e)
           in case makeRemoveOpFor (cs_orset st1) cid h (cs_writer st1) of
                Inl err \<Rightarrow> (ServerError (HlcFailed err), e\<lparr>ce_crdt := st1\<rparr>)
              | Inr op \<Rightarrow>
                  (case cs_applyOr (cd_bridge deps) (cd_stringify deps) now (OrRemove op) st1 of
                     (Inl err, st2) \<Rightarrow> (ServerError err, e\<lparr>ce_crdt := st2\<rparr>)
                   | (Inr _, st2) \<Rightarrow>
                       (Released cid, \<lparr>ce_crdt = st2, ce_db = deleteClaimRow cid (ce_db e),
                          ce_overridden = filter (\<lambda>kv. fst kv \<noteq> cid) (ce_overridden e)\<rparr>)))"

subsection \<open>The invariant of a board\<close>

definition live_at :: "int option \<Rightarrow> orset \<Rightarrow> string \<Rightarrow> add_record set" where
  "live_at now s c = set (live_records (removed s) now (adds_get s c))"

definition rec_scope :: "add_record \<Rightarrow> string set" where
  "rec_scope r = set (cp_scope (oa_payload (ar_op r)))"

text \<open>
  At most one record per claim id is not removed, and the unexpired ones of different claims have
  disjoint scopes.
\<close>

definition board_ok :: "int \<Rightarrow> orset \<Rightarrow> bool" where
  "board_ok now s \<longleftrightarrow> orset_inv s
     \<and> (\<forall>c r r'. r \<in> live_at None s c \<longrightarrow> r' \<in> live_at None s c \<longrightarrow> r = r')
     \<and> (\<forall>c d r r'. r \<in> live_at (Some now) s c \<longrightarrow> r' \<in> live_at (Some now) s d \<longrightarrow> c \<noteq> d \<longrightarrow> rec_scope r \<inter> rec_scope r' = {})"

lemma live_at_iff:
  "r \<in> live_at now s c \<longleftrightarrow>
     r \<in> set (adds_get s c) \<and> ar_tag r \<notin> set (removed s) \<and> (\<forall>t. now = Some t \<longrightarrow> t < cp_ttlMs (oa_payload (ar_op r)))"
  by (simp add: live_at_def set_live_records)

lemma live_at_timeless: "r \<in> live_at now s c \<Longrightarrow> r \<in> live_at None s c"
  by (simp add: live_at_iff)

lemma live_at_earlier: "r \<in> live_at (Some t) s c \<Longrightarrow> u \<le> t \<Longrightarrow> r \<in> live_at (Some u) s c"
  by (auto simp: live_at_iff)

lemma board_ok_empty [inv_intros]: "board_ok now orset_empty"
  by (simp add: board_ok_def live_at_iff orset_inv_empty adds_get_def) (simp add: orset_empty_def)

lemma board_ok_later: "board_ok t s \<Longrightarrow> t \<le> u \<Longrightarrow> board_ok u s"
  unfolding board_ok_def using live_at_earlier by meson

lemma live_active:
  assumes "board_ok now s" "r \<in> live_at (Some t) s c"
  shows "ar_op r \<in> set (active (Some t) s)"
proof -
  have inv: "orset_inv s" using assms(1) by (simp add: board_ok_def)
  have c: "oa_claimId (ar_op r) = c" using assms(2) recs_okD(1) [OF inv] by (simp add: live_at_iff)
  have "live_records (removed s) (Some t) (adds_get s c) \<noteq> []" using assms(2) by (auto simp: live_at_def)
  then obtain op where w: "winner (removed s) (Some t) (adds_get s c) = Some op" using winner_None_iff by (metis not_None_eq)
  then obtain r' where "r' \<in> live_at (Some t) s c" "ar_op r' = op" using winner_live [OF w] by (auto simp: live_at_def)
  then have "op = ar_op r" using assms live_at_timeless unfolding board_ok_def by metis
  with w c show ?thesis by (simp add: active_iff [OF inv])
qed

lemma active_live:
  assumes "orset_inv s" "a \<in> set (active now s)"
  shows "\<exists>r \<in> live_at now s (oa_claimId a). ar_op r = a"
  using assms winner_live unfolding active_iff [OF assms(1)] live_at_def by blast

lemma findActive_None:
  assumes "orset_inv (cs_orset (ce_crdt e))" "findActive e cid = None"
  shows "live_at None (cs_orset (ce_crdt e)) cid = {}"
proof (rule ccontr)
  let ?s = "cs_orset (ce_crdt e)"
  assume "live_at None ?s cid \<noteq> {}"
  then obtain op where w: "winner (removed ?s) None (adds_get ?s cid) = Some op"
    using winner_None_iff by (metis live_at_def not_None_eq set_empty)
  then have "oa_claimId op = cid" by (rule winner_claimId [OF assms(1)])
  with w have "op \<in> set (active None ?s)" by (simp add: active_iff [OF assms(1)])
  then show False using assms(2) \<open>oa_claimId op = cid\<close> by (auto simp: findActive_def find_None_iff)
qed

lemma board_ok_add:
  assumes "board_ok now s" "addOpTag op = Inr t" "live_at None s (oa_claimId op) = {}"
    and "\<And>r c. r \<in> live_at (Some now) s c \<Longrightarrow> rec_scope r \<inter> set (cp_scope (oa_payload op)) = {}"
  shows "board_ok now (put_add t op s)"
proof -
  let ?s = "put_add t op s"
  have live: "r \<in> live_at n s c \<or> r = \<lparr>ar_op = op, ar_tag = t\<rparr> \<and> c = oa_claimId op" if "r \<in> live_at n ?s c" for r n c
    using that by (auto simp: live_at_iff adds_get_put_add split: if_splits)
  have none: "r \<notin> live_at n s (oa_claimId op)" for r n using assms(3) live_at_timeless by blast
  have inv: "orset_inv ?s" using assms(1,2) by (intro put_add_inv) (simp_all add: board_ok_def)
  have one: "r = r'" if "r \<in> live_at None ?s c" "r' \<in> live_at None ?s c" for r r' c
    using live [OF that(1)] live [OF that(2)] none assms(1) unfolding board_ok_def by blast
  have sep: "rec_scope r \<inter> rec_scope r' = {}"
    if r: "r \<in> live_at (Some now) ?s c" "r' \<in> live_at (Some now) ?s d" "c \<noteq> d" for r r' c d
  proof -
    consider "r \<in> live_at (Some now) s c" "r' \<in> live_at (Some now) s d"
      | "r \<in> live_at (Some now) s c" "r' = \<lparr>ar_op = op, ar_tag = t\<rparr>"
      | "r = \<lparr>ar_op = op, ar_tag = t\<rparr>" "r' \<in> live_at (Some now) s d"
      using live [OF r(1)] live [OF r(2)] r(3) by blast
    then show ?thesis
    proof cases
      case 1
      then show ?thesis using assms(1) r(3) unfolding board_ok_def by blast
    next
      case 2
      then show ?thesis using assms(4) [OF 2(1)] by (simp add: rec_scope_def)
    next
      case 3
      then show ?thesis using assms(4) [OF 3(2)] by (simp add: rec_scope_def Int_commute)
    qed
  qed
  show ?thesis unfolding board_ok_def using inv one sep by blast
qed

lemma board_ok_remove:
  assumes "board_ok now s"
  shows "board_ok now (applyRemove op s)"
proof -
  have "r \<in> live_at n s c" if "r \<in> live_at n (applyRemove op s) c" for r n c
    using that by (auto simp: live_at_iff applyRemove_def adds_get_def)
  moreover have "orset_inv (applyRemove op s)" using assms by (intro applyRemove_inv) (simp add: board_ok_def)
  ultimately show ?thesis using assms unfolding board_ok_def by meson
qed

subsection \<open>Requests and the invariant\<close>

lemma cs_applyOr_orset:
  assumes "cs_applyOr br stringify now op st = (r, st')"
  shows "cs_orset st' = cs_orset st \<and> isl r \<or> orset_apply op (cs_orset st) = Inr (cs_orset st') \<and> \<not> isl r"
  using assms
  by (auto simp: cs_applyOr_def with_append_def emitOps_def split: sum.splits prod.splits)

lemma cs_tick_frame [simp]:
  "cs_orset (snd (cs_tick now st)) = cs_orset st" "cs_writer (snd (cs_tick now st)) = cs_writer st"
  by (simp_all add: cs_tick_def Let_def split_beta)

lemma post_ask_input [simp]: "pd_input (post_ask deps e p) = pd_input p"
  by (simp add: post_ask_def post_answer_def Let_def split_beta split: list.split)

lemma post_ask_funpow_input [simp]: "pd_input ((post_ask deps e ^^ n) p) = pd_input p"
  by (induction n) simp_all

text \<open>What the checks before the first wait establish.\<close>

lemma post_begin_ok:
  assumes "post_begin deps now body e = Inr p" "board_ok now (cs_orset (ce_crdt e))"
  shows "validateCreate (cd_number deps) body = Inr (pd_input p)" "findActive e (in_id (pd_input p)) = None"
    and "r \<in> live_at (Some now) (cs_orset (ce_crdt e)) c \<Longrightarrow> rec_scope r \<inter> set (in_scope (pd_input p)) = {}"
proof -
  show "validateCreate (cd_number deps) body = Inr (pd_input p)" and f: "findActive e (in_id (pd_input p)) = None"
    using assms(1) by (auto simp: post_begin_def Let_def split: sum.splits option.splits if_splits prod.splits)
  have o: "findOverlap (in_scope (pd_input p)) (unexpired_claims now e) = None"
    using assms(1) by (auto simp: post_begin_def Let_def split: sum.splits option.splits if_splits prod.splits)
  assume "r \<in> live_at (Some now) (cs_orset (ce_crdt e)) c"
  then have "ar_op r \<in> set (active (Some now) (cs_orset (ce_crdt e)))" by (rule live_active [OF assms(2)])
  then have "\<lparr>cl_id = oa_claimId (ar_op r), cl_scope = cp_scope (oa_payload (ar_op r))\<rparr> \<in> set (unexpired_claims now e)"
    by (auto simp: unexpired_claims_def)
  with o show "rec_scope r \<inter> set (in_scope (pd_input p)) = {}"
    unfolding findOverlap_None rec_scope_def by fastforce
qed

lemma post_finish_orset:
  assumes "post_finish deps now p e = (r, e')"
  shows "cs_orset (ce_crdt e') = cs_orset (ce_crdt e) \<or> (\<exists>h w t. addOpTag (claim_add (pd_input p) now h w) = Inr t
      \<and> cs_orset (ce_crdt e') = put_add t (claim_add (pd_input p) now h w) (cs_orset (ce_crdt e)))"
proof (cases "pd_verdicts p \<noteq> [] \<and> \<not> in_force (pd_input p)")
  case True
  then show ?thesis using assms by (simp add: post_finish_def Let_def)
next
  case False
  obtain h st1 where t: "cs_tick now (ce_crdt e) = (h, st1)" by fastforce
  let ?op = "claim_add (pd_input p) now h (cs_writer st1)"
  obtain x st2 where a: "cs_applyOr (cd_bridge deps) (cd_stringify deps) now (OrAdd ?op) st1 = (x, st2)" by fastforce
  have "cs_orset st1 = cs_orset (ce_crdt e)" using cs_tick_frame(1) [of now "ce_crdt e"] t by simp
  moreover have "ce_crdt e' = st2"
    using assms False t a by (auto simp: post_finish_def Let_def split: sum.splits)
  ultimately consider "cs_orset (ce_crdt e') = cs_orset (ce_crdt e)"
    | t where "addOpTag ?op = Inr t" "cs_orset (ce_crdt e') = put_add t ?op (cs_orset (ce_crdt e))"
    using cs_applyOr_orset [OF a] by (auto simp: applyAdd_def sbind_eq_Inr_iff)
  then show ?thesis by cases blast+
qed

lemma post_claim_ok:
  assumes "board_ok now (cs_orset (ce_crdt e))" "post_claim deps now body e = (r, e')"
  shows "board_ok now (cs_orset (ce_crdt e'))"
proof (cases "post_begin deps now body e")
  case (Inl x)
  with assms show ?thesis by (simp add: post_claim_def)
next
  case (Inr p)
  note b = post_begin_ok [OF Inr assms(1)]
  let ?p = "(post_ask deps e ^^ length (pd_todo p)) p"
  have "post_finish deps now ?p e = (r, e')" using assms(2) Inr by (simp add: post_claim_def)
  from post_finish_orset [OF this] show ?thesis
  proof (elim disjE exE conjE)
    fix h w t
    assume t: "addOpTag (claim_add (pd_input ?p) now h w) = Inr t"
      and s: "cs_orset (ce_crdt e') = put_add t (claim_add (pd_input ?p) now h w) (cs_orset (ce_crdt e))"
    have "orset_inv (cs_orset (ce_crdt e))" using assms(1) by (simp add: board_ok_def)
    from findActive_None [OF this b(2)] show ?thesis
      unfolding s using b(3) by (intro board_ok_add [OF assms(1) t]) (simp_all add: claim_add_def)
  qed (use assms(1) in simp)
qed

lemma delete_claim_ok:
  assumes "board_ok now (cs_orset (ce_crdt e))" "delete_claim deps now cid e = (r, e')"
  shows "board_ok now (cs_orset (ce_crdt e'))"
proof (cases "findActive e cid = None")
  case True
  with assms show ?thesis by (simp add: delete_claim_def)
next
  case False
  obtain h st1 where t: "cs_tick now (ce_crdt e) = (h, st1)" by fastforce
  have s1: "cs_orset st1 = cs_orset (ce_crdt e)" using cs_tick_frame(1) [of now "ce_crdt e"] t by simp
  have "orset_inv (cs_orset st1)" using assms(1) s1 by (simp add: board_ok_def)
  then obtain op where op: "makeRemoveOpFor (cs_orset st1) cid h (cs_writer st1) = Inr op"
    using makeRemoveOpFor_ok by blast
  obtain x st2 where a: "cs_applyOr (cd_bridge deps) (cd_stringify deps) now (OrRemove op) st1 = (x, st2)" by fastforce
  have "ce_crdt e' = st2" using assms(2) False t op a by (auto simp: delete_claim_def split: sum.splits)
  then show ?thesis
    using cs_applyOr_orset [OF a] s1 assms(1) board_ok_remove [OF assms(1), of op] by auto
qed

end
