(* ===== verification/ClaimBoard.thy ===== *)
theory ClaimBoard
  imports Claims
begin

text \<open>
  What the claim board of \<open>src/daemon/src/daemon/routes/claims.ts\<close> promises its clients, over the
  model of the theory \<open>Claims\<close>: every answer of a registration and what it leaves behind, mutual
  exclusion for requests served one after the other, and its loss when two registrations
  interleave at the wait for the conflict oracle.
\<close>

subsection \<open>Requests served one after the other\<close>

datatype board_request = Register json | Release string

fun serve :: "claim_deps \<Rightarrow> int \<times> board_request \<Rightarrow> claims_env \<Rightarrow> claims_env" where
  "serve deps (now, Register body) e = snd (post_claim deps now body e)"
| "serve deps (now, Release cid) e = snd (delete_claim deps now cid e)"

lemma serve_ok:
  assumes "board_ok t (cs_orset (ce_crdt e))" "t \<le> fst r"
  shows "board_ok (fst r) (cs_orset (ce_crdt (serve deps r e)))"
proof (cases r)
  case (Pair now q)
  have b: "board_ok now (cs_orset (ce_crdt e))" using board_ok_later [OF assms] Pair by simp
  show ?thesis
  proof (cases q)
    case (Register body)
    then show ?thesis using post_claim_ok [OF b, of deps body "fst (post_claim deps now body e)"] Pair by simp
  next
    case (Release cid)
    then show ?thesis using delete_claim_ok [OF b, of deps cid "fst (delete_claim deps now cid e)"] Pair by simp
  qed
qed

lemma serve_all_ok:
  "board_ok t (cs_orset (ce_crdt e)) \<Longrightarrow> sorted (map fst reqs) \<Longrightarrow> \<forall>r \<in> set reqs. t \<le> fst r \<and> fst r \<le> now \<Longrightarrow> t \<le> now
    \<Longrightarrow> board_ok now (cs_orset (ce_crdt (fold (serve deps) reqs e)))"
proof (induction reqs arbitrary: t e)
  case Nil
  then show ?case using board_ok_later by simp
next
  case (Cons r reqs)
  then have "board_ok (fst r) (cs_orset (ce_crdt (serve deps r e)))" by (intro serve_ok) auto
  then show ?case using Cons by (auto intro: Cons.IH)
qed

subsection \<open>A registration that goes through\<close>

lemma appendOps_one:
  assumes "br_encode br [w] \<noteq> None"
  shows "\<exists>n log'. appendOps br now t [w] log = (Inr n, log')"
proof -
  obtain batch where "br_encode br [w] = Some batch" using assms by auto
  then show ?thesis
    using appendBatchBytes_total [of now t "utcDate (wall_ms (w_hlc w))" batch True "warnIfLocalDayOutOfWindow now t (utcDate (wall_ms (w_hlc w))) log"]
    by (auto simp: Let_def)
qed

lemma applyOr_add_registers:
  assumes "\<forall>w. br_encode br [w] \<noteq> None" "addOpTag op = Inr t"
  shows "\<exists>st'. cs_applyOr br stringify now (OrAdd op) st = (Inr (), st')
    \<and> cs_orset st' = put_add t op (cs_orset st) \<and> cs_writer st' = cs_writer st \<and> clock st' = clock st"
proof -
  obtain w where w: "orToWire stringify (OrAdd op) = Inr w" by simp
  obtain n log' where "appendOps br now ORSET [w] (cs_oplog st) = (Inr n, log')" using appendOps_one assms(1) by blast
  with w assms(2) show ?thesis by (simp add: cs_applyOr_def with_append_def emitOps_def applyAdd_def)
qed

text \<open>With no conflict left, nothing is checked again: the claim is registered.\<close>

definition registers :: "int \<Rightarrow> create_payload \<Rightarrow> claims_env \<Rightarrow> claims_env \<Rightarrow> bool" where
  "registers now input e e' \<longleftrightarrow>
     (\<exists>h t. addOpTag (claim_add input now h (cs_writer (ce_crdt e))) = Inr t
        \<and> cs_orset (ce_crdt e') = put_add t (claim_add input now h (cs_writer (ce_crdt e))) (cs_orset (ce_crdt e)))
     \<and> cs_writer (ce_crdt e') = cs_writer (ce_crdt e) \<and> edges_t (ce_db e') = edges_t (ce_db e)
     \<and> clock (ce_crdt e') = snd (tick now (clock (ce_crdt e)))"

lemma post_finish_registers:
  assumes "pd_verdicts p = []" "\<forall>w. br_encode (cd_bridge deps) [w] \<noteq> None"
    and "hlc_ok (fst (tick now (clock (ce_crdt e))))" "writer_ok (cs_writer (ce_crdt e))"
  shows "\<exists>dto e'. post_finish deps now p e = (Created dto, e') \<and> registers now (pd_input p) e e'"
proof -
  obtain h st1 where t: "cs_tick now (ce_crdt e) = (h, st1)" by fastforce
  then have h: "h = fst (tick now (clock (ce_crdt e)))" and c: "clock st1 = snd (tick now (clock (ce_crdt e)))"
    by (auto simp: cs_tick_def split_beta Let_def)
  have f: "cs_orset st1 = cs_orset (ce_crdt e)" "cs_writer st1 = cs_writer (ce_crdt e)"
    using cs_tick_frame [of now "ce_crdt e"] t by simp_all
  let ?op = "claim_add (pd_input p) now h (cs_writer (ce_crdt e))"
  have "hlc_ok (oa_hlc ?op) \<and> writer_ok (oa_writer ?op)" using assms(3,4) h by (simp add: claim_add_def)
  then obtain tg where tg: "addOpTag ?op = Inr tg" using addOpTag_Inr_iff by blast
  obtain st2 where st2: "cs_applyOr (cd_bridge deps) (cd_stringify deps) now (OrAdd ?op) st1 = (Inr (), st2)"
    "cs_orset st2 = put_add tg ?op (cs_orset st1)" "cs_writer st2 = cs_writer st1" "clock st2 = clock st1"
    using applyOr_add_registers [OF assms(2) tg, of "cd_stringify deps" now st1] by blast
  then show ?thesis using assms(1) t tg f c unfolding registers_def
    by (auto simp: post_finish_def Let_def upsertClaimRow_def)
qed

text \<open>A board without releases that holds the claims \<open>B\<close>.\<close>

definition board_holds :: "claims_env \<Rightarrow> (string \<rightharpoonup> or_add) \<Rightarrow> bool" where
  "board_holds e B \<longleftrightarrow> orset_inv (cs_orset (ce_crdt e)) \<and> removed (cs_orset (ce_crdt e)) = []
     \<and> (\<forall>c. map ar_op (adds_get (cs_orset (ce_crdt e)) c) = (case B c of None \<Rightarrow> [] | Some op \<Rightarrow> [op]))"

lemma winner_one:
  "map ar_op rs = [op] \<Longrightarrow> winner [] now rs = (if \<forall>t. now = Some t \<longrightarrow> t < cp_ttlMs (oa_payload op) then Some op else None)"
proof -
  assume m: "map ar_op rs = [op]"
  then obtain r where r: "rs = [r]" "ar_op r = op" by auto
  have l: "set (live_records [] now rs) = (if \<forall>t. now = Some t \<longrightarrow> t < cp_ttlMs (oa_payload op) then {r} else {})"
    using r by (auto simp: live_records_def split: option.splits)
  show ?thesis
  proof (cases "winner [] now rs")
    case None
    then have "set (live_records [] now rs) = {}" by (simp add: winner_None_iff)
    with l None show ?thesis by (metis insert_not_empty)
  next
    case (Some a)
    then show ?thesis using winner_live [OF Some] l r(2) by (auto split: if_splits)
  qed
qed

lemma board_holds_active:
  assumes "board_holds e B"
  shows "a \<in> set (active now (cs_orset (ce_crdt e))) \<longleftrightarrow>
    B (oa_claimId a) = Some a \<and> (\<forall>t. now = Some t \<longrightarrow> t < cp_ttlMs (oa_payload a))"
proof -
  let ?s = "cs_orset (ce_crdt e)"
  have i: "orset_inv ?s" and r: "removed ?s = []" using assms by (auto simp: board_holds_def)
  have m: "map ar_op (adds_get ?s (oa_claimId a)) = (case B (oa_claimId a) of None \<Rightarrow> [] | Some op \<Rightarrow> [op])"
    using assms by (simp add: board_holds_def)
  show ?thesis
  proof (cases "B (oa_claimId a)")
    case None
    with m show ?thesis by (simp add: active_iff [OF i] winner_alt live_records_def)
  next
    case (Some op)
    with m show ?thesis by (auto simp: active_iff [OF i] r winner_one)
  qed
qed

lemma board_holds_free:
  assumes "board_holds e B" "B c = None"
  shows "findActive e c = None"
  using assms by (auto simp: findActive_def find_None_iff board_holds_active [OF assms(1)])

lemma board_holds_register:
  assumes "board_holds e B" "B (in_id input) = None" "registers now input e e'"
  shows "\<exists>h w. board_holds e' (B(in_id input \<mapsto> claim_add input now h w))"
proof -
  let ?w = "cs_writer (ce_crdt e)" and ?s = "cs_orset (ce_crdt e)"
  obtain h t where t: "addOpTag (claim_add input now h ?w) = Inr t"
    "cs_orset (ce_crdt e') = put_add t (claim_add input now h ?w) ?s"
    using assms(3) unfolding registers_def by blast
  have "map ar_op (adds_get ?s (in_id input)) = []" using assms(1,2) unfolding board_holds_def by simp
  then have "adds_get ?s (in_id input) = []" by simp
  then have "board_holds e' (B(in_id input \<mapsto> claim_add input now h ?w))"
    using assms(1) put_add_inv [OF _ t(1), of ?s] unfolding board_holds_def t(2)
    by (simp add: adds_get_put_add) (auto simp: claim_add_def put_add_def Let_def)
  then show ?thesis by blast
qed

text \<open>Passing the checks of a registration, from what the board holds.\<close>

lemma board_holds_begin:
  assumes "board_holds e B" "validateCreate (cd_number deps) body = Inr input" "B (in_id input) = None"
    and "\<forall>c a. B c = Some a \<longrightarrow> set (in_scope input) \<inter> set (cp_scope (oa_payload a)) = {}"
  shows "\<exists>p. post_begin deps now body e = Inr p \<and> pd_input p = input \<and> pd_verdicts p = []
    \<and> pd_todo p = findAdjacent (in_scope input) (unexpired_claims now e) (db_neighbors (ce_db e))
        (case cd_gate deps of None \<Rightarrow> GateModuleEdge | Some g \<Rightarrow> g)"
proof -
  have "set (in_scope input) \<inter> set (cp_scope (oa_payload a)) = {}" if "a \<in> set (active (Some now) (cs_orset (ce_crdt e)))" for a
    using that assms(4) unfolding board_holds_active [OF assms(1)] by blast
  then have "findOverlap (in_scope input) (unexpired_claims now e) = None"
    unfolding findOverlap_None unexpired_claims_def by simp
  then show ?thesis using assms(2) board_holds_free [OF assms(1,3)] by (simp add: post_begin_def Let_def)
qed

text \<open>An oracle that finds no conflict leaves nothing to report.\<close>

lemma ask_all_quiet:
  assumes "\<And>i a. \<not> cv_conflict (cd_assess deps i a) \<or> cc_neighbors i \<noteq> [] \<or> cc_neighbors a \<noteq> []" "edges_t (ce_db e) = []"
  shows "pd_verdicts ((post_ask deps e ^^ n) p) = pd_verdicts p"
proof (induction n)
  case (Suc n)
  have n: "db_neighbors (ce_db e) = (\<lambda>_. [])" using assms(2) by (auto simp: db_neighbors_def outgoing_def incoming_def)
  have s: "scopeNeighbors xs (\<lambda>_. []) = []" for xs using set_scopeNeighbors [of xs "\<lambda>_. []"] by simp
  have "\<not> cv_conflict (cd_assess deps (fst (post_question e q adj)) (snd (post_question e q adj)))" for q adj
    using assms(1) [of "fst (post_question e q adj)" "snd (post_question e q adj)"] by (simp add: post_question_def n s Let_def)
  then have "pd_verdicts (post_ask deps e q) = pd_verdicts q" for q
    by (simp add: post_ask_def post_answer_def split_beta Let_def split: list.split)
  then show ?case using Suc by simp
qed simp


text \<open>The answers of the part after the last wait.\<close>

lemma claims_row_present: "\<exists>x \<in> set (claims_t (upsertClaimRow row d)). cr_id x = cr_id row \<and> cr_ttl x = cr_ttl row"
  by (auto simp: upsertClaimRow_def upsert_row_def)

lemma post_finish_answer:
  assumes "post_finish deps now p e = (r, e')"
  shows "(\<exists>v. r = PotentialConflict v \<and> e' = e)
    \<or> (\<exists>x. r = ServerError x \<and> cs_orset (ce_crdt e') = cs_orset (ce_crdt e) \<and> ce_db e' = ce_db e)
    \<or> (\<exists>dto. r = Created dto \<and> dto_id dto = in_id (pd_input p) \<and> dto_scope dto = in_scope (pd_input p)
        \<and> (dto_overriddenVerdicts dto = [] \<or> in_force (pd_input p))
        \<and> (\<exists>row \<in> set (claims_t (ce_db e')). cr_id row = dto_id dto \<and> cr_ttl row = dto_ttl dto))"
proof (cases "pd_verdicts p \<noteq> [] \<and> \<not> in_force (pd_input p)")
  case True
  then show ?thesis using assms by (auto simp: post_finish_def Let_def)
next
  case False
  obtain h st1 where t: "cs_tick now (ce_crdt e) = (h, st1)" by fastforce
  let ?op = "claim_add (pd_input p) now h (cs_writer st1)" and ?i = "pd_input p"
  obtain x st2 where a: "cs_applyOr (cd_bridge deps) (cd_stringify deps) now (OrAdd ?op) st1 = (x, st2)" by fastforce
  have s1: "cs_orset st1 = cs_orset (ce_crdt e)" using cs_tick_frame(1) [of now "ce_crdt e"] t by simp
  show ?thesis
  proof (cases x)
    case (Inl err)
    then show ?thesis using assms False t a s1 cs_applyOr_orset [OF a] by (auto simp: post_finish_def Let_def)
  next
    case (Inr u)
    let ?row = "\<lparr>cr_id = in_id ?i, cr_agent = in_agent ?i, cr_scope_json = cd_scope_json deps (in_scope ?i),
      cr_fingerprint = in_fingerprint ?i, cr_intent = in_intent ?i, cr_created = now, cr_ttl = now + in_ttlSeconds ?i * 1000\<rparr>"
    have e': "ce_db e' = upsertClaimRow ?row (ce_db e)"
      and r: "\<exists>dto. r = Created dto \<and> dto_id dto = in_id ?i \<and> dto_scope dto = in_scope ?i
        \<and> dto_overriddenVerdicts dto = pd_verdicts p \<and> dto_ttl dto = now + in_ttlSeconds ?i * 1000"
      using assms False t a Inr by (auto simp: post_finish_def Let_def addOpToDto_def claim_add_def)
    show ?thesis using r False claims_row_present [of ?row "ce_db e"] unfolding e' by auto
  qed
qed

subsection \<open>Properties\<close>

text \<open>C6: Mutual exclusion. Start from an empty board and serve any registrations and releases one
  after the other, each at its own time, with any oracle, codec and gate, forced or not, whether
  or not the log could be written: two unexpired claims of different ids never share an entity.\<close>

theorem claims_exclusive:
  assumes "cs_orset (ce_crdt e) = orset_empty" "sorted (map fst reqs)" "\<forall>r \<in> set reqs. fst r \<le> now"
    and "a \<in> set (active (Some now) (cs_orset (ce_crdt (fold (serve deps) reqs e))))"
    and "b \<in> set (active (Some now) (cs_orset (ce_crdt (fold (serve deps) reqs e))))"
    and "oa_claimId a \<noteq> oa_claimId b"
  shows "set (cp_scope (oa_payload a)) \<inter> set (cp_scope (oa_payload b)) = {}"
proof -
  let ?s = "cs_orset (ce_crdt (fold (serve deps) reqs e))" and ?t = "Min (insert now (fst ` set reqs))"
  have "board_ok now ?s"
    by (rule serve_all_ok [where t = ?t]) (use assms(1-3) board_ok_empty in auto)
  then have "orset_inv ?s" and sep: "r \<in> live_at (Some now) ?s (oa_claimId a) \<Longrightarrow> r' \<in> live_at (Some now) ?s (oa_claimId b)
      \<Longrightarrow> rec_scope r \<inter> rec_scope r' = {}" for r r'
    using assms(6) unfolding board_ok_def by blast+
  obtain r where "r \<in> live_at (Some now) ?s (oa_claimId a)" "ar_op r = a" using active_live [OF \<open>orset_inv ?s\<close> assms(4)] by blast
  moreover obtain r' where "r' \<in> live_at (Some now) ?s (oa_claimId b)" "ar_op r' = b"
    using active_live [OF \<open>orset_inv ?s\<close> assms(5)] by blast
  ultimately show ?thesis using sep unfolding rec_scope_def by blast
qed



subsection \<open>A board in use\<close>

text \<open>Deterministic routes with a codec that can encode everything, and three agents.\<close>

definition sample_deps :: claim_deps where
  "sample_deps = \<lparr>cd_bridge = \<lparr>br_encode = (\<lambda>_. Some [1]), br_decode = (\<lambda>_. None), br_decodeSegment = (\<lambda>_. None)\<rparr>,
     cd_stringify = (\<lambda>_. ''{}''), cd_scope_json = (\<lambda>_. ''[]''), cd_number = (\<lambda>_. None), cd_gate = None,
     cd_assess = heuristic_assess\<rparr>"

definition sample_body :: "string \<Rightarrow> string \<Rightarrow> json" where
  "sample_body cid entity = JObj [(''id'', JStr cid), (''agent'', JStr cid), (''intent'', JStr ''x''),
     (''scope'', JArr [JStr entity]), (''fingerprint'', JStr ''f''), (''ttlSeconds'', JInt 60)]"

definition sample_input :: "string \<Rightarrow> string \<Rightarrow> create_payload" where
  "sample_input cid entity = \<lparr>in_id = cid, in_agent = cid, in_intent = ''x'', in_scope = [entity],
     in_fingerprint = ''f'', in_ttlSeconds = 60, in_force = False\<rparr>"

definition sample_env :: claims_env where
  "sample_env = \<lparr>ce_crdt = crdt_new (replicate 16 0) empty_log, ce_db = db_new True, ce_overridden = []\<rparr>"

lemma sample_valid: "cid \<noteq> [] \<Longrightarrow> entity \<noteq> [] \<Longrightarrow> validateCreate (cd_number sample_deps) (sample_body cid entity) = Inr (sample_input cid entity)"
  by (simp add: validateCreate_def members_def sample_body_def nonempty_string_def sample_input_def Let_def)

lemma sample_quiet: "pd_verdicts ((post_ask sample_deps e ^^ n) p) = pd_verdicts p" if "edges_t (ce_db e) = []"
proof (rule ask_all_quiet [OF _ that])
  show "\<not> cv_conflict (cd_assess sample_deps i a) \<or> cc_neighbors i \<noteq> [] \<or> cc_neighbors a \<noteq> []" for i a
    by (auto simp: sample_deps_def heuristic_assess_def sharesNeighbor_def)
qed

text \<open>A clock and an index that allow the next registration at time 1000.\<close>

definition sample_ready :: "nat \<Rightarrow> claims_env \<Rightarrow> bool" where
  "sample_ready k e \<longleftrightarrow> writer_ok (cs_writer (ce_crdt e)) \<and> edges_t (ce_db e) = []
     \<and> gen_last (clock (ce_crdt e)) = (if k = 0 then \<lparr>wallMs = 0, counter = 0\<rparr> else \<lparr>wallMs = 1000, counter = int k - 1\<rparr>)"

lemma sample_ready_0: "sample_ready 0 sample_env" "board_holds sample_env Map.empty"
proof -
  show "sample_ready 0 sample_env"
    by (simp add: sample_ready_def sample_env_def crdt_new_def hlc_gen_new_def writer_ok_def size_defs db_new_def)
  show "board_holds sample_env Map.empty"
    by (simp add: board_holds_def sample_env_def crdt_new_def orset_inv_empty adds_get_def) (simp add: orset_empty_def)
qed

lemma sample_finish:
  assumes "sample_ready k e" "k < 9" "board_holds e B" "B (in_id (pd_input p)) = None" "pd_verdicts p = []"
  shows "\<exists>dto e' h w. post_finish sample_deps 1000 p e = (Created dto, e') \<and> sample_ready (Suc k) e'
    \<and> board_holds e' (B(in_id (pd_input p) \<mapsto> claim_add (pd_input p) 1000 h w))"
proof -
  have t: "hlc_ok (fst (tick 1000 (clock (ce_crdt e))))"
    and g: "gen_last (snd (tick 1000 (clock (ce_crdt e)))) = \<lparr>wallMs = 1000, counter = int k\<rparr>"
    using assms(1,2) by (auto simp: sample_ready_def tick_def hlc_ok_def size_defs Let_def split: if_splits)
  have enc: "\<forall>w. br_encode (cd_bridge sample_deps) [w] \<noteq> None" by (simp add: sample_deps_def)
  obtain dto e' where f: "post_finish sample_deps 1000 p e = (Created dto, e')" "registers 1000 (pd_input p) e e'"
    using post_finish_registers [OF assms(5) enc t] assms(1) unfolding sample_ready_def by blast
  then have "sample_ready (Suc k) e'" using assms(1) g unfolding registers_def sample_ready_def by simp
  moreover obtain h w where "board_holds e' (B(in_id (pd_input p) \<mapsto> claim_add (pd_input p) 1000 h w))"
    using board_holds_register [OF assms(3,4) f(2)] by blast
  ultimately show ?thesis using f(1) by blast
qed

lemma sample_registers:
  assumes "sample_ready k e" "k < 9" "board_holds e B" "B cid = None" "cid \<noteq> []" "entity \<noteq> []"
    and "\<forall>c a. B c = Some a \<longrightarrow> entity \<notin> set (cp_scope (oa_payload a))"
  shows "\<exists>dto e' h w. post_claim sample_deps 1000 (sample_body cid entity) e = (Created dto, e') \<and> sample_ready (Suc k) e'
    \<and> board_holds e' (B(cid \<mapsto> claim_add (sample_input cid entity) 1000 h w))"
proof -
  have i: "in_id (sample_input cid entity) = cid" "in_scope (sample_input cid entity) = [entity]" by (simp_all add: sample_input_def)
  obtain p where p: "post_begin sample_deps 1000 (sample_body cid entity) e = Inr p" "pd_input p = sample_input cid entity" "pd_verdicts p = []"
    using board_holds_begin [OF assms(3) sample_valid [OF assms(5,6)], of 1000] assms(4,7) i by auto
  have e: "edges_t (ce_db e) = []" using assms(1) by (simp add: sample_ready_def)
  show ?thesis
    using sample_finish [OF assms(1-3), of "(post_ask sample_deps e ^^ length (pd_todo p)) p"] p assms(4) i sample_quiet [OF e]
    by (simp add: post_claim_def)
qed


abbreviation sample_claim :: "string \<Rightarrow> string \<Rightarrow> hlc \<Rightarrow> writer_id \<Rightarrow> or_add" where
  "sample_claim cid entity h w \<equiv> claim_add (sample_input cid entity) 1000 h w"

lemma sample_claim_fields [simp]:
  "oa_claimId (sample_claim cid entity h w) = cid" "cp_scope (oa_payload (sample_claim cid entity h w)) = [entity]"
  "cp_ttlMs (oa_payload (sample_claim cid entity h w)) = 61000"
  by (simp_all add: claim_add_def sample_input_def)

lemma sample_first:
  "\<exists>dto e h w. post_claim sample_deps 1000 (sample_body ''c0'' ''m/a'') sample_env = (Created dto, e) \<and> sample_ready (Suc 0) e
    \<and> board_holds e [''c0'' \<mapsto> sample_claim ''c0'' ''m/a'' h w]"
  using sample_registers [OF sample_ready_0(1) _ sample_ready_0(2), of "''c0''" "''m/a''"] by auto

lemma sample_first_scope:
  "\<forall>c a. [''c0'' \<mapsto> sample_claim ''c0'' ''m/a'' h w] c = Some a \<longrightarrow> ''m/b'' \<notin> set (cp_scope (oa_payload a))"
  by auto

text \<open>A second claim in the same module waits for the oracle.\<close>

lemma sample_waits:
  assumes "sample_ready k e" "board_holds e [''c0'' \<mapsto> sample_claim ''c0'' ''m/a'' h w]" "cid \<noteq> []" "cid \<noteq> ''c0''"
  shows "\<exists>p. post_begin sample_deps 1000 (sample_body cid ''m/b'') e = Inr p \<and> pd_input p = sample_input cid ''m/b''
    \<and> pd_verdicts p = [] \<and> pd_todo p \<noteq> []"
proof -
  have i: "in_id (sample_input cid ''m/b'') = cid" "in_scope (sample_input cid ''m/b'') = [''m/b'']" by (simp_all add: sample_input_def)
  obtain p where p: "post_begin sample_deps 1000 (sample_body cid ''m/b'') e = Inr p" "pd_input p = sample_input cid ''m/b''"
      "pd_verdicts p = []" "pd_todo p = findAdjacent [''m/b''] (unexpired_claims 1000 e) (db_neighbors (ce_db e)) GateModuleEdge"
  proof -
    have g: "(case cd_gate sample_deps of None \<Rightarrow> GateModuleEdge | Some g \<Rightarrow> g) = GateModuleEdge" by (simp add: sample_deps_def)
    show ?thesis
      using that board_holds_begin [OF assms(2) sample_valid [OF assms(3), of "''m/b''"], of 1000] assms(4) sample_first_scope [of h w]
      unfolding i g by auto
  qed
  let ?c = "\<lparr>cl_id = ''c0'', cl_scope = [''m/a'']\<rparr>"
  have "sample_claim ''c0'' ''m/a'' h w \<in> set (active (Some 1000) (cs_orset (ce_crdt e)))"
    by (simp add: board_holds_active [OF assms(2)])
  then have "?c \<in> set (unexpired_claims 1000 e)" by (force simp: unexpired_claims_def)
  moreover have "gatePredicate GateModuleEdge (db_neighbors (ce_db e)) [''m/b''] [''m/a'']"
    by (simp add: gatePredicate_def isAdjacent_iff modulePrefix_def Let_def)
  ultimately have "?c \<in> set (pd_todo p)" by (simp add: p(4) findAdjacent_def)
  then show ?thesis using p(1-3) by (metis empty_iff empty_set)
qed

text \<open>The answer to a second claim of another entity, at whatever state it finishes.\<close>

lemma sample_lands:
  assumes "sample_ready k e" "k < 9" "board_holds e B" "B cid = None" "pd_input p = sample_input cid ''m/b''" "pd_verdicts p = []"
  shows "\<exists>dto e' h w. post_finish sample_deps 1000 ((post_ask sample_deps e ^^ n) p) e = (Created dto, e') \<and> sample_ready (Suc k) e'
    \<and> board_holds e' (B(cid \<mapsto> sample_claim cid ''m/b'' h w))"
proof -
  have "edges_t (ce_db e) = []" using assms(1) by (simp add: sample_ready_def)
  then show ?thesis
    using sample_finish [OF assms(1-3), of "(post_ask sample_deps e ^^ n) p"] assms(4-6) sample_quiet [of e n p]
    by (simp add: sample_input_def)
qed

theorem claims_exclusive_witness:
  "\<exists>a b. a \<in> set (active (Some 1000) (cs_orset (ce_crdt (fold (serve sample_deps) [(1000, Register (sample_body ''c0'' ''m/a'')), (1000, Register (sample_body ''c1'' ''m/b''))] sample_env))))
    \<and> b \<in> set (active (Some 1000) (cs_orset (ce_crdt (fold (serve sample_deps) [(1000, Register (sample_body ''c0'' ''m/a'')), (1000, Register (sample_body ''c1'' ''m/b''))] sample_env))))
    \<and> oa_claimId a \<noteq> oa_claimId b \<and> set (cp_scope (oa_payload a)) \<inter> set (cp_scope (oa_payload b)) = {}"
proof -
  let ?reqs = "[(1000, Register (sample_body ''c0'' ''m/a'')), (1000, Register (sample_body ''c1'' ''m/b''))]"
  obtain d e h w where 1: "post_claim sample_deps 1000 (sample_body ''c0'' ''m/a'') sample_env = (Created d, e)" "sample_ready (Suc 0) e"
      "board_holds e [''c0'' \<mapsto> sample_claim ''c0'' ''m/a'' h w]"
    using sample_first by blast
  obtain d' e' h' w' where 2: "post_claim sample_deps 1000 (sample_body ''c1'' ''m/b'') e = (Created d', e')"
      "board_holds e' [''c0'' \<mapsto> sample_claim ''c0'' ''m/a'' h w, ''c1'' \<mapsto> sample_claim ''c1'' ''m/b'' h' w']"
  proof -
    have "[''c0'' \<mapsto> sample_claim ''c0'' ''m/a'' h w] ''c1'' = None" by simp
    from sample_registers [OF 1(2) _ 1(3) this _ _ sample_first_scope] that show ?thesis by fastforce
  qed
  have f: "fold (serve sample_deps) ?reqs sample_env = e'" using 1(1) 2(1) by simp
  let ?a = "sample_claim ''c0'' ''m/a'' h w" and ?b = "sample_claim ''c1'' ''m/b'' h' w'"
  have a: "?a \<in> set (active (Some 1000) (cs_orset (ce_crdt (fold (serve sample_deps) ?reqs sample_env))))"
    and b: "?b \<in> set (active (Some 1000) (cs_orset (ce_crdt (fold (serve sample_deps) ?reqs sample_env))))"
    unfolding f by (simp_all add: board_holds_active [OF 2(2)])
  have "cs_orset (ce_crdt sample_env) = orset_empty" by (simp add: sample_env_def crdt_new_def)
  from claims_exclusive [OF this _ _ a b] show ?thesis using a b by (intro exI [of _ ?a] exI [of _ ?b]) simp
qed


text \<open>C17: Exclusion is lost when registrations interleave at the wait for the oracle. On a board with
  one claim, two agents register the same entity of its module: both pass the overlap check and
  wait for the verdict on the existing claim, both are told that there is no conflict, both are
  answered \<open>Created\<close>, and both claims are unexpired on the board with the same scope.\<close>

theorem claims_can_overlap:
  "\<exists>d0 e p q d1 e1 d2 e2 a b. post_claim sample_deps 1000 (sample_body ''c0'' ''m/a'') sample_env = (Created d0, e)
    \<and> post_begin sample_deps 1000 (sample_body ''c1'' ''m/b'') e = Inr p \<and> pd_todo p \<noteq> []
    \<and> post_begin sample_deps 1000 (sample_body ''c2'' ''m/b'') e = Inr q \<and> pd_todo q \<noteq> []
    \<and> post_finish sample_deps 1000 ((post_ask sample_deps e ^^ length (pd_todo p)) p) e = (Created d1, e1)
    \<and> post_finish sample_deps 1000 ((post_ask sample_deps e1 ^^ length (pd_todo q)) q) e1 = (Created d2, e2)
    \<and> a \<in> set (active (Some 1000) (cs_orset (ce_crdt e2))) \<and> b \<in> set (active (Some 1000) (cs_orset (ce_crdt e2)))
    \<and> oa_claimId a = ''c1'' \<and> oa_claimId b = ''c2'' \<and> cp_scope (oa_payload a) = [''m/b''] \<and> cp_scope (oa_payload b) = [''m/b'']"
proof -
  obtain d0 e h w where 0: "post_claim sample_deps 1000 (sample_body ''c0'' ''m/a'') sample_env = (Created d0, e)" "sample_ready (Suc 0) e"
      "board_holds e [''c0'' \<mapsto> sample_claim ''c0'' ''m/a'' h w]"
    using sample_first by blast
  obtain p where p: "post_begin sample_deps 1000 (sample_body ''c1'' ''m/b'') e = Inr p" "pd_input p = sample_input ''c1'' ''m/b''"
      "pd_verdicts p = []" "pd_todo p \<noteq> []"
    using sample_waits [OF 0(2,3), of "''c1''"] by auto
  obtain q where q: "post_begin sample_deps 1000 (sample_body ''c2'' ''m/b'') e = Inr q" "pd_input q = sample_input ''c2'' ''m/b''"
      "pd_verdicts q = []" "pd_todo q \<noteq> []"
    using sample_waits [OF 0(2,3), of "''c2''"] by auto
  obtain d1 e1 h1 w1 where 1: "post_finish sample_deps 1000 ((post_ask sample_deps e ^^ length (pd_todo p)) p) e = (Created d1, e1)"
      "sample_ready (Suc (Suc 0)) e1" "board_holds e1 [''c0'' \<mapsto> sample_claim ''c0'' ''m/a'' h w, ''c1'' \<mapsto> sample_claim ''c1'' ''m/b'' h1 w1]"
    using sample_lands [OF 0(2) _ 0(3) _ p(2,3), of "length (pd_todo p)"] by auto
  obtain d2 e2 h2 w2 where 2: "post_finish sample_deps 1000 ((post_ask sample_deps e1 ^^ length (pd_todo q)) q) e1 = (Created d2, e2)"
      "board_holds e2 [''c0'' \<mapsto> sample_claim ''c0'' ''m/a'' h w, ''c1'' \<mapsto> sample_claim ''c1'' ''m/b'' h1 w1, ''c2'' \<mapsto> sample_claim ''c2'' ''m/b'' h2 w2]"
    using sample_lands [OF 1(2) _ 1(3) _ q(2,3), of "length (pd_todo q)"] by auto
  have "sample_claim ''c1'' ''m/b'' h1 w1 \<in> set (active (Some 1000) (cs_orset (ce_crdt e2)))"
    "sample_claim ''c2'' ''m/b'' h2 w2 \<in> set (active (Some 1000) (cs_orset (ce_crdt e2)))"
    by (simp_all add: board_holds_active [OF 2(2)])
  with 0(1) p(1,4) q(1,4) 1(1) 2(1) sample_claim_fields show ?thesis by blast
qed

end
