(* ===== verification/UniqueIndex.thy ===== *)
theory UniqueIndex
  imports Prelude
begin

text \<open>
  The index both name resolvers build (\<open>graph/traceResolve.ts\<close>, \<open>graph/nameIndex.ts\<close>): a key holds the
  one id filed under it, and is poisoned by a second, distinct one. Shown here: what a key holds
  is determined by the set of ids filed under it, and a hit is the only element of that set.
\<close>

definition AMBIGUOUS :: string where "AMBIGUOUS = char_of (0 :: nat) # ''ambiguous''"

definition index_unique :: "string \<Rightarrow> string \<Rightarrow> (string \<Rightarrow> string option) \<Rightarrow> (string \<Rightarrow> string option)" where
  "index_unique key i m =
     (case m key of None \<Rightarrow> m(key \<mapsto> i)
      | Some existing \<Rightarrow> if existing \<noteq> i then m(key \<mapsto> AMBIGUOUS) else m)"

definition hit :: "(string \<Rightarrow> string option) \<Rightarrow> string \<Rightarrow> string option" where
  "hit m key = (case m key of Some v \<Rightarrow> if v \<noteq> AMBIGUOUS then Some v else None | None \<Rightarrow> None)"

definition unique_of :: "string set \<Rightarrow> string option" where
  "unique_of C = (if C = {} then None else if is_singleton C then Some (the_elem C) else Some AMBIGUOUS)"

lemma unique_of_cases:
  obtains "C = {}" "unique_of C = None" | i where "C = {i}" "unique_of C = Some i"
    | "C \<noteq> {}" "\<nexists>i. C = {i}" "unique_of C = Some AMBIGUOUS"
  unfolding unique_of_def is_singleton_def by (cases "C = {}"; cases "\<exists>i. C = {i}") auto

lemma unique_of_singleton [simp]: "unique_of {i} = Some i"
  by (simp add: unique_of_def is_singleton_def)

lemma unique_of_many: "i \<in> C \<Longrightarrow> j \<in> C \<Longrightarrow> i \<noteq> j \<Longrightarrow> unique_of C = Some AMBIGUOUS"
  by (cases C rule: unique_of_cases) auto

lemma unique_of_insert:
  assumes "AMBIGUOUS \<notin> C" "i \<noteq> AMBIGUOUS"
  shows "unique_of (insert i C) =
     (case unique_of C of None \<Rightarrow> Some i | Some e \<Rightarrow> if e \<noteq> i then Some AMBIGUOUS else Some e)"
proof (cases C rule: unique_of_cases)
  case 1
  then show ?thesis by simp
next
  case (2 e)
  then show ?thesis using unique_of_many [of e "insert i C" i] by auto
next
  case 3
  then obtain a where "a \<in> C" "a \<noteq> i" by blast
  then show ?thesis using 3 assms(2) unique_of_many [of a "insert i C" i] by simp
qed

lemma index_unique_step:
  assumes "m = (\<lambda>key. unique_of (C key))" "\<forall>key. AMBIGUOUS \<notin> C key" "i \<noteq> AMBIGUOUS"
  shows "index_unique k i m = (\<lambda>key. unique_of (if key = k then insert i (C key) else C key))"
proof
  fix key
  show "index_unique k i m key = unique_of (if key = k then insert i (C key) else C key)"
  proof (cases "key = k")
    case True
    then show ?thesis
      using unique_of_insert [of "C k" i] assms(2,3) by (simp add: index_unique_def assms(1) split: option.splits)
  next
    case False
    then have "index_unique k i m key = m key" by (auto simp: index_unique_def split: option.splits)
    with False show ?thesis by (simp add: assms(1))
  qed
qed

lemma hit_unique:
  assumes "AMBIGUOUS \<notin> D key"
  shows "hit (\<lambda>key. unique_of (D key)) key = Some i \<longleftrightarrow> D key = {i}"
  using assms by (cases "D key" rule: unique_of_cases) (auto simp: hit_def)

end
