(* ===== verification/TraceResolve.thy ===== *)
theory TraceResolve
  imports Text GraphDb UniqueIndex
begin

text \<open>
  From runtime names to indexed entities, \<open>src/daemon/src/graph/traceResolve.ts\<close>. A trace records a
  call under the names the program has at run time; the resolver maps such a name to a node of the
  index only when the index leaves no choice, or the module path in the name singles one out. The
  maps of the class \<open>TraceNameResolver\<close> are the record \<open>resolver\<close>. Shown here: the resolver computes
  the contract stated by \<open>resolves_to\<close>, which speaks of sets of nodes only.
\<close>

subsection \<open>Names\<close>

record indexed_node =
  in_id :: string
  in_name :: string
  in_qualified_name :: string

definition HINT_EXTENSION_SEGMENTS :: "string list" where
  "HINT_EXTENSION_SEGMENTS = [''ts'', ''tsx'', ''js'', ''jsx'', ''mjs'', ''cjs'', ''mts'', ''cts'', ''py'', ''rs'', ''go'']"

text \<open>The loop over \<open>i\<close>: does the run occur in the segments?\<close>

fun occurs_run :: "string list \<Rightarrow> string list \<Rightarrow> bool" where
  "occurs_run run [] \<longleftrightarrow> run = []"
| "occurs_run run (s # segs) \<longleftrightarrow> prefix run (s # segs) \<or> occurs_run run segs"

text \<open>The loop over \<open>len\<close>, on the suffixes of the hint, the longest first.\<close>

fun longestHintSuffixRun :: "string list \<Rightarrow> string list \<Rightarrow> nat" where
  "longestHintSuffixRun [] segs = 0"
| "longestHintSuffixRun (h # hint) segs =
     (if occurs_run (h # hint) segs then Suc (length hint) else longestHintSuffixRun hint segs)"

text \<open>One pass of \<open>replace\<close> with the receiver pattern: a pair of parentheses without others between
  them leaves its content, less one star in front.\<close>

definition paren :: "char \<Rightarrow> bool" where "paren c \<longleftrightarrow> c = CHR ''('' \<or> c = CHR '')''"

function strip_receivers :: "string \<Rightarrow> string" where
  "strip_receivers [] = []"
| "strip_receivers (c # s) =
     (if c = CHR ''(''
      then let body = takeWhile (\<lambda>x. \<not> paren x) s; tail = dropWhile (\<lambda>x. \<not> paren x) s
           in if tail \<noteq> [] \<and> hd tail = CHR '')''
              then (if body \<noteq> [] \<and> hd body = CHR ''*'' then tl body else body) @ strip_receivers (tl tail)
              else c # strip_receivers s
      else c # strip_receivers s)"
  by pat_completeness auto
termination
  by (relation "measure length") (auto simp: less_Suc_eq_le intro: le_trans [OF diff_le_self length_dropWhile_le])

text \<open>One pass of the pattern of generic parameters, and the passes until nothing changes.\<close>

definition angle :: "char \<Rightarrow> bool" where "angle c \<longleftrightarrow> c = CHR ''<'' \<or> c = CHR ''>''"

function strip_generics_once :: "string \<Rightarrow> string" where
  "strip_generics_once [] = []"
| "strip_generics_once (c # s) =
     (let tail = dropWhile (\<lambda>x. \<not> angle x) s
      in if c = CHR ''<'' \<and> tail \<noteq> [] \<and> hd tail = CHR ''>'' then strip_generics_once (tl tail)
         else c # strip_generics_once s)"
  by pat_completeness auto
termination
  by (relation "measure length") (auto simp: less_Suc_eq_le intro: le_trans [OF diff_le_self length_dropWhile_le])

lemma strip_generics_once_shrinks:
  "length (strip_generics_once s) \<le> length s \<and> (length (strip_generics_once s) = length s \<longrightarrow> strip_generics_once s = s)"
proof (induction s rule: strip_generics_once.induct)
  case 1
  then show ?case by simp
next
  case (2 c s)
  let ?tail = "dropWhile (\<lambda>x. \<not> angle x) s"
  show ?case
  proof (cases "c = CHR ''<'' \<and> ?tail \<noteq> [] \<and> hd ?tail = CHR ''>''")
    case True
    with 2(1) [OF refl] have "length (strip_generics_once (tl ?tail)) \<le> length (tl ?tail)" by simp
    also have "\<dots> < Suc (length s)" using length_dropWhile_le [of "\<lambda>x. \<not> angle x" s] by simp
    finally show ?thesis using True by simp
  next
    case False
    with 2(2) [OF refl] show ?thesis by (auto simp: Let_def)
  qed
qed

function strip_generics :: "string \<Rightarrow> string" where
  "strip_generics s = (let t = strip_generics_once s in if t = s then s else strip_generics t)"
  by pat_completeness auto
termination
  by (relation "measure length") (use strip_generics_once_shrinks in \<open>auto simp: order.strict_iff_order\<close>)

declare strip_generics.simps [simp del]

definition separator :: "char \<Rightarrow> bool" where "separator c \<longleftrightarrow> c \<in> set ''.:/''"

text \<open>Splitting at \<open>::\<close> or at each colon differs in empty pieces, which are dropped.\<close>

definition normalizeRuntimeName :: "string \<Rightarrow> string list" where
  "normalizeRuntimeName raw =
     filter (\<lambda>seg. seg \<noteq> [])
       (map trim (split_on separator (filter (\<lambda>c. \<not> angle c) (strip_generics (strip_receivers raw)))))"

subsection \<open>The resolver\<close>

record resolver =
  byQualified :: "string \<Rightarrow> string option"
  byName :: "string \<Rightarrow> string option"
  candidatesByName :: "string \<Rightarrow> string list option"
  candidatesByQualified :: "string \<Rightarrow> string list option"

definition resolver_index :: "string \<Rightarrow> string \<Rightarrow> (string \<Rightarrow> string option) \<Rightarrow> (string \<Rightarrow> string option)" where
  "resolver_index key i m =
     (if key = [] then m
      else index_unique key i m)"

definition addCandidate :: "string \<Rightarrow> string \<Rightarrow> (string \<Rightarrow> string list option) \<Rightarrow> (string \<Rightarrow> string list option)" where
  "addCandidate key i m =
     (if key = [] then m
      else case m key of None \<Rightarrow> m(key \<mapsto> [i])
      | Some ids \<Rightarrow> if i \<in> set ids then m else m(key \<mapsto> ids @ [i]))"

definition add_node :: "indexed_node \<Rightarrow> resolver \<Rightarrow> resolver" where
  "add_node n r = r\<lparr>
     byQualified := resolver_index (in_qualified_name n) (in_id n) (byQualified r),
     byName := resolver_index (in_name n) (in_id n) (byName r),
     candidatesByName := addCandidate (in_name n) (in_id n) (candidatesByName r),
     candidatesByQualified := addCandidate (in_qualified_name n) (in_id n) (candidatesByQualified r)\<rparr>"

definition resolver_of :: "indexed_node list \<Rightarrow> resolver" where
  "resolver_of nodes = fold add_node nodes
     \<lparr>byQualified = (\<lambda>_. None), byName = (\<lambda>_. None), candidatesByName = (\<lambda>_. None), candidatesByQualified = (\<lambda>_. None)\<rparr>"

text \<open>\<open>(suffix, shared)\<close> of a candidate, and the state of the loop over the candidates.\<close>

definition hint_score :: "string list \<Rightarrow> string \<Rightarrow> nat \<times> nat" where
  "hint_score cleaned i =
     (let segs = normalizeRuntimeName i
      in (longestHintSuffixRun cleaned segs, length (filter (\<lambda>s. s \<in> set cleaned) segs)))"

record hint_best =
  hb_best :: "string option"
  hb_score :: "nat \<times> nat"
  hb_tie :: bool

definition better :: "nat \<times> nat \<Rightarrow> nat \<times> nat \<Rightarrow> bool" where
  "better a b \<longleftrightarrow> fst b < fst a \<or> fst a = fst b \<and> snd b < snd a"

definition weigh :: "string list \<Rightarrow> string \<Rightarrow> hint_best \<Rightarrow> hint_best" where
  "weigh cleaned i h =
     (let sc = hint_score cleaned i
      in if sc = (0, 0) then h
         else if better sc (hb_score h) then \<lparr>hb_best = Some i, hb_score = sc, hb_tie = False\<rparr>
         else if sc = hb_score h then h\<lparr>hb_tie := True\<rparr>
         else h)"

definition clean_hint :: "string list \<Rightarrow> string list" where
  "clean_hint hint = filter (\<lambda>seg. seg \<notin> set HINT_EXTENSION_SEGMENTS) hint"

definition resolveByHint :: "string list \<Rightarrow> string list \<Rightarrow> string option" where
  "resolveByHint candidates hint =
     (if clean_hint hint = [] then None
      else let h = fold (weigh (clean_hint hint)) candidates \<lparr>hb_best = None, hb_score = (0, 0), hb_tie = False\<rparr>
           in if hb_best h \<noteq> None \<and> \<not> hb_tie h then hb_best h else None)"

text \<open>The empty string is falsy: as a hit it counts as none here.\<close>

definition truthy :: "string option \<Rightarrow> bool" where
  "truthy v \<longleftrightarrow> v \<noteq> None \<and> v \<noteq> Some []"

definition resolveQualifiedJoin :: "resolver \<Rightarrow> string list \<Rightarrow> nat \<Rightarrow> string option" where
  "resolveQualifiedJoin r segs n =
     (if length segs < n then None
      else let key = joined CHR ''.'' (drop (length segs - n) segs)
           in if truthy (hit (byQualified r) key) then hit (byQualified r) key
              else case candidatesByQualified r key of
                Some cands \<Rightarrow> if 2 \<le> length cands then resolveByHint cands (take (length segs - n) segs) else None
              | None \<Rightarrow> None)"

definition resolve_one :: "resolver \<Rightarrow> string list \<Rightarrow> string option" where
  "resolve_one r segs =
     (let one = last segs; hint = butlast segs
      in case candidatesByName r one of
           Some cands \<Rightarrow>
             if 2 \<le> length cands then resolveByHint cands hint
             else (case hit (byQualified r) one of Some i \<Rightarrow> Some i | None \<Rightarrow> hit (byName r) one)
         | None \<Rightarrow> (case hit (byQualified r) one of Some i \<Rightarrow> Some i | None \<Rightarrow> hit (byName r) one))"

definition resolve :: "resolver \<Rightarrow> string \<Rightarrow> string option" where
  "resolve r raw =
     (let segs = normalizeRuntimeName raw
      in if segs = [] then None
         else if truthy (resolveQualifiedJoin r segs 2) then resolveQualifiedJoin r segs 2
         else if truthy (resolveQualifiedJoin r segs 3) then resolveQualifiedJoin r segs 3
         else resolve_one r segs)"

definition buildTraceResolver :: "db \<Rightarrow> resolver" where
  "buildTraceResolver d =
     resolver_of (map (\<lambda>r. \<lparr>in_id = nr_id r, in_name = nr_name r, in_qualified_name = nr_qualified_name r\<rparr>) (nodes_t d))"

subsection \<open>The contract\<close>

text \<open>
  The ids that share a name; the candidate a hint singles out: it shares something with the hint
  and beats every other. Then the order of precedence of \<open>resolve\<close>.
\<close>

definition ids_by :: "(indexed_node \<Rightarrow> string) \<Rightarrow> indexed_node set \<Rightarrow> string \<Rightarrow> string set" where
  "ids_by f N key = {in_id n | n. n \<in> N \<and> f n = key \<and> key \<noteq> []}"

definition singled_out :: "string list \<Rightarrow> string set \<Rightarrow> string \<Rightarrow> bool" where
  "singled_out hint C i \<longleftrightarrow> i \<in> C \<and> hint_score (clean_hint hint) i \<noteq> (0, 0)
     \<and> (\<forall>j \<in> C. j \<noteq> i \<longrightarrow> better (hint_score (clean_hint hint) i) (hint_score (clean_hint hint) j))"

definition joins_to :: "indexed_node set \<Rightarrow> string list \<Rightarrow> nat \<Rightarrow> string \<Rightarrow> bool" where
  "joins_to N segs n i \<longleftrightarrow> n \<le> length segs \<and> i \<noteq> []
     \<and> (let C = ids_by in_qualified_name N (joined CHR ''.'' (drop (length segs - n) segs))
        in C = {i} \<or> 2 \<le> card C \<and> singled_out (take (length segs - n) segs) C i)"

definition names :: "indexed_node set \<Rightarrow> string list \<Rightarrow> string \<Rightarrow> bool" where
  "names N segs i \<longleftrightarrow>
     (let C = ids_by in_name N (last segs); Q = ids_by in_qualified_name N (last segs)
      in if 2 \<le> card C then singled_out (butlast segs) C i
         else Q = {i} \<or> (\<nexists>j. Q = {j}) \<and> C = {i})"

definition resolves_to :: "indexed_node set \<Rightarrow> string list \<Rightarrow> string \<Rightarrow> bool" where
  "resolves_to N segs i \<longleftrightarrow> segs \<noteq> []
     \<and> (joins_to N segs 2 i
        \<or> (\<nexists>j. joins_to N segs 2 j) \<and> (joins_to N segs 3 i \<or> (\<nexists>j. joins_to N segs 3 j) \<and> names N segs i))"

subsection \<open>The maps hold the sets\<close>

definition lists_of :: "(string \<Rightarrow> string list option) \<Rightarrow> (string \<Rightarrow> string set) \<Rightarrow> bool" where
  "lists_of m C \<longleftrightarrow> (\<forall>key. case m key of None \<Rightarrow> C key = {} | Some l \<Rightarrow> distinct l \<and> l \<noteq> [] \<and> set l = C key)"

lemma resolver_index_step:
  assumes "m = (\<lambda>key. unique_of (C key))" "\<forall>key. AMBIGUOUS \<notin> C key" "i \<noteq> AMBIGUOUS"
  shows "resolver_index k i m = (\<lambda>key. unique_of (if key = k \<and> key \<noteq> [] then insert i (C key) else C key))"
proof (cases "k = []")
  case True
  then show ?thesis by (auto simp: resolver_index_def assms(1) intro!: arg_cong [of _ _ unique_of])
next
  case False
  then have "resolver_index k i m = (\<lambda>key. unique_of (if key = k then insert i (C key) else C key))"
    using index_unique_step [OF assms] by (simp add: resolver_index_def)
  also have "\<dots> = (\<lambda>key. unique_of (if key = k \<and> key \<noteq> [] then insert i (C key) else C key))"
    using False by (auto intro!: ext arg_cong [of _ _ unique_of])
  finally show ?thesis .
qed

lemma addCandidate_step:
  assumes "lists_of m C"
  shows "lists_of (addCandidate k i m) (\<lambda>key. if key = k \<and> key \<noteq> [] then insert i (C key) else C key)"
  unfolding lists_of_def
proof
  fix key
  have m: "case m key of None \<Rightarrow> C key = {} | Some l \<Rightarrow> distinct l \<and> l \<noteq> [] \<and> set l = C key"
    using assms by (simp add: lists_of_def)
  let ?D = "if key = k \<and> key \<noteq> [] then insert i (C key) else C key"
  show "case addCandidate k i m key of None \<Rightarrow> ?D = {} | Some l \<Rightarrow> distinct l \<and> l \<noteq> [] \<and> set l = ?D"
  proof (cases "key = k \<and> key \<noteq> []")
    case True
    then show ?thesis using m by (auto simp: addCandidate_def split: option.splits)
  next
    case False
    then have "addCandidate k i m key = m key" by (auto simp: addCandidate_def split: option.splits)
    then show ?thesis unfolding if_not_P [OF False] using m by simp
  qed
qed

definition resolver_inv :: "indexed_node set \<Rightarrow> resolver \<Rightarrow> bool" where
  "resolver_inv N r \<longleftrightarrow>
     byQualified r = (\<lambda>key. unique_of (ids_by in_qualified_name N key))
     \<and> byName r = (\<lambda>key. unique_of (ids_by in_name N key))
     \<and> lists_of (candidatesByName r) (ids_by in_name N)
     \<and> lists_of (candidatesByQualified r) (ids_by in_qualified_name N)"

lemma ids_by_insert:
  "ids_by f (insert n N) key = (if key = f n \<and> key \<noteq> [] then insert (in_id n) (ids_by f N key) else ids_by f N key)"
  by (auto simp: ids_by_def)

lemma add_node_inv:
  assumes "resolver_inv N r" "\<forall>n' \<in> insert n N. in_id n' \<noteq> AMBIGUOUS"
  shows "resolver_inv (insert n N) (add_node n r)"
proof -
  have a: "\<forall>key. AMBIGUOUS \<notin> ids_by f N key" for f using assms(2) by (auto simp: ids_by_def)
  have i: "in_id n \<noteq> AMBIGUOUS" using assms(2) by simp
  show ?thesis
    using assms(1) resolver_index_step [OF _ a i] addCandidate_step
    unfolding resolver_inv_def add_node_def ids_by_insert by simp
qed

lemma resolver_of_inv:
  assumes "\<forall>n \<in> set ns. in_id n \<noteq> AMBIGUOUS"
  shows "resolver_inv (set ns) (resolver_of ns)"
proof -
  have "resolver_inv (set ns \<union> N) (fold add_node ns r)"
    if "resolver_inv N r" "\<forall>n \<in> set ns \<union> N. in_id n \<noteq> AMBIGUOUS" for N r
    using that
  proof (induction ns arbitrary: N r)
    case (Cons n ns)
    then have "resolver_inv (set ns \<union> insert n N) (fold add_node ns (add_node n r))"
      by (intro Cons.IH add_node_inv) auto
    then show ?case by simp
  qed simp
  moreover have "resolver_inv {} \<lparr>byQualified = (\<lambda>_. None), byName = (\<lambda>_. None), candidatesByName = (\<lambda>_. None), candidatesByQualified = (\<lambda>_. None)\<rparr>"
    by (simp add: resolver_inv_def ids_by_def unique_of_def lists_of_def)
  ultimately show ?thesis using assms by (fastforce simp: resolver_of_def)
qed

subsection \<open>The candidates in turn\<close>

definition hint_inv :: "string list \<Rightarrow> string set \<Rightarrow> hint_best \<Rightarrow> bool" where
  "hint_inv cl P h \<longleftrightarrow>
     (case hb_best h of
        None \<Rightarrow> hb_score h = (0, 0) \<and> (\<forall>j \<in> P. hint_score cl j = (0, 0))
      | Some b \<Rightarrow> b \<in> P \<and> hb_score h = hint_score cl b \<and> hint_score cl b \<noteq> (0, 0)
          \<and> (\<forall>j \<in> P. \<not> better (hint_score cl j) (hint_score cl b))
          \<and> (hb_tie h \<longleftrightarrow> (\<exists>j \<in> P. j \<noteq> b \<and> hint_score cl j = hint_score cl b)))"

lemma better_linear: "better a b \<or> better b a \<or> a = b"
  by (cases a, cases b) (auto simp: better_def)

lemma better_irrefl: "\<not> better a a" and better_asym: "better a b \<Longrightarrow> \<not> better b a"
  and better_trans: "better a b \<Longrightarrow> better b c \<Longrightarrow> better a c"
  and better_zero: "\<not> better (0, 0) a" "a \<noteq> (0, 0) \<Longrightarrow> better a (0, 0)"
  by (cases a; cases b; cases c; auto simp: better_def)+

lemma weigh_inv:
  assumes "hint_inv cl P h" "i \<notin> P"
  shows "hint_inv cl (insert i P) (weigh cl i h)"
proof (cases "hb_best h")
  case None
  with assms show ?thesis
    using better_irrefl better_zero by (auto simp: hint_inv_def weigh_def Let_def)
next
  case (Some b)
  let ?b = "hint_score cl b" and ?i = "hint_score cl i"
  from Some assms have h: "b \<in> P" "hb_score h = ?b" "?b \<noteq> (0, 0)" "\<forall>j \<in> P. \<not> better (hint_score cl j) ?b"
    "hb_tie h \<longleftrightarrow> (\<exists>j \<in> P. j \<noteq> b \<and> hint_score cl j = ?b)" by (auto simp: hint_inv_def)
  consider "?i = (0, 0)" | "?i \<noteq> (0, 0)" "better ?i ?b" | "?i \<noteq> (0, 0)" "?i = ?b" | "?i \<noteq> (0, 0)" "better ?b ?i"
    using better_linear by metis
  then show ?thesis
  proof cases
    case 1
    then show ?thesis using Some h by (auto simp: hint_inv_def weigh_def better_zero)
  next
    case 2
    then have "\<not> better (hint_score cl j) ?i" "hint_score cl j \<noteq> ?i" if "j \<in> P" for j
      using h(4) that better_trans by metis+
    then show ?thesis using 2 h(2) assms(2) by (auto simp: hint_inv_def weigh_def better_irrefl)
  next
    case 3
    then show ?thesis using Some h assms(2) by (auto simp: hint_inv_def weigh_def better_irrefl)
  next
    case 4
    then have "\<not> better ?i ?b" "?i \<noteq> ?b" using better_asym better_irrefl by metis+
    then show ?thesis using Some h 4 by (auto simp: hint_inv_def weigh_def)
  qed
qed

lemma weigh_all:
  assumes "hint_inv cl P h" "distinct is" "set is \<inter> P = {}"
  shows "hint_inv cl (set is \<union> P) (fold (weigh cl) is h)"
  using assms
proof (induction "is" arbitrary: P h)
  case (Cons i "is")
  then have "hint_inv cl (set is \<union> insert i P) (fold (weigh cl) is (weigh cl i h))"
    by (intro Cons.IH weigh_inv) auto
  then show ?case by simp
qed simp

lemma resolveByHint_iff:
  assumes "distinct cands"
  shows "resolveByHint cands hint = Some i \<longleftrightarrow> singled_out hint (set cands) i"
proof -
  let ?cl = "clean_hint hint"
  let ?h = "fold (weigh ?cl) cands \<lparr>hb_best = None, hb_score = (0, 0), hb_tie = False\<rparr>"
  have inv: "hint_inv ?cl (set cands) ?h"
    using weigh_all [of ?cl "{}" _ cands] assms by (simp add: hint_inv_def)
  have zero: "hint_score ?cl j = (0, 0)" if "?cl = []" for j
    unfolding that by (simp add: hint_score_def)
  show ?thesis
  proof (cases "hb_best ?h")
    case None
    with inv show ?thesis by (auto simp: resolveByHint_def singled_out_def hint_inv_def)
  next
    case (Some b)
    have h: "b \<in> set cands" "hint_score ?cl b \<noteq> (0, 0)"
      and le: "\<forall>j \<in> set cands. \<not> better (hint_score ?cl j) (hint_score ?cl b)"
      and tie: "hb_tie ?h \<longleftrightarrow> (\<exists>j \<in> set cands. j \<noteq> b \<and> hint_score ?cl j = hint_score ?cl b)"
      using inv unfolding hint_inv_def Some by simp_all
    have "?cl \<noteq> []" using h(2) zero [of b] by blast
    then have "resolveByHint cands hint = (if hb_tie ?h then None else Some b)"
      using Some by (simp add: resolveByHint_def)
    moreover have "singled_out hint (set cands) i \<longleftrightarrow> i = b \<and> \<not> hb_tie ?h"
    proof
      assume i: "singled_out hint (set cands) i"
      have "i = b"
      proof (rule ccontr)
        assume "i \<noteq> b"
        with i h(1) have "better (hint_score ?cl i) (hint_score ?cl b)" by (simp add: singled_out_def)
        with i le show False by (auto simp: singled_out_def)
      qed
      moreover have "\<not> (j \<noteq> b \<and> hint_score ?cl j = hint_score ?cl b)" if "j \<in> set cands" for j
        using i that \<open>i = b\<close> better_irrefl [of "hint_score ?cl b"] by (auto simp: singled_out_def)
      ultimately show "i = b \<and> \<not> hb_tie ?h" unfolding tie by blast
    next
      assume i: "i = b \<and> \<not> hb_tie ?h"
      have "better (hint_score ?cl b) (hint_score ?cl j)" if "j \<in> set cands" "j \<noteq> b" for j
        using i tie le that better_linear [of "hint_score ?cl b" "hint_score ?cl j"] by auto
      with i h show "singled_out hint (set cands) i" by (simp add: singled_out_def)
    qed
    ultimately show ?thesis by auto
  qed
qed

subsection \<open>The order of precedence\<close>

lemma ids_card:
  assumes "lists_of m C"
  shows "case m key of None \<Rightarrow> C key = {}
    | Some l \<Rightarrow> distinct l \<and> set l = C key \<and> length l = card (C key)"
  using assms [unfolded lists_of_def, rule_format, of key] by (cases "m key") (auto dest: distinct_card)

lemma singleton_card: "C = {i} \<Longrightarrow> \<not> 2 \<le> card C"
  by simp

lemma truthy_Some: "truthy v \<and> v = Some i \<longleftrightarrow> i \<noteq> [] \<and> v = Some i"
  by (auto simp: truthy_def)

lemma join_iff:
  assumes "resolver_inv N r" "\<forall>n \<in> N. in_id n \<noteq> AMBIGUOUS"
  shows "truthy (resolveQualifiedJoin r segs n) \<and> resolveQualifiedJoin r segs n = Some i \<longleftrightarrow> joins_to N segs n i"
proof (cases "n \<le> length segs")
  case False
  then show ?thesis by (simp add: resolveQualifiedJoin_def joins_to_def)
next
  case True
  let ?key = "joined CHR ''.'' (drop (length segs - n) segs)" and ?hint = "take (length segs - n) segs"
  let ?C = "ids_by in_qualified_name N ?key"
  have "AMBIGUOUS \<notin> ?C" using assms(2) by (auto simp: ids_by_def)
  then have h: "hit (byQualified r) ?key = Some j \<longleftrightarrow> ?C = {j}" for j
    using assms(1) hit_unique [of "ids_by in_qualified_name N" ?key j] by (simp add: resolver_inv_def)
  have c: "case candidatesByQualified r ?key of None \<Rightarrow> ?C = {}
      | Some l \<Rightarrow> distinct l \<and> set l = ?C \<and> length l = card ?C"
    by (rule ids_card) (use assms(1) in \<open>simp add: resolver_inv_def\<close>)
  have j: "joins_to N segs n i \<longleftrightarrow> i \<noteq> [] \<and> (?C = {i} \<or> 2 \<le> card ?C \<and> singled_out ?hint ?C i)"
    using True by (simp add: joins_to_def Let_def)
  show ?thesis
  proof (cases "truthy (hit (byQualified r) ?key)")
    case True
    then obtain k where k: "hit (byQualified r) ?key = Some k" "k \<noteq> []" by (auto simp: truthy_def)
    then have "?C = {k}" using h by simp
    moreover have "resolveQualifiedJoin r segs n = Some k"
      using True k \<open>n \<le> length segs\<close> by (simp add: resolveQualifiedJoin_def Let_def)
    ultimately show ?thesis unfolding j truthy_def using k(2) by (cases "i = k") simp_all
  next
    case False
    have "?C \<noteq> {i}" if "i \<noteq> []"
    proof
      assume "?C = {i}"
      then have "hit (byQualified r) ?key = Some i" by (rule iffD2 [OF h])
      with False that show False by (simp add: truthy_def)
    qed
    moreover have "resolveQualifiedJoin r segs n = Some i \<longleftrightarrow> 2 \<le> card ?C \<and> singled_out ?hint ?C i"
    proof (cases "candidatesByQualified r ?key")
      case None
      with c False \<open>n \<le> length segs\<close> show ?thesis by (simp add: resolveQualifiedJoin_def Let_def)
    next
      case (Some l)
      with c have l: "distinct l" "set l = ?C" "length l = card ?C" by simp_all
      with Some False \<open>n \<le> length segs\<close> resolveByHint_iff [OF l(1), of ?hint i] show ?thesis
        by (simp add: resolveQualifiedJoin_def Let_def)
    qed
    ultimately show ?thesis unfolding j truthy_Some by blast
  qed
qed

lemma names_iff:
  assumes "resolver_inv N r" "\<forall>n \<in> N. in_id n \<noteq> AMBIGUOUS"
  shows "resolve_one r segs = Some i \<longleftrightarrow> names N segs i"
proof -
  let ?key = "last segs"
  let ?C = "ids_by in_name N ?key" and ?Q = "ids_by in_qualified_name N ?key"
  have "AMBIGUOUS \<notin> ?C" "AMBIGUOUS \<notin> ?Q" using assms(2) by (auto simp: ids_by_def)
  then have h: "hit (byQualified r) ?key = Some j \<longleftrightarrow> ?Q = {j}" "hit (byName r) ?key = Some j \<longleftrightarrow> ?C = {j}" for j
    using assms(1) hit_unique [of "ids_by in_qualified_name N" ?key j] hit_unique [of "ids_by in_name N" ?key j]
    by (simp_all add: resolver_inv_def)
  have fall: "(case hit (byQualified r) ?key of Some i \<Rightarrow> Some i | None \<Rightarrow> hit (byName r) ?key) = Some i
      \<longleftrightarrow> ?Q = {i} \<or> (\<nexists>j. ?Q = {j}) \<and> ?C = {i}"
  proof (cases "hit (byQualified r) ?key")
    case None
    then have "\<nexists>j. ?Q = {j}" using h(1) by fastforce
    then show ?thesis using None h(2) by auto
  next
    case (Some j)
    then show ?thesis using h(1) [of j] by auto
  qed
  have c: "case candidatesByName r ?key of None \<Rightarrow> ?C = {}
      | Some l \<Rightarrow> distinct l \<and> set l = ?C \<and> length l = card ?C"
    by (rule ids_card) (use assms(1) in \<open>simp add: resolver_inv_def\<close>)
  show ?thesis
  proof (cases "candidatesByName r ?key")
    case None
    with c have "\<not> 2 \<le> card ?C" by simp
    with None fall show ?thesis by (simp add: resolve_one_def names_def Let_def)
  next
    case (Some l)
    with c have l: "distinct l" "set l = ?C" "length l = card ?C" by simp_all
    with Some fall resolveByHint_iff [OF l(1), of "butlast segs" i] show ?thesis
      by (simp add: resolve_one_def names_def Let_def)
  qed
qed

text \<open>C18: resolution of a runtime name is the contract: it depends only on the set of indexed nodes,
  never on their order, and answers an id only when it is the only one with the name, or the one
  that the module path in the name fits strictly better than any other.\<close>

theorem resolve_contract:
  assumes "\<forall>n \<in> set ns. in_id n \<noteq> AMBIGUOUS"
  shows "resolve (resolver_of ns) raw = Some i \<longleftrightarrow> resolves_to (set ns) (normalizeRuntimeName raw) i"
proof -
  let ?r = "resolver_of ns" and ?segs = "normalizeRuntimeName raw"
  have inv: "resolver_inv (set ns) ?r" by (rule resolver_of_inv [OF assms])
  note J = join_iff [OF inv assms, of ?segs]
  have t: "truthy (resolveQualifiedJoin ?r ?segs n) \<longleftrightarrow> (\<exists>j. joins_to (set ns) ?segs n j)" for n
    using J [of n] by (auto simp: truthy_def)
  show ?thesis
    using J [of 2 i] J [of 3 i] t [of 2] t [of 3] names_iff [OF inv assms, of ?segs i]
    by (auto simp: resolve_def resolves_to_def Let_def)
qed

theorem resolve_contract_witness:
  "resolve (resolver_of
      [\<lparr>in_id = ''db/queries/Db.close'', in_name = ''close'', in_qualified_name = ''Db.close''\<rparr>,
       \<lparr>in_id = ''routes/ws/close'', in_name = ''close'', in_qualified_name = ''close''\<rparr>]) ''queries:close''
    = Some ''db/queries/Db.close''
   \<and> resolves_to {\<lparr>in_id = ''db/queries/Db.close'', in_name = ''close'', in_qualified_name = ''Db.close''\<rparr>,
       \<lparr>in_id = ''routes/ws/close'', in_name = ''close'', in_qualified_name = ''close''\<rparr>}
      (normalizeRuntimeName ''queries:close'') ''db/queries/Db.close''"
proof -
  let ?ns = "[\<lparr>in_id = ''db/queries/Db.close'', in_name = ''close'', in_qualified_name = ''Db.close''\<rparr>,
       \<lparr>in_id = ''routes/ws/close'', in_name = ''close'', in_qualified_name = ''close''\<rparr>]"
  have r: "resolve (resolver_of ?ns) ''queries:close'' = Some ''db/queries/Db.close''" by code_simp
  moreover have "\<forall>n \<in> set ?ns. in_id n \<noteq> AMBIGUOUS" by code_simp
  from resolve_contract [OF this, of "''queries:close''" "''db/queries/Db.close''"] r
  have "resolves_to (set ?ns) (normalizeRuntimeName ''queries:close'') ''db/queries/Db.close''" by blast
  ultimately show ?thesis by simp
qed

text \<open>
  A directory may have the name of an extension. Its segment is dropped from the hint but not from
  the ids, so the entity at exactly the path of the hint loses to one whose path lacks the segment.
\<close>

theorem extension_directory_misresolves:
  "resolve (resolver_of
      [\<lparr>in_id = ''x/a/go/b/f'', in_name = ''f'', in_qualified_name = ''f''\<rparr>,
       \<lparr>in_id = ''a/b/f'', in_name = ''f'', in_qualified_name = ''f''\<rparr>]) ''x/a/go/b:f'' = Some ''a/b/f''
   \<and> longestHintSuffixRun [''x'', ''a'', ''go'', ''b''] (normalizeRuntimeName ''x/a/go/b/f'') = 4
   \<and> longestHintSuffixRun [''x'', ''a'', ''go'', ''b''] (normalizeRuntimeName ''a/b/f'') = 1"
  by code_simp

end
