(* ===== verification/TestNodes.thy ===== *)
theory TestNodes
  imports Text
begin

text \<open>
  Which nodes are tests and how to run one, \<open>src/daemon/src/db/test_nodes.ts\<close>. The patterns
  \<open>/^Test[A-Z0-9_]/\<close> and their like are tests of the first characters. Shown here: a handle given
  to pytest names a function or class that pytest collects, in a file that pytest collects; one
  given to vitest or jest is a spec file; and what a handle loses is only its runnable.
\<close>

record test_candidate =
  tc_id :: string
  tc_name :: string
  tc_file :: "string option"
  tc_language :: "string option"
  tc_kind :: "string option"

datatype test_runner = Pytest | Vitest | Jest | Go | Cargo | Unknown

record test_handle =
  th_id :: string
  th_file :: "string option"
  th_runnable :: "string option"
  th_runner :: test_runner

definition DEFAULT_TEST_PATH_PATTERNS :: "string list" where
  "DEFAULT_TEST_PATH_PATTERNS =
     [''/test/'', ''/tests/'', ''/__tests__/'', ''_test.'', ''test_'', ''.test.'', ''.spec.'', ''_spec.'']"

definition BACKSLASH :: char where "BACKSLASH = char_of (92 :: nat)"

definition normalizePath :: "string \<Rightarrow> string" where
  "normalizePath file = map (\<lambda>c. if c = BACKSLASH then CHR ''/'' else c) file"

definition isTestPath :: "string \<Rightarrow> string list \<Rightarrow> bool" where
  "isTestPath file patterns =
     (let path = normalizePath file
      in if prefix ''test/'' path \<or> prefix ''tests/'' path \<or> prefix ''__tests__/'' path then True
         else list_ex (\<lambda>p. js_includes path p) patterns)"

subsection \<open>Naming conventions\<close>

text \<open>The last segment of a dotted name; without a dot it is the name.\<close>

definition qualnameLeaf :: "string \<Rightarrow> string" where
  "qualnameLeaf name = afterLast CHR ''.'' name"

definition nameSegments :: "string \<Rightarrow> string list" where
  "nameSegments name =
     (let last = qualnameLeaf name in if last = name then [name] else [name, last])"

definition is_upper :: "char \<Rightarrow> bool" where
  "is_upper c = (let n = of_char c :: nat in 65 \<le> n \<and> n \<le> 90)"

definition is_digit :: "char \<Rightarrow> bool" where
  "is_digit c = (let n = of_char c :: nat in 48 \<le> n \<and> n \<le> 57)"

text \<open>\<open>/^w[class]/\<close>.\<close>

definition starts_then :: "string \<Rightarrow> (char \<Rightarrow> bool) \<Rightarrow> string \<Rightarrow> bool" where
  "starts_then w cls s \<longleftrightarrow> prefix w s \<and> (case drop (length w) s of [] \<Rightarrow> False | c # _ \<Rightarrow> cls c)"

definition upper_digit :: "char \<Rightarrow> bool" where
  "upper_digit c \<longleftrightarrow> is_upper c \<or> is_digit c \<or> c = CHR ''_''"

definition isPascalCase :: "string \<Rightarrow> bool" where
  "isPascalCase s = starts_then [] is_upper s"

definition isPytestName :: "string \<Rightarrow> bool" where
  "isPytestName seg \<longleftrightarrow> prefix ''test_'' seg \<or> starts_then ''Test'' upper_digit seg \<or> seg = ''Test''"

definition isJsTsName :: "string \<Rightarrow> bool" where
  "isJsTsName seg \<longleftrightarrow> starts_then ''test'' (\<lambda>c. is_upper c \<or> c = CHR ''_'') seg
     \<or> suffix ''Test'' seg \<or> suffix ''Spec'' seg"

definition isGoName :: "string \<Rightarrow> bool" where
  "isGoName seg = list_ex (\<lambda>w. starts_then w upper_digit seg \<or> seg = w) [''Test'', ''Benchmark'', ''Example'', ''Fuzz'']"

definition isRustName :: "string \<Rightarrow> bool" where
  "isRustName seg \<longleftrightarrow> prefix ''test_'' seg \<or> js_includes seg ''_test''"

definition isTestName :: "string \<Rightarrow> bool" where
  "isTestName name =
     list_ex (\<lambda>seg. isPytestName seg \<or> isJsTsName seg \<or> isGoName seg \<or> isRustName seg) (nameSegments name)"

definition isTestNode :: "test_candidate \<Rightarrow> string list \<Rightarrow> bool" where
  "isTestNode c patterns \<longleftrightarrow>
     (case tc_file c of Some f \<Rightarrow> isTestPath f patterns | None \<Rightarrow> False) \<or> isTestName (tc_name c)"

subsection \<open>Runners\<close>

text \<open>\<open>base.slice(dot + 1)\<close> where \<open>dot > 0\<close>.\<close>

definition extensionOf :: "string \<Rightarrow> string" where
  "extensionOf file =
     (let base = afterLast CHR ''/'' (normalizePath file)
      in if CHR ''.'' \<in> set base \<and> beforeLast CHR ''.'' base \<noteq> [] then map lower (afterLast CHR ''.'' base) else [])"

definition inferRunner :: "string option \<Rightarrow> string option \<Rightarrow> test_runner" where
  "inferRunner file language =
     (let ext = (case file of Some f \<Rightarrow> extensionOf f | None \<Rightarrow> []);
          lang = map lower (case language of Some l \<Rightarrow> l | None \<Rightarrow> []);
          path = (case file of Some f \<Rightarrow> normalizePath f | None \<Rightarrow> [])
      in if ext = ''py'' \<or> lang = ''python'' then Pytest
         else if ext \<in> set [''ts'', ''tsx'', ''mts'', ''cts'', ''js'', ''jsx'', ''mjs'', ''cjs'']
           \<or> lang = ''typescript'' \<or> lang = ''javascript'' \<or> lang = ''tsx''
         then (if js_includes path ''jest'' then Jest else Vitest)
         else if ext = ''go'' \<or> lang = ''go'' then Go
         else if ext = ''rs'' \<or> lang = ''rust'' then Cargo
         else Unknown)"

text \<open>\<open>/^test_.*\.py$/\<close> and \<open>/^.+_test\.py$/\<close>; the dot matches no line terminator.\<close>

definition any_char :: "char \<Rightarrow> bool" where
  "any_char c \<longleftrightarrow> (of_char c :: nat) \<noteq> 10 \<and> (of_char c :: nat) \<noteq> 13"

definition isPytestCollectableFile :: "string \<Rightarrow> bool" where
  "isPytestCollectableFile file =
     (let base = afterLast CHR ''/'' (normalizePath file)
      in prefix ''test_'' base \<and> suffix ''.py'' base \<and> list_all any_char (drop 5 (take (length base - 3) base))
         \<or> suffix ''_test.py'' base \<and> 8 < length base \<and> list_all any_char (take (length base - 8) base))"

definition idTail :: "string \<Rightarrow> string" where
  "idTail i = (if CHR ''/'' \<in> set i then afterLast CHR ''/'' i else i)"

text \<open>\<open>dot > 0\<close>, and the last segment of what is in front of it.\<close>

definition dotted :: "string \<Rightarrow> bool" where
  "dotted q \<longleftrightarrow> CHR ''.'' \<in> set q \<and> beforeLast CHR ''.'' q \<noteq> []"

definition head_leaf :: "string \<Rightarrow> string" where
  "head_leaf q = afterLast CHR ''.'' (beforeLast CHR ''.'' q)"

definition the_qual :: "string \<Rightarrow> string \<Rightarrow> string" where
  "the_qual name tail = (if CHR ''.'' \<in> set name then name else if CHR ''.'' \<in> set tail then tail else name)"

definition isCollectableTest :: "test_candidate \<Rightarrow> bool" where
  "isCollectableTest c =
     (let name = tc_name c; tail = idTail (tc_id c) in
      if inferRunner (tc_file c) (tc_language c) \<noteq> Pytest then True
      else if (case tc_file c of Some f \<Rightarrow> \<not> isPytestCollectableFile f | None \<Rightarrow> False) then False
      else if js_includes name ''.<locals>.'' \<or> js_includes (tc_id c) ''.<locals>.'' then False
      else if qualnameLeaf name = ''test'' \<or> qualnameLeaf tail = ''test'' then False
      else if list_ex (\<lambda>q. dotted q \<and> (\<not> isPascalCase (head_leaf q) \<or> \<not> prefix ''Test'' (head_leaf q)))
                (if name = tail then [name] else [name, tail]) then False
      else let leaf = qualnameLeaf (the_qual name tail)
           in prefix ''test'' leaf \<or> prefix ''Test'' leaf)"

subsection \<open>Handles\<close>

definition pytestRunnable :: "string \<Rightarrow> string \<Rightarrow> string \<Rightarrow> string" where
  "pytestRunnable file name i =
     (let q = the_qual name (idTail i)
      in if dotted q \<and> isPascalCase (head_leaf q)
         then file @ ''::'' @ head_leaf q @ ''::'' @ afterLast CHR ''.'' q
         else file @ ''::'' @ name)"

definition goRunnable :: "string \<Rightarrow> string \<Rightarrow> string" where
  "goRunnable file name = (if isGoName (qualnameLeaf name) then file @ ''::'' @ qualnameLeaf name else file)"

definition runnable_of :: "test_candidate \<Rightarrow> test_runner \<Rightarrow> string list \<Rightarrow> string option" where
  "runnable_of c runner patterns =
     (case tc_file c of
        None \<Rightarrow> None
      | Some file \<Rightarrow>
          if tc_kind c = Some ''module''
          then (if runner = Pytest \<and> \<not> isPytestCollectableFile file then None else Some file)
          else if runner = Pytest
          then (if isCollectableTest c then Some (pytestRunnable file (tc_name c) (tc_id c)) else None)
          else if runner = Go then Some (goRunnable file (tc_name c))
          else if runner = Vitest \<or> runner = Jest
          then (if isTestPath file patterns then Some file else None)
          else Some file)"

definition classifyTest :: "test_candidate \<Rightarrow> string list \<Rightarrow> test_handle option" where
  "classifyTest c patterns =
     (if \<not> isTestNode c patterns then None
      else let runner = inferRunner (tc_file c) (tc_language c)
           in Some \<lparr>th_id = tc_id c, th_file = tc_file c, th_runnable = runnable_of c runner patterns,
                th_runner = runner\<rparr>)"

subsection \<open>What a handle is good for\<close>

text \<open>A function or a class that pytest collects by name, and a node id made of them.\<close>

definition pytest_leaf :: "string \<Rightarrow> bool" where
  "pytest_leaf leaf \<longleftrightarrow> (prefix ''test'' leaf \<or> prefix ''Test'' leaf) \<and> leaf \<noteq> ''test'' \<and> CHR ''.'' \<notin> set leaf"

definition pytest_node_id :: "string \<Rightarrow> string \<Rightarrow> bool" where
  "pytest_node_id file r \<longleftrightarrow>
     (\<exists>leaf. pytest_leaf leaf
        \<and> (r = file @ ''::'' @ leaf
           \<or> (\<exists>cls. prefix ''Test'' cls \<and> CHR ''.'' \<notin> set cls \<and> r = file @ ''::'' @ cls @ ''::'' @ leaf)))"

definition runnable_ok :: "test_candidate \<Rightarrow> string list \<Rightarrow> test_runner \<Rightarrow> string \<Rightarrow> string \<Rightarrow> bool" where
  "runnable_ok c patterns runner file r =
     (case runner of
        Pytest \<Rightarrow> isPytestCollectableFile file
          \<and> (if tc_kind c = Some ''module'' then r = file else pytest_node_id file r)
      | Go \<Rightarrow> r = file \<or> (\<exists>name. isGoName name \<and> r = file @ ''::'' @ name)
      | Vitest \<Rightarrow> r = file \<and> (tc_kind c = Some ''module'' \<or> isTestPath file patterns)
      | Jest \<Rightarrow> r = file \<and> (tc_kind c = Some ''module'' \<or> isTestPath file patterns)
      | _ \<Rightarrow> r = file)"

text \<open>No name begins with its only dot.\<close>

definition well_named :: "test_candidate \<Rightarrow> bool" where
  "well_named c \<longleftrightarrow> (\<forall>q \<in> {tc_name c, idTail (tc_id c)}. CHR ''.'' \<in> set q \<longrightarrow> dotted q)"

lemma collectableD:
  assumes "isCollectableTest c" "inferRunner (tc_file c) (tc_language c) = Pytest" "tc_file c = Some f"
  shows "isPytestCollectableFile f"
    and "q \<in> {tc_name c, idTail (tc_id c)} \<Longrightarrow> qualnameLeaf q \<noteq> ''test''"
    and "q \<in> {tc_name c, idTail (tc_id c)} \<Longrightarrow> dotted q \<Longrightarrow> isPascalCase (head_leaf q) \<and> prefix ''Test'' (head_leaf q)"
    and "prefix ''test'' (qualnameLeaf (the_qual (tc_name c) (idTail (tc_id c))))
      \<or> prefix ''Test'' (qualnameLeaf (the_qual (tc_name c) (idTail (tc_id c))))"
  using assms by (auto simp: isCollectableTest_def Let_def split: if_splits)

lemma pytestRunnable_ok:
  assumes "isCollectableTest c" "inferRunner (tc_file c) (tc_language c) = Pytest" "tc_file c = Some f" "well_named c"
  shows "pytest_node_id f (pytestRunnable f (tc_name c) (tc_id c))"
proof -
  note D = collectableD [OF assms(1-3)]
  let ?q = "the_qual (tc_name c) (idTail (tc_id c))"
  have q: "?q \<in> {tc_name c, idTail (tc_id c)}" by (simp add: the_qual_def)
  have leaf: "pytest_leaf (qualnameLeaf ?q)"
    using D(2) [OF q] D(4) by (simp add: pytest_leaf_def) (simp add: qualnameLeaf_def)
  show ?thesis
  proof (cases "CHR ''.'' \<in> set ?q")
    case True
    with assms(4) q have d: "dotted ?q" unfolding well_named_def by blast
    with D(3) [OF q] have "isPascalCase (head_leaf ?q)" "prefix ''Test'' (head_leaf ?q)" by simp_all
    moreover have "CHR ''.'' \<notin> set (head_leaf ?q)" by (simp add: head_leaf_def)
    ultimately show ?thesis
      using leaf d unfolding pytest_node_id_def pytestRunnable_def Let_def qualnameLeaf_def by auto
  next
    case False
    then have "?q = tc_name c" by (simp add: the_qual_def split: if_splits)
    with False leaf have "pytest_leaf (tc_name c)" by (simp add: qualnameLeaf_def)
    moreover have "\<not> dotted ?q" using False by (simp add: dotted_def)
    ultimately show ?thesis
      unfolding pytest_node_id_def pytestRunnable_def Let_def by auto
  qed
qed

text \<open>A handle is for its runner: to pytest it is a collectable file, or a node id of a collectable
  function, class or method in one; to vitest and jest a spec file unless the node is a module; to
  go the file, with a function that \<open>go test -run\<close> selects or without; elsewhere the file. Without a
  file there is none, and the node and its file are those of the candidate.\<close>

theorem handles_are_runnable:
  assumes "classifyTest c patterns = Some h" "well_named c"
  shows "th_id h = tc_id c \<and> th_file h = tc_file c \<and> th_runner h = inferRunner (tc_file c) (tc_language c)
    \<and> (\<forall>r. th_runnable h = Some r \<longrightarrow> (\<exists>f. tc_file c = Some f \<and> runnable_ok c patterns (th_runner h) f r))"
proof -
  let ?rn = "inferRunner (tc_file c) (tc_language c)"
  have h: "h = \<lparr>th_id = tc_id c, th_file = tc_file c, th_runnable = runnable_of c ?rn patterns, th_runner = ?rn\<rparr>"
    using assms(1) by (simp add: classifyTest_def Let_def split: if_splits)
  have "\<exists>f. tc_file c = Some f \<and> runnable_ok c patterns ?rn f r" if r: "runnable_of c ?rn patterns = Some r" for r
  proof -
    obtain f where f: "tc_file c = Some f" using r by (auto simp: runnable_of_def split: option.splits)
    have "runnable_ok c patterns ?rn f r"
    proof (cases "?rn = Pytest \<and> tc_kind c \<noteq> Some ''module''")
      case True
      with r f have "isCollectableTest c" "r = pytestRunnable f (tc_name c) (tc_id c)"
        by (auto simp: runnable_of_def split: if_splits)
      with True f assms(2) show ?thesis
        using pytestRunnable_ok [of c f] collectableD(1) [of c f] by (simp add: runnable_ok_def)
    next
      case False
      with r f show ?thesis
        by (cases ?rn) (auto simp: runnable_of_def runnable_ok_def goRunnable_def split: if_splits)
    qed
    with f show ?thesis by blast
  qed
  then show ?thesis by (simp add: h)
qed

text \<open>A method of a test class, with a bare name and the class only in the id.\<close>

definition sample_method :: test_candidate where
  "sample_method = \<lparr>tc_id = ''tests/test_http/TestRequests.test_get'', tc_name = ''test_get'',
     tc_file = Some ''tests/test_http.py'', tc_language = Some ''python'', tc_kind = Some ''method''\<rparr>"

theorem handles_are_runnable_witness:
  "\<exists>h. classifyTest sample_method DEFAULT_TEST_PATH_PATTERNS = Some h
     \<and> th_runnable h = Some ''tests/test_http.py::TestRequests::test_get''
     \<and> (\<exists>f. tc_file sample_method = Some f
          \<and> runnable_ok sample_method DEFAULT_TEST_PATH_PATTERNS (th_runner h) f ''tests/test_http.py::TestRequests::test_get'')"
proof -
  let ?h = "\<lparr>th_id = ''tests/test_http/TestRequests.test_get'', th_file = Some ''tests/test_http.py'',
     th_runnable = Some ''tests/test_http.py::TestRequests::test_get'', th_runner = Pytest\<rparr>"
  have c: "classifyTest sample_method DEFAULT_TEST_PATH_PATTERNS = Some ?h" by code_simp
  moreover have "well_named sample_method" unfolding well_named_def by code_simp
  ultimately show ?thesis using handles_are_runnable [OF c] by simp
qed

text \<open>
  The class of a method of a nested class is the last one alone, so the handle lacks the outer
  class that pytest's node id of the method has; and a module node detected by its name alone is
  handed to vitest although its file is no spec file.
\<close>

theorem nested_class_handle:
  "map_option th_runnable (classifyTest
      \<lparr>tc_id = ''tests/test_a/TestOuter.TestInner.test_x'', tc_name = ''TestOuter.TestInner.test_x'',
       tc_file = Some ''tests/test_a.py'', tc_language = Some ''python'', tc_kind = Some ''method''\<rparr> DEFAULT_TEST_PATH_PATTERNS)
    = Some (Some ''tests/test_a.py::TestInner::test_x'')"
  by code_simp

theorem module_leaks_to_vitest:
  "map_option th_runnable (classifyTest
      \<lparr>tc_id = ''src/abTest'', tc_name = ''abTest'', tc_file = Some ''src/abTest.ts'', tc_language = Some ''typescript'',
       tc_kind = Some ''module''\<rparr> DEFAULT_TEST_PATH_PATTERNS) = Some (Some ''src/abTest.ts'')
   \<and> \<not> isTestPath ''src/abTest.ts'' DEFAULT_TEST_PATH_PATTERNS"
  by code_simp

end
