(* ===== verification/TestCoverage.thy ===== *)
theory TestCoverage
  imports TraceResolve TestNodes
begin

text \<open>
  What traces leave behind, and what is read from it: the tables \<open>observations\<close> and
  \<open>test_coverage\<close> of \<open>src/daemon/src/db/queries.ts\<close>, both under run-time names; the trace edges
  between indexed entities (\<open>resolvedTraceEdges\<close>); and the index of \<open>db/test_coverage.ts\<close> from an
  entity to the tests that executed it. Shown here: the coverage index is the sum, per entity and
  test, of the rows whose two names resolve to them.
\<close>

subsection \<open>Tables\<close>

record observation_row =
  ob_src :: string
  ob_dst :: string
  ob_ts :: int
  ob_observed :: int
  ob_weight :: int
  ob_source :: string

record test_coverage_row =
  cov_test :: string
  cov_entity :: string
  cov_weight :: int
  cov_source :: string

record traced_db =
  td_index :: db
  observations_t :: "observation_row list"
  test_coverage_t :: "test_coverage_row list"

definition INSERT_OBSERVATION_STMT :: "observation_row \<Rightarrow> observation_row \<Rightarrow> observation_row" where
  "INSERT_OBSERVATION_STMT old excluded = old\<lparr>ob_observed := ob_observed excluded, ob_weight := ob_weight excluded\<rparr>"

definition insertObservations :: "observation_row list \<Rightarrow> traced_db \<Rightarrow> nat \<times> traced_db" where
  "insertObservations rows t =
     (length rows, t\<lparr>observations_t :=
        fold (upsert_row (\<lambda>ob. (ob_src ob, ob_dst ob, ob_ts ob, ob_source ob)) INSERT_OBSERVATION_STMT) rows (observations_t t)\<rparr>)"

definition observationsCount :: "traced_db \<Rightarrow> nat" where
  "observationsCount t = length (observations_t t)"

definition lastObservationTs :: "traced_db \<Rightarrow> int option" where
  "lastObservationTs t = (if observations_t t = [] then None else Some (Max (ob_ts ` set (observations_t t))))"

definition INSERT_TEST_COVERAGE_STMT :: "test_coverage_row \<Rightarrow> test_coverage_row \<Rightarrow> test_coverage_row" where
  "INSERT_TEST_COVERAGE_STMT old excluded = old\<lparr>cov_weight := cov_weight old + cov_weight excluded\<rparr>"

definition insertTestCoverage :: "test_coverage_row list \<Rightarrow> traced_db \<Rightarrow> nat \<times> traced_db" where
  "insertTestCoverage rows t =
     (length rows, t\<lparr>test_coverage_t :=
        fold (upsert_row (\<lambda>r. (cov_test r, cov_entity r, cov_source r)) INSERT_TEST_COVERAGE_STMT) rows (test_coverage_t t)\<rparr>)"

definition allTestCoverage :: "traced_db \<Rightarrow> test_coverage_row list" where
  "allTestCoverage t = test_coverage_t t"

definition testCoverageCount :: "traced_db \<Rightarrow> nat" where
  "testCoverageCount t = length (test_coverage_t t)"

subsection \<open>Trace edges\<close>

record trace_edge =
  rawSrc :: string
  rawDst :: string
  resolvedSrc :: "string option"
  resolvedDst :: "string option"
  te_observed :: int
  te_weight :: int
  te_samples :: nat

text \<open>\<open>GROUP BY src, dst ORDER BY SUM(weight) DESC, src, dst\<close>.\<close>

definition pair_rows :: "observation_row list \<Rightarrow> string \<times> string \<Rightarrow> observation_row list" where
  "pair_rows rows p = filter (\<lambda>ob. (ob_src ob, ob_dst ob) = p) rows"

definition pair_weight :: "observation_row list \<Rightarrow> string \<times> string \<Rightarrow> int" where
  "pair_weight rows p = sum_list (map ob_weight (pair_rows rows p))"

definition pair_cmp :: "observation_row list \<Rightarrow> string \<times> string \<Rightarrow> string \<times> string \<Rightarrow> int" where
  "pair_cmp rows p q =
     (if pair_weight rows p \<noteq> pair_weight rows q then pair_weight rows q - pair_weight rows p
      else if cmp_lin (fst p) (fst q) \<noteq> 0 then cmp_lin (fst p) (fst q)
      else cmp_lin (snd p) (snd q))"

definition resolvedTraceEdges :: "string option \<Rightarrow> string option \<Rightarrow> traced_db \<Rightarrow> trace_edge list" where
  "resolvedTraceEdges fsrc fdst t =
     (let rows = filter (\<lambda>ob. (case fsrc of None \<Rightarrow> True | Some s \<Rightarrow> ob_src ob = s)
                           \<and> (case fdst of None \<Rightarrow> True | Some d \<Rightarrow> ob_dst ob = d)) (observations_t t);
          pairs = js_sort (pair_cmp rows) (fold set_add (map (\<lambda>ob. (ob_src ob, ob_dst ob)) rows) []);
          resolver = buildTraceResolver (td_index t)
      in map (\<lambda>p. \<lparr>rawSrc = fst p, rawDst = snd p, resolvedSrc = resolve resolver (fst p), resolvedDst = resolve resolver (snd p),
           te_observed = sum_list (map ob_observed (pair_rows rows p)), te_weight = pair_weight rows p,
           te_samples = length (pair_rows rows p)\<rparr>) pairs)"

subsection \<open>The coverage index\<close>

text \<open>An entry is a test with the weight of its executions; maps are in insertion order.\<close>

type_synonym coverage_entry = "string \<times> int"

record coverage_index =
  byEntity :: "(string \<times> coverage_entry list) list"
  hasCoverage :: bool
  testCount :: nat

definition entry_cmp :: "(string \<Rightarrow> string \<Rightarrow> int) \<Rightarrow> coverage_entry \<Rightarrow> coverage_entry \<Rightarrow> int" where
  "entry_cmp lc a b = (if snd b - snd a \<noteq> 0 then snd b - snd a else lc (fst a) (fst b))"

text \<open>One row in the loop; the accumulator, the tests seen, and whether any row was kept.\<close>

type_synonym cover_acc = "(string \<times> (string \<times> int) list) list \<times> string list \<times> bool"

definition the_list :: "'v list option \<Rightarrow> 'v list" where
  "the_list v = (case v of None \<Rightarrow> [] | Some l \<Rightarrow> l)"

definition cover_row :: "resolver \<Rightarrow> test_coverage_row \<Rightarrow> cover_acc \<Rightarrow> cover_acc" where
  "cover_row resolver row acc =
     (case acc of (accum, tests, has) \<Rightarrow>
        case resolve resolver (cov_test row) of None \<Rightarrow> acc
        | Some test \<Rightarrow>
            (case resolve resolver (cov_entity row) of None \<Rightarrow> acc
             | Some entity \<Rightarrow>
                 let perTest = the_list (map_of accum entity);
                     before = (case map_of perTest test of None \<Rightarrow> 0 | Some w \<Rightarrow> w)
                 in (AList.update entity (AList.update test (before + cov_weight row) perTest) accum,
                     set_add test tests, True)))"

definition buildTestCoverageIndex :: "(string \<Rightarrow> string \<Rightarrow> int) \<Rightarrow> traced_db \<Rightarrow> coverage_index" where
  "buildTestCoverageIndex lc t =
     (let resolver = buildTraceResolver (td_index t);
          (accum, tests, has) = fold (cover_row resolver) (allTestCoverage t) ([], [], False)
      in \<lparr>byEntity = map (\<lambda>(e, perTest). (e, js_sort (entry_cmp lc) perTest)) accum,
          hasCoverage = has, testCount = length tests\<rparr>)"

definition testsCovering :: "coverage_index \<Rightarrow> string \<Rightarrow> coverage_entry list" where
  "testsCovering idx entity = the_list (map_of (byEntity idx) entity)"

subsection \<open>The index is a sum over rows\<close>

definition rows_for :: "resolver \<Rightarrow> test_coverage_row list \<Rightarrow> string \<Rightarrow> string \<Rightarrow> test_coverage_row list" where
  "rows_for r rows entity test =
     filter (\<lambda>row. resolve r (cov_test row) = Some test \<and> resolve r (cov_entity row) = Some entity) rows"

lemma the_list_simps [simp]: "the_list None = []" "the_list (Some l) = l"
  by (simp_all add: the_list_def)

lemma cover_rows:
  assumes "fold (cover_row r) rows ([], [], False) = (accum, tests, has)"
  shows "map_of (the_list (map_of accum entity)) test =
       (if rows_for r rows entity test = [] then None else Some (sum_list (map cov_weight (rows_for r rows entity test))))
     \<and> distinct (map fst (the_list (map_of accum entity)))"
  using assms
proof (induction rows arbitrary: accum tests has rule: rev_induct)
  case Nil
  then show ?case by (simp add: rows_for_def)
next
  case (snoc row rows)
  obtain a t h where f: "fold (cover_row r) rows ([], [], False) = (a, t, h)" by (cases "fold (cover_row r) rows ([], [], False)")
  note IH = snoc.IH [OF f]
  from snoc.prems f have s: "cover_row r row (a, t, h) = (accum, tests, has)" by simp
  show ?case
  proof (cases "resolve r (cov_test row) = None \<or> resolve r (cov_entity row) = None")
    case True
    with s have "accum = a" by (auto simp: cover_row_def split: option.splits)
    moreover have "rows_for r (rows @ [row]) entity test = rows_for r rows entity test" using True by (auto simp: rows_for_def)
    ultimately show ?thesis using IH by simp
  next
    case False
    then obtain x e where x: "resolve r (cov_test row) = Some x" "resolve r (cov_entity row) = Some e" by auto
    let ?p = "the_list (map_of a e)"
    let ?b = "case map_of ?p x of None \<Rightarrow> 0 | Some w \<Rightarrow> w"
    have acc: "accum = AList.update e (AList.update x (?b + cov_weight row) ?p) a"
      using s x by (simp add: cover_row_def Let_def)
    have M: "rows_for r (rows @ [row]) entity test
        = rows_for r rows entity test @ (if entity = e \<and> test = x then [row] else [])"
      using x by (simp add: rows_for_def)
    show ?thesis
    proof (cases "entity = e")
      case True
      then have "the_list (map_of accum entity) = AList.update x (?b + cov_weight row) ?p"
        by (simp add: acc update_conv')
      then show ?thesis using IH True unfolding M by (auto simp: update_conv' distinct_update)
    next
      case False
      then have "the_list (map_of accum entity) = the_list (map_of a entity)" by (simp add: acc update_conv')
      then show ?thesis using IH False unfolding M by simp
    qed
  qed
qed

lemma testsCovering_sorted:
  assumes "fold (cover_row (buildTraceResolver (td_index t))) (test_coverage_t t) ([], [], False) = (accum, tests, has)"
  shows "testsCovering (buildTestCoverageIndex lc t) entity = js_sort (entry_cmp lc) (the_list (map_of accum entity))"
  using assms by (cases "map_of accum entity")
    (simp_all add: testsCovering_def buildTestCoverageIndex_def allTestCoverage_def Let_def map_of_map)

lemma testsCovering_iff:
  "(test, w) \<in> set (testsCovering (buildTestCoverageIndex lc t) entity) \<longleftrightarrow>
     rows_for (buildTraceResolver (td_index t)) (test_coverage_t t) entity test \<noteq> []
     \<and> w = sum_list (map cov_weight (rows_for (buildTraceResolver (td_index t)) (test_coverage_t t) entity test))"
  and testsCovering_distinct: "distinct (map fst (testsCovering (buildTestCoverageIndex lc t) entity))"
proof -
  let ?r = "buildTraceResolver (td_index t)"
  obtain accum tests has where f: "fold (cover_row ?r) (test_coverage_t t) ([], [], False) = (accum, tests, has)"
    by (cases "fold (cover_row ?r) (test_coverage_t t) ([], [], False)")
  let ?p = "the_list (map_of accum entity)"
  note C = cover_rows [OF f, of entity test]
  have m: "map_of ?p test = Some w \<longleftrightarrow> (test, w) \<in> set ?p" by (rule map_of_eq_Some_iff [OF conjunct2 [OF C]])
  then show "(test, w) \<in> set (testsCovering (buildTestCoverageIndex lc t) entity) \<longleftrightarrow>
     rows_for ?r (test_coverage_t t) entity test \<noteq> []
     \<and> w = sum_list (map cov_weight (rows_for ?r (test_coverage_t t) entity test))"
    unfolding testsCovering_sorted [OF f] set_js_sort m [symmetric] conjunct1 [OF C] by auto
  have "mset (map fst (js_sort (entry_cmp lc) ?p)) = mset (map fst ?p)" by simp
  then show "distinct (map fst (testsCovering (buildTestCoverageIndex lc t) entity))"
    unfolding testsCovering_sorted [OF f] using C mset_eq_imp_distinct_iff by blast
qed

end
