(* ===== verification/AffectedTests.thy ===== *)
theory AffectedTests
  imports TestCoverage GraphWalk
begin

text \<open>
  Test selection, \<open>src/daemon/src/db/affected_tests.ts\<close>: from a changed symbol, or the symbols of
  changed files, to the ranked list of the tests to run. The static graph of dependents and the
  trace edges are walked backwards together; tests whose own executions reached the change are
  the tier \<open>observed\<close>. \<open>NodeReach\<close> is the record \<open>node_reach\<close>, the maps are in insertion order, and
  the loop over depths recurses on the levels left under the cap. The blast radius is the pair of
  numbers whose quotient the code takes. This theory holds the definitions.
\<close>

subsection \<open>Options and results\<close>

datatype test_evidence = Trace | Static

datatype test_confidence = Observed | Reachable

record affected_test =
  at_id :: string
  at_file :: "string option"
  at_evidence :: test_evidence
  at_confidence :: test_confidence
  at_depth :: nat
  at_weight :: int
  at_runnable :: "string option"
  at_runner :: test_runner
  at_staticReachable :: bool
  at_dispatchOnly :: bool

record affected_opts =
  ao_maxDepth :: "int option"
  ao_traceOnly :: bool
  ao_fallbackReachableWhenEmpty :: bool
  ao_limit :: "int option"
  ao_patterns :: "string list option"
  ao_classRollup :: bool

datatype affected_note = ColdTraceNote | PreciseNote | ReachableFallbackNote | SymbolNotFound

record affected_result =
  ar_roots :: "string list"
  ar_tests :: "affected_test list"
  ar_traceEdgeCount :: nat
  ar_precise :: bool
  ar_note :: "affected_note option"
  ar_dispatchOnlyCount :: nat
  ar_hub :: bool
  ar_blastRadius :: "nat \<times> nat"

record node_reach =
  nrc_depth :: nat
  nrc_viaTrace :: bool
  nrc_traceWeight :: int
  nrc_staticWeight :: int
  nrc_observed :: bool

type_synonym reach_map = "(string \<times> node_reach) list"

subsection \<open>Hubs\<close>

definition node_candidate :: "node_row \<Rightarrow> string option \<Rightarrow> test_candidate" where
  "node_candidate n kind = \<lparr>tc_id = nr_id n, tc_name = nr_name n, tc_file = nr_file n, tc_language = nr_language n, tc_kind = kind\<rparr>"

definition patterns_of :: "string list option \<Rightarrow> string list" where
  "patterns_of ps = (case ps of None \<Rightarrow> DEFAULT_TEST_PATH_PATTERNS | Some p \<Rightarrow> p)"

definition totalTestNodeCount :: "db \<Rightarrow> string list option \<Rightarrow> nat" where
  "totalTestNodeCount g ps =
     length (filter (\<lambda>r. classifyTest (node_candidate r None) (patterns_of ps) \<noteq> None) (nodes_t g))"

text \<open>\<open>affected / total >= 0.3\<close>.\<close>

definition hubMetrics :: "db \<Rightarrow> nat \<Rightarrow> string list option \<Rightarrow> bool \<times> (nat \<times> nat)" where
  "hubMetrics g affectedCount ps =
     (let total = totalTestNodeCount g ps
      in (0 < total \<and> 3 * total \<le> 10 * affectedCount, (if 0 < total then affectedCount else 0, total)))"

subsection \<open>The walk\<close>

type_synonym trace_in = "(string \<times> (string \<times> int) list) list"

definition buildTraceIn :: "traced_db \<Rightarrow> trace_in \<times> nat" where
  "buildTraceIn t =
     fold (\<lambda>e (traceIn, n).
         case (resolvedSrc e, resolvedDst e) of
           (Some src, Some dst) \<Rightarrow>
             (AList.update dst (the_list (map_of traceIn dst) @ [(src, te_weight e)]) traceIn, n + 1)
         | _ \<Rightarrow> (traceIn, n))
       (resolvedTraceEdges None None t) ([], 0)"

text \<open>The edges relaxed into one node of the frontier: callers and importers, then traced callers.\<close>

definition edges_into :: "db \<Rightarrow> trace_in \<Rightarrow> string \<Rightarrow> (string \<times> bool \<times> int) list" where
  "edges_into g traceIn cur =
     map (\<lambda>e. (er_src e, False, er_weight e)) (filter dependency (incoming cur g))
     @ map (\<lambda>(src, w). (src, True, w)) (the_list (map_of traceIn cur))"

definition reach_new :: "nat \<Rightarrow> bool \<Rightarrow> int \<Rightarrow> node_reach" where
  "reach_new d isTrace weight = \<lparr>nrc_depth = d, nrc_viaTrace = isTrace, nrc_traceWeight = (if isTrace then weight else 0),
     nrc_staticWeight = (if isTrace then 0 else weight), nrc_observed = False\<rparr>"

definition reach_again :: "nat \<Rightarrow> bool \<Rightarrow> int \<Rightarrow> node_reach \<Rightarrow> node_reach" where
  "reach_again d isTrace weight prev =
     (let r = (if d < nrc_depth prev then prev\<lparr>nrc_depth := d\<rparr> else prev)
      in if isTrace
         then (let r' = r\<lparr>nrc_viaTrace := True\<rparr>
               in if weight > nrc_traceWeight r' then r'\<lparr>nrc_traceWeight := weight\<rparr> else r')
         else if weight > nrc_staticWeight r then r\<lparr>nrc_staticWeight := weight\<rparr> else r)"

type_synonym walk_state = "reach_map \<times> (string \<times> nat) list \<times> string list"

fun relax :: "string \<Rightarrow> nat \<Rightarrow> string \<times> bool \<times> int \<Rightarrow> walk_state \<Rightarrow> walk_state" where
  "relax root d (neighbor, isTrace, weight) (reach, localDepth, next) =
     (if neighbor = root then (reach, localDepth, next)
      else let reach' = AList.update neighbor
                 (case map_of reach neighbor of None \<Rightarrow> reach_new d isTrace weight
                  | Some prev \<Rightarrow> reach_again d isTrace weight prev) reach
           in if neighbor \<in> fst ` set localDepth then (reach', localDepth, next)
              else (reach', localDepth @ [(neighbor, d)], next @ [neighbor]))"

definition walk_level :: "db \<Rightarrow> trace_in \<Rightarrow> string \<Rightarrow> nat \<Rightarrow> string list \<Rightarrow> reach_map \<Rightarrow> (string \<times> nat) list \<Rightarrow> walk_state" where
  "walk_level g traceIn root d frontier reach localDepth =
     fold (\<lambda>cur. fold (relax root d) (edges_into g traceIn cur)) frontier (reach, localDepth, [])"

fun walk_loop :: "db \<Rightarrow> trace_in \<Rightarrow> string \<Rightarrow> nat \<Rightarrow> nat \<Rightarrow> string list \<Rightarrow> reach_map \<Rightarrow> (string \<times> nat) list \<Rightarrow> reach_map" where
  "walk_loop g traceIn root 0 d frontier reach localDepth = reach"
| "walk_loop g traceIn root (Suc n) d frontier reach localDepth =
     (let (reach', localDepth', next) = walk_level g traceIn root d frontier reach localDepth
      in if next = [] then reach' else walk_loop g traceIn root n (Suc d) next reach' localDepth')"

definition reverseWalk :: "db \<Rightarrow> string \<Rightarrow> trace_in \<Rightarrow> nat \<Rightarrow> reach_map \<Rightarrow> reach_map" where
  "reverseWalk g root traceIn cap reach = walk_loop g traceIn root cap 1 [root] reach [(root, 0)]"

definition staticReachableSet :: "db \<Rightarrow> string list \<Rightarrow> nat \<Rightarrow> string list" where
  "staticReachableSet g roots cap = map fst (fold (\<lambda>root. reverseWalk g root [] cap) roots [])"

definition depthCap :: "int option \<Rightarrow> nat" where
  "depthCap maxDepth = min MAX_IMPACT_DEPTH (nat (max 1 (case maxDepth of None \<Rightarrow> int MAX_IMPACT_DEPTH | Some d \<Rightarrow> d)))"

subsection \<open>Ranking\<close>

definition affected_of :: "db \<Rightarrow> string list option \<Rightarrow> string list \<Rightarrow> string \<times> node_reach \<Rightarrow> affected_test option" where
  "affected_of g ps staticReach entry =
     (case entry of (i, r) \<Rightarrow>
        case getNode i g of None \<Rightarrow> None
        | Some node \<Rightarrow>
            (case classifyTest (node_candidate node (Some (nr_kind node))) (patterns_of ps) of None \<Rightarrow> None
             | Some handle \<Rightarrow>
                 let evidence = (if nrc_viaTrace r then Trace else Static); static = i \<in> set staticReach
                 in Some \<lparr>at_id = th_id handle, at_file = th_file handle, at_evidence = evidence,
                      at_confidence = (if nrc_observed r then Observed else Reachable), at_depth = nrc_depth r,
                      at_weight = (if nrc_viaTrace r then nrc_traceWeight r else nrc_staticWeight r),
                      at_runnable = th_runnable handle, at_runner = th_runner handle, at_staticReachable = static,
                      at_dispatchOnly = (evidence = Trace \<and> \<not> static)\<rparr>))"

definition rank_cmp :: "(string \<Rightarrow> string \<Rightarrow> int) \<Rightarrow> affected_test \<Rightarrow> affected_test \<Rightarrow> int" where
  "rank_cmp lc a b =
     (let ad = (if at_dispatchOnly a then 0 else 1); bd = (if at_dispatchOnly b then 0 else 1);
          ao = (if at_confidence a = Observed then 0 else 1); bo = (if at_confidence b = Observed then 0 else 1)
      in if ad \<noteq> bd then ad - bd
         else if ao \<noteq> bo then ao - bo
         else if at_evidence a \<noteq> at_evidence b then (if at_evidence a = Trace then -1 else 1)
         else if at_depth a \<noteq> at_depth b then int (at_depth a) - int (at_depth b)
         else if at_weight a \<noteq> at_weight b then at_weight b - at_weight a
         else lc (at_id a) (at_id b))"

definition take_limit :: "int option \<Rightarrow> 'a list \<Rightarrow> 'a list" where
  "take_limit limit xs =
     (case limit of Some l \<Rightarrow> if 0 \<le> l \<and> int (length xs) > l then take (nat l) xs else xs | None \<Rightarrow> xs)"

definition rankReached ::
  "(string \<Rightarrow> string \<Rightarrow> int) \<Rightarrow> db \<Rightarrow> reach_map \<Rightarrow> string list option \<Rightarrow> bool \<Rightarrow> int option \<Rightarrow> bool \<Rightarrow> string list \<Rightarrow> affected_test list" where
  "rankReached lc g reach ps traceOnly limit preciseMode staticReach =
     (let tests = js_sort (rank_cmp lc) (List.map_filter (affected_of g ps staticReach) reach);
          filtered = (if traceOnly
            then filter (\<lambda>t. if preciseMode then at_confidence t = Observed else at_evidence t = Trace) tests
            else tests)
      in take_limit limit filtered)"

definition noteFor :: "nat \<Rightarrow> affected_note option" where
  "noteFor traceEdgeCount = (if traceEdgeCount = 0 then Some ColdTraceNote else None)"

definition applyReachableFallback ::
  "(string \<Rightarrow> string \<Rightarrow> int) \<Rightarrow> db \<Rightarrow> reach_map \<Rightarrow> affected_opts \<Rightarrow> affected_test list \<Rightarrow> string list \<Rightarrow> affected_test list \<times> bool" where
  "applyReachableFallback lc g reach opts observedTests staticReach =
     (if \<not> ao_traceOnly opts \<or> \<not> ao_fallbackReachableWhenEmpty opts \<or> observedTests \<noteq> [] then (observedTests, False)
      else let reachable = rankReached lc g reach (ao_patterns opts) False (ao_limit opts) True staticReach
           in if reachable \<noteq> [] then (reachable, True) else (observedTests, False))"

subsection \<open>Coverage and class rollup\<close>

definition reach_observed :: "int \<Rightarrow> node_reach option \<Rightarrow> node_reach" where
  "reach_observed weight prev =
     (case prev of
        None \<Rightarrow> \<lparr>nrc_depth = 1, nrc_viaTrace = True, nrc_traceWeight = weight, nrc_staticWeight = 0, nrc_observed = True\<rparr>
      | Some p \<Rightarrow>
          let p1 = p\<lparr>nrc_viaTrace := True, nrc_observed := True\<rparr>;
              p2 = (if weight > nrc_traceWeight p1 then p1\<lparr>nrc_traceWeight := weight\<rparr> else p1)
          in if nrc_depth p2 > 1 then p2\<lparr>nrc_depth := 1\<rparr> else p2)"

definition injectCoverage :: "string \<Rightarrow> coverage_index \<Rightarrow> string list \<Rightarrow> reach_map \<Rightarrow> reach_map" where
  "injectCoverage entity index roots reach =
     fold (\<lambda>(test, weight) m. if test \<in> set roots then m
             else AList.update test (reach_observed weight (map_of m test)) m)
       (testsCovering index entity) reach"

definition enclosingClassOf :: "string \<Rightarrow> string option" where
  "enclosingClassOf qname =
     (if \<not> dotted qname then None else if isPascalCase (head_leaf qname) then Some (head_leaf qname) else None)"

definition classSiblings :: "db \<Rightarrow> string \<Rightarrow> string list" where
  "classSiblings g root =
     (case getNode root g of None \<Rightarrow> []
      | Some node \<Rightarrow>
          (case (nr_file node, enclosingClassOf (nr_qualified_name node)) of
             (Some file, Some cls) \<Rightarrow>
               map nr_id (filter (\<lambda>r. nr_id r \<noteq> root \<and> prefix (cls @ ''.'') (nr_qualified_name r)
                   \<and> enclosingClassOf (nr_qualified_name r) = Some cls)
                 (filter (\<lambda>r. nr_file r = Some file) (nodes_t g)))
           | _ \<Rightarrow> []))"

definition reach_rolled :: "int \<Rightarrow> node_reach option \<Rightarrow> node_reach" where
  "reach_rolled weight prev =
     (case prev of
        None \<Rightarrow> \<lparr>nrc_depth = 1, nrc_viaTrace = True, nrc_traceWeight = weight, nrc_staticWeight = 0, nrc_observed = False\<rparr>
      | Some p \<Rightarrow>
          let p1 = p\<lparr>nrc_viaTrace := True\<rparr>
          in if weight > nrc_traceWeight p1 then p1\<lparr>nrc_traceWeight := weight\<rparr> else p1)"

definition injectClassRollup :: "db \<Rightarrow> coverage_index \<Rightarrow> string list \<Rightarrow> string \<Rightarrow> reach_map \<Rightarrow> reach_map" where
  "injectClassRollup g index roots root reach =
     fold (\<lambda>sibling m. if sibling \<in> set roots then m
             else fold (\<lambda>(test, weight) m. if test \<in> set roots then m
                      else AList.update test (reach_rolled weight (map_of m test)) m)
                    (testsCovering index sibling) m)
       (classSiblings g root) reach"

subsection \<open>The two queries\<close>

definition dispatch_count :: "affected_test list \<Rightarrow> nat" where
  "dispatch_count tests = length (filter at_dispatchOnly tests)"

definition not_found :: "bool \<Rightarrow> nat \<Rightarrow> affected_result" where
  "not_found precise n = \<lparr>ar_roots = [], ar_tests = [], ar_traceEdgeCount = n, ar_precise = precise,
     ar_note = Some SymbolNotFound, ar_dispatchOnlyCount = 0, ar_hub = False, ar_blastRadius = (0, 0)\<rparr>"

definition affected_precise :: "(string \<Rightarrow> string \<Rightarrow> int) \<Rightarrow> traced_db \<Rightarrow> string \<Rightarrow> affected_opts \<Rightarrow> affected_result" where
  "affected_precise lc t root opts =
     (let g = td_index t;
          index = buildTestCoverageIndex lc t;
          (traceIn, traceEdgeCount) = buildTraceIn t;
          cap = depthCap (ao_maxDepth opts);
          reach0 = reverseWalk g root traceIn cap [];
          reach1 = injectCoverage root index [root] reach0;
          reach = (if ao_classRollup opts then injectClassRollup g index [root] root reach1 else reach1);
          staticReach = staticReachableSet g [root] cap;
          observed = rankReached lc g reach (ao_patterns opts) (ao_traceOnly opts) (ao_limit opts) True staticReach;
          (tests, fellBack) = applyReachableFallback lc g reach opts observed staticReach;
          fullForHub = (if ao_limit opts = None then tests
            else let observedFull = rankReached lc g reach (ao_patterns opts) (ao_traceOnly opts) None True staticReach
                 in fst (applyReachableFallback lc g reach (opts\<lparr>ao_limit := None\<rparr>) observedFull staticReach));
          (hub, blast) = hubMetrics g (length fullForHub) (ao_patterns opts)
      in \<lparr>ar_roots = [root], ar_tests = tests, ar_traceEdgeCount = traceEdgeCount, ar_precise = True,
          ar_note = Some (if fellBack then ReachableFallbackNote else PreciseNote),
          ar_dispatchOnlyCount = dispatch_count tests, ar_hub = hub, ar_blastRadius = blast\<rparr>)"

definition affected_walk :: "(string \<Rightarrow> string \<Rightarrow> int) \<Rightarrow> traced_db \<Rightarrow> string \<Rightarrow> affected_opts \<Rightarrow> affected_result" where
  "affected_walk lc t root opts =
     (let g = td_index t;
          (traceIn, traceEdgeCount) = buildTraceIn t;
          cap = depthCap (ao_maxDepth opts);
          reach = reverseWalk g root traceIn cap [];
          staticReach = staticReachableSet g [root] cap;
          tests = rankReached lc g reach (ao_patterns opts) (ao_traceOnly opts) (ao_limit opts) False staticReach;
          fullForHub = (if ao_limit opts = None then tests
            else rankReached lc g reach (ao_patterns opts) (ao_traceOnly opts) None False staticReach);
          (hub, blast) = hubMetrics g (length fullForHub) (ao_patterns opts)
      in \<lparr>ar_roots = [root], ar_tests = tests, ar_traceEdgeCount = traceEdgeCount, ar_precise = False,
          ar_note = noteFor traceEdgeCount, ar_dispatchOnlyCount = dispatch_count tests,
          ar_hub = hub, ar_blastRadius = blast\<rparr>)"

definition affectedTests ::
  "(string \<Rightarrow> string \<Rightarrow> int) \<Rightarrow> (string \<Rightarrow> string option) \<Rightarrow> traced_db \<Rightarrow> string \<Rightarrow> affected_opts \<Rightarrow> affected_result" where
  "affectedTests lc fts_top t symbol opts =
     (case resolveNodeId fts_top (td_index t) symbol of
        None \<Rightarrow> if 0 < testCoverageCount t then not_found True 0 else not_found False (snd (buildTraceIn t))
      | Some (root, _) \<Rightarrow>
          if 0 < testCoverageCount t then affected_precise lc t root opts else affected_walk lc t root opts)"

text \<open>The changed files: their nodes are the roots, walked into one map, per file in the order given.\<close>

definition walk_file :: "db \<Rightarrow> trace_in \<Rightarrow> nat \<Rightarrow> string \<Rightarrow> string list \<times> reach_map \<Rightarrow> string list \<times> reach_map" where
  "walk_file g traceIn cap file =
     fold (\<lambda>i (roots, reach). (set_add i roots, reverseWalk g i traceIn cap reach)) (nodeIdsForFile file g)"

definition drop_roots :: "string list \<Rightarrow> reach_map \<Rightarrow> reach_map" where
  "drop_roots roots reach = filter (\<lambda>(i, _). i \<notin> set roots) reach"

text \<open>The fallback of each root without coverage; \<open>byId\<close> is in insertion order.\<close>

definition root_fallback ::
  "(string \<Rightarrow> string \<Rightarrow> int) \<Rightarrow> db \<Rightarrow> trace_in \<Rightarrow> nat \<Rightarrow> string list option \<Rightarrow> string list \<Rightarrow> string list \<Rightarrow> string
    \<Rightarrow> affected_test list \<times> bool \<Rightarrow> affected_test list \<times> bool" where
  "root_fallback lc g traceIn cap ps staticReach roots r =
     fold (\<lambda>t (tests, fellBack). if at_id t \<in> at_id ` set tests then (tests, fellBack) else (tests @ [t], True))
       (rankReached lc g (drop_roots roots (reverseWalk g r traceIn cap [])) ps False None True staticReach)"

text \<open>The roots and the map, with coverage and rollup, less the roots themselves.\<close>

definition files_reach ::
  "(string \<Rightarrow> string \<Rightarrow> int) \<Rightarrow> traced_db \<Rightarrow> string list \<Rightarrow> affected_opts \<Rightarrow> string list \<times> reach_map" where
  "files_reach lc t files opts =
     (let g = td_index t;
          precise = 0 < testCoverageCount t;
          index = buildTestCoverageIndex lc t;
          (seen, reach0) = fold (walk_file g (fst (buildTraceIn t)) (depthCap (ao_maxDepth opts))) files ([], []);
          reach1 = (if precise then fold (\<lambda>i. injectCoverage i index seen) seen reach0 else reach0);
          reach2 = (if precise \<and> ao_classRollup opts then fold (injectClassRollup g index seen) seen reach1 else reach1)
      in (seen, drop_roots seen reach2))"

definition files_fallback ::
  "(string \<Rightarrow> string \<Rightarrow> int) \<Rightarrow> traced_db \<Rightarrow> string list \<Rightarrow> string list \<Rightarrow> affected_opts \<Rightarrow> affected_test list \<Rightarrow> affected_test list \<times> bool" where
  "files_fallback lc t seen staticReach opts ranked =
     (if 0 < testCoverageCount t \<and> ao_traceOnly opts \<and> ao_fallbackReachableWhenEmpty opts
      then fold (root_fallback lc (td_index t) (fst (buildTraceIn t)) (depthCap (ao_maxDepth opts)) (ao_patterns opts) staticReach seen)
             (filter (\<lambda>r. testsCovering (buildTestCoverageIndex lc t) r = []) (js_sort lc seen)) (ranked, False)
      else (ranked, False))"

definition affectedTestsForFiles ::
  "(string \<Rightarrow> string \<Rightarrow> int) \<Rightarrow> traced_db \<Rightarrow> string list \<Rightarrow> affected_opts \<Rightarrow> affected_result" where
  "affectedTestsForFiles lc t files opts =
     (let g = td_index t;
          precise = 0 < testCoverageCount t;
          (seen, reach) = files_reach lc t files opts;
          staticReach = staticReachableSet g seen (depthCap (ao_maxDepth opts));
          ranked = rankReached lc g reach (ao_patterns opts) (ao_traceOnly opts) None precise staticReach;
          (all_tests, fellBack) = files_fallback lc t seen staticReach opts ranked;
          (hub, blast) = hubMetrics g (length all_tests) (ao_patterns opts);
          tests = take_limit (ao_limit opts) all_tests
      in \<lparr>ar_roots = js_sort lc seen, ar_tests = tests, ar_traceEdgeCount = snd (buildTraceIn t), ar_precise = precise,
          ar_note = (if precise then Some (if fellBack then ReachableFallbackNote else PreciseNote)
                     else noteFor (snd (buildTraceIn t))),
          ar_dispatchOnlyCount = dispatch_count tests, ar_hub = hub, ar_blastRadius = blast\<rparr>)"

end
