(* ===== verification/AffectedReach.thy ===== *)
theory AffectedReach
  imports AffectedTests
begin

text \<open>
  What the walk of test selection reaches. Of an entry of the map, its depth and its two flags
  matter here (\<open>reach_info\<close>); they only ever join, so a walk adds to what the map held before the
  distances of its own root, and walks over several roots may come in any order.
\<close>

subsection \<open>The graph walked\<close>

definition traced :: "trace_in \<Rightarrow> (string \<times> string) set" where
  "traced traceIn = {(x, y). \<exists>w. (x, w) \<in> set (the_list (map_of traceIn y))}"

definition affects :: "db \<Rightarrow> trace_in \<Rightarrow> (string \<times> string) set" where
  "affects g traceIn = depends g \<union> traced traceIn"

definition callers_into :: "db \<Rightarrow> trace_in \<Rightarrow> string \<Rightarrow> string list" where
  "callers_into g traceIn cur = map fst (edges_into g traceIn cur)"

lemma edges_into_iff:
  "(\<exists>tr w. (x, tr, w) \<in> set (edges_into g traceIn y)) \<longleftrightarrow> (x, y) \<in> affects g traceIn"
  "(\<exists>w. (x, True, w) \<in> set (edges_into g traceIn y)) \<longleftrightarrow> (x, y) \<in> traced traceIn"
proof -
  have "set (edges_into g traceIn y) = {(er_src e, False, er_weight e) | e. e \<in> set (incoming y g) \<and> dependency e}
      \<union> {(src, True, w) | src w. (src, w) \<in> set (the_list (map_of traceIn y))}"
    by (force simp: edges_into_def)
  then show "(\<exists>tr w. (x, tr, w) \<in> set (edges_into g traceIn y)) \<longleftrightarrow> (x, y) \<in> affects g traceIn"
    and "(\<exists>w. (x, True, w) \<in> set (edges_into g traceIn y)) \<longleftrightarrow> (x, y) \<in> traced traceIn"
    by (auto simp: affects_def traced_def incoming_depends)
qed

interpretation backwards: level_walk "affects g traceIn" "callers_into g traceIn" for g traceIn
proof
  fix x y
  have "x \<in> set (callers_into g traceIn y) \<longleftrightarrow> (\<exists>tr w. (x, tr, w) \<in> set (edges_into g traceIn y))"
    by (force simp: callers_into_def)
  then show "x \<in> set (callers_into g traceIn y) \<longleftrightarrow> (x, y) \<in> affects g traceIn" by (simp add: edges_into_iff)
qed

subsection \<open>Joining\<close>

type_synonym info = "(nat \<times> bool \<times> bool) option"

fun info_join :: "info \<Rightarrow> info \<Rightarrow> info" where
  "info_join None b = b"
| "info_join a None = a"
| "info_join (Some (d, v, s)) (Some (d', v', s')) = Some (min d d', v \<or> v', s \<or> s')"

lemma info_join_None [simp]: "info_join a None = a"
  by (cases a) auto

lemma info_join_assoc: "info_join (info_join a b) c = info_join a (info_join b c)"
  by (cases a; cases b; cases c) auto

lemma info_join_commute: "info_join a b = info_join b a"
  by (cases a; cases b) auto

lemma info_join_idem [simp]: "info_join a a = a"
  by (cases a) auto

lemma info_join_absorb [simp]: "info_join a (info_join a b) = info_join a b"
  by (simp flip: info_join_assoc)

definition reach_info :: "reach_map \<Rightarrow> string \<Rightarrow> info" where
  "reach_info m x = map_option (\<lambda>r. (nrc_depth r, nrc_viaTrace r, nrc_observed r)) (map_of m x)"

lemma reach_info_Nil [simp]: "reach_info [] x = None"
  by (simp add: reach_info_def)

lemma reach_info_update:
  "reach_info (AList.update k r m) x
    = (if x = k then Some (nrc_depth r, nrc_viaTrace r, nrc_observed r) else reach_info m x)"
  by (simp add: reach_info_def update_conv')

subsection \<open>One level\<close>

definition touch :: "string \<Rightarrow> nat \<Rightarrow> string \<times> bool \<times> int \<Rightarrow> reach_map \<Rightarrow> reach_map" where
  "touch root d e m =
     (case e of (neighbor, isTrace, weight) \<Rightarrow>
        if neighbor = root then m
        else AList.update neighbor (case map_of m neighbor of None \<Rightarrow> reach_new d isTrace weight
          | Some prev \<Rightarrow> reach_again d isTrace weight prev) m)"

lemma relax_split:
  assumes "root \<in> fst ` set ld"
  shows "relax root d e (m, ld, nx) = (touch root d e m, enqueue d (fst e) (ld, nx))"
  using assms by (cases e) (auto simp: touch_def Let_def)

lemma enqueue_keeps: "root \<in> fst ` set ld \<Longrightarrow> root \<in> fst ` set (fst (enqueue d x (ld, nx)))"
  by auto

lemma fold_relax_split:
  assumes "root \<in> fst ` set ld"
  shows "fold (relax root d) es (m, ld, nx) = (fold (touch root d) es m, fold (enqueue d) (map fst es) (ld, nx))
    \<and> root \<in> fst ` set (fst (fold (enqueue d) (map fst es) (ld, nx)))"
  using assms
proof (induction es arbitrary: m ld nx)
  case (Cons e es)
  obtain ld' nx' where n: "enqueue d (fst e) (ld, nx) = (ld', nx')" by fastforce
  then have "root \<in> fst ` set ld'" using enqueue_keeps [OF Cons.prems, of d "fst e" nx] by simp
  then show ?case using Cons.IH [of ld' _ nx'] relax_split [OF Cons.prems] n by simp
qed simp

lemma walk_level_split:
  assumes "root \<in> fst ` set ld"
  shows "walk_level g traceIn root d frontier m ld =
     (fold (touch root d) (concat (map (edges_into g traceIn) frontier)) m, level (callers_into g traceIn) d frontier ld)"
proof -
  have "fold (\<lambda>cur. fold (relax root d) (edges_into g traceIn cur)) frontier s
      = fold (relax root d) (concat (map (edges_into g traceIn) frontier)) s" for s
    by (induction frontier arbitrary: s) simp_all
  then show ?thesis
    using fold_relax_split [OF assms]
    by (simp add: walk_level_def level_def callers_into_def [abs_def] map_concat comp_def)
qed

lemma touch_info:
  "reach_info (touch root d (y, tr, w) m) x =
     info_join (reach_info m x) (if x = y \<and> x \<noteq> root then Some (d, tr, False) else None)"
  by (auto simp: touch_def reach_info_update reach_new_def reach_again_def Let_def)
     (auto simp: reach_info_def reach_new_def reach_again_def Let_def split: option.splits)

definition level_info :: "string \<Rightarrow> nat \<Rightarrow> (string \<times> bool \<times> int) list \<Rightarrow> string \<Rightarrow> info" where
  "level_info root d es x =
     (if x = root \<or> (\<forall>tr w. (x, tr, w) \<notin> set es) then None else Some (d, \<exists>w. (x, True, w) \<in> set es, False))"

lemma level_info_Cons:
  "level_info root d ((y, tr, w) # es) x =
     info_join (if x = y \<and> x \<noteq> root then Some (d, tr, False) else None) (level_info root d es x)"
  by (auto simp: level_info_def)

lemma fold_touch_info:
  "reach_info (fold (touch root d) es m) x = info_join (reach_info m x) (level_info root d es x)"
proof (induction es arbitrary: m)
  case Nil
  then show ?case by (simp add: level_info_def)
next
  case (Cons e es)
  then show ?case by (cases e) (simp add: touch_info level_info_Cons info_join_assoc)
qed

subsection \<open>The whole walk\<close>

text \<open>What \<open>k\<close> levels from \<open>root\<close> say about \<open>x\<close>: its distance, and whether a trace edge leads from it
  to a node expanded by then.\<close>

definition walk_info :: "db \<Rightarrow> trace_in \<Rightarrow> string \<Rightarrow> nat \<Rightarrow> string \<Rightarrow> info" where
  "walk_info g traceIn root k x =
     (if x = root \<or> (\<forall>n \<le> k. \<not> at_distance (affects g traceIn) root x n) then None
      else Some (THE n. at_distance (affects g traceIn) root x n,
        \<exists>y n. (x, y) \<in> traced traceIn \<and> n < k \<and> at_distance (affects g traceIn) root y n, False))"

lemma the_distance: "at_distance R i x n \<Longrightarrow> (THE n. at_distance R i x n) = n"
  by (rule the_equality) (auto dest: at_distance_unique)

lemma walk_info_0 [simp]: "walk_info g traceIn root 0 x = None"
  by (simp add: walk_info_def)

lemma level_edges:
  assumes "\<forall>y. y \<in> set frontier \<longleftrightarrow> at_distance (affects g traceIn) root y k"
  shows "(\<exists>tr w. (x, tr, w) \<in> set (concat (map (edges_into g traceIn) frontier)))
      \<longleftrightarrow> (\<exists>y. (x, y) \<in> affects g traceIn \<and> at_distance (affects g traceIn) root y k)"
    and "(\<exists>w. (x, True, w) \<in> set (concat (map (edges_into g traceIn) frontier)))
      \<longleftrightarrow> (\<exists>y. (x, y) \<in> traced traceIn \<and> at_distance (affects g traceIn) root y k)"
proof -
  have "(\<exists>tr w. (x, tr, w) \<in> set (concat (map (edges_into g traceIn) frontier)))
      \<longleftrightarrow> (\<exists>y \<in> set frontier. \<exists>tr w. (x, tr, w) \<in> set (edges_into g traceIn y))" by auto
  then show "(\<exists>tr w. (x, tr, w) \<in> set (concat (map (edges_into g traceIn) frontier)))
      \<longleftrightarrow> (\<exists>y. (x, y) \<in> affects g traceIn \<and> at_distance (affects g traceIn) root y k)"
    unfolding edges_into_iff using assms by blast
  have "(\<exists>w. (x, True, w) \<in> set (concat (map (edges_into g traceIn) frontier)))
      \<longleftrightarrow> (\<exists>y \<in> set frontier. \<exists>w. (x, True, w) \<in> set (edges_into g traceIn y))" by auto
  then show "(\<exists>w. (x, True, w) \<in> set (concat (map (edges_into g traceIn) frontier)))
      \<longleftrightarrow> (\<exists>y. (x, y) \<in> traced traceIn \<and> at_distance (affects g traceIn) root y k)"
    unfolding edges_into_iff using assms by blast
qed

lemma walk_info_Suc:
  assumes "\<forall>y. y \<in> set frontier \<longleftrightarrow> at_distance (affects g traceIn) root y k"
  shows "info_join (walk_info g traceIn root k x)
      (level_info root (Suc k) (concat (map (edges_into g traceIn) frontier)) x)
    = walk_info g traceIn root (Suc k) x"
proof (cases "x = root")
  case True
  then show ?thesis by (simp add: walk_info_def level_info_def)
next
  case False
  let ?D = "at_distance (affects g traceIn) root"
  let ?step = "\<exists>y. (x, y) \<in> affects g traceIn \<and> ?D y k"
  let ?tr = "\<lambda>k. \<exists>y n. (x, y) \<in> traced traceIn \<and> n < k \<and> ?D y n"
  have L: "level_info root (Suc k) (concat (map (edges_into g traceIn) frontier)) x =
      (if ?step then Some (Suc k, \<exists>y. (x, y) \<in> traced traceIn \<and> ?D y k, False) else None)"
    using False level_edges [OF assms, of x] by (auto simp: level_info_def)
  have tr: "?tr (Suc k) \<longleftrightarrow> ?tr k \<or> (\<exists>y. (x, y) \<in> traced traceIn \<and> ?D y k)" by (auto simp: less_Suc_eq)
  have tr_step: "\<not> ?step \<Longrightarrow> \<not> (\<exists>y. (x, y) \<in> traced traceIn \<and> ?D y k)" by (auto simp: affects_def)
  show ?thesis
  proof (cases "\<exists>n \<le> k. ?D x n")
    case True
    then obtain n where n: "n \<le> k" "?D x n" by blast
    then have "walk_info g traceIn root j x = Some (n, ?tr j, False)" if "k \<le> j" for j
      using False that by (auto simp: walk_info_def the_distance [OF n(2)] intro!: exI [of _ n])
    then have "walk_info g traceIn root k x = Some (n, ?tr k, False)"
      and "walk_info g traceIn root (Suc k) x = Some (n, ?tr (Suc k), False)" by simp_all
    then show ?thesis unfolding L using n(1) tr tr_step by auto
  next
    case far: False
    then have w: "walk_info g traceIn root k x = None" by (simp add: walk_info_def)
    show ?thesis
    proof (cases ?step)
      case True
      then have d: "?D x (Suc k)" using far unfolding at_distance_Suc by blast
      have "\<not> ?tr k"
      proof
        assume "?tr k"
        then obtain y n where y: "(x, y) \<in> affects g traceIn" "n < k" "?D y n" by (auto simp: affects_def)
        then have "(x, root) \<in> affects g traceIn ^^ Suc n" unfolding at_distance_def by (meson relpow_Suc_I2)
        from at_distance_ex [OF this] obtain m where "m \<le> Suc n" "?D x m" by blast
        with y(2) far show False by auto
      qed
      moreover have "walk_info g traceIn root (Suc k) x = Some (Suc k, ?tr (Suc k), False)"
        unfolding walk_info_def the_distance [OF d] using False d by auto
      ultimately show ?thesis using True tr by (simp add: L w) blast
    next
      case no: False
      then have "\<not> ?D x (Suc k)" unfolding at_distance_Suc by blast
      then have "walk_info g traceIn root (Suc k) x = None" using far by (auto simp: walk_info_def le_Suc_eq)
      then show ?thesis using no by (simp add: L w)
    qed
  qed
qed

text \<open>When a level is empty nothing lies further out, and further levels would add nothing.\<close>

lemma walk_info_stable:
  assumes "\<forall>y. \<not> at_distance (affects g traceIn) root y (Suc k)" "Suc k \<le> j"
  shows "walk_info g traceIn root j x = walk_info g traceIn root (Suc k) x"
proof -
  have far: "n \<le> k" if "at_distance (affects g traceIn) root y n" for y n
    using at_distance_before [OF that, of "Suc k"] assms(1) by (meson not_less_eq_eq)
  then have "(\<exists>n \<le> j. at_distance (affects g traceIn) root x n) \<longleftrightarrow> (\<exists>n \<le> Suc k. at_distance (affects g traceIn) root x n)"
    using assms(2) by (meson le_SucI le_trans)
  moreover have "(\<exists>y n. (x, y) \<in> traced traceIn \<and> n < j \<and> at_distance (affects g traceIn) root y n)
      \<longleftrightarrow> (\<exists>y n. (x, y) \<in> traced traceIn \<and> n < Suc k \<and> at_distance (affects g traceIn) root y n)"
    using far assms(2) by (meson le_imp_less_Suc less_le_trans)
  ultimately show ?thesis unfolding walk_info_def by auto
qed

lemma walk_loop_info:
  assumes "walk_inv (affects g traceIn) root k frontier ld" "reach_info m x = info_join a (walk_info g traceIn root k x)"
  shows "reach_info (walk_loop g traceIn root n (Suc k) frontier m ld) x = info_join a (walk_info g traceIn root (k + n) x)"
  using assms
proof (induction n arbitrary: k frontier m ld)
  case 0
  then show ?case by simp
next
  case (Suc n)
  let ?es = "concat (map (edges_into g traceIn) frontier)"
  have "map_of ld root = Some 0" using Suc.prems(1) by (simp add: walk_inv_def)
  then have root: "root \<in> fst ` set ld" by (force dest: map_of_SomeD)
  have F: "\<forall>y. y \<in> set frontier \<longleftrightarrow> at_distance (affects g traceIn) root y k" using Suc.prems(1) by (simp add: walk_inv_def)
  obtain ld' nx where l: "level (callers_into g traceIn) (Suc k) frontier ld = (ld', nx)" by fastforce
  have inv: "walk_inv (affects g traceIn) root (Suc k) nx ld'" by (rule backwards.walk_inv_step [OF Suc.prems(1) l])
  let ?m = "fold (touch root (Suc k)) ?es m"
  note W = walk_level_split [OF root, of g traceIn "Suc k" frontier m, unfolded l]
  have I: "reach_info ?m x = info_join a (walk_info g traceIn root (Suc k) x)"
    unfolding fold_touch_info Suc.prems(2) info_join_assoc walk_info_Suc [OF F] by (rule refl)
  show ?case
  proof (cases "nx = []")
    case False
    then show ?thesis using Suc.IH [OF inv I] W by simp
  next
    case True
    then have "\<forall>y. \<not> at_distance (affects g traceIn) root y (Suc k)" using inv by (simp add: walk_inv_def)
    then have "walk_info g traceIn root (k + Suc n) x = walk_info g traceIn root (Suc k) x" by (rule walk_info_stable) simp
    then show ?thesis using True W I by simp
  qed
qed

lemma reverseWalk_info:
  "reach_info (reverseWalk g root traceIn cap m) x = info_join (reach_info m x) (walk_info g traceIn root cap x)"
  using walk_loop_info [OF backwards.walk_inv_start, of m x "reach_info m x" g traceIn root cap]
  by (simp add: reverseWalk_def)

end
