(* ===== verification/Selection.thy ===== *)
theory Selection
  imports AffectedReach
begin

text \<open>
  What test selection selects. A test covers an entity when a coverage row resolves to the two; a
  call was observed when an observation does. With these, and the static dependents, the answer of
  \<open>affectedTests\<close> and of \<open>affectedTestsForFiles\<close> is described without reference to how they walk.
\<close>

subsection \<open>Evidence\<close>

definition covers :: "traced_db \<Rightarrow> string \<Rightarrow> string \<Rightarrow> bool" where
  "covers t x entity \<longleftrightarrow> rows_for (buildTraceResolver (td_index t)) (test_coverage_t t) entity x \<noteq> []"

definition observed_calls :: "traced_db \<Rightarrow> (string \<times> string) set" where
  "observed_calls t = {(x, y). \<exists>ob \<in> set (observations_t t).
     resolve (buildTraceResolver (td_index t)) (ob_src ob) = Some x
     \<and> resolve (buildTraceResolver (td_index t)) (ob_dst ob) = Some y}"

definition impacts :: "traced_db \<Rightarrow> (string \<times> string) set" where
  "impacts t = depends (td_index t) \<union> observed_calls t"

definition rolled :: "traced_db \<Rightarrow> string list \<Rightarrow> string \<Rightarrow> string \<Rightarrow> bool" where
  "rolled t roots root x \<longleftrightarrow> (\<exists>s \<in> set (classSiblings (td_index t) root). s \<notin> set roots \<and> covers t x s)"

definition test_of :: "db \<Rightarrow> string list option \<Rightarrow> string \<Rightarrow> test_handle option" where
  "test_of g ps x = (case getNode x g of None \<Rightarrow> None
     | Some n \<Rightarrow> classifyTest (node_candidate n (Some (nr_kind n))) (patterns_of ps))"

lemma covers_iff: "covers t x entity \<longleftrightarrow> x \<in> fst ` set (testsCovering (buildTestCoverageIndex lc t) entity)"
proof -
  have "x \<in> fst ` S \<longleftrightarrow> (\<exists>w. (x, w) \<in> S)" for S :: "(string \<times> int) set" by force
  then show ?thesis by (simp add: covers_def testsCovering_iff)
qed

lemma no_coverage: "testCoverageCount t = 0 \<Longrightarrow> \<not> covers t x e"
  by (simp add: covers_def testCoverageCount_def rows_for_def)

lemma trace_in_fold:
  "(x, y) \<in> traced (fst (fold (\<lambda>e (ti, n).
         case (resolvedSrc e, resolvedDst e) of
           (Some src, Some dst) \<Rightarrow> (AList.update dst (the_list (map_of ti dst) @ [(src, te_weight e)]) ti, n + 1)
         | _ \<Rightarrow> (ti, n)) es (ti, n)))
   \<longleftrightarrow> (x, y) \<in> traced ti \<or> (\<exists>e \<in> set es. resolvedSrc e = Some x \<and> resolvedDst e = Some y)"
proof (induction es arbitrary: ti n)
  case (Cons e es)
  have "(x, y) \<in> traced (AList.update d (the_list (map_of ti d) @ [(s, w)]) ti) \<longleftrightarrow> (x, y) \<in> traced ti \<or> x = s \<and> y = d"
    for s d w by (auto simp: traced_def update_conv')
  with Cons show ?case by (cases "resolvedSrc e"; cases "resolvedDst e") auto
qed simp

lemma traced_observed: "traced (fst (buildTraceIn t)) = observed_calls t"
proof -
  let ?r = "buildTraceResolver (td_index t)"
  have "traced [] = {}" by (simp add: traced_def)
  then have "(x, y) \<in> traced (fst (buildTraceIn t))
      \<longleftrightarrow> (\<exists>e \<in> set (resolvedTraceEdges None None t). resolvedSrc e = Some x \<and> resolvedDst e = Some y)" for x y
    unfolding buildTraceIn_def trace_in_fold by simp
  also have "\<dots> x y \<longleftrightarrow> (\<exists>p \<in> (\<lambda>ob. (ob_src ob, ob_dst ob)) ` set (observations_t t).
      resolve ?r (fst p) = Some x \<and> resolve ?r (snd p) = Some y)" for x y
    by (auto simp: resolvedTraceEdges_def Let_def)
  finally show ?thesis by (auto simp: observed_calls_def)
qed

lemma affects_impacts: "affects (td_index t) (fst (buildTraceIn t)) = impacts t"
  by (simp add: affects_def impacts_def traced_observed)

lemma affects_static: "affects g [] = depends g"
  by (simp add: affects_def traced_def)

subsection \<open>Coverage and rollup, on the map\<close>

lemma reach_observed_info:
  "Some (nrc_depth (reach_observed w p), nrc_viaTrace (reach_observed w p), nrc_observed (reach_observed w p))
     = info_join (map_option (\<lambda>r. (nrc_depth r, nrc_viaTrace r, nrc_observed r)) p) (Some (1, True, True))"
  by (cases p) (auto simp: reach_observed_def Let_def)

lemma inject_entries_info:
  "reach_info (fold (\<lambda>(test, w) m. if test \<in> set roots then m
       else AList.update test (reach_observed w (map_of m test)) m) es m) x
   = (if x \<notin> set roots \<and> x \<in> fst ` set es then info_join (reach_info m x) (Some (1, True, True)) else reach_info m x)"
proof (induction es arbitrary: m)
  case (Cons e es)
  obtain y w where e: "e = (y, w)" by fastforce
  let ?m = "if y \<in> set roots then m else AList.update y (reach_observed w (map_of m y)) m"
  have "reach_info ?m x = (if x = y \<and> y \<notin> set roots then info_join (reach_info m x) (Some (1, True, True)) else reach_info m x)"
    using reach_observed_info [of w "map_of m y"] by (simp add: reach_info_update) (simp add: reach_info_def)
  then show ?case using Cons [of ?m] by (auto simp: e info_join_assoc)
qed simp

lemma injectCoverage_info:
  "reach_info (injectCoverage entity (buildTestCoverageIndex lc t) roots m) x
   = (if x \<notin> set roots \<and> covers t x entity then info_join (reach_info m x) (Some (1, True, True)) else reach_info m x)"
  unfolding injectCoverage_def inject_entries_info covers_iff [of t x entity lc] by (rule refl)

fun roll :: "info \<Rightarrow> info" where
  "roll None = Some (1, True, False)"
| "roll (Some (d, v, s)) = Some (d, True, s)"

lemma roll_idem [simp]: "roll (roll i) = roll i"
  by (cases i rule: roll.cases) auto

lemma roll_entries_info:
  "reach_info (fold (\<lambda>(test, w) m. if test \<in> set roots then m
       else AList.update test (reach_rolled w (map_of m test)) m) es m) x
   = (if x \<notin> set roots \<and> x \<in> fst ` set es then roll (reach_info m x) else reach_info m x)"
proof (induction es arbitrary: m)
  case (Cons e es)
  obtain y w where e: "e = (y, w)" by fastforce
  let ?m = "if y \<in> set roots then m else AList.update y (reach_rolled w (map_of m y)) m"
  have "reach_info ?m x = (if x = y \<and> y \<notin> set roots then roll (reach_info m x) else reach_info m x)"
    by (cases "map_of m y") (auto simp: reach_rolled_def Let_def reach_info_def update_conv')
  then show ?case using Cons [of ?m] by (auto simp: e)
qed simp

lemma injectClassRollup_info:
  "reach_info (injectClassRollup (td_index t) (buildTestCoverageIndex lc t) roots root m) x
   = (if x \<notin> set roots \<and> rolled t roots root x then roll (reach_info m x) else reach_info m x)"
proof -
  have "reach_info (fold (\<lambda>sibling m. if sibling \<in> set roots then m
             else fold (\<lambda>(test, weight) m. if test \<in> set roots then m
                      else AList.update test (reach_rolled weight (map_of m test)) m)
                    (testsCovering (buildTestCoverageIndex lc t) sibling) m) ss m) x
      = (if x \<notin> set roots \<and> (\<exists>s \<in> set ss. s \<notin> set roots \<and> covers t x s) then roll (reach_info m x) else reach_info m x)" for ss
    by (induction ss arbitrary: m) (auto simp: roll_entries_info simp flip: covers_iff)
  then show ?thesis by (simp add: injectClassRollup_def rolled_def)
qed

subsection \<open>Keys stay distinct\<close>

lemma distinct_fold:
  "distinct (map fst m) \<Longrightarrow> (\<And>e m. e \<in> set es \<Longrightarrow> distinct (map fst m) \<Longrightarrow> distinct (map fst (f e m)))
   \<Longrightarrow> distinct (map fst (fold f es m))"
  by (induction es arbitrary: m) simp_all

lemma distinct_walk_loop:
  assumes "distinct (map fst m)" "root \<in> fst ` set ld"
  shows "distinct (map fst (walk_loop g ti root n d frontier m ld))"
  using assms
proof (induction n arbitrary: d frontier m ld)
  case (Suc n)
  obtain m' ld' nx where w: "walk_level g ti root d frontier m ld = (m', ld', nx)" by (cases "walk_level g ti root d frontier m ld")
  have "distinct (map fst (touch root d e m))" if "distinct (map fst m)" for e m
    using that by (cases e) (simp add: touch_def distinct_update)
  then have "distinct (map fst m')" "root \<in> fst ` set ld'"
    using w Suc.prems(1) fold_relax_split [OF Suc.prems(2), of d "concat (map (edges_into g ti) frontier)" m "[]"]
    unfolding walk_level_split [OF Suc.prems(2)] level_def callers_into_def [abs_def]
    by (auto intro: distinct_fold simp: map_concat comp_def)
  then show ?case using Suc.IH w by simp
qed simp

lemma distinct_reverseWalk: "distinct (map fst m) \<Longrightarrow> distinct (map fst (reverseWalk g root ti cap m))"
  by (simp add: reverseWalk_def distinct_walk_loop)

lemma distinct_injectCoverage: "distinct (map fst m) \<Longrightarrow> distinct (map fst (injectCoverage e idx roots m))"
  unfolding injectCoverage_def by (rule distinct_fold) (auto simp: distinct_update)

lemma distinct_injectClassRollup: "distinct (map fst m) \<Longrightarrow> distinct (map fst (injectClassRollup g idx roots root m))"
  unfolding injectClassRollup_def by (rule distinct_fold) (auto intro!: distinct_fold simp: distinct_update)

subsection \<open>Ranking\<close>

lemma rank_cmp_comparator:
  assumes "comparator lc (\<lambda>_. True)"
  shows "comparator (rank_cmp lc) (\<lambda>_. True)"
proof -
  let ?d = "\<lambda>f a b. f a - f b :: int"
  let ?lex = "\<lambda>c d a b. if c a b \<noteq> 0 then c a b else d a b :: int"
  have "rank_cmp lc = ?lex (?d (\<lambda>a. if at_dispatchOnly a then 0 else 1))
     (?lex (?d (\<lambda>a. if at_confidence a = Observed then 0 else 1))
       (?lex (?d (\<lambda>a. if at_evidence a = Trace then 0 else 1))
         (?lex (?d (\<lambda>a. int (at_depth a))) (?lex (?d (\<lambda>a. - at_weight a)) (\<lambda>a b. lc (at_id a) (at_id b))))))"
    (is "_ = ?r")
  proof (intro ext)
    fix a b
    show "rank_cmp lc a b = ?r a b"
      by (cases "at_evidence a"; cases "at_evidence b") (simp_all add: rank_cmp_def)
  qed
  moreover have "comparator ?r (\<lambda>_. True)"
    by (intro comparator_lex comparator_diff comparator.image [OF assms, of at_id, simplified])
  ultimately show ?thesis by simp
qed

text \<open>The list before the tier is chosen and the limit applied.\<close>

definition ranked_all :: "(string \<Rightarrow> string \<Rightarrow> int) \<Rightarrow> db \<Rightarrow> reach_map \<Rightarrow> string list option \<Rightarrow> string list \<Rightarrow> affected_test list" where
  "ranked_all lc g reach ps st = js_sort (rank_cmp lc) (List.map_filter (affected_of g ps st) reach)"

definition tier :: "bool \<Rightarrow> bool \<Rightarrow> affected_test \<Rightarrow> bool" where
  "tier traceOnly precise a \<longleftrightarrow> traceOnly \<longrightarrow> (if precise then at_confidence a = Observed else at_evidence a = Trace)"

lemma rankReached_tier:
  "rankReached lc g reach ps traceOnly limit precise st = take_limit limit (filter (tier traceOnly precise) (ranked_all lc g reach ps st))"
  by (simp add: rankReached_def ranked_all_def tier_def [abs_def] Let_def)

lemma take_limit_None [simp]: "take_limit None xs = xs"
  by (simp add: take_limit_def)

lemma take_limit_take: "\<exists>n. take_limit l xs = take n xs"
  by (cases l) (auto simp: take_limit_def intro: exI [of _ "length xs"])

lemma set_take_limit: "set (take_limit l xs) \<subseteq> set xs"
  using take_limit_take [of l xs] set_take_subset by metis

lemma take_limit_Nil_iff: "take_limit l xs = [] \<longleftrightarrow> xs = [] \<or> l = Some 0"
  by (cases l) (auto simp: take_limit_def)

lemma affected_ofD:
  assumes "affected_of g ps st (x, r) = Some a"
  shows "at_id a = x \<and> at_depth a = nrc_depth r \<and> (at_evidence a = Trace \<longleftrightarrow> nrc_viaTrace r)
    \<and> (at_confidence a = Observed \<longleftrightarrow> nrc_observed r) \<and> (at_staticReachable a \<longleftrightarrow> x \<in> set st)
    \<and> (at_dispatchOnly a \<longleftrightarrow> at_evidence a = Trace \<and> \<not> at_staticReachable a)
    \<and> (\<exists>h. test_of g ps x = Some h \<and> at_file a = th_file h \<and> at_runnable a = th_runnable h \<and> at_runner a = th_runner h)"
proof -
  obtain n where n: "getNode x g = Some n" using assms by (auto simp: affected_of_def split: option.splits)
  then have "nr_id n = x" by (auto simp: getNode_def find_Some_iff)
  with n assms show ?thesis
    by (auto simp: affected_of_def test_of_def Let_def classifyTest_def node_candidate_def split: option.splits if_splits)
qed

lemma affected_of_None: "affected_of g ps st (x, r) = None \<longleftrightarrow> test_of g ps x = None"
  by (auto simp: affected_of_def test_of_def Let_def split: option.splits)

text \<open>What the map says about a test and what its row says.\<close>

definition row_of :: "db \<Rightarrow> string list option \<Rightarrow> (string \<Rightarrow> bool) \<Rightarrow> (string \<Rightarrow> info) \<Rightarrow> affected_test \<Rightarrow> bool" where
  "row_of g ps static info a \<longleftrightarrow>
     info (at_id a) = Some (at_depth a, at_evidence a = Trace, at_confidence a = Observed)
     \<and> (at_staticReachable a \<longleftrightarrow> static (at_id a))
     \<and> (at_dispatchOnly a \<longleftrightarrow> at_evidence a = Trace \<and> \<not> at_staticReachable a)
     \<and> (\<exists>h. test_of g ps (at_id a) = Some h \<and> at_file a = th_file h \<and> at_runnable a = th_runnable h \<and> at_runner a = th_runner h)"

lemma ranked_all_rows:
  assumes "distinct (map fst reach)"
  shows "\<forall>a \<in> set (ranked_all lc g reach ps st). row_of g ps (\<lambda>x. x \<in> set st) (reach_info reach) a"
    and "at_id ` set (ranked_all lc g reach ps st) = {x. reach_info reach x \<noteq> None \<and> test_of g ps x \<noteq> None}"
    and "distinct (map at_id (ranked_all lc g reach ps st))"
proof -
  have in_map: "(x, r) \<in> set reach \<longleftrightarrow> map_of reach x = Some r" for x r using assms by (simp add: map_of_eq_Some_iff)
  have mem: "a \<in> set (ranked_all lc g reach ps st) \<longleftrightarrow> (\<exists>x r. map_of reach x = Some r \<and> affected_of g ps st (x, r) = Some a)" for a
    by (force simp: ranked_all_def set_map_filter simp flip: in_map)
  show "\<forall>a \<in> set (ranked_all lc g reach ps st). row_of g ps (\<lambda>x. x \<in> set st) (reach_info reach) a"
  proof
    fix a assume "a \<in> set (ranked_all lc g reach ps st)"
    then obtain x r where "map_of reach x = Some r" "affected_of g ps st (x, r) = Some a" unfolding mem by blast
    with affected_ofD [OF this(2)] show "row_of g ps (\<lambda>x. x \<in> set st) (reach_info reach) a"
      by (simp add: row_of_def reach_info_def)
  qed
  show "at_id ` set (ranked_all lc g reach ps st) = {x. reach_info reach x \<noteq> None \<and> test_of g ps x \<noteq> None}"
  proof (intro set_eqI iffI)
    fix x assume "x \<in> at_id ` set (ranked_all lc g reach ps st)"
    then obtain a where "a \<in> set (ranked_all lc g reach ps st)" and x: "x = at_id a" by blast
    then obtain y r where y: "map_of reach y = Some r" "affected_of g ps st (y, r) = Some a" unfolding mem by blast
    with affected_ofD [OF y(2)] x have "map_of reach x = Some r" "affected_of g ps st (x, r) = Some a" by simp_all
    with affected_of_None [of g ps st x r] show "x \<in> {x. reach_info reach x \<noteq> None \<and> test_of g ps x \<noteq> None}"
      by (simp add: reach_info_def)
  next
    fix x assume "x \<in> {x. reach_info reach x \<noteq> None \<and> test_of g ps x \<noteq> None}"
    then obtain r where m: "map_of reach x = Some r" and "test_of g ps x \<noteq> None" by (auto simp: reach_info_def)
    then obtain a where r: "map_of reach x = Some r" "affected_of g ps st (x, r) = Some a"
      using affected_of_None [of g ps st x r] by auto
    then have "a \<in> set (ranked_all lc g reach ps st)" unfolding mem by blast
    with affected_ofD [OF r(2)] show "x \<in> at_id ` set (ranked_all lc g reach ps st)" by force
  qed
  have "mset (map at_id (ranked_all lc g reach ps st)) = mset (map at_id (List.map_filter (affected_of g ps st) reach))"
    by (simp add: ranked_all_def)
  moreover have "distinct (map at_id (List.map_filter (affected_of g ps st) reach))"
    using distinct_keys_map_filter [OF assms, of "affected_of g ps st" at_id] affected_ofD [of g ps st]
    by (metis (no_types, lifting) prod.collapse)
  ultimately show "distinct (map at_id (ranked_all lc g reach ps st))" by (metis mset_eq_imp_distinct_iff)
qed

lemma ranked_all_sorted:
  assumes "comparator lc (\<lambda>_. True)"
  shows "sorted_wrt (\<lambda>a b. rank_cmp lc a b \<le> 0) (ranked_all lc g reach ps st)"
  unfolding ranked_all_def by (rule comparator.sorted_js_sort [OF rank_cmp_comparator [OF assms]]) simp

subsection \<open>The query for one symbol\<close>

lemma info_join_eq_None: "info_join a b = None \<longleftrightarrow> a = None \<and> b = None"
  by (cases a; cases b) auto

lemma in_keys: "x \<in> fst ` set m \<longleftrightarrow> reach_info m x \<noteq> None"
  using map_of_eq_None_iff [of m x] by (auto simp: reach_info_def)

lemma walk_info_None:
  "walk_info g ti root k x = None \<longleftrightarrow> x = root \<or> (\<forall>n \<le> k. \<not> at_distance (affects g ti) root x n)"
  by (simp add: walk_info_def)

lemma walk_info_Some:
  "walk_info g ti root k x = Some (d, v, s) \<longleftrightarrow> x \<noteq> root \<and> d \<le> k \<and> at_distance (affects g ti) root x d
     \<and> (v \<longleftrightarrow> (\<exists>y n. (x, y) \<in> traced ti \<and> n < k \<and> at_distance (affects g ti) root y n)) \<and> \<not> s"
proof (cases "x = root \<or> (\<forall>n \<le> k. \<not> at_distance (affects g ti) root x n)")
  case True
  then show ?thesis by (auto simp: walk_info_def)
next
  case False
  then obtain n where n: "n \<le> k" "at_distance (affects g ti) root x n" by blast
  then have "at_distance (affects g ti) root x d \<longleftrightarrow> d = n" by (auto dest: at_distance_unique)
  with False n show ?thesis by (auto simp: walk_info_def the_distance)
qed

lemma walks_reach:
  "reach_info (fold (\<lambda>r. reverseWalk g r ti cap) roots m) x = None \<longleftrightarrow>
     reach_info m x = None \<and> (\<forall>r \<in> set roots. x = r \<or> (\<forall>n \<le> cap. \<not> at_distance (affects g ti) r x n))"
  by (induction roots arbitrary: m) (simp_all add: reverseWalk_info info_join_eq_None walk_info_None)

lemma staticReachableSet_iff:
  "x \<in> set (staticReachableSet g roots cap) \<longleftrightarrow>
     (\<exists>r \<in> set roots. x \<noteq> r \<and> (\<exists>n \<le> cap. at_distance (depends g) r x n))"
  using walks_reach [of g "[]" cap roots "[]" x] by (auto simp: staticReachableSet_def in_keys affects_static)

text \<open>The entry of \<open>x\<close> when \<open>roots\<close> changed: its depth, whether a trace speaks for it, whether it covers
  a root. A covering test is at depth 1; one that is only rolled up too.\<close>

definition near :: "traced_db \<Rightarrow> string list \<Rightarrow> nat \<Rightarrow> string \<Rightarrow> bool" where
  "near t roots cap x \<longleftrightarrow> (\<exists>r \<in> set roots. \<exists>n \<le> cap. at_distance (impacts t) r x n)"

definition nearest :: "traced_db \<Rightarrow> string list \<Rightarrow> string \<Rightarrow> nat \<Rightarrow> bool" where
  "nearest t roots x d \<longleftrightarrow> (\<exists>r \<in> set roots. at_distance (impacts t) r x d)
     \<and> (\<forall>r \<in> set roots. \<forall>n. at_distance (impacts t) r x n \<longrightarrow> d \<le> n)"

definition called_near :: "traced_db \<Rightarrow> string list \<Rightarrow> nat \<Rightarrow> string \<Rightarrow> bool" where
  "called_near t roots cap x \<longleftrightarrow>
     (\<exists>r \<in> set roots. \<exists>y n. (x, y) \<in> observed_calls t \<and> n < cap \<and> at_distance (impacts t) r y n)"

definition is_entry :: "traced_db \<Rightarrow> string list \<Rightarrow> nat \<Rightarrow> bool \<Rightarrow> string \<Rightarrow> nat \<Rightarrow> bool \<Rightarrow> bool \<Rightarrow> bool" where
  "is_entry t roots cap rollup x d v s \<longleftrightarrow>
     (let covered = \<exists>r \<in> set roots. covers t x r; up = rollup \<and> (\<exists>r \<in> set roots. rolled t roots r x)
      in x \<notin> set roots \<and> (covered \<or> near t roots cap x \<or> up)
        \<and> (s \<longleftrightarrow> covered) \<and> (v \<longleftrightarrow> covered \<or> up \<or> called_near t roots cap x)
        \<and> (if \<not> covered \<and> near t roots cap x then nearest t roots x d else d = 1))"

lemma called_near_near:
  assumes "called_near t roots cap x"
  shows "near t roots cap x"
proof -
  obtain r y n where y: "r \<in> set roots" "(x, y) \<in> impacts t" "n < cap" "at_distance (impacts t) r y n"
    using assms by (auto simp: called_near_def impacts_def)
  then have "(x, r) \<in> impacts t ^^ Suc n" unfolding at_distance_def by (meson relpow_Suc_I2)
  from at_distance_ex [OF this] show ?thesis using y(1,3) by (meson Suc_leI le_trans near_def)
qed

text \<open>The distances from several roots, joined.\<close>

definition joined_info :: "('r \<Rightarrow> info) \<Rightarrow> 'r list \<Rightarrow> info \<Rightarrow> info" where
  "joined_info f rs = fold (\<lambda>r i. info_join i (f r)) rs"

lemma joined_info_None: "joined_info f rs i = None \<longleftrightarrow> i = None \<and> (\<forall>r \<in> set rs. f r = None)"
  unfolding joined_info_def by (induction rs arbitrary: i) (auto simp: info_join_eq_None)

lemma joined_info_Some:
  assumes "joined_info f rs None = Some (d, v, s)"
  shows "(\<exists>r \<in> set rs. \<exists>v' s'. f r = Some (d, v', s')) \<and> (\<forall>r \<in> set rs. \<forall>d' v' s'. f r = Some (d', v', s') \<longrightarrow> d \<le> d')
    \<and> (v \<longleftrightarrow> (\<exists>r \<in> set rs. \<exists>d' s'. f r = Some (d', True, s'))) \<and> (s \<longleftrightarrow> (\<exists>r \<in> set rs. \<exists>d' v'. f r = Some (d', v', True)))"
  using assms
proof (induction rs arbitrary: d v s rule: rev_induct)
  case Nil
  then show ?case by (simp add: joined_info_def)
next
  case (snoc r rs)
  have j: "joined_info f (rs @ [r]) None = info_join (joined_info f rs None) (f r)" by (simp add: joined_info_def)
  show ?case
  proof (cases "joined_info f rs None")
    case None
    then have "\<forall>r \<in> set rs. f r = None" by (simp add: joined_info_None)
    with snoc.prems None show ?thesis unfolding j by simp
  next
    case (Some i)
    obtain d0 v0 s0 where i: "joined_info f rs None = Some (d0, v0, s0)" using Some by (cases i) simp
    note IH = snoc.IH [OF i]
    show ?thesis
    proof (cases "f r")
      case None
      with snoc.prems i IH show ?thesis unfolding j by auto
    next
      case (Some k)
      obtain d1 v1 s1 where k: "f r = Some (d1, v1, s1)" using Some by (cases k) simp
      have e: "d = min d0 d1" "v \<longleftrightarrow> v0 \<or> v1" "s \<longleftrightarrow> s0 \<or> s1" using snoc.prems unfolding j i k by auto
      show ?thesis
      proof (intro conjI)
        show "\<exists>r \<in> set (rs @ [r]). \<exists>v' s'. f r = Some (d, v', s')"
        proof (cases "d0 \<le> d1")
          case True
          then have "d = d0" using e(1) by simp
          with conjunct1 [OF IH] show ?thesis by auto
        next
          case False
          then have "d = d1" using e(1) by simp
          with k show ?thesis by simp
        qed
        have "\<forall>r \<in> set rs. \<forall>d' v' s'. f r = Some (d', v', s') \<longrightarrow> d \<le> d'" using IH e(1) by (meson min.coboundedI1)
        then show "\<forall>r \<in> set (rs @ [r]). \<forall>d' v' s'. f r = Some (d', v', s') \<longrightarrow> d \<le> d'" using k e(1) by simp
        show "v \<longleftrightarrow> (\<exists>r \<in> set (rs @ [r]). \<exists>d' s'. f r = Some (d', True, s'))" using IH k e(2) by auto
        show "s \<longleftrightarrow> (\<exists>r \<in> set (rs @ [r]). \<exists>d' v'. f r = Some (d', v', True))" using IH k e(3) by auto
      qed
    qed
  qed
qed

lemma walks_info:
  "reach_info (fold (\<lambda>r. reverseWalk g r ti cap) roots m) x = joined_info (\<lambda>r. walk_info g ti r cap x) roots (reach_info m x)"
  unfolding joined_info_def by (induction roots arbitrary: m) (simp_all add: reverseWalk_info)

definition walks_entry :: "traced_db \<Rightarrow> string list \<Rightarrow> nat \<Rightarrow> string \<Rightarrow> info" where
  "walks_entry t roots cap x = joined_info (\<lambda>r. walk_info (td_index t) (fst (buildTraceIn t)) r cap x) roots None"

lemma walks_entry_None: "x \<notin> set roots \<Longrightarrow> walks_entry t roots cap x = None \<longleftrightarrow> \<not> near t roots cap x"
  by (auto simp: walks_entry_def joined_info_None walk_info_None near_def affects_impacts)

lemma walks_entry_Some:
  assumes "x \<notin> set roots" "walks_entry t roots cap x = Some (d, v, s)"
  shows "nearest t roots x d \<and> 0 < d \<and> (v \<longleftrightarrow> called_near t roots cap x) \<and> \<not> s"
proof -
  let ?W = "\<lambda>r. walk_info (td_index t) (fst (buildTraceIn t)) r cap x"
  let ?tr = "\<lambda>r. \<exists>y n. (x, y) \<in> observed_calls t \<and> n < cap \<and> at_distance (impacts t) r y n"
  have J: "\<exists>r \<in> set roots. \<exists>v' s'. ?W r = Some (d, v', s')"
    and min: "\<forall>r \<in> set roots. \<forall>d' v' s'. ?W r = Some (d', v', s') \<longrightarrow> d \<le> d'"
    and trace: "v \<longleftrightarrow> (\<exists>r \<in> set roots. \<exists>d' s'. ?W r = Some (d', True, s'))"
    and cover: "s \<longleftrightarrow> (\<exists>r \<in> set roots. \<exists>d' v'. ?W r = Some (d', v', True))"
    using joined_info_Some [OF assms(2) [unfolded walks_entry_def]] by simp_all
  have W: "?W r = Some (d', v', s') \<longleftrightarrow> d' \<le> cap \<and> at_distance (impacts t) r x d' \<and> (v' \<longleftrightarrow> ?tr r) \<and> \<not> s'"
    if "r \<in> set roots" for r d' v' s'
    using assms(1) that by (auto simp: walk_info_Some affects_impacts traced_observed)
  obtain r where r: "r \<in> set roots" "d \<le> cap" "at_distance (impacts t) r x d"
    using J W by blast
  have le: "d \<le> n" if "r' \<in> set roots" "at_distance (impacts t) r' x n" for r' n
  proof (cases "n \<le> cap")
    case True
    with that have "?W r' = Some (n, ?tr r', False)" by (simp add: W)
    then show ?thesis using min that(1) by blast
  next
    case False
    with r(2) show ?thesis by simp
  qed
  have "0 < d" using r(3) r(1) assms(1) by (cases d) auto
  moreover have "nearest t roots x d" using r le by (auto simp: nearest_def)
  moreover have "v \<longleftrightarrow> called_near t roots cap x"
  proof
    assume v
    then obtain r' d' s' where "r' \<in> set roots" "?W r' = Some (d', True, s')" using trace by blast
    with W [of r' d' True s'] have "r' \<in> set roots" "?tr r'" by simp_all
    then show "called_near t roots cap x" unfolding called_near_def by blast
  next
    assume "called_near t roots cap x"
    then obtain r' where r': "r' \<in> set roots" "?tr r'" unfolding called_near_def by blast
    then have "called_near t [r'] cap x" by (simp add: called_near_def)
    from called_near_near [OF this] obtain n' where "n' \<le> cap" "at_distance (impacts t) r' x n'"
      by (auto simp: near_def)
    with r' have "?W r' = Some (n', True, False)" by (simp add: W)
    then show v using trace r'(1) by blast
  qed
  moreover have "\<not> s" unfolding cover using W by simp
  ultimately show ?thesis by blast
qed

text \<open>Coverage and rollup on top of the walks, as both queries add them.\<close>

definition entry_info :: "traced_db \<Rightarrow> string list \<Rightarrow> nat \<Rightarrow> bool \<Rightarrow> string \<Rightarrow> info" where
  "entry_info t roots cap rollup x =
     (if x \<in> set roots then None
      else let i = (if \<exists>r \<in> set roots. covers t x r then info_join (walks_entry t roots cap x) (Some (1, True, True))
                    else walks_entry t roots cap x)
           in if rollup \<and> (\<exists>r \<in> set roots. rolled t roots r x) then roll i else i)"

lemma entry_info_iff: "entry_info t roots cap rollup x = Some (d, v, s) \<longleftrightarrow> is_entry t roots cap rollup x d v s"
proof (cases "x \<in> set roots")
  case True
  then show ?thesis by (simp add: entry_info_def is_entry_def)
next
  case False
  show ?thesis
  proof (cases "walks_entry t roots cap x")
    case None
    with False have "\<not> near t roots cap x" by (simp add: walks_entry_None)
    moreover from this have "\<not> called_near t roots cap x" using called_near_near by blast
    ultimately show ?thesis
      unfolding entry_info_def is_entry_def None Let_def using False
      by (cases "\<exists>r \<in> set roots. covers t x r"; cases "rollup \<and> (\<exists>r \<in> set roots. rolled t roots r x)") auto
  next
    case (Some e)
    obtain n v' s' where e: "walks_entry t roots cap x = Some (n, v', s')" using Some by (cases e) simp
    note W = walks_entry_Some [OF False e]
    have near: "near t roots cap x" using e walks_entry_None [OF False, of t cap] by simp
    have u: "nearest t roots x d \<longleftrightarrow> d = n" using W by (auto simp: nearest_def intro: antisym)
    have m: "min n 1 = 1" using W by simp
    have f: "\<not> s'" "v' \<longleftrightarrow> called_near t roots cap x" using W by simp_all
    show ?thesis
      unfolding entry_info_def is_entry_def e u using False near m f by (auto simp: Let_def)
  qed
qed

text \<open>What remains of the ranked tests under the options, before the limit.\<close>

definition selected :: "affected_opts \<Rightarrow> bool \<Rightarrow> affected_test list \<Rightarrow> affected_test list" where
  "selected opts precise full =
     (let kept = filter (tier (ao_traceOnly opts) precise) full
      in if precise \<and> ao_traceOnly opts \<and> ao_fallbackReachableWhenEmpty opts \<and> kept = [] then full else kept)"

lemma fallback_selected:
  "fst (applyReachableFallback lc g reach opts
      (rankReached lc g reach (ao_patterns opts) (ao_traceOnly opts) (ao_limit opts) True st) st)
   = take_limit (ao_limit opts) (selected opts True (ranked_all lc g reach (ao_patterns opts) st))"
  by (auto simp: applyReachableFallback_def selected_def rankReached_tier Let_def take_limit_Nil_iff)
     (auto simp: tier_def take_limit_def)

end
