(* ===== verification/TestSelection.thy ===== *)
theory TestSelection
  imports Selection
begin

text \<open>
  The properties of test selection: what the two queries of \<open>db/affected_tests.ts\<close> answer, that
  every row of an answer is well formed, that the minimal tier never leaves a change without the
  tests that reach it, and what the class rollup may and may not change.
\<close>

subsection \<open>One changed symbol\<close>

definition symbol_reach :: "(string \<Rightarrow> string \<Rightarrow> int) \<Rightarrow> traced_db \<Rightarrow> string \<Rightarrow> nat \<Rightarrow> bool \<Rightarrow> reach_map" where
  "symbol_reach lc t root cap rollup =
     (let g = td_index t; index = buildTestCoverageIndex lc t;
          reach1 = injectCoverage root index [root] (reverseWalk g root (fst (buildTraceIn t)) cap [])
      in if rollup then injectClassRollup g index [root] root reach1 else reach1)"

lemma walks_entry_single [simp]:
  "walks_entry t [root] cap x = walk_info (td_index t) (fst (buildTraceIn t)) root cap x"
  by (simp add: walks_entry_def joined_info_def)

lemma walk_info_self [simp]: "walk_info g ti root k root = None"
  by (simp add: walk_info_def)

lemma symbol_reach_info: "reach_info (symbol_reach lc t root cap rollup) x = entry_info t [root] cap rollup x"
  by (simp add: symbol_reach_def entry_info_def Let_def injectClassRollup_info injectCoverage_info reverseWalk_info)

lemma distinct_symbol_reach: "distinct (map fst (symbol_reach lc t root cap rollup))"
  by (simp add: symbol_reach_def Let_def distinct_injectClassRollup distinct_injectCoverage distinct_reverseWalk)

lemma reach_info_walk_only:
  "testCoverageCount t = 0 \<Longrightarrow>
   reach_info (reverseWalk (td_index t) root (fst (buildTraceIn t)) cap []) x = entry_info t [root] cap rollup x"
  by (simp add: entry_info_def reverseWalk_info no_coverage rolled_def)

text \<open>The list before tier and limit, and the answer made of it, on either path.\<close>

definition symbol_full :: "(string \<Rightarrow> string \<Rightarrow> int) \<Rightarrow> traced_db \<Rightarrow> string \<Rightarrow> affected_opts \<Rightarrow> reach_map \<Rightarrow> affected_test list" where
  "symbol_full lc t root opts reach =
     ranked_all lc (td_index t) reach (ao_patterns opts) (staticReachableSet (td_index t) [root] (depthCap (ao_maxDepth opts)))"

definition answer_ok :: "traced_db \<Rightarrow> string \<Rightarrow> affected_opts \<Rightarrow> affected_test list \<Rightarrow> affected_result \<Rightarrow> bool" where
  "answer_ok t root opts full r \<longleftrightarrow>
     (let chosen = selected opts (0 < testCoverageCount t) full
      in ar_tests r = take_limit (ao_limit opts) chosen \<and> ar_roots r = [root]
        \<and> (ar_precise r \<longleftrightarrow> 0 < testCoverageCount t) \<and> ar_dispatchOnlyCount r = dispatch_count (ar_tests r)
        \<and> (ar_hub r, ar_blastRadius r) = hubMetrics (td_index t) (length chosen) (ao_patterns opts))"

lemma affected_precise_ok:
  assumes "0 < testCoverageCount t"
  shows "answer_ok t root opts
    (symbol_full lc t root opts (symbol_reach lc t root (depthCap (ao_maxDepth opts)) (ao_classRollup opts)))
    (affected_precise lc t root opts)"
proof -
  let ?cap = "depthCap (ao_maxDepth opts)"
  let ?reach = "symbol_reach lc t root ?cap (ao_classRollup opts)" and ?st = "staticReachableSet (td_index t) [root] ?cap"
  obtain ti n where b: "buildTraceIn t = (ti, n)" by fastforce
  note F = fallback_selected [of lc "td_index t" ?reach opts ?st]
  note F' = fallback_selected [of lc "td_index t" ?reach "opts\<lparr>ao_limit := None\<rparr>" ?st]
  have sel: "selected (opts\<lparr>ao_limit := None\<rparr>) = selected opts" by (simp add: selected_def fun_eq_iff)
  have u: "affected_precise lc t root opts =
      (let (tests, fellBack) = applyReachableFallback lc (td_index t) ?reach opts
             (rankReached lc (td_index t) ?reach (ao_patterns opts) (ao_traceOnly opts) (ao_limit opts) True ?st) ?st;
           full = (if ao_limit opts = None then tests
             else fst (applyReachableFallback lc (td_index t) ?reach (opts\<lparr>ao_limit := None\<rparr>)
               (rankReached lc (td_index t) ?reach (ao_patterns opts) (ao_traceOnly opts) None True ?st) ?st));
           (hub, blast) = hubMetrics (td_index t) (length full) (ao_patterns opts)
       in \<lparr>ar_roots = [root], ar_tests = tests, ar_traceEdgeCount = n, ar_precise = True,
          ar_note = Some (if fellBack then ReachableFallbackNote else PreciseNote),
          ar_dispatchOnlyCount = dispatch_count tests, ar_hub = hub, ar_blastRadius = blast\<rparr>)"
    unfolding affected_precise_def symbol_reach_def b Let_def prod.case fst_conv by (rule refl)
  show ?thesis
    unfolding u answer_ok_def symbol_full_def Let_def using F F' assms
    by (cases "ao_limit opts") (simp_all add: sel split_beta)
qed

lemma affected_walk_ok:
  assumes "testCoverageCount t = 0"
  shows "answer_ok t root opts
    (symbol_full lc t root opts (reverseWalk (td_index t) root (fst (buildTraceIn t)) (depthCap (ao_maxDepth opts)) []))
    (affected_walk lc t root opts)"
proof -
  obtain ti n where b: "buildTraceIn t = (ti, n)" by fastforce
  show ?thesis
    unfolding answer_ok_def symbol_full_def using assms
    by (simp add: affected_walk_def b Let_def selected_def rankReached_tier split_beta)
qed

text \<open>Which rows there are, and what they say.\<close>

definition rows_exact :: "traced_db \<Rightarrow> string list \<Rightarrow> affected_opts \<Rightarrow> affected_test list \<Rightarrow> bool" where
  "rows_exact t roots opts full \<longleftrightarrow>
     (let cap = depthCap (ao_maxDepth opts); roll = ao_classRollup opts
      in distinct (map at_id full)
        \<and> (\<forall>x. x \<in> at_id ` set full \<longleftrightarrow>
             test_of (td_index t) (ao_patterns opts) x \<noteq> None \<and> (\<exists>d v s. is_entry t roots cap roll x d v s))
        \<and> (\<forall>a \<in> set full.
             is_entry t roots cap roll (at_id a) (at_depth a) (at_evidence a = Trace) (at_confidence a = Observed)
             \<and> (at_staticReachable a \<longleftrightarrow> (\<exists>r \<in> set roots. \<exists>n \<le> cap. at_distance (depends (td_index t)) r (at_id a) n))
             \<and> (at_dispatchOnly a \<longleftrightarrow> at_evidence a = Trace \<and> \<not> at_staticReachable a)
             \<and> (\<exists>h. test_of (td_index t) (ao_patterns opts) (at_id a) = Some h \<and> at_file a = th_file h
                  \<and> at_runnable a = th_runnable h \<and> at_runner a = th_runner h)))"

lemma ranked_exact:
  assumes "distinct (map fst reach)"
    and "\<And>x. reach_info reach x = entry_info t roots (depthCap (ao_maxDepth opts)) (ao_classRollup opts) x"
  shows "rows_exact t roots opts (ranked_all lc (td_index t) reach (ao_patterns opts)
    (staticReachableSet (td_index t) roots (depthCap (ao_maxDepth opts))))"
proof -
  let ?cap = "depthCap (ao_maxDepth opts)"
  let ?st = "staticReachableSet (td_index t) roots ?cap"
  let ?full = "ranked_all lc (td_index t) reach (ao_patterns opts) ?st"
  note R = ranked_all_rows [OF assms(1), of lc "td_index t" "ao_patterns opts" ?st]
  have e: "entry_info t roots cap roll x \<noteq> None \<longleftrightarrow> (\<exists>d v s. is_entry t roots cap roll x d v s)" for cap roll x
    by (simp flip: entry_info_iff)
  have st: "at_id a \<in> set ?st \<longleftrightarrow> (\<exists>r \<in> set roots. \<exists>n \<le> ?cap. at_distance (depends (td_index t)) r (at_id a) n)"
    if "is_entry t roots cap roll (at_id a) d v s" for a cap roll d v s
  proof -
    have "at_id a \<notin> set roots" using that by (simp add: is_entry_def Let_def)
    then have "at_id a \<noteq> r \<longleftrightarrow> True" if "r \<in> set roots" for r using that by auto
    then show ?thesis unfolding staticReachableSet_iff by (intro bex_cong refl) simp
  qed
  have "\<forall>x. x \<in> at_id ` set ?full \<longleftrightarrow> test_of (td_index t) (ao_patterns opts) x \<noteq> None
      \<and> (\<exists>d v s. is_entry t roots ?cap (ao_classRollup opts) x d v s)"
    using R(2) unfolding assms(2) e by blast
  moreover have "\<forall>a \<in> set ?full. at_id a \<in> set ?st
      \<longleftrightarrow> (\<exists>r \<in> set roots. \<exists>n \<le> ?cap. at_distance (depends (td_index t)) r (at_id a) n)"
  proof
    fix a assume "a \<in> set ?full"
    with R(1) have "is_entry t roots ?cap (ao_classRollup opts) (at_id a) (at_depth a) (at_evidence a = Trace) (at_confidence a = Observed)"
      by (simp add: row_of_def assms(2) entry_info_iff)
    then show "at_id a \<in> set ?st \<longleftrightarrow> (\<exists>r \<in> set roots. \<exists>n \<le> ?cap. at_distance (depends (td_index t)) r (at_id a) n)"
      by (rule st)
  qed
  ultimately show ?thesis
    using R(1,3) unfolding rows_exact_def Let_def row_of_def assms(2) entry_info_iff by simp
qed

lemma symbol_answer_any:
  assumes "resolveNodeId fts_top (td_index t) symbol = Some (root, via)"
  shows "\<exists>full. (comparator lc (\<lambda>_. True) \<longrightarrow> sorted_wrt (\<lambda>a b. rank_cmp lc a b \<le> 0) full) \<and> rows_exact t [root] opts full
    \<and> answer_ok t root opts full (affectedTests lc fts_top t symbol opts)"
proof (cases "0 < testCoverageCount t")
  case True
  then show ?thesis
    using affected_precise_ok [OF True, of root opts lc] ranked_exact [OF distinct_symbol_reach symbol_reach_info]
      ranked_all_sorted assms
    by (auto simp: affectedTests_def symbol_full_def intro!: exI)
next
  case False
  then have "testCoverageCount t = 0" by simp
  then show ?thesis
    using affected_walk_ok [of t root opts lc] ranked_exact [OF distinct_reverseWalk reach_info_walk_only]
      ranked_all_sorted assms
    by (auto simp: affectedTests_def symbol_full_def intro!: exI)
qed

subsection \<open>Changed files\<close>

definition files_ids :: "db \<Rightarrow> string list \<Rightarrow> string list" where
  "files_ids g files = concat (map (\<lambda>f. nodeIdsForFile f g) files)"

definition files_roots :: "db \<Rightarrow> string list \<Rightarrow> string list" where
  "files_roots g files = fold set_add (files_ids g files) []"

lemma set_files_roots: "set (files_roots g files) = {i. \<exists>n \<in> set (nodes_t g). nr_id n = i \<and> (\<exists>f \<in> set files. nr_file n = Some f)}"
  by (auto simp: files_roots_def files_ids_def nodeIdsForFile_def)

lemma distinct_files_roots: "distinct (files_roots g files)"
  by (simp add: files_roots_def)

lemma walk_files:
  "fold (walk_file g ti cap) files ([], []) = (files_roots g files, fold (\<lambda>i. reverseWalk g i ti cap) (files_ids g files) [])"
proof -
  have one: "fold (\<lambda>i (roots, reach). (set_add i roots, reverseWalk g i ti cap reach)) ids (rs, m)
      = (fold set_add ids rs, fold (\<lambda>i. reverseWalk g i ti cap) ids m)" for ids rs m
    by (induction ids arbitrary: rs m) simp_all
  have "fold (walk_file g ti cap) files (rs, m)
      = (fold set_add (files_ids g files) rs, fold (\<lambda>i. reverseWalk g i ti cap) (files_ids g files) m)" for rs m
    by (induction files arbitrary: rs m) (simp_all add: walk_file_def one files_ids_def)
  then show ?thesis by (simp add: files_roots_def)
qed

lemma joined_info_set:
  assumes "set rs = set rs'"
  shows "joined_info f rs i = joined_info f rs' i"
proof -
  have "comp_fun_idem_on UNIV (\<lambda>r i. info_join i (f r))"
  proof
    show "(\<lambda>i. info_join i (f x)) \<circ> (\<lambda>i. info_join i (f y)) = (\<lambda>i. info_join i (f y)) \<circ> (\<lambda>i. info_join i (f x))" for x y
      by (simp add: fun_eq_iff info_join_assoc info_join_commute [of "f x" "f y"])
    show "(\<lambda>i. info_join i (f x)) \<circ> (\<lambda>i. info_join i (f x)) = (\<lambda>i. info_join i (f x))" for x
      by (simp add: fun_eq_iff info_join_assoc)
  qed
  then have "fold (\<lambda>r i. info_join i (f r)) rs i = Finite_Set.fold (\<lambda>r i. info_join i (f r)) i (set rs)" for rs i
    by (simp add: comp_fun_idem_on.fold_set_fold)
  then show ?thesis by (simp add: joined_info_def assms)
qed

lemma drop_roots_info: "reach_info (drop_roots roots m) x = (if x \<in> set roots then None else reach_info m x)"
  unfolding reach_info_def drop_roots_def by (induction m) auto

lemma inject_all_info:
  "reach_info (fold (\<lambda>i. injectCoverage i (buildTestCoverageIndex lc t) roots) rs m) x
   = (if x \<notin> set roots \<and> (\<exists>r \<in> set rs. covers t x r) then info_join (reach_info m x) (Some (1, True, True)) else reach_info m x)"
  by (induction rs arbitrary: m) (auto simp: injectCoverage_info info_join_assoc)

lemma rollup_all_info:
  "reach_info (fold (injectClassRollup (td_index t) (buildTestCoverageIndex lc t) roots) rs m) x
   = (if x \<notin> set roots \<and> (\<exists>r \<in> set rs. rolled t roots r x) then roll (reach_info m x) else reach_info m x)"
  by (induction rs arbitrary: m) (auto simp: injectClassRollup_info)

lemma files_reach_roots: "fst (files_reach lc t files opts) = files_roots (td_index t) files"
  by (simp add: files_reach_def walk_files Let_def)

lemma files_reach_info:
  "reach_info (snd (files_reach lc t files opts)) x =
     entry_info t (files_roots (td_index t) files) (depthCap (ao_maxDepth opts)) (ao_classRollup opts) x"
proof -
  let ?cap = "depthCap (ao_maxDepth opts)" and ?seen = "files_roots (td_index t) files"
  have "set (files_ids (td_index t) files) = set ?seen" by (simp add: files_roots_def)
  then have w: "reach_info (fold (\<lambda>i. reverseWalk (td_index t) i (fst (buildTraceIn t)) ?cap) (files_ids (td_index t) files) []) x
      = walks_entry t ?seen ?cap x"
    unfolding walks_info walks_entry_def reach_info_Nil by (rule joined_info_set)
  show ?thesis
  proof (cases "0 < testCoverageCount t")
    case True
    then show ?thesis
      by (simp add: files_reach_def walk_files entry_info_def Let_def drop_roots_info inject_all_info rollup_all_info w)
  next
    case False
    then have "\<not> covers t y e" for y e by (simp add: no_coverage)
    with False show ?thesis
      by (simp add: files_reach_def walk_files entry_info_def Let_def drop_roots_info w rolled_def)
  qed
qed

lemma distinct_files_reach: "distinct (map fst (snd (files_reach lc t files opts)))"
proof -
  have d: "distinct (map fst m) \<Longrightarrow> distinct (map fst (drop_roots roots m))" for m and roots
    unfolding drop_roots_def by (rule distinct_map_filter)
  have w: "distinct (map fst (fold (\<lambda>i. reverseWalk g i ti cap) ids []))" for g ti cap ids
    by (rule distinct_fold) (simp_all add: distinct_reverseWalk)
  have c: "distinct (map fst m) \<Longrightarrow> distinct (map fst (fold (\<lambda>i. injectCoverage i index roots) rs m))" for index roots rs and m :: reach_map
    by (rule distinct_fold) (simp_all add: distinct_injectCoverage)
  have r: "distinct (map fst m) \<Longrightarrow> distinct (map fst (fold (injectClassRollup g index roots) rs m))" for g index roots rs and m :: reach_map
    by (rule distinct_fold) (simp_all add: distinct_injectClassRollup)
  show ?thesis unfolding files_reach_def walk_files Let_def by (simp add: d w c r)
qed

text \<open>The rows before tier and fallback.\<close>

definition files_full :: "(string \<Rightarrow> string \<Rightarrow> int) \<Rightarrow> traced_db \<Rightarrow> string list \<Rightarrow> affected_opts \<Rightarrow> affected_test list" where
  "files_full lc t files opts =
     ranked_all lc (td_index t) (snd (files_reach lc t files opts)) (ao_patterns opts)
       (staticReachableSet (td_index t) (files_roots (td_index t) files) (depthCap (ao_maxDepth opts)))"

lemma files_exact: "rows_exact t (files_roots (td_index t) files) opts (files_full lc t files opts)"
  unfolding files_full_def by (rule ranked_exact [OF distinct_files_reach files_reach_info])

text \<open>The fallback adds the tests that reach an uncovered root, and only those.\<close>

definition fallback_rows :: "(string \<Rightarrow> string \<Rightarrow> int) \<Rightarrow> traced_db \<Rightarrow> string list \<Rightarrow> affected_opts \<Rightarrow> string \<Rightarrow> affected_test list" where
  "fallback_rows lc t roots opts r =
     ranked_all lc (td_index t) (drop_roots roots (reverseWalk (td_index t) r (fst (buildTraceIn t)) (depthCap (ao_maxDepth opts)) []))
       (ao_patterns opts) (staticReachableSet (td_index t) roots (depthCap (ao_maxDepth opts)))"

fun add_rows :: "affected_test list \<Rightarrow> affected_test list \<times> bool \<Rightarrow> affected_test list \<times> bool" where
  "add_rows ts (tests, fellBack) =
     fold (\<lambda>t (tests, fellBack). if at_id t \<in> at_id ` set tests then (tests, fellBack) else (tests @ [t], True)) ts (tests, fellBack)"

lemma root_fallback_rows:
  "root_fallback lc (td_index t) (fst (buildTraceIn t)) (depthCap (ao_maxDepth opts)) (ao_patterns opts)
     (staticReachableSet (td_index t) roots (depthCap (ao_maxDepth opts))) roots = (\<lambda>r. add_rows (fallback_rows lc t roots opts r))"
  by (intro ext) (auto simp: root_fallback_def fallback_rows_def rankReached_tier tier_def)

lemma add_rows_spec:
  assumes "add_rows ts (tests, fb) = (tests', fb')"
  shows "at_id ` set tests' = at_id ` set tests \<union> at_id ` set ts \<and> set tests' \<subseteq> set tests \<union> set ts
    \<and> set tests \<subseteq> set tests' \<and> (distinct (map at_id tests) \<longrightarrow> distinct (map at_id tests'))"
  using assms
proof (induction ts arbitrary: tests fb)
  case (Cons a ts)
  show ?case
  proof (cases "at_id a \<in> at_id ` set tests")
    case True
    with Cons show ?thesis by auto
  next
    case False
    with Cons.prems have "add_rows ts (tests @ [a], True) = (tests', fb')" by simp
    from Cons.IH [OF this] False show ?thesis by auto
  qed
qed simp

lemma add_all_rows:
  assumes "fold (\<lambda>r. add_rows (F r)) rs (tests, fb) = (tests', fb')"
  shows "at_id ` set tests' = at_id ` set tests \<union> (\<Union>r \<in> set rs. at_id ` set (F r))
    \<and> set tests' \<subseteq> set tests \<union> (\<Union>r \<in> set rs. set (F r))
    \<and> set tests \<subseteq> set tests' \<and> (distinct (map at_id tests) \<longrightarrow> distinct (map at_id tests'))"
  using assms
proof (induction rs arbitrary: tests fb)
  case (Cons r rs)
  obtain t1 f1 where a: "add_rows (F r) (tests, fb) = (t1, f1)" by fastforce
  with Cons.prems have "fold (\<lambda>r. add_rows (F r)) rs (t1, f1) = (tests', fb')" by simp
  from Cons.IH [OF this] add_rows_spec [OF a] show ?case by auto
qed simp

definition uncovered :: "(string \<Rightarrow> string \<Rightarrow> int) \<Rightarrow> traced_db \<Rightarrow> string list \<Rightarrow> string list" where
  "uncovered lc t roots = filter (\<lambda>r. testsCovering (buildTestCoverageIndex lc t) r = []) (js_sort lc roots)"

definition files_tests :: "(string \<Rightarrow> string \<Rightarrow> int) \<Rightarrow> traced_db \<Rightarrow> string list \<Rightarrow> affected_opts \<Rightarrow> affected_test list" where
  "files_tests lc t files opts =
     (let roots = files_roots (td_index t) files;
          kept = filter (tier (ao_traceOnly opts) (0 < testCoverageCount t)) (files_full lc t files opts)
      in if 0 < testCoverageCount t \<and> ao_traceOnly opts \<and> ao_fallbackReachableWhenEmpty opts
         then fst (fold (\<lambda>r. add_rows (fallback_rows lc t roots opts r)) (uncovered lc t roots) (kept, False)) else kept)"

lemma files_fallback_tests:
  "fst (files_fallback lc t (files_roots (td_index t) files)
     (staticReachableSet (td_index t) (files_roots (td_index t) files) (depthCap (ao_maxDepth opts))) opts
     (filter (tier (ao_traceOnly opts) (0 < testCoverageCount t)) (files_full lc t files opts))) = files_tests lc t files opts"
  unfolding files_fallback_def files_tests_def uncovered_def Let_def root_fallback_rows by (simp only: if_distrib [of fst] fst_conv)

lemma files_answer:
  assumes "affectedTestsForFiles lc t files opts = r"
  shows "ar_tests r = take_limit (ao_limit opts) (files_tests lc t files opts)
    \<and> ar_roots r = js_sort lc (files_roots (td_index t) files)
    \<and> (ar_precise r \<longleftrightarrow> 0 < testCoverageCount t) \<and> ar_dispatchOnlyCount r = dispatch_count (ar_tests r)
    \<and> (ar_hub r, ar_blastRadius r) = hubMetrics (td_index t) (length (files_tests lc t files opts)) (ao_patterns opts)"
proof -
  let ?roots = "files_roots (td_index t) files"
  let ?st = "staticReachableSet (td_index t) ?roots (depthCap (ao_maxDepth opts))"
  obtain reach where f: "files_reach lc t files opts = (?roots, reach)"
    using files_reach_roots [of lc t files opts] by (metis prod.collapse)
  obtain tests fb where fall: "files_fallback lc t ?roots ?st opts
      (filter (tier (ao_traceOnly opts) (0 < testCoverageCount t)) (files_full lc t files opts)) = (tests, fb)" by fastforce
  have tests: "tests = files_tests lc t files opts" using files_fallback_tests [of lc t files opts] fall by simp
  have ranked: "rankReached lc (td_index t) reach (ao_patterns opts) (ao_traceOnly opts) None (0 < testCoverageCount t) ?st
      = filter (tier (ao_traceOnly opts) (0 < testCoverageCount t)) (files_full lc t files opts)"
    by (simp add: rankReached_tier files_full_def f)
  obtain hub blast where h: "hubMetrics (td_index t) (length tests) (ao_patterns opts) = (hub, blast)"
    by (metis surj_pair)
  show ?thesis
    unfolding assms [symmetric] affectedTestsForFiles_def
    by (simp add: f ranked fall h Let_def flip: tests)
qed

subsection \<open>Small indexes\<close>

definition py_node :: "string \<Rightarrow> string \<Rightarrow> string \<Rightarrow> string \<Rightarrow> node_row" where
  "py_node i name qname file = \<lparr>nr_id = i, nr_name = name, nr_qualified_name = qname, nr_kind = ''function'',
     nr_language = Some ''python'', nr_file = Some file, nr_range_start = 0, nr_range_end = 1, nr_ast_hash = None,
     nr_summary = None, nr_last_seen = None, nr_logical_clock = 0, nr_last_modified_by = None, nr_merge_flagged = 0\<rparr>"

definition py_db :: "node_row list \<Rightarrow> (string \<times> string) list \<Rightarrow> (string \<times> string) list \<Rightarrow> (string \<times> string \<times> int) list \<Rightarrow> traced_db" where
  "py_db nodes calls traces coverage = \<lparr>td_index = (db_new False)\<lparr>nodes_t := nodes,
       edges_t := map (\<lambda>(s, d). \<lparr>er_src = s, er_dst = d, er_kind = ''call'', er_weight = 1, er_last_seen = None\<rparr>) calls\<rparr>,
     observations_t = map (\<lambda>(s, d). \<lparr>ob_src = s, ob_dst = d, ob_ts = 0, ob_observed = 1, ob_weight = 1, ob_source = ''py''\<rparr>) traces,
     test_coverage_t = map (\<lambda>(t, e, w). \<lparr>cov_test = t, cov_entity = e, cov_weight = w, cov_source = ''py''\<rparr>) coverage\<rparr>"

definition all_options :: affected_opts where
  "all_options = \<lparr>ao_maxDepth = None, ao_traceOnly = False, ao_fallbackReachableWhenEmpty = False, ao_limit = None,
     ao_patterns = None, ao_classRollup = False\<rparr>"

text \<open>\<open>test_f\<close> covers \<open>f\<close>, \<open>test_g\<close> calls it.\<close>

definition small_db :: traced_db where
  "small_db = py_db [py_node ''a/f'' ''f'' ''f'' ''a.py'', py_node ''tests/test_f'' ''test_f'' ''test_f'' ''tests/test_f.py'',
     py_node ''tests/test_g'' ''test_g'' ''test_g'' ''tests/test_g.py''] [(''tests/test_g'', ''a/f'')] [] [(''test_f'', ''f'', 1)]"

lemma small_answer:
  "map at_id (ar_tests (affectedTests cmp_lin (\<lambda>_. None) small_db ''a/f'' all_options)) = [''tests/test_f'', ''tests/test_g'']"
  by code_simp

subsection \<open>Well-formed rows\<close>

definition row_ok :: "traced_db \<Rightarrow> affected_opts \<Rightarrow> string list \<Rightarrow> affected_test \<Rightarrow> bool" where
  "row_ok t opts roots a \<longleftrightarrow> at_id a \<notin> set roots
     \<and> (\<exists>h. test_of (td_index t) (ao_patterns opts) (at_id a) = Some h \<and> at_file a = th_file h
          \<and> at_runnable a = th_runnable h \<and> at_runner a = th_runner h)
     \<and> 1 \<le> at_depth a \<and> at_depth a \<le> depthCap (ao_maxDepth opts)
     \<and> (at_confidence a = Observed \<longrightarrow> at_evidence a = Trace)
     \<and> (at_dispatchOnly a \<longleftrightarrow> at_evidence a = Trace \<and> \<not> at_staticReachable a)
     \<and> (at_staticReachable a \<longleftrightarrow>
          (\<exists>r \<in> set roots. \<exists>n \<le> depthCap (ao_maxDepth opts). at_distance (depends (td_index t)) r (at_id a) n))"

lemma depthCap_pos: "1 \<le> depthCap m"
  by (simp add: depthCap_def MAX_IMPACT_DEPTH_def)

lemma is_entry_depth:
  assumes "is_entry t roots cap rollup x d v s" "1 \<le> cap"
  shows "1 \<le> d \<and> d \<le> cap"
proof (cases "\<not> (\<exists>r \<in> set roots. covers t x r) \<and> near t roots cap x")
  case True
  with assms have d: "nearest t roots x d" "x \<notin> set roots" by (simp_all add: is_entry_def Let_def)
  obtain r n where "r \<in> set roots" "n \<le> cap" "at_distance (impacts t) r x n" using True by (auto simp: near_def)
  then have "d \<le> cap" using d(1) by (auto simp: nearest_def intro: le_trans)
  moreover have "d \<noteq> 0" using d by (cases d) (auto simp: nearest_def)
  ultimately show ?thesis by simp
next
  case False
  with assms show ?thesis by (auto simp: is_entry_def Let_def)
qed

lemma rows_exact_ok:
  assumes "rows_exact t roots opts full" "a \<in> set full"
  shows "row_ok t opts roots a"
proof -
  have e: "is_entry t roots (depthCap (ao_maxDepth opts)) (ao_classRollup opts) (at_id a) (at_depth a) (at_evidence a = Trace) (at_confidence a = Observed)"
    using assms by (simp add: rows_exact_def Let_def)
  have "at_id a \<notin> set roots" "at_confidence a = Observed \<longrightarrow> at_evidence a = Trace"
    using e by (auto simp: is_entry_def Let_def)
  with is_entry_depth [OF e depthCap_pos] assms show ?thesis by (simp add: row_ok_def rows_exact_def Let_def)
qed

lemma distinct_drop_walk: "distinct (map fst (drop_roots roots (reverseWalk g r ti cap [])))"
  unfolding drop_roots_def by (rule distinct_map_filter) (simp add: distinct_reverseWalk)

lemma fallback_row_ok:
  assumes "a \<in> set (fallback_rows lc t roots opts r)" "r \<in> set roots"
  shows "row_ok t opts roots a"
proof -
  let ?cap = "depthCap (ao_maxDepth opts)"
  have a: "row_of (td_index t) (ao_patterns opts) (\<lambda>x. x \<in> set (staticReachableSet (td_index t) roots ?cap))
      (reach_info (drop_roots roots (reverseWalk (td_index t) r (fst (buildTraceIn t)) ?cap []))) a"
    using assms(1) ranked_all_rows(1) [OF distinct_drop_walk] unfolding fallback_rows_def by blast
  then have notin: "at_id a \<notin> set roots"
    and w: "walk_info (td_index t) (fst (buildTraceIn t)) r ?cap (at_id a) = Some (at_depth a, at_evidence a = Trace, at_confidence a = Observed)"
    by (simp_all add: row_of_def drop_roots_info reverseWalk_info split: if_splits)
  have d: "at_depth a \<le> ?cap" "at_distance (impacts t) r (at_id a) (at_depth a)" "at_confidence a \<noteq> Observed"
    using w by (simp_all add: walk_info_Some affects_impacts)
  have "at_depth a \<noteq> 0"
  proof
    assume "at_depth a = 0"
    with d(2) have "at_id a = r" by simp
    with notin assms(2) show False by simp
  qed
  moreover have "at_id a \<in> set (staticReachableSet (td_index t) roots ?cap) \<longleftrightarrow>
      (\<exists>r \<in> set roots. \<exists>n \<le> ?cap. at_distance (depends (td_index t)) r (at_id a) n)"
    unfolding staticReachableSet_iff using notin by (intro bex_cong refl) auto
  ultimately show ?thesis using a notin d by (auto simp: row_ok_def row_of_def)
qed

lemma selected_cases: "selected opts p full = full \<or> selected opts p full = filter (tier (ao_traceOnly opts) p) full"
  by (simp add: selected_def Let_def)

lemma files_tests_ok:
  "distinct (map at_id (files_tests lc t files opts))
   \<and> (\<forall>a \<in> set (files_tests lc t files opts). row_ok t opts (files_roots (td_index t) files) a)"
proof -
  let ?roots = "files_roots (td_index t) files"
  let ?kept = "filter (tier (ao_traceOnly opts) (0 < testCoverageCount t)) (files_full lc t files opts)"
  have k: "distinct (map at_id ?kept)" "\<forall>a \<in> set ?kept. row_ok t opts ?roots a"
    using files_exact [of t files opts lc] rows_exact_ok [OF files_exact] by (auto simp: rows_exact_def Let_def intro: distinct_map_filter)
  obtain tests fb where f: "fold (\<lambda>r. add_rows (fallback_rows lc t ?roots opts r)) (uncovered lc t ?roots) (?kept, False) = (tests, fb)"
    by fastforce
  note A = add_all_rows [OF f]
  have rows: "\<forall>a \<in> set tests. row_ok t opts ?roots a"
  proof
    fix a assume "a \<in> set tests"
    with A have "a \<in> set ?kept \<or> (\<exists>r \<in> set (uncovered lc t ?roots). a \<in> set (fallback_rows lc t ?roots opts r))" by blast
    then show "row_ok t opts ?roots a"
    proof
      assume "a \<in> set ?kept"
      with k(2) show ?thesis by simp
    next
      assume "\<exists>r \<in> set (uncovered lc t ?roots). a \<in> set (fallback_rows lc t ?roots opts r)"
      then show ?thesis using fallback_row_ok by (auto simp: uncovered_def)
    qed
  qed
  show ?thesis
  proof (cases "0 < testCoverageCount t \<and> ao_traceOnly opts \<and> ao_fallbackReachableWhenEmpty opts")
    case True
    then have "files_tests lc t files opts = tests" using f by (simp add: files_tests_def Let_def)
    then show ?thesis using rows A k(1) by simp
  next
    case False
    then have "files_tests lc t files opts = ?kept" unfolding files_tests_def Let_def by (rule if_not_P)
    then show ?thesis using k by simp
  qed
qed

lemma count_tests:
  assumes "distinct (map at_id as)" "\<forall>a \<in> set as. row_ok t opts roots a"
  shows "length as \<le> totalTestNodeCount (td_index t) (ao_patterns opts)"
proof -
  let ?T = "filter (\<lambda>r. classifyTest (node_candidate r None) (patterns_of (ao_patterns opts)) \<noteq> None) (nodes_t (td_index t))"
  have "at_id a \<in> nr_id ` set ?T" if "a \<in> set as" for a
  proof -
    have "row_ok t opts roots a" using assms(2) that by blast
    then have "test_of (td_index t) (ao_patterns opts) (at_id a) \<noteq> None" by (auto simp: row_ok_def)
    then obtain n where n: "getNode (at_id a) (td_index t) = Some n"
      "classifyTest (node_candidate n (Some (nr_kind n))) (patterns_of (ao_patterns opts)) \<noteq> None"
      by (auto simp: test_of_def split: option.splits)
    then have "n \<in> set (nodes_t (td_index t))" "nr_id n = at_id a" by (auto simp: getNode_def find_Some_iff)
    moreover have "classifyTest (node_candidate n None) (patterns_of (ao_patterns opts)) \<noteq> None"
      using n(2) by (auto simp: classifyTest_def isTestNode_def node_candidate_def Let_def split: if_splits)
    ultimately show ?thesis by (intro image_eqI [of _ _ n]) auto
  qed
  then have "set (map at_id as) \<subseteq> nr_id ` set ?T" by auto
  then have "card (set (map at_id as)) \<le> card (nr_id ` set ?T)" by (intro card_mono) auto
  also have "\<dots> \<le> card (set ?T)" by (intro card_image_le) auto
  also have "\<dots> \<le> length ?T" by (rule card_length)
  finally show ?thesis using distinct_card [OF assms(1)] by (simp add: totalTestNodeCount_def)
qed

definition result_ok :: "traced_db \<Rightarrow> affected_opts \<Rightarrow> affected_result \<Rightarrow> bool" where
  "result_ok t opts r \<longleftrightarrow> distinct (map at_id (ar_tests r)) \<and> (\<forall>a \<in> set (ar_tests r). row_ok t opts (ar_roots r) a)
     \<and> ar_dispatchOnlyCount r = length (filter at_dispatchOnly (ar_tests r))
     \<and> length (ar_tests r) \<le> fst (ar_blastRadius r) \<and> fst (ar_blastRadius r) \<le> snd (ar_blastRadius r)
     \<and> (ar_hub r \<longleftrightarrow> ar_blastRadius r \<noteq> (0, 0) \<and> 3 * snd (ar_blastRadius r) \<le> 10 * fst (ar_blastRadius r))
     \<and> (\<forall>l. ao_limit opts = Some l \<longrightarrow> 0 \<le> l \<longrightarrow> length (ar_tests r) \<le> nat l)"

lemma chosen_result_ok:
  assumes "distinct (map at_id chosen)" "\<forall>a \<in> set chosen. row_ok t opts roots a" "set (ar_roots r) = set roots"
    and "ar_tests r = take_limit (ao_limit opts) chosen" "ar_dispatchOnlyCount r = dispatch_count (ar_tests r)"
    and "(ar_hub r, ar_blastRadius r) = hubMetrics (td_index t) (length chosen) (ao_patterns opts)"
  shows "result_ok t opts r"
proof -
  obtain n where n: "ar_tests r = take n chosen" using take_limit_take assms(4) by metis
  have rows: "row_ok t opts (ar_roots r) a \<longleftrightarrow> row_ok t opts roots a" for a by (simp add: row_ok_def assms(3))
  have le: "length chosen \<le> totalTestNodeCount (td_index t) (ao_patterns opts)" by (rule count_tests [OF assms(1,2)])
  have "distinct (map at_id (ar_tests r))" using assms(1) by (simp add: n take_map [symmetric])
  moreover have "\<forall>a \<in> set (ar_tests r). row_ok t opts (ar_roots r) a" using assms(2) by (auto simp: n rows dest: in_set_takeD)
  moreover have "length (ar_tests r) \<le> length chosen" by (simp add: n)
  moreover have "length (ar_tests r) \<le> nat l" if "ao_limit opts = Some l" "0 \<le> l" for l
    using that by (simp add: assms(4) take_limit_def le_nat_iff)
  ultimately show ?thesis
    using assms(5,6) le by (auto simp: result_ok_def dispatch_count_def hubMetrics_def Let_def split: if_splits)
qed

text \<open>C19: every answer of test selection is well formed, for a symbol and for files, under any options:
  its rows are distinct, indexed test nodes other than the roots, with the file, handle and runner
  of their classification, a depth within the cap, and flags that agree with each other and with
  the static graph; the limit is kept; the blast radius counts at least the rows and at most the
  test nodes, so its fraction is within 0 and 1.\<close>

theorem selection_well_formed:
  "\<forall>r \<in> {affectedTests lc fts_top t symbol opts, affectedTestsForFiles lc t files opts}. result_ok t opts r"
proof -
  have "result_ok t opts (affectedTestsForFiles lc t files opts)"
    using files_tests_ok [of lc t files opts] files_answer [of lc t files opts, OF refl]
    by (intro chosen_result_ok [of "files_tests lc t files opts" t opts "files_roots (td_index t) files"]) simp_all
  moreover have "result_ok t opts (affectedTests lc fts_top t symbol opts)"
  proof (cases "resolveNodeId fts_top (td_index t) symbol")
    case None
    then show ?thesis by (simp add: affectedTests_def not_found_def result_ok_def)
  next
    case (Some rv)
    obtain root via where rv: "rv = (root, via)" by fastforce
    obtain full where full: "rows_exact t [root] opts full" "answer_ok t root opts full (affectedTests lc fts_top t symbol opts)"
      using symbol_answer_any [OF Some [unfolded rv]] by blast
    have "distinct (map at_id (selected opts p full))" "set (selected opts p full) \<subseteq> set full" for p
      using full(1) selected_cases [of opts p full] by (auto simp: rows_exact_def Let_def intro: distinct_map_filter)
    then show ?thesis
      using full rows_exact_ok [OF full(1)]
      by (intro chosen_result_ok [of "selected opts (0 < testCoverageCount t) full" t opts "[root]"]) (auto simp: answer_ok_def Let_def)
  qed
  ultimately show ?thesis by simp
qed

theorem selection_well_formed_witness:
  "result_ok small_db all_options (affectedTests cmp_lin (\<lambda>_. None) small_db ''a/f'' all_options)
   \<and> map at_id (ar_tests (affectedTests cmp_lin (\<lambda>_. None) small_db ''a/f'' all_options)) = [''tests/test_f'', ''tests/test_g'']"
  using selection_well_formed [of cmp_lin "\<lambda>_. None" small_db "''a/f''" all_options "[]"] small_answer by simp

subsection \<open>What is selected\<close>

text \<open>C7: the answer for a changed symbol is exact. Before tier and limit its rows are, in the order of
  the ranking, one for each test node that covers the symbol by its own trace, that reaches it by
  static dependencies and observed calls within the depth cap, or that the class rollup adds; with
  the shortest distance (1 if it covers), \<open>trace\<close> precisely when a trace edge of its own or its
  coverage speaks for it, \<open>observed\<close> precisely when it covers the symbol. What is returned is the
  tier asked for, or all of it when that is empty and the fallback is on, cut at the limit.\<close>

theorem affected_tests_exact:
  assumes "resolveNodeId fts_top (td_index t) symbol = Some (root, via)" "comparator lc (\<lambda>_. True)"
  shows "\<exists>full. sorted_wrt (\<lambda>a b. rank_cmp lc a b \<le> 0) full \<and> rows_exact t [root] opts full
    \<and> answer_ok t root opts full (affectedTests lc fts_top t symbol opts)"
  using symbol_answer_any [OF assms(1), of lc opts] assms(2) by blast

theorem affected_tests_exact_witness:
  "(\<exists>full. rows_exact small_db [''a/f''] all_options full
      \<and> answer_ok small_db ''a/f'' all_options full (affectedTests cmp_lin (\<lambda>_. None) small_db ''a/f'' all_options))
   \<and> map at_id (ar_tests (affectedTests cmp_lin (\<lambda>_. None) small_db ''a/f'' all_options)) = [''tests/test_f'', ''tests/test_g'']"
proof -
  have "resolveNodeId (\<lambda>_. None) (td_index small_db) ''a/f'' = Some (''a/f'', False)" by code_simp
  from affected_tests_exact [OF this lin.comparator_axioms, of all_options] small_answer show ?thesis by blast
qed

lemma roll_not_None: "roll i \<noteq> None"
  by (cases i rule: roll.cases) simp_all

lemma near_entry:
  "x \<notin> set roots \<Longrightarrow> near t roots cap x \<or> (\<exists>r \<in> set roots. covers t x r) \<Longrightarrow> \<exists>d v s. is_entry t roots cap up x d v s"
proof -
  assume x: "x \<notin> set roots" and c: "near t roots cap x \<or> (\<exists>r \<in> set roots. covers t x r)"
  then have "entry_info t roots cap up x \<noteq> None"
    by (cases "\<exists>r \<in> set roots. covers t x r")
      (simp_all add: entry_info_def Let_def info_join_eq_None walks_entry_None roll_not_None del: not_None_eq)
  then obtain d v s where "entry_info t roots cap up x = Some (d, v, s)" by (metis not_None_eq prod_cases3)
  then show ?thesis unfolding entry_info_iff by blast
qed

lemma fallback_rows_ids:
  "at_id ` set (fallback_rows lc t roots opts r) =
     {x. x \<notin> set roots \<and> x \<noteq> r \<and> near t [r] (depthCap (ao_maxDepth opts)) x \<and> test_of (td_index t) (ao_patterns opts) x \<noteq> None}"
proof -
  have "reach_info (drop_roots roots (reverseWalk (td_index t) r (fst (buildTraceIn t)) cap [])) x \<noteq> None
      \<longleftrightarrow> x \<notin> set roots \<and> x \<noteq> r \<and> near t [r] cap x" for cap x
    by (simp add: drop_roots_info reverseWalk_info walk_info_None near_def affects_impacts del: not_None_eq)
  then show ?thesis unfolding fallback_rows_def ranked_all_rows(2) [OF distinct_drop_walk] by blast
qed

lemma symbol_not_empty:
  assumes "0 < testCoverageCount t" "ao_traceOnly opts" "ao_fallbackReachableWhenEmpty opts" "ao_limit opts = None"
    and "test_of (td_index t) (ao_patterns opts) x \<noteq> None"
    and "resolveNodeId fts_top (td_index t) symbol = Some (root, via)" "x \<noteq> root"
    and "covers t x root \<or> near t [root] (depthCap (ao_maxDepth opts)) x"
  shows "ar_tests (affectedTests lc fts_top t symbol opts) \<noteq> []"
proof -
  obtain full where full: "rows_exact t [root] opts full" "answer_ok t root opts full (affectedTests lc fts_top t symbol opts)"
    using symbol_answer_any [OF assms(6)] by blast
  have "x \<in> at_id ` set full"
    using full(1) assms(5) near_entry [of x "[root]" t "depthCap (ao_maxDepth opts)" "ao_classRollup opts"] assms(7,8)
    by (auto simp: rows_exact_def Let_def)
  then have "selected opts True full \<noteq> []" using assms(2,3) by (auto simp: selected_def Let_def)
  then show ?thesis using full(2) assms(1,4) by (simp add: answer_ok_def Let_def)
qed

lemma files_not_missing:
  assumes "0 < testCoverageCount t" "ao_traceOnly opts" "ao_fallbackReachableWhenEmpty opts" "ao_limit opts = None"
    and "test_of (td_index t) (ao_patterns opts) x \<noteq> None"
    and "r \<in> set (ar_roots (affectedTestsForFiles lc t files opts))" "\<forall>y. \<not> covers t y r"
    and "near t [r] (depthCap (ao_maxDepth opts)) x" "x \<notin> set (ar_roots (affectedTestsForFiles lc t files opts))"
  shows "x \<in> at_id ` set (ar_tests (affectedTestsForFiles lc t files opts))"
proof -
  let ?roots = "files_roots (td_index t) files"
  let ?kept = "filter (tier (ao_traceOnly opts) (0 < testCoverageCount t)) (files_full lc t files opts)"
  note A = files_answer [of lc t files opts, OF refl]
  have "testsCovering (buildTestCoverageIndex lc t) r = []"
  proof (rule ccontr)
    assume "testsCovering (buildTestCoverageIndex lc t) r \<noteq> []"
    then obtain y where "y \<in> fst ` set (testsCovering (buildTestCoverageIndex lc t) r)" by fastforce
    with assms(7) show False by (simp flip: covers_iff)
  qed
  then have r: "r \<in> set (uncovered lc t ?roots)" using A assms(6) by (simp add: uncovered_def)
  have xr: "x \<notin> set ?roots" "x \<noteq> r" using assms(6,9) A by auto
  obtain tests fb where f: "fold (\<lambda>r. add_rows (fallback_rows lc t ?roots opts r)) (uncovered lc t ?roots) (?kept, False) = (tests, fb)"
    by fastforce
  then have "files_tests lc t files opts = tests" using assms(1-3) by (simp add: files_tests_def Let_def)
  moreover have "x \<in> at_id ` set (fallback_rows lc t ?roots opts r)"
    unfolding fallback_rows_ids using xr assms(5,8) by simp
  ultimately have "x \<in> at_id ` set (files_tests lc t files opts)" using add_all_rows [OF f] r by blast
  then show ?thesis using A assms(4) by simp
qed

text \<open>C8: with the fallback on, the minimal selection never leaves a change without the tests that reach
  it: for a symbol it is not empty when some test covers or reaches the symbol; for files it holds
  every test that reaches a changed node without coverage of its own, unless the test is itself
  in a changed file.\<close>

theorem never_without_tests:
  assumes "0 < testCoverageCount t" "ao_traceOnly opts" "ao_fallbackReachableWhenEmpty opts" "ao_limit opts = None"
    and "test_of (td_index t) (ao_patterns opts) x \<noteq> None"
  shows "(resolveNodeId fts_top (td_index t) symbol = Some (root, via) \<and> x \<noteq> root
        \<and> (covers t x root \<or> near t [root] (depthCap (ao_maxDepth opts)) x)
      \<longrightarrow> ar_tests (affectedTests lc fts_top t symbol opts) \<noteq> [])
    \<and> (r \<in> set (ar_roots (affectedTestsForFiles lc t files opts)) \<and> (\<forall>y. \<not> covers t y r)
        \<and> near t [r] (depthCap (ao_maxDepth opts)) x \<and> x \<notin> set (ar_roots (affectedTestsForFiles lc t files opts))
      \<longrightarrow> x \<in> at_id ` set (ar_tests (affectedTestsForFiles lc t files opts)))"
  using symbol_not_empty [OF assms, of fts_top symbol root via lc] files_not_missing [OF assms, of r lc files] by blast

theorem never_without_tests_witness:
  "ar_tests (affectedTests cmp_lin (\<lambda>_. None) small_db ''a/f''
     (all_options\<lparr>ao_traceOnly := True, ao_fallbackReachableWhenEmpty := True\<rparr>)) \<noteq> []"
proof -
  let ?o = "all_options\<lparr>ao_traceOnly := True, ao_fallbackReachableWhenEmpty := True\<rparr>"
  have "covers small_db ''tests/test_f'' ''a/f''" unfolding covers_def by code_simp
  moreover have "resolveNodeId (\<lambda>_. None) (td_index small_db) ''a/f'' = Some (''a/f'', False)" by code_simp
  moreover have t: "test_of (td_index small_db) (ao_patterns ?o) ''tests/test_f'' \<noteq> None" by code_simp
  moreover have c: "0 < testCoverageCount small_db" by code_simp
  ultimately show ?thesis
    using never_without_tests [OF c _ _ _ t, of "\<lambda>_. None" "''a/f''" "''a/f''" False cmp_lin] by (simp add: all_options_def)
qed

subsection \<open>The class rollup\<close>

lemma entry_rollup_observed:
  "is_entry t roots cap up x d v True \<longleftrightarrow> x \<notin> set roots \<and> (\<exists>r \<in> set roots. covers t x r) \<and> d = 1 \<and> v"
  by (auto simp: is_entry_def Let_def)

lemma observed_rows:
  assumes "rows_exact t roots opts full" "rows_exact t roots (opts\<lparr>ao_classRollup := b\<rparr>) full'"
    and "a \<in> set full" "at_confidence a = Observed"
  shows "\<exists>a' \<in> set full'. at_confidence a' = Observed \<and> a'\<lparr>at_weight := 0\<rparr> = a\<lparr>at_weight := 0\<rparr>"
proof -
  let ?cap = "depthCap (ao_maxDepth opts)"
  have e0: "is_entry t roots ?cap (ao_classRollup opts) (at_id a) (at_depth a) (at_evidence a = Trace) (at_confidence a = Observed)"
    and st: "at_staticReachable a \<longleftrightarrow> (\<exists>r \<in> set roots. \<exists>n \<le> ?cap. at_distance (depends (td_index t)) r (at_id a) n)"
    and di: "at_dispatchOnly a \<longleftrightarrow> at_evidence a = Trace \<and> \<not> at_staticReachable a"
    using assms(1,3) by (simp_all add: rows_exact_def Let_def)
  from e0 have e: "is_entry t roots ?cap (ao_classRollup opts) (at_id a) (at_depth a) (at_evidence a = Trace) True"
    by (simp add: assms(4))
  obtain h where h: "test_of (td_index t) (ao_patterns opts) (at_id a) = Some h" "at_file a = th_file h"
    "at_runnable a = th_runnable h" "at_runner a = th_runner h" using assms(1,3) by (auto simp: rows_exact_def Let_def)
  from e have cov: "at_id a \<notin> set roots" "\<exists>r \<in> set roots. covers t (at_id a) r" "at_depth a = 1" "at_evidence a = Trace"
    unfolding entry_rollup_observed by simp_all
  have "is_entry t roots ?cap b (at_id a) 1 True True" unfolding entry_rollup_observed using cov by simp
  then have "at_id a \<in> at_id ` set full'" using assms(2) h(1) by (auto simp: rows_exact_def Let_def)
  then obtain a' where a': "a' \<in> set full'" "at_id a' = at_id a" by auto
  have e': "is_entry t roots ?cap b (at_id a) (at_depth a') (at_evidence a' = Trace) (at_confidence a' = Observed)"
    and st': "at_staticReachable a' \<longleftrightarrow> (\<exists>r \<in> set roots. \<exists>n \<le> ?cap. at_distance (depends (td_index t)) r (at_id a) n)"
    and di': "at_dispatchOnly a' \<longleftrightarrow> at_evidence a' = Trace \<and> \<not> at_staticReachable a'"
    and h': "at_file a' = th_file h" "at_runnable a' = th_runnable h" "at_runner a' = th_runner h"
    using assms(2) a' h(1) by (fastforce simp: rows_exact_def Let_def)+
  have o': "at_confidence a' = Observed" using e' cov by (simp add: is_entry_def Let_def)
  with e' have "at_depth a' = 1" "at_evidence a' = Trace" by (simp_all add: entry_rollup_observed)
  with cov st st' di di' h h' o' a'(2) assms(4) have "a'\<lparr>at_weight := 0\<rparr> = a\<lparr>at_weight := 0\<rparr>"
    by (intro affected_test.equality) simp_all
  with a'(1) o' show ?thesis by blast
qed

lemma observed_rows_set:
  assumes "rows_exact t roots (opts\<lparr>ao_classRollup := b\<rparr>) full" "rows_exact t roots (opts\<lparr>ao_classRollup := c\<rparr>) full'"
  shows "(\<lambda>a. a\<lparr>at_weight := 0\<rparr>) ` set (filter (\<lambda>a. at_confidence a = Observed) full)
    \<subseteq> (\<lambda>a. a\<lparr>at_weight := 0\<rparr>) ` set (filter (\<lambda>a. at_confidence a = Observed) full')"
proof
  fix y assume "y \<in> (\<lambda>a. a\<lparr>at_weight := 0\<rparr>) ` set (filter (\<lambda>a. at_confidence a = Observed) full)"
  then obtain a where a: "a \<in> set full" "at_confidence a = Observed" "y = a\<lparr>at_weight := 0\<rparr>" by auto
  obtain a' where "a' \<in> set full'" "at_confidence a' = Observed" "a'\<lparr>at_weight := 0\<rparr> = a\<lparr>at_weight := 0\<rparr>"
    using observed_rows [of t roots "opts\<lparr>ao_classRollup := b\<rparr>" full c full' a] assms a by auto
  with a(3) show "y \<in> (\<lambda>a. a\<lparr>at_weight := 0\<rparr>) ` set (filter (\<lambda>a. at_confidence a = Observed) full')"
    by (intro image_eqI [of _ _ a']) simp_all
qed

lemma tier_observed: "tier True True = (\<lambda>a. at_confidence a = Observed)"
  by (simp add: tier_def fun_eq_iff)

text \<open>the class rollup never touches who is in the tier \<open>observed\<close>, nor what its rows say of file,
  handle, evidence, depth and static reach, for a symbol as for files; only weights may change.\<close>

theorem rollup_keeps_observed:
  assumes "0 < testCoverageCount t" "ao_traceOnly opts" "\<not> ao_fallbackReachableWhenEmpty opts" "ao_limit opts = None"
  shows "\<forall>query \<in> {affectedTests lc fts_top t symbol, affectedTestsForFiles lc t files}.
    (\<lambda>a. a\<lparr>at_weight := 0\<rparr>) ` set (ar_tests (query (opts\<lparr>ao_classRollup := True\<rparr>)))
    = (\<lambda>a. a\<lparr>at_weight := 0\<rparr>) ` set (ar_tests (query (opts\<lparr>ao_classRollup := False\<rparr>)))"
proof -
  let ?o = "\<lambda>b. opts\<lparr>ao_classRollup := b\<rparr>" and ?obs = "filter (\<lambda>a. at_confidence a = Observed)"
  let ?rows = "\<lambda>as. (\<lambda>a. a\<lparr>at_weight := 0\<rparr>) ` set as"
  have files: "ar_tests (affectedTestsForFiles lc t files (?o b)) = ?obs (files_full lc t files (?o b))" for b
    using files_answer [of lc t files "?o b", OF refl] assms by (simp add: files_tests_def Let_def tier_observed)
  have F: "?rows (ar_tests (affectedTestsForFiles lc t files (?o b))) \<subseteq> ?rows (ar_tests (affectedTestsForFiles lc t files (?o c)))" for b c
    unfolding files by (rule observed_rows_set [OF files_exact files_exact])
  have S: "?rows (ar_tests (affectedTests lc fts_top t symbol (?o b))) \<subseteq> ?rows (ar_tests (affectedTests lc fts_top t symbol (?o c)))" for b c
  proof (cases "resolveNodeId fts_top (td_index t) symbol")
    case None
    then show ?thesis by (simp add: affectedTests_def not_found_def)
  next
    case (Some rv)
    obtain root via where rv: "rv = (root, via)" by fastforce
    have A: "\<exists>full. rows_exact t [root] (?o b) full \<and> ar_tests (affectedTests lc fts_top t symbol (?o b)) = ?obs full" for b
      using symbol_answer_any [OF Some [unfolded rv], of lc "?o b"] assms
      by (auto simp: answer_ok_def selected_def Let_def tier_observed)
    obtain full where "rows_exact t [root] (?o b) full" and b: "ar_tests (affectedTests lc fts_top t symbol (?o b)) = ?obs full"
      using A by blast
    moreover obtain full' where "rows_exact t [root] (?o c) full'" and c: "ar_tests (affectedTests lc fts_top t symbol (?o c)) = ?obs full'"
      using A by blast
    ultimately show ?thesis unfolding b c using observed_rows_set by simp
  qed
  have "?rows (ar_tests (affectedTests lc fts_top t symbol (?o True))) = ?rows (ar_tests (affectedTests lc fts_top t symbol (?o False)))"
    by (rule subset_antisym [OF S S])
  moreover have "?rows (ar_tests (affectedTestsForFiles lc t files (?o True))) = ?rows (ar_tests (affectedTestsForFiles lc t files (?o False)))"
    by (rule subset_antisym [OF F F])
  ultimately show ?thesis by simp
qed

definition rollup_db :: traced_db where
  "rollup_db = py_db [py_node ''a/C.m'' ''m'' ''C.m'' ''a.py'', py_node ''a/C.n'' ''n'' ''C.n'' ''a.py'',
     py_node ''tests/test_a'' ''test_a'' ''test_a'' ''tests/test_x.py'', py_node ''tests/test_b'' ''test_b'' ''test_b'' ''tests/test_x.py'']
    [] [] [(''test_a'', ''C.m'', 5), (''test_b'', ''C.m'', 3), (''test_b'', ''C.n'', 9)]"

theorem rollup_keeps_observed_witness:
  "(\<lambda>a. a\<lparr>at_weight := 0\<rparr>) ` set (ar_tests (affectedTests cmp_lin (\<lambda>_. None) rollup_db ''a/C.m'' (all_options\<lparr>ao_traceOnly := True, ao_classRollup := True\<rparr>)))
   = (\<lambda>a. a\<lparr>at_weight := 0\<rparr>) ` set (ar_tests (affectedTests cmp_lin (\<lambda>_. None) rollup_db ''a/C.m'' (all_options\<lparr>ao_traceOnly := True, ao_classRollup := False\<rparr>)))"
proof -
  have "0 < testCoverageCount rollup_db" by code_simp
  from rollup_keeps_observed [OF this, of "all_options\<lparr>ao_traceOnly := True\<rparr>" cmp_lin "\<lambda>_. None" "''a/C.m''" "[]"] show ?thesis
    by (simp add: all_options_def)
qed

subsection \<open>What the comments say otherwise\<close>

text \<open>The weights that the rollup raises reorder the tier \<open>observed\<close>, so with a limit another test is run.\<close>

theorem rollup_reorders_observed:
  "map at_id (ar_tests (affectedTests cmp_lin (\<lambda>_. None) rollup_db ''a/C.m''
      (all_options\<lparr>ao_traceOnly := True, ao_limit := Some 1, ao_classRollup := False\<rparr>))) = [''tests/test_a'']
   \<and> map at_id (ar_tests (affectedTests cmp_lin (\<lambda>_. None) rollup_db ''a/C.m''
      (all_options\<lparr>ao_traceOnly := True, ao_limit := Some 1, ao_classRollup := True\<rparr>))) = [''tests/test_b'']"
  by code_simp

text \<open>On the precise path, too, observed calls are walked transitively.\<close>

theorem precise_walks_all_traces:
  "(let r = affectedTests cmp_lin (\<lambda>_. None) (py_db [py_node ''a/f'' ''f'' ''f'' ''a.py'', py_node ''a/g'' ''g'' ''g'' ''a.py'',
        py_node ''tests/test_f'' ''test_f'' ''test_f'' ''tests/test_f.py'']
       [] [(''test_f'', ''g''), (''g'', ''f'')] [(''test_f'', ''g'', 1)]) ''a/f'' all_options
    in (ar_precise r, map at_id (ar_tests r), map at_evidence (ar_tests r), map at_depth (ar_tests r)))
   = (True, [''tests/test_f''], [Trace], [2])"
  by code_simp

text \<open>A test that calls a function statically which was observed to call the symbol has evidence \<open>static\<close>,
  although no chain of static edges leads from it to the symbol.\<close>

theorem static_evidence_needs_trace:
  "(let r = affectedTests cmp_lin (\<lambda>_. None) (py_db [py_node ''a/f'' ''f'' ''f'' ''a.py'', py_node ''a/g'' ''g'' ''g'' ''a.py'',
        py_node ''tests/test_f'' ''test_f'' ''test_f'' ''tests/test_f.py'']
       [(''tests/test_f'', ''a/g'')] [(''g'', ''f'')] []) ''a/f'' all_options
    in (map at_evidence (ar_tests r), map at_staticReachable (ar_tests r), ar_dispatchOnlyCount r))
   = ([Static], [False], 0)"
  by code_simp

text \<open>The only covering test of a changed function is itself in a changed file: it is a root and not
  selected, but it counts as coverage, so the fallback for the function is off and nothing is selected,
  although another test calls the function.\<close>

theorem covered_by_a_root_only:
  "(let opts = all_options\<lparr>ao_traceOnly := True, ao_fallbackReachableWhenEmpty := True\<rparr>
    in (map at_id (ar_tests (affectedTestsForFiles cmp_lin small_db [''a.py'', ''tests/test_f.py''] opts)),
        map at_id (ar_tests (affectedTestsForFiles cmp_lin small_db [''a.py'', ''tests/test_f.py''] all_options))))
   = ([], [''tests/test_g''])"
  by code_simp

text \<open>Tests that the fallback adds are appended after the ranked ones, so the limit may drop a
  \<open>dispatchOnly\<close> test for one that is not.\<close>

theorem fallback_is_not_ranked:
  "(let t = py_db [py_node ''a/f'' ''f'' ''f'' ''a.py'', py_node ''a/g'' ''g'' ''g'' ''a.py'',
        py_node ''tests/test_f'' ''test_f'' ''test_f'' ''tests/test_f.py'', py_node ''tests/test_g'' ''test_g'' ''test_g'' ''tests/test_g.py'']
       [(''tests/test_f'', ''a/f'')] [(''test_g'', ''g'')] [(''test_f'', ''f'', 1)];
        opts = all_options\<lparr>ao_traceOnly := True, ao_fallbackReachableWhenEmpty := True\<rparr>
    in (map (\<lambda>a. (at_id a, at_dispatchOnly a)) (ar_tests (affectedTestsForFiles cmp_lin t [''a.py''] opts)),
        map at_id (ar_tests (affectedTestsForFiles cmp_lin t [''a.py''] (opts\<lparr>ao_limit := Some 1\<rparr>)))))
   = ([(''tests/test_f'', False), (''tests/test_g'', True)], [''tests/test_f''])"
  by code_simp

end
