(* ===== verification/FileLock.thy ===== *)
theory FileLock
  imports Text Bytes
begin

text \<open>
  \<open>util/file_lock.ts\<close>: the advisory lock file, one system call at a time.

  A \<open>task\<close> is one call of \<open>withFileLock\<close> (\<open>async\<close>) or \<open>withFileLockSync\<close>; its \<open>pc\<close> is the
  next thing it does to the lock file or the clock. \<open>turn\<close> performs it. What tasks share is the
  file, the clock and which processes are dead. An \<open>event\<close> is a turn of one task, a firing of
  the interval that touches a held file, time passing, or a process dying. The token's random
  suffix and the random part of a delay come with the event. The file system's clock runs
  \<open>skew\<close> ahead of the processes' clock.

  Tasks of one process are interleaved here at every call, which is more than one event loop
  does. Failures to open other than \<open>EEXIST\<close>, and a file that is there but cannot be read, are
  left out.

  Shown: as long as no waiter deletes the file of a running holder, two tasks are never inside
  together; a file is only declared stale when nothing has touched it for the whole window;
  and the gap between a waiter's check and its delete does let two tasks in.
\<close>

subsection \<open>Tokens\<close>

definition newToken :: "nat \<Rightarrow> nat \<Rightarrow> string \<Rightarrow> string" where
  "newToken pid ms rand = nat_dec pid @ ''.'' @ nat_dec ms @ ''.'' @ rand"

definition lockTokenPid :: "(string \<Rightarrow> int option) \<Rightarrow> string option \<Rightarrow> nat option" where
  "lockTokenPid num token = (case token of
     None \<Rightarrow> None
   | Some t \<Rightarrow> (case num (hd (split_on (\<lambda>c. c = CHR ''.'') t)) of
       None \<Rightarrow> None
     | Some p \<Rightarrow> if p > 0 then Some (nat p) else None))"

subsection \<open>The file and the tasks\<close>

record lockfile =
  ino :: nat
  contents :: string
  mtime :: int

datatype pc =
    Begin
  | Create
  | Write string nat
  | Confirm string nat
  | Read
  | Probe "string option"
  | Stat "string option"
  | Recheck "string option"
  | Unlink "string option"
  | Pause
  | Sleep int
  | Inside string
  | Touching string
  | Leave string
  | Remove string
  | Done
  | TimedOut
  | Gone

record task =
  pid :: nat
  async :: bool
  budgetMs :: int
  staleMs :: int
  pc :: pc
  watched :: "int option"
  since :: int
  deadline :: int

record lock =
  lockFile :: "lockfile option"
  tasks :: "task list"
  dead :: "nat list"
  clock :: nat
  skew :: int
  inodes :: nat

definition readToken :: "lockfile option \<Rightarrow> string option" where
  "readToken f = map_option (trim \<circ> contents) f"

definition mtimeOf :: "lockfile option \<Rightarrow> int option" where
  "mtimeOf f = map_option mtime f"

definition isAlive :: "lock \<Rightarrow> nat \<Rightarrow> bool" where
  "isAlive s p \<longleftrightarrow> p \<notin> set (dead s)"

text \<open>\<open>UNREADABLE_STALE_MS\<close> and the window \<open>step\<close> waits out.\<close>

definition patience :: "(string \<Rightarrow> int option) \<Rightarrow> task \<Rightarrow> string option \<Rightarrow> int" where
  "patience num t h = (if lockTokenPid num h = None then min (staleMs t) 5000 else staleMs t)"

subsection \<open>One call\<close>

definition tryOpen :: "lock \<Rightarrow> task \<Rightarrow> string \<Rightarrow> lock \<times> task" where
  "tryOpen s t rand =
     (case lockFile s of
        Some f \<Rightarrow> (s, t\<lparr>pc := Read\<rparr>)
      | None \<Rightarrow>
          (s\<lparr>lockFile := Some \<lparr>ino = inodes s, contents = '''', mtime = int (clock s) + skew s\<rparr>,
             inodes := inodes s + 1\<rparr>,
           t\<lparr>pc := Write (newToken (pid t) (clock s) rand) (inodes s)\<rparr>))"

definition writeToken :: "lock \<Rightarrow> string \<Rightarrow> nat \<Rightarrow> lock" where
  "writeToken s token i =
     s\<lparr>lockFile := map_option (\<lambda>f. if ino f = i
         then f\<lparr>contents := token @ [CHR 0x0A], mtime := int (clock s) + skew s\<rparr> else f) (lockFile s)\<rparr>"

definition unlink :: "lock \<Rightarrow> lock" where
  "unlink s = s\<lparr>lockFile := None\<rparr>"

definition utimes :: "lock \<Rightarrow> lock" where
  "utimes s = s\<lparr>lockFile := map_option (\<lambda>f. f\<lparr>mtime := int (clock s) + skew s\<rparr>) (lockFile s)\<rparr>"

text \<open>A live holder's pid, or the waiter's own, is not grounds to reclaim at once.\<close>

definition afterProbe :: "(string \<Rightarrow> int option) \<Rightarrow> lock \<Rightarrow> task \<Rightarrow> string option \<Rightarrow> pc" where
  "afterProbe num s t h = (case lockTokenPid num h of
     Some p \<Rightarrow> if p \<noteq> pid t \<and> \<not> isAlive s p then Recheck h else Stat h
   | None \<Rightarrow> Stat h)"

definition afterStat :: "(string \<Rightarrow> int option) \<Rightarrow> lock \<Rightarrow> task \<Rightarrow> string option \<Rightarrow> task" where
  "afterStat num s t h = (case mtimeOf (lockFile s) of
     None \<Rightarrow> t\<lparr>watched := None, pc := Pause\<rparr>
   | Some m \<Rightarrow>
       if watched t \<noteq> Some m then t\<lparr>watched := Some m, since := int (clock s), pc := Pause\<rparr>
       else if int (clock s) - since t \<ge> patience num t h then t\<lparr>pc := Recheck h\<rparr>
       else t\<lparr>pc := Pause\<rparr>)"

definition delay :: "task \<Rightarrow> nat \<Rightarrow> int" where
  "delay t r = (if async t then 25 + int (r mod 50) else 5 + int (r mod 15))"

definition turn :: "(string \<Rightarrow> int option) \<Rightarrow> string \<Rightarrow> nat \<Rightarrow> lock \<Rightarrow> task \<Rightarrow> lock \<times> task" where
  "turn num rand r s t = (case pc t of
     Begin \<Rightarrow> (s, t\<lparr>deadline := int (clock s) + budgetMs t, watched := None, since := 0, pc := Create\<rparr>)
   | Create \<Rightarrow> tryOpen s t rand
   | Write token i \<Rightarrow> (writeToken s token i, t\<lparr>pc := Confirm token i\<rparr>)
   | Confirm token i \<Rightarrow> (s, t\<lparr>pc := if readToken (lockFile s) = Some token then Inside token else Read\<rparr>)
   | Read \<Rightarrow> (s, t\<lparr>pc := Probe (readToken (lockFile s))\<rparr>)
   | Probe h \<Rightarrow> (s, t\<lparr>pc := afterProbe num s t h\<rparr>)
   | Stat h \<Rightarrow> (s, afterStat num s t h)
   | Recheck h \<Rightarrow>
       (s, if readToken (lockFile s) \<noteq> h then t\<lparr>watched := None, pc := Pause\<rparr> else t\<lparr>pc := Unlink h\<rparr>)
   | Unlink h \<Rightarrow> (unlink s, t\<lparr>watched := None, pc := Pause\<rparr>)
   | Pause \<Rightarrow>
       (s, t\<lparr>pc := if int (clock s) \<ge> deadline t then TimedOut else Sleep (int (clock s) + delay t r)\<rparr>)
   | Sleep until \<Rightarrow> (s, if int (clock s) \<ge> until then t\<lparr>pc := Create\<rparr> else t)
   | Inside token \<Rightarrow> (s, t\<lparr>pc := Leave token\<rparr>)
   | Touching token \<Rightarrow> (utimes s, t\<lparr>pc := Inside token\<rparr>)
   | Leave token \<Rightarrow> (s, t\<lparr>pc := if readToken (lockFile s) = Some token then Remove token else Done\<rparr>)
   | Remove token \<Rightarrow> (unlink s, t\<lparr>pc := Done\<rparr>)
   | Done \<Rightarrow> (s, t)
   | TimedOut \<Rightarrow> (s, t)
   | Gone \<Rightarrow> (s, t))"

definition touch :: "lock \<Rightarrow> task \<Rightarrow> task" where
  "touch s t = (case pc t of
     Inside token \<Rightarrow> if async t \<and> readToken (lockFile s) = Some token then t\<lparr>pc := Touching token\<rparr> else t
   | _ \<Rightarrow> t)"

subsection \<open>Runs\<close>

datatype event = Turn nat string nat | Interval nat | Tick nat | Crash nat

definition exec :: "(string \<Rightarrow> int option) \<Rightarrow> event \<Rightarrow> lock \<Rightarrow> lock" where
  "exec num e s = (case e of
     Turn i rand r \<Rightarrow> (if i < length (tasks s)
       then (let (s', t) = turn num rand r s (tasks s ! i) in s'\<lparr>tasks := (tasks s)[i := t]\<rparr>) else s)
   | Interval i \<Rightarrow> (if i < length (tasks s) then s\<lparr>tasks := (tasks s)[i := touch s (tasks s ! i)]\<rparr> else s)
   | Tick n \<Rightarrow> s\<lparr>clock := clock s + n\<rparr>
   | Crash p \<Rightarrow> s\<lparr>dead := p # dead s, tasks := map (\<lambda>t. if pid t = p then t\<lparr>pc := Gone\<rparr> else t) (tasks s)\<rparr>)"

fun run :: "(string \<Rightarrow> int option) \<Rightarrow> event list \<Rightarrow> lock \<Rightarrow> lock" where
  "run num [] s = s"
| "run num (e # es) s = run num es (exec num e s)"

text \<open>Any file may be lying there at the beginning; every task is about to begin.\<close>

definition initial :: "lock \<Rightarrow> bool" where
  "initial s \<longleftrightarrow> list_all (\<lambda>t. pc t = Begin) (tasks s)"

text \<open>The caller's function is running.\<close>

definition inside :: "task \<Rightarrow> bool" where
  "inside t = (case pc t of Inside _ \<Rightarrow> True | Touching _ \<Rightarrow> True | _ \<Rightarrow> False)"

text \<open>The file is this task's: the one it created, and later the one with its token.\<close>

definition owns :: "task \<Rightarrow> lockfile \<Rightarrow> bool" where
  "owns t f = (case pc t of
     Write _ i \<Rightarrow> ino f = i
   | Confirm _ i \<Rightarrow> ino f = i
   | Inside token \<Rightarrow> trim (contents f) = token
   | Touching token \<Rightarrow> trim (contents f) = token
   | Leave token \<Rightarrow> trim (contents f) = token
   | Remove token \<Rightarrow> trim (contents f) = token
   | _ \<Rightarrow> False)"

text \<open>The next event is a waiter deleting the file of a task that still runs.\<close>

definition steals :: "event \<Rightarrow> lock \<Rightarrow> bool" where
  "steals e s = (case e of
     Turn i _ _ \<Rightarrow> i < length (tasks s) \<and> (case pc (tasks s ! i) of Unlink _ \<Rightarrow>
       (case lockFile s of None \<Rightarrow> False | Some f \<Rightarrow> list_ex (\<lambda>t. owns t f) (tasks s)) | _ \<Rightarrow> False)
   | _ \<Rightarrow> False)"

fun careful :: "(string \<Rightarrow> int option) \<Rightarrow> event list \<Rightarrow> lock \<Rightarrow> bool" where
  "careful num [] s \<longleftrightarrow> True"
| "careful num (e # es) s \<longleftrightarrow> \<not> steals e s \<and> careful num es (exec num e s)"

subsection \<open>Mutual exclusion\<close>

text \<open>Between creating the file and deleting it.\<close>

definition engaged :: "task \<Rightarrow> bool" where
  "engaged t = (case pc t of
     Write _ _ \<Rightarrow> True | Confirm _ _ \<Rightarrow> True | Inside _ \<Rightarrow> True
   | Touching _ \<Rightarrow> True | Leave _ \<Rightarrow> True | Remove _ \<Rightarrow> True | _ \<Rightarrow> False)"

definition exclusive :: "lock \<Rightarrow> bool" where
  "exclusive s \<longleftrightarrow>
     (\<forall>i < length (tasks s). engaged (tasks s ! i) \<longrightarrow> (\<exists>f. lockFile s = Some f \<and> owns (tasks s ! i) f)) \<and>
     (\<forall>i < length (tasks s). \<forall>j < length (tasks s). engaged (tasks s ! i) \<longrightarrow> engaged (tasks s ! j) \<longrightarrow> i = j)"

lemma inside_engaged: "inside t \<Longrightarrow> engaged t"
  by (simp add: inside_def engaged_def split: pc.splits)

lemma owns_engaged: "owns t f \<Longrightarrow> engaged t"
  by (simp add: owns_def engaged_def split: pc.splits)

lemma exclusiveI:
  assumes "\<And>i. i < length (tasks s) \<Longrightarrow> engaged (tasks s ! i) \<Longrightarrow> \<exists>f. lockFile s = Some f \<and> owns (tasks s ! i) f"
    and "\<And>i j. i < length (tasks s) \<Longrightarrow> j < length (tasks s) \<Longrightarrow> engaged (tasks s ! i) \<Longrightarrow> engaged (tasks s ! j) \<Longrightarrow> i = j"
  shows "exclusive s"
  unfolding exclusive_def using assms by blast

lemma initial_exclusive: "initial s \<Longrightarrow> exclusive s"
  by (rule exclusiveI) (auto simp: initial_def engaged_def list_all_length)

lemma tasks_turn: "tasks (fst (turn num rand r s t)) = tasks s"
  by (simp add: turn_def tryOpen_def writeToken_def unlink_def utimes_def split: pc.splits option.splits)

text \<open>A turn of a task that is not engaged leaves the file alone, creates it, or deletes it.\<close>

lemma turn_idle:
  assumes "\<not> engaged t" "turn num rand r s t = (s', t')"
  shows "lockFile s' = lockFile s \<and> \<not> engaged t' \<or>
    lockFile s = None \<and> (\<exists>f. lockFile s' = Some f \<and> owns t' f) \<or>
    (\<exists>h. pc t = Unlink h) \<and> lockFile s' = None \<and> \<not> engaged t'"
  using assms
  by (cases "pc t")
    (auto simp: turn_def tryOpen_def unlink_def engaged_def owns_def afterProbe_def afterStat_def
      split: option.splits if_splits)

text \<open>A turn of an engaged task that owns the file: afterwards it still does, or it has deleted it.\<close>

lemma turn_engaged:
  assumes "engaged t" "lockFile s = Some f" "owns t f" "turn num rand r s t = (s', t')"
  shows "\<not> engaged t' \<or> (\<exists>f'. lockFile s' = Some f' \<and> owns t' f')"
  using assms
  by (cases "pc t")
    (auto simp: turn_def writeToken_def utimes_def engaged_def owns_def readToken_def split: if_splits)

lemma exclusive_turn:
  assumes inv: "exclusive s" and i: "i < length (tasks s)"
    and quiet: "\<not> steals (Turn i rand r) s"
  shows "exclusive (exec num (Turn i rand r) s)"
proof -
  obtain s' t' where st: "turn num rand r s (tasks s ! i) = (s', t')" by fastforce
  let ?t = "tasks s ! i"
  have x: "exec num (Turn i rand r) s = s'\<lparr>tasks := (tasks s)[i := t']\<rparr>" using i st by (simp add: exec_def)
  have owner: "\<exists>f. lockFile s = Some f \<and> owns (tasks s ! j) f" if "j < length (tasks s)" "engaged (tasks s ! j)" for j
    using inv that by (simp add: exclusive_def)
  have only: "j = k" if "j < length (tasks s)" "k < length (tasks s)" "engaged (tasks s ! j)" "engaged (tasks s ! k)" for j k
    using inv that by (simp add: exclusive_def)
  consider (same) "\<not> engaged ?t" "lockFile s' = lockFile s" "\<not> engaged t'"
    | (own) "\<not> engaged ?t" "lockFile s = None" "\<exists>f. lockFile s' = Some f \<and> owns t' f"
    | (del) "\<not> engaged ?t" "\<exists>h. pc ?t = Unlink h" "\<not> engaged t'"
    | (eng) "engaged ?t" "\<not> engaged t' \<or> (\<exists>f'. lockFile s' = Some f' \<and> owns t' f')"
  proof (cases "engaged ?t")
    case True
    with owner [OF i] obtain f where "lockFile s = Some f" "owns ?t f" by blast
    with True eng show ?thesis using turn_engaged [OF _ _ _ st] by blast
  next
    case False
    with turn_idle [OF False st] same own del show ?thesis by blast
  qed
  then show ?thesis
  proof cases
    case same
    show ?thesis unfolding x
      by (rule exclusiveI) (use i same owner only in \<open>auto simp: nth_list_update split: if_splits\<close>)
  next
    case own
    have none: "\<not> engaged (tasks s ! j)" if "j < length (tasks s)" for j using owner [OF that] own(2) by auto
    show ?thesis unfolding x
      by (rule exclusiveI) (use i own none in \<open>auto simp: nth_list_update split: if_splits\<close>)
  next
    case del
    have none: "\<not> engaged (tasks s ! j)" if j: "j < length (tasks s)" for j
    proof
      assume "engaged (tasks s ! j)"
      then obtain f where "lockFile s = Some f" "owns (tasks s ! j) f" using owner [OF j] by blast
      with quiet i j del(2) show False by (auto simp: steals_def list_ex_iff)
    qed
    show ?thesis unfolding x
      by (rule exclusiveI) (use i del none in \<open>auto simp: nth_list_update split: if_splits\<close>)
  next
    case eng
    have none: "\<not> engaged (tasks s ! j)" if "j < length (tasks s)" "j \<noteq> i" for j
      using only [OF that(1) i _ eng(1)] that(2) by blast
    show ?thesis unfolding x
      by (rule exclusiveI) (use i eng none in \<open>auto simp: nth_list_update split: if_splits\<close>)
  qed
qed

lemma touch_engaged: "engaged (touch s t) = engaged t" "owns (touch s t) f = owns t f"
  by (auto simp: touch_def engaged_def owns_def split: pc.splits)

lemma exclusive_exec: "exclusive s \<Longrightarrow> \<not> steals e s \<Longrightarrow> exclusive (exec num e s)"
proof (cases e)
  case (Turn i rand r)
  moreover assume "exclusive s" "\<not> steals e s"
  ultimately show ?thesis
    by (cases "i < length (tasks s)") (simp_all add: exclusive_turn, simp add: exec_def)
next
  case (Interval i)
  moreover assume "exclusive s"
  ultimately show ?thesis
    by (auto simp: exclusive_def exec_def touch_engaged nth_list_update)
next
  case (Tick n)
  moreover assume "exclusive s"
  ultimately show ?thesis by (simp add: exclusive_def exec_def)
next
  case (Crash p)
  moreover have "\<not> engaged (t\<lparr>pc := Gone\<rparr>)" for t by (simp add: engaged_def)
  moreover assume "exclusive s"
  ultimately show ?thesis by (auto simp: exclusive_def exec_def)
qed

lemma exclusive_run: "exclusive s \<Longrightarrow> careful num es s \<Longrightarrow> exclusive (run num es s)"
  by (induction es arbitrary: s) (simp_all add: exclusive_exec)


subsection \<open>Staleness\<close>

definition fresh_file :: "lock \<Rightarrow> bool" where
  "fresh_file s \<longleftrightarrow> (\<forall>f. lockFile s = Some f \<longrightarrow> mtime f \<le> int (clock s) + skew s)"

definition watch_ok :: "lock \<Rightarrow> task \<Rightarrow> bool" where
  "watch_ok s t \<longleftrightarrow> pc t = Begin \<or> pc t = Gone \<or> (\<forall>m. watched t = Some m \<longrightarrow> m - skew s \<le> since t)"

definition watched_ok :: "lock \<Rightarrow> bool" where
  "watched_ok s \<longleftrightarrow> fresh_file s \<and> (\<forall>t \<in> set (tasks s). watch_ok s t)"

lemma turn_frame: "turn num rand r s t = (s', t') \<Longrightarrow> clock s' = clock s \<and> skew s' = skew s"
  by (cases "pc t")
    (auto simp: turn_def tryOpen_def writeToken_def unlink_def utimes_def split: option.splits)

lemma turn_fresh: "fresh_file s \<Longrightarrow> turn num rand r s t = (s', t') \<Longrightarrow> fresh_file s'"
  by (cases "pc t")
    (auto simp: fresh_file_def turn_def tryOpen_def writeToken_def unlink_def utimes_def split: option.splits if_splits)

lemma turn_watch:
  assumes "fresh_file s" "watch_ok s t" "turn num rand r s t = (s', t')"
  shows "watch_ok s' t'"
  using assms
  by (cases "pc t")
    (auto simp: fresh_file_def watch_ok_def mtimeOf_def turn_def tryOpen_def writeToken_def unlink_def utimes_def
      afterStat_def split: option.splits if_splits)

lemma watched_ok_exec:
  assumes "watched_ok s"
  shows "watched_ok (exec num e s)"
proof (cases e)
  case (Turn i rand r)
  show ?thesis
  proof (cases "i < length (tasks s)")
    case True
    obtain s' t' where st: "turn num rand r s (tasks s ! i) = (s', t')" by fastforce
    have "fresh_file s'" "watch_ok s' t'"
      using assms True turn_fresh [OF _ st] turn_watch [OF _ _ st] by (simp_all add: watched_ok_def)
    moreover have "watch_ok s' t" if "t \<in> set (tasks s)" for t
      using assms that turn_frame [OF st] by (simp add: watched_ok_def watch_ok_def)
    ultimately show ?thesis using True Turn st set_update_subset_insert [of "tasks s" i t']
      by (auto simp: exec_def watched_ok_def fresh_file_def watch_ok_def)
  qed (use assms Turn in \<open>simp add: exec_def\<close>)
next
  case (Interval i)
  have "watch_ok s (touch s (tasks s ! i))" if "i < length (tasks s)"
  proof -
    have "watch_ok s (tasks s ! i)" using assms that by (simp add: watched_ok_def)
    then show ?thesis by (cases "pc (tasks s ! i)") (auto simp: watch_ok_def touch_def)
  qed
  then have "\<forall>t \<in> set ((tasks s)[i := touch s (tasks s ! i)]). watch_ok s t" if "i < length (tasks s)"
    using assms that set_update_subset_insert [of "tasks s" i "touch s (tasks s ! i)"] by (auto simp: watched_ok_def)
  with assms Interval show ?thesis by (simp add: exec_def watched_ok_def fresh_file_def watch_ok_def)
next
  case (Tick n)
  with assms show ?thesis by (auto simp: exec_def watched_ok_def fresh_file_def watch_ok_def)
next
  case (Crash p)
  with assms show ?thesis by (auto simp: exec_def watched_ok_def fresh_file_def watch_ok_def)
qed

lemma watched_ok_run: "watched_ok s \<Longrightarrow> watched_ok (run num es s)"
  by (induction es arbitrary: s) (simp_all add: watched_ok_exec)

text \<open>
  A waiter that goes on from the stat to deleting the file has found it untouched for the whole
  window, whatever the clock of the file system says: a holder that touches its file more often
  than that is never declared stale at the stat.
\<close>

theorem stale_window:
  assumes "initial s" "fresh_file s"
    and "u = run num es s" "i < length (tasks u)"
    and "pc (tasks u ! i) = Stat h" "pc (tasks (exec num (Turn i rand r) u) ! i) = Recheck h"
  shows "\<exists>f. lockFile u = Some f \<and> mtime f - skew u + patience num (tasks u ! i) h \<le> int (clock u)"
proof -
  have "watched_ok s" using assms(1,2) by (auto simp: watched_ok_def watch_ok_def initial_def list_all_iff)
  then have "watched_ok u" using assms(3) watched_ok_run by blast
  then have "watch_ok u (tasks u ! i)" using assms(4) by (simp add: watched_ok_def)
  with assms(4-6) show ?thesis
    by (auto simp: exec_def turn_def afterStat_def watch_ok_def mtimeOf_def split: option.splits if_splits)
qed

subsection \<open>Two tasks and the file of a dead process\<close>

definition sample_num :: "string \<Rightarrow> int option" where
  "sample_num s = Some (int (dec_val s))"

definition waiter :: "nat \<Rightarrow> task" where
  "waiter p = \<lparr>pid = p, async = False, budgetMs = 6000, staleMs = 5000, pc = Begin,
     watched = None, since = 0, deadline = 0\<rparr>"

definition left_behind :: lock where
  "left_behind = \<lparr>lockFile = Some \<lparr>ino = 0, contents = ''5.1.k'' @ [CHR 0x0A], mtime = 1\<rparr>,
     tasks = [waiter 7, waiter 8], dead = [5], clock = 10, skew = 0, inodes = 1\<rparr>"

definition turns :: "nat \<Rightarrow> nat \<Rightarrow> event list" where
  "turns i n = replicate n (Turn i ''x'' 0)"

text \<open>Both see the dead holder's token and check it again; the first then deletes the file, comes back and gets in.\<close>

definition in_order :: "event list" where
  "in_order = turns 0 5 @ turns 1 5 @ turns 0 1 @ turns 1 1 @ turns 0 1 @ [Tick 20] @ turns 0 4"

definition late_delete :: "event list" where
  "late_delete = turns 0 5 @ turns 1 5 @ turns 0 2 @ [Tick 20] @ turns 0 4 @ turns 1 2 @ [Tick 20] @ turns 1 4"

lemma in_order_careful:
  "initial left_behind" "careful sample_num in_order left_behind"
  "map inside (tasks (run sample_num in_order left_behind)) = [True, False]"
  by code_simp+

text \<open>
  The gap between the check in \<open>reclaim\<close> and its delete: the second waiter deletes the file the
  first one has created since, and both are inside.
\<close>

theorem double_entry:
  "initial left_behind" "map inside (tasks (run sample_num late_delete left_behind)) = [True, True]"
  by code_simp+


end
