(* ===== verification/NameIndex.thy ===== *)
theory NameIndex
  imports UniqueIndex GraphDb Text
begin

text \<open>
  \<open>graph/nameIndex.ts\<close>: names scoped to a workspace package, the index behind both edge resolution
  passes. Shown here: which id a lookup gives, in terms of the nodes offered; that it does not
  depend on their order; and that offering only the nodes that bear one of the names looked up,
  as the re-resolution pass does, gives the same answers.
\<close>

record name_node =
  nn_id :: string
  nn_name :: string
  nn_qualified_name :: string
  nn_kind :: string

record name_index =
  qn_ids :: "string \<Rightarrow> string option"
  name_ids :: "string \<Rightarrow> string option"

definition key :: "string \<Rightarrow> string \<Rightarrow> string" where
  "key pkg name = pkg @ char_of (0 :: nat) # name"

definition empty_index :: name_index where
  "empty_index = \<lparr>qn_ids = (\<lambda>_. None), name_ids = (\<lambda>_. None)\<rparr>"

definition add_name :: "string \<Rightarrow> name_node \<Rightarrow> name_index \<Rightarrow> bool \<times> name_index" where
  "add_name pkg n x =
     (if nn_kind n = ''module'' then (False, x)
      else (True, \<lparr>qn_ids = index_unique (key pkg (nn_qualified_name n)) (nn_id n) (qn_ids x),
                   name_ids = index_unique (key pkg (nn_name n)) (nn_id n) (name_ids x)\<rparr>))"

definition lookup_name :: "string \<Rightarrow> string \<Rightarrow> name_index \<Rightarrow> string option" where
  "lookup_name pkg name x =
     (case hit (qn_ids x) (key pkg name) of Some i \<Rightarrow> Some i | None \<Rightarrow> hit (name_ids x) (key pkg name))"

text \<open>The nodes with their packages, in the order they are offered.\<close>

definition index_names :: "(string \<times> name_node) list \<Rightarrow> name_index" where
  "index_names ns = fold (\<lambda>(pkg, n) x. snd (add_name pkg n x)) ns empty_index"

subsection \<open>The answer, from the nodes\<close>

definition bearing :: "(name_node \<Rightarrow> string) \<Rightarrow> (string \<times> name_node) set \<Rightarrow> string \<Rightarrow> string set" where
  "bearing f N k = nn_id ` {n. \<exists>pkg. (pkg, n) \<in> N \<and> nn_kind n \<noteq> ''module'' \<and> key pkg (f n) = k}"

definition only :: "string set \<Rightarrow> string option" where
  "only C = (if is_singleton C then Some (the_elem C) else None)"

definition named :: "(string \<times> name_node) set \<Rightarrow> string \<Rightarrow> string \<Rightarrow> string option" where
  "named N pkg name =
     (case only (bearing nn_qualified_name N (key pkg name)) of
        Some i \<Rightarrow> Some i
      | None \<Rightarrow> only (bearing nn_name N (key pkg name)))"

definition index_inv :: "(string \<times> name_node) set \<Rightarrow> name_index \<Rightarrow> bool" where
  "index_inv N x \<longleftrightarrow> qn_ids x = (\<lambda>k. unique_of (bearing nn_qualified_name N k))
     \<and> name_ids x = (\<lambda>k. unique_of (bearing nn_name N k))"

lemma bearing_insert:
  "bearing f (insert (pkg, n) N) k =
    (if k = key pkg (f n) \<and> nn_kind n \<noteq> ''module'' then insert (nn_id n) (bearing f N k) else bearing f N k)"
  by (auto simp: bearing_def)

definition proper_ids :: "(string \<times> name_node) set \<Rightarrow> bool" where
  "proper_ids N \<longleftrightarrow> (\<forall>(pkg, n) \<in> N. nn_id n \<noteq> AMBIGUOUS)"

lemma bearing_proper: "proper_ids N \<Longrightarrow> AMBIGUOUS \<notin> bearing f N k"
  by (auto simp: proper_ids_def bearing_def)

lemma add_name_inv:
  assumes "index_inv N x" "proper_ids (insert (pkg, n) N)"
  shows "index_inv (insert (pkg, n) N) (snd (add_name pkg n x))"
proof (cases "nn_kind n = ''module''")
  case True
  with assms show ?thesis by (simp add: index_inv_def add_name_def bearing_insert)
next
  case False
  have "proper_ids N" using assms(2) by (auto simp: proper_ids_def)
  then have p: "\<forall>k. AMBIGUOUS \<notin> bearing f N k" for f using bearing_proper by blast
  have i: "nn_id n \<noteq> AMBIGUOUS" using assms(2) by (auto simp: proper_ids_def)
  from assms(1) False show ?thesis
    using index_unique_step [OF _ p i]
    by (auto simp: index_inv_def add_name_def bearing_insert intro!: ext arg_cong [of _ _ unique_of])
qed

lemma index_names_inv:
  assumes "proper_ids (set ns)"
  shows "index_inv (set ns) (index_names ns)"
proof -
  have "index_inv (N \<union> set ns) (fold (\<lambda>(pkg, n) x. snd (add_name pkg n x)) ns x)"
    if "index_inv N x" "proper_ids (N \<union> set ns)" for N x
    using that
  proof (induction ns arbitrary: N x)
    case Nil
    then show ?case by simp
  next
    case (Cons p ns)
    obtain pkg n where p: "p = (pkg, n)" by fastforce
    have "proper_ids (insert (pkg, n) N)" using Cons.prems p by (auto simp: proper_ids_def)
    then have "index_inv (insert (pkg, n) N) (snd (add_name pkg n x))" using Cons.prems add_name_inv by blast
    with Cons.IH [of "insert (pkg, n) N" "snd (add_name pkg n x)"] Cons.prems p show ?case by simp
  qed
  moreover have "index_inv {} empty_index"
    by (simp add: index_inv_def empty_index_def bearing_def unique_of_def)
  ultimately show ?thesis using assms by (fastforce simp: index_names_def)
qed

lemma hit_only: "AMBIGUOUS \<notin> C k \<Longrightarrow> hit (\<lambda>k. unique_of (C k)) k = only (C k)"
  by (cases "C k" rule: unique_of_cases) (auto simp: hit_def only_def is_singleton_def)

lemma lookup_index:
  assumes "index_inv N x" "proper_ids N"
  shows "lookup_name pkg name x = named N pkg name"
  using assms by (simp add: lookup_name_def named_def index_inv_def hit_only bearing_proper cong: option.case_cong)

lemma lookup_names: "proper_ids (set ns) \<Longrightarrow> lookup_name pkg name (index_names ns) = named (set ns) pkg name"
  using lookup_index index_names_inv by blast

lemma only_Some: "only C = Some i \<longleftrightarrow> C = {i}"
  by (auto simp: only_def is_singleton_def)

lemma bearing_ids: "i \<in> bearing f N k \<Longrightarrow> \<exists>pkg n. (pkg, n) \<in> N \<and> nn_id n = i \<and> key pkg (f n) = k"
  by (auto simp: bearing_def)

lemma named_ids:
  assumes "named N pkg name = Some i"
  shows "\<exists>pkg' n. (pkg', n) \<in> N \<and> nn_id n = i \<and> (key pkg' (nn_qualified_name n) = key pkg name \<or> key pkg' (nn_name n) = key pkg name)"
  using assms bearing_ids [of i _ N "key pkg name"] unfolding named_def
  by (fastforce simp: only_Some split: option.splits)

text \<open>A package directory holds no NUL, so keys of different packages never meet.\<close>

lemma key_inject:
  assumes "char_of (0 :: nat) \<notin> set pkg" "char_of (0 :: nat) \<notin> set pkg'"
  shows "key pkg n = key pkg' n' \<longleftrightarrow> pkg = pkg' \<and> n = n'"
proof
  assume "key pkg n = key pkg' n'"
  then have "takeWhile (\<lambda>x. x \<noteq> char_of (0 :: nat)) (key pkg n) = takeWhile (\<lambda>x. x \<noteq> char_of (0 :: nat)) (key pkg' n')" by simp
  then have "pkg = pkg'" unfolding key_def by (simp only: takeWhile_neq [OF assms(1)] takeWhile_neq [OF assms(2)])
  with \<open>key pkg n = key pkg' n'\<close> show "pkg = pkg' \<and> n = n'" by (simp add: key_def)
qed simp

text \<open>
  Leaving out nodes that bear none of the names looked up changes no answer: the re-resolution
  pass, which fetches only the candidates, sees the ambiguities the whole graph has.
\<close>

lemma named_restrict:
  assumes "name \<in> names" "\<forall>(pkg', n) \<in> N. char_of (0 :: nat) \<notin> set pkg'" "char_of (0 :: nat) \<notin> set pkg"
  shows "named {(pkg', n). (pkg', n) \<in> N \<and> (nn_name n \<in> names \<or> nn_qualified_name n \<in> names)} pkg name = named N pkg name"
proof -
  let ?M = "{(pkg', n). (pkg', n) \<in> N \<and> (nn_name n \<in> names \<or> nn_qualified_name n \<in> names)}"
  have "bearing nn_qualified_name ?M (key pkg name) = bearing nn_qualified_name N (key pkg name)"
    "bearing nn_name ?M (key pkg name) = bearing nn_name N (key pkg name)"
    using assms unfolding bearing_def by (fastforce simp: key_inject intro!: arg_cong [of _ _ "image nn_id"])+
  then show ?thesis by (simp add: named_def cong: option.case_cong)
qed

end
