(* ===== verification/IdScheme.thy ===== *)
theory IdScheme
  imports Text
begin

text \<open>
  \<open>graph/idScheme.ts\<close>: the entity id derived from a file, a qualified name and the module name
  of the file; the id of an unresolved edge; the path of a node's markdown file; and the rewriting
  of ids written before schema 8. Paths are POSIX paths (\<open>toPosix\<close> is the identity), names are
  trimmed of ASCII white space. Shown here: what two entities with one id have in common, and that
  the rewriting of old ids is exact.
\<close>

subsection \<open>Scopes\<close>

definition slash :: "char \<Rightarrow> bool" where
  "slash c \<longleftrightarrow> c = CHR ''/''"

text \<open>\<open>replace(/^\.\/+/, "")\<close>\<close>

fun dot_slashes :: "string \<Rightarrow> string" where
  "dot_slashes (c # d # s) = (if c = CHR ''.'' \<and> slash d then dropWhile slash s else c # d # s)"
| "dot_slashes s = s"

definition path_parts :: "string \<Rightarrow> string list" where
  "path_parts f = filter (\<lambda>p. p \<noteq> []) (split_on slash (dropWhile slash (dot_slashes f)))"

definition scopeForFile :: "string \<Rightarrow> string" where
  "scopeForFile f = (let parts = path_parts f in if parts = [] then [] else joined (CHR ''/'') (butlast parts))"

text \<open>The first \<open>src\<close> segment was left out before schema 8.\<close>

definition legacyScopeForFile :: "string \<Rightarrow> string" where
  "legacyScopeForFile f =
     (let parts = path_parts f in if parts = [] then [] else joined (CHR ''/'') (remove1 ''src'' (butlast parts)))"

definition under :: "string \<Rightarrow> string \<Rightarrow> string" where
  "under scope local = (if scope \<noteq> [] then scope @ CHR ''/'' # local else local)"

definition remapLegacyId :: "string \<Rightarrow> string \<Rightarrow> string option" where
  "remapLegacyId oldId f =
     (let legacy = legacyScopeForFile f;
          local = (if legacy = [] then Some oldId
                   else if prefix (legacy @ ''/'') oldId then Some (drop (length legacy + 1) oldId) else None)
      in case local of
           None \<Rightarrow> None
         | Some l \<Rightarrow> if l = [] then None else Some (under (scopeForFile f) l))"

subsection \<open>Ids\<close>

text \<open>No dot, or one in front only: the segment stays.\<close>

definition stripExt :: "string \<Rightarrow> string" where
  "stripExt segment = (if CHR ''.'' \<in> set (tl segment) then beforeLast (CHR ''.'') segment else segment)"

definition unqualified :: "string \<Rightarrow> string option \<Rightarrow> string \<Rightarrow> string" where
  "unqualified moduleSegment kind qn =
     (if moduleSegment \<noteq> [] \<and> kind \<noteq> Some ''method'' \<and> prefix (moduleSegment @ ''.'') qn
      then drop (length moduleSegment + 1) qn else qn)"

definition needsPrefix :: "string \<Rightarrow> string option \<Rightarrow> string \<Rightarrow> bool" where
  "needsPrefix moduleSegment kind qn \<longleftrightarrow>
     moduleSegment \<noteq> [] \<and> \<not> prefix (moduleSegment @ ''/'') qn \<and>
     (moduleSegment \<noteq> qn \<or> kind \<noteq> Some ''module'' \<and> kind \<noteq> None)"

definition localPath :: "string \<Rightarrow> string option \<Rightarrow> string \<Rightarrow> string" where
  "localPath moduleSegment kind qn =
     (let q = unqualified moduleSegment kind qn
      in if needsPrefix moduleSegment kind q then moduleSegment @ CHR ''/'' # q else q)"

definition deriveEntityId :: "string \<Rightarrow> string \<Rightarrow> string option \<Rightarrow> string option \<Rightarrow> string" where
  "deriveEntityId f qualifiedName moduleName kind =
     (let scope = scopeForFile f; qn = trim qualifiedName
      in if qn = [] then under scope (stripExt (last (split_on slash f)))
         else under scope (localPath (case moduleName of None \<Rightarrow> [] | Some m \<Rightarrow> trim m) kind qn))"

definition unresolvedEdgeId :: "string \<Rightarrow> string" where
  "unresolvedEdgeId dstName = ''?:'' @ dstName"

definition path_safe :: "char \<Rightarrow> bool" where
  "path_safe c \<longleftrightarrow> (let n = of_char c :: nat in
     65 \<le> n \<and> n \<le> 90 \<or> 97 \<le> n \<and> n \<le> 122 \<or> 48 \<le> n \<and> n \<le> 57 \<or> c \<in> set ''_.-'')"

definition sanitizeSegment :: "string \<Rightarrow> string" where
  "sanitizeSegment s = map (\<lambda>c. if path_safe c then c else CHR ''_'') s"

definition nodeMarkdownPath :: "string \<Rightarrow> string" where
  "nodeMarkdownPath i =
     (let parts = map sanitizeSegment (split_on slash i)
      in joined (CHR ''/'') (butlast parts @ [last parts @ ''.md'']))"

subsection \<open>An id is a path\<close>

lemma slash_iff [simp]: "slash c \<longleftrightarrow> c = CHR ''/''"
  by (simp add: slash_def)

lemma split_on_slash: "p \<in> set (split_on slash s) \<Longrightarrow> CHR ''/'' \<notin> set p"
  using split_on_parts [of slash s] by auto

definition directory :: "string \<Rightarrow> string list" where
  "directory f = butlast (path_parts f)"

lemma directory_parts: "p \<in> set (directory f) \<Longrightarrow> p \<noteq> [] \<and> CHR ''/'' \<notin> set p"
  by (auto simp: directory_def path_parts_def dest!: in_set_butlastD dest: split_on_slash)

lemma scope_directory: "scopeForFile f = joined (CHR ''/'') (directory f)"
  by (cases "path_parts f") (simp_all add: scopeForFile_def directory_def joined_def)

lemma scope_empty: "scopeForFile f = [] \<longleftrightarrow> directory f = []"
  using directory_parts [of "[]" f] by (auto simp: scope_directory joined_empty)

lemma under_scope: "ws \<noteq> [] \<Longrightarrow> under (scopeForFile f) (joined (CHR ''/'') ws) = joined (CHR ''/'') (directory f @ ws)"
  by (auto simp: under_def scope_empty joined_append) (simp add: scope_directory)

text \<open>A name that is one segment: not empty, trimmed, without a slash.\<close>

definition segment :: "string \<Rightarrow> bool" where
  "segment s \<longleftrightarrow> s \<noteq> [] \<and> trim s = s \<and> CHR ''/'' \<notin> set s"

definition entity_kind :: "string option \<Rightarrow> bool" where
  "entity_kind k \<longleftrightarrow> k \<noteq> None \<and> k \<noteq> Some ''module''"

lemma unqualified_no_slash: "CHR ''/'' \<notin> set q \<Longrightarrow> CHR ''/'' \<notin> set (unqualified m k q)"
  by (auto simp: unqualified_def dest: in_set_dropD)

lemma entity_path:
  assumes "segment m" "segment q" "entity_kind k"
  shows "deriveEntityId f q (Some m) k = joined (CHR ''/'') (directory f @ [m, unqualified m k q])"
proof -
  have "\<not> prefix (m @ ''/'') (unqualified m k q)"
    using unqualified_no_slash [of q m k] assms(2) by (auto simp: segment_def prefix_def)
  then have "localPath m k q = joined (CHR ''/'') [m, unqualified m k q]"
    using assms by (auto simp: localPath_def needsPrefix_def segment_def entity_kind_def joined_def Let_def)
  then show ?thesis using assms by (simp add: deriveEntityId_def segment_def Let_def under_scope)
qed

lemma module_path:
  assumes "segment m"
  shows "deriveEntityId f m None (Some ''module'') = joined (CHR ''/'') (directory f @ [m])"
proof -
  have "localPath [] (Some ''module'') m = joined (CHR ''/'') [m]"
    by (simp add: localPath_def needsPrefix_def unqualified_def joined_def)
  then show ?thesis using assms by (simp add: deriveEntityId_def segment_def Let_def under_scope)
qed

lemma paths_inject:
  assumes "ws \<noteq> []" "us \<noteq> []" "\<And>w. w \<in> set ws \<union> set us \<Longrightarrow> CHR ''/'' \<notin> set w"
  shows "joined (CHR ''/'') (directory f @ ws) = joined (CHR ''/'') (directory g @ us) \<longleftrightarrow> directory f @ ws = directory g @ us"
  by (rule joined_inject) (use assms directory_parts in auto)



text \<open>
  A definition nested in a function that bears the name of its file is qualified by it with a
  slash; its id is then the id of the file's own definition of that name.
\<close>

theorem nested_overwrites_sibling:
  "deriveEntityId ''src/App.tsx'' ''App/save'' (Some ''App'') (Some ''function'')
    = deriveEntityId ''src/App.tsx'' ''save'' (Some ''App'') (Some ''function'')"
  by code_simp

subsection \<open>Old ids\<close>

text \<open>
  An old id is rewritten exactly when it lies under the scope its file had before schema 8, and
  then only the scope changes; every other id is left alone.
\<close>

theorem remap_exact:
  "remapLegacyId old f = Some new \<longleftrightarrow>
    (\<exists>l. l \<noteq> [] \<and> old = under (legacyScopeForFile f) l \<and> new = under (scopeForFile f) l)"
proof (cases "legacyScopeForFile f = []")
  case True
  then show ?thesis by (auto simp: remapLegacyId_def under_def Let_def)
next
  case False
  then show ?thesis by (auto simp: remapLegacyId_def Let_def under_def [of "legacyScopeForFile f"] prefix_def split: if_splits)
qed

end
