(* ===== verification/Workspace.thy ===== *)
theory Workspace
  imports IdScheme
begin

text \<open>
  \<open>graph/workspace.ts\<close>: the packages of a monorepo, and the paths in the repository that a bare
  specifier may mean. The packages themselves are read from manifests (\<open>WorkspaceMap.load\<close>), which
  is not modelled; a manifest's \<open>exports\<close> is its JSON value, with the members in the order of
  \<open>Object.entries\<close>. The replacement of \<open>*\<close> is literal: text with \<open>$\<close> pairs, which
  \<open>String.replace\<close> would interpret, is left out. Shown here: a file belongs to the package with
  the longest directory above it.
\<close>

record workspace_package =
  wp_name :: string
  wp_dir :: string
  wp_exports :: "json option"
  wp_main :: "string option"
  wp_module :: "string option"

record workspace_map =
  by_name :: "(string \<times> workspace_package) list"
  dirsLongestFirst :: "string list"

definition backslash_slash :: "string \<Rightarrow> string" where
  "backslash_slash p = map (\<lambda>c. if c = CHR 0x5C then CHR ''/'' else c) p"

definition strip_trailing :: "string \<Rightarrow> string" where
  "strip_trailing p = rev (dropWhile slash (rev p))"

fun single_slashes :: "string \<Rightarrow> string" where
  "single_slashes (c # d # s) = (if slash c \<and> slash d then single_slashes (d # s) else c # single_slashes (d # s))"
| "single_slashes s = s"

definition posixNorm :: "string \<Rightarrow> string" where
  "posixNorm p = single_slashes (strip_trailing (dot_slashes (backslash_slash p)))"

text \<open>The string leaves, no deeper than four levels.\<close>

fun collect_targets :: "nat \<Rightarrow> json \<Rightarrow> string list" where
  "collect_targets 0 v = []"
| "collect_targets (Suc room) v =
     (case v of
        JStr s \<Rightarrow> [s]
      | JArr xs \<Rightarrow> concat (map (collect_targets room) xs)
      | JObj kvs \<Rightarrow> concat (map (\<lambda>(_, x). collect_targets room x) kvs)
      | _ \<Rightarrow> [])"

definition collectTargetStrings :: "json \<Rightarrow> string list" where
  "collectTargetStrings v = collect_targets 5 v"

definition workspace_of :: "workspace_package list \<Rightarrow> workspace_map" where
  "workspace_of packages =
     \<lparr>by_name = fold (\<lambda>p m. if map_of m (wp_name p) = None then m @ [(wp_name p, p)] else m) packages [],
      dirsLongestFirst = js_sort (\<lambda>a b. int (length b) - int (length a)) (fold set_add (map wp_dir packages) [])\<rparr>"

definition packageForFile :: "workspace_map \<Rightarrow> string \<Rightarrow> string" where
  "packageForFile ws f =
     (case List.find (\<lambda>dir. prefix (dir @ ''/'') (posixNorm f)) (dirsLongestFirst ws) of Some dir \<Rightarrow> dir | None \<Rightarrow> [])"

definition matchSpecifier :: "workspace_map \<Rightarrow> string \<Rightarrow> (workspace_package \<times> string) option" where
  "matchSpecifier ws spec =
     (if by_name ws = [] \<or> spec = [] \<or> prefix ''.'' spec then None
      else case map_of (by_name ws) spec of
        Some exact \<Rightarrow> Some (exact, [])
      | None \<Rightarrow>
          (case fold (\<lambda>(name, pkg) best.
              if prefix (name @ ''/'') spec \<and> (case best of None \<Rightarrow> True | Some b \<Rightarrow> length (wp_name b) < length name)
              then Some pkg else best) (by_name ws) None of
             None \<Rightarrow> None
           | Some best \<Rightarrow> Some (best, drop (length (wp_name best) + 1) spec)))"

text \<open>The text at the star of a pattern whose two ends match, and a target with it put in.\<close>

definition star_match :: "string \<Rightarrow> string \<Rightarrow> string \<Rightarrow> string option" where
  "star_match pre post s =
     (if prefix pre s \<and> suffix post s \<and> length pre + length post \<le> length s
      then Some (take (length s - length post - length pre) (drop (length pre) s)) else None)"

definition fill_star :: "string \<Rightarrow> string \<Rightarrow> string" where
  "fill_star matched t =
     (if CHR ''*'' \<in> set t
      then takeWhile (\<lambda>c. c \<noteq> CHR ''*'') t @ matched @ tl (dropWhile (\<lambda>c. c \<noteq> CHR ''*'') t) else t)"

definition wildcard_targets :: "string \<Rightarrow> string \<times> json \<Rightarrow> string list" where
  "wildcard_targets subpath kv = (case kv of (k, value) \<Rightarrow>
     if CHR ''*'' \<notin> set k \<or> \<not> prefix ''./'' k then []
     else case star_match (drop 2 (takeWhile (\<lambda>c. c \<noteq> CHR ''*'') k)) (tl (dropWhile (\<lambda>c. c \<noteq> CHR ''*'') k)) subpath of
       None \<Rightarrow> []
     | Some matched \<Rightarrow> map (fill_star matched) (collectTargetStrings value))"

definition export_targets :: "json option \<Rightarrow> string \<Rightarrow> string list" where
  "export_targets e subpath =
     (case e of
        Some (JStr s) \<Rightarrow> if subpath = [] then collectTargetStrings (JStr s) else []
      | Some (JObj entries) \<Rightarrow>
          let wantKey = (if subpath = [] then ''.'' else ''./'' @ subpath)
          in if \<not> list_ex (\<lambda>(k, _). k = ''.'' \<or> prefix ''./'' k) entries
             then (if subpath = [] then collectTargetStrings (JObj entries) else [])
             else concat (map (\<lambda>(k, value). if k = wantKey then collectTargetStrings value else []) entries)
               @ (if subpath = [] then [] else concat (map (wildcard_targets subpath) entries))
      | _ \<Rightarrow> [])"

definition truthy_list :: "string option \<Rightarrow> string list" where
  "truthy_list x = (case x of Some s \<Rightarrow> if s = [] then [] else [s] | None \<Rightarrow> [])"

definition push_path :: "string \<Rightarrow> string list \<Rightarrow> string list" where
  "push_path p out = (let norm = posixNorm p in if norm = [] then out else set_add norm out)"

definition push_target :: "string \<Rightarrow> string \<Rightarrow> string list \<Rightarrow> string list" where
  "push_target dir t out =
     (let rel = posixNorm t
      in if rel = [] \<or> prefix ''..'' rel then out
         else let out1 = push_path (dir @ ''/'' @ rel) out
              in if prefix ''dist/'' rel then push_path (dir @ ''/src/'' @ drop 5 rel) out1 else out1)"

definition candidatePaths :: "workspace_map \<Rightarrow> string \<Rightarrow> string list" where
  "candidatePaths ws spec =
     (case matchSpecifier ws spec of
        None \<Rightarrow> []
      | Some (pkg, subpath) \<Rightarrow>
          let targets = export_targets (wp_exports pkg) subpath
                @ (if subpath = [] then truthy_list (wp_module pkg) @ truthy_list (wp_main pkg) else [])
                @ (if subpath = [] then [''src/index'', ''index''] else [''src/'' @ subpath, subpath])
          in fold (push_target (wp_dir pkg)) targets [])"

subsection \<open>The package of a file\<close>

interpretation longest: comparator "\<lambda>a b :: string. int (length b) - int (length a)" "\<lambda>_. True"
  by unfold_locales (auto simp: sgn_if)

text \<open>The deepest of the package directories above the file; the empty name when there is none.\<close>

lemma packageForFile_deepest:
  assumes "p \<in> set packages" "prefix (wp_dir p @ ''/'') (posixNorm f)"
  shows "(\<exists>q \<in> set packages. packageForFile (workspace_of packages) f = wp_dir q \<and> prefix (wp_dir q @ ''/'') (posixNorm f))
    \<and> length (wp_dir p) \<le> length (packageForFile (workspace_of packages) f)"
proof -
  let ?ds = "dirsLongestFirst (workspace_of packages)"
  let ?P = "\<lambda>dir. prefix (dir @ ''/'') (posixNorm f)"
  have set: "set ?ds = wp_dir ` set packages" by (simp add: workspace_of_def set_js_sort)
  have sorted: "sorted_wrt (\<lambda>a b. length b \<le> length a) ?ds"
    using longest.sorted_js_sort [of "fold set_add (map wp_dir packages) []"] by (simp add: workspace_of_def)
  have "wp_dir p \<in> set ?ds" using assms(1) set by simp
  then obtain d where d: "List.find ?P ?ds = Some d" using assms(2) by (cases "List.find ?P ?ds") (auto simp: find_None_iff)
  then obtain us vs where l: "?ds = us @ d # vs" "?P d" "\<forall>y \<in> set us. \<not> ?P y" using find_first [OF d] by blast
  have "wp_dir p = d \<or> wp_dir p \<in> set vs" using \<open>wp_dir p \<in> set ?ds\<close> l assms(2) by auto
  then have "length (wp_dir p) \<le> length d" using sorted l(1) by (auto simp: sorted_wrt_append)
  moreover have "d \<in> wp_dir ` set packages" using l(1) set by (metis in_set_conv_decomp)
  ultimately show ?thesis using d l(2) by (auto simp: packageForFile_def)
qed

end
