(* ===== verification/Specifiers.thy ===== *)
theory Specifiers
  imports Workspace
begin

text \<open>
  \<open>graph/specifierResolve.ts\<close>: from a module specifier as it stands in an import to the id of the
  module it means. The parsed \<open>tsconfig.json\<close> of a directory is a parameter (reading and the
  comment-stripping parser are left out; the cache only saves reads), as is the map of workspace
  packages. Shown here: a resolved specifier is always the id of a node of the graph, so no
  import edge points outside it; and normalised paths stay as they are.
\<close>

subsection \<open>Paths\<close>

definition EXTENSIONS :: "string list" where
  "EXTENSIONS = [''.ts'', ''.tsx'', ''.js'', ''.jsx'', ''.astro'', ''.py'', ''.rs'', ''.go'', ''.mts'', ''.cts'', ''.mjs'', ''.cjs'']"

definition norm_step :: "string \<Rightarrow> string list \<Rightarrow> string list" where
  "norm_step seg out =
     (if seg = [] \<or> seg = ''.'' then out
      else if seg = ''..'' then (if out \<noteq> [] \<and> last out \<noteq> ''..'' then butlast out else out @ [''..''])
      else out @ [seg])"

definition normalizePosix :: "string \<Rightarrow> string" where
  "normalizePosix p = joined (CHR ''/'') (fold norm_step (split_on slash p) [])"

definition moduleIdForFile :: "string \<Rightarrow> string option" where
  "moduleIdForFile f =
     (let norm = normalizePosix f; lst = last (split_on slash norm)
      in if lst = [] then None else Some (under (scopeForFile norm) (stripExt lst)))"

definition importPathForFile :: "string \<Rightarrow> string" where
  "importPathForFile f =
     (let segs = filter (\<lambda>p. p \<noteq> []) (split_on slash (normalizePosix f));
          parts = (case dropWhile (\<lambda>p. p \<noteq> ''src'') segs of [] \<Rightarrow> segs | _ # rest \<Rightarrow> rest)
      in if parts = [] then []
         else joined (CHR ''/'')
           (if last parts = ''__init__.py'' \<or> last parts = ''__init__.pyi'' then butlast parts
            else butlast parts @ [stripExt (last parts)]))"

definition isDottedInternalCandidate :: "string \<Rightarrow> bool" where
  "isDottedInternalCandidate spec \<longleftrightarrow>
     \<not> prefix ''.'' spec \<and> CHR ''/'' \<notin> set spec \<and> CHR '':'' \<notin> set spec \<and> \<not> prefix ''@'' spec
     \<and> \<not> list_ex ascii_space spec \<and> spec \<noteq> []"

definition posixDir :: "string \<Rightarrow> string" where
  "posixDir f = (let norm = strip_trailing (backslash_slash f)
     in if CHR ''/'' \<in> set norm then beforeLast (CHR ''/'') norm else [])"

fun first_hit :: "('a \<Rightarrow> 'b option) \<Rightarrow> 'a list \<Rightarrow> 'b option" where
  "first_hit f [] = None"
| "first_hit f (x # xs) = (case f x of Some y \<Rightarrow> Some y | None \<Rightarrow> first_hit f xs)"

text \<open>A dot behind the last slash: the extension goes, and the extensions are tried again.\<close>

definition probeModule :: "(string \<Rightarrow> string option) \<Rightarrow> string \<Rightarrow> string option" where
  "probeModule byFile candidate =
     (let base = normalizePosix candidate;
          dirPrefix = (if base = [] then [] else base @ ''/'');
          name = afterLast (CHR ''/'') base
      in first_hit byFile
           ([base] @ map (\<lambda>ext. base @ ext) EXTENSIONS @ map (\<lambda>ext. dirPrefix @ ''index'' @ ext) EXTENSIONS
            @ (if CHR ''.'' \<in> set name
               then map (\<lambda>ext. beforeLast (CHR ''.'') base @ ext) EXTENSIONS else [])))"

subsection \<open>TypeScript path aliases\<close>

record ts_paths =
  baseDir :: string
  entries :: "(string \<times> string list) list"

definition json_strings :: "json list \<Rightarrow> string list" where
  "json_strings xs = List.map_filter (\<lambda>x. case x of JStr s \<Rightarrow> Some s | _ \<Rightarrow> None) xs"

definition loadTsconfig :: "string \<Rightarrow> json option \<Rightarrow> ts_paths option" where
  "loadTsconfig dir parsed =
     (case Option.bind parsed (member ''compilerOptions'') of
        Some (JObj opts) \<Rightarrow>
          (case map_of opts ''paths'' of
             Some (JObj paths) \<Rightarrow>
               let baseUrl = (case map_of opts ''baseUrl'' of Some (JStr s) \<Rightarrow> s | _ \<Rightarrow> ''.'');
                   es = List.map_filter (\<lambda>(pattern, targets). case targets of
                     JArr ts \<Rightarrow> if json_strings ts = [] then None else Some (pattern, json_strings ts)
                   | _ \<Rightarrow> None) paths
               in if es = [] then None
                  else Some \<lparr>baseDir = normalizePosix (if dir \<noteq> [] then dir @ ''/'' @ baseUrl else baseUrl), entries = es\<rparr>
           | _ \<Rightarrow> None)
      | _ \<Rightarrow> None)"

lemma posixDir_shorter: "d \<noteq> [] \<Longrightarrow> length (posixDir d) < length d"
proof -
  assume "d \<noteq> []"
  let ?n = "strip_trailing (backslash_slash d)"
  have n: "length ?n \<le> length d"
    using length_dropWhile_le [of slash "rev (backslash_slash d)"] by (simp add: strip_trailing_def backslash_slash_def)
  show ?thesis
  proof (cases "CHR ''/'' \<in> set ?n")
    case True
    then have "length (beforeLast (CHR ''/'') ?n) < length ?n" by (subst (2) split_at_last [of "CHR ''/''"]) auto
    with True n show ?thesis by (simp add: posixDir_def)
  next
    case False
    with \<open>d \<noteq> []\<close> show ?thesis by (simp add: posixDir_def)
  qed
qed

function nearest_from :: "(string \<Rightarrow> json option) \<Rightarrow> string \<Rightarrow> ts_paths option" where
  "nearest_from tsconfig dir =
     (case loadTsconfig dir (tsconfig dir) of
        Some p \<Rightarrow> Some p
      | None \<Rightarrow> if dir = [] then None else nearest_from tsconfig (posixDir dir))"
  by auto
termination by (relation "measure (length \<circ> snd)") (auto simp: posixDir_shorter)

declare nearest_from.simps [simp del]

definition nearest :: "(string \<Rightarrow> json option) \<Rightarrow> string \<Rightarrow> string \<Rightarrow> ts_paths option" where
  "nearest tsconfig repoRoot repoRelDir =
     (if repoRoot = [] then None else nearest_from tsconfig (normalizePosix repoRelDir))"

definition expandAlias :: "string \<Rightarrow> ts_paths \<Rightarrow> string list" where
  "expandAlias spec ts = concat (map (\<lambda>(pattern, targets).
     if CHR ''*'' \<in> set pattern
     then (case star_match (takeWhile (\<lambda>c. c \<noteq> CHR ''*'') pattern) (tl (dropWhile (\<lambda>c. c \<noteq> CHR ''*'') pattern)) spec of
             None \<Rightarrow> []
           | Some matched \<Rightarrow> map (\<lambda>t. normalizePosix (baseDir ts @ ''/'' @ fill_star matched t)) targets)
     else if spec = pattern then map (\<lambda>t. normalizePosix (baseDir ts @ ''/'' @ t)) targets
     else []) (entries ts))"

subsection \<open>The resolver\<close>

record node_stub =
  st_id :: string
  st_kind :: string
  st_file :: string

record specifiers =
  byFile :: "string \<Rightarrow> string option"
  byImportPath :: "string \<Rightarrow> string option"
  idSet :: "string list"

definition add_module :: "node_stub \<Rightarrow> (string \<Rightarrow> string option) \<Rightarrow> (string \<Rightarrow> string option)" where
  "add_module n m = (if st_kind n = ''module'' then m(normalizePosix (st_file n) \<mapsto> st_id n) else m)"

definition add_derived :: "string list \<Rightarrow> node_stub \<Rightarrow> (string \<Rightarrow> string option) \<Rightarrow> (string \<Rightarrow> string option)" where
  "add_derived ids n m =
     (let f = normalizePosix (st_file n)
      in if m f \<noteq> None then m
         else case moduleIdForFile f of
           Some derived \<Rightarrow> if derived \<noteq> [] \<and> derived \<in> set ids then m(f \<mapsto> derived) else m
         | None \<Rightarrow> m)"

definition add_import_path :: "node_stub \<Rightarrow> (string \<Rightarrow> string option) \<Rightarrow> (string \<Rightarrow> string option)" where
  "add_import_path n m =
     (if st_kind n \<noteq> ''module'' then m
      else let k = importPathForFile (st_file n) in if k \<noteq> [] \<and> m k = None then m(k \<mapsto> st_id n) else m)"

definition specifiers_of :: "node_stub list \<Rightarrow> specifiers" where
  "specifiers_of nodes =
     (let ids = map st_id nodes
      in \<lparr>byFile = fold (add_derived ids) nodes (fold add_module nodes (\<lambda>_. None)),
          byImportPath = fold add_import_path nodes (\<lambda>_. None), idSet = ids\<rparr>)"

text \<open>The longest prefix of the segments that is a module, of at most \<open>k\<close> segments.\<close>

primrec dotted_prefix :: "specifiers \<Rightarrow> string list \<Rightarrow> nat \<Rightarrow> string option" where
  "dotted_prefix r segs 0 = None"
| "dotted_prefix r segs (Suc k) =
     (case byImportPath r (joined (CHR ''/'') (take (Suc k) segs)) of
        None \<Rightarrow> dotted_prefix r segs k
      | Some moduleId \<Rightarrow>
          let rest = drop (Suc k) segs;
              full = moduleId @ ''/'' @ joined (CHR ''/'') rest;
              lst = moduleId @ ''/'' @ last rest
          in Some (if rest = [] then moduleId
                   else if full \<in> set (idSet r) then full
                   else if lst \<in> set (idSet r) then lst else moduleId))"

definition resolveDotted :: "specifiers \<Rightarrow> string \<Rightarrow> string option" where
  "resolveDotted r spec =
     (let segs = filter (\<lambda>p. p \<noteq> []) (split_on (\<lambda>c. c = CHR ''.'') spec) in dotted_prefix r segs (length segs))"

definition relative_spec :: "string \<Rightarrow> bool" where
  "relative_spec spec \<longleftrightarrow> prefix ''./'' spec \<or> prefix ''../'' spec \<or> spec = ''.'' \<or> spec = ''..''"

text \<open>The first segment \<open>dist\<close> that is not the last one becomes \<open>src\<close>.\<close>

fun swap_dist :: "string list \<Rightarrow> string list" where
  "swap_dist (s # t # r) = (if s = ''dist'' then ''src'' # t # r else s # swap_dist (t # r))"
| "swap_dist r = r"

definition resolve_relative :: "specifiers \<Rightarrow> string \<Rightarrow> string \<Rightarrow> string option" where
  "resolve_relative r srcDir spec =
     (let joined_path = (if srcDir \<noteq> [] then srcDir @ ''/'' @ spec else spec)
      in case probeModule (byFile r) joined_path of
           Some direct \<Rightarrow> Some direct
         | None \<Rightarrow>
             let norm = normalizePosix joined_path; swapped = joined (CHR ''/'') (swap_dist (split_on slash norm))
             in if swapped \<noteq> norm then probeModule (byFile r) swapped else None)"

record resolve_env =
  repoRoot :: string
  tsconfigAt :: "string \<Rightarrow> json option"
  workspaces :: workspace_map

definition resolve_bare :: "resolve_env \<Rightarrow> specifiers \<Rightarrow> string \<Rightarrow> string \<Rightarrow> string option" where
  "resolve_bare env r srcDir spec =
     (case (if isDottedInternalCandidate spec then resolveDotted r spec else None) of
        Some hit \<Rightarrow> Some hit
      | None \<Rightarrow>
          (case (case nearest (tsconfigAt env) (repoRoot env) srcDir of
                   None \<Rightarrow> None
                 | Some ts \<Rightarrow> first_hit (probeModule (byFile r)) (expandAlias spec ts)) of
             Some hit \<Rightarrow> Some hit
           | None \<Rightarrow> first_hit (probeModule (byFile r)) (candidatePaths (workspaces env) spec)))"

definition resolve_spec :: "resolve_env \<Rightarrow> specifiers \<Rightarrow> string \<Rightarrow> string \<Rightarrow> string option" where
  "resolve_spec env r srcFile spec =
     (if spec = [] then None
      else let srcDir = posixDir (backslash_slash srcFile)
           in if relative_spec spec then resolve_relative r srcDir spec
              else if prefix ''/'' spec then None
              else resolve_bare env r srcDir spec)"

subsection \<open>Normalised paths\<close>

definition canonical_parts :: "string list \<Rightarrow> bool" where
  "canonical_parts out \<longleftrightarrow>
     (\<forall>p \<in> set out. p \<noteq> [] \<and> p \<noteq> ''.'' \<and> CHR ''/'' \<notin> set p) \<and> (\<exists>n rest. out = replicate n ''..'' @ rest \<and> ''..'' \<notin> set rest)"

lemma canonical_Nil [simp]: "canonical_parts []"
  by (simp add: canonical_parts_def)

lemma canonical_partsI:
  "\<forall>p \<in> set out. p \<noteq> [] \<and> p \<noteq> ''.'' \<and> CHR ''/'' \<notin> set p \<Longrightarrow> out = replicate n ''..'' @ rest \<Longrightarrow> ''..'' \<notin> set rest
    \<Longrightarrow> canonical_parts out"
  unfolding canonical_parts_def by (intro conjI exI)

lemma canonical_snoc:
  assumes "canonical_parts out" "p \<noteq> []" "p \<noteq> ''.''" "p \<noteq> ''..''" "CHR ''/'' \<notin> set p"
  shows "canonical_parts (out @ [p])"
proof -
  obtain n rest where o: "out = replicate n ''..'' @ rest" "''..'' \<notin> set rest" using assms(1) unfolding canonical_parts_def by blast
  show ?thesis
    by (rule canonical_partsI [of _ n "rest @ [p]"]) (use assms o in \<open>simp_all add: canonical_parts_def\<close>)
qed

lemma canonical_up:
  assumes "canonical_parts out"
  shows "canonical_parts (if out \<noteq> [] \<and> last out \<noteq> ''..'' then butlast out else out @ [''..''])"
proof -
  obtain n rest where o: "out = replicate n ''..'' @ rest" "''..'' \<notin> set rest" using assms unfolding canonical_parts_def by blast
  have ok: "\<forall>p \<in> set out. p \<noteq> [] \<and> p \<noteq> ''.'' \<and> CHR ''/'' \<notin> set p" using assms by (simp add: canonical_parts_def)
  show ?thesis
  proof (cases "rest = []")
    case True
    then have out: "out = replicate n ''..''" using o(1) by simp
    then have "\<not> (out \<noteq> [] \<and> last out \<noteq> ''..'')" by (cases n) (simp_all add: last_replicate del: replicate_Suc)
    moreover have "canonical_parts (out @ [''..''])"
      by (rule canonical_partsI [of _ "Suc n" "[]"]) (use ok out in \<open>auto simp: replicate_append_same\<close>)
    ultimately show ?thesis by (simp only: if_False)
  next
    case False
    then have "last out \<in> set rest" using o(1) by simp
    then have "out \<noteq> [] \<and> last out \<noteq> ''..''" using o False by (metis append_is_Nil_conv last_appendR last_in_set)
    moreover have "canonical_parts (butlast out)"
      by (rule canonical_partsI [of _ n "butlast rest"])
        (use ok o False in \<open>auto simp: butlast_append dest: in_set_butlastD\<close>)
    ultimately show ?thesis by (simp only: if_True simp_thms)
  qed
qed

lemma canonical_step: "canonical_parts out \<Longrightarrow> CHR ''/'' \<notin> set seg \<Longrightarrow> canonical_parts (norm_step seg out)"
  using canonical_snoc [of out seg] canonical_up [of out] by (simp add: norm_step_def)

lemma canonical_fold: "canonical_parts out \<Longrightarrow> \<forall>seg \<in> set segs. CHR ''/'' \<notin> set seg \<Longrightarrow> canonical_parts (fold norm_step segs out)"
  by (induction segs arbitrary: out) (simp_all add: canonical_step)

lemma norm_step_up: "norm_step ''..'' (replicate n ''..'') = replicate (Suc n) ''..''"
  by (cases n) (simp_all add: norm_step_def replicate_append_same [symmetric])

lemma fold_norm_up: "fold norm_step (replicate n ''..'') (replicate m ''..'') = replicate (n + m) ''..''"
proof (induction n arbitrary: m)
  case (Suc n)
  have "fold norm_step (replicate (Suc n) ''..'') (replicate m ''..'') = fold norm_step (replicate n ''..'') (replicate (Suc m) ''..'')"
    by (simp only: replicate_Suc fold_simps norm_step_up [unfolded replicate_Suc])
  also have "\<dots> = replicate (n + Suc m) ''..''" by (rule Suc.IH)
  finally show ?case by simp
qed simp

lemma fold_norm_plain:
  "\<forall>p \<in> set ps. p \<noteq> [] \<and> p \<noteq> ''.'' \<and> p \<noteq> ''..'' \<Longrightarrow> fold norm_step ps out = out @ ps"
  by (induction ps arbitrary: out) (simp_all add: norm_step_def)

lemma fold_norm_canonical:
  assumes "canonical_parts ps"
  shows "fold norm_step ps [] = ps"
proof -
  obtain n rest where p: "ps = replicate n ''..'' @ rest" "''..'' \<notin> set rest"
    "\<forall>p \<in> set ps. p \<noteq> [] \<and> p \<noteq> ''.''" using assms by (auto simp: canonical_parts_def)
  then have "fold norm_step rest (replicate n ''..'') = replicate n ''..'' @ rest"
    by (intro fold_norm_plain) auto
  then show ?thesis using p(1) fold_norm_up [of n 0] by simp
qed

lemma normalize_parts:
  obtains ps where "canonical_parts ps" "normalizePosix p = joined (CHR ''/'') ps"
proof
  show "canonical_parts (fold norm_step (split_on slash p) [])"
    by (intro canonical_fold ballI) (simp_all add: split_on_slash)
qed (simp add: normalizePosix_def)

lemma split_slash_joined: "ps \<noteq> [] \<Longrightarrow> \<forall>p \<in> set ps. CHR ''/'' \<notin> set p \<Longrightarrow> split_on slash (joined (CHR ''/'') ps) = ps"
  using split_joined [of ps "CHR ''/''"] by (simp add: slash_def [abs_def])

lemma normalize_canonical: "canonical_parts ps \<Longrightarrow> normalizePosix (joined (CHR ''/'') ps) = joined (CHR ''/'') ps"
proof (cases "ps = []")
  case True
  then show ?thesis by (simp add: normalizePosix_def joined_def norm_step_def)
next
  case False
  assume c: "canonical_parts ps"
  then have "split_on slash (joined (CHR ''/'') ps) = ps" using False split_slash_joined by (simp add: canonical_parts_def)
  then show ?thesis using fold_norm_canonical [OF c] by (simp add: normalizePosix_def)
qed

lemma normalize_idem [simp]: "normalizePosix (normalizePosix p) = normalizePosix p"
  using normalize_parts [of p] normalize_canonical by metis

subsection \<open>Only nodes of the graph\<close>

definition targets_in :: "string set \<Rightarrow> specifiers \<Rightarrow> bool" where
  "targets_in I r \<longleftrightarrow> ran (byFile r) \<subseteq> I \<and> ran (byImportPath r) \<subseteq> I \<and> set (idSet r) = I"

lemma first_hit_Some: "first_hit f xs = Some y \<Longrightarrow> \<exists>x \<in> set xs. f x = Some y"
  by (induction xs) (auto split: option.splits)

lemma ran_fold:
  assumes "\<And>x m. x \<in> set xs \<Longrightarrow> ran m \<subseteq> I \<Longrightarrow> ran (f x m) \<subseteq> I" "ran m \<subseteq> I"
  shows "ran (fold f xs m) \<subseteq> I"
  using assms
proof (induction xs arbitrary: m)
  case (Cons a xs)
  then have "ran (f a m) \<subseteq> I" by simp
  with Cons show ?case by simp
qed simp

lemma ran_upd: "ran m \<subseteq> I \<Longrightarrow> i \<in> I \<Longrightarrow> ran (m(k \<mapsto> i)) \<subseteq> I"
  by (auto simp: ran_def)

lemma specifiers_of_targets: "targets_in (st_id ` set nodes) (specifiers_of nodes)"
proof -
  let ?I = "st_id ` set nodes"
  have "ran (fold add_module nodes (\<lambda>_. None)) \<subseteq> ?I"
    by (rule ran_fold) (simp_all add: add_module_def ran_upd)
  then have "ran (fold (add_derived (map st_id nodes)) nodes (fold add_module nodes (\<lambda>_. None))) \<subseteq> ?I"
    by (rule ran_fold [rotated]) (simp_all add: add_derived_def Let_def ran_upd split: option.splits)
  moreover have "ran (fold add_import_path nodes (\<lambda>_. None)) \<subseteq> ?I"
    by (rule ran_fold) (simp_all add: add_import_path_def Let_def ran_upd)
  ultimately show ?thesis by (simp add: targets_in_def specifiers_of_def Let_def)
qed

lemma probe_in: "targets_in I r \<Longrightarrow> probeModule (byFile r) c = Some i \<Longrightarrow> i \<in> I"
  unfolding probeModule_def Let_def targets_in_def ran_def by (blast dest: first_hit_Some)

lemma dotted_in: "targets_in I r \<Longrightarrow> dotted_prefix r segs k = Some i \<Longrightarrow> i \<in> I"
  by (induction k) (auto simp: targets_in_def ran_def Let_def split: option.splits if_splits)

lemma resolve_spec_in: "targets_in I r \<Longrightarrow> resolve_spec env r f s = Some i \<Longrightarrow> i \<in> I"
  by (auto simp: resolve_spec_def resolve_relative_def resolve_bare_def resolveDotted_def Let_def
      intro: probe_in dotted_in dest!: first_hit_Some split: if_splits option.splits)

end
