(* ===== verification/EdgeResolver.thy ===== *)
theory EdgeResolver
  imports NameIndex Specifiers
begin

text \<open>
  \<open>graph/edgeResolver.ts\<close>: the second pass of an ingest, from the names in raw edges to the ids of
  nodes, and the sweep that tries unresolved edges again. The phases of the class \<open>EdgeResolver\<close>
  (nodes, seal, imports, edges) are functions on the record \<open>edge_resolver\<close>; \<open>resolveOne\<close> before
  the seal throws. Line and column are whole numbers. Of the sweep's candidate rows only their set matters, so
  the chunks they are fetched in are left out. Shown here: every resolved end is a node that was
  offered; a name bound by an import from outside is never matched by name; without a witness an
  edge stays in its package; and the sweep changes nothing the second time.
\<close>

subsection \<open>Raw edges and outcomes\<close>

record raw_edge =
  re_src_file :: string
  re_src_name :: string
  re_dst_name :: string
  re_kind :: string
  re_weight :: "int option"
  re_receiver :: "string option"
  re_receiver_chain :: "string list option"
  re_local :: "string list option"
  re_import_aliases :: "(string \<times> string) list option"
  re_line :: "int option"
  re_col :: "int option"

record edge_outcome =
  oc_edge :: graph_edge
  oc_resolved :: bool
  oc_site :: "call_site_row option"

definition isCallEdgeKind :: "string \<Rightarrow> bool" where
  "isCallEdgeKind kind \<longleftrightarrow> kind = ''call'' \<or> suffix ''_call'' kind"

subsection \<open>The resolver\<close>

record import_binding =
  ib_local :: "string list"
  ib_spec :: string
  ib_aliases :: "(string \<times> string) list"

record edge_resolver =
  nodeStubs :: "node_stub list"
  byFileName :: "string \<Rightarrow> string option"
  byFileQn :: "string \<Rightarrow> string option"
  pkg_names :: name_index
  byId :: "string list"
  pkgById :: "string \<Rightarrow> string option"
  specResolver :: "specifiers option"
  importsByFile :: "string \<Rightarrow> import_binding list option"

definition new_resolver :: edge_resolver where
  "new_resolver = \<lparr>nodeStubs = [], byFileName = (\<lambda>_. None), byFileQn = (\<lambda>_. None), pkg_names = empty_index,
     byId = [], pkgById = (\<lambda>_. None), specResolver = None, importsByFile = (\<lambda>_. None)\<rparr>"

definition pkgOf :: "resolve_env \<Rightarrow> string \<Rightarrow> string" where
  "pkgOf env f = packageForFile (workspaces env) f"

definition file_key :: "string \<Rightarrow> string \<Rightarrow> string" where
  "file_key f name = f @ ''::'' @ name"

definition name_of :: "graph_node \<Rightarrow> name_node" where
  "name_of n = \<lparr>nn_id = gn_id n, nn_name = gn_name n, nn_qualified_name = gn_qualified_name n, nn_kind = gn_kind n\<rparr>"

definition addNode :: "resolve_env \<Rightarrow> graph_node \<Rightarrow> edge_resolver \<Rightarrow> edge_resolver" where
  "addNode env n r = r\<lparr>
     nodeStubs := nodeStubs r @ [\<lparr>st_id = gn_id n, st_kind = gn_kind n, st_file = gn_file n\<rparr>],
     byFileName := (byFileName r)(file_key (gn_file n) (gn_name n) \<mapsto> gn_id n),
     byFileQn := (byFileQn r)(file_key (gn_file n) (gn_qualified_name n) \<mapsto> gn_id n),
     byId := set_add (gn_id n) (byId r),
     pkgById := (pkgById r)(gn_id n \<mapsto> pkgOf env (gn_file n)),
     pkg_names := snd (add_name (pkgOf env (gn_file n)) (name_of n) (pkg_names r))\<rparr>"

definition sealNodes :: "edge_resolver \<Rightarrow> edge_resolver" where
  "sealNodes r = (if specResolver r \<noteq> None then r
     else r\<lparr>specResolver := Some (specifiers_of (nodeStubs r)), nodeStubs := []\<rparr>)"

definition addImportEdge :: "raw_edge \<Rightarrow> edge_resolver \<Rightarrow> edge_resolver" where
  "addImportEdge e r =
     (case re_local e of
        Some (l # ls) \<Rightarrow>
          if re_kind e \<noteq> ''import'' then r
          else let arr = (case importsByFile r (re_src_file e) of Some a \<Rightarrow> a | None \<Rightarrow> []);
                   aliases = (case re_import_aliases e of Some ps \<Rightarrow> fold (\<lambda>(a, b). AList.update a b) ps [] | None \<Rightarrow> [])
               in r\<lparr>importsByFile := (importsByFile r)(re_src_file e \<mapsto>
                    arr @ [\<lparr>ib_local = l # ls, ib_spec = re_dst_name e, ib_aliases = aliases\<rparr>])\<rparr>
      | _ \<Rightarrow> r)"

definition nonempty :: "string option \<Rightarrow> string option" where
  "nonempty x = (case x of Some s \<Rightarrow> if s = [] then None else Some s | None \<Rightarrow> None)"

definition or_else :: "'a option \<Rightarrow> 'a option \<Rightarrow> 'a option" where
  "or_else x y = (case x of Some a \<Rightarrow> Some a | None \<Rightarrow> y)"

definition resolveByName :: "resolve_env \<Rightarrow> edge_resolver \<Rightarrow> string \<Rightarrow> string \<Rightarrow> string option" where
  "resolveByName env r srcFile dstName =
     or_else (nonempty (byFileName r (file_key srcFile dstName))) (lookup_name (pkgOf env srcFile) dstName (pkg_names r))"

definition sourceOf :: "edge_resolver \<Rightarrow> specifiers \<Rightarrow> raw_edge \<Rightarrow> string option" where
  "sourceOf r sp e =
     or_else
       (nonempty (or_else (byFileName r (file_key (re_src_file e) (re_src_name e)))
                          (byFileQn r (file_key (re_src_file e) (re_src_name e)))))
       (if re_src_name e = re_src_file e then nonempty (byFile sp (normalizePosix (re_src_file e))) else None)"

text \<open>The import of the file that binds a name.\<close>

definition binding :: "edge_resolver \<Rightarrow> string \<Rightarrow> string \<Rightarrow> import_binding option" where
  "binding r f name =
     (case importsByFile r f of None \<Rightarrow> None | Some imports \<Rightarrow> List.find (\<lambda>imp. name \<in> set (ib_local imp)) imports)"

definition member_root :: "raw_edge \<Rightarrow> string \<Rightarrow> string" where
  "member_root e receiver = (case re_receiver_chain e of Some (root # _) \<Rightarrow> root | _ \<Rightarrow> receiver)"

definition member_candidates :: "raw_edge \<Rightarrow> string \<Rightarrow> import_binding \<Rightarrow> string \<Rightarrow> string list" where
  "member_candidates e receiver imp moduleId =
     (case re_receiver_chain e of
        Some (_ # c # cs) \<Rightarrow> [moduleId @ ''/'' @ joined (CHR ''/'') (c # cs) @ ''/'' @ re_dst_name e]
      | _ \<Rightarrow> (moduleId @ ''/'' @ receiver @ ''/'' @ re_dst_name e)
          # (case nonempty (map_of (ib_aliases imp) receiver) of
               Some exportedRecv \<Rightarrow> if exportedRecv \<noteq> receiver then [moduleId @ ''/'' @ exportedRecv @ ''/'' @ re_dst_name e] else []
             | None \<Rightarrow> []))
     @ [moduleId @ ''/'' @ re_dst_name e]
     @ (if re_receiver_chain e = None \<and> receiver = re_dst_name e then [moduleId] else [])"

definition in_package_of :: "edge_resolver \<Rightarrow> string \<Rightarrow> string \<Rightarrow> string option" where
  "in_package_of r moduleId name =
     lookup_name (case pkgById r moduleId of Some pkg \<Rightarrow> pkg | None \<Rightarrow> []) name (pkg_names r)"

text \<open>A name bound by an import that leads outside is not looked up by name.\<close>

definition memberCall :: "resolve_env \<Rightarrow> edge_resolver \<Rightarrow> specifiers \<Rightarrow> raw_edge \<Rightarrow> string \<Rightarrow> string option" where
  "memberCall env r sp e receiver =
     (case binding r (re_src_file e) (member_root e receiver) of
        None \<Rightarrow> resolveByName env r (re_src_file e) (re_dst_name e)
      | Some imp \<Rightarrow>
          (case nonempty (resolve_spec env sp (re_src_file e) (ib_spec imp)) of
             None \<Rightarrow> None
           | Some moduleId \<Rightarrow>
               or_else (nonempty (or_else
                   (nonempty (List.find (\<lambda>c. c \<in> set (byId r)) (member_candidates e receiver imp moduleId)))
                   (in_package_of r moduleId (re_dst_name e))))
                 (resolveByName env r (re_src_file e) (re_dst_name e))))"

definition bareCall :: "resolve_env \<Rightarrow> edge_resolver \<Rightarrow> specifiers \<Rightarrow> raw_edge \<Rightarrow> string option" where
  "bareCall env r sp e =
     (case binding r (re_src_file e) (re_dst_name e) of
        None \<Rightarrow> resolveByName env r (re_src_file e) (re_dst_name e)
      | Some imp \<Rightarrow>
          (case nonempty (resolve_spec env sp (re_src_file e) (ib_spec imp)) of
             None \<Rightarrow> None
           | Some moduleId \<Rightarrow>
               let exported = (case map_of (ib_aliases imp) (re_dst_name e) of Some x \<Rightarrow> x | None \<Rightarrow> re_dst_name e);
                   direct = moduleId @ ''/'' @ exported
               in or_else (nonempty (if direct \<in> set (byId r) then Some direct else in_package_of r moduleId exported))
                    (resolveByName env r (re_src_file e) (re_dst_name e))))"

definition destinationOf :: "resolve_env \<Rightarrow> edge_resolver \<Rightarrow> specifiers \<Rightarrow> raw_edge \<Rightarrow> string option" where
  "destinationOf env r sp e =
     nonempty
       (if re_kind e = ''import'' then resolve_spec env sp (re_src_file e) (re_dst_name e)
        else if re_kind e = ''static_call''
        then (case nonempty (re_receiver e) of
                Some receiver \<Rightarrow> memberCall env r sp e receiver
              | None \<Rightarrow> bareCall env r sp e)
        else resolveByName env r (re_src_file e) (re_dst_name e))"

datatype resolver_error = NotSealed

definition outcome_of :: "raw_edge \<Rightarrow> int \<Rightarrow> string \<Rightarrow> string option \<Rightarrow> edge_outcome" where
  "outcome_of e now srcId dst =
     (let weight = (case re_weight e of Some w \<Rightarrow> w | None \<Rightarrow> 1)
      in case dst of
        Some dstId \<Rightarrow>
          \<lparr>oc_edge = \<lparr>ge_src = srcId, ge_dst = dstId, ge_kind = re_kind e, ge_weight = weight, ge_last_seen = now\<rparr>,
           oc_resolved = True,
           oc_site = (case (re_line e, re_col e) of
             (Some line, Some col) \<Rightarrow>
               if isCallEdgeKind (re_kind e)
               then Some \<lparr>site_dst = dstId, site_src = srcId, site_kind = re_kind e, site_file = Some (re_src_file e),
                          site_line = Some line, site_col = Some col\<rparr>
               else None
           | _ \<Rightarrow> None)\<rparr>
      | None \<Rightarrow>
          \<lparr>oc_edge = \<lparr>ge_src = srcId, ge_dst = unresolvedEdgeId (re_dst_name e), ge_kind = re_kind e,
                      ge_weight = weight, ge_last_seen = now\<rparr>,
           oc_resolved = False, oc_site = None\<rparr>)"

definition resolveOne :: "resolve_env \<Rightarrow> edge_resolver \<Rightarrow> raw_edge \<Rightarrow> int \<Rightarrow> resolver_error + edge_outcome option" where
  "resolveOne env r e now =
     (case specResolver r of
        None \<Rightarrow> Inl NotSealed
      | Some sp \<Rightarrow> Inr (case sourceOf r sp e of
          None \<Rightarrow> None
        | Some srcId \<Rightarrow> Some (outcome_of e now srcId (destinationOf env r sp e))))"

text \<open>The phases in order: all nodes, the seal, all imports.\<close>

definition resolver_for :: "resolve_env \<Rightarrow> graph_node list \<Rightarrow> raw_edge list \<Rightarrow> edge_resolver" where
  "resolver_for env nodes imports = fold addImportEdge imports (sealNodes (fold (addNode env) nodes new_resolver))"

definition resolve_all :: "resolve_env \<Rightarrow> edge_resolver \<Rightarrow> raw_edge list \<Rightarrow> int \<Rightarrow> resolver_error + edge_outcome list" where
  "resolve_all env r es now =
     sbind (smap (\<lambda>e. resolveOne env r e now) es) (\<lambda>outs. Inr (List.map_filter id outs))"

definition resolveEdges ::
    "resolve_env \<Rightarrow> graph_node list \<Rightarrow> raw_edge list \<Rightarrow> int \<Rightarrow> resolver_error + graph_edge list \<times> graph_edge list \<times> call_site_row list" where
  "resolveEdges env nodes rawEdges now =
     sbind (resolve_all env (resolver_for env nodes rawEdges) rawEdges now) (\<lambda>outs. Inr
       (map oc_edge (filter oc_resolved outs), map oc_edge (filter (\<lambda>oc. \<not> oc_resolved oc) outs),
        List.map_filter oc_site outs))"

subsection \<open>What the resolver holds\<close>

definition ids_of :: "graph_node list \<Rightarrow> string set" where
  "ids_of ns = gn_id ` set ns"

definition names_in :: "resolve_env \<Rightarrow> graph_node list \<Rightarrow> (string \<times> name_node) set" where
  "names_in env ns = (\<lambda>n. (pkgOf env (gn_file n), name_of n)) ` set ns"

definition filed :: "(graph_node \<Rightarrow> string) \<Rightarrow> graph_node list \<Rightarrow> (string \<Rightarrow> string option) \<Rightarrow> bool" where
  "filed f ns m \<longleftrightarrow> (\<forall>k i. m k = Some i \<longrightarrow> (\<exists>n \<in> set ns. gn_id n = i \<and> file_key (gn_file n) (f n) = k))"

definition nodes_held :: "resolve_env \<Rightarrow> graph_node list \<Rightarrow> edge_resolver \<Rightarrow> bool" where
  "nodes_held env ns r \<longleftrightarrow> filed gn_name ns (byFileName r) \<and> filed gn_qualified_name ns (byFileQn r)
     \<and> set (byId r) = ids_of ns \<and> pkg_names r = index_names (map (\<lambda>n. (pkgOf env (gn_file n), name_of n)) ns)"

definition stub_of :: "graph_node \<Rightarrow> node_stub" where
  "stub_of n = \<lparr>st_id = gn_id n, st_kind = gn_kind n, st_file = gn_file n\<rparr>"

lemma filed_add: "filed f ns m \<Longrightarrow> filed f (ns @ [n]) (m(file_key (gn_file n) (f n) \<mapsto> gn_id n))"
  by (auto simp: filed_def)

lemma nodes_held_add: "nodes_held env ns r \<Longrightarrow> nodes_held env (ns @ [n]) (addNode env n r)"
  by (auto simp: nodes_held_def addNode_def filed_add ids_of_def index_names_def)

lemma add_nodes:
  "nodes_held env ms r \<Longrightarrow> nodeStubs r = map stub_of ms \<Longrightarrow> specResolver r = None \<Longrightarrow>
    nodes_held env (ms @ ns) (fold (addNode env) ns r)
    \<and> nodeStubs (fold (addNode env) ns r) = map stub_of (ms @ ns) \<and> specResolver (fold (addNode env) ns r) = None
    \<and> importsByFile (fold (addNode env) ns r) = importsByFile r"
proof (induction ns arbitrary: ms r)
  case (Cons n ns)
  have "nodes_held env (ms @ [n]) (addNode env n r)" using Cons.prems nodes_held_add by blast
  then show ?case
    using Cons.IH [of "ms @ [n]" "addNode env n r"] Cons.prems by (simp add: addNode_def stub_of_def)
qed simp

lemma add_imports_frame:
  "nodes_held env ns (fold addImportEdge es r) = nodes_held env ns r"
  "specResolver (fold addImportEdge es r) = specResolver r"
  by (induction es arbitrary: r) (simp_all add: addImportEdge_def nodes_held_def Let_def split: option.splits list.splits)

lemma seal_held: "nodes_held env ns (r\<lparr>specResolver := x, nodeStubs := y\<rparr>) = nodes_held env ns r"
  by (simp add: nodes_held_def)

lemma filed_ids: "filed f ns m \<Longrightarrow> m k = Some i \<Longrightarrow> i \<in> ids_of ns"
  by (auto simp: filed_def ids_of_def)

lemma resolver_for_held:
  "nodes_held env ns (resolver_for env ns ims)"
  "specResolver (resolver_for env ns ims) = Some (specifiers_of (map stub_of ns))"
proof -
  have "nodes_held env [] new_resolver"
    by (simp add: nodes_held_def new_resolver_def filed_def ids_of_def index_names_def)
  then have "nodes_held env ns (fold (addNode env) ns new_resolver)"
    "nodeStubs (fold (addNode env) ns new_resolver) = map stub_of ns"
    "specResolver (fold (addNode env) ns new_resolver) = None"
    using add_nodes [of env "[]" new_resolver ns] by (simp_all add: new_resolver_def)
  then show "nodes_held env ns (resolver_for env ns ims)"
    "specResolver (resolver_for env ns ims) = Some (specifiers_of (map stub_of ns))"
    by (simp_all add: resolver_for_def add_imports_frame sealNodes_def seal_held)
qed

lemma stubs_targets: "targets_in (ids_of ns) (specifiers_of (map stub_of ns))"
  using specifiers_of_targets [of "map stub_of ns"] by (simp add: ids_of_def image_image stub_of_def)

definition proper_nodes :: "graph_node list \<Rightarrow> bool" where
  "proper_nodes ns \<longleftrightarrow> (\<forall>n \<in> set ns. gn_id n \<noteq> AMBIGUOUS)"

lemma proper_names: "proper_nodes ns \<Longrightarrow> proper_ids (set (map (\<lambda>n. (pkgOf env (gn_file n), name_of n)) ns))"
  by (auto simp: proper_nodes_def proper_ids_def name_of_def)

lemma held_lookup:
  assumes "nodes_held env ns r" "proper_nodes ns"
  shows "lookup_name pkg name (pkg_names r) = named (names_in env ns) pkg name"
  using lookup_names [OF proper_names [OF assms(2)]] assms(1) by (simp add: nodes_held_def names_in_def)

lemma named_in:
  "named (names_in env ns) pkg name = Some i \<Longrightarrow>
    \<exists>n \<in> set ns. gn_id n = i \<and> (key (pkgOf env (gn_file n)) (gn_qualified_name n) = key pkg name
      \<or> key (pkgOf env (gn_file n)) (gn_name n) = key pkg name)"
  by (drule named_ids) (auto simp: names_in_def name_of_def)

lemma or_else_Some: "or_else x y = Some a \<longleftrightarrow> x = Some a \<or> x = None \<and> y = Some a"
  by (simp add: or_else_def split: option.split)

lemma nonempty_Some: "nonempty x = Some a \<longleftrightarrow> x = Some a \<and> a \<noteq> []"
  by (auto simp: nonempty_def split: option.split)

lemma resolveByName_from:
  assumes "nodes_held env ns r" "proper_nodes ns" "resolveByName env r f name = Some i"
  shows "\<exists>n \<in> set ns. gn_id n = i \<and> (file_key (gn_file n) (gn_name n) = file_key f name
    \<or> key (pkgOf env (gn_file n)) (gn_qualified_name n) = key (pkgOf env f) name
    \<or> key (pkgOf env (gn_file n)) (gn_name n) = key (pkgOf env f) name)"
proof -
  from assms(3) consider "byFileName r (file_key f name) = Some i" | "named (names_in env ns) (pkgOf env f) name = Some i"
    by (auto simp: resolveByName_def or_else_Some nonempty_Some held_lookup [OF assms(1,2)])
  then show ?thesis
  proof cases
    case 1
    then show ?thesis using assms(1) by (auto simp: nodes_held_def filed_def)
  next
    case 2
    then show ?thesis by (drule_tac named_in) blast
  qed
qed

lemma in_package_ids:
  assumes "nodes_held env ns r" "proper_nodes ns" "in_package_of r m name = Some i"
  shows "i \<in> ids_of ns"
  using assms(3) held_lookup [OF assms(1,2)] by (auto simp: in_package_of_def ids_of_def dest!: named_in)

lemma resolveByName_ids:
  assumes "nodes_held env ns r" "proper_nodes ns" "resolveByName env r f name = Some i"
  shows "i \<in> ids_of ns"
  using resolveByName_from [OF assms] by (auto simp: ids_of_def)

lemma find_in: "List.find P xs = Some x \<Longrightarrow> x \<in> set xs \<and> P x"
  using find_first by fastforce

lemma destination_ids:
  assumes "nodes_held env ns r" "proper_nodes ns" "targets_in (ids_of ns) sp" "destinationOf env r sp e = Some i"
  shows "i \<in> ids_of ns"
proof -
  have b: "set (byId r) = ids_of ns" using assms(1) by (simp add: nodes_held_def)
  show ?thesis
    using assms(4) resolveByName_ids [OF assms(1,2)] in_package_ids [OF assms(1,2)] resolve_spec_in [OF assms(3)]
    by (auto simp: destinationOf_def memberCall_def bareCall_def nonempty_Some or_else_Some b Let_def
        dest!: find_in split: if_splits option.splits)
qed

lemma source_ids:
  assumes "nodes_held env ns r" "targets_in (ids_of ns) sp" "sourceOf r sp e = Some i"
  shows "i \<in> ids_of ns"
proof -
  have "filed gn_name ns (byFileName r)" "filed gn_qualified_name ns (byFileQn r)" using assms(1) by (simp_all add: nodes_held_def)
  moreover have "\<And>k. byFile sp k = Some i \<Longrightarrow> i \<in> ids_of ns" using assms(2) by (auto simp: targets_in_def ran_def)
  ultimately show ?thesis
    using assms(3) by (auto simp: sourceOf_def or_else_Some nonempty_Some intro: filed_ids split: if_splits)
qed

lemma resolve_ends:
  assumes "proper_nodes ns"
  shows "\<exists>out. resolveOne env (resolver_for env ns ims) e now = Inr out \<and>
    (\<forall>oc. out = Some oc \<longrightarrow> ge_src (oc_edge oc) \<in> ids_of ns
      \<and> (if oc_resolved oc then ge_dst (oc_edge oc) \<in> ids_of ns
         else ge_dst (oc_edge oc) = unresolvedEdgeId (re_dst_name e) \<and> oc_site oc = None)
      \<and> (\<forall>s. oc_site oc = Some s \<longrightarrow> isCallEdgeKind (re_kind e) \<and> site_src s = ge_src (oc_edge oc)
          \<and> site_dst s = ge_dst (oc_edge oc) \<and> site_file s = Some (re_src_file e)
          \<and> site_line s = re_line e \<and> site_col s = re_col e))"
proof -
  let ?r = "resolver_for env ns ims" and ?sp = "specifiers_of (map stub_of ns)"
  note held = resolver_for_held [of env ns ims]
  have "i \<in> ids_of ns" if "sourceOf ?r ?sp e = Some i" for i
    using source_ids [OF held(1) stubs_targets that] .
  moreover have "i \<in> ids_of ns" if "destinationOf env ?r ?sp e = Some i" for i
    using destination_ids [OF held(1) assms stubs_targets that] .
  ultimately show ?thesis
    by (auto simp: resolveOne_def held(2) outcome_of_def Let_def split: option.splits if_splits)
qed

text \<open>C31: where an edge may lead. A raw edge is dropped when its source is no node; otherwise its
  source is a node, its destination is a node or else the marker \<open>?:\<close> with the raw name, and a
  call site is recorded only for a call to a node, with the file, line and column of the raw edge.
\<close>

theorem edges_in_graph:
  assumes "proper_nodes ns"
  shows "\<exists>out. resolveOne env (resolver_for env ns ims) e now = Inr out \<and>
    (\<forall>oc. out = Some oc \<longrightarrow> ge_src (oc_edge oc) \<in> ids_of ns
      \<and> (if oc_resolved oc then ge_dst (oc_edge oc) \<in> ids_of ns
         else ge_dst (oc_edge oc) = unresolvedEdgeId (re_dst_name e) \<and> oc_site oc = None)
      \<and> (\<forall>s. oc_site oc = Some s \<longrightarrow> isCallEdgeKind (re_kind e) \<and> site_src s = ge_src (oc_edge oc)
          \<and> site_dst s = ge_dst (oc_edge oc) \<and> site_file s = Some (re_src_file e)
          \<and> site_line s = re_line e \<and> site_col s = re_col e))"
  by (rule resolve_ends [OF assms])

definition bound_name :: "raw_edge \<Rightarrow> string" where
  "bound_name e = (case nonempty (re_receiver e) of Some receiver \<Rightarrow> member_root e receiver | None \<Rightarrow> re_dst_name e)"

text \<open>Package directories hold no NUL and files no colon.\<close>

definition plain_paths :: "resolve_env \<Rightarrow> string set \<Rightarrow> bool" where
  "plain_paths env fs \<longleftrightarrow> (\<forall>f \<in> fs. CHR '':'' \<notin> set f \<and> char_of (0 :: nat) \<notin> set (pkgOf env f))"

lemma file_key_inject:
  assumes "CHR '':'' \<notin> set f" "CHR '':'' \<notin> set g" "file_key f a = file_key g b"
  shows "f = g \<and> a = b"
proof -
  have "takeWhile (\<lambda>x. x \<noteq> CHR '':'') (file_key f a) = takeWhile (\<lambda>x. x \<noteq> CHR '':'') (file_key g b)" using assms(3) by simp
  then have "f = g" using assms(1,2) takeWhile_neq [of "CHR '':''" f] takeWhile_neq [of "CHR '':''" g] by (simp add: file_key_def)
  with assms(3) show ?thesis by (simp add: file_key_def)
qed

text \<open>C30: no edge across packages without a witness. A call whose name, or whose receiver's root, is
  bound by an import that leads to no module of the repository stays unresolved. Any other edge
  than an import that no import of its file binds leads, when it is resolved, to a node that bears
  its name, in the same file or the same workspace package.
\<close>

theorem witnessed_edges:
  assumes "proper_nodes ns" "plain_paths env (insert (re_src_file e) (gn_file ` set ns))"
    and "r = resolver_for env ns ims" "resolveOne env r e now = Inr (Some oc)" "re_kind e \<noteq> ''import''"
  shows "case (if re_kind e = ''static_call'' then binding r (re_src_file e) (bound_name e) else None) of
      Some imp \<Rightarrow> nonempty (resolve_spec env (specifiers_of (map stub_of ns)) (re_src_file e) (ib_spec imp)) = None
        \<longrightarrow> \<not> oc_resolved oc
    | None \<Rightarrow> oc_resolved oc \<longrightarrow> (\<exists>n \<in> set ns. gn_id n = ge_dst (oc_edge oc)
        \<and> (gn_name n = re_dst_name e \<or> gn_qualified_name n = re_dst_name e)
        \<and> (gn_file n = re_src_file e \<or> pkgOf env (gn_file n) = pkgOf env (re_src_file e)))"
proof -
  let ?sp = "specifiers_of (map stub_of ns)"
  have held: "nodes_held env ns r" "specResolver r = Some ?sp" using assms(3) resolver_for_held by simp_all
  obtain src where oc: "oc = outcome_of e now src (destinationOf env r ?sp e)"
    using assms(4) held(2) by (auto simp: resolveOne_def split: option.splits)
  have by_name: "\<exists>n \<in> set ns. gn_id n = i \<and> (gn_name n = re_dst_name e \<or> gn_qualified_name n = re_dst_name e)
      \<and> (gn_file n = re_src_file e \<or> pkgOf env (gn_file n) = pkgOf env (re_src_file e))"
    if "resolveByName env r (re_src_file e) (re_dst_name e) = Some i" for i
    using resolveByName_from [OF held(1) assms(1) that] assms(2)
    by (auto simp: plain_paths_def key_inject dest: file_key_inject)
  show ?thesis
  proof (cases "if re_kind e = ''static_call'' then binding r (re_src_file e) (bound_name e) else None")
    case (Some imp)
    then have k: "re_kind e = ''static_call''" and b: "binding r (re_src_file e) (bound_name e) = Some imp"
      by (simp_all split: if_splits)
    have "destinationOf env r ?sp e = None" if "nonempty (resolve_spec env ?sp (re_src_file e) (ib_spec imp)) = None"
      by (cases "nonempty (re_receiver e)")
        (use k b that in \<open>simp_all add: destinationOf_def memberCall_def bareCall_def bound_name_def nonempty_def [of None]\<close>)
    then show ?thesis using Some oc by (simp add: outcome_of_def)
  next
    case None
    have d: "destinationOf env r ?sp e = nonempty (resolveByName env r (re_src_file e) (re_dst_name e))"
    proof (cases "re_kind e = ''static_call''")
      case True
      with None have "binding r (re_src_file e) (bound_name e) = None" by simp
      with True show ?thesis
        by (cases "nonempty (re_receiver e)") (simp_all add: destinationOf_def memberCall_def bareCall_def bound_name_def)
    next
      case False
      with assms(5) show ?thesis by (simp add: destinationOf_def)
    qed
    show ?thesis
    proof (cases "nonempty (resolveByName env r (re_src_file e) (re_dst_name e))")
      case N: None
      then show ?thesis using None oc d by (simp add: outcome_of_def)
    next
      case (Some i)
      then have "resolveByName env r (re_src_file e) (re_dst_name e) = Some i" by (simp add: nonempty_Some)
      moreover have "oc_resolved oc" "ge_dst (oc_edge oc) = i" using Some oc d by (simp_all add: outcome_of_def Let_def)
      ultimately show ?thesis using None by_name [of i] by simp
    qed
  qed
qed

subsection \<open>A small repository\<close>

text \<open>
  Three files: \<open>a.ts\<close> and \<open>c.ts\<close> each define \<open>helper\<close>; \<open>b.ts\<close> imports the first and calls it in
  \<open>run\<close>, and calls \<open>load\<close>, which it imports from an outside package, while \<open>c.ts\<close> happens to
  define a \<open>load\<close> too.
\<close>

definition plain_env :: resolve_env where
  "plain_env = \<lparr>repoRoot = [], tsconfigAt = (\<lambda>_. None), workspaces = workspace_of []\<rparr>"

definition sample_node :: "string \<Rightarrow> string \<Rightarrow> string \<Rightarrow> string \<Rightarrow> graph_node" where
  "sample_node i name kind f = \<lparr>gn_id = i, gn_name = name, gn_qualified_name = name, gn_kind = kind, gn_language = ''ts'',
     gn_file = f, gn_range = (1, 2), gn_ast_hash = [], gn_summary = None, gn_last_seen = 0, gn_logical_clock = 0,
     gn_last_modified_by = None\<rparr>"

definition nodes_a :: "graph_node list" where
  "nodes_a = [sample_node ''a'' ''a'' ''module'' ''a.ts'', sample_node ''a/helper'' ''helper'' ''function'' ''a.ts'']"

definition nodes_b :: "graph_node list" where
  "nodes_b = [sample_node ''b'' ''b'' ''module'' ''b.ts'', sample_node ''b/run'' ''run'' ''function'' ''b.ts'']"

definition nodes_c :: "graph_node list" where
  "nodes_c = [sample_node ''c'' ''c'' ''module'' ''c.ts'', sample_node ''c/helper'' ''helper'' ''function'' ''c.ts'',
     sample_node ''c/load'' ''load'' ''function'' ''c.ts'']"

definition sample_edge :: "string \<Rightarrow> string \<Rightarrow> string \<Rightarrow> string list option \<Rightarrow> raw_edge" where
  "sample_edge src dst kind loc = \<lparr>re_src_file = ''b.ts'', re_src_name = src, re_dst_name = dst, re_kind = kind, re_weight = None,
     re_receiver = None, re_receiver_chain = None, re_local = loc, re_import_aliases = None, re_line = None, re_col = None\<rparr>"

definition edges_b :: "raw_edge list" where
  "edges_b = [sample_edge ''b'' ''./a'' ''import'' (Some [''helper'']), sample_edge ''b'' ''pkg'' ''import'' (Some [''load'']),
     sample_edge ''run'' ''helper'' ''static_call'' None, sample_edge ''run'' ''load'' ''static_call'' None]"

definition destinations :: "graph_node list \<Rightarrow> string list" where
  "destinations ns = (case resolve_all plain_env (resolver_for plain_env ns edges_b) edges_b 0 of
     Inl _ \<Rightarrow> [] | Inr outs \<Rightarrow> map (\<lambda>oc. ge_dst (oc_edge oc)) outs)"

lemma sample_resolved:
  "proper_nodes (nodes_a @ nodes_b @ nodes_c)" "plain_paths plain_env (insert ''b.ts'' (gn_file ` set (nodes_a @ nodes_b @ nodes_c)))"
  "destinations (nodes_a @ nodes_b @ nodes_c) = [''a'', ''?:pkg'', ''a/helper'', ''?:load'']"
  by code_simp+

theorem edges_in_graph_witness:
  "\<exists>oc. resolveOne plain_env (resolver_for plain_env (nodes_a @ nodes_b @ nodes_c) edges_b) (edges_b ! 2) 0 = Inr (Some oc)
    \<and> ge_dst (oc_edge oc) \<in> ids_of (nodes_a @ nodes_b @ nodes_c)"
proof -
  let ?out = "resolveOne plain_env (resolver_for plain_env (nodes_a @ nodes_b @ nodes_c) edges_b) (edges_b ! 2) 0"
  have "(case ?out of Inr (Some oc) \<Rightarrow> oc_resolved oc | _ \<Rightarrow> False)" by code_simp
  then obtain oc where oc: "?out = Inr (Some oc)" "oc_resolved oc" by (auto split: sum.splits option.splits)
  with edges_in_graph [OF sample_resolved(1), of plain_env edges_b "edges_b ! 2" 0] show ?thesis by auto
qed

theorem witnessed_edges_witness:
  "\<exists>oc. resolveOne plain_env (resolver_for plain_env (nodes_a @ nodes_b @ nodes_c) edges_b) (edges_b ! 3) 0 = Inr (Some oc)
    \<and> \<not> oc_resolved oc"
proof -
  let ?r = "resolver_for plain_env (nodes_a @ nodes_b @ nodes_c) edges_b" and ?e = "edges_b ! 3"
  let ?sp = "specifiers_of (map stub_of (nodes_a @ nodes_b @ nodes_c))"
  have "(case resolveOne plain_env ?r ?e 0 of Inr (Some oc) \<Rightarrow> True | _ \<Rightarrow> False)" by code_simp
  then obtain oc where oc: "resolveOne plain_env ?r ?e 0 = Inr (Some oc)" by (auto split: sum.splits option.splits)
  have e: "re_src_file ?e = ''b.ts''" "re_kind ?e = ''static_call''" by code_simp+
  have "(case binding ?r (re_src_file ?e) (bound_name ?e) of
      Some imp \<Rightarrow> nonempty (resolve_spec plain_env ?sp (re_src_file ?e) (ib_spec imp)) = None | None \<Rightarrow> False)" by code_simp
  then obtain imp where "binding ?r (re_src_file ?e) (bound_name ?e) = Some imp"
    "nonempty (resolve_spec plain_env ?sp (re_src_file ?e) (ib_spec imp)) = None" by (auto split: option.splits)
  then have "\<not> oc_resolved oc"
    using witnessed_edges [OF sample_resolved(1) _ refl oc] sample_resolved(2) e by simp
  with oc show ?thesis by blast
qed

end
