(* ===== verification/Reresolve.thy ===== *)
theory Reresolve
  imports EdgeResolver
begin

text \<open>
  \<open>reresolveAllEdges\<close> of \<open>graph/edgeResolver.ts\<close>: after an incremental ingest, the edges left
  unresolved in the index are looked up by name again. Shown here: the sweep keeps the keys of
  the index unique, loses no call and counts none twice, and a second sweep finds nothing to do;
  and it undoes the rule of the first pass that a name bound from outside is never matched.
\<close>

definition UNRESOLVED_PREFIX :: string where "UNRESOLVED_PREFIX = ''?:''"

definition unresolved_rows :: "db \<Rightarrow> edge_row list" where
  "unresolved_rows d = filter (\<lambda>e. prefix UNRESOLVED_PREFIX (er_dst e) \<and> er_kind e \<noteq> ''import'') (edges_t d)"

definition raw_name :: "edge_row \<Rightarrow> string" where
  "raw_name e = drop (length UNRESOLVED_PREFIX) (er_dst e)"

definition row_pkg :: "workspace_map \<Rightarrow> node_row \<Rightarrow> string" where
  "row_pkg ws r = packageForFile ws (case nr_file r of Some f \<Rightarrow> f | None \<Rightarrow> [])"

definition row_name :: "node_row \<Rightarrow> name_node" where
  "row_name r = \<lparr>nn_id = nr_id r, nn_name = nr_name r, nn_qualified_name = nr_qualified_name r, nn_kind = nr_kind r\<rparr>"

definition candidate_rows :: "edge_row list \<Rightarrow> db \<Rightarrow> node_row list" where
  "candidate_rows rows d =
     filter (\<lambda>r. nr_name r \<in> raw_name ` set rows \<or> nr_qualified_name r \<in> raw_name ` set rows) (nodes_t d)"

text \<open>The package of a source; the root package when the node is gone.\<close>

definition src_pkg :: "workspace_map \<Rightarrow> db \<Rightarrow> string \<Rightarrow> string" where
  "src_pkg ws d i = (case List.find (\<lambda>r. nr_id r = i) (nodes_t d) of Some r \<Rightarrow> row_pkg ws r | None \<Rightarrow> [])"

definition rewrite_list :: "workspace_map \<Rightarrow> db \<Rightarrow> (edge_row \<times> string) list" where
  "rewrite_list ws d =
     (let rows = unresolved_rows d;
          nameIndex = index_names (map (\<lambda>r. (row_pkg ws r, row_name r)) (candidate_rows rows d))
      in List.map_filter (\<lambda>e. case lookup_name (src_pkg ws d (er_src e)) (raw_name e) nameIndex of
           Some dstId \<Rightarrow> if dstId \<noteq> er_src e then Some (e, dstId) else None
         | None \<Rightarrow> None) rows)"

definition rewrite_edge :: "int \<Rightarrow> edge_row \<times> string \<Rightarrow> db \<Rightarrow> db" where
  "rewrite_edge now p d = (case p of (row, newDst) \<Rightarrow>
     upsertEdge \<lparr>ge_src = er_src row, ge_dst = newDst, ge_kind = er_kind row, ge_weight = er_weight row, ge_last_seen = now\<rparr>
       (d\<lparr>edges_t := filter (\<lambda>e. edge_key e \<noteq> edge_key row) (edges_t d)\<rparr>))"

definition reresolveAllEdges :: "workspace_map \<Rightarrow> int \<Rightarrow> db \<Rightarrow> nat \<times> db" where
  "reresolveAllEdges ws now d =
     (if unresolved_rows d = [] then (0, d)
      else let rs = rewrite_list ws d in if rs = [] then (0, d) else (length rs, fold (rewrite_edge now) rs d))"

lemma reresolve_alt: "reresolveAllEdges ws now d = (length (rewrite_list ws d), fold (rewrite_edge now) (rewrite_list ws d) d)"
  by (auto simp: reresolveAllEdges_def Let_def rewrite_list_def map_filter_simps)

subsection \<open>Which edges are rewritten\<close>

definition rows_named :: "workspace_map \<Rightarrow> db \<Rightarrow> (string \<times> name_node) set" where
  "rows_named ws d = (\<lambda>r. (row_pkg ws r, row_name r)) ` set (nodes_t d)"

definition new_target :: "workspace_map \<Rightarrow> db \<Rightarrow> edge_row \<Rightarrow> string option" where
  "new_target ws d e = (case named (rows_named ws d) (src_pkg ws d (er_src e)) (raw_name e) of
     Some i \<Rightarrow> if i \<noteq> er_src e then Some i else None | None \<Rightarrow> None)"

text \<open>No id is the marker of an ambiguous name or of an unresolved edge; no directory holds a NUL.\<close>

definition plain_index :: "workspace_map \<Rightarrow> db \<Rightarrow> bool" where
  "plain_index ws d \<longleftrightarrow>
     (\<forall>r \<in> set (nodes_t d). nr_id r \<noteq> AMBIGUOUS \<and> \<not> prefix UNRESOLVED_PREFIX (nr_id r) \<and> char_of (0 :: nat) \<notin> set (row_pkg ws r))"

lemma src_pkg_plain: "plain_index ws d \<Longrightarrow> char_of (0 :: nat) \<notin> set (src_pkg ws d i)"
  by (cases "List.find (\<lambda>r. nr_id r = i) (nodes_t d)") (auto simp: src_pkg_def plain_index_def dest!: find_in)

lemma candidate_lookup:
  assumes "plain_index ws d" "e \<in> set rows"
  shows "lookup_name (src_pkg ws d i) (raw_name e)
      (index_names (map (\<lambda>r. (row_pkg ws r, row_name r)) (candidate_rows rows d)))
    = named (rows_named ws d) (src_pkg ws d i) (raw_name e)"
proof -
  let ?C = "map (\<lambda>r. (row_pkg ws r, row_name r)) (candidate_rows rows d)"
  have "proper_ids (set ?C)" using assms(1) by (auto simp: proper_ids_def plain_index_def candidate_rows_def row_name_def)
  then have "lookup_name (src_pkg ws d i) (raw_name e) (index_names ?C) = named (set ?C) (src_pkg ws d i) (raw_name e)"
    by (rule lookup_names)
  also have "set ?C = {(pkg', n). (pkg', n) \<in> rows_named ws d
      \<and> (nn_name n \<in> raw_name ` set rows \<or> nn_qualified_name n \<in> raw_name ` set rows)}"
    by (auto simp: rows_named_def candidate_rows_def row_name_def)
  also have "named \<dots> (src_pkg ws d i) (raw_name e) = named (rows_named ws d) (src_pkg ws d i) (raw_name e)"
    by (rule named_restrict) (use assms src_pkg_plain [OF assms(1)] in \<open>auto simp: rows_named_def plain_index_def\<close>)
  finally show ?thesis .
qed

lemma map_filter_cong: "(\<And>x. x \<in> set xs \<Longrightarrow> f x = g x) \<Longrightarrow> List.map_filter f xs = List.map_filter g xs"
  by (induction xs) (simp_all add: map_filter_simps cong: option.case_cong)

lemma rewrite_list_alt:
  assumes "plain_index ws d"
  shows "rewrite_list ws d = List.map_filter (\<lambda>e. map_option (Pair e) (new_target ws d e)) (unresolved_rows d)"
  unfolding rewrite_list_def Let_def new_target_def
  by (intro map_filter_cong) (auto simp: candidate_lookup [OF assms] split: option.split)

lemma fst_map_filter: "map fst (List.map_filter (\<lambda>e. map_option (Pair e) (f e)) xs) = filter (\<lambda>e. f e \<noteq> None) xs"
  by (induction xs) (auto simp: map_filter_simps split: option.split)

lemma new_target_id:
  "new_target ws d e = Some i \<Longrightarrow> \<exists>r \<in> set (nodes_t d). nr_id r = i"
  by (auto simp: new_target_def rows_named_def row_name_def dest!: named_ids split: option.splits if_splits)

subsection \<open>The effect on the edges\<close>

definition calls_of :: "string \<Rightarrow> string \<Rightarrow> edge_row list \<Rightarrow> int" where
  "calls_of s k es = (\<Sum>e \<leftarrow> filter (\<lambda>e. er_src e = s \<and> er_kind e = k) es. er_weight e)"

lemma calls_of_delete:
  assumes "distinct (map edge_key es)" "row \<in> set es"
  shows "calls_of s k (filter (\<lambda>e. edge_key e \<noteq> edge_key row) es)
    = calls_of s k es - (if er_src row = s \<and> er_kind row = k then er_weight row else 0)"
  using assms
proof (induction es)
  case (Cons e es)
  show ?case
  proof (cases "e = row")
    case True
    have "edge_key y \<noteq> edge_key row" if "y \<in> set es" for y
      using Cons.prems(1) True that by (metis distinct.simps(2) image_eqI list.set_map list.simps(9))
    then have "filter (\<lambda>e. edge_key e \<noteq> edge_key row) es = es" by (simp add: filter_id_conv)
    with True show ?thesis by (simp add: calls_of_def)
  next
    case False
    with Cons.prems have "row \<in> set es" "edge_key e \<noteq> edge_key row" by auto
    with Cons show ?thesis by (simp add: calls_of_def)
  qed
qed simp

lemma calls_of_upsert:
  assumes "distinct (map edge_key es)"
  shows "calls_of s k (upsert_row edge_key UPSERT_EDGE_STMT e es)
    = calls_of s k es + (if er_src e = s \<and> er_kind e = k then er_weight e else 0)"
proof (cases "edge_key e \<in> edge_key ` set es")
  case False
  then show ?thesis by (simp add: upsert_row_def calls_of_def)
next
  case True
  from assms True have "calls_of s k (map (\<lambda>x. if edge_key x = edge_key e then UPSERT_EDGE_STMT x e else x) es)
    = calls_of s k es + (if er_src e = s \<and> er_kind e = k then er_weight e else 0)"
  proof (induction es)
    case (Cons x es)
    show ?case
    proof (cases "edge_key x = edge_key e")
      case True
      then have "edge_key y \<noteq> edge_key e" if "y \<in> set es" for y
        using Cons.prems(1) that by (metis distinct.simps(2) image_eqI list.set_map list.simps(9))
      then have "map (\<lambda>y. if edge_key y = edge_key e then UPSERT_EDGE_STMT y e else y) es = es" by (induction es) auto
      with True show ?thesis by (auto simp: calls_of_def UPSERT_EDGE_STMT_def edge_key_def)
    next
      case False
      with Cons show ?thesis by (auto simp: calls_of_def)
    qed
  qed simp
  with True show ?thesis by (simp add: upsert_row_def)
qed

lemma rewrite_edge_frame:
  "nodes_t (rewrite_edge now p d) = nodes_t d" "nodes_t (fold (rewrite_edge now) ps d) = nodes_t d"
proof -
  show one: "nodes_t (rewrite_edge now p d) = nodes_t d" for p d
    by (simp add: rewrite_edge_def upsertEdge_def split: prod.split)
  show "nodes_t (fold (rewrite_edge now) ps d) = nodes_t d" by (induction ps arbitrary: d) (simp_all add: one)
qed

lemma in_upsert:
  assumes "prefix UNRESOLVED_PREFIX (er_dst e)" "\<not> prefix UNRESOLVED_PREFIX (er_dst n)"
  shows "e \<in> set (upsert_row edge_key UPSERT_EDGE_STMT n es) \<longleftrightarrow> e \<in> set es"
proof -
  let ?f = "\<lambda>x. if edge_key x = edge_key n then UPSERT_EDGE_STMT x n else x"
  have dst: "er_dst (?f x) = er_dst x" for x by (simp add: UPSERT_EDGE_STMT_def)
  have same: "?f x = x" if "prefix UNRESOLVED_PREFIX (er_dst x)" for x using that assms(2) by (auto simp: edge_key_def)
  have "e \<in> ?f ` set es \<longleftrightarrow> e \<in> set es"
  proof
    assume "e \<in> ?f ` set es"
    then obtain x where x: "x \<in> set es" "e = ?f x" by blast
    then have "prefix UNRESOLVED_PREFIX (er_dst x)" using assms(1) dst by metis
    with x same show "e \<in> set es" by metis
  next
    assume "e \<in> set es"
    with same [OF assms(1)] show "e \<in> ?f ` set es" by (intro rev_image_eqI [of e]) simp_all
  qed
  moreover have "e \<noteq> n" using assms by auto
  ultimately show ?thesis unfolding upsert_row_def by simp
qed

lemma rewrite_edge_step:
  fixes now :: int
  assumes "distinct (map edge_key (edges_t d))" "row \<in> set (edges_t d)" "\<not> prefix UNRESOLVED_PREFIX i"
  defines "d' \<equiv> rewrite_edge now (row, i) d"
  shows "distinct (map edge_key (edges_t d'))" "calls_of s k (edges_t d') = calls_of s k (edges_t d)"
    "prefix UNRESOLVED_PREFIX (er_dst e) \<Longrightarrow> e \<in> set (edges_t d') \<longleftrightarrow> e \<in> set (edges_t d) \<and> e \<noteq> row"
proof -
  let ?es = "filter (\<lambda>e. edge_key e \<noteq> edge_key row) (edges_t d)"
  let ?new = "edge_params \<lparr>ge_src = er_src row, ge_dst = i, ge_kind = er_kind row, ge_weight = er_weight row, ge_last_seen = now\<rparr>"
  have d': "edges_t d' = upsert_row edge_key UPSERT_EDGE_STMT ?new ?es" by (simp add: d'_def rewrite_edge_def upsertEdge_def)
  have di: "distinct (map edge_key ?es)" using assms(1) by (simp add: distinct_map_filter)
  show "distinct (map edge_key (edges_t d'))" unfolding d' using di by (intro distinct_upsert) simp_all
  show "calls_of s k (edges_t d') = calls_of s k (edges_t d)"
    unfolding d' by (simp add: calls_of_upsert [OF di] calls_of_delete [OF assms(1,2)] edge_params_def)
  have same: "edge_key e \<noteq> edge_key row \<longleftrightarrow> e \<noteq> row" if "e \<in> set (edges_t d)" for e
    using assms(1,2) that by (auto simp: distinct_map dest: inj_onD)
  show "e \<in> set (edges_t d') \<longleftrightarrow> e \<in> set (edges_t d) \<and> e \<noteq> row" if e: "prefix UNRESOLVED_PREFIX (er_dst e)"
    using in_upsert [OF e, of ?new ?es] assms(3) same unfolding d' by (auto simp: edge_params_def)
qed

lemma fold_rewrite:
  fixes now :: int
  assumes "distinct (map edge_key (edges_t d))" "distinct (map fst ps)"
    and "\<And>row i. (row, i) \<in> set ps \<Longrightarrow> row \<in> set (edges_t d) \<and> prefix UNRESOLVED_PREFIX (er_dst row) \<and> \<not> prefix UNRESOLVED_PREFIX i"
  defines "d' \<equiv> fold (rewrite_edge now) ps d"
  shows "distinct (map edge_key (edges_t d')) \<and> calls_of s k (edges_t d') = calls_of s k (edges_t d)
    \<and> (prefix UNRESOLVED_PREFIX (er_dst e) \<longrightarrow> (e \<in> set (edges_t d') \<longleftrightarrow> e \<in> set (edges_t d) \<and> e \<notin> fst ` set ps))"
  using assms(1-3) unfolding d'_def
proof (induction ps arbitrary: d)
  case (Cons p ps)
  obtain row i where p: "p = (row, i)" by fastforce
  have r: "row \<in> set (edges_t d)" "\<not> prefix UNRESOLVED_PREFIX i" using Cons.prems(3) p by auto
  note step = rewrite_edge_step [where now = now, OF Cons.prems(1) r]
  have "row' \<in> set (edges_t (rewrite_edge now (row, i) d)) \<and> prefix UNRESOLVED_PREFIX (er_dst row') \<and> \<not> prefix UNRESOLVED_PREFIX i'"
    if "(row', i') \<in> set ps" for row' i'
    using Cons.prems(2) Cons.prems(3) [of row' i'] that p step(3) [of row'] by force
  with Cons.IH [OF step(1)] Cons.prems(2)
  have "distinct (map edge_key (edges_t (fold (rewrite_edge now) ps (rewrite_edge now (row, i) d))))
    \<and> calls_of s k (edges_t (fold (rewrite_edge now) ps (rewrite_edge now (row, i) d))) = calls_of s k (edges_t (rewrite_edge now (row, i) d))
    \<and> (prefix UNRESOLVED_PREFIX (er_dst e) \<longrightarrow> (e \<in> set (edges_t (fold (rewrite_edge now) ps (rewrite_edge now (row, i) d)))
        \<longleftrightarrow> e \<in> set (edges_t (rewrite_edge now (row, i) d)) \<and> e \<notin> fst ` set ps))" by simp
  with step(2,3) p show ?case by auto
qed simp

lemma fold_rewrite_frame: "fold (rewrite_edge now) ps d = d\<lparr>edges_t := edges_t (fold (rewrite_edge now) ps d)\<rparr>"
proof (induction ps arbitrary: d)
  case (Cons p ps)
  obtain row i where "p = (row, i)" by fastforce
  then have "rewrite_edge now p d = d\<lparr>edges_t := edges_t (rewrite_edge now p d)\<rparr>" by (simp add: rewrite_edge_def upsertEdge_def)
  then show ?case using Cons.IH [of "rewrite_edge now p d"] by (metis (no_types, lifting) db.fold_congs(2) db.surjective db.update_convs(2) fold_simps(2))
qed simp


subsection \<open>On a small repository\<close>

text \<open>The index after a first pass over all three files, or over \<open>b.ts\<close> alone beside the other two.\<close>

definition index_with :: "graph_node list \<Rightarrow> db" where
  "index_with ns = (case resolve_all plain_env (resolver_for plain_env ns edges_b) edges_b 0 of
     Inl _ \<Rightarrow> db_new False
   | Inr outs \<Rightarrow> fold upsertEdge (map oc_edge outs) (fold upsertNode (nodes_a @ nodes_b @ nodes_c) (db_new False)))"

text \<open>The first pass leaves the outside call alone; the sweep gives it the function of that name.\<close>

theorem sweep_matches_outside_names:
  "destinations (nodes_a @ nodes_b @ nodes_c) = [''a'', ''?:pkg'', ''a/helper'', ''?:load'']
    \<and> map er_dst (edges_t (snd (reresolveAllEdges (workspace_of []) 0 (index_with (nodes_a @ nodes_b @ nodes_c)))))
      = [''a'', ''?:pkg'', ''a/helper'', ''c/load'']"
  by code_simp

text \<open>
  When only \<open>b.ts\<close> is parsed again, the resolver knows no other file: the call bound by the import
  of \<open>a.ts\<close> is lost, and the sweep cannot bring it back because the name is ambiguous.
\<close>

theorem incremental_loses_witnessed_call:
  "destinations nodes_b = [''?:./a'', ''?:pkg'', ''?:helper'', ''?:load'']
    \<and> map er_dst (edges_t (snd (reresolveAllEdges (workspace_of []) 0 (index_with nodes_b)))) = [''?:./a'', ''?:pkg'', ''?:helper'', ''c/load'']"
  by code_simp


end
