(* ===== verification/IngestDirty.thy ===== *)
theory IngestDirty
  imports Text
begin

text \<open>
  \<open>db/ingest_dirty.ts\<close>: the row \<open>last_ingest_dirty\<close>, which source files an index may hold in an
  uncommitted state, with \<open>isSourcePath\<close> of \<open>db/freshness.ts\<close> and \<open>gitStatus\<close> of
  \<open>worktree/git.ts\<close>. The row is its parsed text; what \<open>git\<close> prints, and whether the worktree
  registry exists, are arguments. Shown here: the paths read from \<open>git status -z\<close> are exactly those
  of its entries, and a list in the row is exactly the source files that were dirty at some ingest
  since the last full rebuild.
\<close>

subsection \<open>Source files\<close>

definition SOURCE_EXTENSIONS :: "string list" where
  "SOURCE_EXTENSIONS = [''.ts'', ''.mts'', ''.cts'', ''.tsx'', ''.js'', ''.jsx'', ''.mjs'', ''.cjs'', ''.py'',
     ''.rs'', ''.go'', ''.astro'']"

text \<open>The last dot lies after the last slash iff the file name holds a dot.\<close>

definition isSourcePath :: "string \<Rightarrow> bool" where
  "isSourcePath path \<longleftrightarrow> CHR ''.'' \<in> set (afterLast (CHR ''/'') path)
     \<and> map lower (CHR ''.'' # afterLast (CHR ''.'') path) \<in> set SOURCE_EXTENSIONS"

subsection \<open>What git reports\<close>

definition NUL :: char where "NUL = CHR 0x00"

definition sorted_unique :: "'a::linorder list \<Rightarrow> 'a list" where
  "sorted_unique xs = sort (remdups xs)"

definition renamed :: "string \<Rightarrow> bool" where
  "renamed xy \<longleftrightarrow> CHR ''R'' \<in> set xy \<or> CHR ''C'' \<in> set xy"

text \<open>After a renaming entry its original path is a token of its own, skipped even where it is empty.\<close>

fun status_tokens :: "string list \<Rightarrow> string list" where
  "status_tokens [] = []"
| "status_tokens (t # ts) =
     (if length t < 4 then status_tokens ts
      else if renamed (take 2 t)
      then (case ts of [] \<Rightarrow> [drop 3 t]
            | orig # us \<Rightarrow> drop 3 t # (if orig \<noteq> [] then [orig] else []) @ status_tokens us)
      else drop 3 t # status_tokens ts)"

definition gitStatus :: "string option \<Rightarrow> (string \<times> string list) option" where
  "gitStatus output = map_option (\<lambda>raw. (raw, sorted_unique (status_tokens (split_on (\<lambda>c. c = NUL) raw)))) output"

subsection \<open>The record\<close>

datatype ingest_dirty = DirtyPaths "string list" | DirtyOverflow | DirtyUnknown

datatype dirty_row = OverflowText | UnknownText | JsonText json | OtherText

definition DIRTY_RECORD_CAP :: nat where "DIRTY_RECORD_CAP = 2000"

definition str_of :: "json \<Rightarrow> string option" where
  "str_of j = (case j of JStr s \<Rightarrow> Some s | _ \<Rightarrow> None)"

definition readIngestDirty :: "dirty_row option \<Rightarrow> ingest_dirty option" where
  "readIngestDirty row = (case row of
     None \<Rightarrow> None
   | Some OverflowText \<Rightarrow> Some DirtyOverflow
   | Some UnknownText \<Rightarrow> Some DirtyUnknown
   | Some (JsonText (JArr js)) \<Rightarrow> Some (DirtyPaths (List.map_filter str_of js))
   | Some _ \<Rightarrow> Some DirtyUnknown)"

definition nextIngestDirty :: "dirty_row option \<Rightarrow> bool \<Rightarrow> string option \<Rightarrow> bool \<Rightarrow> ingest_dirty option" where
  "nextIngestDirty row registry output authoritative =
     (if \<not> registry then None
      else let prior = (if authoritative then None else readIngestDirty row)
      in if \<not> authoritative \<and> prior = None then Some DirtyUnknown
      else if prior \<noteq> None \<and> \<not> (case prior of Some (DirtyPaths _) \<Rightarrow> True | _ \<Rightarrow> False) then prior
      else (case gitStatus output of
          None \<Rightarrow> Some DirtyUnknown
        | Some (_, paths) \<Rightarrow>
            let current = filter isSourcePath paths;
                merged = sorted_unique ((case prior of Some (DirtyPaths ps) \<Rightarrow> ps | _ \<Rightarrow> []) @ current)
            in Some (if DIRTY_RECORD_CAP < length merged then DirtyOverflow else DirtyPaths merged)))"

definition writeIngestDirty :: "ingest_dirty option \<Rightarrow> dirty_row option \<Rightarrow> dirty_row option" where
  "writeIngestDirty r row = (case r of
     None \<Rightarrow> None
   | Some (DirtyPaths ps) \<Rightarrow> Some (JsonText (JArr (map JStr ps)))
   | Some DirtyOverflow \<Rightarrow> Some OverflowText
   | Some DirtyUnknown \<Rightarrow> Some UnknownText)"

lemma map_filter_strs [simp]: "List.map_filter str_of (map JStr ps) = ps"
  by (induction ps) (simp_all add: map_filter_simps str_of_def)

lemma read_write_dirty [simp, codec_simps]: "readIngestDirty (writeIngestDirty r row) = r"
  by (simp add: readIngestDirty_def writeIngestDirty_def split: option.split ingest_dirty.split)

lemma sorted_unique_set [simp]: "set (sorted_unique xs) = set xs"
  by (simp add: sorted_unique_def)

lemma sorted_unique_eq: "sorted_unique xs = sorted_list_of_set (set xs)"
  by (simp add: sorted_unique_def sorted_list_of_set_sort_remdups)

lemma length_sorted_unique: "length (sorted_unique xs) = card (set xs)"
  by (simp add: sorted_unique_eq)

subsection \<open>An entry of the status\<close>

record status_entry =
  se_xy :: string
  se_path :: string
  se_orig :: string

definition entry_text :: "status_entry \<Rightarrow> string" where
  "entry_text e = se_xy e @ CHR '' '' # se_path e @ NUL # (if renamed (se_xy e) then se_orig e @ [NUL] else [])"

definition entry_ok :: "status_entry \<Rightarrow> bool" where
  "entry_ok e \<longleftrightarrow> length (se_xy e) = 2 \<and> se_path e \<noteq> [] \<and> NUL \<notin> set (se_xy e @ se_path e @ se_orig e)"

definition entry_paths :: "status_entry \<Rightarrow> string list" where
  "entry_paths e = se_path e # (if renamed (se_xy e) \<and> se_orig e \<noteq> [] then [se_orig e] else [])"

lemma NUL_space: "NUL \<noteq> CHR '' ''"
  by (simp add: NUL_def)

lemma split_nul: "NUL \<notin> set s \<Longrightarrow> split_on (\<lambda>c. c = NUL) (s @ NUL # t) = s # split_on (\<lambda>c. c = NUL) t"
  by (rule split_on_append) auto

lemma status_tokens_entry:
  assumes "entry_ok e"
  shows "status_tokens (split_on (\<lambda>c. c = NUL) (entry_text e @ s)) = entry_paths e @ status_tokens (split_on (\<lambda>c. c = NUL) s)"
proof -
  let ?t = "se_xy e @ CHR '' '' # se_path e"
  have t: "NUL \<notin> set ?t" "NUL \<notin> set (se_orig e)" using assms NUL_space by (auto simp: entry_ok_def)
  have l: "\<not> length ?t < 4" "take 2 ?t = se_xy e" "drop 3 ?t = se_path e"
    using assms by (auto simp: entry_ok_def Suc_le_eq)
  have "split_on (\<lambda>c. c = NUL) (entry_text e @ s) =
      ?t # (if renamed (se_xy e) then se_orig e # split_on (\<lambda>c. c = NUL) s else split_on (\<lambda>c. c = NUL) s)"
    using split_nul [OF t(1)] split_nul [OF t(2)] by (simp add: entry_text_def)
  with l show ?thesis by (simp add: entry_paths_def)
qed

text \<open>\<open>gitStatus\<close> loses no path and invents none: from the output of \<open>git status --porcelain=v1 -z\<close>
  it returns, once each and sorted, the path of every entry and the original path of every renamed
  or copied one - whatever the paths hold, blanks, quotes and line ends included.
\<close>

theorem git_status_exact:
  assumes "\<forall>e \<in> set es. entry_ok e"
  shows "gitStatus (Some (concat (map entry_text es))) =
    Some (concat (map entry_text es), sorted_list_of_set (\<Union>e \<in> set es. set (entry_paths e)))"
proof -
  have "status_tokens (split_on (\<lambda>c. c = NUL) (concat (map entry_text es))) = concat (map entry_paths es)"
    using assms
  proof (induction es)
    case Nil
    then show ?case by simp
  next
    case (Cons e es)
    then show ?case using status_tokens_entry [of e "concat (map entry_text es)"] by simp
  qed
  then show ?thesis by (simp add: gitStatus_def sorted_unique_eq)
qed

definition sample_entries :: "status_entry list" where
  "sample_entries = [\<lparr>se_xy = '' M'', se_path = ''b.ts'', se_orig = []\<rparr>, \<lparr>se_xy = ''R '', se_path = ''new name.ts'', se_orig = ''a.ts''\<rparr>]"

theorem git_status_exact_witness:
  "gitStatus (Some (concat (map entry_text sample_entries))) =
    Some (concat (map entry_text sample_entries), sorted_list_of_set {''b.ts'', ''new name.ts'', ''a.ts''})"
proof -
  have "\<forall>e \<in> set sample_entries. entry_ok e" by (simp add: sample_entries_def entry_ok_def NUL_def)
  from git_status_exact [OF this] show ?thesis
    by (simp add: sample_entries_def entry_paths_def renamed_def insert_commute)
qed

subsection \<open>The record over a history of ingests\<close>

record dirty_ingest =
  di_registry :: bool
  di_status :: "string option"
  di_full :: bool

definition record_ingest :: "dirty_ingest \<Rightarrow> dirty_row option \<Rightarrow> dirty_row option" where
  "record_ingest i row = writeIngestDirty (nextIngestDirty row (di_registry i) (di_status i) (di_full i)) row"

definition dirty_sources :: "dirty_ingest \<Rightarrow> string set" where
  "dirty_sources i = {p. \<exists>raw ps. gitStatus (di_status i) = Some (raw, ps) \<and> p \<in> set ps \<and> isSourcePath p}"

definition answered :: "dirty_ingest \<Rightarrow> bool" where
  "answered i \<longleftrightarrow> di_registry i \<and> di_status i \<noteq> None"

definition since_rebuild :: "dirty_ingest list \<Rightarrow> dirty_ingest list \<Rightarrow> bool" where
  "since_rebuild rs vs \<longleftrightarrow> (\<exists>us a ws. rs = us @ vs \<and> vs = a # ws \<and> di_full a \<and> (\<forall>w \<in> set ws. \<not> di_full w))"

definition listed :: "dirty_ingest list \<Rightarrow> string list" where
  "listed vs = sorted_list_of_set (\<Union>v \<in> set vs. dirty_sources v)"

lemma finite_dirty [simp]: "finite (dirty_sources i)"
proof (cases "gitStatus (di_status i)")
  case None
  then show ?thesis by (simp add: dirty_sources_def)
next
  case (Some a)
  then have "dirty_sources i \<subseteq> set (snd a)" by (auto simp: dirty_sources_def)
  then show ?thesis by (rule finite_subset) simp
qed

lemma read_record:
  "readIngestDirty (record_ingest i row) = nextIngestDirty row (di_registry i) (di_status i) (di_full i)"
  by (simp add: record_ingest_def)

lemma sources_of_status:
  "di_status i = Some raw \<Longrightarrow>
    set (filter isSourcePath (sorted_unique (status_tokens (split_on (\<lambda>c. c = NUL) raw)))) = dirty_sources i"
  by (auto simp: dirty_sources_def gitStatus_def)

lemma next_full:
  assumes "di_full i"
  shows "readIngestDirty (record_ingest i row) = Some (DirtyPaths ps) \<longleftrightarrow>
    answered i \<and> ps = listed [i] \<and> length ps \<le> DIRTY_RECORD_CAP"
proof (cases "di_status i")
  case None
  with assms show ?thesis by (simp add: read_record nextIngestDirty_def answered_def gitStatus_def)
next
  case (Some raw)
  with assms sources_of_status [OF Some] show ?thesis
    by (auto simp: read_record nextIngestDirty_def answered_def gitStatus_def sorted_unique_eq [of "filter _ _"] Let_def listed_def)
qed

lemma next_partial:
  assumes "\<not> di_full i"
  shows "readIngestDirty (record_ingest i row) = Some (DirtyPaths ps) \<longleftrightarrow> answered i
    \<and> (\<exists>qs. readIngestDirty row = Some (DirtyPaths qs) \<and> ps = sorted_list_of_set (set qs \<union> dirty_sources i))
    \<and> length ps \<le> DIRTY_RECORD_CAP"
proof (cases "readIngestDirty row")
  case None
  with assms show ?thesis by (simp add: read_record nextIngestDirty_def)
next
  case (Some d)
  show ?thesis
  proof (cases d)
    case (DirtyPaths qs)
    show ?thesis
    proof (cases "di_status i")
      case None
      with assms Some DirtyPaths show ?thesis by (simp add: read_record nextIngestDirty_def answered_def gitStatus_def)
    next
      case st: (Some raw)
      let ?c = "filter isSourcePath (sorted_unique (status_tokens (split_on (\<lambda>c. c = NUL) raw)))"
      have "sorted_unique (qs @ ?c) = sorted_list_of_set (set qs \<union> dirty_sources i)"
        by (simp only: sorted_unique_eq [of "qs @ ?c"] set_append sources_of_status [OF st])
      with assms Some DirtyPaths st show ?thesis
        by (auto simp: read_record nextIngestDirty_def answered_def gitStatus_def Let_def)
    qed
  qed (use Some assms in \<open>simp_all add: read_record nextIngestDirty_def\<close>)
qed

lemma since_rebuild_full:
  assumes "di_full i"
  shows "since_rebuild (rs @ [i]) vs \<longleftrightarrow> vs = [i]"
proof
  assume "since_rebuild (rs @ [i]) vs"
  then obtain us a ws where "rs @ [i] = us @ a # ws" and vs: "vs = a # ws" and w: "\<forall>w \<in> set ws. \<not> di_full w"
    by (auto simp: since_rebuild_def)
  then show "vs = [i]" using assms by (cases ws rule: rev_cases) auto
qed (use assms in \<open>auto simp: since_rebuild_def\<close>)

lemma since_rebuild_partial:
  assumes "\<not> di_full i"
  shows "since_rebuild (rs @ [i]) vs \<longleftrightarrow> (\<exists>ws. since_rebuild rs ws \<and> vs = ws @ [i])"
proof
  assume "since_rebuild (rs @ [i]) vs"
  then obtain us a ws where r: "rs @ [i] = us @ a # ws" "vs = a # ws" "di_full a" "\<forall>w \<in> set ws. \<not> di_full w"
    by (auto simp: since_rebuild_def)
  then have "since_rebuild rs (a # butlast ws) \<and> vs = (a # butlast ws) @ [i]"
    using assms by (cases ws rule: rev_cases) (auto simp: since_rebuild_def)
  then show "\<exists>ws. since_rebuild rs ws \<and> vs = ws @ [i]" by blast
qed (use assms in \<open>auto simp: since_rebuild_def\<close>)

lemma listed_snoc:
  "listed (ws @ [i]) = sorted_list_of_set (set (listed ws) \<union> dirty_sources i)"
  "length (listed ws) \<le> length (listed (ws @ [i]))"
  by (auto simp: listed_def Un_commute intro!: card_mono)

text \<open>C34: the record is exact. In an index with any history of ingests, the row holds a list iff there
  has been a full rebuild, and at that one and every ingest since then the worktree registry existed
  and git answered, and at most 2000 files are concerned; the list is then exactly the source files
  that git reported at one of those ingests. So a file that is not listed was clean at every ingest
  that may have left it in the index.
\<close>

theorem record_exact:
  "readIngestDirty (fold record_ingest rs None) = Some (DirtyPaths ps) \<longleftrightarrow>
    (\<exists>vs. since_rebuild rs vs \<and> list_all answered vs \<and> ps = listed vs \<and> length ps \<le> DIRTY_RECORD_CAP)"
proof (induction rs arbitrary: ps rule: rev_induct)
  case Nil
  show ?case by (simp add: readIngestDirty_def since_rebuild_def)
next
  case (snoc i rs)
  show ?case
  proof (cases "di_full i")
    case True
    then show ?thesis by (simp add: next_full since_rebuild_full)
  next
    case False
    show ?thesis (is "?L \<longleftrightarrow> ?R")
    proof
      assume ?L
      then obtain qs where i: "answered i" and r: "readIngestDirty (fold record_ingest rs None) = Some (DirtyPaths qs)"
        and ps: "ps = sorted_list_of_set (set qs \<union> dirty_sources i)" "length ps \<le> DIRTY_RECORD_CAP"
        by (auto simp: next_partial [OF False])
      from r obtain ws where "since_rebuild rs ws" "list_all answered ws" "qs = listed ws" unfolding snoc by blast
      with i ps listed_snoc(1) show ?R unfolding since_rebuild_partial [OF False] by auto
    next
      assume ?R
      then obtain ws where w: "since_rebuild rs ws" "list_all answered (ws @ [i])" "ps = listed (ws @ [i])" "length ps \<le> DIRTY_RECORD_CAP"
        unfolding since_rebuild_partial [OF False] by blast
      with listed_snoc(2) [of ws i] have "readIngestDirty (fold record_ingest rs None) = Some (DirtyPaths (listed ws))"
        unfolding snoc by auto
      with w listed_snoc(1) show ?L by (auto simp: next_partial [OF False])
    qed
  qed
qed

end
