(* ===== verification/Ndjson.thy ===== *)
theory Ndjson
  imports Text
begin

text \<open>
  The stream of the native indexer: \<open>native/protocol.ts\<close> (records, their validation, the line
  reader) and \<open>recordIter\<close> of \<open>native/process.ts\<close>, which turns the chunks of the child's standard
  output into records. A text stands for its UTF-8 bytes, so that decoding a chunk is the identity
  (the output is well-formed UTF-8); \<open>parse\<close> is \<open>JSON.parse\<close>, \<open>None\<close> its exception. The numbers
  of a record have the type \<open>'n\<close>: JSON numbers when they are validated. Spawning, time-outs and the
  ring of error lines are left out. Shown here: the lines read do not depend on how the output is
  cut into chunks, a record survives its JSON form, and after a version that does not fit no record
  is delivered.
\<close>

subsection \<open>Records\<close>

datatype 'n native_node = NativeNode (nv_file: string) (nv_name: string) (nv_qualified_name: string) (nv_kind: string)
  (nv_language: string) (nv_range: "'n \<times> 'n") (nv_ast_hash: string)

datatype 'n native_edge = NativeEdge (ve_src_file: string) (ve_src_name: string) (ve_dst_name: string) (ve_kind: string)
  (ve_receiver: "string option") (ve_receiver_chain: "string list option") (ve_local: "string list option")
  (ve_import_aliases: "(string \<times> string) list option") (ve_line: "'n option") (ve_col: "'n option")

datatype 'n native_record =
    VersionRec 'n 'n 'n 'n
  | StartRec 'n string
  | NodeRec "'n native_node"
  | EdgeRec "'n native_edge"
  | ProgressRec 'n
  | WarnRec "string option" string
  | DoneRec 'n 'n 'n 'n
  | ReadyRec string string
  | ChangeRec string string 'n "string option"
  | OverflowRec 'n 'n
  | HeartbeatRec 'n
  | FatalRec string

datatype protocol_error =
    NotAnObject
  | NotAString string
  | NotANumber string
  | NotARange string
  | BadChangeKind
  | UnknownRecord
  | EmptyLine
  | InvalidJson

subsection \<open>Validation\<close>

definition asString :: "json option \<Rightarrow> string \<Rightarrow> protocol_error + string" where
  "asString value label = (case value of Some (JStr s) \<Rightarrow> Inr s | _ \<Rightarrow> Inl (NotAString label))"

definition is_number :: "json \<Rightarrow> bool" where
  "is_number j = (case j of JInt _ \<Rightarrow> True | JFrac \<Rightarrow> True | _ \<Rightarrow> False)"

definition asNumber :: "json option \<Rightarrow> string \<Rightarrow> protocol_error + json" where
  "asNumber value label = (case value of Some n \<Rightarrow> if is_number n then Inr n else Inl (NotANumber label)
     | None \<Rightarrow> Inl (NotANumber label))"

definition asRange :: "json option \<Rightarrow> string \<Rightarrow> protocol_error + json \<times> json" where
  "asRange value label = (case value of
     Some (JArr [a, b]) \<Rightarrow> if is_number a \<and> is_number b then Inr (a, b) else Inl (NotARange label)
   | _ \<Rightarrow> Inl (NotARange label))"

definition optional_string :: "json option \<Rightarrow> string option" where
  "optional_string value = (case value of Some (JStr s) \<Rightarrow> Some s | _ \<Rightarrow> None)"

definition optional_number :: "json option \<Rightarrow> json option" where
  "optional_number value = (case value of Some n \<Rightarrow> if is_number n then Some n else None | None \<Rightarrow> None)"

definition is_string :: "json \<Rightarrow> bool" where
  "is_string j = (case j of JStr _ \<Rightarrow> True | _ \<Rightarrow> False)"

definition the_string :: "json \<Rightarrow> string" where
  "the_string j = (case j of JStr s \<Rightarrow> s | _ \<Rightarrow> [])"

definition chain_of :: "json option \<Rightarrow> string list option" where
  "chain_of value = (case value of
     Some (JArr (j # js)) \<Rightarrow> if list_all is_string (j # js) then Some (map the_string (j # js)) else None
   | _ \<Rightarrow> None)"

definition locals_of :: "json option \<Rightarrow> string list option" where
  "locals_of value = (case value of Some (JArr js) \<Rightarrow> Some (map the_string (filter is_string js)) | _ \<Rightarrow> None)"

definition alias_of :: "json \<Rightarrow> (string \<times> string) option" where
  "alias_of j = (case (member ''local'' j, member ''imported'' j) of (Some (JStr a), Some (JStr b)) \<Rightarrow> Some (a, b) | _ \<Rightarrow> None)"

definition aliases_of :: "json option \<Rightarrow> (string \<times> string) list option" where
  "aliases_of value = (case value of
     Some (JArr js) \<Rightarrow> let ps = List.map_filter alias_of js in if ps = [] then None else Some ps
   | _ \<Rightarrow> None)"

definition validate_version :: "json \<Rightarrow> protocol_error + json native_record" where
  "validate_version obj =
     sbind (asNumber (member ''major'' obj) ''version.major'') (\<lambda>major.
     sbind (asNumber (member ''minor'' obj) ''version.minor'') (\<lambda>minor.
     sbind (asNumber (member ''patch'' obj) ''version.patch'') (\<lambda>patch.
     sbind (asNumber (member ''protocol'' obj) ''version.protocol'') (\<lambda>protocol.
     Inr (VersionRec major minor patch protocol)))))"

definition validate_node :: "json \<Rightarrow> protocol_error + json native_record" where
  "validate_node obj =
     sbind (asString (member ''file'' obj) ''node.file'') (\<lambda>f.
     sbind (asString (member ''name'' obj) ''node.name'') (\<lambda>name.
     sbind (asString (member ''qualified_name'' obj) ''node.qualified_name'') (\<lambda>qn.
     sbind (asString (member ''kind'' obj) ''node.kind'') (\<lambda>kind.
     sbind (asString (member ''language'' obj) ''node.language'') (\<lambda>language.
     sbind (asRange (member ''range'' obj) ''node.range'') (\<lambda>range.
     sbind (asString (member ''ast_hash'' obj) ''node.ast_hash'') (\<lambda>hash.
     Inr (NodeRec (NativeNode f name qn kind language range hash)))))))))"

definition validate_edge :: "json \<Rightarrow> protocol_error + json native_record" where
  "validate_edge obj =
     sbind (asString (member ''src_file'' obj) ''edge.src_file'') (\<lambda>src_file.
     sbind (asString (member ''src_name'' obj) ''edge.src_name'') (\<lambda>src_name.
     sbind (asString (member ''dst_name'' obj) ''edge.dst_name'') (\<lambda>dst_name.
     sbind (asString (member ''kind'' obj) ''edge.kind'') (\<lambda>kind.
     Inr (EdgeRec (NativeEdge src_file src_name dst_name kind
       (optional_string (member ''receiver'' obj)) (chain_of (member ''receiver_chain'' obj))
       (locals_of (member ''local'' obj)) (aliases_of (member ''import_aliases'' obj))
       (optional_number (member ''line'' obj)) (optional_number (member ''col'' obj))))))))"

definition validate_done :: "json \<Rightarrow> protocol_error + json native_record" where
  "validate_done obj =
     sbind (asNumber (member ''files_done'' obj) ''done.files_done'') (\<lambda>files.
     sbind (asNumber (member ''nodes'' obj) ''done.nodes'') (\<lambda>nodes.
     sbind (asNumber (member ''edges'' obj) ''done.edges'') (\<lambda>edges.
     sbind (asNumber (member ''elapsed_ms'' obj) ''done.elapsed_ms'') (\<lambda>ms.
     Inr (DoneRec files nodes edges ms)))))"

definition validate_change :: "json \<Rightarrow> protocol_error + json native_record" where
  "validate_change obj =
     sbind (asString (member ''kind'' obj) ''change.kind'') (\<lambda>kind.
     if kind \<notin> set [''create'', ''modify'', ''delete'', ''rename''] then Inl BadChangeKind
     else sbind (asString (member ''file'' obj) ''change.file'') (\<lambda>f.
       sbind (asNumber (member ''ts_ms'' obj) ''change.ts_ms'') (\<lambda>ts.
       Inr (ChangeRec f kind ts (optional_string (member ''from'' obj))))))"

definition validateRecord :: "json \<Rightarrow> protocol_error + json native_record" where
  "validateRecord obj =
     (if members obj = None then Inl NotAnObject
      else case member ''type'' obj of
        Some (JStr t) \<Rightarrow>
          if t = ''version'' then validate_version obj
          else if t = ''start'' then
            sbind (asNumber (member ''files_total'' obj) ''start.files_total'') (\<lambda>n.
            sbind (asString (member ''version'' obj) ''start.version'') (\<lambda>v. Inr (StartRec n v)))
          else if t = ''node'' then validate_node obj
          else if t = ''edge'' then validate_edge obj
          else if t = ''progress'' then
            sbind (asNumber (member ''files_done'' obj) ''progress.files_done'') (\<lambda>n. Inr (ProgressRec n))
          else if t = ''warn'' then
            sbind (asString (member ''message'' obj) ''warn.message'') (\<lambda>m.
            Inr (WarnRec (optional_string (member ''file'' obj)) m))
          else if t = ''done'' then validate_done obj
          else if t = ''ready'' then
            sbind (asString (member ''platform'' obj) ''ready.platform'') (\<lambda>p.
            sbind (asString (member ''backend'' obj) ''ready.backend'') (\<lambda>b. Inr (ReadyRec p b)))
          else if t = ''change'' then validate_change obj
          else if t = ''overflow'' then
            sbind (asNumber (member ''dropped'' obj) ''overflow.dropped'') (\<lambda>d.
            sbind (asNumber (member ''since_ms'' obj) ''overflow.since_ms'') (\<lambda>s. Inr (OverflowRec d s)))
          else if t = ''heartbeat'' then
            sbind (asNumber (member ''ts_ms'' obj) ''heartbeat.ts_ms'') (\<lambda>n. Inr (HeartbeatRec n))
          else if t = ''fatal'' then
            sbind (asString (member ''message'' obj) ''fatal.message'') (\<lambda>m. Inr (FatalRec m))
          else Inl UnknownRecord
      | _ \<Rightarrow> Inl UnknownRecord)"

definition parseLine :: "(string \<Rightarrow> json option) \<Rightarrow> string \<Rightarrow> protocol_error + json native_record" where
  "parseLine parse line =
     (let trimmed = trim line
      in if trimmed = [] then Inl EmptyLine
         else case parse trimmed of None \<Rightarrow> Inl InvalidJson | Some j \<Rightarrow> validateRecord j)"

subsection \<open>The handshake\<close>

datatype skew = VersionSkew | ProtocolSkew

definition EXPECTED_NATIVE_MAJOR :: json where "EXPECTED_NATIVE_MAJOR = JInt 0"

definition EXPECTED_NATIVE_PROTOCOL :: json where "EXPECTED_NATIVE_PROTOCOL = JInt 2"

definition assertVersionCompatible :: "json \<Rightarrow> json \<Rightarrow> skew + unit" where
  "assertVersionCompatible major protocol =
     (if major \<noteq> EXPECTED_NATIVE_MAJOR then Inl VersionSkew
      else if protocol \<noteq> EXPECTED_NATIVE_PROTOCOL then Inl ProtocolSkew else Inr ())"

definition checkHandshake :: "bool \<Rightarrow> json native_record \<Rightarrow> skew + unit" where
  "checkHandshake handshakeDone r =
     (if handshakeDone then Inr ()
      else case r of VersionRec major minor patch protocol \<Rightarrow> assertVersionCompatible major protocol | _ \<Rightarrow> Inr ())"

subsection \<open>Lines\<close>

record line_reader =
  lr_buf :: string
  lr_lines :: "string list"

definition LF :: char where "LF = CHR 0x0A"

definition strip_cr :: "string \<Rightarrow> string" where
  "strip_cr line = (if line \<noteq> [] \<and> last line = CHR 0x0D then butlast line else line)"

text \<open>The loop of \<open>push\<close>: complete lines leave the buffer.\<close>

function split_lines :: "line_reader \<Rightarrow> line_reader" where
  "split_lines r =
     (if LF \<in> set (lr_buf r)
      then split_lines \<lparr>lr_buf = tl (dropWhile (\<lambda>c. c \<noteq> LF) (lr_buf r)),
             lr_lines = lr_lines r @ [strip_cr (takeWhile (\<lambda>c. c \<noteq> LF) (lr_buf r))]\<rparr>
      else r)"
  by auto
termination
proof (relation "measure (\<lambda>r. length (lr_buf r))")
  fix r :: line_reader
  assume "LF \<in> set (lr_buf r)"
  then show "(\<lparr>lr_buf = tl (dropWhile (\<lambda>c. c \<noteq> LF) (lr_buf r)),
      lr_lines = lr_lines r @ [strip_cr (takeWhile (\<lambda>c. c \<noteq> LF) (lr_buf r))]\<rparr>, r) \<in> measure (\<lambda>r. length (lr_buf r))"
    using length_dropWhile_le [of "\<lambda>c. c \<noteq> LF" "lr_buf r"] by (cases "lr_buf r") (auto simp: le_imp_less_Suc)
qed simp

declare split_lines.simps [simp del]

definition push_chunk :: "string \<Rightarrow> line_reader \<Rightarrow> line_reader" where
  "push_chunk chunk r = split_lines (r\<lparr>lr_buf := lr_buf r @ chunk\<rparr>)"

definition flush_lines :: "line_reader \<Rightarrow> line_reader" where
  "flush_lines r = (if lr_buf r \<noteq> [] then \<lparr>lr_buf = [], lr_lines = lr_lines r @ [lr_buf r]\<rparr> else r)"

definition drain_lines :: "line_reader \<Rightarrow> string list \<times> line_reader" where
  "drain_lines r = (lr_lines r, r\<lparr>lr_lines := []\<rparr>)"

definition new_reader :: line_reader where "new_reader = \<lparr>lr_buf = [], lr_lines = []\<rparr>"

subsection \<open>The iterator\<close>

text \<open>
  The records yielded so far, the handshake flag, and the error that ended the iteration, if any; a
  line that is no record is logged and skipped.
\<close>

record record_iter =
  ri_reader :: line_reader
  ri_yielded :: "json native_record list"
  ri_handshakeDone :: bool
  ri_skew :: "skew option"

definition parseAndGate :: "(string \<Rightarrow> json option) \<Rightarrow> string \<Rightarrow> record_iter \<Rightarrow> record_iter" where
  "parseAndGate parse line it =
     (if ri_skew it \<noteq> None then it
      else case parseLine parse line of
        Inl _ \<Rightarrow> it
      | Inr r \<Rightarrow> (case checkHandshake (ri_handshakeDone it) r of
            Inl e \<Rightarrow> it\<lparr>ri_skew := Some e\<rparr>
          | Inr _ \<Rightarrow> it\<lparr>ri_yielded := ri_yielded it @ [r], ri_handshakeDone := True\<rparr>))"

definition drain_into :: "(string \<Rightarrow> json option) \<Rightarrow> record_iter \<Rightarrow> record_iter" where
  "drain_into parse it =
     (case drain_lines (ri_reader it) of (ls, r) \<Rightarrow> fold (parseAndGate parse) ls (it\<lparr>ri_reader := r\<rparr>))"

definition read_chunk :: "(string \<Rightarrow> json option) \<Rightarrow> string \<Rightarrow> record_iter \<Rightarrow> record_iter" where
  "read_chunk parse chunk it =
     (if ri_skew it \<noteq> None then it else drain_into parse (it\<lparr>ri_reader := push_chunk chunk (ri_reader it)\<rparr>))"

definition recordIter :: "(string \<Rightarrow> json option) \<Rightarrow> string list \<Rightarrow> json native_record list \<times> skew option" where
  "recordIter parse chunks =
     (let it = fold (read_chunk parse) chunks
                 \<lparr>ri_reader = new_reader, ri_yielded = [], ri_handshakeDone = False, ri_skew = None\<rparr>;
          it' = (if ri_skew it \<noteq> None then it else drain_into parse (it\<lparr>ri_reader := flush_lines (ri_reader it)\<rparr>))
      in (ri_yielded it', ri_skew it'))"

subsection \<open>The lines of a text\<close>

definition complete_lines :: "string \<Rightarrow> string list" where
  "complete_lines s = map strip_cr (butlast (split_on (\<lambda>c. c = LF) s))"

definition partial_line :: "string \<Rightarrow> string" where
  "partial_line s = last (split_on (\<lambda>c. c = LF) s)"

definition lines_of :: "string \<Rightarrow> string list" where
  "lines_of s = complete_lines s @ (if partial_line s = [] then [] else [partial_line s])"

lemma split_on_ne [simp]: "split_on sep s \<noteq> []"
  by (induction s) (auto split: list.splits)

lemma split_on_app: "split_on sep (s @ t) = butlast (split_on sep s) @ split_on sep (last (split_on sep s) @ t)"
proof (induction s)
  case Nil
  then show ?case by simp
next
  case (Cons c s)
  show ?case
  proof (cases "sep c")
    case True
    with Cons show ?thesis by simp
  next
    case False
    obtain w ws where s: "split_on sep s = w # ws" by (cases "split_on sep s") auto
    then show ?thesis
      using Cons False by (cases ws rule: rev_cases) (auto split: list.splits)
  qed
qed

lemma lines_append:
  "complete_lines (s @ t) = complete_lines s @ complete_lines (partial_line s @ t)"
  "partial_line (s @ t) = partial_line (partial_line s @ t)"
  by (simp_all add: complete_lines_def partial_line_def split_on_app [of _ s t] butlast_append)

lemma partial_no_LF: "LF \<notin> set (partial_line s)"
  using split_on_parts [of "\<lambda>c. c = LF" s] last_in_set [of "split_on (\<lambda>c. c = LF) s"] by (auto simp: partial_line_def)

lemma split_lines_spec:
  "split_lines r = \<lparr>lr_buf = partial_line (lr_buf r), lr_lines = lr_lines r @ complete_lines (lr_buf r)\<rparr>"
proof (induction r rule: split_lines.induct)
  case (1 r)
  show ?case
  proof (cases "LF \<in> set (lr_buf r)")
    case True
    let ?l = "takeWhile (\<lambda>c. c \<noteq> LF) (lr_buf r)" and ?t = "tl (dropWhile (\<lambda>c. c \<noteq> LF) (lr_buf r))"
    have "LF \<notin> set ?l" by (auto dest: set_takeWhileD)
    moreover have "lr_buf r = ?l @ LF # ?t"
      using True takeWhile_dropWhile_id [of "\<lambda>c. c \<noteq> LF" "lr_buf r"] hd_dropWhile [of "\<lambda>c. c \<noteq> LF" "lr_buf r"]
      by (metis (mono_tags, lifting) append.right_neutral hd_Cons_tl set_takeWhileD)
    ultimately have "split_on (\<lambda>c. c = LF) (lr_buf r) = ?l # split_on (\<lambda>c. c = LF) ?t"
      using split_on_append [of "\<lambda>c. c = LF" LF ?l ?t] by auto
    then have "partial_line (lr_buf r) = partial_line ?t" "complete_lines (lr_buf r) = strip_cr ?l # complete_lines ?t"
      by (simp_all add: partial_line_def complete_lines_def)
    with 1 [OF True] True show ?thesis by (subst split_lines.simps) simp
  next
    case False
    then have "split_on (\<lambda>c. c = LF) (lr_buf r) = [lr_buf r]" by (intro split_on_bare) auto
    with False show ?thesis by (subst split_lines.simps) (simp add: partial_line_def complete_lines_def)
  qed
qed

subsection \<open>One gate for all lines\<close>

definition iter_start :: record_iter where
  "iter_start = \<lparr>ri_reader = new_reader, ri_yielded = [], ri_handshakeDone = False, ri_skew = None\<rparr>"

definition gated :: "(string \<Rightarrow> json option) \<Rightarrow> string list \<Rightarrow> record_iter" where
  "gated parse ls = fold (parseAndGate parse) ls iter_start"

lemma gate_reader: "fold (parseAndGate parse) ls (it\<lparr>ri_reader := r\<rparr>) = (fold (parseAndGate parse) ls it)\<lparr>ri_reader := r\<rparr>"
proof (induction ls arbitrary: it)
  case (Cons l ls)
  have "parseAndGate parse l (it\<lparr>ri_reader := r\<rparr>) = (parseAndGate parse l it)\<lparr>ri_reader := r\<rparr>"
    by (simp add: parseAndGate_def split: sum.split)
  with Cons show ?case by simp
qed simp

lemma gate_stuck: "ri_skew it \<noteq> None \<Longrightarrow> fold (parseAndGate parse) ls it = it"
  by (induction ls) (simp_all add: parseAndGate_def)

lemma gated_append: "gated parse (ls @ ks) = fold (parseAndGate parse) ks (gated parse ls)"
  by (simp add: gated_def)

lemma read_chunks:
  "(fold (read_chunk parse) chunks iter_start)\<lparr>ri_reader := new_reader\<rparr> = gated parse (complete_lines (concat chunks)) \<and>
    (ri_skew (fold (read_chunk parse) chunks iter_start) = None \<longrightarrow>
      ri_reader (fold (read_chunk parse) chunks iter_start) = \<lparr>lr_buf = partial_line (concat chunks), lr_lines = []\<rparr>)"
proof (induction chunks rule: rev_induct)
  case Nil
  show ?case by (simp add: gated_def iter_start_def new_reader_def complete_lines_def partial_line_def)
next
  case (snoc c cs)
  let ?it = "fold (read_chunk parse) cs iter_start" and ?s = "concat cs"
  have e: "fold (read_chunk parse) (cs @ [c]) iter_start = read_chunk parse c ?it" by simp
  show ?case
  proof (cases "ri_skew ?it")
    case (Some x)
    have "?it\<lparr>ri_reader := new_reader\<rparr> = gated parse (complete_lines ?s)" using snoc by blast
    from arg_cong [OF this, of ri_skew] have "ri_skew (gated parse (complete_lines ?s)) = Some x" using Some by simp
    then have "gated parse (complete_lines (?s @ c)) = gated parse (complete_lines ?s)"
      unfolding lines_append(1) [of ?s c] gated_append by (intro gate_stuck) simp
    moreover have "read_chunk parse c ?it = ?it" using Some by (simp add: read_chunk_def)
    ultimately show ?thesis unfolding e using snoc Some by simp
  next
    case None
    then have r: "ri_reader ?it = \<lparr>lr_buf = partial_line ?s, lr_lines = []\<rparr>" using snoc by blast
    have "read_chunk parse c ?it = (fold (parseAndGate parse) (complete_lines (partial_line ?s @ c)) ?it)
        \<lparr>ri_reader := \<lparr>lr_buf = partial_line (?s @ c), lr_lines = []\<rparr>\<rparr>"
      using None r by (simp add: read_chunk_def drain_into_def drain_lines_def push_chunk_def split_lines_spec gate_reader
          lines_append(2) [of ?s c])
    moreover have "(fold (parseAndGate parse) (complete_lines (partial_line ?s @ c)) ?it)\<lparr>ri_reader := new_reader\<rparr>
        = gated parse (complete_lines (?s @ c))"
      using snoc by (simp only: lines_append(1) [of ?s c] gated_append flip: gate_reader)
    ultimately show ?thesis unfolding e by simp
  qed
qed

text \<open>C35: chunk boundaries do not matter. However the child's output is cut into chunks - within a
  line, within a line end, within nothing at all - the iterator yields the records of the lines of
  the whole output, in order, and ends with the same error.
\<close>

theorem chunks_irrelevant:
  "recordIter parse chunks =
    (let it = fold (parseAndGate parse) (lines_of (concat chunks)) iter_start in (ri_yielded it, ri_skew it))"
proof -
  let ?it = "fold (read_chunk parse) chunks iter_start" and ?s = "concat chunks"
  let ?g = "gated parse (complete_lines ?s)"
  have g: "?it\<lparr>ri_reader := new_reader\<rparr> = ?g" using read_chunks by blast
  have v: "ri_yielded ?it = ri_yielded ?g" "ri_skew ?it = ri_skew ?g"
    using arg_cong [OF g, of ri_yielded] arg_cong [OF g, of ri_skew] by simp_all
  let ?tail = "if partial_line ?s = [] then [] else [partial_line ?s]"
  have l: "fold (parseAndGate parse) (lines_of ?s) iter_start = fold (parseAndGate parse) ?tail ?g"
    by (simp add: lines_of_def gated_def)
  show ?thesis
  proof (cases "ri_skew ?it")
    case (Some x)
    then have "fold (parseAndGate parse) ?tail ?g = ?g" using v by (intro gate_stuck) simp
    with Some v l show ?thesis by (simp add: recordIter_def Let_def flip: iter_start_def)
  next
    case None
    then have r: "ri_reader ?it = \<lparr>lr_buf = partial_line ?s, lr_lines = []\<rparr>" using read_chunks by blast
    have "drain_into parse (?it\<lparr>ri_reader := flush_lines (ri_reader ?it)\<rparr>)
        = (fold (parseAndGate parse) ?tail ?g)\<lparr>ri_reader := new_reader\<rparr>"
      using r by (simp add: drain_into_def drain_lines_def flush_lines_def gate_reader new_reader_def flip: g [unfolded new_reader_def])
    with None l show ?thesis by (simp add: recordIter_def Let_def flip: iter_start_def)
  qed
qed

text \<open>nothing passes an indexer that does not fit. When the handshake fails no record at all has
  been delivered; and a stream that begins with a version record has the expected major and
  protocol.
\<close>

theorem handshake_first:
  assumes "recordIter parse chunks = (ys, e)"
  shows "(e \<noteq> None \<longrightarrow> ys = []) \<and>
    (\<forall>major minor patch protocol. ys \<noteq> [] \<and> hd ys = VersionRec major minor patch protocol \<longrightarrow>
      major = EXPECTED_NATIVE_MAJOR \<and> protocol = EXPECTED_NATIVE_PROTOCOL)"
proof -
  define ok where "ok = (\<lambda>it :: record_iter. ri_handshakeDone it = (ri_yielded it \<noteq> []) \<and> (ri_skew it \<noteq> None \<longrightarrow> ri_yielded it = [])
    \<and> (\<forall>major minor patch protocol. ri_yielded it \<noteq> [] \<and> hd (ri_yielded it) = VersionRec major minor patch protocol \<longrightarrow>
        major = EXPECTED_NATIVE_MAJOR \<and> protocol = EXPECTED_NATIVE_PROTOCOL))"
  have step: "ok (parseAndGate parse l it)" if "ok it" for l it
    using that by (cases "ri_yielded it")
      (auto simp: ok_def parseAndGate_def checkHandshake_def assertVersionCompatible_def split: sum.splits if_splits native_record.splits)
  have "ok (fold (parseAndGate parse) ls it)" if "ok it" for ls it
    using that by (induction ls arbitrary: it) (auto intro: step)
  moreover have "ok iter_start" by (simp add: ok_def iter_start_def)
  ultimately have "ok (fold (parseAndGate parse) (lines_of (concat chunks)) iter_start)" by blast
  with assms chunks_irrelevant [of parse chunks] show ?thesis by (auto simp: ok_def Let_def)
qed

text \<open>The sample parser knows three lines, of an older indexer, of this one, and a start record.\<close>

definition sample_parse :: "string \<Rightarrow> json option" where
  "sample_parse s = map_of
     [(''old'', JObj [(''type'', JStr ''version''), (''major'', JInt 0), (''minor'', JInt 1), (''patch'', JInt 0), (''protocol'', JInt 1)]),
      (''new'', JObj [(''type'', JStr ''version''), (''major'', JInt 0), (''minor'', JInt 3), (''patch'', JInt 0), (''protocol'', JInt 2)]),
      (''start'', JObj [(''type'', JStr ''start''), (''files_total'', JInt 7), (''version'', JStr ''0.3.0'')])] s"

lemma sample_stream:
  "recordIter sample_parse [''ne'', ''w'' @ [CHR 0x0D, LF] @ ''sta'', ''rt''] = ([VersionRec (JInt 0) (JInt 3) (JInt 0) (JInt 2), StartRec (JInt 7) ''0.3.0''], None)"
  "recordIter sample_parse [''old'' @ [LF], ''start''] = ([], Some ProtocolSkew)"
  by code_simp+

theorem handshake_first_witness:
  "\<exists>ys e. recordIter sample_parse [''old'' @ [LF], ''start''] = (ys, e) \<and> e \<noteq> None \<and> ys = []"
  using handshake_first [OF sample_stream(2)] sample_stream(2) by blast

subsection \<open>A record and its JSON form\<close>

definition opt_member :: "string \<Rightarrow> ('a \<Rightarrow> json) \<Rightarrow> 'a option \<Rightarrow> (string \<times> json) list" where
  "opt_member k f x = (case x of None \<Rightarrow> [] | Some v \<Rightarrow> [(k, f v)])"

definition strings_json :: "string list \<Rightarrow> json" where
  "strings_json ss = JArr (map JStr ss)"

definition aliases_json :: "(string \<times> string) list \<Rightarrow> json" where
  "aliases_json ps = JArr (map (\<lambda>(a, b). JObj [(''local'', JStr a), (''imported'', JStr b)]) ps)"

fun native_json :: "json native_record \<Rightarrow> json" where
  "native_json (VersionRec a b c p) = JObj [(''type'', JStr ''version''), (''major'', a), (''minor'', b), (''patch'', c), (''protocol'', p)]"
| "native_json (StartRec n v) = JObj [(''type'', JStr ''start''), (''files_total'', n), (''version'', JStr v)]"
| "native_json (NodeRec n) = JObj [(''type'', JStr ''node''), (''file'', JStr (nv_file n)), (''name'', JStr (nv_name n)),
     (''qualified_name'', JStr (nv_qualified_name n)), (''kind'', JStr (nv_kind n)), (''language'', JStr (nv_language n)),
     (''range'', JArr [fst (nv_range n), snd (nv_range n)]), (''ast_hash'', JStr (nv_ast_hash n))]"
| "native_json (EdgeRec e) = JObj ([(''type'', JStr ''edge''), (''src_file'', JStr (ve_src_file e)), (''src_name'', JStr (ve_src_name e)),
     (''dst_name'', JStr (ve_dst_name e)), (''kind'', JStr (ve_kind e))]
     @ opt_member ''receiver'' JStr (ve_receiver e) @ opt_member ''receiver_chain'' strings_json (ve_receiver_chain e)
     @ opt_member ''local'' strings_json (ve_local e) @ opt_member ''import_aliases'' aliases_json (ve_import_aliases e)
     @ opt_member ''line'' id (ve_line e) @ opt_member ''col'' id (ve_col e))"
| "native_json (ProgressRec n) = JObj [(''type'', JStr ''progress''), (''files_done'', n)]"
| "native_json (WarnRec f m) = JObj ([(''type'', JStr ''warn''), (''message'', JStr m)] @ opt_member ''file'' JStr f)"
| "native_json (DoneRec f n e ms) = JObj [(''type'', JStr ''done''), (''files_done'', f), (''nodes'', n), (''edges'', e), (''elapsed_ms'', ms)]"
| "native_json (ReadyRec p b) = JObj [(''type'', JStr ''ready''), (''platform'', JStr p), (''backend'', JStr b)]"
| "native_json (ChangeRec f k ts g) = JObj ([(''type'', JStr ''change''), (''file'', JStr f), (''kind'', JStr k), (''ts_ms'', ts)]
     @ opt_member ''from'' JStr g)"
| "native_json (OverflowRec d s) = JObj [(''type'', JStr ''overflow''), (''dropped'', d), (''since_ms'', s)]"
| "native_json (HeartbeatRec n) = JObj [(''type'', JStr ''heartbeat''), (''ts_ms'', n)]"
| "native_json (FatalRec m) = JObj [(''type'', JStr ''fatal''), (''message'', JStr m)]"

text \<open>Numbers are numbers, a chain and a list of aliases hold something, a change is of a known kind.\<close>

definition record_ok :: "json native_record \<Rightarrow> bool" where
  "record_ok r \<longleftrightarrow> (\<forall>n \<in> set_native_record r. is_number n) \<and>
     (case r of
        EdgeRec e \<Rightarrow> ve_receiver_chain e \<noteq> Some [] \<and> ve_import_aliases e \<noteq> Some []
      | ChangeRec f k ts g \<Rightarrow> k \<in> set [''create'', ''modify'', ''delete'', ''rename'']
      | _ \<Rightarrow> True)"

lemma map_of_opt [simp]:
  "map_of ys k = None \<Longrightarrow> map_of (opt_member k f x @ ys) k = map_option f x"
  "k' \<noteq> k \<Longrightarrow> map_of (opt_member k f x @ ys) k' = map_of ys k'"
  by (simp_all add: opt_member_def map_add_def split: option.split)

lemma map_of_opt_end [simp]: "map_of (opt_member k f x) k' = (if k' = k then map_option f x else None)"
  by (simp add: opt_member_def split: option.split)

lemma is_string_JStr [simp]: "is_string (JStr s)" "the_string (JStr s) = s"
  by (simp_all add: is_string_def the_string_def)

lemma strings_back [simp]: "list_all is_string (map JStr ss)" "map the_string (map JStr ss) = ss" "filter is_string (map JStr ss) = map JStr ss"
  by (induction ss) simp_all

lemma aliases_back: "List.map_filter alias_of (map (\<lambda>(a, b). JObj [(''local'', JStr a), (''imported'', JStr b)]) ps) = ps"
  by (induction ps) (auto simp: map_filter_simps alias_of_def member_def)

lemma options_back:
  "optional_string (map_option JStr x) = x"
  "c \<noteq> Some [] \<Longrightarrow> chain_of (map_option strings_json c) = c"
  "locals_of (map_option strings_json c) = c"
  "a \<noteq> Some [] \<Longrightarrow> aliases_of (map_option aliases_json a) = a"
  "\<forall>v \<in> set_option n. is_number v \<Longrightarrow> optional_number n = n"
  using strings_back aliases_back
  by (auto simp: optional_string_def chain_of_def strings_json_def locals_of_def aliases_of_def aliases_json_def optional_number_def
      Let_def comp_def split: option.split list.split)

lemma asNumber_ok [simp]: "is_number n \<Longrightarrow> asNumber (Some n) l = Inr n"
  by (simp add: asNumber_def)

lemma asString_ok [simp]: "asString (Some (JStr s)) l = Inr s"
  by (simp add: asString_def)

text \<open>the protocol loses nothing. A record written as the JSON object the protocol describes, with
  its optional members left out where they are absent, is read back as that record.
\<close>

theorem record_roundtrip:
  assumes "record_ok r"
  shows "validateRecord (native_json r) = Inr r"
proof (cases r)
  case (EdgeRec e)
  then have "ve_receiver_chain e \<noteq> Some []" "ve_import_aliases e \<noteq> Some []" "\<forall>v \<in> set_option (ve_line e). is_number v"
    "\<forall>v \<in> set_option (ve_col e). is_number v"
    using assms by (auto simp: record_ok_def native_edge.set_sel)
  moreover have "map_option id = (id :: json option \<Rightarrow> json option)" by (rule option.map_id0)
  ultimately show ?thesis
    by (simp add: EdgeRec validateRecord_def members_def member_def validate_edge_def options_back del: map_of_append)
next
  case (NodeRec n)
  then have "is_number (fst (nv_range n))" "is_number (snd (nv_range n))"
    using assms by (cases n; cases "nv_range n"; auto simp: record_ok_def)+
  then show ?thesis
    by (simp add: NodeRec validateRecord_def members_def member_def validate_node_def asRange_def)
qed (use assms in \<open>auto simp: record_ok_def validateRecord_def members_def member_def validate_version_def validate_done_def
  validate_change_def options_back simp del: map_of_append\<close>)

definition sample_call :: "json native_record" where
  "sample_call = EdgeRec (NativeEdge ''b.ts'' ''run'' ''get'' ''static_call'' (Some ''api'') None None None (Some (JInt 3)) (Some (JInt 7)))"

theorem record_roundtrip_witness: "validateRecord (native_json sample_call) = Inr sample_call"
  by (rule record_roundtrip) (simp add: record_ok_def sample_call_def is_number_def)

end
