(* ===== verification/Ingest.thy ===== *)
theory Ingest
  imports EdgeResolver IdScheme IndexHealth IngestDirty Ndjson Complex_Main
begin

text \<open>
  One ingest, \<open>graph/ingest.ts\<close>: \<open>runIngest\<close> drains the records of the native indexer into the
  project index. A record arrives with the reading of the clock that its handling takes; the
  environment, git and the native exit code are in the record \<open>ingest_opts\<close>. Every state that the
  index file takes, one per transaction, is appended to \<open>history\<close>, so that a crash leaves one of
  them. Of the spill, only the order of its rows matters, not its pages; the key of an edge, joined with
  NUL, is the triple. Left out are the log lines,
  the markdown files, and the reclaiming of fleet memory after the ingest. Shown here: at every
  moment before success a reader is told not to trust the index, success is one transaction, and
  the tables hold exactly what a pass over all records without batches and buffers yields.
\<close>

subsection \<open>Parameters\<close>

definition NODE_BATCH :: nat where "NODE_BATCH = 1000"

definition EDGE_BATCH :: nat where "EDGE_BATCH = 1000"

definition DEFAULT_MAX_INGEST_FILES :: int where "DEFAULT_MAX_INGEST_FILES = 200000"

definition DEFAULT_MAX_INGEST_NODES :: int where "DEFAULT_MAX_INGEST_NODES = 2000000"

definition DEFAULT_MAX_INGEST_EDGES :: int where "DEFAULT_MAX_INGEST_EDGES = 5000000"

text \<open>The variable as \<open>Number\<close> reads it: unset, not finite, or a number.\<close>

definition capFromEnv :: "rat option option \<Rightarrow> int \<Rightarrow> int" where
  "capFromEnv raw fallback =
     (case raw of Some (Some n) \<Rightarrow> if 0 < n then \<lfloor>n\<rfloor> else fallback | _ \<Rightarrow> fallback)"

definition PARENT_DIR_MODULE_FILES :: "string list" where
  "PARENT_DIR_MODULE_FILES = [''mod.rs'', ''lib.rs'', ''main.rs'', ''__init__.py'']"

definition fallbackModuleName :: "string \<Rightarrow> string" where
  "fallbackModuleName f =
     (let parts = filter (\<lambda>p. p \<noteq> []) (split_on slash (normalizePosix f));
          filename = (if parts = [] then f else last parts)
      in if filename \<in> set PARENT_DIR_MODULE_FILES \<and> 2 \<le> length parts then last (butlast parts) else stripExt filename)"

text \<open>\<open>git rev-parse HEAD\<close>, trimmed; \<open>None\<close> when git fails or prints something else than a hash.\<close>

definition lower_hex :: "char \<Rightarrow> bool" where
  "lower_hex c \<longleftrightarrow> c \<in> set ''0123456789abcdef''"

definition readGitHead :: "string option \<Rightarrow> string option" where
  "readGitHead output = (case output of
     None \<Rightarrow> None
   | Some s \<Rightarrow> (let head = trim s in if 7 \<le> length head \<and> length head \<le> 64 \<and> list_all lower_hex head then Some head else None))"

record ingest_opts =
  io_env :: resolve_env
  io_fullRebuild :: bool
  io_clearBeforeIngest :: bool
  io_maxFiles :: int
  io_maxNodes :: int
  io_maxEdges :: int
  io_minted :: string
  io_esrch :: "int \<Rightarrow> bool"
  io_startedAt :: int
  io_resolvedAt :: int
  io_finishedAt :: int
  io_git_head :: "string option"
  io_git_status :: "string option"
  io_registry :: bool

subsection \<open>State\<close>

record index_disk =
  dk_index :: index_file
  dk_dirty :: "dirty_row option"

datatype abort_reason = FilesCap | NodesCap | EdgesCap

datatype ingest_error =
    Refused abort_reason
  | StreamFailed
  | NativeExit int
  | NotResolved resolver_error

record ingest_state =
  disk :: index_disk
  history :: "index_disk list"
  handle :: "string option"
  abortReason :: "abort_reason option"
  mutatedIndex :: bool
  parsedFiles :: "string list"
  moduleByFile :: "string \<Rightarrow> string option"
  fileByModuleId :: "string \<Rightarrow> string option"
  idCollisions :: int
  filesTotal :: int
  filesDone :: int
  warnings :: int
  nativeNodes :: int
  nativeElapsedMs :: int
  nodeCount :: int
  edgeCount :: int
  edgeResolver :: edge_resolver
  nodeBuffer :: "graph_node list"
  edgeBuffer :: "raw_edge list"
  spilledEdges :: "raw_edge list"

record ingest_result =
  ir_filesTotal :: int
  ir_filesDone :: int
  ir_nodes :: int
  ir_edges :: nat
  ir_unresolvedEdges :: int
  ir_warnings :: int
  ir_nativeElapsedMs :: int
  ir_idCollisions :: int

text \<open>A transaction on the index file.\<close>

definition write_disk :: "(index_disk \<Rightarrow> index_disk) \<Rightarrow> ingest_state \<Rightarrow> ingest_state" where
  "write_disk f st = st\<lparr>disk := f (disk st), history := history st @ [f (disk st)]\<rparr>"

definition on_tables :: "(db \<Rightarrow> db) \<Rightarrow> index_disk \<Rightarrow> index_disk" where
  "on_tables f d = d\<lparr>dk_index := (dk_index d)\<lparr>tables := f (tables (dk_index d))\<rparr>\<rparr>"

abbreviation disk_tables :: "ingest_state \<Rightarrow> db" where
  "disk_tables st \<equiv> tables (dk_index (disk st))"

definition ingest_start :: "ingest_opts \<Rightarrow> string option \<times> index_disk \<Rightarrow> ingest_state" where
  "ingest_start opts s =
     (case s of (ingestToken, d) \<Rightarrow>
        case beginIngest (io_minted opts) (io_startedAt opts) (ingestToken, dk_index d) of (_, tok, ix) \<Rightarrow>
          let d' = d\<lparr>dk_index := ix\<rparr>
          in \<lparr>disk = d', history = [d'], handle = tok, abortReason = None, mutatedIndex = False, parsedFiles = [],
              moduleByFile = (\<lambda>_. None), fileByModuleId = (\<lambda>_. None), idCollisions = 0, filesTotal = 0, filesDone = 0,
              warnings = 0, nativeNodes = 0, nativeElapsedMs = 0, nodeCount = 0, edgeCount = 0, edgeResolver = new_resolver,
              nodeBuffer = [], edgeBuffer = [], spilledEdges = []\<rparr>)"

subsection \<open>Draining the stream\<close>

definition flushNodes :: "ingest_state \<Rightarrow> ingest_state" where
  "flushNodes st =
     (if nodeBuffer st = [] then st
      else (write_disk (on_tables (\<lambda>t. snd (upsertNodes (nodeBuffer st) t))) st)\<lparr>mutatedIndex := True, nodeBuffer := []\<rparr>)"

definition flushEdges :: "ingest_state \<Rightarrow> ingest_state" where
  "flushEdges st = (if edgeBuffer st = [] then st else st\<lparr>spilledEdges := spilledEdges st @ edgeBuffer st, edgeBuffer := []\<rparr>)"

definition clear_index :: "ingest_opts \<Rightarrow> int \<Rightarrow> ingest_state \<Rightarrow> ingest_state" where
  "clear_index opts now st =
     (case clearGraph (io_esrch opts) (io_minted opts) now (handle st, dk_index (disk st)) of (tok, ix) \<Rightarrow>
        (write_disk (\<lambda>d. d\<lparr>dk_index := ix\<rparr>) st)\<lparr>handle := tok, mutatedIndex := True\<rparr>)"

definition entity_module :: "string \<Rightarrow> string \<Rightarrow> (string \<Rightarrow> string option) \<Rightarrow> string option" where
  "entity_module kind f modules =
     (if kind = ''module'' then None
      else case modules f of Some m \<Rightarrow> Some m | None \<Rightarrow> Some (fallbackModuleName f))"

definition node_of :: "int \<Rightarrow> int native_node \<Rightarrow> (string \<Rightarrow> string option) \<Rightarrow> graph_node" where
  "node_of now n modules =
     (let qn = (if nv_qualified_name n \<noteq> [] then nv_qualified_name n else nv_name n)
      in \<lparr>gn_id = deriveEntityId (nv_file n) qn (nonempty (entity_module (nv_kind n) (nv_file n) modules)) (Some (nv_kind n)),
          gn_name = nv_name n, gn_qualified_name = qn, gn_kind = nv_kind n, gn_language = nv_language n, gn_file = nv_file n,
          gn_range = nv_range n, gn_ast_hash = nv_ast_hash n, gn_summary = None, gn_last_seen = now, gn_logical_clock = 0,
          gn_last_modified_by = None\<rparr>)"

definition note_module :: "int native_node \<Rightarrow> (string \<Rightarrow> string option) \<Rightarrow> (string \<Rightarrow> string option)" where
  "note_module n modules =
     (if nv_kind n = ''module''
      then modules(nv_file n \<mapsto> (if nv_qualified_name n \<noteq> [] then nv_qualified_name n else nv_name n)) else modules)"

definition claim_module_id :: "graph_node \<Rightarrow> ingest_state \<Rightarrow> ingest_state" where
  "claim_module_id node st =
     (if gn_kind node \<noteq> ''module'' then st
      else case fileByModuleId st (gn_id node) of
        None \<Rightarrow> st\<lparr>fileByModuleId := (fileByModuleId st)(gn_id node \<mapsto> gn_file node)\<rparr>
      | Some owner \<Rightarrow> if owner \<noteq> gn_file node then st\<lparr>idCollisions := idCollisions st + 1\<rparr> else st)"

definition handle_node :: "ingest_opts \<Rightarrow> int \<Rightarrow> int native_node \<Rightarrow> ingest_state \<Rightarrow> ingest_state" where
  "handle_node opts now n st =
     (let modules = note_module n (moduleByFile st);
          node = node_of now n modules;
          st1 = claim_module_id node (st\<lparr>moduleByFile := modules\<rparr>);
          st2 = st1\<lparr>nodeCount := nodeCount st1 + 1, edgeResolver := addNode (io_env opts) node (edgeResolver st1),
                    parsedFiles := set_add (nv_file n) (parsedFiles st1), nodeBuffer := nodeBuffer st1 @ [node]\<rparr>;
          st3 = (if NODE_BATCH \<le> length (nodeBuffer st2) then flushNodes st2 else st2)
      in if nodeCount st3 > io_maxNodes opts then st3\<lparr>abortReason := Some NodesCap\<rparr> else st3)"

definition raw_of_edge :: "int native_edge \<Rightarrow> raw_edge" where
  "raw_of_edge e = \<lparr>re_src_file = ve_src_file e, re_src_name = ve_src_name e, re_dst_name = ve_dst_name e, re_kind = ve_kind e,
     re_weight = None, re_receiver = ve_receiver e,
     re_receiver_chain = (case ve_receiver_chain e of Some (c # cs) \<Rightarrow> Some (c # cs) | _ \<Rightarrow> None),
     re_local = ve_local e,
     re_import_aliases = (case ve_import_aliases e of Some (p # ps) \<Rightarrow> Some (p # ps) | _ \<Rightarrow> None),
     re_line = ve_line e, re_col = ve_col e\<rparr>"

definition handle_edge :: "ingest_opts \<Rightarrow> int native_edge \<Rightarrow> ingest_state \<Rightarrow> ingest_state" where
  "handle_edge opts e st =
     (let st1 = st\<lparr>edgeBuffer := edgeBuffer st @ [raw_of_edge e], edgeCount := edgeCount st + 1\<rparr>;
          st2 = (if EDGE_BATCH \<le> length (edgeBuffer st1) then flushEdges st1 else st1)
      in if edgeCount st2 > io_maxEdges opts then st2\<lparr>abortReason := Some EdgesCap\<rparr> else st2)"

fun handleRecord :: "ingest_opts \<Rightarrow> int \<times> int native_record \<Rightarrow> ingest_state \<Rightarrow> ingest_state" where
  "handleRecord opts (now, StartRec files_total version) st =
     (let st1 = st\<lparr>filesTotal := files_total\<rparr>
      in if files_total > io_maxFiles opts then st1\<lparr>abortReason := Some FilesCap\<rparr>
         else if io_clearBeforeIngest opts then clear_index opts now st1 else st1)"
| "handleRecord opts (now, NodeRec n) st = handle_node opts now n st"
| "handleRecord opts (now, EdgeRec e) st = handle_edge opts e st"
| "handleRecord opts (now, ProgressRec files_done) st = st\<lparr>filesDone := files_done\<rparr>"
| "handleRecord opts (now, WarnRec f m) st = st\<lparr>warnings := warnings st + 1\<rparr>"
| "handleRecord opts (now, DoneRec files_done nodes edges ms) st =
     st\<lparr>filesDone := files_done, nativeNodes := nodes, nativeElapsedMs := ms\<rparr>"
| "handleRecord opts _ st = st"

fun drain_records :: "ingest_opts \<Rightarrow> (int \<times> int native_record) list \<Rightarrow> ingest_state \<Rightarrow> ingest_state" where
  "drain_records opts [] st = st"
| "drain_records opts (r # rs) st =
     (let st' = handleRecord opts r st in if abortReason st' \<noteq> None then st' else drain_records opts rs st')"

definition end_ingest_disk :: "string option \<Rightarrow> index_disk \<Rightarrow> index_disk" where
  "end_ingest_disk tok d = d\<lparr>dk_index := snd (endIngest (tok, dk_index d))\<rparr>"

definition refuse :: "bool \<Rightarrow> ingest_state \<Rightarrow> ingest_state" where
  "refuse callerDeclaredIngest st =
     (if \<not> mutatedIndex st \<and> \<not> callerDeclaredIngest
      then (write_disk (end_ingest_disk (handle st)) st)\<lparr>handle := None\<rparr> else st)"

subsection \<open>The second pass\<close>

text \<open>A buffer that is handed over when it is full.\<close>

definition push_batch :: "('a list \<Rightarrow> 's \<Rightarrow> 's) \<Rightarrow> 'a \<Rightarrow> 'a list \<times> 's \<Rightarrow> 'a list \<times> 's" where
  "push_batch flush x p =
     (case p of (buf, s) \<Rightarrow> if EDGE_BATCH \<le> length (buf @ [x]) then ([], flush (buf @ [x]) s) else (buf @ [x], s))"

definition last_batch :: "('a list \<Rightarrow> 's \<Rightarrow> 's) \<Rightarrow> 'a list \<times> 's \<Rightarrow> 's" where
  "last_batch flush p = (case p of (buf, s) \<Rightarrow> if buf \<noteq> [] then flush buf s else s)"

definition write_sites :: "call_site_row list \<Rightarrow> ingest_state \<Rightarrow> ingest_state" where
  "write_sites ss = write_disk (on_tables (\<lambda>t. snd (insertCallSites ss t)))"

definition write_edges :: "graph_edge list \<Rightarrow> ingest_state \<Rightarrow> ingest_state" where
  "write_edges es = write_disk (on_tables (\<lambda>t. snd (replaceEdges es t)))"

record edge_pass =
  ep_aggregated :: "((string \<times> string \<times> string) \<times> graph_edge) list"
  ep_unresolvedCount :: int
  ep_sites :: "call_site_row list \<times> ingest_state"

definition aggregate_edge :: "graph_edge \<Rightarrow> ((string \<times> string \<times> string) \<times> graph_edge) list \<Rightarrow> ((string \<times> string \<times> string) \<times> graph_edge) list" where
  "aggregate_edge e agg = (case map_of agg (ge_key e) of
     None \<Rightarrow> AList.update (ge_key e) e agg
   | Some prior \<Rightarrow> AList.update (ge_key e) (prior\<lparr>ge_weight := ge_weight prior + ge_weight e\<rparr>) agg)"

definition take_outcome :: "edge_outcome \<Rightarrow> edge_pass \<Rightarrow> edge_pass" where
  "take_outcome out ep = ep\<lparr>
     ep_unresolvedCount := ep_unresolvedCount ep + (if oc_resolved out then 0 else 1),
     ep_aggregated := aggregate_edge (oc_edge out) (ep_aggregated ep),
     ep_sites := (case oc_site out of None \<Rightarrow> ep_sites ep | Some s \<Rightarrow> push_batch write_sites s (ep_sites ep))\<rparr>"

fun resolve_pass :: "ingest_opts \<Rightarrow> edge_resolver \<Rightarrow> raw_edge list \<Rightarrow> edge_pass \<Rightarrow> ingest_error + edge_pass" where
  "resolve_pass opts r [] ep = Inr ep"
| "resolve_pass opts r (e # es) ep =
     (case resolveOne (io_env opts) r e (io_resolvedAt opts) of
        Inl err \<Rightarrow> Inl (NotResolved err)
      | Inr None \<Rightarrow> resolve_pass opts r es ep
      | Inr (Some out) \<Rightarrow> resolve_pass opts r es (take_outcome out ep))"

definition supersede_sites :: "ingest_opts \<Rightarrow> ingest_state \<Rightarrow> ingest_state" where
  "supersede_sites opts st =
     (if io_fullRebuild opts then write_disk (on_tables clearCallSites) st
      else if parsedFiles st \<noteq> [] then write_disk (on_tables (\<lambda>t. snd (deleteCallSitesByFile (parsedFiles st) t))) st
      else st)"

text \<open>The transaction that records success.\<close>

definition success_stats :: "ingest_opts \<Rightarrow> ingest_state \<Rightarrow> db \<Rightarrow> db" where
  "success_stats opts st t =
     setStat ''last_ingest_id_collisions'' (int_dec (idCollisions st))
       (setStat ''last_ingest_warnings'' (int_dec (warnings st))
         (setStat ''last_ingest_native_nodes'' (int_dec (nativeNodes st))
           ((case readGitHead (io_git_head opts) of Some h \<Rightarrow> setStat ''last_ingest_git_head'' h | None \<Rightarrow> id)
             (setStat ''last_ingest_at'' (int_dec (io_finishedAt opts)) t))))"

definition record_success :: "ingest_opts \<Rightarrow> ingest_state \<Rightarrow> index_disk \<Rightarrow> index_disk" where
  "record_success opts st d =
     (let dirty = nextIngestDirty (dk_dirty d) (io_registry opts) (io_git_status opts) (io_fullRebuild opts);
          ix1 = (dk_index d)\<lparr>tables := success_stats opts st (tables (dk_index d))\<rparr>;
          ix2 = recordNodeWatermark (int (length (nodes_t (tables ix1)))) (io_fullRebuild opts) ix1
      in \<lparr>dk_index = snd (endIngest (handle st, ix2)), dk_dirty = writeIngestDirty dirty (dk_dirty d)\<rparr>)"

definition finish_ingest :: "ingest_opts \<Rightarrow> ingest_state \<Rightarrow> (ingest_error + ingest_result) \<times> ingest_state" where
  "finish_ingest opts st =
     (let sealed = sealNodes (edgeResolver st);
          r = fold addImportEdge (filter (\<lambda>e. re_kind e = ''import'') (spilledEdges st)) sealed;
          st1 = (supersede_sites opts st)\<lparr>edgeResolver := r\<rparr>
      in case resolve_pass opts r (spilledEdges st1) \<lparr>ep_aggregated = [], ep_unresolvedCount = 0, ep_sites = ([], st1)\<rparr> of
        Inl err \<Rightarrow> (Inl err, st1)
      | Inr ep \<Rightarrow>
          let st2 = last_batch write_sites (ep_sites ep);
              st3 = last_batch write_edges (fold (push_batch write_edges) (map snd (ep_aggregated ep)) ([], st2));
              st4 = (write_disk (record_success opts st3) st3)\<lparr>handle := None\<rparr>
          in (Inr \<lparr>ir_filesTotal = filesTotal st4, ir_filesDone = filesDone st4, ir_nodes = nodeCount st4,
                    ir_edges = length (ep_aggregated ep), ir_unresolvedEdges = ep_unresolvedCount ep, ir_warnings = warnings st4,
                    ir_nativeElapsedMs = (if nativeElapsedMs st4 \<noteq> 0 then nativeElapsedMs st4
                                          else io_finishedAt opts - io_startedAt opts),
                    ir_idCollisions = idCollisions st4\<rparr>, st4))"

text \<open>
  The records that arrive, whether the stream then ends by throwing, and the exit code of the native
  process. After a refusal the rest of the stream is not read.
\<close>

record native_run =
  run_records :: "(int \<times> int native_record) list"
  run_throws :: bool
  run_exit :: int

definition runIngest ::
    "ingest_opts \<Rightarrow> native_run \<Rightarrow> string option \<times> index_disk \<Rightarrow> (ingest_error + ingest_result) \<times> ingest_state" where
  "runIngest opts run s =
     (let st = drain_records opts (run_records run) (ingest_start opts s)
      in case abortReason st of
        Some why \<Rightarrow> (Inl (Refused why), refuse (hasDeclaredIngest (fst s)) st)
      | None \<Rightarrow>
          if run_throws run then (Inl StreamFailed, st)
          else let st1 = flushEdges (flushNodes st)
               in if run_exit run \<noteq> 0 then (Inl (NativeExit (run_exit run)), st1) else finish_ingest opts st1)"

subsection \<open>Trust\<close>

definition untrusted :: "index_file \<Rightarrow> bool" where
  "untrusted ix \<longleftrightarrow> (\<forall>i. readIndexIntegrity ix = Some i \<longrightarrow> \<not> ii_ok i)"

lemma flagged_untrusted: "flagged t ix \<Longrightarrow> untrusted ix"
  by (auto simp: untrusted_def dest: flagged_not_ok)

text \<open>
  What holds of every state on disk before the end: the own token is declared, so is every foreign one that is alive,
  and nothing else but what was declared before.
\<close>

definition declared :: "ingest_opts \<Rightarrow> string \<Rightarrow> index_file \<Rightarrow> index_file \<Rightarrow> bool" where
  "declared opts t ix0 ix \<longleftrightarrow> flagged t ix
     \<and> (\<forall>x. flagged x ix0 \<and> \<not> isAdoptableToken x \<and> \<not> isDeadOwnerToken (io_esrch opts) x \<longrightarrow> flagged x ix)
     \<and> (\<forall>x. flagged x ix \<longrightarrow> x = t \<or> flagged x ix0 \<and> \<not> isAdoptableToken x)"

definition guarded :: "ingest_opts \<Rightarrow> string \<Rightarrow> index_file \<Rightarrow> ingest_state \<Rightarrow> bool" where
  "guarded opts t ix0 st \<longleftrightarrow> handle st = Some t \<and> declared opts t ix0 (dk_index (disk st))
     \<and> (\<forall>d \<in> set (history st). declared opts t ix0 (dk_index d))"

lemma write_disk_frame [simp]:
  "handle (write_disk f st) = handle st" "abortReason (write_disk f st) = abortReason st"
  "mutatedIndex (write_disk f st) = mutatedIndex st" "parsedFiles (write_disk f st) = parsedFiles st"
  "moduleByFile (write_disk f st) = moduleByFile st" "fileByModuleId (write_disk f st) = fileByModuleId st"
  "idCollisions (write_disk f st) = idCollisions st" "edgeResolver (write_disk f st) = edgeResolver st"
  "nodeBuffer (write_disk f st) = nodeBuffer st" "edgeBuffer (write_disk f st) = edgeBuffer st"
  "spilledEdges (write_disk f st) = spilledEdges st" "disk (write_disk f st) = f (disk st)"
  "history (write_disk f st) = history st @ [f (disk st)]"
  by (simp_all add: write_disk_def)

lemma on_tables_frame [simp]:
  "dk_dirty (on_tables f d) = dk_dirty d" "tables (dk_index (on_tables f d)) = f (tables (dk_index d))"
  "flagged t (dk_index (on_tables f d)) = flagged t (dk_index d)"
  by (simp_all add: on_tables_def)

lemma guarded_on_tables [inv_intros]:
  "guarded opts t ix0 st \<Longrightarrow> guarded opts t ix0 (write_disk (on_tables f) st)"
  by (auto simp: guarded_def declared_def)

lemma guarded_fields [simp]:
  "guarded opts t ix0 (st\<lparr>abortReason := a\<rparr>) = guarded opts t ix0 st" "guarded opts t ix0 (st\<lparr>mutatedIndex := b\<rparr>) = guarded opts t ix0 st"
  "guarded opts t ix0 (st\<lparr>parsedFiles := ps\<rparr>) = guarded opts t ix0 st" "guarded opts t ix0 (st\<lparr>moduleByFile := m\<rparr>) = guarded opts t ix0 st"
  "guarded opts t ix0 (st\<lparr>fileByModuleId := m\<rparr>) = guarded opts t ix0 st" "guarded opts t ix0 (st\<lparr>idCollisions := n\<rparr>) = guarded opts t ix0 st"
  "guarded opts t ix0 (st\<lparr>filesTotal := n\<rparr>) = guarded opts t ix0 st" "guarded opts t ix0 (st\<lparr>filesDone := n\<rparr>) = guarded opts t ix0 st"
  "guarded opts t ix0 (st\<lparr>warnings := n\<rparr>) = guarded opts t ix0 st" "guarded opts t ix0 (st\<lparr>nativeNodes := n\<rparr>) = guarded opts t ix0 st"
  "guarded opts t ix0 (st\<lparr>nativeElapsedMs := n\<rparr>) = guarded opts t ix0 st" "guarded opts t ix0 (st\<lparr>nodeCount := n\<rparr>) = guarded opts t ix0 st"
  "guarded opts t ix0 (st\<lparr>edgeCount := n\<rparr>) = guarded opts t ix0 st" "guarded opts t ix0 (st\<lparr>edgeResolver := r\<rparr>) = guarded opts t ix0 st"
  "guarded opts t ix0 (st\<lparr>nodeBuffer := ns\<rparr>) = guarded opts t ix0 st" "guarded opts t ix0 (st\<lparr>edgeBuffer := es\<rparr>) = guarded opts t ix0 st"
  "guarded opts t ix0 (st\<lparr>spilledEdges := es\<rparr>) = guarded opts t ix0 st"
  by (simp_all add: guarded_def)

lemma guarded_start: "guarded opts (own_token (io_minted opts) k) (dk_index d) (ingest_start opts (k, d))"
proof -
  obtain u tok ix where b: "beginIngest (io_minted opts) (io_startedAt opts) (k, dk_index d) = (u, tok, ix)" by (cases "beginIngest (io_minted opts) (io_startedAt opts) (k, dk_index d)")
  from flagged_begin [OF b] b show ?thesis
    by (auto simp: ingest_start_def guarded_def declared_def Let_def)
qed

lemma guarded_clear [inv_intros]:
  assumes "guarded opts t ix0 st"
  shows "guarded opts t ix0 (clear_index opts now st)"
proof -
  obtain tok ix where c: "clearGraph (io_esrch opts) (io_minted opts) now (handle st, dk_index (disk st)) = (tok, ix)"
    by (cases "clearGraph (io_esrch opts) (io_minted opts) now (handle st, dk_index (disk st))")
  have "own_token (io_minted opts) (handle st) = t" using assms by (simp add: guarded_def own_token_def)
  with flagged_clear [OF c] c assms show ?thesis
    by (auto simp: clear_index_def guarded_def declared_def)
qed

lemma guarded_flush [inv_intros]:
  "guarded opts t ix0 st \<Longrightarrow> guarded opts t ix0 (flushNodes st)" "guarded opts t ix0 st \<Longrightarrow> guarded opts t ix0 (flushEdges st)"
  by (simp_all add: flushNodes_def flushEdges_def guarded_on_tables)

lemma guarded_handle [inv_intros]: "guarded opts t ix0 st \<Longrightarrow> guarded opts t ix0 (handleRecord opts r st)"
  by (induction opts r st rule: handleRecord.induct)
    (simp_all add: handle_node_def handle_edge_def claim_module_id_def Let_def guarded_clear guarded_flush split: option.split)

lemma guarded_drain [inv_intros]: "guarded opts t ix0 st \<Longrightarrow> guarded opts t ix0 (drain_records opts rs st)"
  by (induction rs arbitrary: st) (simp_all add: Let_def guarded_handle)

lemma guarded_sites: "guarded opts t ix0 st \<Longrightarrow> guarded opts t ix0 (supersede_sites opts st)"
  by (simp add: supersede_sites_def guarded_on_tables)

subsection \<open>Buffers that are handed over in batches\<close>

text \<open>What is written does not depend on where the batches end.\<close>

locale batched =
  fixes flush :: "'a list \<Rightarrow> 's \<Rightarrow> 's" and view :: "'s \<Rightarrow> 'v" and put :: "'a \<Rightarrow> 'v \<Rightarrow> 'v" and keeps :: "'s \<Rightarrow> bool"
  assumes view_flush: "view (flush xs s) = fold put xs (view s)"
    and keeps_flush: "keeps s \<Longrightarrow> keeps (flush xs s)"
begin

lemma fold_pushed:
  "fold put (fst (fold (push_batch flush) xs p)) (view (snd (fold (push_batch flush) xs p)))
    = fold put (fst p @ xs) (view (snd p))"
proof (induction xs arbitrary: p)
  case Nil
  then show ?case by simp
next
  case (Cons x xs)
  show ?case using Cons [of "push_batch flush x p"] by (simp add: push_batch_def view_flush split: prod.split)
qed

lemma batches_written: "view (last_batch flush (fold (push_batch flush) xs ([], s))) = fold put xs (view s)"
proof -
  have "view (last_batch flush p) = fold put (fst p) (view (snd p))" for p
    by (cases p) (simp add: last_batch_def view_flush)
  then show ?thesis using fold_pushed [of xs "([], s)"] by simp
qed

lemma batches_kept: "keeps s \<Longrightarrow> keeps (last_batch flush (fold (push_batch flush) xs (buf, s)))"
proof -
  have "keeps (snd (fold (push_batch flush) xs p))" if "keeps (snd p)" for p
    using that by (induction xs arbitrary: p) (auto simp: push_batch_def keeps_flush split: prod.split)
  moreover have "keeps (last_batch flush p)" if "keeps (snd p)" for p
    using that by (cases p) (simp add: last_batch_def keeps_flush)
  ultimately show "keeps s \<Longrightarrow> keeps (last_batch flush (fold (push_batch flush) xs (buf, s)))" by simp
qed

end

text \<open>The fields that the second pass leaves alone.\<close>

definition same_run :: "ingest_state \<Rightarrow> ingest_state \<Rightarrow> bool" where
  "same_run st st' \<longleftrightarrow> st' = st\<lparr>disk := disk st', history := history st'\<rparr>"

lemma same_run_refl [simp]: "same_run st st"
  by (simp add: same_run_def)

lemma same_run_write: "same_run st st' \<Longrightarrow> same_run st (write_disk f st')"
  unfolding same_run_def write_disk_def by (cases st; cases st') simp

lemma same_run_fields: "same_run st st' \<Longrightarrow> idCollisions st' = idCollisions st"
  unfolding same_run_def by (cases st; cases st') simp

definition add_site :: "call_site_row \<Rightarrow> db \<Rightarrow> db" where
  "add_site s t = t\<lparr>call_sites_t := call_sites_t t @ [s]\<rparr>"

lemma fold_add_site: "fold add_site ss t = t\<lparr>call_sites_t := call_sites_t t @ ss\<rparr>"
  by (induction ss arbitrary: t) (simp_all add: add_site_def)

interpretation sites: batched write_sites "\<lambda>st. tables (dk_index (disk st))" add_site "\<lambda>st. guarded opts t ix0 st"
  by unfold_locales (simp_all add: write_sites_def insertCallSites_def fold_add_site guarded_on_tables)

interpretation edges: batched write_edges "\<lambda>st. tables (dk_index (disk st))" replaceEdge "\<lambda>st. guarded opts t ix0 st"
  by unfold_locales (simp_all add: write_edges_def replaceEdges_def guarded_on_tables)

interpretation sites_run: batched write_sites "\<lambda>st. tables (dk_index (disk st))" add_site "\<lambda>st. same_run st0 st"
  by unfold_locales (simp_all add: write_sites_def insertCallSites_def fold_add_site same_run_write)

interpretation edges_run: batched write_edges "\<lambda>st. tables (dk_index (disk st))" replaceEdge "\<lambda>st. same_run st0 st"
  by unfold_locales (simp_all add: write_edges_def replaceEdges_def same_run_write)

subsection \<open>The second pass as a whole\<close>

lemma resolve_all_sealed:
  assumes "specResolver r = Some sp"
  shows "resolve_all env r es now = Inr (List.map_filter (\<lambda>e. case resolveOne env r e now of Inr out \<Rightarrow> out | Inl _ \<Rightarrow> None) es)"
proof -
  have "smap (\<lambda>e. resolveOne env r e now) es = Inr (map (\<lambda>e. case resolveOne env r e now of Inr out \<Rightarrow> out | Inl _ \<Rightarrow> None) es)"
    using assms by (intro smap_Inr) (simp add: resolveOne_def)
  then show ?thesis by (simp add: resolve_all_def map_filter_def filter_map comp_def)
qed

lemma resolve_pass_fold:
  assumes "specResolver r = Some sp"
  shows "resolve_pass opts r es ep =
    Inr (fold take_outcome (List.map_filter (\<lambda>e. case resolveOne (io_env opts) r e (io_resolvedAt opts) of Inr out \<Rightarrow> out | Inl _ \<Rightarrow> None) es) ep)"
proof (induction es arbitrary: ep)
  case Nil
  then show ?case by (simp add: map_filter_simps)
next
  case (Cons e es)
  obtain out where "resolveOne (io_env opts) r e (io_resolvedAt opts) = Inr out" using assms by (simp add: resolveOne_def)
  with Cons show ?case by (cases out) (simp_all add: map_filter_simps)
qed

lemma fold_take_outcome:
  "ep_aggregated (fold take_outcome outs ep) = fold aggregate_edge (map oc_edge outs) (ep_aggregated ep)"
  "ep_sites (fold take_outcome outs ep) = fold (push_batch write_sites) (List.map_filter oc_site outs) (ep_sites ep)"
  by (induction outs arbitrary: ep) (simp_all add: take_outcome_def map_filter_simps split: option.split)

definition second_resolver :: "ingest_state \<Rightarrow> edge_resolver" where
  "second_resolver st = fold addImportEdge (filter (\<lambda>e. re_kind e = ''import'') (spilledEdges st)) (sealNodes (edgeResolver st))"

definition outcomes :: "ingest_opts \<Rightarrow> edge_resolver \<Rightarrow> raw_edge list \<Rightarrow> edge_outcome list" where
  "outcomes opts r es = List.map_filter (\<lambda>e. case resolveOne (io_env opts) r e (io_resolvedAt opts) of Inr out \<Rightarrow> out | Inl _ \<Rightarrow> None) es"

definition aggregated :: "edge_outcome list \<Rightarrow> graph_edge list" where
  "aggregated outs = map snd (fold aggregate_edge (map oc_edge outs) [])"

definition after_sites :: "ingest_opts \<Rightarrow> ingest_state \<Rightarrow> ingest_state" where
  "after_sites opts st = last_batch write_sites
     (fold (push_batch write_sites) (List.map_filter oc_site (outcomes opts (second_resolver st) (spilledEdges st)))
       ([], (supersede_sites opts st)\<lparr>edgeResolver := second_resolver st\<rparr>))"

definition after_edges :: "ingest_opts \<Rightarrow> ingest_state \<Rightarrow> ingest_state" where
  "after_edges opts st = last_batch write_edges
     (fold (push_batch write_edges) (aggregated (outcomes opts (second_resolver st) (spilledEdges st))) ([], after_sites opts st))"

lemma supersede_frame [simp]:
  "handle (supersede_sites opts st) = handle st" "spilledEdges (supersede_sites opts st) = spilledEdges st"
  by (simp_all add: supersede_sites_def)

lemma second_resolver_sealed: "\<exists>sp. specResolver (second_resolver st) = Some sp"
  by (simp add: second_resolver_def add_imports_frame sealNodes_def)

lemma finish_steps:
  "\<exists>res. finish_ingest opts st =
    (Inr res, (write_disk (record_success opts (after_edges opts st)) (after_edges opts st))\<lparr>handle := None\<rparr>)
    \<and> ir_idCollisions res = idCollisions (after_edges opts st)"
proof -
  obtain sp where "specResolver (second_resolver st) = Some sp" using second_resolver_sealed by blast
  from resolve_pass_fold [OF this] show ?thesis
    by (simp add: finish_ingest_def Let_def fold_take_outcome after_edges_def after_sites_def aggregated_def
        flip: second_resolver_def outcomes_def)
qed

lemma after_edges_kept:
  assumes "guarded opts t ix0 st"
  shows "guarded opts t ix0 (after_edges opts st)"
proof -
  have "guarded opts t ix0 ((supersede_sites opts st)\<lparr>edgeResolver := second_resolver st\<rparr>)" using assms by (simp add: guarded_sites)
  then have "guarded opts t ix0 (after_sites opts st)" unfolding after_sites_def by (rule sites.batches_kept)
  then show ?thesis unfolding after_edges_def by (rule edges.batches_kept)
qed

lemma after_edges_collisions: "idCollisions (after_edges opts st) = idCollisions st"
proof -
  let ?s = "(supersede_sites opts st)\<lparr>edgeResolver := second_resolver st\<rparr>"
  have "same_run ?s (after_sites opts st)" unfolding after_sites_def by (rule sites_run.batches_kept) simp
  then have "same_run ?s (after_edges opts st)" unfolding after_edges_def by (rule edges_run.batches_kept)
  then have "idCollisions (after_edges opts st) = idCollisions ?s" by (rule same_run_fields)
  also have "\<dots> = idCollisions st" by (simp add: supersede_sites_def)
  finally show ?thesis .
qed

lemma flagged_success: "flagged x (dk_index (record_success opts st d)) \<longleftrightarrow> flagged x (dk_index d) \<and> handle st \<noteq> Some x"
proof -
  have "flagged x (snd (endIngest (k, ix))) \<longleftrightarrow> flagged x ix \<and> k \<noteq> Some x" for k ix
    using flagged_end(2) [of k ix "fst (endIngest (k, ix))" "snd (endIngest (k, ix))" x] by simp
  then show ?thesis by (simp add: record_success_def Let_def)
qed

lemma claim_frame [simp]:
  "disk (claim_module_id n st) = disk st" "handle (claim_module_id n st) = handle st"
  "mutatedIndex (claim_module_id n st) = mutatedIndex st" "history (claim_module_id n st) = history st"
  "abortReason (claim_module_id n st) = abortReason st" "parsedFiles (claim_module_id n st) = parsedFiles st"
  "moduleByFile (claim_module_id n st) = moduleByFile st" "nodeCount (claim_module_id n st) = nodeCount st"
  "edgeResolver (claim_module_id n st) = edgeResolver st" "nodeBuffer (claim_module_id n st) = nodeBuffer st"
  "edgeBuffer (claim_module_id n st) = edgeBuffer st" "spilledEdges (claim_module_id n st) = spilledEdges st"
  by (simp_all add: claim_module_id_def split: option.split)

lemma drain_mutated:
  "mutatedIndex st \<Longrightarrow> mutatedIndex (drain_records opts rs st)"
proof (induction rs arbitrary: st)
  case (Cons r rs)
  have "mutatedIndex (handleRecord opts r st)"
    using Cons.prems by (induction opts r st rule: handleRecord.induct)
      (simp_all add: handle_node_def handle_edge_def clear_index_def flushNodes_def flushEdges_def Let_def split: prod.split)
  with Cons.IH show ?case by (simp add: Let_def)
qed simp

lemma handle_unmutated:
  "\<not> mutatedIndex (handleRecord opts r st) \<Longrightarrow> disk (handleRecord opts r st) = disk st \<and> handle (handleRecord opts r st) = handle st"
  by (induction opts r st rule: handleRecord.induct)
    (auto simp: handle_node_def handle_edge_def clear_index_def flushNodes_def flushEdges_def Let_def split: prod.splits if_splits)

lemma drain_unmutated:
  "\<not> mutatedIndex (drain_records opts rs st) \<Longrightarrow>
    disk (drain_records opts rs st) = disk st \<and> handle (drain_records opts rs st) = handle st"
proof (induction rs arbitrary: st)
  case (Cons r rs)
  have "\<not> mutatedIndex (handleRecord opts r st)"
    using Cons.prems drain_mutated [of "handleRecord opts r st" opts rs] by (auto simp: Let_def split: if_splits)
  from handle_unmutated [OF this] Cons show ?case by (simp add: Let_def split: if_splits)
qed simp

text \<open>C27: an ingest can be killed at any moment. Until it succeeds, every state that the index file takes -
  and so whatever a crash leaves - declares the ingest, and a reader is told not to trust it; the
  same holds after every failure. Success is the last transaction: it alone retracts the declaration.
  The one failure that retracts it too is a refusal before anything was written, by a run whose
  caller had not declared an ingest; it leaves tables, watermark and dirty record as they were. No
  declaration of another living process is ever lost, and none appears.
\<close>

theorem crash_safe:
  assumes "runIngest opts run (k, d0) = (res, st)" "t = own_token (io_minted opts) k"
  shows "\<exists>h. (history st = h \<or> history st = h @ [disk st] \<and> \<not> flagged t (dk_index (disk st)))
      \<and> (\<forall>d \<in> set h. untrusted (dk_index d) \<and> declared opts t (dk_index d0) (dk_index d))
      \<and> (case res of
          Inr _ \<Rightarrow> history st = h @ [disk st]
        | Inl e \<Rightarrow> history st = h \<or> (\<exists>why. e = Refused why) \<and> k = None \<and> tables (dk_index (disk st)) = tables (dk_index d0)
            \<and> watermark (dk_index (disk st)) = watermark (dk_index d0) \<and> dk_dirty (disk st) = dk_dirty d0)
      \<and> (\<forall>x. x \<noteq> t \<longrightarrow> flagged x (dk_index d0) \<and> \<not> isAdoptableToken x \<and> \<not> isDeadOwnerToken (io_esrch opts) x \<longrightarrow> flagged x (dk_index (disk st)))"
proof -
  let ?ix0 = "dk_index d0" and ?st = "drain_records opts (run_records run) (ingest_start opts (k, d0))"
  have U: "untrusted (dk_index d) \<and> declared opts t ?ix0 (dk_index d)" if "guarded opts t ?ix0 s" "d \<in> set (history s)" for s d
    using that by (auto simp: guarded_def declared_def intro: flagged_untrusted)
  have L: "x \<noteq> t \<longrightarrow> flagged x ?ix0 \<and> \<not> isAdoptableToken x \<and> \<not> isDeadOwnerToken (io_esrch opts) x \<longrightarrow> flagged x (dk_index (disk s))"
    if "guarded opts t ?ix0 s" for s x using that by (auto simp: guarded_def declared_def)
  have g: "guarded opts t ?ix0 ?st" unfolding assms(2) by (intro guarded_drain guarded_start)
  have g1: "guarded opts t ?ix0 (flushEdges (flushNodes ?st))" by (intro guarded_flush g)
  show ?thesis
  proof (cases "abortReason ?st")
    case (Some why)
    then have r: "res = Inl (Refused why)" "st = refuse (k \<noteq> None) ?st"
      using assms(1) by (simp_all add: runIngest_def Let_def hasDeclaredIngest_def)
    show ?thesis
    proof (cases "\<not> mutatedIndex ?st \<and> k = None")
      case True
      then have "disk ?st = disk (ingest_start opts (k, d0))" using drain_unmutated by blast
      then have same: "tables (dk_index (disk ?st)) = tables ?ix0" "watermark (dk_index (disk ?st)) = watermark ?ix0" "dk_dirty (disk ?st) = dk_dirty d0"
        by (simp_all add: ingest_start_def beginIngest_def Let_def)
      have st: "history st = history ?st @ [disk st]" "disk st = end_ingest_disk (Some t) (disk ?st)"
        unfolding r(2) refuse_def using True g by (auto simp: guarded_def)
      have f: "flagged x (dk_index (disk st)) \<longleftrightarrow> flagged x (dk_index (disk ?st)) \<and> x \<noteq> t" for x
        unfolding st(2) end_ingest_disk_def
        using flagged_end(2) [of "Some t" "dk_index (disk ?st)" "fst (endIngest (Some t, dk_index (disk ?st)))" "snd (endIngest (Some t, dk_index (disk ?st)))" x] by auto
      have "tables (dk_index (disk st)) = tables ?ix0" "watermark (dk_index (disk st)) = watermark ?ix0" "dk_dirty (disk st) = dk_dirty d0"
        using same unfolding st(2) end_ingest_disk_def by (simp_all add: endIngest_def)
      with st(1) f True r(1) U [OF g] L [OF g] show ?thesis by (intro exI [of _ "history ?st"]) auto
    next
      case False
      then have "st = ?st" using r(2) by (auto simp: refuse_def)
      with r(1) U [OF g] L [OF g] show ?thesis by (intro exI [of _ "history ?st"]) auto
    qed
  next
    case None
    show ?thesis
    proof (cases "run_throws run \<or> run_exit run \<noteq> 0")
      case True
      then have "\<exists>e. res = Inl e" "st = ?st \<or> st = flushEdges (flushNodes ?st)"
        using assms(1) None by (auto simp: runIngest_def Let_def split: if_splits)
      then obtain e where e: "res = Inl e" and st: "guarded opts t ?ix0 st" using g g1 by auto
      show ?thesis using e U [OF st] L [OF st] by (intro exI [of _ "history st"]) auto
    next
      case False
      let ?s1 = "flushEdges (flushNodes ?st)" let ?s = "after_edges opts ?s1"
      obtain out where "res = Inr out" and st: "st = (write_disk (record_success opts ?s) ?s)\<lparr>handle := None\<rparr>"
        using assms(1) None False finish_steps [of opts ?s1] by (auto simp: runIngest_def Let_def)
      have gs: "guarded opts t ?ix0 ?s" using g1 by (rule after_edges_kept)
      then have "handle ?s = Some t" by (simp add: guarded_def)
      with st \<open>res = Inr out\<close> U [OF gs] L [OF gs] show ?thesis
        by (intro exI [of _ "history ?s"]) (simp add: flagged_success)
    qed
  qed
qed

subsection \<open>What the records say\<close>

fun built_nodes :: "(string \<Rightarrow> string option) \<Rightarrow> (int \<times> int native_record) list \<Rightarrow> graph_node list" where
  "built_nodes modules [] = []"
| "built_nodes modules ((now, NodeRec n) # rs) =
     node_of now n (note_module n modules) # built_nodes (note_module n modules) rs"
| "built_nodes modules (_ # rs) = built_nodes modules rs"

fun raw_edges :: "(int \<times> int native_record) list \<Rightarrow> raw_edge list" where
  "raw_edges [] = []"
| "raw_edges ((now, EdgeRec e) # rs) = raw_of_edge e # raw_edges rs"
| "raw_edges (_ # rs) = raw_edges rs"

fun is_start :: "int \<times> int native_record \<Rightarrow> bool" where
  "is_start (now, StartRec n v) = True"
| "is_start r = False"

fun is_content :: "int \<times> int native_record \<Rightarrow> bool" where
  "is_content (now, NodeRec n) = True"
| "is_content (now, EdgeRec e) = True"
| "is_content r = False"

text \<open>The tables once the buffer is flushed, and all edges received.\<close>

definition pending :: "ingest_state \<Rightarrow> db" where
  "pending st = fold upsertNode (nodeBuffer st) (disk_tables st)"

definition received :: "ingest_state \<Rightarrow> raw_edge list" where
  "received st = spilledEdges st @ edgeBuffer st"

lemma flush_pending [view_simps]:
  "pending (flushNodes st) = pending st" "pending (flushEdges st) = pending st"
  "received (flushNodes st) = received st" "received (flushEdges st) = received st"
  "edgeResolver (flushNodes st) = edgeResolver st" "edgeResolver (flushEdges st) = edgeResolver st"
  "parsedFiles (flushNodes st) = parsedFiles st" "parsedFiles (flushEdges st) = parsedFiles st"
  "moduleByFile (flushNodes st) = moduleByFile st" "moduleByFile (flushEdges st) = moduleByFile st"
  "disk_tables (flushEdges (flushNodes st)) = pending st" "spilledEdges (flushEdges (flushNodes st)) = received st"
  by (simp_all add: flushNodes_def flushEdges_def pending_def received_def upsertNodes_def)

lemma pending_fields [simp]:
  "pending (st\<lparr>nodeBuffer := ns\<rparr>) = fold upsertNode ns (disk_tables st)"
  "received (st\<lparr>nodeCount := c\<rparr>) = received st" "received (st\<lparr>edgeResolver := r\<rparr>) = received st"
  "received (st\<lparr>parsedFiles := ps\<rparr>) = received st" "received (st\<lparr>moduleByFile := m\<rparr>) = received st"
  "received (claim_module_id node st) = received st"
  "pending (st\<lparr>abortReason := a\<rparr>) = pending st" "pending (st\<lparr>edgeBuffer := es\<rparr>) = pending st" "pending (st\<lparr>edgeCount := c\<rparr>) = pending st"
  "received (st\<lparr>abortReason := a\<rparr>) = received st" "received (st\<lparr>nodeBuffer := ns\<rparr>) = received st"
  "pending (st\<lparr>filesDone := n\<rparr>) = pending st" "pending (st\<lparr>warnings := n\<rparr>) = pending st"
  "pending (st\<lparr>nativeNodes := n\<rparr>) = pending st" "pending (st\<lparr>nativeElapsedMs := n\<rparr>) = pending st" "pending (st\<lparr>filesTotal := n\<rparr>) = pending st"
  "received (st\<lparr>filesDone := n\<rparr>) = received st" "received (st\<lparr>warnings := n\<rparr>) = received st"
  "received (st\<lparr>nativeNodes := n\<rparr>) = received st" "received (st\<lparr>nativeElapsedMs := n\<rparr>) = received st" "received (st\<lparr>filesTotal := n\<rparr>) = received st"
  by (simp_all add: pending_def received_def)

definition drained :: "ingest_opts \<Rightarrow> (int \<times> int native_record) list \<Rightarrow> ingest_state \<Rightarrow> ingest_state \<Rightarrow> bool" where
  "drained opts rs st st' \<longleftrightarrow>
     pending st' = fold upsertNode (built_nodes (moduleByFile st) rs) (pending st)
     \<and> edgeResolver st' = fold (addNode (io_env opts)) (built_nodes (moduleByFile st) rs) (edgeResolver st)
     \<and> parsedFiles st' = fold set_add (map gn_file (built_nodes (moduleByFile st) rs)) (parsedFiles st)
     \<and> received st' = received st @ raw_edges rs"

lemma handle_node_drained:
  "drained opts [(now, NodeRec n)] st (handle_node opts now n st) \<and> moduleByFile (handle_node opts now n st) = note_module n (moduleByFile st)"
proof -
  let ?ms = "note_module n (moduleByFile st)" and ?n = "node_of now n (note_module n (moduleByFile st))"
  have "gn_file ?n = nv_file n" by (simp add: node_of_def Let_def)
  then show ?thesis by (simp add: handle_node_def drained_def Let_def flush_pending) (simp add: pending_def)
qed

fun next_modules :: "int \<times> int native_record \<Rightarrow> (string \<Rightarrow> string option) \<Rightarrow> (string \<Rightarrow> string option)" where
  "next_modules (now, NodeRec n) modules = note_module n modules"
| "next_modules r modules = modules"

lemma built_Cons: "built_nodes modules (r # rs) = built_nodes modules [r] @ built_nodes (next_modules r modules) rs"
  by (cases "(r, modules)" rule: next_modules.cases) simp_all

lemma raw_Cons: "raw_edges (r # rs) = raw_edges [r] @ raw_edges rs"
  by (cases "r # rs" rule: raw_edges.cases) simp_all

lemma handle_drained:
  assumes "\<not> is_start r"
  shows "drained opts [r] st (handleRecord opts r st) \<and> moduleByFile (handleRecord opts r st) = next_modules r (moduleByFile st)"
  using assms
proof (induction opts r st rule: handleRecord.induct)
  case (2 opts now n st)
  then show ?case using handle_node_drained [of opts now n st] by simp
next
  case (3 opts now e st)
  have "received (st\<lparr>edgeBuffer := edgeBuffer st @ [raw_of_edge e], edgeCount := c\<rparr>) = received st @ [raw_of_edge e]" for c
    by (simp add: received_def)
  then show ?case by (simp add: handle_edge_def drained_def flush_pending Let_def)
qed (simp_all add: drained_def)

lemma drain_drained:
  assumes "\<forall>r \<in> set rs. \<not> is_start r" "abortReason (drain_records opts rs st) = None"
  shows "drained opts rs st (drain_records opts rs st)"
  using assms
proof (induction rs arbitrary: st)
  case Nil
  then show ?case by (simp add: drained_def)
next
  case (Cons r rs)
  let ?s = "handleRecord opts r st"
  have a: "abortReason ?s = None" using Cons.prems(2) by (auto simp: Let_def split: if_splits)
  with Cons have "drained opts rs ?s (drain_records opts rs ?s)" by (simp add: Let_def)
  moreover have "drained opts [r] st ?s" "moduleByFile ?s = next_modules r (moduleByFile st)"
    using handle_drained [of r opts st] Cons.prems(1) by auto
  ultimately show ?case using a
    by (simp add: drained_def built_Cons [of _ r rs] raw_Cons [of r rs])
qed

lemma drain_append:
  "drain_records opts (rs @ us) st =
    (let st' = drain_records opts rs st in if rs \<noteq> [] \<and> abortReason st' \<noteq> None then st' else drain_records opts us st')"
  by (induction rs arbitrary: st) (auto simp: Let_def)

subsection \<open>Aggregation\<close>

lemma in_update: "p \<in> set (AList.update i y agg) \<Longrightarrow> p = (i, y) \<or> p \<in> set agg"
  by (induction agg) (auto split: if_splits)

lemma aggregate_keys:
  "distinct (map fst agg) \<Longrightarrow> \<forall>(k, e) \<in> set agg. ge_key e = k \<Longrightarrow>
    distinct (map fst (fold aggregate_edge es agg)) \<and> (\<forall>(k, e) \<in> set (fold aggregate_edge es agg). ge_key e = k)"
proof (induction es arbitrary: agg)
  case Nil
  then show ?case by simp
next
  case (Cons e es)
  have "distinct (map fst (aggregate_edge e agg))"
    using Cons.prems(1) by (simp add: aggregate_edge_def distinct_update split: option.split)
  moreover have "ge_key x = j" if "(j, x) \<in> set (aggregate_edge e agg)" for j x
  proof (cases "map_of agg (ge_key e)")
    case None
    with that have "(j, x) = (ge_key e, e) \<or> (j, x) \<in> set agg" by (auto simp: aggregate_edge_def dest: in_update)
    with Cons.prems(2) show ?thesis by auto
  next
    case (Some p)
    then have "ge_key p = ge_key e" using Cons.prems(2) map_of_SomeD [OF Some] by auto
    moreover from that Some have "(j, x) = (ge_key e, p\<lparr>ge_weight := ge_weight p + ge_weight e\<rparr>) \<or> (j, x) \<in> set agg"
      by (auto simp: aggregate_edge_def dest: in_update)
    ultimately show ?thesis using Cons.prems(2) by (auto simp: ge_key_def)
  qed
  then have "\<forall>(j, x) \<in> set (aggregate_edge e agg). ge_key x = j" by blast
  ultimately show ?case using Cons.IH by auto
qed

lemma map_of_aggregate:
  "map_of (aggregate_edge e agg) k =
    (if k = ge_key e then Some (case map_of agg k of None \<Rightarrow> e | Some p \<Rightarrow> p\<lparr>ge_weight := ge_weight p + ge_weight e\<rparr>)
     else map_of agg k)"
  by (simp add: aggregate_edge_def update_conv' split: option.split)

lemma aggregate_weights:
  "map_option ge_weight (map_of (fold aggregate_edge es []) k) =
    (if k \<in> ge_key ` set es then Some (sum_list (map ge_weight (filter (\<lambda>e. ge_key e = k) es))) else None)"
proof (induction es arbitrary: k rule: rev_induct)
  case Nil
  then show ?case by simp
next
  case (snoc e es)
  have none: "filter (\<lambda>x. ge_key x = ge_key e) es = []" if "ge_key e \<notin> ge_key ` set es"
    using that by (auto simp: filter_empty_conv image_iff)
  show ?case
  proof (cases "map_of (fold aggregate_edge es []) (ge_key e)")
    case None
    then have "ge_key e \<notin> ge_key ` set es" using snoc [of "ge_key e"] by (auto split: if_splits)
    with None none snoc [of k] show ?thesis by (auto simp: map_of_aggregate)
  next
    case (Some p)
    then have "ge_key e \<in> ge_key ` set es" "ge_weight p = sum_list (map ge_weight (filter (\<lambda>x. ge_key x = ge_key e) es))"
      using snoc [of "ge_key e"] by (auto split: if_splits)
    with Some snoc [of k] show ?thesis by (auto simp: map_of_aggregate)
  qed
qed

lemma aggregated_weight:
  "weight_at (fold replaceEdge (aggregated outs) d) k =
    (if k \<in> ge_key ` oc_edge ` set outs then Some (sum_list (map ge_weight (filter (\<lambda>e. ge_key e = k) (map oc_edge outs))))
     else weight_at d k)"
proof -
  let ?agg = "fold aggregate_edge (map oc_edge outs) []"
  have agg: "distinct (map fst ?agg)" "\<forall>(k, e) \<in> set ?agg. ge_key e = k" using aggregate_keys [of "[]"] by auto
  then have keys: "map ge_key (map snd ?agg) = map fst ?agg" by (auto intro: map_cong)
  then have dist: "distinct (map ge_key (aggregated outs))" using agg(1) by (simp only: aggregated_def)
  have "List.find (\<lambda>e. ge_key e = k) (rev (aggregated outs)) = map_of ?agg k"
  proof (cases "map_of ?agg k")
    case None
    then have "k \<notin> ge_key ` set (aggregated outs)"
      using keys by (metis aggregated_def list.set_map map_of_eq_None_iff)
    then show ?thesis using None by (simp add: find_key_None)
  next
    case (Some e)
    then have "e \<in> set (aggregated outs)" "ge_key e = k" using agg(2) map_of_SomeD [OF Some] by (force simp: aggregated_def)+
    then show ?thesis using find_rev_distinct [OF dist] Some by auto
  qed
  then show ?thesis
    using aggregate_weights [of "map oc_edge outs" k]
    by (auto simp: weight_at_replace_fold image_image split: option.splits if_splits)
qed

subsection \<open>The tables in the end\<close>

lemma replace_frame [simp]:
  "nodes_t (fold replaceEdge es d) = nodes_t d" "call_sites_t (fold replaceEdge es d) = call_sites_t d"
  by (induction es arbitrary: d) (simp_all add: replaceEdge_def)

lemma replace_edges_cong: "edges_t d = edges_t d' \<Longrightarrow> edges_t (fold replaceEdge es d) = edges_t (fold replaceEdge es d')"
  by (induction es arbitrary: d d') (simp_all add: replaceEdge_def)

lemma upsert_frame [simp]:
  "edges_t (fold upsertNode ns d) = edges_t d" "call_sites_t (fold upsertNode ns d) = call_sites_t d"
  by (induction ns arbitrary: d) simp_all

lemma success_frame [simp]:
  "nodes_t (tables (dk_index (record_success opts st d))) = nodes_t (tables (dk_index d))"
  "edges_t (tables (dk_index (record_success opts st d))) = edges_t (tables (dk_index d))"
  "call_sites_t (tables (dk_index (record_success opts st d))) = call_sites_t (tables (dk_index d))"
  by (simp_all add: record_success_def Let_def recordNodeWatermark_def endIngest_def success_stats_def setStat_def split: option.split)

definition core :: "ingest_state \<Rightarrow> index_disk \<times> graph_node list \<times> raw_edge list \<times> (string \<Rightarrow> string option) \<times> edge_resolver \<times> string list \<times> abort_reason option" where
  "core st = (disk st, nodeBuffer st, received st, moduleByFile st, edgeResolver st, parsedFiles st, abortReason st)"

lemma quiet_handle: "\<not> is_start r \<Longrightarrow> \<not> is_content r \<Longrightarrow> core (handleRecord opts r st) = core st"
  by (induction opts r st rule: handleRecord.induct) (simp_all add: core_def)

lemma quiet_drain:
  "\<forall>r \<in> set rs. \<not> is_start r \<and> \<not> is_content r \<Longrightarrow> abortReason st = None \<Longrightarrow> core (drain_records opts rs st) = core st"
proof (induction rs arbitrary: st)
  case (Cons r rs)
  have c: "core (handleRecord opts r st) = core st" using Cons.prems by (intro quiet_handle) auto
  then have "abortReason (handleRecord opts r st) = None" using Cons.prems(2) by (simp add: core_def)
  with Cons c show ?case by (simp add: Let_def)
qed simp

text \<open>Some records without nodes and edges, the start record, then everything else.\<close>

definition well_started :: "(int \<times> int native_record) list \<Rightarrow> (int \<times> int native_record) list \<Rightarrow> bool" where
  "well_started rs rest \<longleftrightarrow> (\<exists>pre r. rs = pre @ r # rest \<and> is_start r \<and> (\<forall>x \<in> set pre. \<not> is_start x \<and> \<not> is_content x)
     \<and> (\<forall>x \<in> set rest. \<not> is_start x))"

definition base_tables :: "ingest_opts \<Rightarrow> index_disk \<Rightarrow> db" where
  "base_tables opts d = (if io_clearBeforeIngest opts then clearGraph_tables (tables (dk_index d)) else tables (dk_index d))"

lemma drained_all:
  assumes "well_started rs rest" "abortReason (drain_records opts rs (ingest_start opts (k, d0))) = None"
    and "st = drain_records opts rs (ingest_start opts (k, d0))" "nodes = built_nodes (\<lambda>_. None) rest"
  shows "pending st = fold upsertNode nodes (base_tables opts d0) \<and> edgeResolver st = fold (addNode (io_env opts)) nodes new_resolver
    \<and> parsedFiles st = fold set_add (map gn_file nodes) [] \<and> received st = raw_edges rest"
proof -
  obtain pre now n v where rs: "rs = pre @ (now, StartRec n v) # rest" and pre: "\<forall>x \<in> set pre. \<not> is_start x \<and> \<not> is_content x"
    and rest: "\<forall>x \<in> set rest. \<not> is_start x"
    using assms(1) by (auto simp: well_started_def elim!: is_start.elims(2))
  let ?s0 = "ingest_start opts (k, d0)" let ?s1 = "drain_records opts pre ?s0"
  define s2 where "s2 = handleRecord opts (now, StartRec n v) ?s1"
  have s0: "core ?s0 = (disk ?s0, [], [], (\<lambda>_. None), new_resolver, [], None)" "disk_tables ?s0 = tables (dk_index d0)"
    by (simp_all add: core_def ingest_start_def received_def beginIngest_def Let_def)
  have "abortReason ?s0 = None" using s0(1) by (simp add: core_def)
  from quiet_drain [OF pre this] s0 have s1: "disk ?s1 = disk ?s0" "nodeBuffer ?s1 = []" "received ?s1 = []" "moduleByFile ?s1 = (\<lambda>_. None)"
    "edgeResolver ?s1 = new_resolver" "parsedFiles ?s1 = []" "abortReason ?s1 = None"
    by (simp_all add: core_def)
  have d: "drain_records opts rs ?s0 = (if abortReason s2 \<noteq> None then s2 else drain_records opts rest s2)"
    unfolding rs drain_append s2_def using s1(7) by (simp add: Let_def)
  have "disk_tables s2 = base_tables opts d0" "nodeBuffer s2 = []" "received s2 = []" "moduleByFile s2 = (\<lambda>_. None)"
    "edgeResolver s2 = new_resolver" "parsedFiles s2 = []" if "abortReason s2 = None"
    using that s0(2) s1 unfolding s2_def by (auto simp: base_tables_def clear_index_def clearGraph_def received_def Let_def split: if_splits prod.splits)
  with d assms rest drain_drained [of rest opts s2] show ?thesis
    by (simp add: drained_def pending_def [of s2] split: if_splits)
qed

text \<open>Only imports count in the pre-pass.\<close>

lemma fold_imports: "fold addImportEdge (filter (\<lambda>e. re_kind e = ''import'') es) r = fold addImportEdge es r"
proof (induction es arbitrary: r)
  case (Cons e es)
  have "addImportEdge e r = r" if "re_kind e \<noteq> ''import''" using that by (simp add: addImportEdge_def split: option.split list.split)
  with Cons show ?case by simp
qed simp

lemma finished_tables:
  assumes "runIngest opts run (k, d0) = (Inr res, st)" "well_started (run_records run) rest"
    and "nodes = built_nodes (\<lambda>_. None) rest" "raws = raw_edges rest"
    and "outs = outcomes opts (resolver_for (io_env opts) nodes raws) raws"
  shows "nodes_t (disk_tables st) = nodes_t (fold upsertNode nodes (base_tables opts d0))"
    "call_sites_t (disk_tables st) = (if io_fullRebuild opts then []
        else filter (\<lambda>s. site_file s \<notin> (Some \<circ> gn_file) ` set nodes) (call_sites_t (base_tables opts d0))) @ List.map_filter oc_site outs"
    "edges_t (disk_tables st) = edges_t (fold replaceEdge (aggregated outs) (base_tables opts d0))"
proof -
  let ?st = "drain_records opts (run_records run) (ingest_start opts (k, d0))"
  have a: "abortReason ?st = None" using assms(1) by (auto simp: runIngest_def Let_def split: option.splits)
  let ?s = "flushEdges (flushNodes ?st)" let ?u = "supersede_sites opts ?s"
  have st: "st = (write_disk (record_success opts (after_edges opts ?s)) (after_edges opts ?s))\<lparr>handle := None\<rparr>"
    using assms(1) a finish_steps [of opts ?s] by (auto simp: runIngest_def Let_def split: if_splits)
  note all = drained_all [OF assms(2) a refl assms(3)]
  have s: "disk_tables ?s = fold upsertNode nodes (base_tables opts d0)" "spilledEdges ?s = raws" "parsedFiles ?s = fold set_add (map gn_file nodes) []"
    using all by (simp_all add: flush_pending assms(4))
  have r: "second_resolver ?s = resolver_for (io_env opts) nodes raws"
    using all by (simp add: second_resolver_def resolver_for_def s(2) fold_imports flush_pending assms(4))
  have files: "set (parsedFiles ?s) = gn_file ` set nodes" by (simp add: s(3))
  have u: "disk_tables ?u = (disk_tables ?s)\<lparr>call_sites_t := if io_fullRebuild opts then []
      else filter (\<lambda>x. site_file x \<notin> Some ` gn_file ` set nodes) (call_sites_t (disk_tables ?s))\<rparr>"
    using files by (auto simp: supersede_sites_def clearCallSites_def deleteCallSitesByFile_spec)
  have "disk_tables (after_edges opts ?s) = fold replaceEdge (aggregated outs) (fold add_site (List.map_filter oc_site outs) (disk_tables ?u))"
    unfolding after_edges_def edges.batches_written unfolding after_sites_def sites.batches_written
    by (simp add: r s(2) assms(5))
  then have t: "disk_tables (after_edges opts ?s) = fold replaceEdge (aggregated outs)
      ((disk_tables ?u)\<lparr>call_sites_t := call_sites_t (disk_tables ?u) @ List.map_filter oc_site outs\<rparr>)"
    by (simp only: fold_add_site)
  have "edges_t (disk_tables ?u) = edges_t (base_tables opts d0)" by (simp add: u s(1))
  then have e: "edges_t (disk_tables (after_edges opts ?s)) = edges_t (fold replaceEdge (aggregated outs) (base_tables opts d0))"
    unfolding t by (intro replace_edges_cong) simp
  show "nodes_t (disk_tables st) = nodes_t (fold upsertNode nodes (base_tables opts d0))" unfolding st by (simp add: t u s(1))
  show "call_sites_t (disk_tables st) = (if io_fullRebuild opts then []
        else filter (\<lambda>s. site_file s \<notin> (Some \<circ> gn_file) ` set nodes) (call_sites_t (base_tables opts d0))) @ List.map_filter oc_site outs"
    unfolding st by (simp add: t u s(1) image_comp)
  show "edges_t (disk_tables st) = edges_t (fold replaceEdge (aggregated outs) (base_tables opts d0))" unfolding st by (simp add: e)
qed

lemma reference_outcomes:
  "resolveEdges env nodes raws now = Inr (map oc_edge (filter oc_resolved outs), map oc_edge (filter (\<lambda>oc. \<not> oc_resolved oc) outs),
     List.map_filter oc_site outs)"
  if "outs = List.map_filter (\<lambda>e. case resolveOne env (resolver_for env nodes raws) e now of Inr out \<Rightarrow> out | Inl _ \<Rightarrow> None) raws"
  using that by (simp add: resolveEdges_def resolve_all_sealed [OF resolver_for_held(2)])

lemma sum_partition:
  "sum_list (map f (filter Q (map g (filter P xs) @ map g (filter (\<lambda>x. \<not> P x) xs)))) = (sum_list (map f (filter Q (map g xs))) :: int)"
  by (induction xs) auto

text \<open>C28: an ingest that succeeds writes what a single pass would. However the records fill the buffers,
  the nodes are those of the records, upserted in order (into the old tables, or into cleared ones);
  the call sites are the old ones outside the parsed files - none on a full rebuild - followed by
  those that \<open>resolveEdges\<close> yields for all nodes and raw edges; and the weight of an edge is the sum
  over its occurrences in the result of \<open>resolveEdges\<close>, where it has one, and else what it was.
\<close>

theorem ingest_contents:
  assumes "runIngest opts run (k, d0) = (Inr res, st)" "well_started (run_records run) rest"
    and "nodes = built_nodes (\<lambda>_. None) rest" "raws = raw_edges rest"
  shows "\<exists>resolved unresolved sites. resolveEdges (io_env opts) nodes raws (io_resolvedAt opts) = Inr (resolved, unresolved, sites)
    \<and> nodes_t (disk_tables st) = nodes_t (fold upsertNode nodes (base_tables opts d0))
    \<and> call_sites_t (disk_tables st) = (if io_fullRebuild opts then []
        else filter (\<lambda>s. site_file s \<notin> (Some \<circ> gn_file) ` set nodes) (call_sites_t (base_tables opts d0))) @ sites
    \<and> (\<forall>key. weight_at (disk_tables st) key =
        (if key \<in> ge_key ` set (resolved @ unresolved)
         then Some (sum_list (map ge_weight (filter (\<lambda>e. ge_key e = key) (resolved @ unresolved))))
         else weight_at (base_tables opts d0) key))"
proof -
  define outs where "outs = outcomes opts (resolver_for (io_env opts) nodes raws) raws"
  note tables = finished_tables [OF assms outs_def]
  have "weight_at (disk_tables st) key = weight_at (fold replaceEdge (aggregated outs) (base_tables opts d0)) key" for key
    by (simp add: weight_at_def tables(3))
  moreover have "ge_key ` oc_edge ` set outs = ge_key ` (oc_edge ` (set outs \<inter> Collect oc_resolved) \<union> oc_edge ` (set outs \<inter> {oc. \<not> oc_resolved oc}))"
    by blast
  ultimately show ?thesis
    using tables(1,2) reference_outcomes [OF outs_def [unfolded outcomes_def]]
    by (simp add: aggregated_weight sum_partition Int_def conj_commute del: filter_append map_append)
qed

subsection \<open>A rebuilt index\<close>

lemma replaced_keys: "edge_key ` set (edges_t d) = {k. weight_at d k \<noteq> None}"
  using find_key_None [of edge_key _ "edges_t d"] by (auto simp: weight_at_def)

lemma upserted_ids: "nr_id ` set (nodes_t (fold upsertNode ns d)) = nr_id ` set (nodes_t d) \<union> ids_of ns"
proof (induction ns arbitrary: d)
  case Nil
  then show ?case by (simp add: ids_of_def)
next
  case (Cons n ns)
  have "map nr_id (nodes_t (upsertNode n d)) = map nr_id (nodes_t d) @ (if gn_id n \<in> nr_id ` set (nodes_t d) then [] else [gn_id n])"
    by (simp add: upsertNode_def sql_update_nodes_def sql_insert_node_def node_params_def UPSERT_NODE_STMT_def Let_def)
  from arg_cong [OF this, of set] have "nr_id ` set (nodes_t (upsertNode n d)) = insert (gn_id n) (nr_id ` set (nodes_t d))" by auto
  with Cons show ?case by (simp add: ids_of_def)
qed

lemma cleared_tables: "nodes_t (clearGraph_tables d) = []" "edges_t (clearGraph_tables d) = []"
  by (simp_all add: clearGraph_tables_def withoutFtsTriggers_def sql_delete_nodes_def)

lemma outcome_in:
  assumes "oc \<in> set (outcomes opts (resolver_for (io_env opts) nodes ims) es)" "proper_nodes nodes"
  shows "ge_src (oc_edge oc) \<in> ids_of nodes \<and> (ge_dst (oc_edge oc) \<in> ids_of nodes \<or> (\<exists>name. ge_dst (oc_edge oc) = unresolvedEdgeId name))
    \<and> (\<forall>s. oc_site oc = Some s \<longrightarrow> site_src s \<in> ids_of nodes \<and> site_dst s \<in> ids_of nodes)"
proof -
  obtain e where "resolveOne (io_env opts) (resolver_for (io_env opts) nodes ims) e (io_resolvedAt opts) = Inr (Some oc)"
    using assms(1) by (auto simp: outcomes_def map_filter_def split: sum.splits)
  with resolve_ends [OF assms(2), of "io_env opts" ims e "io_resolvedAt opts"] show ?thesis
    by (auto split: if_splits)
qed

text \<open>C29: a rebuilt index is closed. After a successful full rebuild (cleared by this run), every edge
  starts at a node of the index and ends at one, or at the marker of an unresolved name; both ends
  of every call site are nodes; and the ids in the node table are exactly those of the records.
\<close>

theorem rebuild_closed:
  assumes "runIngest opts run (k, d0) = (Inr res, st)" "well_started (run_records run) rest"
    and "io_clearBeforeIngest opts" "io_fullRebuild opts" "proper_nodes (built_nodes (\<lambda>_. None) rest)"
  shows "nr_id ` set (nodes_t (disk_tables st)) = ids_of (built_nodes (\<lambda>_. None) rest)
    \<and> (\<forall>e \<in> set (edges_t (disk_tables st)). er_src e \<in> nr_id ` set (nodes_t (disk_tables st))
        \<and> (er_dst e \<in> nr_id ` set (nodes_t (disk_tables st)) \<or> (\<exists>name. er_dst e = unresolvedEdgeId name)))
    \<and> (\<forall>s \<in> set (call_sites_t (disk_tables st)). site_src s \<in> nr_id ` set (nodes_t (disk_tables st))
        \<and> site_dst s \<in> nr_id ` set (nodes_t (disk_tables st)))"
proof -
  let ?nodes = "built_nodes (\<lambda>_. None) rest" and ?base = "base_tables opts d0"
  define outs where "outs = outcomes opts (resolver_for (io_env opts) ?nodes (raw_edges rest)) (raw_edges rest)"
  note tables = finished_tables [OF assms(1,2) refl refl outs_def]
  have base: "nodes_t ?base = []" "edges_t ?base = []" using assms(3) by (simp_all add: base_tables_def cleared_tables)
  have ids: "nr_id ` set (nodes_t (disk_tables st)) = ids_of ?nodes" using base(1) by (simp add: tables(1) upserted_ids)
  have "edge_key e \<in> ge_key ` oc_edge ` set outs" if "e \<in> set (edges_t (disk_tables st))" for e
  proof -
    have "edge_key e \<in> edge_key ` set (edges_t (fold replaceEdge (aggregated outs) ?base))" using that tables(3) by auto
    then show ?thesis by (simp add: replaced_keys aggregated_weight weight_at_def [of ?base] base(2) split: if_splits)
  qed
  then have "er_src e \<in> ids_of ?nodes \<and> (er_dst e \<in> ids_of ?nodes \<or> (\<exists>name. er_dst e = unresolvedEdgeId name))"
    if "e \<in> set (edges_t (disk_tables st))" for e
    using that outcome_in [OF _ assms(5)] unfolding outs_def edge_key_def ge_key_def by fastforce
  moreover have "site_src s \<in> ids_of ?nodes \<and> site_dst s \<in> ids_of ?nodes" if "s \<in> set (call_sites_t (disk_tables st))" for s
    using that tables(2) assms(4) outcome_in [OF _ assms(5)] unfolding outs_def by (auto simp: map_filter_def)
  ultimately show ?thesis unfolding ids by blast
qed

subsection \<open>Collisions of ids\<close>

definition claim_step :: "graph_node \<Rightarrow> (string \<Rightarrow> string option) \<times> int \<Rightarrow> (string \<Rightarrow> string option) \<times> int" where
  "claim_step n p = (if gn_kind n \<noteq> ''module'' then p
     else case fst p (gn_id n) of
       None \<Rightarrow> ((fst p)(gn_id n \<mapsto> gn_file n), snd p)
     | Some owner \<Rightarrow> (fst p, if owner \<noteq> gn_file n then snd p + 1 else snd p))"

definition owners :: "ingest_state \<Rightarrow> (string \<Rightarrow> string option) \<times> int" where
  "owners st = (fileByModuleId st, idCollisions st)"

lemma owners_handle:
  "owners (handleRecord opts r st) = fold claim_step (built_nodes (moduleByFile st) [r]) (owners st)
    \<and> moduleByFile (handleRecord opts r st) = next_modules r (moduleByFile st)"
  by (induction opts r st rule: handleRecord.induct)
    (auto simp: owners_def handle_node_def handle_edge_def claim_module_id_def claim_step_def clear_index_def flushNodes_def
      flushEdges_def Let_def split: option.split prod.split)

lemma owners_start: "owners (ingest_start opts s) = ((\<lambda>_. None), 0)" "moduleByFile (ingest_start opts s) = (\<lambda>_. None)"
  by (simp_all add: owners_def ingest_start_def Let_def split: prod.split)

lemma owners_drain:
  "abortReason (drain_records opts rs st) = None \<Longrightarrow>
    owners (drain_records opts rs st) = fold claim_step (built_nodes (moduleByFile st) rs) (owners st)"
proof (induction rs arbitrary: st)
  case (Cons r rs)
  have "abortReason (handleRecord opts r st) = None" using Cons.prems by (auto simp: Let_def split: if_splits)
  with Cons owners_handle [of opts r st] show ?case by (simp add: Let_def built_Cons [of _ r rs])
qed simp

definition module_files :: "graph_node list \<Rightarrow> (string \<times> string) set" where
  "module_files ns = (\<lambda>n. (gn_id n, gn_file n)) ` {n \<in> set ns. gn_kind n = ''module''}"

definition claims_sound :: "graph_node list \<Rightarrow> (string \<Rightarrow> string option) \<times> int \<Rightarrow> bool" where
  "claims_sound ns p \<longleftrightarrow> (\<forall>i f. fst p i = Some f \<longrightarrow> (i, f) \<in> module_files ns) \<and> (\<forall>i f. (i, f) \<in> module_files ns \<longrightarrow> fst p i \<noteq> None)
     \<and> 0 \<le> snd p \<and> (snd p = 0 \<longleftrightarrow> single_valued (module_files ns))"

lemma claims_sound_step:
  assumes "claims_sound ns p"
  shows "claims_sound (ns @ [n]) (claim_step n p)"
proof (cases "gn_kind n = ''module''")
  case False
  then have "module_files (ns @ [n]) = module_files ns" by (auto simp: module_files_def)
  with False assms show ?thesis by (simp add: claim_step_def claims_sound_def)
next
  case True
  then have m: "module_files (ns @ [n]) = insert (gn_id n, gn_file n) (module_files ns)" by (auto simp: module_files_def)
  show ?thesis
  proof (cases "fst p (gn_id n)")
    case None
    then have "\<And>f. (gn_id n, f) \<notin> module_files ns" using assms unfolding claims_sound_def by blast
    then have "single_valued (module_files (ns @ [n])) \<longleftrightarrow> single_valued (module_files ns)"
      unfolding m single_valued_def by auto
    with assms True None show ?thesis by (auto simp: claim_step_def claims_sound_def m)
  next
    case (Some owner)
    then have o: "(gn_id n, owner) \<in> module_files ns" using assms unfolding claims_sound_def by blast
    then have "single_valued (module_files (ns @ [n])) \<longleftrightarrow> single_valued (module_files ns) \<and> owner = gn_file n"
      unfolding m single_valued_def by auto
    with assms True Some o show ?thesis by (auto simp: claim_step_def claims_sound_def m)
  qed
qed

lemma claims_sound_fold: "claims_sound ns (fold claim_step ns (\<lambda>_. None, 0))"
  by (induction ns rule: rev_induct) (simp_all add: claims_sound_step, simp add: claims_sound_def module_files_def)

text \<open>What the collision report says. A successful ingest reports zero id collisions iff no two parsed
  files derive the same module id. (It says nothing of other ids, see
  \<open>file_directory_collision_unreported\<close>.)
\<close>

theorem collisions_reported:
  assumes "runIngest opts run (k, d0) = (Inr res, st)"
  shows "ir_idCollisions res = 0 \<longleftrightarrow> single_valued (module_files (built_nodes (\<lambda>_. None) (run_records run)))"
proof -
  let ?s0 = "ingest_start opts (k, d0)" let ?st = "drain_records opts (run_records run) ?s0" let ?s = "flushEdges (flushNodes ?st)"
  have a: "abortReason ?st = None" using assms by (auto simp: runIngest_def Let_def split: option.splits)
  have "finish_ingest opts ?s = (Inr res, st)" using assms a by (auto simp: runIngest_def Let_def split: if_splits)
  then have "ir_idCollisions res = idCollisions ?s" using finish_steps [of opts ?s] by (auto simp: after_edges_collisions)
  also have "\<dots> = idCollisions ?st" by (simp add: flushNodes_def flushEdges_def)
  also have "\<dots> = snd (owners ?st)" by (simp add: owners_def)
  finally show ?thesis
    using owners_drain [OF a] claims_sound_fold [of "built_nodes (\<lambda>_. None) (run_records run)"]
    by (simp add: claims_sound_def owners_start)
qed

subsection \<open>A small run\<close>

definition plain_opts :: ingest_opts where
  "plain_opts = \<lparr>io_env = plain_env, io_fullRebuild = True, io_clearBeforeIngest = True, io_maxFiles = DEFAULT_MAX_INGEST_FILES,
     io_maxNodes = DEFAULT_MAX_INGEST_NODES, io_maxEdges = DEFAULT_MAX_INGEST_EDGES, io_minted = ''7:a:b'', io_esrch = (\<lambda>_. False),
     io_startedAt = 5, io_resolvedAt = 8, io_finishedAt = 9, io_git_head = None, io_git_status = None, io_registry = False\<rparr>"

definition native_sample :: "string \<Rightarrow> string \<Rightarrow> string \<Rightarrow> int native_record" where
  "native_sample name kind f = NodeRec (NativeNode f name name kind ''typescript'' (1, 2) ''h'')"

definition sample_records :: "(int \<times> int native_record) list" where
  "sample_records = [(6, VersionRec 0 1 0 2), (6, StartRec 1 ''0.1.0''), (6, native_sample ''a'' ''module'' ''a.ts''),
     (6, native_sample ''run'' ''function'' ''a.ts''), (6, native_sample ''helper'' ''function'' ''a.ts''),
     (7, EdgeRec (NativeEdge ''a.ts'' ''run'' ''helper'' ''static_call'' None None None None (Some 1) (Some 3))),
     (7, EdgeRec (NativeEdge ''a.ts'' ''run'' ''helper'' ''static_call'' None None None None (Some 2) (Some 3)))]"

definition sample_run :: native_run where
  "sample_run = \<lparr>run_records = sample_records, run_throws = False, run_exit = 0\<rparr>"

definition empty_disk :: index_disk where
  "empty_disk = \<lparr>dk_index = \<lparr>tables = db_new True, marker = None, watermark = None, nodes_readable = True, stats_readable = True\<rparr>,
     dk_dirty = None\<rparr>"

lemma sample_outcome:
  "(case runIngest plain_opts sample_run (None, empty_disk) of
     (Inr res, st) \<Rightarrow> weight_at (disk_tables st) (''a/run'', ''a/helper'', ''static_call'') = Some 2
       \<and> length (call_sites_t (disk_tables st)) = 2 \<and> length (history st) = 7
   | _ \<Rightarrow> False)"
  by code_simp

lemma sample_finishes:
  obtains res st where "runIngest plain_opts sample_run (None, empty_disk) = (Inr res, st)"
proof -
  have "\<not> isl (fst (runIngest plain_opts sample_run (None, empty_disk)))" by code_simp
  then show thesis using that by (cases "runIngest plain_opts sample_run (None, empty_disk)"; cases "fst (runIngest plain_opts sample_run (None, empty_disk))") auto
qed

lemma sample_started: "well_started (run_records sample_run) (drop 2 sample_records)"
  unfolding well_started_def
  by (rule exI [of _ "take 1 sample_records"], rule exI [of _ "sample_records ! 1"])
    (simp add: sample_run_def sample_records_def native_sample_def)

theorem crash_safe_witness:
  "\<exists>res st h. runIngest plain_opts sample_run (None, empty_disk) = (Inr res, st) \<and> history st = h @ [disk st] \<and> \<not> flagged ''7:a:b'' (dk_index (disk st))"
proof -
  obtain res st where r: "runIngest plain_opts sample_run (None, empty_disk) = (Inr res, st)" by (rule sample_finishes)
  have "''7:a:b'' = own_token (io_minted plain_opts) None" by (simp add: own_token_def plain_opts_def)
  from crash_safe [OF r this] obtain h where "history st = h \<or> history st = h @ [disk st] \<and> \<not> flagged ''7:a:b'' (dk_index (disk st))"
    "history st = h @ [disk st]" by auto
  with r show ?thesis by (intro exI [of _ res] exI [of _ st] exI [of _ h]) auto
qed

theorem ingest_contents_witness:
  "\<exists>res st. runIngest plain_opts sample_run (None, empty_disk) = (Inr res, st)
    \<and> nodes_t (disk_tables st) = nodes_t (fold upsertNode (built_nodes (\<lambda>_. None) (drop 2 sample_records)) (base_tables plain_opts empty_disk))"
proof -
  obtain res st where r: "runIngest plain_opts sample_run (None, empty_disk) = (Inr res, st)" by (rule sample_finishes)
  with ingest_contents [OF r sample_started refl refl] show ?thesis by blast
qed

theorem rebuild_closed_witness:
  "\<exists>res st. runIngest plain_opts sample_run (None, empty_disk) = (Inr res, st)
    \<and> nr_id ` set (nodes_t (disk_tables st)) = {''a'', ''a/run'', ''a/helper''}"
proof -
  obtain res st where r: "runIngest plain_opts sample_run (None, empty_disk) = (Inr res, st)" by (rule sample_finishes)
  have "proper_nodes (built_nodes (\<lambda>_. None) (drop 2 sample_records))" by code_simp
  moreover have "map gn_id (built_nodes (\<lambda>_. None) (drop 2 sample_records)) = [''a'', ''a/run'', ''a/helper'']" by code_simp
  from arg_cong [OF this, of set] have "ids_of (built_nodes (\<lambda>_. None) (drop 2 sample_records)) = {''a'', ''a/run'', ''a/helper''}"
    by (simp add: ids_of_def)
  moreover have "io_clearBeforeIngest plain_opts" "io_fullRebuild plain_opts" by (simp_all add: plain_opts_def)
  ultimately show ?thesis using rebuild_closed [OF r sample_started] r by auto
qed

theorem collisions_reported_witness:
  "\<exists>res st. runIngest plain_opts sample_run (None, empty_disk) = (Inr res, st) \<and> ir_idCollisions res = 0"
proof -
  obtain res st where r: "runIngest plain_opts sample_run (None, empty_disk) = (Inr res, st)" by (rule sample_finishes)
  have m: "map (\<lambda>n. (gn_kind n, gn_id n, gn_file n)) (built_nodes (\<lambda>_. None) (run_records sample_run))
      = [(''module'', ''a'', ''a.ts''), (''function'', ''a/run'', ''a.ts''), (''function'', ''a/helper'', ''a.ts'')]" by code_simp
  have "module_files ns = snd ` {x \<in> set (map (\<lambda>n. (gn_kind n, gn_id n, gn_file n)) ns). fst x = ''module''}" for ns
    by (force simp: module_files_def)
  then have "module_files (built_nodes (\<lambda>_. None) (run_records sample_run)) \<subseteq> {(''a'', ''a.ts'')}" by (simp only: m) auto
  then have "single_valued (module_files (built_nodes (\<lambda>_. None) (run_records sample_run)))" by (auto simp: single_valued_def)
  with collisions_reported [OF r] r show ?thesis by blast
qed

text \<open>
  A refused run is said to leave the index exactly as it was. An index that an older build left
  half-written bears a marker that \<open>beginIngest\<close> adopts; the refusal then retracts it, and the index
  reads as usable.
\<close>

definition legacy_disk :: index_disk where
  "legacy_disk = empty_disk\<lparr>dk_index := (dk_index empty_disk)\<lparr>marker := Some (Scalar 3)\<rparr>\<rparr>"

definition huge_run :: native_run where
  "huge_run = \<lparr>run_records = [(6, StartRec 300000 ''0.1.0'')], run_throws = False, run_exit = 0\<rparr>"

theorem refusal_unflags_legacy:
  "case runIngest plain_opts huge_run (None, legacy_disk) of
     (Inl (Refused FilesCap), st) \<Rightarrow> map_option ii_ok (readIndexIntegrity (dk_index legacy_disk)) = Some False
       \<and> map_option ii_ok (readIndexIntegrity (dk_index (disk st))) = Some True
   | _ \<Rightarrow> False"
  by code_simp

text \<open>
  A file \<open>a/src.ts\<close> with a function \<open>b\<close>, beside a file \<open>a/src/b.ts\<close>: the function and the second
  module get one id. The comment on \<open>fileByModuleId\<close> says that such a collision is detected, and
  that files can only collide when their module ids do; nothing is reported, and one row is lost.
\<close>

definition file_directory_run :: native_run where
  "file_directory_run = \<lparr>run_records = [(6, StartRec 2 ''0.1.0''), (6, native_sample ''src'' ''module'' ''a/src.ts''),
     (6, native_sample ''b'' ''function'' ''a/src.ts''), (6, native_sample ''b'' ''module'' ''a/src/b.ts'')],
     run_throws = False, run_exit = 0\<rparr>"

theorem file_directory_collision_unreported:
  "case runIngest plain_opts file_directory_run (None, empty_disk) of
     (Inr res, st) \<Rightarrow> ir_nodes res = 3 \<and> map nr_id (nodes_t (disk_tables st)) = [''a/src'', ''a/src/b''] \<and> ir_idCollisions res = 0
   | _ \<Rightarrow> False"
  by code_simp

end
