(* ===== verification/BranchIndex.thy ===== *)
theory BranchIndex
  imports IndexHealth Text Complex_Main
begin

text \<open>
  \<open>db/branch_index.ts\<close>: one cached index per branch. A branch name becomes the name of a directory
  that may hold an index; a new one is seeded with a copy of the freshest index worth copying, and
  the least recent are evicted. The directory is a list of entries in the order of \<open>readdir\<close>; an
  index is its time, its size and what it holds, \<open>None\<close> when it cannot be opened. Failures to
  create or copy files are left out, failures to remove them are an argument. Shown here: a key
  names one directory below the parent, what is evicted is old and unprotected, a seed is whole
  where that can be told, and the difference that git prints is read exactly.
\<close>

subsection \<open>The key of a branch\<close>

text \<open>What stands at \<open>.git\<close>: nothing, a directory, a file with its text where it can be read, another thing.\<close>

datatype dot_git = NoGit | GitDirectory | GitFile "string option" | GitOther

datatype head_file = MainHead | HeadAbsolute string | HeadRelative string

definition line_end :: "char \<Rightarrow> bool" where
  "line_end c \<longleftrightarrow> c = CHR 0x0A \<or> c = CHR 0x0D"

text \<open>\<open>^word\s*(.+)$\<close> of a trimmed text: the group.\<close>

definition after_word :: "string \<Rightarrow> string \<Rightarrow> string option" where
  "after_word w s =
     (if prefix w s
      then (let rest = dropWhile ascii_space (drop (length w) s)
            in if rest \<noteq> [] \<and> \<not> list_ex line_end rest then Some rest else None)
      else None)"

definition isAbsolute :: "string \<Rightarrow> bool" where
  "isAbsolute p \<longleftrightarrow> prefix ''/'' p"

definition resolveHeadFile :: "dot_git \<Rightarrow> head_file option" where
  "resolveHeadFile g = (case g of
     GitDirectory \<Rightarrow> Some MainHead
   | GitFile (Some content) \<Rightarrow>
       (case after_word ''gitdir:'' (trim content) of
          Some m \<Rightarrow> (let gitDir = trim m in Some (if isAbsolute gitDir then HeadAbsolute gitDir else HeadRelative gitDir))
        | None \<Rightarrow> None)
   | _ \<Rightarrow> None)"

definition key_char :: "char \<Rightarrow> bool" where
  "key_char c \<longleftrightarrow> (let n = of_char c :: nat in 48 \<le> n \<and> n \<le> 57 \<or> 65 \<le> n \<and> n \<le> 90 \<or> 97 \<le> n \<and> n \<le> 122)
     \<or> c \<in> set ''_.-''"

text \<open>One hyphen for every UTF-16 unit that is replaced: the text is UTF-8.\<close>

definition hyphens :: "char \<Rightarrow> string" where
  "hyphens c = (let n = of_char c :: nat in if 128 \<le> n \<and> n < 192 then [] else if 240 \<le> n then ''--'' else ''-'')"

definition sanitizeBranchKey :: "string \<Rightarrow> string" where
  "sanitizeBranchKey raw =
     (let cleaned = concat (map (\<lambda>c. if key_char c then [c] else hyphens c) (trim raw))
      in if cleaned = [] \<or> cleaned = ''.'' \<or> cleaned = ''..'' then ''branch'' else cleaned)"

definition hex_any :: "char \<Rightarrow> bool" where
  "hex_any c \<longleftrightarrow> c \<in> set ''0123456789abcdefABCDEF''"

text \<open>\<open>^ref:\s*refs/heads/(.+)$\<close>: what follows the white space is not trimmed from the left again.\<close>

definition branch_ref :: "string \<Rightarrow> string option" where
  "branch_ref head =
     (if prefix ''ref:'' head
      then (let s = dropWhile ascii_space (drop 4 head)
            in if prefix ''refs/heads/'' s \<and> drop 11 s \<noteq> [] \<and> \<not> list_ex line_end (drop 11 s)
               then Some (drop 11 s) else None)
      else None)"

definition branchKey :: "dot_git \<Rightarrow> (head_file \<Rightarrow> string option) \<Rightarrow> string option" where
  "branchKey g read_head =
     (case resolveHeadFile g of
        None \<Rightarrow> None
      | Some headFile \<Rightarrow>
          (case read_head headFile of
             None \<Rightarrow> None
           | Some text \<Rightarrow>
               (let head = trim text
                in if head = [] then None
                   else case branch_ref head of
                     Some name \<Rightarrow> Some (sanitizeBranchKey name)
                   | None \<Rightarrow>
                       if 7 \<le> length head \<and> length head \<le> 40 \<and> list_all hex_any head
                       then Some (''detached-'' @ take 12 head) else None)))"

definition activeBranchKey :: "bool option \<Rightarrow> string option \<Rightarrow> string option" where
  "activeBranchKey perBranch key = (if perBranch = Some False then None else key)"

subsection \<open>The directory of indexes\<close>

record stored_index =
  si_mtime :: rat
  si_bytes :: int
  si_content :: "index_file option"

record branch_dir =
  bd_key :: string
  bd_index :: "stored_index option"

text \<open>\<open>bs_dirs\<close> is \<open>None\<close> when the directory cannot be listed.\<close>

record branch_store =
  bs_dirs :: "branch_dir list option"
  bs_legacy :: "stored_index option"

datatype index_path = LegacyIndex | BranchIndex string

record resolved_index =
  rx_path :: index_path
  rx_branchKey :: "string option"
  rx_usedFallback :: bool
  rx_seededFrom :: "index_path option"

definition dirs :: "branch_store \<Rightarrow> branch_dir list" where
  "dirs s = (case bs_dirs s of None \<Rightarrow> [] | Some ds \<Rightarrow> ds)"

definition branch_index :: "string \<Rightarrow> branch_store \<Rightarrow> stored_index option" where
  "branch_index k s = Option.bind (List.find (\<lambda>d. bd_key d = k) (dirs s)) bd_index"

definition index_at :: "index_path \<Rightarrow> branch_store \<Rightarrow> stored_index option" where
  "index_at p s = (case p of LegacyIndex \<Rightarrow> bs_legacy s | BranchIndex k \<Rightarrow> branch_index k s)"

definition listBranchIndexes :: "branch_store \<Rightarrow> (string \<times> stored_index) list" where
  "listBranchIndexes s = List.map_filter (\<lambda>d. map_option (Pair (bd_key d)) (bd_index d)) (dirs s)"

definition resolveReadIndex :: "string option \<Rightarrow> branch_store \<Rightarrow> resolved_index" where
  "resolveReadIndex key s = (case key of
     None \<Rightarrow> \<lparr>rx_path = LegacyIndex, rx_branchKey = None, rx_usedFallback = False, rx_seededFrom = None\<rparr>
   | Some k \<Rightarrow>
       if branch_index k s \<noteq> None
       then \<lparr>rx_path = BranchIndex k, rx_branchKey = Some k, rx_usedFallback = False, rx_seededFrom = None\<rparr>
       else \<lparr>rx_path = LegacyIndex, rx_branchKey = Some k, rx_usedFallback = True, rx_seededFrom = None\<rparr>)"

text \<open>\<open>(a, b) => b.mtimeMs - a.mtimeMs\<close>.\<close>

definition newer_first :: "string \<times> stored_index \<Rightarrow> string \<times> stored_index \<Rightarrow> int" where
  "newer_first a b = cmp_lin (si_mtime (snd b)) (si_mtime (snd a))"

text \<open>An index that cannot be opened, or on which the check throws, counts as worth copying.\<close>

definition hasSeedableContent :: "stored_index option \<Rightarrow> bool" where
  "hasSeedableContent i = (case i of
     None \<Rightarrow> False
   | Some x \<Rightarrow>
       (case Option.bind (si_content x) readIndexIntegrity of
          None \<Rightarrow> True
        | Some integrity \<Rightarrow> isSeedableIndex integrity))"

definition freshestSeed :: "string \<Rightarrow> branch_store \<Rightarrow> index_path option" where
  "freshestSeed exceptKey s =
     (let siblings = map (\<lambda>b. BranchIndex (fst b))
            (js_sort newer_first (filter (\<lambda>b. fst b \<noteq> exceptKey) (listBranchIndexes s)))
      in List.find (\<lambda>p. hasSeedableContent (index_at p s))
           (siblings @ (if bs_legacy s \<noteq> None then [LegacyIndex] else [])))"

definition put_branch :: "string \<Rightarrow> stored_index option \<Rightarrow> branch_store \<Rightarrow> branch_store" where
  "put_branch k i s =
     s\<lparr>bs_dirs := Some (if k \<in> bd_key ` set (dirs s)
        then map (\<lambda>d. if bd_key d = k then d\<lparr>bd_index := i\<rparr> else d) (dirs s)
        else dirs s @ [\<lparr>bd_key = k, bd_index = i\<rparr>])\<rparr>"

definition make_dir :: "string \<Rightarrow> branch_store \<Rightarrow> branch_store" where
  "make_dir k s =
     s\<lparr>bs_dirs := Some (if k \<in> bd_key ` set (dirs s) then dirs s else dirs s @ [\<lparr>bd_key = k, bd_index = None\<rparr>])\<rparr>"

text \<open>
  The checkpoint may write to the source, which changes its time: \<open>cp_src\<close>; the copy has a time
  and a size of its own. What the two hold is the same.
\<close>

record copy_times =
  cp_src :: "rat option"
  cp_dst :: rat
  cp_bytes :: int

definition set_time :: "rat option \<Rightarrow> stored_index \<Rightarrow> stored_index" where
  "set_time t i = (case t of None \<Rightarrow> i | Some m \<Rightarrow> i\<lparr>si_mtime := m\<rparr>)"

definition copySqlite :: "copy_times \<Rightarrow> index_path \<Rightarrow> string \<Rightarrow> branch_store \<Rightarrow> branch_store" where
  "copySqlite t src k s =
     (case index_at src s of
        None \<Rightarrow> s
      | Some i \<Rightarrow>
          let s1 = (case src of LegacyIndex \<Rightarrow> s\<lparr>bs_legacy := Some (set_time (cp_src t) i)\<rparr>
                    | BranchIndex k' \<Rightarrow> put_branch k' (Some (set_time (cp_src t) i)) s)
          in put_branch k (Some \<lparr>si_mtime = cp_dst t, si_bytes = cp_bytes t, si_content = si_content i\<rparr>) s1)"

definition DEFAULT_MAX_BRANCHES :: int where "DEFAULT_MAX_BRANCHES = 8"

definition remove_branches :: "string set \<Rightarrow> branch_store \<Rightarrow> branch_store" where
  "remove_branches ks s = s\<lparr>bs_dirs := map_option (filter (\<lambda>d. bd_key d \<notin> ks)) (bs_dirs s)\<rparr>"

definition cap_of :: "int option \<Rightarrow> int" where
  "cap_of maxBranches = max 1 (case maxBranches of Some n \<Rightarrow> n | None \<Rightarrow> DEFAULT_MAX_BRANCHES)"

definition lru_victims :: "int option \<Rightarrow> string set \<Rightarrow> branch_store \<Rightarrow> string list" where
  "lru_victims maxBranches protectedKeys s =
     (let mx = cap_of maxBranches;
          all = listBranchIndexes s
      in if int (length all) \<le> mx then []
         else let kept = filter (\<lambda>b. fst b \<in> protectedKeys) all;
                  evictable = js_sort newer_first (filter (\<lambda>b. fst b \<notin> protectedKeys) all);
                  remainingSlots = max 0 (mx - int (length kept))
              in map fst (drop (nat remainingSlots) evictable))"

definition evictBranchesLru :: "(string \<Rightarrow> bool) \<Rightarrow> int option \<Rightarrow> string set \<Rightarrow> branch_store \<Rightarrow> branch_store" where
  "evictBranchesLru stuck maxBranches protectedKeys s =
     remove_branches {k \<in> set (lru_victims maxBranches protectedKeys s). \<not> stuck k} s"

definition resolveWriteIndexForKey ::
    "(string \<Rightarrow> bool) \<Rightarrow> copy_times \<Rightarrow> int option \<Rightarrow> string option \<Rightarrow> bool \<Rightarrow> string option \<Rightarrow> branch_store
      \<Rightarrow> resolved_index \<times> branch_store" where
  "resolveWriteIndexForKey stuck t maxBranches key seed keepAlsoKey s =
     (case key of
        None \<Rightarrow> (\<lparr>rx_path = LegacyIndex, rx_branchKey = None, rx_usedFallback = False, rx_seededFrom = None\<rparr>, s)
      | Some k \<Rightarrow>
          let (from, s1) =
                (if branch_index k s \<noteq> None then (None, s)
                 else let s0 = make_dir k s
                      in if seed then (case freshestSeed k s0 of
                           None \<Rightarrow> (None, s0)
                         | Some p \<Rightarrow> (Some p, copySqlite t p k s0))
                         else (None, s0))
          in (\<lparr>rx_path = BranchIndex k, rx_branchKey = Some k, rx_usedFallback = False, rx_seededFrom = from\<rparr>,
              evictBranchesLru stuck maxBranches (insert k (set_option keepAlsoKey)) s1))"

record prune_state =
  pr_removed :: "(string \<times> int) list"
  pr_bytes :: int
  pr_kept :: "string list"
  pr_keptNonActive :: int

definition prune_step ::
    "(string \<Rightarrow> bool) \<Rightarrow> string option \<Rightarrow> int \<Rightarrow> string \<times> stored_index \<Rightarrow> prune_state \<Rightarrow> prune_state" where
  "prune_step stuck activeKey keepN b p =
     (if Some (fst b) = activeKey then p\<lparr>pr_kept := pr_kept p @ [fst b]\<rparr>
      else if pr_keptNonActive p < keepN
      then p\<lparr>pr_kept := pr_kept p @ [fst b], pr_keptNonActive := pr_keptNonActive p + 1\<rparr>
      else if stuck (fst b) then p\<lparr>pr_kept := pr_kept p @ [fst b]\<rparr>
      else p\<lparr>pr_removed := pr_removed p @ [(fst b, si_bytes (snd b))], pr_bytes := pr_bytes p + si_bytes (snd b)\<rparr>)"

definition pruneBranches ::
    "(string \<Rightarrow> bool) \<Rightarrow> string option \<Rightarrow> rat \<Rightarrow> branch_store \<Rightarrow> prune_state \<times> branch_store" where
  "pruneBranches stuck activeKey keep s =
     (let all = js_sort newer_first (listBranchIndexes s);
          p = fold (prune_step stuck activeKey (max 0 \<lfloor>keep\<rfloor>)) all
                \<lparr>pr_removed = [], pr_bytes = 0, pr_kept = [], pr_keptNonActive = 0\<rparr>
      in (p, remove_branches (fst ` set (pr_removed p)) s))"

subsection \<open>What changed since a commit\<close>

text \<open>The output of \<open>git diff --name-status -z --no-renames\<close>, \<open>None\<close> when git fails.\<close>

definition NUL_sep :: "char \<Rightarrow> bool" where "NUL_sep c \<longleftrightarrow> c = CHR 0x00"

fun diff_entries :: "string list \<Rightarrow> string list \<times> string list" where
  "diff_entries (status # path # ts) =
     (case diff_entries ts of (changed, deleted) \<Rightarrow>
        if prefix ''D'' status then (changed, path # deleted) else (path # changed, deleted))"
| "diff_entries _ = ([], [])"

definition gitDiffSince :: "string option \<Rightarrow> (string list \<times> string list) option" where
  "gitDiffSince output = map_option (\<lambda>out. diff_entries (filter (\<lambda>t. t \<noteq> []) (split_on NUL_sep out))) output"

definition gitUntracked :: "string option \<Rightarrow> string list" where
  "gitUntracked output = (case output of None \<Rightarrow> [] | Some out \<Rightarrow> filter (\<lambda>t. t \<noteq> []) (split_on NUL_sep out))"

subsection \<open>Keys\<close>

lemma hyphens_ok: "c \<in> set (hyphens d) \<Longrightarrow> key_char c"
  by (auto simp: hyphens_def key_char_def Let_def split: if_splits)

text \<open>A key is the name of an entry of the directory, never a path out of it.\<close>

theorem key_is_a_name:
  "sanitizeBranchKey raw \<noteq> [] \<and> sanitizeBranchKey raw \<notin> {''.'', ''..''} \<and> list_all key_char (sanitizeBranchKey raw)
    \<and> CHR ''/'' \<notin> set (sanitizeBranchKey raw)"
proof -
  let ?c = "concat (map (\<lambda>c. if key_char c then [c] else hyphens c) (trim raw))"
  have "list_all key_char ?c" by (auto simp: list_all_iff dest: hyphens_ok)
  moreover have "list_all key_char ''branch''" by (simp add: key_char_def Let_def)
  ultimately have k: "list_all key_char (sanitizeBranchKey raw)" by (simp add: sanitizeBranchKey_def Let_def)
  have "\<not> key_char (CHR ''/'')" by (simp add: key_char_def)
  with k have "CHR ''/'' \<notin> set (sanitizeBranchKey raw)" by (auto simp only: list_all_iff)
  moreover have "sanitizeBranchKey raw \<noteq> [] \<and> sanitizeBranchKey raw \<notin> {''.'', ''..''}"
    by (simp add: sanitizeBranchKey_def Let_def)
  ultimately show ?thesis using k by simp
qed

subsection \<open>The directory\<close>

definition proper :: "branch_store \<Rightarrow> bool" where
  "proper s \<longleftrightarrow> distinct (map bd_key (dirs s))"

lemma set_listBranchIndexes: "(k, i) \<in> set (listBranchIndexes s) \<longleftrightarrow> (\<exists>d \<in> set (dirs s). bd_key d = k \<and> bd_index d = Some i)"
  by (auto simp: listBranchIndexes_def set_map_filter)

lemma keys_distinct: "proper s \<Longrightarrow> distinct (map fst (listBranchIndexes s))"
  using distinct_keys_map_filter [of "map (\<lambda>d. (bd_key d, bd_index d)) (dirs s)" "\<lambda>p. map_option (Pair (fst p)) (snd p)" fst]
  by (auto simp: proper_def listBranchIndexes_def comp_def List.map_filter_def filter_map)

lemma find_key: "distinct (map f ds) \<Longrightarrow> d \<in> set ds \<Longrightarrow> List.find (\<lambda>x. f x = f d) ds = Some d"
  by (induction ds) auto

lemma branch_index_iff: "proper s \<Longrightarrow> branch_index k s = Some i \<longleftrightarrow> (k, i) \<in> set (listBranchIndexes s)"
proof -
  assume p: "proper s"
  have "List.find (\<lambda>d. bd_key d = k) (dirs s) = Some d \<longleftrightarrow> d \<in> set (dirs s) \<and> bd_key d = k" for d
    using p find_key [of bd_key "dirs s" d] by (auto simp: proper_def find_Some_iff)
  then show ?thesis by (auto simp: branch_index_def set_listBranchIndexes bind_eq_Some_conv)
qed

interpretation newest: comparator newer_first "\<lambda>_. True"
  by unfold_locales (auto simp: newer_first_def cmp_lin_def split: if_splits)

lemma newest_first: "sorted_wrt (\<lambda>a b. si_mtime (snd b) \<le> si_mtime (snd a)) (js_sort newer_first xs)"
  using newest.sorted_js_sort [of xs] by (simp add: newer_first_def)

lemma sorted_cut: "sorted_wrt P xs \<Longrightarrow> x \<in> set (take n xs) \<Longrightarrow> y \<in> set (drop n xs) \<Longrightarrow> P x y"
  by (metis append_take_drop_id sorted_wrt_append)

lemma list_after_removal:
  "listBranchIndexes (remove_branches ks s) = filter (\<lambda>b. fst b \<notin> ks) (listBranchIndexes s)"
proof -
  have d: "dirs (remove_branches ks s) = filter (\<lambda>d. bd_key d \<notin> ks) (dirs s)"
    by (simp add: dirs_def remove_branches_def split: option.split)
  have "List.map_filter (\<lambda>d. map_option (Pair (bd_key d)) (bd_index d)) (filter (\<lambda>d. bd_key d \<notin> ks) ds)
      = filter (\<lambda>b. fst b \<notin> ks) (List.map_filter (\<lambda>d. map_option (Pair (bd_key d)) (bd_index d)) ds)" for ds
    by (induction ds) (auto simp: map_filter_simps split: option.split)
  then show ?thesis by (simp add: listBranchIndexes_def d)
qed

lemma legacy_after_removal [simp]: "bs_legacy (remove_branches ks s) = bs_legacy s"
  by (simp add: remove_branches_def)

subsection \<open>Eviction\<close>

lemma keys_inj: "distinct (map fst xs) \<Longrightarrow> a \<in> set xs \<Longrightarrow> b \<in> set xs \<Longrightarrow> fst a = fst b \<Longrightarrow> a = b"
  by (meson distinct_map inj_onD)

lemma filter_cut:
  assumes "distinct xs"
  shows "length (filter (\<lambda>x. x \<notin> set (drop n xs)) xs) = min n (length xs)"
proof -
  let ?P = "\<lambda>x. x \<notin> set (drop n xs)"
  have "filter ?P xs = filter ?P (take n xs) @ filter ?P (drop n xs)" by (metis append_take_drop_id filter_append)
  moreover have "filter ?P (take n xs) = take n xs"
    using set_take_disj_set_drop_if_distinct [OF assms, of n n] by (auto simp: filter_id_conv)
  moreover have "filter ?P (drop n xs) = []" by simp
  ultimately show ?thesis by simp
qed

lemma length_filter_cases:
  "length (filter P xs) = length (filter (\<lambda>x. P x \<and> Q x) xs) + length (filter (\<lambda>x. P x \<and> \<not> Q x) xs)"
  by (induction xs) auto

text \<open>
  Eviction keeps every protected index and takes the oldest of the others, just as many as are too
  many; nothing else of the directory changes.
\<close>

theorem eviction:
  fixes P :: "string set" and maxBranches :: "int option"
  assumes "proper s" "\<And>k. \<not> stuck k"
  defines "s' \<equiv> evictBranchesLru stuck maxBranches P s"
  shows "int (length (listBranchIndexes s'))
      = min (int (length (listBranchIndexes s))) (max (cap_of maxBranches) (int (length (filter (\<lambda>b. fst b \<in> P) (listBranchIndexes s)))))"
    and "set (listBranchIndexes s') \<subseteq> set (listBranchIndexes s)"
    and "b \<in> set (listBranchIndexes s) \<Longrightarrow> fst b \<in> P \<Longrightarrow> b \<in> set (listBranchIndexes s')"
    and "a \<in> set (listBranchIndexes s') \<Longrightarrow> fst a \<notin> P \<Longrightarrow> b \<in> set (listBranchIndexes s) \<Longrightarrow> b \<notin> set (listBranchIndexes s')
      \<Longrightarrow> si_mtime (snd b) \<le> si_mtime (snd a)"
    and "bs_legacy s' = bs_legacy s"
proof -
  let ?all = "listBranchIndexes s" and ?mx = "cap_of maxBranches"
  let ?old = "js_sort newer_first (filter (\<lambda>b. fst b \<notin> P) ?all)"
  let ?prot = "filter (\<lambda>b. fst b \<in> P) ?all"
  define n where "n = nat (max 0 (?mx - int (length ?prot)))"
  have dk: "distinct (map fst ?all)" using assms(1) by (rule keys_distinct)
  then have dall: "distinct ?all" by (simp add: distinct_map)
  have victims: "lru_victims maxBranches P s = (if int (length ?all) \<le> ?mx then [] else map fst (drop n ?old))"
    by (simp add: lru_victims_def Let_def n_def)
  have list: "listBranchIndexes s' = filter (\<lambda>b. fst b \<notin> set (lru_victims maxBranches P s)) ?all"
    using assms(2) by (simp add: s'_def evictBranchesLru_def list_after_removal)
  have sub_old: "set ?old \<subseteq> set ?all" by auto
  have not_old: "b \<notin> set (drop n ?old)" if "fst b \<in> P" for b
  proof
    assume "b \<in> set (drop n ?old)"
    then have "b \<in> set ?old" by (rule in_set_dropD)
    with that show False by simp
  qed
  have by_key: "fst b \<in> fst ` set (drop n ?old) \<longleftrightarrow> b \<in> set (drop n ?old)" if "b \<in> set ?all" for b
  proof
    assume "fst b \<in> fst ` set (drop n ?old)"
    then obtain c where c: "c \<in> set (drop n ?old)" "fst b = fst c" by blast
    then have "c \<in> set ?all" using in_set_dropD [OF c(1)] sub_old by blast
    with c that keys_inj [OF dk, of b c] show "b \<in> set (drop n ?old)" by simp
  qed simp
  have victim_iff: "fst b \<in> set (lru_victims maxBranches P s) \<longleftrightarrow> ?mx < int (length ?all) \<and> b \<in> set (drop n ?old)"
    if "b \<in> set ?all" for b
    using by_key [OF that] by (auto simp: victims)
  have tot: "length ?all = length ?prot + length ?old"
    using sum_length_filter_compl [of "\<lambda>b. fst b \<in> P" ?all] by simp
  have "length (filter (\<lambda>b. b \<notin> set (drop n ?old)) ?all) = length ?prot + min n (length ?old)"
  proof -
    have dold: "distinct ?old" using dall by simp
    have "mset ?old = mset (filter (\<lambda>b. fst b \<notin> P) ?all)" by simp
    then have "mset (filter (\<lambda>b. b \<notin> set (drop n ?old)) ?old) = mset (filter (\<lambda>b. b \<notin> set (drop n ?old)) (filter (\<lambda>b. fst b \<notin> P) ?all))"
      by (simp only: mset_filter)
    then have "length (filter (\<lambda>b. b \<notin> set (drop n ?old)) ?old)
        = length (filter (\<lambda>b. b \<notin> set (drop n ?old)) (filter (\<lambda>b. fst b \<notin> P) ?all))"
      by (rule mset_eq_length)
    then have a: "length (filter (\<lambda>b. b \<notin> set (drop n ?old) \<and> fst b \<notin> P) ?all) = min n (length ?old)"
      using filter_cut [OF dold, of n] by (simp add: conj_commute)
    have "filter (\<lambda>b. b \<notin> set (drop n ?old) \<and> fst b \<in> P) ?all = ?prot"
      using not_old by (intro filter_cong) blast+
    with a length_filter_cases [of "\<lambda>b. b \<notin> set (drop n ?old)" ?all "\<lambda>b. fst b \<in> P"] show ?thesis by simp
  qed
  moreover have "listBranchIndexes s' = (if int (length ?all) \<le> ?mx then ?all else filter (\<lambda>b. b \<notin> set (drop n ?old)) ?all)"
  proof (cases "int (length ?all) \<le> ?mx")
    case True
    then show ?thesis by (simp add: list victims)
  next
    case False
    then have "filter (\<lambda>b. fst b \<notin> set (lru_victims maxBranches P s)) ?all = filter (\<lambda>b. b \<notin> set (drop n ?old)) ?all"
      using victim_iff by (intro filter_cong) (simp_all add: not_le)
    with False show ?thesis by (simp add: list)
  qed
  ultimately show "int (length (listBranchIndexes s')) = min (int (length ?all)) (max ?mx (int (length ?prot)))"
    using tot by (auto simp: n_def)
  show "set (listBranchIndexes s') \<subseteq> set ?all" by (auto simp: list)
  show "b \<in> set (listBranchIndexes s')" if "b \<in> set ?all" "fst b \<in> P"
    using that victim_iff [OF that(1)] not_old [OF that(2)] by (simp add: list)
  show "si_mtime (snd b) \<le> si_mtime (snd a)"
    if "a \<in> set (listBranchIndexes s')" "fst a \<notin> P" "b \<in> set ?all" "b \<notin> set (listBranchIndexes s')"
  proof -
    have b: "?mx < int (length ?all)" "b \<in> set (drop n ?old)" using that(3,4) victim_iff [OF that(3)] by (auto simp: list)
    have "a \<in> set ?all" "a \<notin> set (drop n ?old)" using that(1) b(1) victim_iff [of a] by (auto simp: list)
    with that(2) have "a \<in> set (take n ?old)" by (metis append_take_drop_id Un_iff set_append mem_Collect_eq set_filter set_js_sort)
    with b(2) show ?thesis using sorted_cut [OF newest_first] by blast
  qed
  show "bs_legacy s' = bs_legacy s" by (simp add: s'_def evictBranchesLru_def)
qed

subsection \<open>Pruning\<close>

definition evicted_of :: "(string \<Rightarrow> bool) \<Rightarrow> string option \<Rightarrow> int \<Rightarrow> (string \<times> stored_index) list \<Rightarrow> (string \<times> stored_index) list" where
  "evicted_of stuck activeKey n xs = filter (\<lambda>b. \<not> stuck (fst b)) (drop (nat n) (filter (\<lambda>b. Some (fst b) \<noteq> activeKey) xs))"

lemma fold_prune:
  fixes xs :: "(string \<times> stored_index) list"
  assumes "pr_keptNonActive p \<le> keepN"
  shows "let out = evicted_of stuck activeKey (keepN - pr_keptNonActive p) xs; q = fold (prune_step stuck activeKey keepN) xs p
    in pr_removed q = pr_removed p @ map (\<lambda>b. (fst b, si_bytes (snd b))) out
      \<and> pr_bytes q = pr_bytes p + sum_list (map (\<lambda>b. si_bytes (snd b)) out)
      \<and> mset (pr_kept q) + mset (map fst out) = mset (pr_kept p) + mset (map fst xs)"
  using assms
proof (induction xs arbitrary: p)
  case Nil
  then show ?case by (simp add: evicted_of_def Let_def)
next
  case (Cons b xs)
  show ?case
  proof (cases "Some (fst b) = activeKey \<or> pr_keptNonActive p < keepN")
    case True
    let ?p = "prune_step stuck activeKey keepN b p"
    have n: "pr_keptNonActive ?p \<le> keepN" using True Cons.prems by (auto simp: prune_step_def)
    have e: "evicted_of stuck activeKey (keepN - pr_keptNonActive p) (b # xs) = evicted_of stuck activeKey (keepN - pr_keptNonActive ?p) xs"
    proof (cases "Some (fst b) = activeKey")
      case True
      then show ?thesis by (simp add: evicted_of_def prune_step_def)
    next
      case False
      with True have "nat (keepN - pr_keptNonActive p) = Suc (nat (keepN - (pr_keptNonActive p + 1)))" by linarith
      with False True show ?thesis by (simp add: evicted_of_def prune_step_def)
    qed
    have "pr_removed ?p = pr_removed p" "pr_bytes ?p = pr_bytes p" "mset (pr_kept ?p) = add_mset (fst b) (mset (pr_kept p))"
      using True by (auto simp: prune_step_def)
    with Cons.IH [OF n] e show ?thesis by (simp add: Let_def)
  next
    case False
    let ?p = "prune_step stuck activeKey keepN b p"
    have z: "keepN - pr_keptNonActive p = 0" using False Cons.prems by simp
    have n: "pr_keptNonActive ?p = pr_keptNonActive p" using False by (simp add: prune_step_def)
    have e: "evicted_of stuck activeKey 0 (b # xs) = (if stuck (fst b) then [] else [b]) @ evicted_of stuck activeKey 0 xs"
      using False by (simp add: evicted_of_def)
    show ?thesis
      using Cons.IH [of ?p] Cons.prems False unfolding Let_def n z e by (auto simp: prune_step_def)
  qed
qed

text \<open>
  Pruning removes exactly the inactive branches beyond the \<open>keep\<close> most recent ones that can be
  removed, reports them with their sizes, and keeps the rest.
\<close>

theorem prune_exact:
  assumes "proper s" "pruneBranches stuck activeKey keep s = (p, s')"
  defines "out \<equiv> evicted_of stuck activeKey (max 0 \<lfloor>keep\<rfloor>) (js_sort newer_first (listBranchIndexes s))"
  shows "pr_removed p = map (\<lambda>b. (fst b, si_bytes (snd b))) out" "pr_bytes p = sum_list (map (\<lambda>b. si_bytes (snd b)) out)"
    and "set (listBranchIndexes s') = set (listBranchIndexes s) - set out"
    and "set (pr_kept p) = fst ` set (listBranchIndexes s')" "bs_legacy s' = bs_legacy s"
    and "b \<in> set out \<Longrightarrow> Some (fst b) \<noteq> activeKey"
proof -
  let ?all = "js_sort newer_first (listBranchIndexes s)"
  have dk: "distinct (map fst (listBranchIndexes s))" using assms(1) by (rule keys_distinct)
  have p: "p = fold (prune_step stuck activeKey (max 0 \<lfloor>keep\<rfloor>)) ?all
      \<lparr>pr_removed = [], pr_bytes = 0, pr_kept = [], pr_keptNonActive = 0\<rparr>"
    and s': "s' = remove_branches (fst ` set (pr_removed p)) s"
    using assms(2) by (auto simp: pruneBranches_def Let_def)
  note f = fold_prune [of "\<lparr>pr_removed = [], pr_bytes = 0, pr_kept = [], pr_keptNonActive = 0\<rparr>" "max 0 \<lfloor>keep\<rfloor>" stuck activeKey ?all]
  then show r: "pr_removed p = map (\<lambda>b. (fst b, si_bytes (snd b))) out" "pr_bytes p = sum_list (map (\<lambda>b. si_bytes (snd b)) out)"
    by (simp_all add: p out_def Let_def)
  have k: "mset (pr_kept p) + mset (map fst out) = mset (map fst (listBranchIndexes s))"
    using f mset_map [of fst ?all] by (simp add: p out_def Let_def)
  have sub: "set out \<subseteq> set (listBranchIndexes s)" by (auto simp: out_def evicted_of_def dest: in_set_dropD)
  have out_iff: "fst b \<in> fst ` set out \<longleftrightarrow> b \<in> set out" if "b \<in> set (listBranchIndexes s)" for b
  proof
    assume "fst b \<in> fst ` set out"
    then obtain c where c: "c \<in> set out" "fst b = fst c" by blast
    with keys_inj [OF dk that, of c] sub show "b \<in> set out" by auto
  qed simp
  have "fst ` set (pr_removed p) = fst ` set out" by (simp add: r image_image)
  then have l: "listBranchIndexes s' = filter (\<lambda>b. fst b \<notin> fst ` set out) (listBranchIndexes s)"
    by (simp add: s' list_after_removal)
  then show li: "set (listBranchIndexes s') = set (listBranchIndexes s) - set out" using out_iff by auto
  show "bs_legacy s' = bs_legacy s" by (simp add: s')
  show "b \<in> set out \<Longrightarrow> Some (fst b) \<noteq> activeKey" by (auto simp: out_def evicted_of_def dest: in_set_dropD)
  have "distinct (pr_kept p @ map fst out)" using k dk by (metis mset_append mset_eq_imp_distinct_iff)
  moreover have "set (pr_kept p) \<union> fst ` set out = fst ` set (listBranchIndexes s)"
    using arg_cong [OF k, of set_mset] by simp
  ultimately have "set (pr_kept p) = fst ` set (listBranchIndexes s) - fst ` set out" by auto
  also have "\<dots> = fst ` set (listBranchIndexes s')" unfolding l by auto
  finally show "set (pr_kept p) = fst ` set (listBranchIndexes s')" .
qed

subsection \<open>Seeding\<close>

text \<open>
  An index that the check calls broken or empty is not worth copying, unless it cannot be read at
  all or the check throws.
\<close>

lemma seedable_whole:
  assumes "hasSeedableContent (Some i)" "si_content i = Some ix" "nodes_readable ix" "stats_readable ix"
    and "readIndexIntegrity ix \<noteq> None"
  shows "nodes_t (tables ix) \<noteq> [] \<and> readInFlight ix = []"
proof -
  obtain v where v: "readIndexIntegrity ix = Some v" using assms(5) by blast
  with assms(1,2) have "isSeedableIndex v" by (simp add: hasSeedableContent_def)
  with v assms(3,4) show ?thesis
    by (auto simp: readIndexIntegrity_def isSeedableIndex_def Let_def split: if_splits option.splits)
qed

text \<open>C39: a new branch is seeded from an index that is worth copying: from the most recent of the other
  branches that have one, and from the legacy index only when none of them has.\<close>

theorem seed_choice:
  assumes "proper s" "freshestSeed k s = Some p"
  shows "\<exists>i. index_at p s = Some i \<and> hasSeedableContent (Some i)
    \<and> (case p of
         BranchIndex k' \<Rightarrow> k' \<noteq> k \<and> (\<forall>(k2, j) \<in> set (listBranchIndexes s).
             k2 \<noteq> k \<and> hasSeedableContent (Some j) \<longrightarrow> si_mtime j \<le> si_mtime i)
       | LegacyIndex \<Rightarrow> (\<forall>(k2, j) \<in> set (listBranchIndexes s). k2 \<noteq> k \<longrightarrow> \<not> hasSeedableContent (Some j)))"
proof -
  let ?sib = "js_sort newer_first (filter (\<lambda>b. fst b \<noteq> k) (listBranchIndexes s))"
  let ?leg = "if bs_legacy s \<noteq> None then [LegacyIndex] else []"
  let ?A = "map (\<lambda>b. BranchIndex (fst b)) ?sib"
  let ?P = "\<lambda>p. hasSeedableContent (index_at p s)"
  have "List.find ?P (?A @ ?leg) = Some p"
    using assms(2) by (simp add: freshestSeed_def Let_def)
  then have choice: "List.find ?P ?A = Some p \<or> List.find ?P ?A = None \<and> List.find ?P ?leg = Some p"
    unfolding find_append by (cases "List.find ?P ?A") (simp_all only: option.case simp_thms)
  then have c: "?P p" by (auto simp: find_Some_iff)
  then obtain i where i: "index_at p s = Some i" by (cases "index_at p s") (auto simp: hasSeedableContent_def)
  have sib: "index_at (BranchIndex (fst b)) s = Some (snd b)" if "b \<in> set (listBranchIndexes s)" for b
    using branch_index_iff [OF assms(1), of "fst b" "snd b"] that by (simp add: index_at_def)
  show ?thesis
  proof (cases p)
    case LegacyIndex
    have "LegacyIndex \<notin> set ?A" by auto
    then have "List.find ?P ?A \<noteq> Some p" using LegacyIndex by (metis find_Some_iff nth_mem)
    with choice have "\<forall>b \<in> set ?sib. \<not> ?P (BranchIndex (fst b))" by (auto simp: find_None_iff)
    then have "\<forall>b \<in> set ?sib. \<not> hasSeedableContent (Some (snd b))" using sib by auto
    with c i LegacyIndex show ?thesis by auto
  next
    case (BranchIndex k')
    have "List.find ?P ?leg \<noteq> Some p" using BranchIndex by simp
    with choice have "List.find ?P ?A = Some p" by blast
    from find_first [OF this] obtain us vs where u: "?A = us @ p # vs" "\<forall>u \<in> set us. \<not> ?P u" by blast
    then have "\<exists>xs b ys. ?sib = xs @ b # ys \<and> us = map (\<lambda>b. BranchIndex (fst b)) xs \<and> fst b = k'"
      using BranchIndex by (fastforce simp: map_eq_append_conv map_eq_Cons_conv)
    then obtain xs b ys where x: "?sib = xs @ b # ys" "us = map (\<lambda>b. BranchIndex (fst b)) xs" "fst b = k'" by blast
    have bin: "b \<in> set ?sib" unfolding x(1) by simp
    then have b: "b \<in> set (listBranchIndexes s)" "fst b \<noteq> k" by auto
    with sib [OF b(1)] i BranchIndex x(3) have bi: "snd b = i" by simp
    have "si_mtime (snd d) \<le> si_mtime i" if d: "d \<in> set (listBranchIndexes s)" "fst d \<noteq> k" "hasSeedableContent (Some (snd d))" for d
    proof -
      have "d \<in> set ?sib" using d by simp
      then consider "d \<in> set xs" | "d = b" | "d \<in> set ys" unfolding x(1) by auto
      then show ?thesis
      proof cases
        case 1
        then have "BranchIndex (fst d) \<in> set us" by (simp add: x(2))
        with u(2) sib [OF d(1)] d(3) show ?thesis by auto
      next
        case 2
        then show ?thesis by (simp add: bi)
      next
        case 3
        with newest_first [of "filter (\<lambda>b. fst b \<noteq> k) (listBranchIndexes s)"] show ?thesis
          unfolding x(1) by (auto simp: sorted_wrt_append bi)
      qed
    qed
    with c i b(2) x(3) BranchIndex show ?thesis by auto
  qed
qed

text \<open>The newest sibling is empty, so the one before it is copied.\<close>

definition three_branches :: branch_store where
  "three_branches = \<lparr>bs_dirs = Some [
     \<lparr>bd_key = ''old'', bd_index = Some \<lparr>si_mtime = 1, si_bytes = 1, si_content = Some fresh_index\<rparr>\<rparr>,
     \<lparr>bd_key = ''main'', bd_index = Some \<lparr>si_mtime = 2, si_bytes = 1, si_content = Some fresh_index\<rparr>\<rparr>,
     \<lparr>bd_key = ''wrecked'', bd_index = Some \<lparr>si_mtime = 3, si_bytes = 1, si_content = Some (fresh_index\<lparr>tables := db_new True\<rparr>)\<rparr>\<rparr>],
     bs_legacy = None\<rparr>"

lemma three_branches:
  "proper three_branches" "freshestSeed ''feature'' three_branches = Some (BranchIndex ''main'')"
  by code_simp+

theorem seed_choice_witness:
  "\<exists>i. index_at (BranchIndex ''main'') three_branches = Some i \<and> hasSeedableContent (Some i)"
  using seed_choice [OF three_branches] by blast

lemma find_put_old:
  "Option.bind (List.find (\<lambda>d. bd_key d = k') (map (\<lambda>d. if bd_key d = k then d\<lparr>bd_index := i\<rparr> else d) ds)) bd_index
    = (if k' = k \<and> k \<in> bd_key ` set ds then i else Option.bind (List.find (\<lambda>d. bd_key d = k') ds) bd_index)"
  by (induction ds) auto

lemma find_put_new:
  "Option.bind (List.find (\<lambda>d. bd_key d = k') (ds @ [\<lparr>bd_key = k, bd_index = i\<rparr>])) bd_index
    = (if k' = k \<and> k \<notin> bd_key ` set ds then i else Option.bind (List.find (\<lambda>d. bd_key d = k') ds) bd_index)"
  by (induction ds) auto

lemma index_after_put: "branch_index k' (put_branch k i s) = (if k' = k then i else branch_index k' s)"
proof -
  have d: "dirs (put_branch k i s) = (if k \<in> bd_key ` set (dirs s)
      then map (\<lambda>d. if bd_key d = k then d\<lparr>bd_index := i\<rparr> else d) (dirs s) else dirs s @ [\<lparr>bd_key = k, bd_index = i\<rparr>])"
    by (simp add: put_branch_def dirs_def)
  show ?thesis
    unfolding branch_index_def d using find_put_old [of k' k i "dirs s"] find_put_new [of k' "dirs s" k i]
    by (cases "k \<in> bd_key ` set (dirs s)"; cases "k' = k") simp_all
qed

lemma index_after_mkdir: "branch_index k' (make_dir k s) = branch_index k' s"
proof -
  have d: "dirs (make_dir k s) = (if k \<in> bd_key ` set (dirs s) then dirs s else dirs s @ [\<lparr>bd_key = k, bd_index = None\<rparr>])"
    by (simp add: make_dir_def dirs_def)
  have n: "List.find (\<lambda>d. bd_key d = k) (dirs s) = None" if "k \<notin> bd_key ` set (dirs s)"
    using that by (auto simp: find_None_iff)
  show ?thesis
    unfolding branch_index_def d using find_put_new [of k' "dirs s" k None] n
    by (cases "k \<in> bd_key ` set (dirs s)"; cases "k' = k") simp_all
qed

lemma index_after_removal: "branch_index k (remove_branches ks s) = (if k \<in> ks then None else branch_index k s)"
proof -
  have "List.find (\<lambda>d. bd_key d = k) (filter (\<lambda>d. bd_key d \<notin> ks) ds) = (if k \<in> ks then None else List.find (\<lambda>d. bd_key d = k) ds)" for ds
    by (induction ds) auto
  note f = this [of "dirs s"]
  have d: "dirs (remove_branches ks s) = filter (\<lambda>d. bd_key d \<notin> ks) (dirs s)"
    by (simp add: dirs_def remove_branches_def split: option.split)
  show ?thesis unfolding branch_index_def d f by simp
qed

lemma legacy_after_mkdir: "bs_legacy (make_dir k s) = bs_legacy s"
  by (simp add: make_dir_def)

text \<open>
  A new branch that is seeded holds what its seed held, and a read of that branch finds it: the
  eviction that follows spares it.
\<close>

theorem seeded_copy:
  assumes "branch_index k s = None" "freshestSeed k (make_dir k s) = Some p"
    and "index_at p s = Some i" "resolveWriteIndexForKey stuck t mx (Some k) True keep s = (r, s')"
  shows "rx_path r = BranchIndex k" "rx_seededFrom r = Some p"
    and "map_option si_content (branch_index k s') = Some (si_content i)"
    and "rx_path (resolveReadIndex (Some k) s') = BranchIndex k" "\<not> rx_usedFallback (resolveReadIndex (Some k) s')"
proof -
  let ?s0 = "make_dir k s"
  let ?s1 = "copySqlite t p k ?s0"
  have at: "index_at p ?s0 = Some i"
    using assms(3) by (cases p) (simp_all add: index_at_def index_after_mkdir legacy_after_mkdir)
  have s': "s' = evictBranchesLru stuck mx (insert k (set_option keep)) ?s1"
    and r: "rx_path r = BranchIndex k" "rx_seededFrom r = Some p"
    using assms(1,2,4) by (auto simp: resolveWriteIndexForKey_def Let_def)
  show "rx_path r = BranchIndex k" "rx_seededFrom r = Some p" by (fact r)+
  have "map_option si_content (branch_index k ?s1) = Some (si_content i)"
    by (simp add: copySqlite_def at Let_def index_after_put)
  moreover have "k \<notin> set (lru_victims mx (insert k (set_option keep)) ?s1)"
    by (auto simp: lru_victims_def Let_def dest!: in_set_dropD split: if_splits)
  then have "branch_index k s' = branch_index k ?s1"
    by (simp add: s' evictBranchesLru_def index_after_removal)
  ultimately show c: "map_option si_content (branch_index k s') = Some (si_content i)" by simp
  then have "branch_index k s' \<noteq> None" by auto
  then show "rx_path (resolveReadIndex (Some k) s') = BranchIndex k" "\<not> rx_usedFallback (resolveReadIndex (Some k) s')"
    by (simp_all add: resolveReadIndex_def)
qed

text \<open>
  The check of an index throws on a marker whose start time no date can express, and what throws
  counts as worth copying: such an index is seeded from although an ingest of it never finished.
\<close>

definition late_marker :: index_file where
  "late_marker = fresh_index\<lparr>marker := Some (Scalar 9000000000000000)\<rparr>"

theorem unfinished_seed:
  "hasSeedableContent (Some \<lparr>si_mtime = 0, si_bytes = 1, si_content = Some late_marker\<rparr>)
    \<and> readInFlight late_marker \<noteq> []"
  by (simp add: hasSeedableContent_def late_marker_def fresh_index_def readIndexIntegrity_def readInFlight_def parseInFlight_def
      inProgressSince_def describeInterrupted_def toISOString_def MAX_TIME_MS_def Let_def)

subsection \<open>Reading what git prints\<close>

definition diff_text :: "string \<times> string \<Rightarrow> string" where
  "diff_text e = fst e @ CHR 0x00 # snd e @ [CHR 0x00]"

lemma split_tokens:
  assumes "\<forall>t \<in> set ts. CHR 0x00 \<notin> set t"
  shows "split_on NUL_sep (concat (map (\<lambda>t. t @ [CHR 0x00]) ts)) = ts @ [[]]"
  using assms
proof (induction ts)
  case Nil
  then show ?case by simp
next
  case (Cons t ts)
  have "split_on NUL_sep (t @ CHR 0x00 # concat (map (\<lambda>t. t @ [CHR 0x00]) ts)) = t # split_on NUL_sep (concat (map (\<lambda>t. t @ [CHR 0x00]) ts))"
    using Cons.prems by (intro split_on_append) (auto simp: NUL_sep_def)
  with Cons show ?case by simp
qed

lemma diff_entries_concat:
  "diff_entries (concat (map (\<lambda>e. [fst e, snd e]) es))
    = (map snd (filter (\<lambda>e. \<not> prefix ''D'' (fst e)) es), map snd (filter (\<lambda>e. prefix ''D'' (fst e)) es))"
  by (induction es) (simp_all add: case_prod_unfold)

text \<open>Every entry of the difference is read, as a deletion iff its status says so; so is every untracked file.\<close>

theorem git_diff_exact:
  assumes "\<forall>e \<in> set es. fst e \<noteq> [] \<and> snd e \<noteq> [] \<and> CHR 0x00 \<notin> set (fst e @ snd e)"
  shows "gitDiffSince (Some (concat (map diff_text es)))
    = Some (map snd (filter (\<lambda>e. \<not> prefix ''D'' (fst e)) es), map snd (filter (\<lambda>e. prefix ''D'' (fst e)) es))"
proof -
  let ?ts = "concat (map (\<lambda>e. [fst e, snd e]) es)"
  have "concat (map diff_text es) = concat (map (\<lambda>t. t @ [CHR 0x00]) ?ts)"
    by (induction es) (simp_all add: diff_text_def)
  moreover have "split_on NUL_sep (concat (map (\<lambda>t. t @ [CHR 0x00]) ?ts)) = ?ts @ [[]]"
    using assms by (intro split_tokens) auto
  moreover have "filter (\<lambda>t. t \<noteq> []) (?ts @ [[]]) = ?ts" using assms by (auto simp: filter_id_conv)
  ultimately show ?thesis by (simp add: gitDiffSince_def diff_entries_concat)
qed

theorem git_untracked_exact:
  assumes "\<forall>t \<in> set ts. t \<noteq> [] \<and> CHR 0x00 \<notin> set t"
  shows "gitUntracked (Some (concat (map (\<lambda>t. t @ [CHR 0x00]) ts))) = ts"
proof -
  have "split_on NUL_sep (concat (map (\<lambda>t. t @ [CHR 0x00]) ts)) = ts @ [[]]"
    using assms by (intro split_tokens) auto
  moreover have "filter (\<lambda>t. t \<noteq> []) (ts @ [[]]) = ts" using assms by (auto simp: filter_id_conv)
  ultimately show ?thesis by (simp add: gitUntracked_def)
qed

end
