(* ===== verification/WorktreeRegistry.thy ===== *)
theory WorktreeRegistry
  imports Text BranchIndex
begin

text \<open>
  \<open>worktree/registry.ts\<close>, \<open>worktree/git.ts\<close> and the subcommands of \<open>cli/worktree.ts\<close>: which git
  worktrees of the repository have an overlay index of their own. The registry is one JSON file,
  replaced under a lock by renaming, and an overlay is a directory named by the hash of its
  worktree's path. What git and the file system answer are arguments; paths are those of POSIX, where
  \<open>rootKey\<close> is \<open>canonicalRoot\<close>. Shown here: the registry
  survives its codec, pruning needs positive evidence and loses no entry that another process
  adds, reads find every worktree that was accepted; and where pruning deletes a live overlay.
\<close>

definition MAX_WORKTREE_OVERLAYS :: nat where "MAX_WORKTREE_OVERLAYS = 16"

definition REGISTRY_VERSION :: int where "REGISTRY_VERSION = 1"

record worktree_entry =
  we_path :: string
  we_id :: string
  we_created_at :: string
  we_seed_head :: "string option"

datatype registry_error = CorruptJson | NoWorktreesArray

text \<open>What reading the file gives: it is absent, cannot be read, or holds a text, parsed where it is JSON.\<close>

datatype registry_file = RegAbsent | RegUnreadable | RegText "json option"

record worktree_store =
  ws_registry :: registry_file
  ws_dirs :: "string list option"

definition str_member :: "string \<Rightarrow> json \<Rightarrow> string option" where
  "str_member k j = (case member k j of Some (JStr s) \<Rightarrow> Some s | _ \<Rightarrow> None)"

definition parse_entry_json :: "json \<Rightarrow> worktree_entry option" where
  "parse_entry_json e =
     (case (str_member ''path'' e, str_member ''id'' e) of
        (Some p, Some i) \<Rightarrow> Some \<lparr>we_path = p, we_id = i,
          we_created_at = (case str_member ''created_at'' e of Some s \<Rightarrow> s | None \<Rightarrow> []),
          we_seed_head = str_member ''seed_head'' e\<rparr>
      | _ \<Rightarrow> None)"

definition parseEntries :: "json option \<Rightarrow> registry_error + worktree_entry list" where
  "parseEntries parsed = (case parsed of
     None \<Rightarrow> Inl CorruptJson
   | Some j \<Rightarrow> (case member ''worktrees'' j of
       Some (JArr es) \<Rightarrow> Inr (List.map_filter parse_entry_json es)
     | _ \<Rightarrow> Inl NoWorktreesArray))"

definition readWorktreeRegistryStrict :: "worktree_store \<Rightarrow> registry_error + worktree_entry list" where
  "readWorktreeRegistryStrict s = (case ws_registry s of RegText t \<Rightarrow> parseEntries t | _ \<Rightarrow> Inr [])"

definition readWorktreeRegistry :: "worktree_store \<Rightarrow> worktree_entry list" where
  "readWorktreeRegistry s = (case readWorktreeRegistryStrict s of Inl _ \<Rightarrow> [] | Inr es \<Rightarrow> es)"

definition worktree_json :: "worktree_entry \<Rightarrow> json" where
  "worktree_json e = JObj [(''path'', JStr (we_path e)), (''id'', JStr (we_id e)), (''created_at'', JStr (we_created_at e)),
     (''seed_head'', case we_seed_head e of Some h \<Rightarrow> JStr h | None \<Rightarrow> JNull)]"

definition registry_json :: "worktree_entry list \<Rightarrow> json" where
  "registry_json es = JObj [(''version'', JInt REGISTRY_VERSION), (''worktrees'', JArr (map worktree_json es))]"

text \<open>\<open>fn\<close> may throw, on the left; then nothing is written.\<close>

definition mutateWorktreeRegistry ::
    "(worktree_entry list \<Rightarrow> 'e + worktree_entry list \<times> 'r) \<Rightarrow> worktree_store \<Rightarrow> (registry_error + 'e) + 'r \<times> worktree_store" where
  "mutateWorktreeRegistry fn s =
     (case readWorktreeRegistryStrict s of
        Inl err \<Rightarrow> Inl (Inl err)
      | Inr entries \<Rightarrow> (case fn entries of
          Inl e \<Rightarrow> Inl (Inr e)
        | Inr (es, r) \<Rightarrow> Inr (r, s\<lparr>ws_registry := RegText (Some (registry_json es))\<rparr>)))"

subsection \<open>What git says\<close>

datatype git_probe = ProbeOk string | ProbeExit int string | ProbeError string

datatype path_probe = PathOk string | PathExit string | PathError string

text \<open>The operating system: which paths exist, what files hold, how paths are resolved, and git.\<close>

record worktree_env =
  en_exists :: "string \<Rightarrow> bool"
  en_read :: "string \<Rightarrow> string option"
  en_is_file :: "string \<Rightarrow> bool"
  en_canonical :: "string \<Rightarrow> string"
  en_resolve :: "string \<Rightarrow> string \<Rightarrow> string"
  en_join :: "string \<Rightarrow> string \<Rightarrow> string"
  en_basename :: "string \<Rightarrow> string"
  en_dirname :: "string \<Rightarrow> string"
  en_find_git :: "string \<Rightarrow> string option"
  en_git :: "string \<Rightarrow> string \<Rightarrow> git_probe"
  en_sha256 :: "string \<Rightarrow> string"

record linked_worktree =
  lw_worktreeRoot :: string
  lw_gitDir :: string
  lw_commonDir :: string
  lw_mainRoot :: "string option"

text \<open>\<open>/^gitdir:\s*(.+)$/m\<close>: the first line that matches. White space may run over line ends.\<close>

function gitdir_line :: "string \<Rightarrow> string option" where
  "gitdir_line s =
     (let here = (if prefix ''gitdir:'' s
                  then (let rest = takeWhile (\<lambda>c. \<not> line_end c) (dropWhile ascii_space (drop 7 s))
                        in if rest \<noteq> [] then Some rest else None)
                  else None)
      in case here of Some m \<Rightarrow> Some m
         | None \<Rightarrow> (case dropWhile (\<lambda>c. \<not> line_end c) s of [] \<Rightarrow> None | _ # rest \<Rightarrow> gitdir_line rest))"
  by pat_completeness auto

termination
proof (relation "measure length")
  fix s x :: string and c rest
  assume "dropWhile (\<lambda>c. \<not> line_end c) s = c # rest"
  then show "(rest, s) \<in> measure length"
    using length_dropWhile_le [of "\<lambda>c. \<not> line_end c" s] by simp
qed simp

declare gitdir_line.simps [simp del]

definition detectLinkedWorktree :: "worktree_env \<Rightarrow> string \<Rightarrow> linked_worktree option" where
  "detectLinkedWorktree en start =
     (case en_find_git en start of
        None \<Rightarrow> None
      | Some topdir \<Rightarrow>
          let dotGit = en_join en topdir ''.git''
          in if \<not> en_is_file en dotGit then None
             else case Option.bind (en_read en dotGit) gitdir_line of
               None \<Rightarrow> None
             | Some m \<Rightarrow>
                 let rawGitDir = trim m;
                     gitDir = (if isAbsolute rawGitDir then rawGitDir else en_resolve en topdir rawGitDir);
                     commonFile = en_join en gitDir ''commondir''
                 in if \<not> en_exists en commonFile then None
                    else case en_read en commonFile of
                      None \<Rightarrow> None
                    | Some text \<Rightarrow>
                        let rawCommon = trim text;
                            commonDir = en_canonical en (if isAbsolute rawCommon then rawCommon else en_resolve en gitDir rawCommon);
                            mainRoot = (if en_basename en commonDir = ''.git'' then Some (en_dirname en commonDir) else None)
                        in Some \<lparr>lw_worktreeRoot = en_canonical en topdir, lw_gitDir = en_canonical en gitDir,
                                 lw_commonDir = commonDir, lw_mainRoot = mainRoot\<rparr>)"

definition revParsePathProbe :: "worktree_env \<Rightarrow> string \<Rightarrow> string \<Rightarrow> path_probe" where
  "revParsePathProbe en cwd flag = (case en_git en cwd flag of
     ProbeError m \<Rightarrow> PathError m
   | ProbeExit status stderr \<Rightarrow> PathExit stderr
   | ProbeOk out \<Rightarrow>
       (let p = trim out
        in if p = [] then PathExit (''empty answer to rev-parse '' @ flag)
           else PathOk (en_canonical en (if isAbsolute p then p else en_resolve en cwd p))))"

datatype verdict_reason = DoesNotExist | NotAWorkingTree | OtherRepository string string | MainCheckout | OtherMain "string option"

datatype unknown_reason = GitCouldNotRun string | RevParseFailed string | NoCommonDir | NoGitDir

datatype worktree_verdict = VOk string | VInvalid verdict_reason | VUnknown unknown_reason

definition not_a_repository :: "string \<Rightarrow> bool" where
  "not_a_repository stderr \<longleftrightarrow> js_includes (map lower stderr) ''not a git repository''"

definition classifyWorktree :: "worktree_env \<Rightarrow> string \<Rightarrow> string \<Rightarrow> worktree_verdict" where
  "classifyWorktree en candidate mainRoot =
     (if \<not> en_exists en candidate then VInvalid DoesNotExist
      else case revParsePathProbe en candidate ''--show-toplevel'' of
        PathError m \<Rightarrow> VUnknown (GitCouldNotRun m)
      | PathExit stderr \<Rightarrow> if not_a_repository stderr then VInvalid NotAWorkingTree else VUnknown (RevParseFailed (trim stderr))
      | PathOk topdir \<Rightarrow>
          (case (revParsePathProbe en topdir ''--git-common-dir'', revParsePathProbe en mainRoot ''--git-common-dir'') of
             (PathOk theirs, PathOk ours) \<Rightarrow>
               if theirs \<noteq> ours then VInvalid (OtherRepository theirs ours)
               else (case revParsePathProbe en topdir ''--git-dir'' of
                   PathOk own \<Rightarrow>
                     let project = en_canonical en mainRoot
                     in if topdir = project \<or> own = ours then VInvalid MainCheckout
                        else (let linked = detectLinkedWorktree en topdir
                              in if Option.bind linked lw_mainRoot \<noteq> Some project
                                 then VInvalid (OtherMain (Option.bind linked lw_mainRoot)) else VOk topdir)
                 | _ \<Rightarrow> VUnknown NoGitDir)
           | _ \<Rightarrow> VUnknown NoCommonDir))"

definition findRegisteredOverlay :: "worktree_env \<Rightarrow> (string \<Rightarrow> worktree_store) \<Rightarrow> string \<Rightarrow> (string \<times> string \<times> worktree_entry) option" where
  "findRegisteredOverlay en storeOf cwd =
     (case detectLinkedWorktree en cwd of
        None \<Rightarrow> None
      | Some linked \<Rightarrow> (case lw_mainRoot linked of
          None \<Rightarrow> None
        | Some mainRoot \<Rightarrow>
            if ws_registry (storeOf mainRoot) = RegAbsent then None
            else map_option (\<lambda>e. (mainRoot, lw_worktreeRoot linked, e))
                   (List.find (\<lambda>e. we_path e = lw_worktreeRoot linked) (readWorktreeRegistry (storeOf mainRoot)))))"

subsection \<open>Overlay directories\<close>

definition overlay_name :: "string \<Rightarrow> bool" where
  "overlay_name i \<longleftrightarrow> length i = 12 \<and> list_all (\<lambda>c. c \<in> set ''0123456789abcdef'') i"

definition overlayId :: "worktree_env \<Rightarrow> string \<Rightarrow> string" where
  "overlayId en worktreePath = take 12 (en_sha256 en (en_canonical en worktreePath))"

definition removeOverlayFiles :: "string \<Rightarrow> worktree_store \<Rightarrow> worktree_store" where
  "removeOverlayFiles i s = (if overlay_name i then s\<lparr>ws_dirs := map_option (filter (\<lambda>d. d \<noteq> i)) (ws_dirs s)\<rparr> else s)"

subsection \<open>Pruning\<close>

text \<open>
  Three parts, between which other processes may change the store: the entries are judged, those
  judged gone are dropped, and directories that no entry names are deleted, by a reading of the
  registry that precedes the listing of the directory.
\<close>

datatype prune_reason = Invalid verdict_reason | MovedTo string

definition prune_verdict :: "worktree_env \<Rightarrow> string \<Rightarrow> worktree_entry \<Rightarrow> prune_reason option" where
  "prune_verdict en repoRoot e = (case classifyWorktree en (we_path e) repoRoot of
     VInvalid r \<Rightarrow> Some (Invalid r)
   | VOk p \<Rightarrow> if p \<noteq> we_path e then Some (MovedTo p) else None
   | VUnknown _ \<Rightarrow> None)"

definition prune_verdicts :: "worktree_env \<Rightarrow> string \<Rightarrow> worktree_entry list \<Rightarrow> (string \<times> prune_reason) list" where
  "prune_verdicts en repoRoot before =
     fold (\<lambda>e m. case prune_verdict en repoRoot e of Some r \<Rightarrow> AList.update (we_id e) r m | None \<Rightarrow> m) before []"

definition prune_drop ::
    "(string \<times> prune_reason) list \<Rightarrow> worktree_store \<Rightarrow> registry_error + (worktree_entry \<times> prune_reason option) list \<times> worktree_store" where
  "prune_drop verdicts s =
     (if verdicts = [] then Inr ([], s)
      else case mutateWorktreeRegistry (\<lambda>entries. Inr (filter (\<lambda>e. map_of verdicts (we_id e) = None) entries,
               map (\<lambda>e. (e, map_of verdicts (we_id e))) (filter (\<lambda>e. map_of verdicts (we_id e) \<noteq> None) entries))
             :: registry_error + _) s of
          Inl (Inl err) \<Rightarrow> Inl err
        | Inl (Inr err) \<Rightarrow> Inl err
        | Inr (removed, s1) \<Rightarrow> Inr (removed, fold (\<lambda>r. removeOverlayFiles (we_id (fst r))) removed s1))"

definition live_ids :: "worktree_store \<Rightarrow> string list" where
  "live_ids s = map we_id (readWorktreeRegistry s)"

definition sweep_dirs :: "string list \<Rightarrow> worktree_store \<Rightarrow> string list \<times> worktree_store" where
  "sweep_dirs live s =
     (let orphans = filter (\<lambda>d. d \<notin> set live \<and> overlay_name d) (case ws_dirs s of Some ds \<Rightarrow> ds | None \<Rightarrow> [])
      in (orphans, fold removeOverlayFiles orphans s))"

text \<open>Without interference.\<close>

definition pruneWorktreeOverlays ::
    "worktree_env \<Rightarrow> string \<Rightarrow> worktree_store
      \<Rightarrow> registry_error + ((worktree_entry \<times> prune_reason option) list \<times> string list) \<times> worktree_store" where
  "pruneWorktreeOverlays en repoRoot s =
     (case readWorktreeRegistryStrict s of
        Inl err \<Rightarrow> Inl err
      | Inr before \<Rightarrow> (case prune_drop (prune_verdicts en repoRoot before) s of
          Inl err \<Rightarrow> Inl err
        | Inr (removed, s1) \<Rightarrow> (case sweep_dirs (live_ids s1) s1 of (orphans, s2) \<Rightarrow> Inr ((removed, orphans), s2))))"

subsection \<open>The subcommands\<close>

datatype add_error = OverCap nat | NotValid worktree_verdict | RegistryError registry_error | BuildFailed

definition register_entry ::
    "worktree_env \<Rightarrow> string \<Rightarrow> string \<Rightarrow> string option \<Rightarrow> worktree_entry list
      \<Rightarrow> add_error + worktree_entry list \<times> (worktree_entry \<times> bool)" where
  "register_entry en path now seedHead entries =
     (case List.find (\<lambda>e. we_path e = path) entries of
        Some existing \<Rightarrow> Inr (entries, (existing, False))
      | None \<Rightarrow>
          if MAX_WORKTREE_OVERLAYS \<le> length entries then Inl (OverCap (length entries))
          else let entry = \<lparr>we_path = path, we_id = overlayId en path, we_created_at = now, we_seed_head = seedHead\<rparr>
               in Inr (entries @ [entry], (entry, True)))"

definition register :: "worktree_env \<Rightarrow> string \<Rightarrow> string \<Rightarrow> string option \<Rightarrow> worktree_store \<Rightarrow> add_error + (worktree_entry \<times> bool) \<times> worktree_store" where
  "register en path now seedHead s =
     (case mutateWorktreeRegistry (register_entry en path now seedHead) s of
        Inl (Inl err) \<Rightarrow> Inl (RegistryError err)
      | Inl (Inr e) \<Rightarrow> Inl e
      | Inr r \<Rightarrow> Inr r)"

text \<open>The first part of \<open>add\<close>: at the cap, dead registrations are pruned and it is tried again.\<close>

definition add_register :: "worktree_env \<Rightarrow> string \<Rightarrow> string \<Rightarrow> string \<Rightarrow> string option \<Rightarrow> worktree_store
    \<Rightarrow> (add_error + worktree_entry \<times> bool) \<times> worktree_store" where
  "add_register en repoRoot path now seedHead s =
     (case classifyWorktree en path repoRoot of
        VOk topdir \<Rightarrow> (case register en topdir now seedHead s of
            Inr (out, s1) \<Rightarrow> (Inr out, s1)
          | Inl (OverCap n) \<Rightarrow> (case pruneWorktreeOverlays en repoRoot s of
                Inl err \<Rightarrow> (Inl (RegistryError err), s)
              | Inr ((removed, orphans), s1) \<Rightarrow>
                  if removed = [] then (Inl (OverCap n), s1)
                  else (case register en topdir now seedHead s1 of
                      Inr (out, s2) \<Rightarrow> (Inr out, s2)
                    | Inl e \<Rightarrow> (Inl e, s1)))
          | Inl e \<Rightarrow> (Inl e, s))
      | v \<Rightarrow> (Inl (NotValid v), s))"

definition make_overlay_dir :: "string \<Rightarrow> worktree_store \<Rightarrow> worktree_store" where
  "make_overlay_dir i s = s\<lparr>ws_dirs := Some (case ws_dirs s of None \<Rightarrow> [i] | Some ds \<Rightarrow> if i \<in> set ds then ds else ds @ [i])\<rparr>"

text \<open>The second part, after the overlay was built or not; the build makes the directory first.\<close>

definition add_finish :: "worktree_entry \<times> bool \<Rightarrow> bool \<Rightarrow> worktree_store \<Rightarrow> (add_error + worktree_entry) \<times> worktree_store" where
  "add_finish out built s =
     (if built then (Inr (fst out), s)
      else if snd out
      then (case mutateWorktreeRegistry (\<lambda>entries. Inr (filter (\<lambda>e. we_id e \<noteq> we_id (fst out)) entries, ()) :: registry_error + _) s of
          Inl (Inl err) \<Rightarrow> (Inl (RegistryError err), s)
        | Inl (Inr err) \<Rightarrow> (Inl (RegistryError err), s)
        | Inr (_, s1) \<Rightarrow> (Inl BuildFailed, removeOverlayFiles (we_id (fst out)) s1))
      else (Inl BuildFailed, s))"

definition worktree_add :: "worktree_env \<Rightarrow> string \<Rightarrow> string \<Rightarrow> string \<Rightarrow> string option \<Rightarrow> bool \<Rightarrow> worktree_store
    \<Rightarrow> (add_error + worktree_entry) \<times> worktree_store" where
  "worktree_add en repoRoot path now seedHead built s =
     (case add_register en repoRoot path now seedHead s of
        (Inl e, s1) \<Rightarrow> (Inl e, s1)
      | (Inr out, s1) \<Rightarrow> add_finish out built (make_overlay_dir (we_id (fst out)) s1))"

definition worktree_remove :: "worktree_env \<Rightarrow> string \<Rightarrow> string \<Rightarrow> worktree_store
    \<Rightarrow> registry_error + worktree_entry option \<times> worktree_store" where
  "worktree_remove en raw path s =
     (let target = en_canonical en path
      in case mutateWorktreeRegistry (\<lambda>entries.
             let hit = List.find (\<lambda>e. we_path e = target \<or> we_id e = raw) entries
             in Inr (case hit of None \<Rightarrow> entries | Some h \<Rightarrow> remove1 h entries, hit) :: registry_error + _) s of
           Inl (Inl err) \<Rightarrow> Inl err
         | Inl (Inr err) \<Rightarrow> Inl err
         | Inr (None, s1) \<Rightarrow> Inr (None, s1)
         | Inr (Some h, s1) \<Rightarrow> Inr (Some h, removeOverlayFiles (we_id h) s1))"

subsection \<open>The registry is read back as it was written\<close>

lemma parse_worktree_json [simp]: "parse_entry_json (worktree_json e) = Some e"
  by (cases e) (simp add: parse_entry_json_def worktree_json_def str_member_def member_def split: option.split)

lemma parse_registry_json [simp, codec_simps]: "parseEntries (Some (registry_json es)) = Inr es"
proof -
  have "List.map_filter parse_entry_json (map worktree_json es) = es" by (induction es) (simp_all add: map_filter_simps)
  then show ?thesis by (simp add: parseEntries_def registry_json_def member_def)
qed

lemma read_written [simp]: "readWorktreeRegistryStrict (s\<lparr>ws_registry := RegText (Some (registry_json es))\<rparr>) = Inr es"
  by (simp add: readWorktreeRegistryStrict_def)

lemma read_frame [simp]:
  "readWorktreeRegistryStrict (s\<lparr>ws_dirs := ds\<rparr>) = readWorktreeRegistryStrict s"
  "readWorktreeRegistryStrict (removeOverlayFiles i s) = readWorktreeRegistryStrict s"
  "readWorktreeRegistryStrict (make_overlay_dir i s) = readWorktreeRegistryStrict s"
  by (simp_all add: readWorktreeRegistryStrict_def removeOverlayFiles_def make_overlay_dir_def)

lemma read_fold_remove [simp]:
  "readWorktreeRegistryStrict (fold (\<lambda>r. removeOverlayFiles (f r)) rs s) = readWorktreeRegistryStrict s"
  by (induction rs arbitrary: s) simp_all

lemma dirs_remove: "ws_dirs (removeOverlayFiles i s) = map_option (filter (\<lambda>d. \<not> (overlay_name d \<and> d = i))) (ws_dirs s)"
proof -
  have "filter (\<lambda>d. \<not> (overlay_name d \<and> d = i)) ds = (if overlay_name i then filter (\<lambda>d. d \<noteq> i) ds else ds)" for ds
    by (cases "overlay_name i") (auto intro!: filter_cong filter_True)
  then show ?thesis by (cases "ws_dirs s") (simp_all add: removeOverlayFiles_def)
qed

lemma dirs_fold_remove:
  "ws_dirs (fold (\<lambda>r. removeOverlayFiles (f r)) rs s) = map_option (filter (\<lambda>d. \<not> (overlay_name d \<and> d \<in> f ` set rs))) (ws_dirs s)"
proof (induction rs arbitrary: s)
  case Nil
  show ?case by (cases "ws_dirs s") simp_all
next
  case (Cons r rs)
  show ?case
    by (cases "ws_dirs s") (auto simp: Cons dirs_remove intro!: filter_cong)
qed

subsection \<open>Pruning\<close>

lemma verdicts_of_aux:
  "map_of (fold (\<lambda>e m. case prune_verdict en repoRoot e of Some r \<Rightarrow> AList.update (we_id e) r m | None \<Rightarrow> m) before m) i = Some r
     \<Longrightarrow> map_of m i = Some r \<or> (\<exists>b \<in> set before. we_id b = i \<and> prune_verdict en repoRoot b = Some r)"
proof (induction before arbitrary: m)
  case Nil
  then show ?case by simp
next
  case (Cons b before)
  show ?case
  proof (cases "prune_verdict en repoRoot b")
    case None
    with Cons show ?thesis by auto
  next
    case (Some q)
    with Cons.prems Cons.IH [of "AList.update (we_id b) q m"] show ?thesis
      by (auto simp: update_conv split: if_splits)
  qed
qed

lemma verdict_evidence:
  "map_of (prune_verdicts en repoRoot before) i = Some r \<Longrightarrow> \<exists>b \<in> set before. we_id b = i \<and> prune_verdict en repoRoot b = Some r"
  using verdicts_of_aux [of en repoRoot before "[]" i r] by (simp add: prune_verdicts_def)

lemma verdict_mono:
  "map_of m i \<noteq> None \<Longrightarrow> map_of (fold (\<lambda>e m. case prune_verdict en repoRoot e of Some r \<Rightarrow> AList.update (we_id e) r m | None \<Rightarrow> m) es m) i \<noteq> None"
proof (induction es arbitrary: m)
  case Nil
  then show ?case by simp
next
  case (Cons e es)
  show ?case
    using Cons.prems Cons.IH [of m] Cons.IH [of "AList.update (we_id e) r m" for r]
    by (auto simp: update_conv split: option.split)
qed

lemma verdict_complete:
  "b \<in> set before \<Longrightarrow> prune_verdict en repoRoot b \<noteq> None \<Longrightarrow> map_of (prune_verdicts en repoRoot before) (we_id b) \<noteq> None"
proof -
  have "map_of (fold (\<lambda>e m. case prune_verdict en repoRoot e of Some r \<Rightarrow> AList.update (we_id e) r m | None \<Rightarrow> m) before m) (we_id b) \<noteq> None"
    if "b \<in> set before" "prune_verdict en repoRoot b \<noteq> None" for m
    using that
  proof (induction before arbitrary: m)
    case Nil
    then show ?case by simp
  next
    case (Cons e es)
    show ?case
    proof (cases "e = b")
      case True
      with Cons.prems obtain r where "prune_verdict en repoRoot e = Some r" by auto
      with True verdict_mono [of "AList.update (we_id b) r m" "we_id b"] show ?thesis by (simp add: update_conv)
    next
      case False
      with Cons show ?thesis by (simp split: option.split)
    qed
  qed
  then show "b \<in> set before \<Longrightarrow> prune_verdict en repoRoot b \<noteq> None \<Longrightarrow> ?thesis" by (simp add: prune_verdicts_def)
qed

lemma prune_drop_facts:
  assumes "readWorktreeRegistryStrict s = Inr es" "prune_drop vs s = Inr (removed, s')"
  shows "readWorktreeRegistryStrict s' = Inr (filter (\<lambda>e. map_of vs (we_id e) = None) es)"
    and "removed = map (\<lambda>e. (e, map_of vs (we_id e))) (filter (\<lambda>e. map_of vs (we_id e) \<noteq> None) es)"
    and "ws_dirs s' = map_option (filter (\<lambda>d. \<not> (overlay_name d \<and> d \<in> (\<lambda>r. we_id (fst r)) ` set removed))) (ws_dirs s)"
proof -
  have n: "map_option (filter (\<lambda>d. True)) ds = ds" for ds :: "string list option" by (cases ds) simp_all
  show "readWorktreeRegistryStrict s' = Inr (filter (\<lambda>e. map_of vs (we_id e) = None) es)"
    and "removed = map (\<lambda>e. (e, map_of vs (we_id e))) (filter (\<lambda>e. map_of vs (we_id e) \<noteq> None) es)"
    and "ws_dirs s' = map_option (filter (\<lambda>d. \<not> (overlay_name d \<and> d \<in> (\<lambda>r. we_id (fst r)) ` set removed))) (ws_dirs s)"
    using assms by (auto simp: prune_drop_def mutateWorktreeRegistry_def dirs_fold_remove n split: if_splits)
qed


text \<open>The sweep deletes exactly the directories with the name of an overlay that the registry did not hold.\<close>

theorem sweep_exact:
  assumes "sweep_dirs live s = (orphans, s')"
  shows "ws_registry s' = ws_registry s"
    and "ws_dirs s' = map_option (filter (\<lambda>d. d \<in> set live \<or> \<not> overlay_name d)) (ws_dirs s)"
    and "set orphans = {d \<in> set (case ws_dirs s of Some ds \<Rightarrow> ds | None \<Rightarrow> []). overlay_name d \<and> d \<notin> set live}"
proof -
  have r: "ws_registry (fold removeOverlayFiles is s) = ws_registry s" for "is" s
    by (induction "is" arbitrary: s) (simp_all add: removeOverlayFiles_def)
  show "ws_registry s' = ws_registry s" using assms r by (auto simp: sweep_dirs_def Let_def)
  show o: "set orphans = {d \<in> set (case ws_dirs s of Some ds \<Rightarrow> ds | None \<Rightarrow> []). overlay_name d \<and> d \<notin> set live}"
    using assms by (auto simp: sweep_dirs_def Let_def)
  have "s' = fold (\<lambda>r. removeOverlayFiles r) orphans s" using assms by (auto simp: sweep_dirs_def Let_def)
  then show "ws_dirs s' = map_option (filter (\<lambda>d. d \<in> set live \<or> \<not> overlay_name d)) (ws_dirs s)"
    using dirs_fold_remove [of "\<lambda>r. r" orphans s] by (cases "ws_dirs s") (auto simp: o intro!: filter_cong)
qed

text \<open>
  A registry that cannot be read counts as absent, so pruning, which runs at every start of the
  daemon, then deletes every overlay and reports success.
\<close>

theorem unreadable_registry_deletes_all:
  assumes "ws_registry s = RegUnreadable" "ws_dirs s = Some ds"
  shows "pruneWorktreeOverlays en repoRoot s
    = Inr (([], filter overlay_name ds), s\<lparr>ws_dirs := Some (filter (\<lambda>d. \<not> overlay_name d) ds)\<rparr>)"
proof -
  have e: "readWorktreeRegistryStrict s = Inr []" "live_ids s = []"
    using assms by (simp_all add: readWorktreeRegistryStrict_def live_ids_def readWorktreeRegistry_def)
  obtain orphans s' where w: "sweep_dirs [] s = (orphans, s')" by (cases "sweep_dirs [] s")
  have o: "orphans = filter overlay_name ds" using w assms(2) by (auto simp: sweep_dirs_def Let_def)
  have "ws_registry s' = ws_registry s" "ws_dirs s' = Some (filter (\<lambda>d. \<not> overlay_name d) ds)"
    using sweep_exact [OF w] assms(2) by simp_all
  then have "s' = s\<lparr>ws_dirs := Some (filter (\<lambda>d. \<not> overlay_name d) ds)\<rparr>" by (cases s; cases s') simp
  with e w o show ?thesis by (simp add: pruneWorktreeOverlays_def prune_verdicts_def prune_drop_def)
qed

subsection \<open>Registration\<close>

lemma register_facts:
  assumes "register en p now h s = Inr ((e, added), s')"
  shows "\<exists>es es'. readWorktreeRegistryStrict s = Inr es \<and> ws_registry s' = RegText (Some (registry_json es')) \<and> ws_dirs s' = ws_dirs s
    \<and> e \<in> set es' \<and> we_path e = p
    \<and> (added \<longrightarrow> es' = es @ [e] \<and> p \<notin> we_path ` set es \<and> length es < MAX_WORKTREE_OVERLAYS \<and> we_id e = overlayId en p)
    \<and> (\<not> added \<longrightarrow> es' = es)"
proof -
  obtain es where es: "readWorktreeRegistryStrict s = Inr es"
    using assms by (auto simp: register_def mutateWorktreeRegistry_def split: sum.splits)
  show ?thesis
  proof (cases "List.find (\<lambda>e. we_path e = p) es")
    case None
    with assms es show ?thesis
      by (auto simp: register_def mutateWorktreeRegistry_def register_entry_def Let_def find_None_iff split: if_splits)
  next
    case (Some x)
    then have "x \<in> set es \<and> we_path x = p" by (auto simp: find_Some_iff)
    with assms es Some show ?thesis
      by (auto simp: register_def mutateWorktreeRegistry_def register_entry_def)
  qed
qed

text \<open>One worktree is gone, of another git cannot say.\<close>

definition mute_env :: worktree_env where
  "mute_env = \<lparr>en_exists = (\<lambda>p. p \<noteq> ''/gone''), en_read = (\<lambda>_. None), en_is_file = (\<lambda>_. False), en_canonical = (\<lambda>p. p),
     en_resolve = (\<lambda>_ p. p), en_join = (\<lambda>p q. p @ ''/'' @ q), en_basename = (\<lambda>p. p), en_dirname = (\<lambda>p. p),
     en_find_git = (\<lambda>_. None), en_git = (\<lambda>_ _. ProbeError ''ETIMEDOUT''), en_sha256 = (\<lambda>p. p)\<rparr>"

definition gone_entry :: worktree_entry where
  "gone_entry = \<lparr>we_path = ''/gone'', we_id = ''aaaaaaaaaaaa'', we_created_at = [], we_seed_head = None\<rparr>"

definition mute_entry :: worktree_entry where
  "mute_entry = \<lparr>we_path = ''/mute'', we_id = ''bbbbbbbbbbbb'', we_created_at = [], we_seed_head = None\<rparr>"

definition two_worktrees :: worktree_store where
  "two_worktrees = \<lparr>ws_registry = RegText (Some (registry_json [gone_entry, mute_entry])), ws_dirs = Some [''aaaaaaaaaaaa'', ''bbbbbbbbbbbb'']\<rparr>"

lemma two_worktrees:
  "readWorktreeRegistryStrict two_worktrees = Inr [gone_entry, mute_entry]"
  "prune_drop (prune_verdicts mute_env ''/main'' [gone_entry, mute_entry]) two_worktrees
    = Inr ([(gone_entry, Some (Invalid DoesNotExist))],
        two_worktrees\<lparr>ws_registry := RegText (Some (registry_json [mute_entry])), ws_dirs := Some [''bbbbbbbbbbbb'']\<rparr>)"
  "prune_verdict mute_env ''/main'' mute_entry = None"
  by code_simp+


text \<open>
  A worktree that \<open>add\<close> accepts is found by the reads that start anywhere in it, under the main
  checkout that owns the registry. The hypothesis is what git and the walk for \<open>.git\<close> say of a
  toplevel: it is its own canonical path.
\<close>

theorem accepted_is_found:
  assumes "classifyWorktree en candidate repoRoot = VOk p" "register en p now h s = Inr ((e, added), s')"
    and "storeOf (en_canonical en repoRoot) = s'"
    and "en_find_git en p = Some p" "en_find_git en cwd = Some p" "en_canonical en p = p"
  shows "\<exists>e'. findRegisteredOverlay en storeOf cwd = Some (en_canonical en repoRoot, p, e') \<and> we_path e' = p"
proof -
  have d: "Option.bind (detectLinkedWorktree en p) lw_mainRoot = Some (en_canonical en repoRoot)"
    using assms(1) by (auto simp: classifyWorktree_def Let_def split: if_splits path_probe.splits)
  then obtain l where l: "detectLinkedWorktree en p = Some l" "lw_mainRoot l = Some (en_canonical en repoRoot)"
    by (auto simp: bind_eq_Some_conv)
  have same: "detectLinkedWorktree en cwd = detectLinkedWorktree en p"
    using assms(4,5) by (simp add: detectLinkedWorktree_def)
  have root: "lw_worktreeRoot l = p"
    using l(1) assms(4,6) by (auto simp: detectLinkedWorktree_def Let_def split: if_splits option.splits)
  obtain es' where es': "ws_registry s' = RegText (Some (registry_json es'))" "e \<in> set es'" "we_path e = p"
    using register_facts [OF assms(2)] by blast
  then have "readWorktreeRegistry s' = es'" by (simp add: readWorktreeRegistry_def readWorktreeRegistryStrict_def)
  moreover obtain e' where e': "List.find (\<lambda>e. we_path e = p) es' = Some e'"
    using es'(2,3) by (cases "List.find (\<lambda>e. we_path e = p) es'") (auto simp: find_None_iff)
  moreover have "we_path e' = p" using e' by (auto simp: find_Some_iff)
  ultimately show ?thesis using l(2) same l(1) root assms(3) es'(1) by (simp add: findRegisteredOverlay_def)
qed

text \<open>What every interleaving of the commands keeps: one entry per path, and no more than the cap.\<close>

definition registry_ok :: "worktree_store \<Rightarrow> bool" where
  "registry_ok s \<longleftrightarrow> (\<forall>es. readWorktreeRegistryStrict s = Inr es \<longrightarrow>
     distinct (map we_path es) \<and> length es \<le> MAX_WORKTREE_OVERLAYS)"

inductive registry_step :: "worktree_store \<Rightarrow> worktree_store \<Rightarrow> bool" where
  rs_add: "add_register en repoRoot path now h s = (out, s') \<Longrightarrow> registry_step s s'"
| rs_dir: "registry_step s (make_overlay_dir i s)"
| rs_finish: "add_finish out built s = (ans, s') \<Longrightarrow> registry_step s s'"
| rs_remove: "worktree_remove en raw path s = Inr (hit, s') \<Longrightarrow> registry_step s s'"
| rs_drop: "prune_drop vs s = Inr (removed, s') \<Longrightarrow> registry_step s s'"
| rs_sweep: "sweep_dirs live s = (orphans, s') \<Longrightarrow> registry_step s s'"
| rs_damage: "registry_step s (s\<lparr>ws_registry := RegUnreadable\<rparr>)"

lemma registry_okI:
  assumes "registry_ok s" "readWorktreeRegistryStrict s = Inr es" "readWorktreeRegistryStrict s' = Inr es'"
    and "\<exists>P. es' = filter P es"
  shows "registry_ok s'"
  using assms distinct_map_filter [of we_path es] length_filter_le le_trans
  by (auto simp: registry_ok_def) (meson le_trans length_filter_le)

lemma registry_ok_frame [simp]:
  "registry_ok (removeOverlayFiles i s) = registry_ok s" "registry_ok (make_overlay_dir i s) = registry_ok s"
  "registry_ok (s\<lparr>ws_registry := RegUnreadable\<rparr>)"
  by (simp_all add: registry_ok_def) (simp add: readWorktreeRegistryStrict_def)

lemma read_registry_only: "ws_registry s' = ws_registry s \<Longrightarrow> readWorktreeRegistryStrict s' = readWorktreeRegistryStrict s"
  by (simp add: readWorktreeRegistryStrict_def)

lemma registry_ok_drop:
  assumes "registry_ok s" "prune_drop vs s = Inr (removed, s')"
  shows "registry_ok s'"
proof (cases "readWorktreeRegistryStrict s")
  case (Inl err)
  with assms show ?thesis by (auto simp: prune_drop_def mutateWorktreeRegistry_def split: if_splits)
next
  case (Inr es)
  show ?thesis by (rule registry_okI [OF assms(1) Inr prune_drop_facts(1) [OF Inr assms(2)]]) blast
qed

lemma registry_ok_sweep: "registry_ok s \<Longrightarrow> sweep_dirs live s = (orphans, s') \<Longrightarrow> registry_ok s'"
  unfolding registry_ok_def read_registry_only [OF sweep_exact(1) [of live s orphans s']] .

lemma registry_ok_prune:
  assumes "registry_ok s" "pruneWorktreeOverlays en repoRoot s = Inr (r, s')"
  shows "registry_ok s'"
proof -
  obtain vs removed s1 where d: "prune_drop vs s = Inr (removed, s1)" "snd (sweep_dirs (live_ids s1) s1) = s'"
    using assms(2) by (auto simp: pruneWorktreeOverlays_def split: sum.splits prod.splits)
  have "registry_ok s1" by (rule registry_ok_drop [OF assms(1) d(1)])
  then show ?thesis using registry_ok_sweep [of s1 "live_ids s1" "fst (sweep_dirs (live_ids s1) s1)" s'] d(2) by auto
qed

lemma registry_ok_register: 
  assumes "registry_ok s" "register en p now h s = Inr ((e, added), s')"
  shows "registry_ok s'"
proof -
  obtain es es' where f: "readWorktreeRegistryStrict s = Inr es" "ws_registry s' = RegText (Some (registry_json es'))"
    "added \<longrightarrow> es' = es @ [e] \<and> p \<notin> we_path ` set es \<and> length es < MAX_WORKTREE_OVERLAYS" "\<not> added \<longrightarrow> es' = es" "we_path e = p"
    using register_facts [OF assms(2)] by blast
  have "readWorktreeRegistryStrict s' = Inr es'" using f(2) by (simp add: readWorktreeRegistryStrict_def)
  with f assms(1) show ?thesis by (cases added) (auto simp: registry_ok_def)
qed

lemma registry_ok_add:
  assumes "registry_ok s" "add_register en repoRoot path now h s = (out, s')"
  shows "registry_ok s'"
proof -
  consider "s' = s" | p x where "register en p now h s = Inr (x, s')" | x where "pruneWorktreeOverlays en repoRoot s = Inr (x, s')"
    | p x y s1 where "pruneWorktreeOverlays en repoRoot s = Inr (x, s1)" "register en p now h s1 = Inr (y, s')"
    using assms(2) by (auto simp: add_register_def split: worktree_verdict.splits sum.splits add_error.splits prod.splits if_splits)
  then show ?thesis
  proof cases
    case 1
    with assms(1) show ?thesis by simp
  next
    case 2
    then show ?thesis by (cases x) (auto intro: registry_ok_register [OF assms(1)])
  next
    case 3
    then show ?thesis by (rule registry_ok_prune [OF assms(1)])
  next
    case 4
    have "registry_ok s1" by (rule registry_ok_prune [OF assms(1) 4(1)])
    with 4(2) show ?thesis by (cases y) (auto intro: registry_ok_register)
  qed
qed

lemma registry_ok_finish:
  assumes "registry_ok s" "add_finish out built s = (ans, s')"
  shows "registry_ok s'"
proof (cases "readWorktreeRegistryStrict s")
  case (Inl err)
  with assms show ?thesis by (auto simp: add_finish_def mutateWorktreeRegistry_def split: if_splits)
next
  case (Inr es)
  have "registry_ok (s\<lparr>ws_registry := RegText (Some (registry_json (filter P es)))\<rparr>)" for P
    by (rule registry_okI [OF assms(1) Inr read_written]) blast
  with assms show ?thesis by (auto simp: add_finish_def mutateWorktreeRegistry_def Inr split: if_splits)
qed

lemma registry_ok_remove:
  assumes "registry_ok s" "worktree_remove en raw path s = Inr (hit, s')"
  shows "registry_ok s'"
proof -
  obtain es where es: "readWorktreeRegistryStrict s = Inr es"
    using assms(2) by (auto simp: worktree_remove_def mutateWorktreeRegistry_def Let_def split: sum.splits)
  have "\<exists>es'. readWorktreeRegistryStrict s' = Inr es' \<and> (es' = es \<or> (\<exists>h. es' = remove1 h es))"
    using assms(2) es by (auto simp: worktree_remove_def mutateWorktreeRegistry_def Let_def split: option.splits)
  then obtain es' where es': "readWorktreeRegistryStrict s' = Inr es'" "es' = es \<or> (\<exists>h. es' = remove1 h es)" by blast
  have "distinct (map we_path (remove1 h es)) \<and> length (remove1 h es) \<le> length es" if "distinct (map we_path es)" for h
  proof (cases "h \<in> set es")
    case True
    then obtain us vs where "es = us @ h # vs" "remove1 h es = us @ vs" by (metis remove1_append remove1.simps(2) split_list_first)
    with that show ?thesis by auto
  next
    case False
    with that show ?thesis by (simp add: remove1_idem)
  qed
  moreover have "distinct (map we_path es)" "length es \<le> MAX_WORKTREE_OVERLAYS" using assms(1) es by (auto simp: registry_ok_def)
  moreover have "length (remove1 h es) \<le> MAX_WORKTREE_OVERLAYS" for h
    using calculation by (meson le_trans)
  ultimately show ?thesis using es' by (auto simp: registry_ok_def)
qed

theorem registry_invariant:
  assumes "registry_step\<^sup>*\<^sup>* s s'" "registry_ok s"
  shows "registry_ok s'"
  using assms
proof (induction rule: rtranclp_induct)
  case base
  then show ?case by simp
next
  case (step t u)
  from step.hyps(2) step.IH [OF step.prems] show ?case
    by cases (auto intro: registry_ok_add registry_ok_finish registry_ok_remove registry_ok_drop registry_ok_sweep)
qed

subsection \<open>Two races\<close>

text \<open>
  The sweep reads the registry first and lists the directory later, without the lock: an overlay
  that is registered in between is deleted while it is registered.
\<close>

theorem sweep_deletes_new_overlay:
  assumes "register en p now h s = Inr ((e, True), s1)" "overlay_name (we_id e)" "we_id e \<notin> set (live_ids s)"
    and "sweep_dirs (live_ids s) (make_overlay_dir (we_id e) s1) = (orphans, s2)"
  shows "we_id e \<in> set orphans \<and> e \<in> set (readWorktreeRegistry s2) \<and> we_id e \<notin> set (case ws_dirs s2 of Some ds \<Rightarrow> ds | None \<Rightarrow> [])"
proof -
  obtain es' where f: "ws_registry s1 = RegText (Some (registry_json es'))" "e \<in> set es'"
    using register_facts [OF assms(1)] by blast
  note w = sweep_exact [OF assms(4)]
  have "ws_registry s2 = RegText (Some (registry_json es'))" using w(1) f(1) by (simp add: make_overlay_dir_def)
  then have "readWorktreeRegistry s2 = es'" by (simp add: readWorktreeRegistry_def readWorktreeRegistryStrict_def)
  moreover have "we_id e \<in> set (case ws_dirs (make_overlay_dir (we_id e) s1) of Some ds \<Rightarrow> ds | None \<Rightarrow> [])"
    by (auto simp: make_overlay_dir_def split: option.split)
  ultimately show ?thesis using w assms(2,3) f(2) by (auto simp: make_overlay_dir_def split: option.splits)
qed

text \<open>
  Two processes add the same worktree. The build of the first fails and it takes the registration
  back; the build of the second succeeds and it reports that the worktree is registered.
\<close>

theorem add_reports_lost_registration:
  assumes "register en p now h s = Inr ((e, True), s1)" "register en p now' h' s1 = Inr (out, s2)"
    and "add_finish (e, True) False s2 = (ans, s3)" "we_id e \<notin> set (live_ids s)"
  shows "out = (e, False) \<and> fst (add_finish out True s3) = Inr e \<and> readWorktreeRegistry s3 = readWorktreeRegistry s"
proof -
  obtain es where f: "readWorktreeRegistryStrict s = Inr es" "ws_registry s1 = RegText (Some (registry_json (es @ [e])))"
    "p \<notin> we_path ` set es" "we_path e = p"
    using register_facts [OF assms(1)] by auto
  have r1: "readWorktreeRegistryStrict s1 = Inr (es @ [e])" using f(2) by (simp add: readWorktreeRegistryStrict_def)
  have "List.find (\<lambda>e. we_path e = p) es = None" using f(3) by (auto simp: find_None_iff)
  then have "List.find (\<lambda>e. we_path e = p) (es @ [e]) = Some e" using f(4) by (simp add: find_append)
  with r1 assms(2) have o: "out = (e, False)" "s2 = s1\<lparr>ws_registry := RegText (Some (registry_json (es @ [e])))\<rparr>"
    by (auto simp: register_def mutateWorktreeRegistry_def register_entry_def)
  have "filter (\<lambda>x. we_id x \<noteq> we_id e) es = es"
    using assms(4) f(1) by (intro filter_True) (auto simp: live_ids_def readWorktreeRegistry_def image_iff)
  with assms(3) have "readWorktreeRegistryStrict s3 = Inr es"
    by (auto simp: add_finish_def mutateWorktreeRegistry_def o(2))
  with f(1) o(1) show ?thesis by (simp add: add_finish_def readWorktreeRegistry_def)
qed

end
