(* ===== verification/Overlay.thy ===== *)
theory Overlay
  imports Ingest Reresolve BranchIndex
begin

text \<open>
  \<open>worktree/overlay.ts\<close>: the overlay index of a registered worktree, a copy of the main index that
  is brought up to date before a read. The overlay file is its index, its row \<open>overlay_dirty\<close> as
  parsed, and whether a marker that no one can parse is the one a seed writes. What git, the file
  system and the native indexer answer are in the record \<open>refresh_env\<close>. Every state the overlay
  takes, one per transaction, is in the history of a refresh, so that a crash leaves one of them;
  replacing the file by a seed is one step. One refresh runs at a time, under the lock of theory
  FileLock. Shown here: no state but the last of a successful refresh reads as fresh, a graph that
  is half-written is never amended, a refresh that succeeds settles, and the set of files that it
  parses again covers every difference, as long as no refresh dies between its ingest and its stamp.
\<close>

subsection \<open>The overlay file\<close>

definition OVERLAY_INCREMENTAL_CAP :: nat where "OVERLAY_INCREMENTAL_CAP = 2000"

definition STAMP_KEY :: string where "STAMP_KEY = ''overlay_fingerprint''"

definition SEED_PENDING_KEY :: string where "SEED_PENDING_KEY = ''overlay_seed_pending''"

definition HEAD_KEY :: string where "HEAD_KEY = ''last_ingest_git_head''"

record overlay_file =
  of_disk :: index_disk
  of_dirty :: "json option option"
  of_seed_marker :: bool

datatype overlay_slot = NoOverlay | JunkFile | NewerSchema | Overlay overlay_file

record overlay_state =
  os_stamp :: "string option"
  os_dirty :: "string list"
  os_head :: "string option"
  os_integrityOk :: bool
  os_seedPending :: bool
  os_nodes :: int

abbreviation overlay_index :: "overlay_file \<Rightarrow> index_file" where
  "overlay_index f \<equiv> dk_index (of_disk f)"

abbreviation overlay_db :: "overlay_file \<Rightarrow> db" where
  "overlay_db f \<equiv> tables (overlay_index f)"

definition unhealthy :: overlay_state where
  "unhealthy = \<lparr>os_stamp = None, os_dirty = [], os_head = None, os_integrityOk = False, os_seedPending = False, os_nodes = 0\<rparr>"

definition dirty_paths :: "json option option \<Rightarrow> string list" where
  "dirty_paths d = (case d of Some (Some (JArr js)) \<Rightarrow> List.map_filter str_of js | _ \<Rightarrow> [])"

text \<open>A check that throws, and a table that cannot be read, make the overlay unhealthy.\<close>

definition state_of :: "overlay_file \<Rightarrow> overlay_state" where
  "state_of f =
     (let ix = overlay_index f
      in case readIndexIntegrity ix of
           None \<Rightarrow> unhealthy
         | Some integrity \<Rightarrow>
             if \<not> nodes_readable ix \<or> \<not> stats_readable ix then unhealthy
             else \<lparr>os_stamp = (case getStat STAMP_KEY (tables ix) of Some s \<Rightarrow> if s \<noteq> [] then Some s else None | None \<Rightarrow> None),
                   os_dirty = dirty_paths (of_dirty f),
                   os_head = getStat HEAD_KEY (tables ix),
                   os_integrityOk = ii_ok integrity,
                   os_seedPending = (getStat SEED_PENDING_KEY (tables ix) = Some ''1'' \<and> ii_reason integrity = IngestInterrupted
                     \<and> marker ix = Some Unparseable \<and> of_seed_marker f),
                   os_nodes = int (length (nodes_t (tables ix)))\<rparr>)"

datatype overlay_error = WorktreeGone | SchemaTooNew | SeedFailed | IngestFailed ingest_error

definition readOverlayState :: "overlay_slot \<Rightarrow> overlay_error + overlay_state option" where
  "readOverlayState slot = (case slot of
     NoOverlay \<Rightarrow> Inr None | JunkFile \<Rightarrow> Inr (Some unhealthy) | NewerSchema \<Rightarrow> Inl SchemaTooNew | Overlay f \<Rightarrow> Inr (Some (state_of f)))"

subsection \<open>The fingerprint of a worktree\<close>

record worktree_fingerprint =
  fp_hash :: string
  fp_head :: "string option"
  fp_dirty :: "string list"

text \<open>\<open>stat\<close> is the text \<open>mtimeMs:size\<close> of a path, \<open>None\<close> where it is absent.\<close>

definition fingerprint_text :: "(string \<Rightarrow> string option) \<Rightarrow> string option \<Rightarrow> string \<Rightarrow> string list \<Rightarrow> string" where
  "fingerprint_text stat head raw paths =
     ''head:'' @ (case head of Some h \<Rightarrow> h | None \<Rightarrow> ''none'') @ [CHR 0x0A] @ raw @ [CHR 0x0A]
     @ concat (map (\<lambda>p. p @ CHR 0x00 # (case stat p of Some m \<Rightarrow> m | None \<Rightarrow> ''absent'') @ [CHR 0x0A]) paths)"

definition worktreeFingerprint ::
    "(string \<Rightarrow> string) \<Rightarrow> (string \<Rightarrow> string option) \<Rightarrow> string option \<Rightarrow> string option \<Rightarrow> worktree_fingerprint option" where
  "worktreeFingerprint sha256 stat status_output head_output =
     (case gitStatus status_output of
        None \<Rightarrow> None
      | Some (raw, paths) \<Rightarrow>
          let head = readGitHead head_output
          in Some \<lparr>fp_hash = sha256 (fingerprint_text stat head raw paths), fp_head = head, fp_dirty = paths\<rparr>)"

subsection \<open>Seeding\<close>

record refresh_env =
  rf_fingerprint :: "worktree_fingerprint option"
  rf_diff :: "string \<Rightarrow> string option"
  rf_untracked :: "string option"
  rf_exists :: "string \<Rightarrow> bool"
  rf_isAncestor :: "string \<Rightarrow> string \<Rightarrow> bool"
  rf_main_checked :: "stored_index option"
  rf_main_copy :: "index_disk option"
  rf_main_status :: "string option"
  rf_minted :: string
  rf_begun :: int
  rf_ended :: int
  rf_files_run :: "string list \<Rightarrow> native_run"
  rf_full_run :: native_run
  rf_files_opts :: ingest_opts
  rf_full_opts :: ingest_opts
  rf_reresolve :: "(workspace_map \<times> int) option"

definition on_db :: "(db \<Rightarrow> db) \<Rightarrow> overlay_file \<Rightarrow> overlay_file" where
  "on_db g f = f\<lparr>of_disk := on_tables g (of_disk f)\<rparr>"

definition set_index :: "index_file \<Rightarrow> overlay_file \<Rightarrow> overlay_file" where
  "set_index ix f = f\<lparr>of_disk := (of_disk f)\<lparr>dk_index := ix\<rparr>\<rparr>"

definition seed_file :: "string list \<Rightarrow> index_disk \<Rightarrow> overlay_file" where
  "seed_file dirty d =
     (let ix = dk_index d
      in \<lparr>of_disk = d\<lparr>dk_index := ix\<lparr>tables := setStat SEED_PENDING_KEY ''1'' (setStat STAMP_KEY [] (tables ix)),
                                     marker := Some Unparseable\<rparr>\<rparr>,
          of_dirty = Some (Some (JArr (map JStr dirty))), of_seed_marker = True\<rparr>)"

text \<open>The copy is checked, not its source, which was checked before it was copied.\<close>

definition seedFromMain :: "refresh_env \<Rightarrow> overlay_error + overlay_file option" where
  "seedFromMain en =
     (if rf_main_checked en = None \<or> \<not> hasSeedableContent (rf_main_checked en) then Inr None
      else case rf_main_copy en of
        None \<Rightarrow> Inl SeedFailed
      | Some d \<Rightarrow> (case readIndexIntegrity (dk_index d) of
          None \<Rightarrow> Inl SeedFailed
        | Some integrity \<Rightarrow>
            if \<not> ii_ok integrity \<or> ii_nodes integrity \<le> 0 then Inr None
            else (case readIngestDirty (dk_dirty d) of
                Some (DirtyPaths recorded) \<Rightarrow>
                  (case gitStatus (rf_main_status en) of
                     None \<Rightarrow> Inr None
                   | Some (_, current) \<Rightarrow> Inr (Some (seed_file (sorted_unique (recorded @ current)) d)))
              | _ \<Rightarrow> Inr None)))"

subsection \<open>What to parse again\<close>

type_synonym change_set = "string list \<times> string list"

definition candidates :: "refresh_env \<Rightarrow> string list \<times> string list \<Rightarrow> string list \<Rightarrow> string list" where
  "candidates en diff prevDirty = filter isSourcePath (remdups (fst diff @ snd diff @ gitUntracked (rf_untracked en) @ prevDirty))"

definition computeChangeSet :: "refresh_env \<Rightarrow> string \<Rightarrow> string list \<Rightarrow> change_set option" where
  "computeChangeSet en fromRef prevDirty =
     (case gitDiffSince (rf_diff en fromRef) of
        None \<Rightarrow> None
      | Some diff \<Rightarrow>
          let cs = candidates en diff prevDirty
          in Some (sort (filter (rf_exists en) cs), sort (filter (\<lambda>p. \<not> rf_exists en p) cs)))"

definition overCap :: "change_set \<Rightarrow> bool" where
  "overCap cs \<longleftrightarrow> OVERLAY_INCREMENTAL_CAP < length (fst cs) + length (snd cs)"

definition usable :: "overlay_state option \<Rightarrow> bool" where
  "usable s = (case s of None \<Rightarrow> False
     | Some st \<Rightarrow> (os_integrityOk st \<or> os_seedPending st) \<and> os_head st \<noteq> None \<and> 0 < os_nodes st)"

text \<open>The variables \<open>seeded\<close>, the overlay and \<open>state\<close>.\<close>

record refresh_base =
  rb_seeded :: bool
  rb_slot :: overlay_slot
  rb_state :: "overlay_state option"

definition reseed :: "refresh_env \<Rightarrow> refresh_base \<Rightarrow> overlay_error + refresh_base" where
  "reseed en b = sbind (seedFromMain en) (\<lambda>s. case s of
     None \<Rightarrow> Inr b
   | Some f \<Rightarrow> Inr \<lparr>rb_seeded = True, rb_slot = Overlay f, rb_state = Some (state_of f)\<rparr>)"

definition plan_of :: "refresh_env \<Rightarrow> refresh_base \<Rightarrow> change_set option" where
  "plan_of en b = (case rb_state b of
     Some st \<Rightarrow> (if usable (rb_state b)
       then (case os_head st of Some h \<Rightarrow> computeChangeSet en h (os_dirty st) | None \<Rightarrow> None) else None)
   | None \<Rightarrow> None)"

definition head_descends :: "refresh_env \<Rightarrow> worktree_fingerprint \<Rightarrow> refresh_base \<Rightarrow> bool" where
  "head_descends en fp b = (case (fp_head fp, rb_state b) of
     (Some h, Some st) \<Rightarrow> (case os_head st of Some base \<Rightarrow> rf_isAncestor en base h | None \<Rightarrow> False)
   | _ \<Rightarrow> False)"

text \<open>A worktree that was reset to another base is seeded again, if that was not just done, before it is parsed in full.\<close>

definition divergent :: "refresh_env \<Rightarrow> worktree_fingerprint \<Rightarrow> refresh_base \<Rightarrow> bool" where
  "divergent en fp b = (case plan_of en b of None \<Rightarrow> True | Some cs \<Rightarrow> overCap cs \<and> \<not> head_descends en fp b)"

definition final_plan :: "refresh_env \<Rightarrow> change_set option \<Rightarrow> refresh_base \<Rightarrow> refresh_base \<Rightarrow> overlay_error + change_set option \<times> refresh_base" where
  "final_plan en plan b b1 =
     (let plan1 = (if rb_seeded b1 \<and> \<not> rb_seeded b then plan_of en b1 else plan)
      in Inr (case plan1 of None \<Rightarrow> None | Some cs \<Rightarrow> if overCap cs then None else Some cs, b1))"

definition plan_from :: "refresh_env \<Rightarrow> worktree_fingerprint \<Rightarrow> refresh_base \<Rightarrow> overlay_error + change_set option \<times> refresh_base" where
  "plan_from en fp b =
     (if \<not> usable (rb_state b) then Inr (None, b)
      else sbind (if divergent en fp b \<and> \<not> rb_seeded b then reseed en b else Inr b) (final_plan en (plan_of en b) b))"

definition choose_plan :: "refresh_env \<Rightarrow> worktree_fingerprint \<Rightarrow> bool \<Rightarrow> refresh_base \<Rightarrow> overlay_error + change_set option \<times> refresh_base" where
  "choose_plan en fp full b0 =
     (if full then Inr (None, b0)
      else sbind (if usable (rb_state b0) then Inr b0 else reseed en b0) (plan_from en fp))"

lemmas planning = choose_plan_def plan_from_def final_plan_def divergent_def

subsection \<open>Bringing the overlay up to date\<close>

record refresh_run =
  rr_file :: overlay_file
  rr_handle :: "string option"
  rr_history :: "overlay_slot list"

definition store :: "(overlay_file \<Rightarrow> overlay_file) \<Rightarrow> refresh_run \<Rightarrow> refresh_run" where
  "store g r = r\<lparr>rr_file := g (rr_file r), rr_history := rr_history r @ [Overlay (g (rr_file r))]\<rparr>"

definition unstamp :: "overlay_file \<Rightarrow> overlay_file" where
  "unstamp = on_db (\<lambda>d. setStat SEED_PENDING_KEY [] (setStat STAMP_KEY [] d))"

definition begin_refresh :: "refresh_env \<Rightarrow> refresh_run \<Rightarrow> refresh_run" where
  "begin_refresh en r =
     (case beginIngest (rf_minted en) (rf_begun en) (rr_handle r, overlay_index (rr_file r)) of
        (_, tok, ix) \<Rightarrow> (store (\<lambda>f. unstamp (set_index ix f)) r)\<lparr>rr_handle := tok\<rparr>)"

definition purge_file :: "string \<Rightarrow> refresh_run \<Rightarrow> refresh_run" where
  "purge_file p = store (on_db (\<lambda>d. snd (deleteNodesByFile p d)))"

definition ingest_into :: "ingest_opts \<Rightarrow> native_run \<Rightarrow> refresh_run \<Rightarrow> (ingest_error + ingest_result) \<times> refresh_run" where
  "ingest_into opts run r =
     (case runIngest opts run (rr_handle r, of_disk (rr_file r)) of (res, st) \<Rightarrow>
        (res, \<lparr>rr_file = (rr_file r)\<lparr>of_disk := disk st\<rparr>, rr_handle = handle st,
               rr_history = rr_history r @ map (\<lambda>d. Overlay ((rr_file r)\<lparr>of_disk := d\<rparr>)) (history st)\<rparr>))"

definition settle_purge :: "refresh_env \<Rightarrow> refresh_run \<Rightarrow> refresh_run" where
  "settle_purge en r =
     (let ix = overlay_index (rr_file r);
          ix1 = ix\<lparr>tables := setStat ''last_ingest_at'' (int_dec (rf_ended en)) (tables ix)\<rparr>;
          ix2 = recordNodeWatermark (int (length (nodes_t (tables ix1)))) False ix1
      in case endIngest (rr_handle r, ix2) of (tok, ix3) \<Rightarrow> (store (set_index ix3) r)\<lparr>rr_handle := tok\<rparr>)"

definition reresolve :: "refresh_env \<Rightarrow> refresh_run \<Rightarrow> refresh_run" where
  "reresolve en r = (case rf_reresolve en of
     None \<Rightarrow> r | Some (ws, now) \<Rightarrow> store (on_db (\<lambda>d. snd (reresolveAllEdges ws now d))) r)"

text \<open>The incremental part. The flag says that the native indexer accepted none of the files.\<close>

definition incremental_from :: "refresh_env \<Rightarrow> string list \<Rightarrow> string list \<Rightarrow> refresh_run \<Rightarrow> (overlay_error + bool) \<times> refresh_run" where
  "incremental_from en changed deleted r =
     (if changed \<noteq> []
      then (case ingest_into ((rf_files_opts en)\<lparr>io_fullRebuild := False, io_clearBeforeIngest := False\<rparr>) (rf_files_run en changed) r of
          (Inl err, r1) \<Rightarrow> (Inl (IngestFailed err), r1)
        | (Inr res, r1) \<Rightarrow> if ir_filesTotal res = 0 then (Inr True, r1) else (Inr False, reresolve en r1))
      else (Inr False, if deleted \<noteq> [] then reresolve en (settle_purge en r) else settle_purge en r))"

definition incremental :: "refresh_env \<Rightarrow> change_set \<Rightarrow> refresh_run \<Rightarrow> (overlay_error + bool) \<times> refresh_run" where
  "incremental en plan r =
     (case plan of (changed, deleted) \<Rightarrow>
        incremental_from en changed deleted (fold purge_file (deleted @ changed) (begin_refresh en r)))"

definition full_parse :: "refresh_env \<Rightarrow> refresh_run \<Rightarrow> (overlay_error + unit) \<times> refresh_run" where
  "full_parse en r =
     (case ingest_into ((rf_full_opts en)\<lparr>io_fullRebuild := True, io_clearBeforeIngest := True\<rparr>) (rf_full_run en) (store unstamp r) of
        (Inl err, r1) \<Rightarrow> (Inl (IngestFailed err), r1)
      | (Inr _, r1) \<Rightarrow> (Inr (), r1))"

definition writeStamp :: "worktree_fingerprint \<Rightarrow> overlay_file \<Rightarrow> overlay_file" where
  "writeStamp fp f =
     (on_db (\<lambda>d. setStat STAMP_KEY (fp_hash fp) (setStat SEED_PENDING_KEY []
        ((case fp_head fp of Some h \<Rightarrow> setStat HEAD_KEY h | None \<Rightarrow> id) d))) f)
     \<lparr>of_dirty := Some (Some (JArr (map JStr (fp_dirty fp))))\<rparr>"

datatype refresh_action = AlreadyFresh | Incremental | FullParse

record refresh_result =
  ro_action :: refresh_action
  ro_seeded :: bool
  ro_reparsed :: int
  ro_deleted :: int
  ro_reresolved :: bool
  ro_nodes :: int
  ro_head :: "string option"

definition empty_overlay :: overlay_file where
  "empty_overlay = \<lparr>of_disk = \<lparr>dk_index = \<lparr>tables = db_new True, marker = None, watermark = None, nodes_readable = True,
     stats_readable = True\<rparr>, dk_dirty = None\<rparr>, of_dirty = None, of_seed_marker = False\<rparr>"

text \<open>Opening for writing: a file that is absent or junk is created, after one that is broken was removed.\<close>

definition discard_broken :: "change_set option \<Rightarrow> refresh_base \<Rightarrow> overlay_slot" where
  "discard_broken plan b = (case rb_state b of
     Some st \<Rightarrow> if plan = None \<and> \<not> os_integrityOk st \<and> \<not> os_seedPending st then NoOverlay else rb_slot b
   | None \<Rightarrow> rb_slot b)"

definition openWritable :: "overlay_slot \<Rightarrow> overlay_file" where
  "openWritable slot = (case slot of Overlay f \<Rightarrow> f | _ \<Rightarrow> empty_overlay)"

definition open_run :: "change_set option \<Rightarrow> refresh_base \<Rightarrow> refresh_run" where
  "open_run plan b =
     (let slot = discard_broken plan b; f = openWritable slot
      in \<lparr>rr_file = f, rr_handle = None,
          rr_history = (if rb_seeded b then [rb_slot b] else []) @ (if slot \<noteq> rb_slot b then [slot] else [])
            @ (if slot \<noteq> Overlay f then [Overlay f] else [])\<rparr>)"

definition finish_refresh :: "worktree_fingerprint \<Rightarrow> refresh_base \<Rightarrow> change_set option \<Rightarrow> refresh_run
    \<Rightarrow> (overlay_error + refresh_result) \<times> refresh_run" where
  "finish_refresh fp b plan r =
     (let r1 = store (writeStamp fp) r
      in (Inr \<lparr>ro_action = (if plan = None then FullParse else Incremental), ro_seeded = rb_seeded b,
            ro_reparsed = (case plan of Some cs \<Rightarrow> int (length (fst cs)) | None \<Rightarrow> -1),
            ro_deleted = (case plan of Some cs \<Rightarrow> int (length (snd cs)) | None \<Rightarrow> 0),
            ro_reresolved = (case plan of Some cs \<Rightarrow> fst cs \<noteq> [] \<or> snd cs \<noteq> [] | None \<Rightarrow> False),
            ro_nodes = int (length (nodes_t (overlay_db (rr_file r1)))), ro_head = fp_head fp\<rparr>, r1))"

definition full_then_finish :: "refresh_env \<Rightarrow> worktree_fingerprint \<Rightarrow> refresh_base \<Rightarrow> refresh_run
    \<Rightarrow> (overlay_error + refresh_result) \<times> refresh_run" where
  "full_then_finish en fp b r = (case full_parse en r of
     (Inl e, r1) \<Rightarrow> (Inl e, r1) | (Inr _, r1) \<Rightarrow> finish_refresh fp b None r1)"

definition run_plan :: "refresh_env \<Rightarrow> worktree_fingerprint \<Rightarrow> change_set option \<Rightarrow> refresh_base
    \<Rightarrow> (overlay_error + refresh_result) \<times> refresh_run" where
  "run_plan en fp plan b =
     (let r = open_run plan b
      in case plan of
           None \<Rightarrow> full_then_finish en fp b r
         | Some cs \<Rightarrow> (case incremental en cs r of
             (Inl e, r1) \<Rightarrow> (Inl e, r1)
           | (Inr True, r1) \<Rightarrow> full_then_finish en fp b r1
           | (Inr False, r1) \<Rightarrow> finish_refresh fp b plan r1))"

definition is_fresh :: "worktree_fingerprint \<Rightarrow> overlay_state option \<Rightarrow> bool" where
  "is_fresh fp s = (case s of None \<Rightarrow> False | Some st \<Rightarrow> os_integrityOk st \<and> os_stamp st = Some (fp_hash fp))"

text \<open>The answer, and the states the overlay took.\<close>

definition refreshOverlay :: "refresh_env \<Rightarrow> bool \<Rightarrow> bool \<Rightarrow> overlay_slot \<Rightarrow> (overlay_error + refresh_result) \<times> overlay_slot list" where
  "refreshOverlay en full force slot =
     (case rf_fingerprint en of
        None \<Rightarrow> (Inl WorktreeGone, [])
      | Some fp \<Rightarrow> (case readOverlayState slot of
          Inl e \<Rightarrow> (Inl e, [])
        | Inr state \<Rightarrow>
            if \<not> full \<and> \<not> force \<and> is_fresh fp state
            then (Inr \<lparr>ro_action = AlreadyFresh, ro_seeded = False, ro_reparsed = 0, ro_deleted = 0, ro_reresolved = False,
                    ro_nodes = (case state of Some st \<Rightarrow> os_nodes st | None \<Rightarrow> 0), ro_head = fp_head fp\<rparr>, [])
            else (case choose_plan en fp full \<lparr>rb_seeded = False, rb_slot = slot, rb_state = state\<rparr> of
                Inl e \<Rightarrow> (Inl e, [])
              | Inr (plan, b) \<Rightarrow> (case run_plan en fp plan b of (res, r) \<Rightarrow> (res, rr_history r)))))"

subsection \<open>Status\<close>

datatype overlay_freshness = IsFresh | Stale | Missing | Broken | IsGone | Unknown

definition overlayStatus :: "bool \<Rightarrow> (string option) option \<Rightarrow> worktree_fingerprint option \<Rightarrow> overlay_slot \<Rightarrow> overlay_freshness" where
  "overlayStatus worktree_exists toplevel_stderr fp slot =
     (let state = (case readOverlayState slot of Inl _ \<Rightarrow> Some unhealthy | Inr s \<Rightarrow> s)
      in if \<not> worktree_exists then IsGone
         else case fp of
           None \<Rightarrow> (case toplevel_stderr of
               Some (Some stderr) \<Rightarrow> if js_includes (map lower stderr) ''not a git repository'' then IsGone else Unknown
             | _ \<Rightarrow> Unknown)
         | Some p \<Rightarrow> (case state of
             None \<Rightarrow> Missing
           | Some st \<Rightarrow> if os_seedPending st then Stale
               else if \<not> os_integrityOk st then Broken
               else if os_stamp st = Some (fp_hash p) then IsFresh else Stale))"

subsection \<open>What an ingest leaves alone\<close>

definition stat_view :: "index_disk \<Rightarrow> string option \<times> string option \<times> bool \<times> bool" where
  "stat_view d = (getStat STAMP_KEY (tables (dk_index d)), getStat SEED_PENDING_KEY (tables (dk_index d)),
     nodes_readable (dk_index d), stats_readable (dk_index d))"

definition viewed :: "string option \<times> string option \<times> bool \<times> bool \<Rightarrow> ingest_state \<Rightarrow> bool" where
  "viewed v st \<longleftrightarrow> stat_view (disk st) = v \<and> (\<forall>d \<in> set (history st). stat_view d = v)"

lemma viewed_write: "viewed v st \<Longrightarrow> stat_view (f (disk st)) = v \<Longrightarrow> viewed v (write_disk f st)"
  by (auto simp: viewed_def)

lemma stat_view_tables: "(\<And>t. stats_t (f t) = stats_t t) \<Longrightarrow> stat_view (on_tables f d) = stat_view d"
  by (simp add: stat_view_def on_tables_def getStat_def)

lemma viewed_tables: "viewed v st \<Longrightarrow> (\<And>t. stats_t (f t) = stats_t t) \<Longrightarrow> viewed v (write_disk (on_tables f) st)"
  by (rule viewed_write) (simp_all add: viewed_def stat_view_tables)

lemma stats_frame [simp]:
  "stats_t (fold upsertNode ns d) = stats_t d" "stats_t (fold replaceEdge es d) = stats_t d"
  "stats_t (snd (upsertNodes ns d)) = stats_t d" "stats_t (snd (insertCallSites ss d)) = stats_t d"
  "stats_t (snd (replaceEdges es d)) = stats_t d" "stats_t (clearCallSites d) = stats_t d"
  "stats_t (snd (deleteCallSitesByFile fs d)) = stats_t d"
proof -
  show u: "stats_t (fold upsertNode ns d) = stats_t d" by (induction ns arbitrary: d) simp_all
  show r: "stats_t (fold replaceEdge es d) = stats_t d" by (induction es arbitrary: d) (simp_all add: replaceEdge_def)
  show "stats_t (snd (upsertNodes ns d)) = stats_t d" "stats_t (snd (replaceEdges es d)) = stats_t d"
    by (simp_all add: upsertNodes_def replaceEdges_def u r)
qed (simp_all add: insertCallSites_def clearCallSites_def deleteCallSitesByFile_spec)

lemma viewed_fields [simp]:
  "viewed v (st\<lparr>abortReason := a\<rparr>) = viewed v st" "viewed v (st\<lparr>mutatedIndex := b\<rparr>) = viewed v st"
  "viewed v (st\<lparr>parsedFiles := ps\<rparr>) = viewed v st" "viewed v (st\<lparr>moduleByFile := m\<rparr>) = viewed v st"
  "viewed v (st\<lparr>fileByModuleId := m\<rparr>) = viewed v st" "viewed v (st\<lparr>idCollisions := n\<rparr>) = viewed v st"
  "viewed v (st\<lparr>filesTotal := n\<rparr>) = viewed v st" "viewed v (st\<lparr>filesDone := n\<rparr>) = viewed v st"
  "viewed v (st\<lparr>warnings := n\<rparr>) = viewed v st" "viewed v (st\<lparr>nativeNodes := n\<rparr>) = viewed v st"
  "viewed v (st\<lparr>nativeElapsedMs := n\<rparr>) = viewed v st" "viewed v (st\<lparr>nodeCount := n\<rparr>) = viewed v st"
  "viewed v (st\<lparr>edgeCount := n\<rparr>) = viewed v st" "viewed v (st\<lparr>edgeResolver := r\<rparr>) = viewed v st"
  "viewed v (st\<lparr>nodeBuffer := ns\<rparr>) = viewed v st" "viewed v (st\<lparr>edgeBuffer := es\<rparr>) = viewed v st"
  "viewed v (st\<lparr>spilledEdges := es\<rparr>) = viewed v st" "viewed v (st\<lparr>handle := h\<rparr>) = viewed v st"
  by (simp_all add: viewed_def)

lemma view_begin:
  assumes "beginIngest t now (k, ix) = (u, tok, ix')"
  shows "tables ix' = tables ix" "nodes_readable ix' = nodes_readable ix" "stats_readable ix' = stats_readable ix" "watermark ix' = watermark ix"
  using assms by (auto simp: beginIngest_def Let_def)

lemma view_end:
  "tables (snd (endIngest (k, ix))) = tables ix" "nodes_readable (snd (endIngest (k, ix))) = nodes_readable ix"
  "stats_readable (snd (endIngest (k, ix))) = stats_readable ix" "watermark (snd (endIngest (k, ix))) = watermark ix"
  by (simp_all add: endIngest_def split: option.split)

lemma viewed_start: "viewed (stat_view d) (ingest_start opts (k, d))"
proof -
  obtain u tok ix where b: "beginIngest (io_minted opts) (io_startedAt opts) (k, dk_index d) = (u, tok, ix)"
    by (cases "beginIngest (io_minted opts) (io_startedAt opts) (k, dk_index d)")
  from b view_begin [OF b] show ?thesis by (simp add: ingest_start_def viewed_def stat_view_def Let_def)
qed

lemma viewed_clear: "viewed v st \<Longrightarrow> viewed v (clear_index opts now st)"
  by (auto simp: clear_index_def clearGraph_def Let_def viewed_def stat_view_def getStat_def split: prod.split)

lemma viewed_flush: "viewed v st \<Longrightarrow> viewed v (flushNodes st)" "viewed v st \<Longrightarrow> viewed v (flushEdges st)"
  by (simp_all add: flushNodes_def flushEdges_def viewed_tables)

lemma viewed_handle: "viewed v st \<Longrightarrow> viewed v (handleRecord opts r st)"
  by (induction opts r st rule: handleRecord.induct)
    (simp_all add: handle_node_def handle_edge_def claim_module_id_def Let_def viewed_clear viewed_flush split: option.split)

lemma viewed_drain: "viewed v st \<Longrightarrow> viewed v (drain_records opts rs st)"
  by (induction rs arbitrary: st) (simp_all add: Let_def viewed_handle)

interpretation sites_view: batched write_sites "\<lambda>_. ()" "\<lambda>_ _. ()" "viewed v"
  by unfold_locales (simp_all add: write_sites_def viewed_tables)

interpretation edges_view: batched write_edges "\<lambda>_. ()" "\<lambda>_ _. ()" "viewed v"
  by unfold_locales (simp_all add: write_edges_def viewed_tables)

lemma viewed_after_edges:
  assumes "viewed v st"
  shows "viewed v (after_edges opts st)"
proof -
  have "viewed v ((supersede_sites opts st)\<lparr>edgeResolver := second_resolver st\<rparr>)"
    using assms by (simp add: supersede_sites_def viewed_tables)
  then have "viewed v (after_sites opts st)" unfolding after_sites_def by (rule sites_view.batches_kept)
  then show ?thesis unfolding after_edges_def by (rule edges_view.batches_kept)
qed

lemma getStat_set [simp]: "getStat k (setStat k' v d) = (if k = k' then Some v else getStat k d)"
  by (simp add: getStat_def setStat_def update_conv)

lemma keys_differ [simp]:
  "STAMP_KEY \<noteq> SEED_PENDING_KEY" "SEED_PENDING_KEY \<noteq> STAMP_KEY" "HEAD_KEY \<noteq> STAMP_KEY" "STAMP_KEY \<noteq> HEAD_KEY"
  "HEAD_KEY \<noteq> SEED_PENDING_KEY" "SEED_PENDING_KEY \<noteq> HEAD_KEY" "STAMP_KEY \<noteq> ''last_ingest_at''"
  "SEED_PENDING_KEY \<noteq> ''last_ingest_at''" "HEAD_KEY \<noteq> ''last_ingest_at''"
  by (simp_all add: STAMP_KEY_def SEED_PENDING_KEY_def HEAD_KEY_def)

lemma own_keys [simp]:
  "k \<in> {STAMP_KEY, SEED_PENDING_KEY} \<Longrightarrow> getStat k (success_stats opts st t) = getStat k t"
  "k \<in> {STAMP_KEY, SEED_PENDING_KEY, HEAD_KEY} \<Longrightarrow> getStat k (setStat ''last_ingest_at'' x t) = getStat k t"
  by (auto simp: success_stats_def STAMP_KEY_def SEED_PENDING_KEY_def HEAD_KEY_def split: option.split)

lemma view_success: "stat_view (record_success opts st d) = stat_view d"
  by (simp add: record_success_def stat_view_def Let_def view_end recordNodeWatermark_def)

lemma view_end_disk: "stat_view (end_ingest_disk k d) = stat_view d"
  by (simp add: end_ingest_disk_def stat_view_def view_end)

lemma runIngest_view:
  assumes "runIngest opts run (k, d) = (res, st)"
  shows "viewed (stat_view d) st"
proof -
  let ?st = "drain_records opts (run_records run) (ingest_start opts (k, d))"
  have v: "viewed (stat_view d) ?st" by (intro viewed_drain viewed_start)
  have v1: "viewed (stat_view d) (flushEdges (flushNodes ?st))" using v by (intro viewed_flush)
  obtain x where x: "finish_ingest opts (flushEdges (flushNodes ?st))
      = (x, (write_disk (record_success opts (after_edges opts (flushEdges (flushNodes ?st)))) (after_edges opts (flushEdges (flushNodes ?st))))\<lparr>handle := None\<rparr>)"
    using finish_steps [of opts "flushEdges (flushNodes ?st)"] by blast
  have v2: "viewed (stat_view d) (write_disk (record_success opts (after_edges opts (flushEdges (flushNodes ?st)))) (after_edges opts (flushEdges (flushNodes ?st))))"
    using viewed_after_edges [OF v1, of opts] by (intro viewed_write) (simp_all add: viewed_def view_success)
  have v3: "viewed (stat_view d) (refuse b ?st)" for b
    using v by (auto simp: refuse_def viewed_def view_end_disk)
  show ?thesis
    using assms v v1 v2 v3 by (auto simp: runIngest_def Let_def x split: option.splits if_splits)
qed

subsection \<open>Nothing but the end reads as fresh\<close>

definition quiet :: "overlay_file \<Rightarrow> bool" where
  "quiet f \<longleftrightarrow> getStat STAMP_KEY (overlay_db f) \<in> {None, Some []} \<and> getStat SEED_PENDING_KEY (overlay_db f) \<noteq> Some ''1''"

definition quiet_slot :: "overlay_slot \<Rightarrow> bool" where
  "quiet_slot s = (case s of Overlay f \<Rightarrow> quiet f | _ \<Rightarrow> True)"

definition past_quiet :: "overlay_slot set \<Rightarrow> refresh_run \<Rightarrow> bool" where
  "past_quiet S r \<longleftrightarrow> (\<forall>s \<in> set (rr_history r). quiet_slot s \<or> s \<in> S)"

definition run_quiet :: "overlay_slot set \<Rightarrow> refresh_run \<Rightarrow> bool" where
  "run_quiet S r \<longleftrightarrow> quiet (rr_file r) \<and> past_quiet S r"

lemma quiet_view: "stat_view (of_disk f) = stat_view (of_disk g) \<Longrightarrow> quiet f = quiet g"
  by (simp add: quiet_def stat_view_def)

lemma store_frame [simp]:
  "rr_file (store g r) = g (rr_file r)" "rr_history (store g r) = rr_history r @ [Overlay (g (rr_file r))]" "rr_handle (store g r) = rr_handle r"
  by (simp_all add: store_def)

lemma store_quiet: "past_quiet S r \<Longrightarrow> quiet (g (rr_file r)) \<Longrightarrow> run_quiet S (store g r)"
  by (auto simp: run_quiet_def past_quiet_def quiet_slot_def)

lemma run_quiet_handle [simp]: "run_quiet S (r\<lparr>rr_handle := h\<rparr>) = run_quiet S r" "past_quiet S (r\<lparr>rr_handle := h\<rparr>) = past_quiet S r"
  by (simp_all add: run_quiet_def past_quiet_def)

lemma on_db_frame [simp]:
  "overlay_db (on_db g f) = g (overlay_db f)" "marker (overlay_index (on_db g f)) = marker (overlay_index f)"
  "nodes_readable (overlay_index (on_db g f)) = nodes_readable (overlay_index f)"
  "stats_readable (overlay_index (on_db g f)) = stats_readable (overlay_index f)"
  "watermark (overlay_index (on_db g f)) = watermark (overlay_index f)" "of_dirty (on_db g f) = of_dirty f"
  "of_seed_marker (on_db g f) = of_seed_marker f" "readInFlight (overlay_index (on_db g f)) = readInFlight (overlay_index f)"
  by (simp_all add: on_db_def on_tables_def readInFlight_def)

lemma set_index_frame [simp]:
  "overlay_index (set_index ix f) = ix" "of_dirty (set_index ix f) = of_dirty f" "of_seed_marker (set_index ix f) = of_seed_marker f"
  by (simp_all add: set_index_def)

lemma quiet_unstamp [simp]: "quiet (unstamp f)"
  by (simp add: quiet_def unstamp_def)

lemma quiet_on_db: "(\<And>t. stats_t (g t) = stats_t t) \<Longrightarrow> quiet (on_db g f) = quiet f"
  by (simp add: quiet_def getStat_def)

lemma stats_reresolve [simp]: "stats_t (snd (reresolveAllEdges ws now d)) = stats_t d"
proof -
  have "stats_t (fold (rewrite_edge now) rs d) = stats_t d" for rs
    by (induction rs arbitrary: d) (simp_all add: rewrite_edge_def upsertEdge_def split: prod.split)
  then show ?thesis by (simp add: reresolve_alt)
qed

lemma begin_refresh_quiet: "past_quiet S r \<Longrightarrow> run_quiet S (begin_refresh en r)"
  by (auto simp: begin_refresh_def intro!: store_quiet split: prod.split)

lemma purge_quiet: "run_quiet S r \<Longrightarrow> run_quiet S (fold purge_file ps r)"
proof (induction ps arbitrary: r)
  case (Cons p ps)
  have "run_quiet S (purge_file p r)"
    unfolding purge_file_def using Cons.prems by (intro store_quiet) (simp_all add: run_quiet_def quiet_on_db)
  with Cons.IH show ?case by simp
qed simp

lemma ingest_into_quiet:
  assumes "run_quiet S r" "ingest_into opts run r = (res, r')"
  shows "run_quiet S r'"
proof -
  obtain st where run: "runIngest opts run (rr_handle r, of_disk (rr_file r)) = (res, st)"
    and r': "r' = \<lparr>rr_file = (rr_file r)\<lparr>of_disk := disk st\<rparr>, rr_handle = handle st,
      rr_history = rr_history r @ map (\<lambda>d. Overlay ((rr_file r)\<lparr>of_disk := d\<rparr>)) (history st)\<rparr>"
    using assms(2) by (auto simp: ingest_into_def split: prod.splits)
  have "viewed (stat_view (of_disk (rr_file r))) st" using runIngest_view [OF run] by simp
  then have "quiet ((rr_file r)\<lparr>of_disk := d\<rparr>)" if "d = disk st \<or> d \<in> set (history st)" for d
    using that assms(1) quiet_view [of "(rr_file r)\<lparr>of_disk := d\<rparr>" "rr_file r"] by (auto simp: viewed_def run_quiet_def)
  with assms(1) show ?thesis by (auto simp: r' run_quiet_def past_quiet_def quiet_slot_def)
qed

lemma settle_quiet: "run_quiet S r \<Longrightarrow> run_quiet S (settle_purge en r)"
  by (auto simp: settle_purge_def Let_def run_quiet_def [of S r] quiet_def view_end recordNodeWatermark_def prod.case_eq_if intro!: store_quiet)

lemma reresolve_quiet: "run_quiet S r \<Longrightarrow> run_quiet S (reresolve en r)"
  by (auto simp: reresolve_def run_quiet_def [of S r] quiet_on_db intro!: store_quiet split: option.split)

lemma incremental_quiet:
  assumes "past_quiet S r" "incremental en plan r = (res, r')"
  shows "run_quiet S r'"
proof -
  obtain changed deleted where plan: "plan = (changed, deleted)" by (cases plan)
  let ?r1 = "fold purge_file (deleted @ changed) (begin_refresh en r)"
  have r1: "run_quiet S ?r1" by (intro purge_quiet begin_refresh_quiet assms(1))
  show ?thesis
  proof (cases "changed = []")
    case True
    with assms(2) settle_quiet [OF r1, of en] reresolve_quiet [OF settle_quiet [OF r1, of en], of en] show ?thesis
      by (auto simp: incremental_def incremental_from_def plan Let_def split: if_splits)
  next
    case False
    obtain x r2 where x: "ingest_into ((rf_files_opts en)\<lparr>io_fullRebuild := False, io_clearBeforeIngest := False\<rparr>) (rf_files_run en changed) ?r1 = (x, r2)"
      by (cases "ingest_into ((rf_files_opts en)\<lparr>io_fullRebuild := False, io_clearBeforeIngest := False\<rparr>) (rf_files_run en changed) ?r1")
    have "run_quiet S r2" by (rule ingest_into_quiet [OF r1 x])
    with assms(2) False x reresolve_quiet [of S r2 en] show ?thesis
      by (auto simp: incremental_def incremental_from_def plan Let_def split: sum.splits if_splits)
  qed
qed

lemma full_quiet:
  assumes "past_quiet S r" "full_parse en r = (res, r')"
  shows "run_quiet S r'"
proof -
  have "run_quiet S (store unstamp r)" using assms(1) by (intro store_quiet) simp_all
  with assms(2) ingest_into_quiet show ?thesis by (fastforce simp: full_parse_def split: prod.splits sum.splits)
qed

definition seeds :: "refresh_env \<Rightarrow> overlay_slot set" where
  "seeds en = {Overlay f |f. seedFromMain en = Inr (Some f)}"

lemma reseed_seeds: "reseed en b = Inr b' \<Longrightarrow> b' = b \<or> rb_seeded b' \<and> rb_slot b' \<in> seeds en \<and> (\<exists>f. rb_slot b' = Overlay f \<and> rb_state b' = Some (state_of f))"
  by (auto simp: reseed_def sbind_eq_Inr_iff seeds_def split: option.splits)

lemma choose_plan_base:
  assumes "choose_plan en fp full b0 = Inr (plan, b)"
  shows "b = b0 \<or> rb_seeded b \<and> rb_slot b \<in> seeds en \<and> (\<exists>f. rb_slot b = Overlay f \<and> rb_state b = Some (state_of f))"
  using assms reseed_seeds [of en]
  by (auto simp: planning sbind_eq_Inr_iff Let_def split: if_splits)

lemma open_run_past:
  assumes "rb_seeded b \<longrightarrow> rb_slot b \<in> S"
  shows "past_quiet S (open_run plan b)"
proof -
  have "quiet empty_overlay" by (simp add: quiet_def empty_overlay_def db_new_def getStat_def)
  then show ?thesis
    using assms
    by (auto simp: open_run_def Let_def past_quiet_def quiet_slot_def openWritable_def discard_broken_def
        split: overlay_slot.splits option.splits if_splits)
qed

lemma quiet_state:
  assumes "quiet f"
  shows "os_stamp (state_of f) = None" "\<not> os_seedPending (state_of f)"
  using assms by (auto simp: quiet_def state_of_def unhealthy_def Let_def split: option.splits)

lemma seed_state:
  assumes "s \<in> seeds en"
  shows "\<exists>f. s = Overlay f \<and> os_stamp (state_of f) = None"
proof -
  obtain dirty d where "s = Overlay (seed_file dirty d)"
    using assms by (auto simp: seeds_def seedFromMain_def split: option.splits if_splits ingest_dirty.splits prod.splits)
  then show ?thesis by (auto simp: state_of_def unhealthy_def seed_file_def Let_def split: option.split)
qed

lemma run_plan_quiet:
  assumes "rb_seeded b \<longrightarrow> rb_slot b \<in> S" "run_plan en fp plan b = (res, r)"
  shows "\<exists>h. (\<forall>s \<in> set h. quiet_slot s \<or> s \<in> S)
    \<and> (case res of Inl _ \<Rightarrow> rr_history r = h | Inr _ \<Rightarrow> \<exists>f. rr_history r = h @ [Overlay (writeStamp fp f)])"
proof -
  note p = open_run_past [OF assms(1), of plan]
  have full: "\<exists>h. (\<forall>s \<in> set h. quiet_slot s \<or> s \<in> S)
      \<and> (case res of Inl _ \<Rightarrow> rr_history r = h | Inr _ \<Rightarrow> \<exists>f. rr_history r = h @ [Overlay (writeStamp fp f)])"
    if "past_quiet S r0" "full_then_finish en fp b r0 = (res, r)" for r0
  proof -
    obtain x r1 where x: "full_parse en r0 = (x, r1)" by (cases "full_parse en r0")
    have "run_quiet S r1" by (rule full_quiet [OF that(1) x])
    with that(2) x show ?thesis
      by (intro exI [of _ "rr_history r1"]) (auto simp: full_then_finish_def finish_refresh_def Let_def run_quiet_def past_quiet_def split: sum.splits)
  qed
  show ?thesis
  proof (cases plan)
    case None
    with assms(2) full [OF p] show ?thesis by (simp add: run_plan_def Let_def)
  next
    case (Some cs)
    obtain x r1 where x: "incremental en cs (open_run plan b) = (x, r1)" by (cases "incremental en cs (open_run plan b)")
    have q: "run_quiet S r1" by (rule incremental_quiet [OF p x])
    show ?thesis
    proof (cases x)
      case (Inl e)
      with assms(2) Some x q show ?thesis by (intro exI [of _ "rr_history r1"]) (auto simp: run_plan_def run_quiet_def past_quiet_def)
    next
      case (Inr none_accepted)
      show ?thesis
      proof (cases none_accepted)
        case True
        with assms(2) Some x Inr have "full_then_finish en fp b r1 = (res, r)" by (simp add: run_plan_def)
        with q show ?thesis by (intro full) (simp_all add: run_quiet_def)
      next
        case False
        with assms(2) Some x Inr q show ?thesis
          by (intro exI [of _ "rr_history r1"]) (auto simp: run_plan_def finish_refresh_def Let_def run_quiet_def past_quiet_def)
      qed
    qed
  qed
qed

text \<open>C36: a refresh may die at any moment. No state that it leaves before its last one reads as fresh, for
  any fingerprint, and none is taken for a seed that awaits its first reconciliation but a seed
  itself. The last state of a refresh that succeeds carries the fingerprint of the worktree as it
  was when the refresh began.
\<close>

theorem never_falsely_fresh:
  assumes "refreshOverlay en full force slot = (res, states)"
  shows "\<exists>early. (\<forall>s \<in> set early. \<forall>st. readOverlayState s = Inr (Some st) \<longrightarrow> os_stamp st = None
          \<and> (os_seedPending st \<longrightarrow> s \<in> seeds en))
    \<and> (case res of
        Inl _ \<Rightarrow> states = early
      | Inr out \<Rightarrow> if ro_action out = AlreadyFresh then states = [] \<and> early = []
          else (\<exists>f fp. states = early @ [Overlay f] \<and> rf_fingerprint en = Some fp \<and> getStat STAMP_KEY (overlay_db f) = Some (fp_hash fp)
            \<and> (\<forall>h. fp_head fp = Some h \<longrightarrow> getStat HEAD_KEY (overlay_db f) = Some h) \<and> dirty_paths (of_dirty f) = fp_dirty fp))"
proof -
  have early: "readOverlayState s = Inr (Some st) \<Longrightarrow> os_stamp st = None \<and> (os_seedPending st \<longrightarrow> s \<in> seeds en)"
    if "quiet_slot s \<or> s \<in> seeds en" for s st
    using that quiet_state seed_state [of s en]
    by (auto simp: readOverlayState_def quiet_slot_def unhealthy_def split: overlay_slot.splits)
  show ?thesis
  proof (cases "rf_fingerprint en")
    case None
    with assms show ?thesis by (auto simp: refreshOverlay_def)
  next
    case (Some fp)
    show ?thesis
    proof (cases "readOverlayState slot")
      case (Inl e)
      with assms Some show ?thesis by (auto simp: refreshOverlay_def)
    next
      case (Inr state)
      show ?thesis
      proof (cases "\<not> full \<and> \<not> force \<and> is_fresh fp state")
        case True
        with assms Some Inr show ?thesis by (auto simp: refreshOverlay_def)
      next
        case False
        let ?b0 = "\<lparr>rb_seeded = False, rb_slot = slot, rb_state = state\<rparr>"
        show ?thesis
        proof (cases "choose_plan en fp full ?b0")
          case (Inl e)
          with assms Some Inr False show ?thesis by (auto simp: refreshOverlay_def)
        next
          case c: (Inr p)
          obtain plan b where p: "p = (plan, b)" by (cases p)
          obtain r where run: "run_plan en fp plan b = (res, r)" and states: "states = rr_history r"
            using assms Some Inr False c p by (auto simp: refreshOverlay_def split: prod.splits)
          have "rb_seeded b \<longrightarrow> rb_slot b \<in> seeds en"
            using choose_plan_base [OF c [unfolded p]] by auto
          from run_plan_quiet [OF this run] obtain h where h: "\<forall>s \<in> set h. quiet_slot s \<or> s \<in> seeds en"
            "case res of Inl _ \<Rightarrow> rr_history r = h | Inr _ \<Rightarrow> \<exists>f. rr_history r = h @ [Overlay (writeStamp fp f)]" by blast
          have act: "ro_action out \<noteq> AlreadyFresh" if "res = Inr out" for out
            using that run by (auto simp: run_plan_def full_then_finish_def finish_refresh_def Let_def split: option.splits prod.splits sum.splits bool.splits if_splits)
          have w: "getStat STAMP_KEY (overlay_db (writeStamp fp f)) = Some (fp_hash fp)"
            "fp_head fp = Some k \<Longrightarrow> getStat HEAD_KEY (overlay_db (writeStamp fp f)) = Some k"
            "dirty_paths (of_dirty (writeStamp fp f)) = fp_dirty fp" for f k
            by (simp_all add: writeStamp_def dirty_paths_def)
          have "\<forall>s \<in> set h. \<forall>st. readOverlayState s = Inr (Some st) \<longrightarrow> os_stamp st = None \<and> (os_seedPending st \<longrightarrow> s \<in> seeds en)"
            using h(1) early by blast
          with h(2) act w states Some show ?thesis
            by (intro exI [of _ h]) (auto split: sum.splits)
        qed
      qed
    qed
  qed
qed

subsection \<open>A refresh declares what it does\<close>

lemma ingest_guarded:
  assumes "runIngest opts run (k, d0) = (res, st)" "t = own_token (io_minted opts) k"
  shows "case res of
      Inl e \<Rightarrow> k \<noteq> None \<longrightarrow> guarded opts t (dk_index d0) st
    | Inr _ \<Rightarrow> \<exists>s. guarded opts t (dk_index d0) s \<and> st = (write_disk (record_success opts s) s)\<lparr>handle := None\<rparr>"
proof -
  let ?st = "drain_records opts (run_records run) (ingest_start opts (k, d0))"
  have g: "guarded opts t (dk_index d0) ?st" unfolding assms(2) by (intro guarded_drain guarded_start)
  have g1: "guarded opts t (dk_index d0) (flushEdges (flushNodes ?st))" by (intro guarded_flush g)
  obtain x where x: "finish_ingest opts (flushEdges (flushNodes ?st))
      = (Inr x, (write_disk (record_success opts (after_edges opts (flushEdges (flushNodes ?st)))) (after_edges opts (flushEdges (flushNodes ?st))))\<lparr>handle := None\<rparr>)"
    using finish_steps [of opts "flushEdges (flushNodes ?st)"] by blast
  have g2: "guarded opts t (dk_index d0) (after_edges opts (flushEdges (flushNodes ?st)))" by (rule after_edges_kept [OF g1])
  have r: "refuse True ?st = ?st" by (simp add: refuse_def)
  show ?thesis
  proof (cases "abortReason ?st")
    case (Some why)
    with assms(1) g r show ?thesis by (auto simp: runIngest_def Let_def hasDeclaredIngest_def)
  next
    case None
    show ?thesis
    proof (cases "run_throws run \<or> run_exit run \<noteq> 0")
      case True
      with assms(1) None g g1 show ?thesis by (auto simp: runIngest_def Let_def split: if_splits)
    next
      case False
      with assms(1) None x have "res = Inr x" "st = (write_disk (record_success opts (after_edges opts (flushEdges (flushNodes ?st))))
          (after_edges opts (flushEdges (flushNodes ?st))))\<lparr>handle := None\<rparr>"
        by (auto simp: runIngest_def Let_def)
      with g2 show ?thesis by auto
    qed
  qed
qed

definition declaring :: "string \<Rightarrow> overlay_slot \<Rightarrow> bool" where
  "declaring t s = (case s of Overlay f \<Rightarrow> flagged t (overlay_index f) | _ \<Rightarrow> False)"

lemma declaring_untrusted: "declaring t s \<Longrightarrow> \<exists>f. s = Overlay f \<and> untrusted (overlay_index f)"
  by (auto simp: declaring_def flagged_untrusted split: overlay_slot.splits)

lemma flagged_on_db [simp]: "flagged x (overlay_index (on_db g f)) = flagged x (overlay_index f)"
  by (simp add: flagged_def)

lemma begin_refresh_facts:
  assumes "rr_handle r = None"
  shows "rr_handle (begin_refresh en r) = Some (rf_minted en)"
    and "\<exists>f. rr_file (begin_refresh en r) = f \<and> rr_history (begin_refresh en r) = rr_history r @ [Overlay f]
      \<and> (\<forall>x. flagged x (overlay_index f) \<longleftrightarrow> x = rf_minted en \<or> flagged x (overlay_index (rr_file r)) \<and> \<not> isAdoptableToken x)
      \<and> nodes_t (overlay_db f) = nodes_t (overlay_db (rr_file r)) \<and> watermark (overlay_index f) = watermark (overlay_index (rr_file r))
      \<and> nodes_readable (overlay_index f) = nodes_readable (overlay_index (rr_file r))
      \<and> stats_readable (overlay_index f) = stats_readable (overlay_index (rr_file r))"
proof -
  obtain u tok ix where b: "beginIngest (rf_minted en) (rf_begun en) (None, overlay_index (rr_file r)) = (u, tok, ix)"
    by (cases "beginIngest (rf_minted en) (rf_begun en) (None, overlay_index (rr_file r))")
  note f = flagged_begin [OF b] view_begin [OF b]
  show "rr_handle (begin_refresh en r) = Some (rf_minted en)"
    using assms b f(1) by (simp add: begin_refresh_def own_token_def)
  show "\<exists>f. rr_file (begin_refresh en r) = f \<and> rr_history (begin_refresh en r) = rr_history r @ [Overlay f]
      \<and> (\<forall>x. flagged x (overlay_index f) \<longleftrightarrow> x = rf_minted en \<or> flagged x (overlay_index (rr_file r)) \<and> \<not> isAdoptableToken x)
      \<and> nodes_t (overlay_db f) = nodes_t (overlay_db (rr_file r)) \<and> watermark (overlay_index f) = watermark (overlay_index (rr_file r))
      \<and> nodes_readable (overlay_index f) = nodes_readable (overlay_index (rr_file r))
      \<and> stats_readable (overlay_index f) = stats_readable (overlay_index (rr_file r))"
    using assms b f by (simp add: begin_refresh_def unstamp_def own_token_def setStat_def)
qed

text \<open>Purging takes away the rows of the files, keeps everything else, and touches no declaration.\<close>

lemma purge_facts:
  "\<exists>h. rr_history (fold purge_file ps r) = rr_history r @ h
    \<and> (\<forall>t. declaring t (Overlay (rr_file r)) \<longrightarrow> (\<forall>s \<in> set h. declaring t s))
    \<and> rr_handle (fold purge_file ps r) = rr_handle r
    \<and> (\<forall>x. flagged x (overlay_index (rr_file (fold purge_file ps r))) = flagged x (overlay_index (rr_file r)))
    \<and> nodes_t (overlay_db (rr_file (fold purge_file ps r))) = filter (\<lambda>n. nr_file n \<notin> Some ` set ps) (nodes_t (overlay_db (rr_file r)))
    \<and> watermark (overlay_index (rr_file (fold purge_file ps r))) = watermark (overlay_index (rr_file r))
    \<and> nodes_readable (overlay_index (rr_file (fold purge_file ps r))) = nodes_readable (overlay_index (rr_file r))
    \<and> stats_readable (overlay_index (rr_file (fold purge_file ps r))) = stats_readable (overlay_index (rr_file r))"
proof (induction ps arbitrary: r)
  case Nil
  then show ?case by simp
next
  case (Cons p ps)
  let ?r = "purge_file p r"
  obtain h where h: "rr_history (fold purge_file ps ?r) = rr_history ?r @ h"
    "\<forall>t. declaring t (Overlay (rr_file ?r)) \<longrightarrow> (\<forall>s \<in> set h. declaring t s)"
    "rr_handle (fold purge_file ps ?r) = rr_handle ?r"
    "\<forall>x. flagged x (overlay_index (rr_file (fold purge_file ps ?r))) = flagged x (overlay_index (rr_file ?r))"
    "nodes_t (overlay_db (rr_file (fold purge_file ps ?r))) = filter (\<lambda>n. nr_file n \<notin> Some ` set ps) (nodes_t (overlay_db (rr_file ?r)))"
    "watermark (overlay_index (rr_file (fold purge_file ps ?r))) = watermark (overlay_index (rr_file ?r))"
    "nodes_readable (overlay_index (rr_file (fold purge_file ps ?r))) = nodes_readable (overlay_index (rr_file ?r))"
    "stats_readable (overlay_index (rr_file (fold purge_file ps ?r))) = stats_readable (overlay_index (rr_file ?r))"
    using Cons [of ?r] by blast
  have n: "nodes_t (overlay_db (rr_file ?r)) = filter (\<lambda>n. nr_file n \<noteq> Some p) (nodes_t (overlay_db (rr_file r)))"
    by (simp add: purge_file_def)
  have r: "rr_history ?r = rr_history r @ [Overlay (rr_file ?r)]" "rr_handle ?r = rr_handle r"
    "\<And>x. flagged x (overlay_index (rr_file ?r)) = flagged x (overlay_index (rr_file r))"
    "watermark (overlay_index (rr_file ?r)) = watermark (overlay_index (rr_file r))"
    "nodes_readable (overlay_index (rr_file ?r)) = nodes_readable (overlay_index (rr_file r))"
    "stats_readable (overlay_index (rr_file ?r)) = stats_readable (overlay_index (rr_file r))"
    by (simp_all add: purge_file_def)
  have "filter (\<lambda>n. nr_file n \<notin> Some ` set ps) (filter (\<lambda>n. nr_file n \<noteq> Some p) (nodes_t (overlay_db (rr_file r))))
      = filter (\<lambda>n. nr_file n \<notin> Some ` set (p # ps)) (nodes_t (overlay_db (rr_file r)))"
    by (auto intro: filter_cong)
  with h n r show ?case by (intro exI [of _ "Overlay (rr_file ?r) # h"]) (auto simp: declaring_def)
qed

lemma reresolve_history: "\<exists>w. rr_history (reresolve en q) = rr_history q @ w \<and> length w \<le> 1"
  by (auto simp: reresolve_def split: option.split)

lemma settle_history: "\<exists>s. rr_history (settle_purge en q) = rr_history q @ [s]"
  by (auto simp: settle_purge_def Let_def split: prod.split)

text \<open>
  From the write that begins an incremental refresh to the write by which its ingest succeeds, the
  overlay declares the refresh: whoever opens it, and whatever a crash leaves, is told that the
  graph is half-written. A refresh that fails leaves it so.
\<close>

theorem refresh_declared:
  assumes "incremental en plan r = (res, r')" "rr_handle r = None"
  shows "\<exists>h whole. rr_history r' = rr_history r @ h @ whole
    \<and> (\<forall>s \<in> set h. \<exists>f. s = Overlay f \<and> untrusted (overlay_index f))
    \<and> (case res of Inl _ \<Rightarrow> whole = [] | Inr _ \<Rightarrow> whole \<noteq> [] \<and> length whole \<le> 2)"
proof -
  obtain changed deleted where plan: "plan = (changed, deleted)" by (cases plan)
  let ?t = "rf_minted en"
  let ?r0 = "begin_refresh en r" let ?r1 = "fold purge_file (deleted @ changed) ?r0"
  note b = begin_refresh_facts [OF assms(2), of en]
  have d0: "rr_history ?r0 = rr_history r @ [Overlay (rr_file ?r0)]" "declaring ?t (Overlay (rr_file ?r0))"
    using b(2) by (auto simp: declaring_def)
  obtain h where h: "rr_history ?r1 = rr_history ?r0 @ h" "\<forall>s \<in> set h. declaring ?t s" "rr_handle ?r1 = Some ?t"
    "flagged ?t (overlay_index (rr_file ?r1))"
    using purge_facts [of "deleted @ changed" ?r0] d0(2) b(1) by (auto simp: declaring_def)
  have u: "\<forall>s \<in> set (Overlay (rr_file ?r0) # h). \<exists>f. s = Overlay f \<and> untrusted (overlay_index f)"
    using d0(2) h(2) declaring_untrusted by auto
  show ?thesis
  proof (cases "changed = []")
    case True
    then have "r' = settle_purge en ?r1 \<or> r' = reresolve en (settle_purge en ?r1)" "\<exists>x. res = Inr x"
      using assms(1) by (auto simp: incremental_def incremental_from_def plan Let_def split: if_splits)
    moreover obtain s where s: "rr_history (settle_purge en ?r1) = rr_history ?r1 @ [s]" using settle_history by blast
    moreover obtain w where "rr_history (reresolve en (settle_purge en ?r1)) = rr_history (settle_purge en ?r1) @ w" "length w \<le> 1"
      using reresolve_history by blast
    ultimately have "\<exists>whole. rr_history r' = rr_history ?r1 @ whole \<and> whole \<noteq> [] \<and> length whole \<le> 2" "\<exists>x. res = Inr x"
      by (auto intro: exI [of _ "[s]"] exI [of _ "s # w"])
    then obtain whole where "rr_history r' = rr_history ?r1 @ whole" "whole \<noteq> []" "length whole \<le> 2" "\<exists>x. res = Inr x" by blast
    with d0(1) h(1) u show ?thesis
      by (intro exI [of _ "Overlay (rr_file ?r0) # h"] exI [of _ whole]) auto
  next
    case False
    let ?opts = "(rf_files_opts en)\<lparr>io_fullRebuild := False, io_clearBeforeIngest := False\<rparr>"
    let ?d = "of_disk (rr_file ?r1)"
    obtain x st where run: "runIngest ?opts (rf_files_run en changed) (Some ?t, ?d) = (x, st)"
      by (cases "runIngest ?opts (rf_files_run en changed) (Some ?t, ?d)")
    let ?slot = "\<lambda>d. Overlay ((rr_file ?r1)\<lparr>of_disk := d\<rparr>)"
    let ?r2 = "\<lparr>rr_file = (rr_file ?r1)\<lparr>of_disk := disk st\<rparr>, rr_handle = handle st, rr_history = rr_history ?r1 @ map ?slot (history st)\<rparr>"
    have into: "ingest_into ?opts (rf_files_run en changed) ?r1 = (x, ?r2)"
      using run h(3) by (simp add: ingest_into_def)
    note g = ingest_guarded [OF run refl]
    have un: "\<forall>s \<in> set (map ?slot (history s0)). \<exists>f. s = Overlay f \<and> untrusted (overlay_index f)"
      if "guarded ?opts t ix s0" for s0 t ix
      using that by (auto simp: guarded_def declared_def intro: flagged_untrusted)
    show ?thesis
    proof (cases x)
      case (Inl e)
      with assms(1) False into have "res = Inl (IngestFailed e)" "r' = ?r2" by (auto simp: incremental_def incremental_from_def plan Let_def)
      moreover have "\<forall>s \<in> set (map ?slot (history st)). \<exists>f. s = Overlay f \<and> untrusted (overlay_index f)"
        using g Inl un by auto
      ultimately show ?thesis
        using d0(1) h(1) u by (intro exI [of _ "Overlay (rr_file ?r0) # h @ map ?slot (history st)"] exI [of _ "[]"]) auto
    next
      case (Inr out)
      then obtain s0 where s0: "guarded ?opts (own_token (io_minted ?opts) (Some ?t)) (dk_index ?d) s0"
        "st = (write_disk (record_success ?opts s0) s0)\<lparr>handle := None\<rparr>" using g by auto
      have hist: "history st = history s0 @ [disk st]" using s0(2) by simp
      have "res = Inr (ir_filesTotal out = 0)" "r' = (if ir_filesTotal out = 0 then ?r2 else reresolve en ?r2)"
        using assms(1) False into Inr by (auto simp: incremental_def incremental_from_def plan Let_def split: if_splits)
      moreover obtain w where "rr_history (reresolve en ?r2) = rr_history ?r2 @ w" "length w \<le> 1" using reresolve_history by blast
      ultimately have "\<exists>whole. rr_history r' = rr_history ?r1 @ map ?slot (history s0) @ whole \<and> whole \<noteq> [] \<and> length whole \<le> 2"
        using hist by (cases "ir_filesTotal out = 0") (auto intro: exI [of _ "[?slot (disk st)]"] exI [of _ "?slot (disk st) # w"])
      then obtain whole where "rr_history r' = rr_history ?r1 @ map ?slot (history s0) @ whole" "whole \<noteq> []" "length whole \<le> 2" by blast
      with d0(1) h(1) u un [OF s0(1)] \<open>res = _\<close> show ?thesis
        by (intro exI [of _ "Overlay (rr_file ?r0) # h @ map ?slot (history s0)"] exI [of _ whole]) auto
    qed
  qed
qed

subsection \<open>A refresh that succeeds settles\<close>

text \<open>A base has no declaration but one that the refresh takes over, and can be read.\<close>

definition calm :: "overlay_file \<Rightarrow> bool" where
  "calm f \<longleftrightarrow> nodes_readable (overlay_index f) \<and> stats_readable (overlay_index f)
     \<and> (\<forall>x. flagged x (overlay_index f) \<longrightarrow> isAdoptableToken x)"

definition settled :: "overlay_file \<Rightarrow> bool" where
  "settled f \<longleftrightarrow> nodes_readable (overlay_index f) \<and> stats_readable (overlay_index f) \<and> readInFlight (overlay_index f) = []"

lemma flagged_none: "(\<forall>x. \<not> flagged x ix) \<longleftrightarrow> readInFlight ix = []"
  by (cases "readInFlight ix") (auto simp: flagged_def)

lemma settled_calm: "settled f \<Longrightarrow> calm f"
  by (auto simp: settled_def calm_def flagged_def)

lemma sound_state_calm:
  assumes "os_integrityOk (state_of f) \<or> os_seedPending (state_of f)"
  shows "calm f"
proof -
  let ?ix = "overlay_index f"
  obtain i where i: "readIndexIntegrity ?ix = Some i" and rd: "nodes_readable ?ix" "stats_readable ?ix"
    using assms by (auto simp: state_of_def unhealthy_def Let_def split: option.splits if_splits)
  have "readInFlight ?ix = [] \<or> marker ?ix = Some Unparseable"
    using assms i rd by (auto simp: state_of_def readIndexIntegrity_def Let_def split: if_splits option.splits)
  moreover have "readInFlight ?ix = [malformed_entry]" if "marker ?ix = Some Unparseable"
    using that by (simp add: readInFlight_def parseInFlight_def)
  ultimately show ?thesis
    using rd by (auto simp: calm_def flagged_def malformed_entry_def isAdoptableToken_def)
qed

lemma settled_on_db [simp]: "settled (on_db g f) = settled f" "calm (on_db g f) = calm f"
  by (simp_all add: settled_def calm_def)

lemma success_settles:
  assumes "runIngest opts run (k, of_disk f) = (Inr out, st)" "k = None \<or> k = Some t"
    and "\<And>x. flagged x (overlay_index f) \<Longrightarrow> isAdoptableToken x \<or> k = Some x"
    and "nodes_readable (overlay_index f)" "stats_readable (overlay_index f)"
  shows "settled (f\<lparr>of_disk := disk st\<rparr>)" "handle st = None"
    and "io_fullRebuild opts \<Longrightarrow> watermark (dk_index (disk st)) = Some (Some (int (length (nodes_t (tables (dk_index (disk st)))))))"
proof -
  let ?t = "own_token (io_minted opts) k"
  obtain s where s: "guarded opts ?t (overlay_index f) s" "st = (write_disk (record_success opts s) s)\<lparr>handle := None\<rparr>"
    using ingest_guarded [OF assms(1) refl] by auto
  show "handle st = None" by (simp add: s(2))
  have "\<not> flagged x (dk_index (disk st))" for x
    using s assms(2) assms(3) [of x] by (auto simp: flagged_success guarded_def declared_def own_token_def)
  then have "readInFlight (dk_index (disk st)) = []" by (simp flip: flagged_none)
  moreover have "stat_view (disk st) = stat_view (of_disk f)" using runIngest_view [OF assms(1)] by (simp add: viewed_def)
  ultimately show "settled (f\<lparr>of_disk := disk st\<rparr>)" using assms(4,5) by (simp add: settled_def stat_view_def)
  show "watermark (dk_index (disk st)) = Some (Some (int (length (nodes_t (tables (dk_index (disk st)))))))" if "io_fullRebuild opts"
    using that by (simp add: s(2) record_success_def Let_def view_end recordNodeWatermark_def)
qed

lemma incremental_settles:
  assumes "incremental en plan r = (Inr none_accepted, r')" "rr_handle r = None" "calm (rr_file r)"
  shows "settled (rr_file r') \<and> rr_handle r' = None"
proof -
  obtain changed deleted where plan: "plan = (changed, deleted)" by (cases plan)
  let ?t = "rf_minted en"
  let ?r0 = "begin_refresh en r" let ?r1 = "fold purge_file (deleted @ changed) ?r0"
  note b = begin_refresh_facts [OF assms(2), of en]
  have h: "rr_handle ?r1 = Some ?t" "\<forall>x. flagged x (overlay_index (rr_file ?r1)) = flagged x (overlay_index (rr_file ?r0))"
    "nodes_readable (overlay_index (rr_file ?r1)) = nodes_readable (overlay_index (rr_file ?r0))"
    "stats_readable (overlay_index (rr_file ?r1)) = stats_readable (overlay_index (rr_file ?r0))"
    using purge_facts [of "deleted @ changed" ?r0] b(1) by auto
  have own: "flagged x (overlay_index (rr_file ?r1)) \<longleftrightarrow> x = ?t" for x
    using h(2) b(2) assms(3) by (auto simp: calm_def)
  have rd: "nodes_readable (overlay_index (rr_file ?r1))" "stats_readable (overlay_index (rr_file ?r1))"
    using h(3,4) b(2) assms(3) by (auto simp: calm_def)
  have re: "settled (rr_file (reresolve en q)) = settled (rr_file q)" "rr_handle (reresolve en q) = rr_handle q" for q
    by (simp_all add: reresolve_def split: option.split)
  show ?thesis
  proof (cases "changed = []")
    case True
    let ?ix = "overlay_index (rr_file ?r1)"
    let ?ix1 = "?ix\<lparr>tables := setStat ''last_ingest_at'' (int_dec (rf_ended en)) (tables ?ix)\<rparr>"
    let ?ix2 = "recordNodeWatermark (int (length (nodes_t (tables ?ix1)))) False ?ix1"
    obtain ix3 where e: "endIngest (Some ?t, ?ix2) = (None, ix3)"
      by (cases "endIngest (Some ?t, ?ix2)") (auto simp: endIngest_def)
    have "\<not> flagged x ix3" for x using flagged_end(2) [OF e, of x] own by auto
    then have "readInFlight ix3 = []" by (simp flip: flagged_none)
    moreover have "nodes_readable ix3" "stats_readable ix3"
      using e rd view_end(2,3) [of "Some ?t" ?ix2] by (auto simp: recordNodeWatermark_def)
    ultimately have "settled (rr_file (settle_purge en ?r1)) \<and> rr_handle (settle_purge en ?r1) = None"
      using e h(1) by (simp add: settle_purge_def Let_def settled_def)
    with True assms(1) re show ?thesis by (auto simp: incremental_def incremental_from_def plan Let_def split: if_splits)
  next
    case False
    let ?opts = "(rf_files_opts en)\<lparr>io_fullRebuild := False, io_clearBeforeIngest := False\<rparr>"
    obtain x st where run: "runIngest ?opts (rf_files_run en changed) (Some ?t, of_disk (rr_file ?r1)) = (x, st)"
      by (cases "runIngest ?opts (rf_files_run en changed) (Some ?t, of_disk (rr_file ?r1))")
    obtain out where x: "x = Inr out" using assms(1) False run h(1) by (cases x) (auto simp: incremental_def incremental_from_def plan Let_def ingest_into_def)
    have "settled ((rr_file ?r1)\<lparr>of_disk := disk st\<rparr>)" "handle st = None"
      using success_settles [OF run [unfolded x], of ?t] own rd by auto
    with False assms(1) run h(1) x re show ?thesis
      by (auto simp: incremental_def incremental_from_def plan Let_def ingest_into_def split: if_splits)
  qed
qed

lemma full_settles:
  assumes "full_parse en r = (Inr u, r')" "rr_handle r = None" "calm (rr_file r)"
  shows "settled (rr_file r') \<and> watermark (overlay_index (rr_file r')) = Some (Some (int (length (nodes_t (overlay_db (rr_file r'))))))"
proof -
  let ?opts = "(rf_full_opts en)\<lparr>io_fullRebuild := True, io_clearBeforeIngest := True\<rparr>" let ?r = "store unstamp r"
  obtain x st where run: "runIngest ?opts (rf_full_run en) (None, of_disk (rr_file ?r)) = (x, st)"
    by (cases "runIngest ?opts (rf_full_run en) (None, of_disk (rr_file ?r))")
  obtain out where x: "x = Inr out" using assms(1,2) run by (cases x) (auto simp: full_parse_def ingest_into_def)
  have c: "calm (rr_file ?r)" using assms(3) by (simp add: unstamp_def)
  have r': "rr_file r' = (rr_file ?r)\<lparr>of_disk := disk st\<rparr>"
    using assms(1,2) run x by (auto simp: full_parse_def ingest_into_def)
  show ?thesis
    using success_settles [OF run [unfolded x]] c unfolding r' calm_def by simp
qed

lemma open_calm:
  assumes "\<And>st. rb_state b = Some st \<Longrightarrow> (\<exists>f. rb_slot b = Overlay f \<and> st = state_of f) \<or> st = unhealthy"
    and "rb_state b = None \<Longrightarrow> rb_slot b = NoOverlay" "plan \<noteq> None \<Longrightarrow> usable (rb_state b)"
  shows "calm (rr_file (open_run plan b))" "rr_handle (open_run plan b) = None"
proof -
  have e: "calm empty_overlay" by (simp add: calm_def empty_overlay_def flagged_def readInFlight_def parseInFlight_def)
  have f: "rr_file (open_run plan b) = openWritable (discard_broken plan b)" "rr_handle (open_run plan b) = None"
    by (simp_all add: open_run_def Let_def)
  show "rr_handle (open_run plan b) = None" by (rule f(2))
  show "calm (rr_file (open_run plan b))"
    unfolding f(1)
  proof (cases "rb_state b")
    case None
    with assms(2) e show "calm (openWritable (discard_broken plan b))" by (simp add: discard_broken_def openWritable_def)
  next
    case (Some st)
    show "calm (openWritable (discard_broken plan b))"
    proof (cases "os_integrityOk st \<or> os_seedPending st")
      case True
      then obtain g where "rb_slot b = Overlay g" "st = state_of g" using assms(1) [OF Some] by (auto simp: unhealthy_def)
      with True Some sound_state_calm [of g] show ?thesis by (auto simp: discard_broken_def openWritable_def)
    next
      case False
      with assms(3) Some have "plan = None" by (cases plan) (auto simp: usable_def)
      with False Some e show ?thesis by (simp add: discard_broken_def openWritable_def)
    qed
  qed
qed

lemma nodes_setStat [simp]: "nodes_t (setStat k v d) = nodes_t d"
  by (simp add: setStat_def)

lemma writeStamp_nodes [simp]: "nodes_t (overlay_db (writeStamp fp f)) = nodes_t (overlay_db f)"
  by (simp add: writeStamp_def setStat_def split: option.split)

lemma settled_fresh:
  assumes "settled f" "nodes_t (overlay_db f) \<noteq> [] \<or> watermark (overlay_index f) = Some (Some (int (length (nodes_t (overlay_db f)))))"
  shows "settled (writeStamp fp f)" "os_integrityOk (state_of (writeStamp fp f))"
    and "fp_hash fp \<noteq> [] \<Longrightarrow> is_fresh fp (Some (state_of (writeStamp fp f)))"
proof -
  let ?f = "writeStamp fp f"
  have n: "nodes_t (overlay_db ?f) = nodes_t (overlay_db f)" by (rule writeStamp_nodes)
  have w: "watermark (overlay_index ?f) = watermark (overlay_index f)" by (simp add: writeStamp_def)
  have rd: "nodes_readable (overlay_index ?f)" "stats_readable (overlay_index ?f)" "readInFlight (overlay_index ?f) = []"
    using assms(1) by (simp_all add: writeStamp_def settled_def)
  then show "settled ?f" by (simp add: settled_def)
  have i: "\<exists>i. readIndexIntegrity (overlay_index ?f) = Some i \<and> ii_ok i"
    using rd assms(2) by (auto simp: readIndexIntegrity_def n w inProgressSince_def Let_def)
  then show "os_integrityOk (state_of ?f)" using rd by (auto simp: state_of_def Let_def)
  have "getStat STAMP_KEY (overlay_db ?f) = Some (fp_hash fp)" by (simp add: writeStamp_def)
  with i rd show "fp_hash fp \<noteq> [] \<Longrightarrow> is_fresh fp (Some (state_of ?f))" by (auto simp: is_fresh_def state_of_def Let_def)
qed

lemma plan_usable:
  assumes "choose_plan en fp full b0 = Inr (Some cs, b)"
  shows "usable (rb_state b)" "plan_of en b = Some cs" "\<not> overCap cs"
proof -
  have u: "usable (rb_state b')" if "plan_of en b' = Some c" for b' c using that by (auto simp: plan_of_def split: option.splits if_splits)
  show p: "plan_of en b = Some cs"
    using assms by (auto simp: planning sbind_eq_Inr_iff Let_def reseed_def split: if_splits option.splits)
  then show "usable (rb_state b)" by (rule u)
  show "\<not> overCap cs" using assms by (auto simp: planning sbind_eq_Inr_iff Let_def split: if_splits option.splits)
qed

text \<open>C37: after a refresh that succeeds, no declaration is left and the overlay can be read; unless an
  incremental one has emptied the graph it reads as fresh, and the next refresh of the unchanged
  worktree does nothing.
\<close>

theorem refresh_settles:
  assumes "refreshOverlay en full force slot = (Inr out, states)" "ro_action out \<noteq> AlreadyFresh"
    and "rf_fingerprint en = Some fp" "fp_hash fp \<noteq> []"
  shows "\<exists>f. last states = Overlay f \<and> settled f
    \<and> (ro_action out = FullParse \<or> ro_nodes out \<noteq> 0 \<longrightarrow> is_fresh fp (Some (state_of f))
      \<and> (\<forall>en'. rf_fingerprint en' = Some fp \<longrightarrow>
          (\<exists>out'. refreshOverlay en' False False (Overlay f) = (Inr out', []) \<and> ro_action out' = AlreadyFresh)))"
proof -
  obtain state where state: "readOverlayState slot = Inr state"
    using assms(1,3) by (auto simp: refreshOverlay_def split: sum.splits)
  let ?b0 = "\<lparr>rb_seeded = False, rb_slot = slot, rb_state = state\<rparr>"
  obtain plan b r where c: "choose_plan en fp full ?b0 = Inr (plan, b)" and run: "run_plan en fp plan b = (Inr out, r)"
    and states: "states = rr_history r"
    using assms(1-3) state by (auto simp: refreshOverlay_def split: sum.splits if_splits prod.splits)
  have "(rb_state b = Some st \<longrightarrow> (\<exists>f. rb_slot b = Overlay f \<and> st = state_of f) \<or> st = unhealthy)
      \<and> (rb_state b = None \<longrightarrow> rb_slot b = NoOverlay)" for st
    using choose_plan_base [OF c] state by (auto simp: readOverlayState_def split: overlay_slot.splits)
  moreover have "plan \<noteq> None \<Longrightarrow> usable (rb_state b)" using plan_usable(1) c by blast
  ultimately have o: "calm (rr_file (open_run plan b))" "rr_handle (open_run plan b) = None"
    using open_calm [where b = b and plan = plan] by blast+
  have fin: "\<exists>f. last (rr_history r) = Overlay f \<and> f = writeStamp fp g \<and> ro_nodes out = int (length (nodes_t (overlay_db g)))"
    if "finish_refresh fp b p q = (Inr out, r)" "rr_file q = g" for p q g
    using that by (auto simp: finish_refresh_def Let_def)
  have finished: ?thesis if "last (rr_history r) = Overlay f" "f = writeStamp fp g" "settled g" "ro_nodes out = int (length (nodes_t (overlay_db g)))"
    "ro_action out = FullParse \<longrightarrow> watermark (overlay_index g) = Some (Some (int (length (nodes_t (overlay_db g)))))" for f g
  proof -
    have "is_fresh fp (Some (state_of f))" if "ro_action out = FullParse \<or> ro_nodes out \<noteq> 0"
      unfolding \<open>f = _\<close> using that assms(4) \<open>settled g\<close> \<open>ro_nodes out = _\<close> \<open>ro_action out = FullParse \<longrightarrow> _\<close>
      by (intro settled_fresh(3)) auto
    moreover have "settled f" using \<open>settled g\<close> by (simp add: \<open>f = _\<close> settled_def writeStamp_def)
    ultimately show ?thesis
      using \<open>last (rr_history r) = Overlay f\<close> states by (auto simp: refreshOverlay_def readOverlayState_def)
  qed
  have by_full: ?thesis if "full_then_finish en fp b q = (Inr out, r)" "calm (rr_file q)" "rr_handle q = None" for q
  proof -
    obtain x q1 where x: "full_parse en q = (x, q1)" by (cases "full_parse en q")
    with that(1) obtain u where q1: "full_parse en q = (Inr u, q1)" "finish_refresh fp b None q1 = (Inr out, r)"
      by (cases x) (simp_all add: full_then_finish_def)
    show ?thesis using full_settles [OF q1(1) that(3,2)] fin [OF q1(2) refl] finished by blast
  qed
  show ?thesis
  proof (cases plan)
    case None
    with run o by_full show ?thesis by (simp add: run_plan_def Let_def)
  next
    case (Some cs)
    obtain x q where x: "incremental en cs (open_run plan b) = (Inr x, q)"
      using run Some by (auto simp: run_plan_def Let_def split: prod.splits sum.splits)
    have q: "settled (rr_file q)" "rr_handle q = None" using incremental_settles [OF x o(2,1)] by auto
    show ?thesis
    proof (cases x)
      case True
      with run Some x q by_full show ?thesis by (simp add: run_plan_def settled_calm)
    next
      case False
      with run Some x have f: "finish_refresh fp b plan q = (Inr out, r)" by (simp add: run_plan_def)
      then have "ro_action out \<noteq> FullParse" using Some by (auto simp: finish_refresh_def Let_def)
      with fin [OF f refl] q(1) finished show ?thesis by blast
    qed
  qed
qed

subsection \<open>Every difference is parsed again\<close>

text \<open>
  What git, the disk and an index hold, as contents of paths. An index is accounted for by a commit
  and a list of paths when it holds the committed content of every source file not on the list.
\<close>

definition accounted :: "(string \<Rightarrow> bool) \<Rightarrow> (string \<Rightarrow> string \<Rightarrow> 'c option) \<Rightarrow> (string \<Rightarrow> 'c option) \<Rightarrow> string \<Rightarrow> string list \<Rightarrow> bool" where
  "accounted ignored committed held head dirty \<longleftrightarrow>
     (\<forall>p. isSourcePath p \<longrightarrow> \<not> ignored p \<longrightarrow> p \<notin> set dirty \<longrightarrow> held p = committed head p)"

text \<open>What is documented of git: the difference to a commit and the untracked files are all that differs, the status likewise.\<close>

definition git_diff_complete :: "(string \<Rightarrow> bool) \<Rightarrow> (string \<Rightarrow> string \<Rightarrow> 'c option) \<Rightarrow> (string \<Rightarrow> 'c option) \<Rightarrow> refresh_env \<Rightarrow> bool" where
  "git_diff_complete ignored committed contents en \<longleftrightarrow> (\<forall>p. rf_exists en p \<longleftrightarrow> contents p \<noteq> None)
     \<and> (\<forall>h diff p. gitDiffSince (rf_diff en h) = Some diff \<longrightarrow> \<not> ignored p \<longrightarrow> committed h p \<noteq> contents p \<longrightarrow>
          p \<in> set (fst diff @ snd diff @ gitUntracked (rf_untracked en)))"

definition reparsed :: "change_set \<Rightarrow> (string \<Rightarrow> 'c option) \<Rightarrow> (string \<Rightarrow> 'c option) \<Rightarrow> string \<Rightarrow> 'c option" where
  "reparsed cs contents held p = (if p \<in> set (fst cs) then contents p else if p \<in> set (snd cs) then None else held p)"

text \<open>
  An overlay that is accounted for holds, once the files of the change set are parsed again or
  purged, exactly what the worktree holds: edits, new files, deletions, edits that were reverted
  since, and files that differ between the commits. It is then accounted for by the fingerprint,
  which the stamp stores, if the status lists what differs from its commit; so the next refresh
  finds it so again. A seed is accounted for because its list includes what main was dirty with.
\<close>

theorem changes_cover:
  assumes "accounted ignored committed held head dirty" "git_diff_complete ignored committed contents en"
    and "computeChangeSet en head dirty = Some cs"
  shows "\<forall>p. isSourcePath p \<longrightarrow> \<not> ignored p \<longrightarrow> reparsed cs contents held p = contents p"
    and "set (fst cs) \<inter> set (snd cs) = {}" "\<forall>p \<in> set (fst cs @ snd cs). isSourcePath p"
    and "(\<And>p. \<not> ignored p \<Longrightarrow> contents p \<noteq> committed head' p \<Longrightarrow> p \<in> set dirty')
      \<Longrightarrow> accounted ignored committed (reparsed cs contents held) head' dirty'"
proof -
  obtain diff where diff: "gitDiffSince (rf_diff en head) = Some diff"
    and cs: "set (fst cs) = {p \<in> set (candidates en diff dirty). rf_exists en p}"
      "set (snd cs) = {p \<in> set (candidates en diff dirty). \<not> rf_exists en p}"
    using assms(3) by (auto simp: computeChangeSet_def Let_def split: option.splits)
  have "reparsed cs contents held p = contents p" if p: "isSourcePath p" "\<not> ignored p" for p
  proof (cases "p \<in> set (candidates en diff dirty)")
    case True
    with cs assms(2) show ?thesis by (auto simp: reparsed_def git_diff_complete_def)
  next
    case False
    with p(1) have "p \<notin> set dirty" "p \<notin> set (fst diff @ snd diff @ gitUntracked (rf_untracked en))"
      by (auto simp: candidates_def)
    moreover have "held p = committed head p" using p \<open>p \<notin> set dirty\<close> assms(1) by (simp add: accounted_def)
    moreover have "committed head p = contents p"
      using assms(2) diff p(2) \<open>p \<notin> set (fst diff @ _)\<close> unfolding git_diff_complete_def by blast
    ultimately show ?thesis using False cs by (simp add: reparsed_def)
  qed
  then show r: "\<forall>p. isSourcePath p \<longrightarrow> \<not> ignored p \<longrightarrow> reparsed cs contents held p = contents p" by blast
  show "set (fst cs) \<inter> set (snd cs) = {}" using cs by auto
  show "\<forall>p \<in> set (fst cs @ snd cs). isSourcePath p" using cs by (auto simp: candidates_def)
  show "accounted ignored committed (reparsed cs contents held) head' dirty'"
    if "\<And>p. \<not> ignored p \<Longrightarrow> contents p \<noteq> committed head' p \<Longrightarrow> p \<in> set dirty'"
    using r that by (auto simp: accounted_def)
qed

theorem seed_accounted:
  assumes "seedFromMain en = Inr (Some f)" "rf_main_copy en = Some d" "readIngestDirty (dk_dirty d) = Some (DirtyPaths recorded)"
    and "accounted ignored committed held head recorded"
  shows "accounted ignored committed held head (os_dirty (state_of f)) \<and> usable (Some (state_of f)) = (getStat HEAD_KEY (tables (dk_index d)) \<noteq> None)"
proof -
  obtain i current where i: "readIndexIntegrity (dk_index d) = Some i" "ii_ok i" "0 < ii_nodes i"
    and f: "f = seed_file (sorted_unique (recorded @ current)) d"
    using assms(1-3) by (auto simp: seedFromMain_def split: option.splits if_splits)
  have rd: "nodes_readable (dk_index d)" "stats_readable (dk_index d)" "nodes_t (tables (dk_index d)) \<noteq> []"
    using i by (auto simp: readIndexIntegrity_def Let_def split: if_splits option.splits)
  have "overlay_index f = (dk_index d)\<lparr>tables := setStat SEED_PENDING_KEY ''1'' (setStat STAMP_KEY [] (tables (dk_index d))), marker := Some Unparseable\<rparr>"
    by (simp add: f seed_file_def Let_def)
  then have ix: "nodes_readable (overlay_index f)" "stats_readable (overlay_index f)" "marker (overlay_index f) = Some Unparseable"
    "nodes_t (overlay_db f) = nodes_t (tables (dk_index d))" "getStat HEAD_KEY (overlay_db f) = getStat HEAD_KEY (tables (dk_index d))"
    "getStat SEED_PENDING_KEY (overlay_db f) = Some ''1''"
    using rd by simp_all
  have m: "of_seed_marker f" "dirty_paths (of_dirty f) = sorted_unique (recorded @ current)"
    by (simp_all add: f seed_file_def Let_def dirty_paths_def)
  have "readInFlight (overlay_index f) = [malformed_entry]" using ix(3) by (simp add: readInFlight_def parseInFlight_def)
  then have "\<exists>j. readIndexIntegrity (overlay_index f) = Some j \<and> ii_reason j = IngestInterrupted"
    using ix rd(3) by (simp add: readIndexIntegrity_def Let_def inProgressSince_def malformed_entry_def describeInterrupted_def)
  then have "os_seedPending (state_of f)" "os_dirty (state_of f) = sorted_unique (recorded @ current)"
    "os_head (state_of f) = getStat HEAD_KEY (tables (dk_index d))" "0 < os_nodes (state_of f)"
    using ix m rd(3) by (auto simp: state_of_def Let_def)
  with assms(4) show ?thesis by (auto simp: accounted_def usable_def)
qed

subsection \<open>Where it fails\<close>

text \<open>
  The list of dirty paths is written with the stamp, after the ingest. If a refresh dies between
  the two, the overlay is sound, holds the edited file, and its list does not name it.
\<close>

theorem dirty_list_lags:
  assumes "incremental en (changed, deleted) r = (Inr False, r')" "changed \<noteq> []"
  shows "of_dirty (rr_file r') = of_dirty (rr_file r)"
proof -
  have p: "of_dirty (rr_file (fold purge_file ps q)) = of_dirty (rr_file q)" for ps q
    by (induction ps arbitrary: q) (simp_all add: purge_file_def)
  have b: "of_dirty (rr_file (begin_refresh en r)) = of_dirty (rr_file r)"
    by (simp add: begin_refresh_def unstamp_def split: prod.split)
  have i: "of_dirty (rr_file q') = of_dirty (rr_file q)" if "ingest_into opts run q = (x, q')" for opts run q x q'
    using that by (auto simp: ingest_into_def split: prod.splits)
  have re: "of_dirty (rr_file (reresolve en q)) = of_dirty (rr_file q)" for q
    by (simp add: reresolve_def split: option.split)
  show ?thesis
    using assms i p b re by (auto simp: incremental_def incremental_from_def Let_def split: prod.splits sum.splits if_splits)
qed

lemma settle_frame:
  "nodes_t (overlay_db (rr_file (settle_purge en q))) = nodes_t (overlay_db (rr_file q))"
  "watermark (overlay_index (rr_file (settle_purge en q)))
    = watermark (recordNodeWatermark (int (length (nodes_t (overlay_db (rr_file q))))) False (overlay_index (rr_file q)))"
  by (simp_all add: settle_purge_def Let_def prod.case_eq_if view_end recordNodeWatermark_def)

text \<open>
  If the edit is then reverted, the difference to the commit is empty, the next refresh parses
  nothing, and it stamps the overlay as fresh with the rows of the edit in it.
\<close>

theorem reverted_edit_stays:
  assumes "rf_fingerprint en = Some fp" "fp_hash fp \<noteq> []"
    and "os_integrityOk (state_of f)" "os_stamp (state_of f) = None" "os_head (state_of f) = Some head" "0 < os_nodes (state_of f)"
    and "gitDiffSince (rf_diff en head) = Some ([], [])" "gitUntracked (rf_untracked en) = []"
    and "filter isSourcePath (os_dirty (state_of f)) = []"
  shows "\<exists>out states g. refreshOverlay en False False (Overlay f) = (Inr out, states @ [Overlay g])
    \<and> ro_action out = Incremental \<and> ro_reparsed out = 0 \<and> nodes_t (overlay_db g) = nodes_t (overlay_db f) \<and> is_fresh fp (Some (state_of g))"
proof -
  let ?b = "\<lparr>rb_seeded = False, rb_slot = Overlay f, rb_state = Some (state_of f)\<rparr>"
  have cs: "computeChangeSet en head (os_dirty (state_of f)) = Some ([], [])"
  proof -
    have "filter isSourcePath (remdups (os_dirty (state_of f))) = []" using assms(9) by (auto simp: filter_empty_conv)
    then show ?thesis using assms(7,8) by (simp add: computeChangeSet_def candidates_def)
  qed
  have u: "usable (Some (state_of f))" using assms(3,5,6) by (simp add: usable_def)
  have plan: "choose_plan en fp False ?b = Inr (Some ([], []), ?b)"
    using u cs assms(5) by (simp add: planning plan_of_def overCap_def Let_def)
  have opened: "open_run (Some ([], [])) ?b = \<lparr>rr_file = f, rr_handle = None, rr_history = []\<rparr>"
    by (simp add: open_run_def discard_broken_def openWritable_def Let_def)
  let ?r = "\<lparr>rr_file = f, rr_handle = None, rr_history = []\<rparr> :: refresh_run"
  let ?q = "settle_purge en (begin_refresh en ?r)"
  have inc: "incremental en ([], []) ?r = (Inr False, ?q)" by (simp add: incremental_def incremental_from_def Let_def)
  have "calm f" by (rule sound_state_calm) (simp add: assms(3))
  then have s: "settled (rr_file ?q)" using incremental_settles [OF inc] by simp
  have n: "nodes_t (overlay_db (rr_file ?q)) = nodes_t (overlay_db f)"
    using begin_refresh_facts(2) [of ?r en] by (auto simp: settle_frame)
  have "nodes_t (overlay_db f) \<noteq> []" using assms(6) by (auto simp: state_of_def unhealthy_def Let_def split: option.splits if_splits)
  with s n assms(2) have "is_fresh fp (Some (state_of (writeStamp fp (rr_file ?q))))" by (intro settled_fresh(3)) auto
  with n show ?thesis
    using assms(1,4) plan opened inc
    by (auto simp: refreshOverlay_def readOverlayState_def is_fresh_def [of fp "Some (state_of f)"] run_plan_def finish_refresh_def Let_def
        intro!: exI [of _ "writeStamp fp (rr_file ?q)"])
qed

text \<open>
  The watermark of an incremental refresh never falls. When the worktree has lost its last source
  file the graph is empty, the watermark is not, and the overlay that was just stamped reads as
  broken: no read of that worktree ever finds it fresh.
\<close>

theorem emptied_overlay_broken:
  assumes "incremental en ([], deleted) r = (Inr False, r')" "rr_handle r = None" "calm (rr_file r)"
    and "\<forall>n \<in> set (nodes_t (overlay_db (rr_file r))). nr_file n \<in> Some ` set deleted"
    and "watermark (overlay_index (rr_file r)) = Some (Some w)" "0 < w"
  shows "\<not> is_fresh fp' (Some (state_of (writeStamp fp (rr_file r')))) \<and> \<not> usable (Some (state_of (writeStamp fp (rr_file r'))))"
proof -
  let ?r0 = "begin_refresh en r" let ?r1 = "fold purge_file deleted ?r0"
  note b = begin_refresh_facts(2) [OF assms(2), of en]
  have "nodes_t (overlay_db (rr_file ?r1)) = []" "watermark (overlay_index (rr_file ?r1)) = Some (Some w)"
    using purge_facts [of deleted ?r0] b assms(4,5) by (auto simp: filter_empty_conv)
  then have q: "nodes_t (overlay_db (rr_file (settle_purge en ?r1))) = []" "watermark (overlay_index (rr_file (settle_purge en ?r1))) = Some (Some w)"
    using assms(6) by (simp_all add: settle_frame recordNodeWatermark_def)
  have re: "nodes_t (overlay_db (rr_file (reresolve en p))) = nodes_t (overlay_db (rr_file p))"
    "watermark (overlay_index (rr_file (reresolve en p))) = watermark (overlay_index (rr_file p))" for p
  proof -
    have "nodes_t (fold (rewrite_edge now) rs d) = nodes_t d" for now rs d
      by (induction rs arbitrary: d) (simp_all add: rewrite_edge_def upsertEdge_def split: prod.split)
    then show "nodes_t (overlay_db (rr_file (reresolve en p))) = nodes_t (overlay_db (rr_file p))"
      "watermark (overlay_index (rr_file (reresolve en p))) = watermark (overlay_index (rr_file p))"
      by (simp_all add: reresolve_def reresolve_alt split: option.split)
  qed
  have "r' = settle_purge en ?r1 \<or> r' = reresolve en (settle_purge en ?r1)"
    using assms(1) by (auto simp: incremental_def incremental_from_def Let_def split: if_splits)
  then have e: "nodes_t (overlay_db (rr_file r')) = []" "watermark (overlay_index (rr_file r')) = Some (Some w)" using q re by auto
  have "watermark (overlay_index (writeStamp fp (rr_file r'))) = Some (Some w)" "nodes_t (overlay_db (writeStamp fp (rr_file r'))) = []"
    using e by (simp add: writeStamp_def) (use e in simp)
  then have "\<not> os_integrityOk (state_of (writeStamp fp (rr_file r')))" "os_nodes (state_of (writeStamp fp (rr_file r'))) = 0"
    using assms(6) by (auto simp: state_of_def unhealthy_def readIndexIntegrity_def Let_def split: option.split if_splits)
  then show ?thesis by (simp add: is_fresh_def usable_def)
qed

subsection \<open>Status\<close>

lemma integrity_reason: "readIndexIntegrity ix = Some i \<Longrightarrow> ii_ok i \<longleftrightarrow> ii_reason i = IndexOk"
  by (auto simp: readIndexIntegrity_def Let_def split: if_splits option.splits)

text \<open>The status says fresh exactly when a refresh would do nothing.\<close>

theorem status_agrees:
  assumes "rf_fingerprint en = Some fp" "readOverlayState slot = Inr state"
  shows "overlayStatus True err (Some fp) slot = IsFresh \<longleftrightarrow> is_fresh fp state"
    and "is_fresh fp state \<longleftrightarrow> (\<exists>out. refreshOverlay en False False slot = (Inr out, []) \<and> ro_action out = AlreadyFresh)"
proof -
  have "os_integrityOk (state_of f) \<longrightarrow> \<not> os_seedPending (state_of f)" for f
    using integrity_reason [of "overlay_index f"] by (auto simp: state_of_def unhealthy_def Let_def split: option.split)
  then have "os_integrityOk st \<longrightarrow> \<not> os_seedPending st" if "state = Some st" for st
    using that assms(2) by (auto simp: readOverlayState_def unhealthy_def split: overlay_slot.splits)
  then show "overlayStatus True err (Some fp) slot = IsFresh \<longleftrightarrow> is_fresh fp state"
    using assms(2) by (auto simp: overlayStatus_def is_fresh_def Let_def split: option.split if_splits)
  have act: "ro_action out \<noteq> AlreadyFresh" if "run_plan en fp plan b = (Inr out, r)" for plan b out r
    using that by (auto simp: run_plan_def full_then_finish_def finish_refresh_def Let_def split: option.splits prod.splits sum.splits bool.splits if_splits)
  show "is_fresh fp state \<longleftrightarrow> (\<exists>out. refreshOverlay en False False slot = (Inr out, []) \<and> ro_action out = AlreadyFresh)"
    using assms act by (auto simp: refreshOverlay_def split: sum.splits prod.splits)
qed

subsection \<open>A crash and a reverted edit\<close>

definition small_run :: "string \<Rightarrow> native_run" where
  "small_run hash = \<lparr>run_records = [(6, VersionRec 0 1 0 2), (6, StartRec 1 ''0.1.0''),
     (6, NodeRec (NativeNode ''a.ts'' ''a'' ''a'' ''module'' ''typescript'' (1, 2) hash))], run_throws = False, run_exit = 0\<rparr>"

text \<open>The worktree with the content of \<open>a.ts\<close> that hashes so, and what git says of it.\<close>

definition small_env :: "string \<Rightarrow> string list \<Rightarrow> string \<Rightarrow> string \<Rightarrow> refresh_env" where
  "small_env fingerprint dirty diff hash = \<lparr>rf_fingerprint = Some \<lparr>fp_hash = fingerprint, fp_head = Some ''abcdef0'', fp_dirty = dirty\<rparr>,
     rf_diff = (\<lambda>_. Some diff), rf_untracked = Some [], rf_exists = (\<lambda>p. p = ''a.ts''), rf_isAncestor = (\<lambda>_ _. True),
     rf_main_checked = None, rf_main_copy = None, rf_main_status = None, rf_minted = ''7:a:b'', rf_begun = 5, rf_ended = 9,
     rf_files_run = (\<lambda>_. small_run hash), rf_full_run = small_run hash, rf_files_opts = plain_opts, rf_full_opts = plain_opts,
     rf_reresolve = None\<rparr>"

definition clean_env :: refresh_env where "clean_env = small_env ''f0'' [] [] ''old''"

definition edited_env :: refresh_env where
  "edited_env = small_env ''f1'' [''a.ts''] (''M'' @ [CHR 0x00] @ ''a.ts'' @ [CHR 0x00]) ''new''"

definition hashes :: "overlay_slot \<Rightarrow> string option list" where
  "hashes s = (case s of Overlay f \<Rightarrow> map nr_ast_hash (nodes_t (overlay_db f)) | _ \<Rightarrow> [])"

definition reads_fresh :: "refresh_env \<Rightarrow> overlay_slot \<Rightarrow> bool" where
  "reads_fresh en s = (case (rf_fingerprint en, readOverlayState s) of (Some fp, Inr st) \<Rightarrow> is_fresh fp st | _ \<Rightarrow> False)"

definition clean_print :: worktree_fingerprint where
  "clean_print = \<lparr>fp_hash = ''f0'', fp_head = Some ''abcdef0'', fp_dirty = []\<rparr>"

definition edited_print :: worktree_fingerprint where
  "edited_print = \<lparr>fp_hash = ''f1'', fp_head = Some ''abcdef0'', fp_dirty = [''a.ts'']\<rparr>"

definition no_base :: refresh_base where
  "no_base = \<lparr>rb_seeded = False, rb_slot = NoOverlay, rb_state = None\<rparr>"

text \<open>What an overlay of that worktree looks like.\<close>

definition small_file :: "string \<Rightarrow> string \<Rightarrow> overlay_file" where
  "small_file stamp hash = \<lparr>of_disk = \<lparr>dk_index = \<lparr>tables =
       \<lparr>nodes_t = [\<lparr>nr_id = ''a'', nr_name = ''a'', nr_qualified_name = ''a'', nr_kind = ''module'', nr_language = Some ''typescript'',
            nr_file = Some ''a.ts'', nr_range_start = 1, nr_range_end = 2, nr_ast_hash = Some hash, nr_summary = None,
            nr_last_seen = Some 6, nr_logical_clock = 0, nr_last_modified_by = None, nr_merge_flagged = 0\<rparr>],
          edges_t = [], call_sites_t = [], merge_rejections_t = [], claims_t = [],
          stats_t = [(''overlay_fingerprint'', stamp), (''overlay_seed_pending'', []), (''last_ingest_at'', ''9''),
            (''last_ingest_native_nodes'', ''0''), (''last_ingest_warnings'', ''0''), (''last_ingest_id_collisions'', ''0''),
            (''last_ingest_git_head'', ''abcdef0'')],
          nodes_fts_t = [\<lparr>fts_id = ''a'', fts_name = ''a'', fts_qualified_name = ''a'', fts_summary = [], fts_path = ''a ts a''\<rparr>],
          fts_triggers = True, has_fts = True\<rparr>,
        marker = None, watermark = Some (Some 1), nodes_readable = True, stats_readable = True\<rparr>, dk_dirty = None\<rparr>,
     of_dirty = Some (Some (JArr [])), of_seed_marker = False\<rparr>"

definition small_base :: refresh_base where
  "small_base = \<lparr>rb_seeded = False, rb_slot = Overlay (small_file ''f0'' ''old''), rb_state = Some (state_of (small_file ''f0'' ''old''))\<rparr>"

lemma small_state:
  "state_of (small_file stamp hash) = \<lparr>os_stamp = (if stamp \<noteq> [] then Some stamp else None), os_dirty = [], os_head = Some ''abcdef0'',
     os_integrityOk = True, os_seedPending = False, os_nodes = 1\<rparr>"
  by (simp add: state_of_def small_file_def readIndexIntegrity_def readInFlight_def parseInFlight_def inProgressSince_def getStat_def
      STAMP_KEY_def SEED_PENDING_KEY_def HEAD_KEY_def dirty_paths_def map_filter_simps Let_def)

lemma built:
  "isl (fst (run_plan clean_env clean_print None no_base)) = False"
  "last (rr_history (snd (run_plan clean_env clean_print None no_base))) = Overlay (small_file ''f0'' ''old'')"
  by code_simp+

definition parsed_edit :: "(ingest_error + ingest_result) \<times> refresh_run" where
  "parsed_edit = ingest_into ((rf_files_opts edited_env)\<lparr>io_fullRebuild := False, io_clearBeforeIngest := False\<rparr>)
     (rf_files_run edited_env [''a.ts''])
     (fold purge_file ([] @ [''a.ts'']) (begin_refresh edited_env (open_run (Some ([''a.ts''], [])) small_base)))"

lemma parsed_edit:
  "(case fst parsed_edit of Inr res \<Rightarrow> ir_filesTotal res = 1 | Inl _ \<Rightarrow> False)"
  "last (rr_history (snd parsed_edit)) = Overlay (small_file [] ''new'')" "rr_history (snd parsed_edit) \<noteq> []"
  by code_simp+

lemma crashed:
  "incremental edited_env ([''a.ts''], []) (open_run (Some ([''a.ts''], [])) small_base) = (Inr False, snd parsed_edit)"
proof -
  obtain x r where x: "parsed_edit = (x, r)" by (cases parsed_edit)
  have "case x of Inr res \<Rightarrow> ir_filesTotal res = 1 | Inl _ \<Rightarrow> False" using parsed_edit(1) unfolding x by simp
  then obtain res where "x = Inr res" "ir_filesTotal res = 1" by (cases x) auto
  with x show ?thesis
    by (simp add: incremental_def incremental_from_def parsed_edit_def reresolve_def edited_env_def small_env_def)
qed

lemma prints: "rf_fingerprint clean_env = Some clean_print" "rf_fingerprint edited_env = Some edited_print"
  by (simp_all add: clean_env_def edited_env_def small_env_def clean_print_def edited_print_def)

lemma refresh_built: "snd (refreshOverlay clean_env False False NoOverlay) = rr_history (snd (run_plan clean_env clean_print None no_base))"
  "fst (refreshOverlay clean_env False False NoOverlay) = fst (run_plan clean_env clean_print None no_base)"
proof -
  have "choose_plan clean_env clean_print False \<lparr>rb_seeded = False, rb_slot = NoOverlay, rb_state = None\<rparr> = Inr (None, no_base)"
    by (simp add: planning usable_def reseed_def seedFromMain_def clean_env_def small_env_def no_base_def)
  then show "snd (refreshOverlay clean_env False False NoOverlay) = rr_history (snd (run_plan clean_env clean_print None no_base))"
    "fst (refreshOverlay clean_env False False NoOverlay) = fst (run_plan clean_env clean_print None no_base)"
    by (simp_all add: refreshOverlay_def prints readOverlayState_def is_fresh_def prod.case_eq_if)
qed

lemma refresh_crashed:
  "\<exists>early stamped. snd (refreshOverlay edited_env False False (Overlay (small_file ''f0'' ''old'')))
    = early @ [Overlay (small_file [] ''new''), stamped]"
proof -
  have cs: "computeChangeSet edited_env ''abcdef0'' [] = Some ([''a.ts''], [])" by code_simp
  have plan: "choose_plan edited_env edited_print False small_base = Inr (Some ([''a.ts''], []), small_base)"
    by (simp add: planning plan_of_def small_base_def small_state usable_def cs overCap_def OVERLAY_INCREMENTAL_CAP_def)
  have h: "rr_history (snd parsed_edit) = butlast (rr_history (snd parsed_edit)) @ [Overlay (small_file [] ''new'')]"
    using parsed_edit(2,3) by (metis append_butlast_last_id)
  have "snd (refreshOverlay edited_env False False (Overlay (small_file ''f0'' ''old'')))
      = rr_history (snd (run_plan edited_env edited_print (Some ([''a.ts''], [])) small_base))"
    using plan by (simp add: refreshOverlay_def prints readOverlayState_def is_fresh_def small_state edited_print_def small_base_def prod.case_eq_if)
  also have "\<dots> = rr_history (snd parsed_edit) @ [Overlay (writeStamp edited_print (rr_file (snd parsed_edit)))]"
    using crashed by (simp add: run_plan_def finish_refresh_def Let_def)
  finally show ?thesis using h by (metis append_Cons append_Nil append_assoc)
qed

text \<open>
  The overlay is built, the file is edited, the refresh dies before its stamp, the edit is taken
  back: the overlay then reads as fresh, and holds the edit.
\<close>

theorem stale_overlay_reads_fresh:
  "\<exists>overlay crashed stamped early final.
     last (snd (refreshOverlay clean_env False False NoOverlay)) = overlay \<and> reads_fresh clean_env overlay \<and> hashes overlay = [Some ''old'']
     \<and> snd (refreshOverlay edited_env False False overlay) = early @ [crashed, stamped]
     \<and> last (snd (refreshOverlay clean_env False False crashed)) = final \<and> reads_fresh clean_env final \<and> hashes final = [Some ''new'']"
proof -
  let ?o = "Overlay (small_file ''f0'' ''old'')" let ?c = "Overlay (small_file [] ''new'')"
  have o: "last (snd (refreshOverlay clean_env False False NoOverlay)) = ?o" using refresh_built(1) built(2) by simp
  have f: "reads_fresh clean_env ?o" by (simp add: reads_fresh_def prints readOverlayState_def is_fresh_def small_state clean_print_def)
  have h: "hashes ?o = [Some ''old'']" "hashes ?c = [Some ''new'']" by (simp_all add: hashes_def small_file_def)
  obtain early stamped where e: "snd (refreshOverlay edited_env False False ?o) = early @ [?c, stamped]" using refresh_crashed by blast
  have d: "gitDiffSince (rf_diff clean_env ''abcdef0'') = Some ([], [])" "gitUntracked (rf_untracked clean_env) = []" by code_simp+
  obtain out states g where g: "refreshOverlay clean_env False False ?c = (Inr out, states @ [Overlay g])"
    "nodes_t (overlay_db g) = nodes_t (overlay_db (small_file [] ''new''))" "is_fresh clean_print (Some (state_of g))"
    using reverted_edit_stays [OF prints(1) _ _ _ _ _ d, of "small_file [] ''new''"] by (auto simp: small_state clean_print_def)
  have "reads_fresh clean_env (Overlay g)" using g(3) by (simp add: reads_fresh_def prints readOverlayState_def)
  moreover have "hashes (Overlay g) = [Some ''new'']" using g(2) h(2) by (simp add: hashes_def)
  moreover have "last (snd (refreshOverlay clean_env False False ?c)) = Overlay g" using g(1) by simp
  ultimately show ?thesis using o f h(1) e by blast
qed

lemma refresh_built_full:
  "\<exists>out states. refreshOverlay clean_env False False NoOverlay = (Inr out, states) \<and> ro_action out = FullParse"
proof -
  obtain res r where run: "run_plan clean_env clean_print None no_base = (res, r)" by (cases "run_plan clean_env clean_print None no_base")
  with built(1) obtain out where out: "res = Inr out" by (cases res) auto
  have "ro_action out = FullParse"
    using run out by (auto simp: run_plan_def full_then_finish_def finish_refresh_def Let_def split: prod.splits sum.splits)
  moreover have "refreshOverlay clean_env False False NoOverlay = (Inr out, rr_history r)"
    using refresh_built run out by (metis prod.collapse fst_conv snd_conv)
  ultimately show ?thesis by blast
qed

theorem never_falsely_fresh_witness:
  "\<exists>f. last (snd (refreshOverlay clean_env False False NoOverlay)) = Overlay f \<and> getStat STAMP_KEY (overlay_db f) = Some (fp_hash clean_print)"
proof -
  obtain out states where eq: "refreshOverlay clean_env False False NoOverlay = (Inr out, states)" and act: "ro_action out = FullParse"
    using refresh_built_full by blast
  show ?thesis using never_falsely_fresh [OF eq] act prints(1) by (auto simp: eq)
qed

theorem refresh_settles_witness:
  "\<exists>f. last (snd (refreshOverlay clean_env False False NoOverlay)) = Overlay f \<and> settled f \<and> is_fresh clean_print (Some (state_of f))"
proof -
  obtain out states where eq: "refreshOverlay clean_env False False NoOverlay = (Inr out, states)" and act: "ro_action out = FullParse"
    using refresh_built_full by blast
  show ?thesis using refresh_settles [OF eq _ prints(1)] act eq by (auto simp: clean_print_def)
qed

end
